(* ===== verification/Lwip_Prelude.thy ===== *)
theory Lwip_Prelude
  imports Main "HOL-Library.Word" "HOL-Library.Monad_Syntax"
begin

text \<open>
  Shared vocabulary of the development: the integer types of \<^verbatim>\<open>arch/cc.h\<close> and
  \<^verbatim>\<open>lwip/arch.h\<close> as words of the same width, the error codes of \<^verbatim>\<open>lwip/err.h\<close>,
  and generic lemmas on words and lists that several components use.

  Conventions.
  \<^item> A result of type \<open>'a option\<close> of an operation that works on a store is \<open>None\<close> exactly when
    the C program has no defined continuation: a failed \<^verbatim>\<open>LWIP_ASSERT\<close> (which calls \<^verbatim>\<open>abort\<close>
    in this port), an access through a null or dangling pointer to a pbuf, a control block, an
    interface or an element of a pool, or a loop that does not end. A theorem that such an operation
    returns \<open>Some\<close> excludes all of them.
  \<^item> The memory of bytes is total: a read behind the end of a payload is not excluded by \<open>Some\<close>,
    it gives the byte that lies there. Where the code may read so, that is a finding of its own, and
    the theorems say which bytes of a packet they rely on.
  \<^item> Errors the code reports to its caller are values: \<open>err_t\<close>, a null pointer as \<open>None\<close> of a
    pointer type, a flag. \<^verbatim>\<open>LWIP_ERROR\<close> prints a message and runs its handler in this port, so
    it is a branch that returns such a value.
\<close>

unbundle bit_operations_syntax

named_theorems word_facts \<open>widths and conversions of machine words\<close>
named_theorems macro_defs \<open>definitions of C function-like macros\<close>

type_synonym u8 = "8 word"
type_synonym u16 = "16 word"
type_synonym u32 = "32 word"

datatype err_t =
    ERR_OK | ERR_MEM | ERR_BUF | ERR_TIMEOUT | ERR_RTE | ERR_INPROGRESS | ERR_VAL
  | ERR_WOULDBLOCK | ERR_USE | ERR_ALREADY | ERR_ISCONN | ERR_CONN | ERR_IF
  | ERR_ABRT | ERR_RST | ERR_CLSD | ERR_ARG

text \<open>The numeric value of an error code, and the test for the codes after which the connection is gone.\<close>

fun err_code :: "err_t \<Rightarrow> int" where
  "err_code ERR_OK = 0"
| "err_code ERR_MEM = -1"
| "err_code ERR_BUF = -2"
| "err_code ERR_TIMEOUT = -3"
| "err_code ERR_RTE = -4"
| "err_code ERR_INPROGRESS = -5"
| "err_code ERR_VAL = -6"
| "err_code ERR_WOULDBLOCK = -7"
| "err_code ERR_USE = -8"
| "err_code ERR_ALREADY = -9"
| "err_code ERR_ISCONN = -10"
| "err_code ERR_CONN = -11"
| "err_code ERR_IF = -12"
| "err_code ERR_ABRT = -13"
| "err_code ERR_RST = -14"
| "err_code ERR_CLSD = -15"
| "err_code ERR_ARG = -16"

definition ERR_IS_FATAL :: "err_t \<Rightarrow> bool" where
  "ERR_IS_FATAL e \<longleftrightarrow> err_code e \<le> err_code ERR_ABRT"

text \<open>A failed assertion ends the program: \<open>lwip_assert b\<close> continues only when \<open>b\<close> holds.\<close>

definition lwip_assert :: "bool \<Rightarrow> unit option" where
  "lwip_assert b = (if b then Some () else None)"

lemma lwip_assert_simps [simp]:
  "lwip_assert True = Some ()" "lwip_assert False = None"
  by (simp_all add: lwip_assert_def)

lemma lwip_assert_eq_Some [simp]: "lwip_assert b = Some u \<longleftrightarrow> b"
  by (simp add: lwip_assert_def)

lemma bind_assert_eq_Some [simp]:
  "Option.bind (lwip_assert b) f = Some y \<longleftrightarrow> b \<and> f () = Some y"
  by (simp add: lwip_assert_def)


section \<open>Words\<close>

lemma unat_u8_less [simp, word_facts]: "unat (x :: u8) < 256"
  using unsigned_less [of x] by simp

lemma unat_u16_less [simp, word_facts]: "unat (x :: u16) < 65536"
  using unsigned_less [of x] by simp

lemma unat_u32_less [simp, word_facts]: "unat (x :: u32) < 4294967296"
  using unsigned_less [of x] by simp

lemma unat_u16_of_nat [word_facts]: "unat (of_nat n :: u16) = n mod 65536"
  by (simp add: unat_of_nat)

lemma unat_u32_of_nat [word_facts]: "unat (of_nat n :: u32) = n mod 4294967296"
  by (simp add: unat_of_nat)

lemma unat_u8_of_nat [word_facts]: "unat (of_nat n :: u8) = n mod 256"
  by (simp add: unat_of_nat)

lemma unat_add_u16 [word_facts]: "unat (a + b :: u16) = (unat a + unat b) mod 65536"
  by (simp add: unat_word_ariths)

lemma unat_add_u32 [word_facts]: "unat (a + b :: u32) = (unat a + unat b) mod 4294967296"
  by (simp add: unat_word_ariths)

lemma unat_sub_word: "b \<le> a \<Longrightarrow> unat (a - b) = unat a - unat b"
  by (rule unat_sub)

text \<open>Masking and shifting by byte boundaries, read as arithmetic.\<close>

lemma and_255_eq_mod: "x AND (255 :: 'a :: len word) = x mod 256" if "8 < LENGTH('a)"
proof -
  have "(255 :: 'a word) = mask 8" by (simp add: mask_eq_exp_minus_1)
  then have "x AND 255 = take_bit 8 x" by (simp add: take_bit_eq_mask)
  also have "\<dots> = x mod 256" by (simp add: take_bit_eq_mod)
  finally show ?thesis .
qed

lemma unat_drop_bit_word: "unat (drop_bit n (x :: 'a :: len word)) = unat x div 2 ^ n"
  unfolding unat_drop_bit_eq by (simp add: drop_bit_eq_div)

lemma unat_take_bit_word: "unat (take_bit n (x :: 'a :: len word)) = unat x mod 2 ^ n"
  unfolding unsigned_take_bit_eq by (simp add: take_bit_eq_mod)

lemma unat_push_bit_word:
  "unat (push_bit n (x :: 'a :: len word)) = (unat x * 2 ^ n) mod 2 ^ LENGTH('a)"
  unfolding unsigned_push_bit_eq by (simp add: push_bit_eq_mult take_bit_eq_mod)

lemma unat_and_255: "unat (x AND (255 :: 'a :: len word)) = unat x mod 256" if "8 < LENGTH('a)"
proof -
  have "(255 :: 'a word) = mask 8" by (simp add: mask_eq_exp_minus_1)
  then have "x AND 255 = take_bit 8 x" by (simp only: take_bit_eq_mask)
  then show ?thesis by (simp only: unat_take_bit_word) simp
qed

lemma and_push_mask:
  "(x :: 'a :: len word) AND push_bit n (mask m) = push_bit n (take_bit m (drop_bit n x))"
  by (rule bit_word_eqI) (auto simp: bit_simps)

lemma unat_or_disjoint: "unat ((x :: 'a :: len word) OR y) = unat x + unat y" if "x AND y = 0"
proof -
  have "unat x AND unat y = 0"
    using that by (metis unsigned_0 unsigned_and_eq)
  then show ?thesis
    by (simp add: unsigned_or_eq disjunctive_add_eq_or)
qed

lemma unat_ucast_u16_u32 [simp]: "unat (ucast (x :: u16) :: u32) = unat x"
  using unat_u16_less [of x] by (simp add: unsigned_ucast_eq take_bit_nat_eq_self del: unat_u16_less)

lemma unat_ucast_u8_u16 [simp]: "unat (ucast (x :: u8) :: u16) = unat x"
  using unat_u8_less [of x] by (simp add: unsigned_ucast_eq take_bit_nat_eq_self del: unat_u8_less)

lemma unat_ucast_u8_u32 [simp]: "unat (ucast (x :: u8) :: u32) = unat x"
  using unat_u8_less [of x] by (simp add: unsigned_ucast_eq take_bit_nat_eq_self del: unat_u8_less)

lemma unat_ucast_u32_u16 [simp]: "unat (ucast (x :: u32) :: u16) = unat x mod 65536"
  by (simp add: unsigned_ucast_eq take_bit_eq_mod)

lemma unat_ucast_u16_u8 [simp]: "unat (ucast (x :: u16) :: u8) = unat x mod 256"
  by (simp add: unsigned_ucast_eq take_bit_eq_mod)

lemma unat_ucast_u32_u8 [simp]: "unat (ucast (x :: u32) :: u8) = unat x mod 256"
  by (simp add: unsigned_ucast_eq take_bit_eq_mod)

text \<open>A property of a single byte is decided by running through the 256 bytes.\<close>

lemma u8_exhaustive: "list_all (\<lambda>n. P (of_nat n :: u8)) [0..<256] \<Longrightarrow> P c"
proof -
  assume "list_all (\<lambda>n. P (of_nat n :: u8)) [0..<256]"
  moreover have "unat c \<in> set [0..<256]" by simp
  ultimately have "P (of_nat (unat c))" by (simp only: list_all_iff)
  then show "P c" by simp
qed

text \<open>Four bytes packed into a number, most significant first.\<close>

lemma bytes4_div:
  fixes a b c d :: nat
  assumes "a < 256" "b < 256" "c < 256" "d < 256"
    and m: "m = 256 * (256 * (256 * a + b) + c) + d"
  shows "m mod 256 = d" "m div 256 mod 256 = c"
    "m div 65536 mod 256 = b" "m div 16777216 mod 256 = a"
proof -
  show "m mod 256 = d" unfolding m using assms(4) by (simp only: mod_mult_self4 mod_less)
  have 2: "m div 256 = 256 * (256 * a + b) + c"
    unfolding m using assms(4) by simp
  show "m div 256 mod 256 = c" unfolding 2 using assms(3) by (simp only: mod_mult_self4 mod_less)
  have 3: "m div 65536 = 256 * a + b" 
  proof -
    have "m div 65536 = m div 256 div 256" by (simp flip: div_mult2_eq)
    also have "\<dots> = 256 * a + b" unfolding 2 using assms(3) by simp
    finally show ?thesis .
  qed
  show "m div 65536 mod 256 = b" unfolding 3 using assms(2) by (simp only: mod_mult_self4 mod_less)
  have "m div 16777216 = m div 65536 div 256" by (simp flip: div_mult2_eq)
  also have "\<dots> = a" unfolding 3 using assms(2) by simp
  finally show "m div 16777216 mod 256 = a" using assms(1) by simp
qed
lemma bytes4_join:
  "256 * (256 * (256 * (m div 16777216) + m div 65536 mod 256) + m div 256 mod 256) + m mod 256 = (m::nat)"
proof -
  have "m div 16777216 = m div 65536 div 256" "m div 65536 = m div 256 div 256" 
    by (simp_all flip: div_mult2_eq)
  then show ?thesis by (simp only: mult_div_mod_eq)
qed


section \<open>Lists\<close>

lemma take_drop_nth: "i < length xs \<Longrightarrow> xs = take i xs @ xs ! i # drop (Suc i) xs"
  by (rule id_take_nth_drop)

lemma sum_list_map_le: "(\<And>x. x \<in> set xs \<Longrightarrow> f x \<le> (k :: nat)) \<Longrightarrow> sum_list (map f xs) \<le> k * length xs"
  by (induction xs) (simp_all add: add_mono)

lemma sum_change_one:
  assumes "finite A" "a \<in> A" "\<And>x. x \<noteq> a \<Longrightarrow> f' x = f x"
  shows "sum f' A + f a = sum f A + (f' a :: nat)"
proof -
  have "sum f' (A - {a}) = sum f (A - {a})" by (rule sum.cong) (use assms(3) in auto)
  then show ?thesis using sum.remove [OF assms(1,2), of f] sum.remove [OF assms(1,2), of f'] by simp
qed


section \<open>Linked lists in a store\<close>

text \<open>
  A pointer is an address or, as \<open>None\<close>, the null pointer. \<open>list_from nxt p xs\<close>: following \<open>nxt\<close>
  from \<open>p\<close> visits exactly the addresses \<open>xs\<close> and then the null pointer.
\<close>

type_synonym ptr = "nat option"

fun list_from :: "(nat \<Rightarrow> ptr) \<Rightarrow> ptr \<Rightarrow> nat list \<Rightarrow> bool" where
  "list_from nxt p [] \<longleftrightarrow> p = None"
| "list_from nxt p (a # as) \<longleftrightarrow> p = Some a \<and> list_from nxt (nxt a) as"

lemma list_from_None [simp]: "list_from nxt None xs \<longleftrightarrow> xs = []"
  by (cases xs) auto

lemma list_from_Some: "list_from nxt (Some a) xs \<longleftrightarrow> (\<exists>as. xs = a # as \<and> list_from nxt (nxt a) as)"
  by (cases xs) auto

lemma list_from_update [simp]: "a \<notin> set xs \<Longrightarrow> list_from (nxt(a := q)) p xs \<longleftrightarrow> list_from nxt p xs"
  by (induction xs arbitrary: p) auto

lemma list_from_unique: "\<lbrakk>list_from nxt p xs; list_from nxt p ys\<rbrakk> \<Longrightarrow> xs = ys"
proof (induction xs arbitrary: p ys)
  case (Cons a xs)
  then show ?case by (cases ys) auto
qed auto

lemma list_from_cong: "\<lbrakk>list_from nxt p xs; \<And>a. a \<in> set xs \<Longrightarrow> nxt' a = nxt a\<rbrakk> \<Longrightarrow> list_from nxt' p xs"
  by (induction xs arbitrary: p) auto

end
