(* ===== verification/Lwip_Def.thy ===== *)
theory Lwip_Def
  imports Lwip_Prelude "HOL-Library.Signed_Division"
begin

text \<open>
  \<^verbatim>\<open>core/def.c\<close> and the macros of \<^verbatim>\<open>lwip/def.h\<close>: byte order conversion and the replacements
  for non-standard string functions.

  The target is little endian (\<^verbatim>\<open>port/arch/cc.h\<close>), so the byte order functions swap. A C string
  is the list of its characters before the terminating NUL (bytes, as \<open>u8\<close>); reading the
  position after the last character yields the NUL. The output buffer of \<^verbatim>\<open>lwip_itoa\<close> is
  the list of the characters written so far.
\<close>

section \<open>Definitions\<close>

subsection \<open>Byte order\<close>

definition PP_HTONS :: "u32 \<Rightarrow> u32" where
  "PP_HTONS x = (push_bit 8 (x AND 0x00FF)) OR (drop_bit 8 (x AND 0xFF00))"

definition PP_HTONL :: "u32 \<Rightarrow> u32" where
  "PP_HTONL x = ((push_bit 24 (x AND 0x000000FF)) OR (push_bit 8 (x AND 0x0000FF00)))
     OR (drop_bit 8 (x AND 0x00FF0000)) OR (drop_bit 24 (x AND 0xFF000000))"

definition lwip_htons :: "u16 \<Rightarrow> u16" where
  "lwip_htons n = ucast (PP_HTONS (ucast n))"

definition lwip_htonl :: "u32 \<Rightarrow> u32" where
  "lwip_htonl n = PP_HTONL n"

subsection \<open>Strings\<close>

type_synonym cstring = "u8 list"

definition cstr :: "string \<Rightarrow> cstring" where
  "cstr s = map of_char s"

definition deref :: "cstring \<Rightarrow> u8" where
  "deref s = (case s of [] \<Rightarrow> 0 | c # _ \<Rightarrow> c)"

text \<open>The outcome \<open>strncmp(s, t, n) == 0\<close> of the C library on NUL-terminated strings.\<close>

definition strncmp_eq :: "cstring \<Rightarrow> cstring \<Rightarrow> nat \<Rightarrow> bool" where
  "strncmp_eq s t n \<longleftrightarrow> take n s = take n t"

text \<open>
  \<^verbatim>\<open>lwip_strnstr\<close>: the result is the offset of the match in the buffer, \<open>None\<close> for the null
  pointer. The loop variable \<open>p\<close> is the offset reached, \<open>rest\<close> the string that starts there.
\<close>

fun lwip_strnstr_loop :: "nat \<Rightarrow> cstring \<Rightarrow> cstring \<Rightarrow> nat \<Rightarrow> nat option" where
  "lwip_strnstr_loop p [] token n = None"
| "lwip_strnstr_loop p (c # rest) token n =
     (if p + length token \<le> n then
        if c = deref token \<and> strncmp_eq (c # rest) token (length token) then Some p
        else lwip_strnstr_loop (Suc p) rest token n
      else None)"

definition lwip_strnstr :: "cstring \<Rightarrow> cstring \<Rightarrow> nat \<Rightarrow> nat option" where
  "lwip_strnstr buffer token n =
     (if length token = 0 then Some 0 else lwip_strnstr_loop 0 buffer token n)"

text \<open>One comparison of the case-insensitive loops: whether they go on past \<open>c1\<close> and \<open>c2\<close>.\<close>

definition chr_imatch :: "u8 \<Rightarrow> u8 \<Rightarrow> bool" where
  "chr_imatch c1 c2 \<longleftrightarrow>
     (if c1 \<noteq> c2 then
        let c1_upc = c1 OR 0x20 in
        if c1_upc \<ge> 97 \<and> c1_upc \<le> 122 then
          let c2_upc = c2 OR 0x20 in c1_upc = c2_upc
        else False
      else True)"

function lwip_stricmp :: "cstring \<Rightarrow> cstring \<Rightarrow> int" where
  "lwip_stricmp str1 str2 =
     (let c1 = deref str1; c2 = deref str2 in
      if \<not> chr_imatch c1 c2 then 1
      else if c1 \<noteq> 0 then lwip_stricmp (tl str1) (tl str2)
      else 0)"
  by pat_completeness auto
termination
  by (relation "measure (\<lambda>(s, t). length s)") (auto simp: deref_def split: list.splits)

text \<open>\<open>while (len-- && c1 != 0)\<close>: the test reads \<open>len\<close> before decrementing it.\<close>

function lwip_strnicmp :: "cstring \<Rightarrow> cstring \<Rightarrow> nat \<Rightarrow> int" where
  "lwip_strnicmp str1 str2 len =
     (let c1 = deref str1; c2 = deref str2 in
      if \<not> chr_imatch c1 c2 then 1
      else if len \<noteq> 0 \<and> c1 \<noteq> 0 then lwip_strnicmp (tl str1) (tl str2) (len - 1)
      else 0)"
  by pat_completeness auto
termination
  by (relation "measure (\<lambda>(s, t, n). n)") auto

declare lwip_stricmp.simps [simp del] lwip_strnicmp.simps [simp del]

text \<open>
  \<^verbatim>\<open>lwip_itoa\<close>. The C division truncates towards zero (\<open>sdiv\<close>), so the remainder carries the
  sign of the number and the digit table is indexed on both sides of its middle.
\<close>

definition itoa_table :: cstring where
  "itoa_table = cstr ''zyxwvutsrqponmlkjihgfedcba9876543210123456789abcdefghijklmnopqrstuvwxyz''"

definition itoa_char :: "int \<Rightarrow> u8" where
  "itoa_char d = itoa_table ! nat (35 + d)"

function itoa_digits :: "int \<Rightarrow> cstring \<Rightarrow> cstring \<times> int" where
  "itoa_digits number buf =
     (let tmp_value = number; number' = number sdiv 10;
          buf' = buf @ [itoa_char (tmp_value - number' * 10)] in
      if number' \<noteq> 0 then itoa_digits number' buf' else (buf', tmp_value))"
  by pat_completeness auto
termination
proof (relation "measure (\<lambda>(n, b). nat \<bar>n\<bar>)", simp)
  fix number :: int and buf buf' :: cstring and x xa :: int
  assume "x = number" and "xa = number sdiv 10" and "xa \<noteq> 0"
  then show "((xa, buf'), number, buf) \<in> measure (\<lambda>(n, b). nat \<bar>n\<bar>)"
    by (auto simp: signed_divide_int_def sgn_if abs_mult split: if_splits)
qed

declare itoa_digits.simps [simp del]

function itoa_swap :: "cstring \<Rightarrow> nat \<Rightarrow> int \<Rightarrow> cstring" where
  "itoa_swap buf ptr1 ptr =
     (if int ptr1 < ptr then
        let tmp_char = buf ! nat ptr in
        itoa_swap (buf[nat ptr := buf ! ptr1, ptr1 := tmp_char]) (Suc ptr1) (ptr - 1)
      else buf)"
  by pat_completeness auto
termination
  by (relation "measure (\<lambda>(b, i, j). nat (j - int i))") auto

declare itoa_swap.simps [simp del]

definition lwip_itoa :: "int \<Rightarrow> cstring" where
  "lwip_itoa number =
     (let (buf, tmp_value) = itoa_digits number [];
          buf = (if tmp_value < 0 then buf @ [45] else buf)
      in itoa_swap buf 0 (int (length buf) - 1))"


section \<open>Byte order conversion\<close>

lemma FF00_mask: "(0xFF00 :: u32) = push_bit 8 (mask 8)"
  and FF0000_mask: "(0x00FF0000 :: u32) = push_bit 16 (mask 8)"
  and FF000000_mask: "(0xFF000000 :: u32) = push_bit 24 (mask 8)"
  and FF_mask: "(0xFF :: u32) = mask 8"
  by (simp_all add: mask_eq_exp_minus_1 push_bit_eq_mult)

lemmas byte_masks = FF00_mask FF0000_mask FF000000_mask FF_mask

lemma PP_HTONS_bytes:
  "PP_HTONS x = push_bit 8 (take_bit 8 x) OR take_bit 8 (drop_bit 8 x)"
  by (rule bit_word_eqI) (auto simp: PP_HTONS_def byte_masks bit_simps)

lemma PP_HTONL_bytes:
  "PP_HTONL x = (push_bit 24 (take_bit 8 x) OR push_bit 16 (take_bit 8 (drop_bit 8 x)))
     OR (push_bit 8 (take_bit 8 (drop_bit 16 x)) OR take_bit 8 (drop_bit 24 x))"
  by (rule bit_word_eqI) (auto simp: PP_HTONL_def byte_masks bit_simps)

lemma unat_PP_HTONS: "unat (PP_HTONS x) = 256 * (unat x mod 256) + unat x div 256 mod 256"
proof -
  have "push_bit 8 (take_bit 8 x) AND take_bit 8 (drop_bit 8 x) = 0"
    by (rule bit_word_eqI) (auto simp: bit_simps)
  moreover have "unat x mod 256 * 256 mod 4294967296 = 256 * (unat x mod 256)"
    by simp
  ultimately show ?thesis
    by (simp add: PP_HTONS_bytes unat_or_disjoint unat_push_bit_word unat_take_bit_word
        unat_drop_bit_word)
qed

lemma unat_lwip_htons: "unat (lwip_htons n) = 256 * (unat n mod 256) + unat n div 256"
proof -
  have "unat n div 256 < 256" using unat_u16_less [of n] by linarith
  then show ?thesis by (simp add: lwip_htons_def unat_PP_HTONS)
qed

lemma unat_lwip_htonl:
  "unat (lwip_htonl n) =
     256 * (256 * (256 * (unat n mod 256) + unat n div 256 mod 256) + unat n div 65536 mod 256)
     + unat n div 16777216 mod 256"
proof -
  let ?a = "push_bit 24 (take_bit 8 n)" and ?b = "push_bit 16 (take_bit 8 (drop_bit 8 n))"
  let ?c = "push_bit 8 (take_bit 8 (drop_bit 16 n))" and ?d = "take_bit 8 (drop_bit 24 n)"
  have "?a AND ?b = 0" "?c AND ?d = 0" "(?a OR ?b) AND (?c OR ?d) = 0"
    by (rule bit_word_eqI, auto simp: bit_simps)+
  then have "unat (lwip_htonl n) = unat ?a + unat ?b + (unat ?c + unat ?d)"
    by (simp only: lwip_htonl_def PP_HTONL_bytes unat_or_disjoint)
  moreover have "unat ?a = 16777216 * (unat n mod 256)"
    and "unat ?b = 65536 * (unat n div 256 mod 256)"
    and "unat ?c = 256 * (unat n div 65536 mod 256)"
    and "unat ?d = unat n div 16777216 mod 256"
    by (simp_all add: unat_push_bit_word unat_take_bit_word unat_drop_bit_word)
  ultimately show ?thesis by simp
qed

lemma lwip_htons_invol [simp]: "lwip_htons (lwip_htons n) = n"
proof -
  have "unat n div 256 < 256" using unat_u16_less [of n] by linarith
  then have "unat (lwip_htons (lwip_htons n)) = unat n"
    by (simp add: unat_lwip_htons)
  then show ?thesis by (rule word_unat_eq_iff [THEN iffD2])
qed

lemma lwip_htonl_invol [simp]: "lwip_htonl (lwip_htonl n) = n"
proof -
  have "unat n div 16777216 < 256" using unat_u32_less [of n] by linarith
  then have top: "unat n div 16777216 mod 256 = unat n div 16777216" by simp
  have lt: "k mod 256 < 256" for k :: nat by simp
  note bytes = bytes4_div [OF lt lt lt lt unat_lwip_htonl [of n]]
  have "unat (lwip_htonl (lwip_htonl n)) = unat n"
    unfolding unat_lwip_htonl [of "lwip_htonl n"] bytes top by (rule bytes4_join)
  then show ?thesis by (rule word_unat_eq_iff [THEN iffD2])
qed


section \<open>String functions\<close>

text \<open>The specification of the search: the offsets at which the token occurs inside the first \<open>n\<close> characters.\<close>

definition occurs_at :: "cstring \<Rightarrow> cstring \<Rightarrow> nat \<Rightarrow> nat \<Rightarrow> bool" where
  "occurs_at buffer token n p \<longleftrightarrow>
     p + length token \<le> n \<and> take (length token) (drop p buffer) = token"

lemma occurs_at_Suc:
  "occurs_at (c # buffer) token (Suc n) (Suc p) \<longleftrightarrow> occurs_at buffer token n p"
  by (simp add: occurs_at_def)

lemma drop_Cons_diff: "Suc p \<le> k \<Longrightarrow> drop (k - p) (c # rest) = drop (k - Suc p) rest"
  by (simp add: drop_Cons')

lemma strncmp_eq_prefix: "strncmp_eq s t (length t) \<longleftrightarrow> take (length t) s = t"
  by (simp add: strncmp_eq_def)

lemma strnstr_loop_Some:
  assumes "lwip_strnstr_loop p s token n = Some q" and "token \<noteq> []"
  shows "p \<le> q \<and> q + length token \<le> n \<and> take (length token) (drop (q - p) s) = token
    \<and> (\<forall>k. p \<le> k \<longrightarrow> k < q \<longrightarrow> take (length token) (drop (k - p) s) \<noteq> token)"
  using assms
proof (induction p s token n rule: lwip_strnstr_loop.induct)
  case (2 p c rest token n)
  have hd_eq: "take (length token) (c # rest) = token \<Longrightarrow> c = deref token"
    using "2.prems"(2) by (cases token) (auto simp: deref_def)
  show ?case
  proof (cases "take (length token) (c # rest) = token")
    case True
    with "2.prems" hd_eq show ?thesis
      by (auto simp: strncmp_eq_prefix split: if_splits)
  next
    case False
    with "2.prems"(1) have le: "p + length token \<le> n"
      and rec: "lwip_strnstr_loop (Suc p) rest token n = Some q"
      by (auto simp: strncmp_eq_prefix split: if_splits)
    note IH = "2.IH" [OF le _ rec "2.prems"(2)]
    from IH False have IH: "Suc p \<le> q" "q + length token \<le> n"
        "take (length token) (drop (q - Suc p) rest) = token"
        "\<forall>k. Suc p \<le> k \<longrightarrow> k < q \<longrightarrow> take (length token) (drop (k - Suc p) rest) \<noteq> token"
      by (auto simp: strncmp_eq_prefix)
    note shift = drop_Cons_diff [of p _ c rest]
    have "take (length token) (drop (k - p) (c # rest)) \<noteq> token" if "p \<le> k" "k < q" for k
      using that IH(4) False shift [of k] by (cases "k = p") auto
    with IH shift [of q] show ?thesis by simp
  qed
qed simp

lemma strnstr_loop_None:
  assumes "lwip_strnstr_loop p s token n = None" and "token \<noteq> []"
    and "p \<le> k" and "k + length token \<le> n"
  shows "take (length token) (drop (k - p) s) \<noteq> token"
  using assms
proof (induction s arbitrary: p)
  case Nil
  then show ?case by simp
next
  case (Cons c rest)
  then have le: "p + length token \<le> n" by simp
  with Cons.prems(1) have no: "\<not> (c = deref token \<and> take (length token) (c # rest) = token)"
    and rec: "lwip_strnstr_loop (Suc p) rest token n = None"
    by (simp_all add: strncmp_eq_prefix split: if_splits)
  show ?case
  proof (cases "k = p")
    case True
    with no Cons.prems(2) show ?thesis by (cases token) (auto simp: deref_def)
  next
    case False
    with Cons.prems have "Suc p \<le> k" by simp
    with Cons.IH [OF rec Cons.prems(2) this Cons.prems(4)] show ?thesis
      by (simp add: drop_Cons_diff)
  qed
qed

lemma lwip_strnstr_spec:
  assumes "token \<noteq> []"
  shows "lwip_strnstr buffer token n = Some p \<longleftrightarrow>
    occurs_at buffer token n p \<and> (\<forall>k < p. \<not> occurs_at buffer token n k)"
proof
  assume "lwip_strnstr buffer token n = Some p"
  with assms have "lwip_strnstr_loop 0 buffer token n = Some p" by (simp add: lwip_strnstr_def)
  from strnstr_loop_Some [OF this assms]
  show "occurs_at buffer token n p \<and> (\<forall>k < p. \<not> occurs_at buffer token n k)"
    by (auto simp: occurs_at_def)
next
  assume R: "occurs_at buffer token n p \<and> (\<forall>k < p. \<not> occurs_at buffer token n k)"
  show "lwip_strnstr buffer token n = Some p"
  proof (cases "lwip_strnstr_loop 0 buffer token n")
    case None
    from strnstr_loop_None [OF None assms, of p] R show ?thesis by (simp add: occurs_at_def)
  next
    case (Some q)
    from strnstr_loop_Some [OF Some assms]
    have "occurs_at buffer token n q" "\<forall>k < q. \<not> occurs_at buffer token n k"
      by (auto simp: occurs_at_def)
    with R have "p = q" by (metis nat_neq_iff)
    with Some assms show ?thesis by (simp add: lwip_strnstr_def)
  qed
qed


text \<open>ASCII lower case, the equivalence the case-insensitive comparisons decide.\<close>

definition to_lower :: "u8 \<Rightarrow> u8" where
  "to_lower c = (if 65 \<le> c \<and> c \<le> 90 then c + 32 else c)"

lemma upc_letter:
  "(if 97 \<le> (c OR 0x20 :: u8) \<and> c OR 0x20 \<le> 122
    then c OR 0x20 = to_lower c \<and> (65 \<le> c \<and> c \<le> 90 \<or> 97 \<le> c \<and> c \<le> 122)
    else to_lower c = c \<and> \<not> (97 \<le> c \<and> c \<le> 122))"
  by (rule u8_exhaustive [of "\<lambda>c. if 97 \<le> (c OR 0x20 :: u8) \<and> c OR 0x20 \<le> 122
    then c OR 0x20 = to_lower c \<and> (65 \<le> c \<and> c \<le> 90 \<or> 97 \<le> c \<and> c \<le> 122)
    else to_lower c = c \<and> \<not> (97 \<le> c \<and> c \<le> 122)"]) code_simp

lemma chr_imatch_iff: "chr_imatch c1 c2 \<longleftrightarrow> to_lower c1 = to_lower c2"
  using upc_letter [of c1] upc_letter [of c2]
  by (simp add: chr_imatch_def Let_def split: if_splits) metis+

text \<open>A list is a C string when no character of it is the terminator.\<close>

definition is_cstring :: "cstring \<Rightarrow> bool" where
  "is_cstring s \<longleftrightarrow> 0 \<notin> set s"

lemma is_cstring_simps [simp]:
  "is_cstring []" "is_cstring (c # s) \<longleftrightarrow> c \<noteq> 0 \<and> is_cstring s"
  by (auto simp: is_cstring_def)

lemma deref_simps [simp]: "deref [] = 0" "deref (c # s) = c"
  by (simp_all add: deref_def)

lemma to_lower_0 [simp]: "to_lower 0 = 0" "to_lower c = 0 \<longleftrightarrow> c = 0"
proof -
  show "to_lower 0 = 0" by (simp add: to_lower_def)
  have "to_lower c \<noteq> 0 \<or> c = 0"
    by (rule u8_exhaustive [of "\<lambda>c. to_lower c \<noteq> 0 \<or> c = 0"]) code_simp
  then show "to_lower c = 0 \<longleftrightarrow> c = 0" by (auto simp: to_lower_def)
qed

lemma lwip_stricmp_spec:
  assumes "is_cstring s1" and "is_cstring s2"
  shows "lwip_stricmp s1 s2 = (if map to_lower s1 = map to_lower s2 then 0 else 1)"
  using assms
proof (induction s1 s2 rule: lwip_stricmp.induct)
  case (1 s1 s2)
  then show ?case
    by (subst lwip_stricmp.simps, cases s1; cases s2)
      (auto simp: chr_imatch_iff Let_def dest: sym [of 0])
qed

lemma lwip_strnicmp_spec:
  assumes "is_cstring s1" and "is_cstring s2"
  shows "lwip_strnicmp s1 s2 n =
    (if map to_lower (take (Suc n) s1) = map to_lower (take (Suc n) s2) then 0 else 1)"
  using assms
proof (induction n arbitrary: s1 s2)
  case 0
  then show ?case
    by (subst lwip_strnicmp.simps, cases s1; cases s2)
      (auto simp: chr_imatch_iff Let_def dest: sym [of 0])
next
  case (Suc n)
  then show ?case
    by (subst lwip_strnicmp.simps, cases s1; cases s2)
      (auto simp: chr_imatch_iff Let_def dest: sym [of 0])
qed


section \<open>Decimal output\<close>

text \<open>The decimal notation of a natural number, most significant digit first, and its value.\<close>

fun show_dec :: "nat \<Rightarrow> cstring" where
  "show_dec n = (if n < 10 then [48 + of_nat n] else show_dec (n div 10) @ [48 + of_nat (n mod 10)])"

declare show_dec.simps [simp del]

definition dec_value :: "cstring \<Rightarrow> nat" where
  "dec_value s = foldl (\<lambda>v c. 10 * v + (unat c - 48)) 0 s"

lemma digit_char: "n < 10 \<Longrightarrow> unat (48 + of_nat n :: u8) = 48 + n"
  by (simp add: unat_word_ariths unat_u8_of_nat)

lemma dec_value_show_dec: "dec_value (show_dec n) = n"
proof (induction n rule: show_dec.induct)
  case (1 n)
  then show ?case
    by (subst show_dec.simps) (auto simp: dec_value_def digit_char)
qed

lemma show_dec_digits: "c \<in> set (show_dec n) \<Longrightarrow> 48 \<le> c \<and> c \<le> 57"
proof (induction n rule: show_dec.induct)
  case (1 n)
  have digit: "48 \<le> (48 + of_nat k :: u8) \<and> (48 + of_nat k :: u8) \<le> 57" if "k < 10" for k
    using that by (simp add: word_le_nat_alt digit_char)
  show ?case
  proof (cases "n < 10")
    case True
    with "1.prems" digit [of n] show ?thesis by (simp add: show_dec.simps [of n])
  next
    case False
    with "1" digit [of "n mod 10"] show ?thesis by (auto simp: show_dec.simps [of n])
  qed
qed

lemma length_show_dec: "n < 10 ^ Suc k \<Longrightarrow> length (show_dec n) \<le> Suc k"
proof (induction k arbitrary: n)
  case 0
  then show ?case by (simp add: show_dec.simps)
next
  case (Suc k)
  then have "n div 10 < 10 ^ Suc k" by (simp add: less_mult_imp_div_less mult.commute)
  with Suc.IH show ?case by (subst show_dec.simps) simp
qed

lemma show_dec_nonempty [simp]: "show_dec n \<noteq> []"
  by (subst show_dec.simps) simp

lemma itoa_char_eq: "- 9 \<le> d \<Longrightarrow> d \<le> 9 \<Longrightarrow> itoa_char d = 48 + of_nat (nat \<bar>d\<bar>)"
proof -
  assume "- 9 \<le> d" "d \<le> 9"
  then have "d \<in> set [- 9 .. 9]" by (simp only: set_upto atLeastAtMost_iff)
  moreover have "list_all (\<lambda>d. itoa_char d = 48 + of_nat (nat \<bar>d\<bar>)) [- 9 .. 9]" by code_simp
  ultimately show ?thesis by (simp only: list_all_iff)
qed

lemma sdiv_10_abs: "nat \<bar>n sdiv 10\<bar> = nat \<bar>n\<bar> div 10" for n :: int
  by (auto simp: signed_divide_int_def abs_mult nat_div_distrib)

lemma sdiv_10_sgn: "n sdiv 10 \<noteq> 0 \<Longrightarrow> n sdiv 10 < 0 \<longleftrightarrow> n < 0" for n :: int
  by (auto simp: signed_divide_int_def sgn_if split: if_splits)

lemma sdiv_10_rem:
  fixes n :: int
  shows "- 9 \<le> n - n sdiv 10 * 10" "n - n sdiv 10 * 10 \<le> 9"
    "nat \<bar>n - n sdiv 10 * 10\<bar> = nat \<bar>n\<bar> mod 10"
proof -
  have rem: "n - n sdiv 10 * 10 = sgn n * (\<bar>n\<bar> mod 10)"
    by (cases "n \<ge> 0") (auto simp: signed_divide_int_def sgn_if minus_div_mult_eq_mod [symmetric])
  show "- 9 \<le> n - n sdiv 10 * 10" "n - n sdiv 10 * 10 \<le> 9"
    unfolding rem by (simp_all add: sgn_if) linarith+
  show "nat \<bar>n - n sdiv 10 * 10\<bar> = nat \<bar>n\<bar> mod 10"
    unfolding rem by (simp add: sgn_if nat_mod_distrib)
qed

lemma itoa_digits_eq:
  "itoa_digits n buf = (buf @ rev (show_dec (nat \<bar>n\<bar>)), snd (itoa_digits n buf))
   \<and> (snd (itoa_digits n buf) < 0 \<longleftrightarrow> n < 0)"
proof (induction n buf rule: itoa_digits.induct)
  case (1 n buf)
  have chr: "itoa_char (n - n sdiv 10 * 10) = 48 + of_nat (nat \<bar>n\<bar> mod 10)"
    using sdiv_10_rem [of n] itoa_char_eq [of "n - n sdiv 10 * 10"] by simp
  show ?case
  proof (cases "n sdiv 10 = 0")
    case True
    then have "nat \<bar>n\<bar> < 10" using sdiv_10_abs [of n] by (simp add: div_eq_0_iff)
    with True chr show ?thesis
      by (simp add: itoa_digits.simps [of n buf] show_dec.simps [of "nat \<bar>n\<bar>"] Let_def)
  next
    case False
    then have "\<not> nat \<bar>n\<bar> < 10" using sdiv_10_abs [of n] by auto
    then have "show_dec (nat \<bar>n\<bar>) = show_dec (nat \<bar>n sdiv 10\<bar>) @ [48 + of_nat (nat \<bar>n\<bar> mod 10)]"
      by (simp add: show_dec.simps [of "nat \<bar>n\<bar>"] sdiv_10_abs)
    with False chr "1" [OF refl refl refl False] sdiv_10_sgn [OF False] show ?thesis
      by (simp add: itoa_digits.simps [of n buf] Let_def prod_eq_iff)
  qed
qed

lemma itoa_swap_nth:
  "0 \<le> j + 1 \<Longrightarrow> nat (j + 1) \<le> length buf \<Longrightarrow>
   length (itoa_swap buf i j) = length buf \<and>
   (\<forall>k < length buf. itoa_swap buf i j ! k =
     (if int i \<le> int k \<and> int k \<le> j then buf ! nat (int i + j - int k) else buf ! k))"
proof (induction buf i j rule: itoa_swap.induct)
  case (1 buf i j)
  show ?case
  proof (cases "int i < j")
    case False
    then show ?thesis
      by (auto simp: itoa_swap.simps [of buf i j] not_less nat_eq_iff2 intro: arg_cong [of _ _ "(!) buf"])
  next
    case True
    let ?b = "buf[nat j := buf ! i, i := buf ! nat j]"
    from True "1.prems" have pre: "0 \<le> j - 1 + 1" "nat (j - 1 + 1) \<le> length ?b" "nat j < length buf" "i < length buf"
      by auto
    have eq: "itoa_swap buf i j = itoa_swap ?b (Suc i) (j - 1)"
      using True by (subst itoa_swap.simps) (simp add: Let_def)
    note IH = "1.IH" [OF True refl pre(1,2)]
    have ind: "int (Suc i) + (j - 1) - int k = int i + j - int k" for k by simp
    have "itoa_swap ?b (Suc i) (j - 1) ! k =
      (if int i \<le> int k \<and> int k \<le> j then buf ! nat (int i + j - int k) else buf ! k)"
      if k: "k < length buf" for k
    proof -
      consider "k = i" | "int k = j" | "int k < int i \<or> j < int k" | "int i < int k" "int k < j" by linarith
      then show ?thesis
      proof cases
        case 4
        then have "nat (int i + j - int k) \<noteq> i" "nat (int i + j - int k) \<noteq> nat j"
          "nat (int i + j - int k) < length buf" using pre(3) by auto
        with 4 k IH show ?thesis by (simp add: ind)
      qed (use k True IH pre in \<open>auto simp: nth_list_update\<close>)
    qed
    with IH show ?thesis unfolding eq by simp
  qed
qed

lemma itoa_swap_rev: "itoa_swap buf 0 (int (length buf) - 1) = rev buf"
proof (rule nth_equalityI)
  note nth = itoa_swap_nth [of "int (length buf) - 1" buf 0]
  then show len: "length (itoa_swap buf 0 (int (length buf) - 1)) = length (rev buf)" by simp
  fix k assume "k < length (itoa_swap buf 0 (int (length buf) - 1))"
  with len have k: "k < length buf" by simp
  then have "nat (int (length buf) - 1 - int k) = length buf - Suc k" by simp
  with k nth show "itoa_swap buf 0 (int (length buf) - 1) ! k = rev buf ! k"
    by (simp add: rev_nth)
qed

lemma lwip_itoa_eq:
  "lwip_itoa n = (if n < 0 then 45 # show_dec (nat (- n)) else show_dec (nat n))"
proof -
  have "fst (itoa_digits n []) = rev (show_dec (nat \<bar>n\<bar>))"
    and "snd (itoa_digits n []) < 0 \<longleftrightarrow> n < 0"
    using itoa_digits_eq [of n "[]"] by (metis append_Nil fst_conv, simp)
  then show ?thesis
    by (simp add: lwip_itoa_def split_beta itoa_swap_rev)
qed


section \<open>Properties\<close>

text \<open>\<open>lwip_strnstr\<close> finds the first offset at which the non-empty token lies wholly inside the first
  \<open>n\<close> characters, and returns the null pointer exactly when there is none.\<close>

theorem strnstr_first_occurrence:
  assumes "token \<noteq> []"
  shows "(lwip_strnstr buffer token n = Some p \<longleftrightarrow>
            occurs_at buffer token n p \<and> (\<forall>k. k < p \<longrightarrow> \<not> occurs_at buffer token n k))
    \<and> (lwip_strnstr buffer token n = None \<longleftrightarrow> \<not> (\<exists>k. occurs_at buffer token n k))"
proof
  show "lwip_strnstr buffer token n = Some p \<longleftrightarrow>
      occurs_at buffer token n p \<and> (\<forall>k. k < p \<longrightarrow> \<not> occurs_at buffer token n k)"
    by (rule lwip_strnstr_spec [OF assms])
  show "lwip_strnstr buffer token n = None \<longleftrightarrow> \<not> (\<exists>k. occurs_at buffer token n k)"
  proof
    assume None: "lwip_strnstr buffer token n = None"
    then have "\<not> (occurs_at buffer token n q \<and> (\<forall>k < q. \<not> occurs_at buffer token n k))" for q
      using lwip_strnstr_spec [OF assms, of buffer n q] by simp
    then have "\<not> occurs_at buffer token n q" for q
      by (induction q rule: less_induct) blast
    then show "\<not> (\<exists>k. occurs_at buffer token n k)" by blast
  next
    assume "\<not> (\<exists>k. occurs_at buffer token n k)"
    then show "lwip_strnstr buffer token n = None"
      using lwip_strnstr_spec [OF assms, of buffer n] by (cases "lwip_strnstr buffer token n") auto
  qed
qed

theorem strnstr_first_occurrence_witness:
  "(lwip_strnstr [65, 66, 65, 67] [65, 67] 4 = Some 2 \<longleftrightarrow>
      occurs_at [65, 66, 65, 67] [65, 67] 4 2 \<and> (\<forall>k. k < 2 \<longrightarrow> \<not> occurs_at [65, 66, 65, 67] [65, 67] 4 k))
   \<and> (lwip_strnstr [65, 66, 65, 67] [65, 67] 4 = None \<longleftrightarrow> \<not> (\<exists>k. occurs_at [65, 66, 65, 67] [65, 67] 4 k))"
  by (rule strnstr_first_occurrence) simp

text \<open>On C strings \<open>lwip_stricmp\<close> decides equality up to the case of ASCII letters. \<open>lwip_strnicmp\<close>
  does so for the first \<open>len + 1\<close> characters, one more than the \<open>len\<close> it is asked for.\<close>

theorem caseless_comparison:
  assumes "is_cstring s1" and "is_cstring s2"
  shows "(lwip_stricmp s1 s2 = 0 \<longleftrightarrow> map to_lower s1 = map to_lower s2)
    \<and> (lwip_strnicmp s1 s2 len = 0 \<longleftrightarrow>
         map to_lower (take (len + 1) s1) = map to_lower (take (len + 1) s2))"
  using lwip_stricmp_spec [OF assms] lwip_strnicmp_spec [OF assms, of len] by simp

theorem caseless_comparison_witness:
  "(lwip_stricmp [65, 98] [97, 66] = 0 \<longleftrightarrow> map to_lower [65, 98] = map to_lower [97, 66])
    \<and> (lwip_strnicmp [65, 98] [97, 67] 1 = 0 \<longleftrightarrow>
         map to_lower (take (1 + 1) [65, 98]) = map to_lower (take (1 + 1) [97, 67]))"
  using caseless_comparison [of "[65, 98]" "[97, 66]" 0] caseless_comparison [of "[65, 98]" "[97, 67]" 1]
  by simp

lemma hd_show_dec: "0 < n \<Longrightarrow> hd (show_dec n) \<noteq> 48"
proof (induction n rule: show_dec.induct)
  case (1 n)
  show ?case
  proof (cases "n < 10")
    case True
    with "1.prems" show ?thesis by (simp add: show_dec.simps [of n] word_unat_eq_iff digit_char)
  next
    case False
    with "1.IH" show ?thesis by (simp add: show_dec.simps [of n])
  qed
qed

text \<open>Without leading zeros, and with one digit for zero.\<close>

definition decimal :: "cstring \<Rightarrow> bool" where
  "decimal ds \<longleftrightarrow> ds \<noteq> [] \<and> list_all (\<lambda>c. 48 \<le> c \<and> c \<le> 57) ds \<and> (length ds = 1 \<or> hd ds \<noteq> 48)"

lemma decimal_show_dec: "decimal (show_dec n)"
proof (cases "n < 10")
  case True
  then have "length (show_dec n) = 1" by (simp add: show_dec.simps [of n])
  then show ?thesis using show_dec_digits show_dec_nonempty by (simp add: decimal_def list_all_iff)
next
  case False
  then show ?thesis using hd_show_dec [of n] show_dec_digits show_dec_nonempty by (simp add: decimal_def list_all_iff)
qed

text \<open>C25: \<open>lwip_itoa\<close> prints every 32-bit \<open>int\<close>, the most negative one included, as its decimal notation:
  a sign if the number is negative, followed by at least one digit and no leading zeros, that read back to the
  number, in at most 11 characters.\<close>

theorem itoa_decimal_notation:
  assumes "- (2 ^ 31) \<le> number" and "number < 2 ^ 31"
  shows "\<exists>digits. lwip_itoa number = (if number < 0 then [45] else []) @ digits
    \<and> decimal digits \<and> int (dec_value digits) = \<bar>number\<bar> \<and> length (lwip_itoa number) \<le> 11"
proof (intro exI conjI)
  let ?ds = "show_dec (nat \<bar>number\<bar>)"
  show eq: "lwip_itoa number = (if number < 0 then [45] else []) @ ?ds"
    by (simp add: lwip_itoa_eq)
  show "decimal ?ds" by (rule decimal_show_dec)
  show "int (dec_value ?ds) = \<bar>number\<bar>" by (simp add: dec_value_show_dec)
  have "nat \<bar>number\<bar> < 10 ^ Suc 9" using assms by simp
  then have "length ?ds \<le> 10" using length_show_dec [of "nat \<bar>number\<bar>" 9] by simp
  then show "length (lwip_itoa number) \<le> 11" unfolding eq by (cases "number < 0") simp_all
qed

theorem itoa_decimal_notation_witness:
  "(\<exists>digits. lwip_itoa (- 2147483648) = [45] @ digits \<and> decimal digits \<and> dec_value digits = 2147483648) \<and> lwip_itoa 0 \<noteq> []"
  using itoa_decimal_notation [of "- 2147483648"] itoa_decimal_notation [of 0] by (auto simp: decimal_def)

end
