(* ===== verification/Inet_Chksum.thy ===== *)
theory Inet_Chksum
  imports Lwip_Def
begin

text \<open>
  \<^verbatim>\<open>core/inet_chksum.c\<close>: the Internet checksum in its three algorithms, over a buffer, over a pbuf
  chain and with the pseudo header of TCP and UDP.

  A buffer is its address (only the alignment matters) and its bytes. A pbuf chain is the list
  of its payloads, in chain order; \<^verbatim>\<open>q->len\<close> is the length of the payload. The accumulators are
  32-bit words and wrap as in C. The host is little endian, so a 16-bit load takes its low byte
  first. The build uses algorithm 2 (\<open>lwip_standard_chksum\<close>); the other two are alternatives that a
  port may select, and all three meet the same contract, the locale \<open>chksum_alg\<close>.
\<close>

section \<open>Definitions\<close>

definition FOLD_U32T :: "u32 \<Rightarrow> u32" where
  "FOLD_U32T u = drop_bit 16 u + (u AND 0x0000FFFF)"

definition SWAP_BYTES_IN_WORD :: "u32 \<Rightarrow> u32" where
  "SWAP_BYTES_IN_WORD w = push_bit 8 (w AND 0xFF) OR drop_bit 8 (w AND 0xFF00)"

subsection \<open>Algorithm 1: big endian words, carries folded at the end\<close>

fun chksum1_loop :: "u32 \<Rightarrow> u8 list \<Rightarrow> u32" where
  "chksum1_loop acc (a # b # octets) =
     (let src = push_bit 8 (ucast a) :: u16; src = src OR ucast b
      in chksum1_loop (acc + ucast src) octets)"
| "chksum1_loop acc [a] = acc + ucast (push_bit 8 (ucast a) :: u16)"
| "chksum1_loop acc [] = acc"

definition lwip_standard_chksum1 :: "u32 \<Rightarrow> u8 list \<Rightarrow> u16" where
  "lwip_standard_chksum1 dataptr octets =
     (let acc = chksum1_loop 0 octets;
          acc = drop_bit 16 acc + (acc AND 0x0000FFFF);
          acc = (if acc AND 0xFFFF0000 \<noteq> 0 then drop_bit 16 acc + (acc AND 0x0000FFFF) else acc)
      in lwip_htons (ucast acc))"

subsection \<open>Algorithm 2: host order words with an aligned bulk\<close>

text \<open>\<open>((u8_t *)&t)[i] = b\<close> and a 16-bit load on the little endian host.\<close>

definition set_byte0 :: "u16 \<Rightarrow> u8 \<Rightarrow> u16" where
  "set_byte0 t b = (t AND 0xFF00) OR ucast b"

definition set_byte1 :: "u16 \<Rightarrow> u8 \<Rightarrow> u16" where
  "set_byte1 t b = (t AND 0x00FF) OR push_bit 8 (ucast b)"

definition load16 :: "u8 \<Rightarrow> u8 \<Rightarrow> u16" where
  "load16 b0 b1 = set_byte1 (set_byte0 0 b0) b1"

fun chksum2_bulk :: "u32 \<Rightarrow> u8 list \<Rightarrow> u32 \<times> u8 list" where
  "chksum2_bulk sm (b0 # b1 # ps) = chksum2_bulk (sm + ucast (load16 b0 b1)) ps"
| "chksum2_bulk sm ps = (sm, ps)"

definition lwip_standard_chksum :: "u32 \<Rightarrow> u8 list \<Rightarrow> u16" where
  "lwip_standard_chksum dataptr pb =
     (let odd = dataptr AND 1 \<noteq> 0;
          (t, pb) = (if odd \<and> pb \<noteq> [] then (set_byte1 0 (hd pb), tl pb) else (0, pb));
          (sum, ps) = chksum2_bulk 0 pb;
          t = (if ps \<noteq> [] then set_byte0 t (hd ps) else t);
          sum = sum + ucast t;
          sum = FOLD_U32T sum;
          sum = FOLD_U32T sum;
          sum = (if odd then SWAP_BYTES_IN_WORD sum else sum)
      in ucast sum)"

subsection \<open>Algorithm 3: unrolled, 32 bits at a time with end-around carry\<close>

definition load32 :: "u8 \<Rightarrow> u8 \<Rightarrow> u8 \<Rightarrow> u8 \<Rightarrow> u32" where
  "load32 b0 b1 b2 b3 = ucast (load16 b0 b1) OR push_bit 16 (ucast (load16 b2 b3))"

definition add_carry :: "u32 \<Rightarrow> u32 \<Rightarrow> u32" where
  "add_carry acc x = (let tmp = acc + x in if tmp < acc then tmp + 1 else tmp)"

fun chksum3_bulk :: "u32 \<Rightarrow> u8 list \<Rightarrow> u32 \<times> u8 list" where
  "chksum3_bulk sm (b0 # b1 # b2 # b3 # b4 # b5 # b6 # b7 # pl) =
     (let tmp = add_carry sm (load32 b0 b1 b2 b3);
          sm = add_carry tmp (load32 b4 b5 b6 b7)
      in chksum3_bulk sm pl)"
| "chksum3_bulk sm pl = (sm, pl)"

definition lwip_standard_chksum3 :: "u32 \<Rightarrow> u8 list \<Rightarrow> u16" where
  "lwip_standard_chksum3 dataptr pb =
     (let odd = dataptr AND 1 \<noteq> 0;
          (t, pb, addr) = (if odd \<and> pb \<noteq> [] then (set_byte1 0 (hd pb), tl pb, dataptr + 1)
                           else (0, pb, dataptr));
          (sum, ps) = (if addr AND 3 \<noteq> 0 \<and> length pb > 1
                       then (ucast (load16 (pb ! 0) (pb ! 1)), drop 2 pb) else (0, pb));
          (sum, pl) = chksum3_bulk sum ps;
          sum = FOLD_U32T sum;
          (sum, ps) = chksum2_bulk sum pl;
          t = (if ps \<noteq> [] then set_byte0 t (hd ps) else t);
          sum = sum + ucast t;
          sum = FOLD_U32T sum;
          sum = FOLD_U32T sum;
          sum = (if odd then SWAP_BYTES_IN_WORD sum else sum)
      in ucast sum)"

subsection \<open>Checksums over chains\<close>

text \<open>A pbuf of a chain as the checksum sees it: the address of its payload and the payload.\<close>

type_synonym payload = "u32 \<times> u8 list"

definition inet_chksum :: "u32 \<Rightarrow> u8 list \<Rightarrow> u16" where
  "inet_chksum dataptr octets = NOT (lwip_standard_chksum dataptr octets)"

fun chain_loop :: "payload list \<Rightarrow> u32 \<Rightarrow> bool \<Rightarrow> u32 \<times> bool" where
  "chain_loop [] acc swapped = (acc, swapped)"
| "chain_loop ((addr, q) # chain) acc swapped =
     (let acc = acc + ucast (lwip_standard_chksum addr q);
          acc = FOLD_U32T acc
      in if length q mod 2 \<noteq> 0 then chain_loop chain (SWAP_BYTES_IN_WORD acc) (\<not> swapped)
         else chain_loop chain acc swapped)"

definition inet_chksum_pbuf :: "payload list \<Rightarrow> u16" where
  "inet_chksum_pbuf p =
     (let (acc, swapped) = chain_loop p 0 False;
          acc = (if swapped then SWAP_BYTES_IN_WORD acc else acc)
      in ucast (NOT (acc AND 0xFFFF)))"

definition inet_cksum_pseudo_base :: "payload list \<Rightarrow> u8 \<Rightarrow> u16 \<Rightarrow> u32 \<Rightarrow> u16" where
  "inet_cksum_pseudo_base p proto proto_len acc =
     (let (acc, swapped) = chain_loop p acc False;
          acc = (if swapped then SWAP_BYTES_IN_WORD acc else acc);
          acc = acc + ucast (lwip_htons (ucast proto));
          acc = acc + ucast (lwip_htons proto_len);
          acc = FOLD_U32T acc;
          acc = FOLD_U32T acc
      in ucast (NOT (acc AND 0xFFFF)))"

definition pseudo_addr_acc :: "u32 \<Rightarrow> u32 \<Rightarrow> u32" where
  "pseudo_addr_acc src dest =
     (let addr = src;
          acc = addr AND 0xFFFF;
          acc = acc + (drop_bit 16 addr AND 0xFFFF);
          addr = dest;
          acc = acc + (addr AND 0xFFFF);
          acc = acc + (drop_bit 16 addr AND 0xFFFF);
          acc = FOLD_U32T acc
      in FOLD_U32T acc)"

definition inet_chksum_pseudo :: "payload list \<Rightarrow> u8 \<Rightarrow> u16 \<Rightarrow> u32 \<Rightarrow> u32 \<Rightarrow> u16" where
  "inet_chksum_pseudo p proto proto_len src dest =
     inet_cksum_pseudo_base p proto proto_len (pseudo_addr_acc src dest)"

text \<open>With \<^verbatim>\<open>LWIP_IPV6\<close> off, the generic entry point is the IPv4 one.\<close>

definition ip_chksum_pseudo :: "payload list \<Rightarrow> u8 \<Rightarrow> u16 \<Rightarrow> u32 \<Rightarrow> u32 \<Rightarrow> u16" where
  "ip_chksum_pseudo p proto proto_len src dest = inet_chksum_pseudo p proto proto_len src dest"

text \<open>
  The partial variant stops after \<open>chksum_len\<close> bytes. Its loop asserts that fewer than
  \<open>0x7fff\<close> bytes remain to be summed after each pbuf.
\<close>

fun partial_loop :: "payload list \<Rightarrow> u16 \<Rightarrow> u32 \<Rightarrow> bool \<Rightarrow> (u32 \<times> bool) option" where
  "partial_loop [] chksum_len acc swapped = Some (acc, swapped)"
| "partial_loop ((addr, q) # chain) chksum_len acc swapped =
     (if chksum_len = 0 then Some (acc, swapped)
      else do {
        let chklen = (if length q > unat chksum_len then chksum_len else of_nat (length q));
        let acc = acc + ucast (lwip_standard_chksum addr (take (unat chklen) q));
        let chksum_len = chksum_len - chklen;
        lwip_assert (chksum_len < 0x7FFF);
        let acc = FOLD_U32T acc;
        if length q mod 2 \<noteq> 0 then partial_loop chain chksum_len (SWAP_BYTES_IN_WORD acc) (\<not> swapped)
        else partial_loop chain chksum_len acc swapped
      })"

definition inet_cksum_pseudo_partial_base ::
  "payload list \<Rightarrow> u8 \<Rightarrow> u16 \<Rightarrow> u16 \<Rightarrow> u32 \<Rightarrow> u16 option" where
  "inet_cksum_pseudo_partial_base p proto proto_len chksum_len acc = do {
     (acc, swapped) \<leftarrow> partial_loop p chksum_len acc False;
     let acc = (if swapped then SWAP_BYTES_IN_WORD acc else acc);
     let acc = acc + ucast (lwip_htons (ucast proto));
     let acc = acc + ucast (lwip_htons proto_len);
     let acc = FOLD_U32T acc;
     let acc = FOLD_U32T acc;
     Some (ucast (NOT (acc AND 0xFFFF)))
   }"

definition inet_chksum_pseudo_partial ::
  "payload list \<Rightarrow> u8 \<Rightarrow> u16 \<Rightarrow> u16 \<Rightarrow> u32 \<Rightarrow> u32 \<Rightarrow> u16 option" where
  "inet_chksum_pseudo_partial p proto proto_len chksum_len src dest =
     inet_cksum_pseudo_partial_base p proto proto_len chksum_len (pseudo_addr_acc src dest)"

definition ip_chksum_pseudo_partial ::
  "payload list \<Rightarrow> u8 \<Rightarrow> u16 \<Rightarrow> u16 \<Rightarrow> u32 \<Rightarrow> u32 \<Rightarrow> u16 option" where
  "ip_chksum_pseudo_partial p proto proto_len chksum_len src dest =
     inet_chksum_pseudo_partial p proto proto_len chksum_len src dest"

text \<open>
  The IPv6 pseudo header: the addresses are arrays of four 32-bit words, folded in the same way.
\<close>

fun ip6_addr_acc :: "(u32 \<times> u32) list \<Rightarrow> u32 \<Rightarrow> u32" where
  "ip6_addr_acc [] acc = acc"
| "ip6_addr_acc ((s, d) # parts) acc =
     (let acc = acc + (s AND 0xFFFF);
          acc = acc + (drop_bit 16 s AND 0xFFFF);
          acc = acc + (d AND 0xFFFF);
          acc = acc + (drop_bit 16 d AND 0xFFFF)
      in ip6_addr_acc parts acc)"

definition ip6_chksum_pseudo ::
  "payload list \<Rightarrow> u8 \<Rightarrow> u16 \<Rightarrow> u32 list \<Rightarrow> u32 list \<Rightarrow> u16" where
  "ip6_chksum_pseudo p proto proto_len src dest =
     (let acc = ip6_addr_acc (zip (take 4 src) (take 4 dest)) 0;
          acc = FOLD_U32T acc;
          acc = FOLD_U32T acc
      in inet_cksum_pseudo_base p proto proto_len acc)"

definition ip6_chksum_pseudo_partial ::
  "payload list \<Rightarrow> u8 \<Rightarrow> u16 \<Rightarrow> u16 \<Rightarrow> u32 list \<Rightarrow> u32 list \<Rightarrow> u16 option" where
  "ip6_chksum_pseudo_partial p proto proto_len chksum_len src dest =
     (let acc = ip6_addr_acc (zip (take 4 src) (take 4 dest)) 0;
          acc = FOLD_U32T acc;
          acc = FOLD_U32T acc
      in inet_cksum_pseudo_partial_base p proto proto_len chksum_len acc)"

text \<open>Copying with a checksum, version 1: the destination receives the bytes, then they are summed there.\<close>

definition lwip_chksum_copy :: "u32 \<Rightarrow> u8 list \<Rightarrow> u8 list \<times> u16" where
  "lwip_chksum_copy dst src = (let copied = src in (copied, lwip_standard_chksum dst copied))"


section \<open>One's complement arithmetic\<close>

text \<open>
  The weighted sum of a byte string: \<open>wsum True\<close> reads the bytes as big endian 16-bit words (the
  definition of RFC 1071, an odd last byte padded with zero), \<open>wsum False\<close> as little endian ones.
\<close>

fun wsum :: "bool \<Rightarrow> u8 list \<Rightarrow> nat" where
  "wsum hi [] = 0"
| "wsum hi (b # bs) = (if hi then 256 * unat b else unat b) + wsum (\<not> hi) bs"

text \<open>Adding with end-around carry keeps the residue modulo \<open>65535\<close> and never turns a nonzero sum into zero.\<close>

definition oc_eq :: "nat \<Rightarrow> nat \<Rightarrow> bool" where
  "oc_eq x n \<longleftrightarrow> x mod 65535 = n mod 65535 \<and> (x = 0 \<longleftrightarrow> n = 0)"

text \<open>The 16-bit representative: the one's complement sum of a byte string.\<close>

definition oc :: "nat \<Rightarrow> nat" where
  "oc n = (if n = 0 then 0 else (n - 1) mod 65535 + 1)"

definition inet_sum :: "u8 list \<Rightarrow> nat" where
  "inet_sum octets = oc (wsum True octets)"

lemma oc_eq_refl [simp, intro]: "oc_eq n n"
  by (simp add: oc_eq_def)

lemma oc_eq_sym: "oc_eq x n \<Longrightarrow> oc_eq n x"
  by (auto simp: oc_eq_def)

lemma oc_eq_trans [trans]: "oc_eq x y \<Longrightarrow> oc_eq y z \<Longrightarrow> oc_eq x z"
  by (auto simp: oc_eq_def)

lemma oc_eq_add: "oc_eq x n \<Longrightarrow> oc_eq y m \<Longrightarrow> oc_eq (x + y) (n + m)"
  by (auto simp: oc_eq_def intro: mod_add_cong)

lemma oc_eq_mult256: "oc_eq x n \<Longrightarrow> oc_eq (256 * x) (256 * n)"
  by (auto simp: oc_eq_def intro: mod_mult_cong)

lemma mod65535_cong_add: "(x + 65535 * k) mod 65535 = x mod (65535 :: nat)"
  by simp

lemma oc_eq_wrap: "oc_eq (x div 65536 + x mod 65536) x"
proof -
  have "x = (x div 65536 + x mod 65536) + 65535 * (x div 65536)"
    using mult_div_mod_eq [of 65536 x] by linarith
  then have "x mod 65535 = (x div 65536 + x mod 65536) mod 65535"
    by (metis mod65535_cong_add)
  moreover have "x div 65536 + x mod 65536 = 0 \<longleftrightarrow> x = 0"
    by (metis add_is_0 div_0 mod_0 mult_div_mod_eq mult_0_right add_0)
  ultimately show ?thesis by (simp add: oc_eq_def)
qed

lemma oc_eq_oc: "oc_eq (oc n) n"
proof (cases n)
  case (Suc m)
  have "(m mod 65535 + 1) mod 65535 = Suc m mod 65535"
    by (simp add: mod_Suc_eq)
  with Suc show ?thesis by (simp add: oc_eq_def oc_def)
qed (simp add: oc_eq_def oc_def)

lemma oc_le: "oc n \<le> 65535"
proof -
  have "(n - 1) mod 65535 < 65535" by simp
  then show ?thesis by (simp add: oc_def del: mod_less_divisor)
qed

lemma oc_unique:
  assumes "oc_eq x n" and "x \<le> 65535"
  shows "x = oc n"
proof -
  have eq: "oc_eq x (oc n)" using assms(1) oc_eq_oc oc_eq_sym oc_eq_trans by blast
  show ?thesis
  proof (cases "x = 0")
    case True
    with eq show ?thesis by (simp add: oc_eq_def)
  next
    case False
    with eq have "oc n \<noteq> 0" by (simp add: oc_eq_def)
    have norm: "y mod 65535 = (if y = 65535 then 0 else y)" if "y \<le> 65535" for y :: nat
      using that by auto
    show ?thesis
      using eq False \<open>oc n \<noteq> 0\<close> norm [OF assms(2)] norm [OF oc_le [of n]]
      by (auto simp: oc_eq_def split: if_splits)
  qed
qed

lemma oc_cong: "oc_eq m n \<Longrightarrow> oc m = oc n"
  by (rule oc_unique [OF oc_eq_trans [OF oc_eq_oc] oc_le])

lemma wsum_append:
  "wsum hi (xs @ ys) = wsum hi xs + wsum (if odd (length xs) then \<not> hi else hi) ys"
  by (induction xs arbitrary: hi) auto

lemma wsum_zero: "wsum hi bs = 0 \<longleftrightarrow> (\<forall>b \<in> set bs. b = 0)"
  by (induction bs arbitrary: hi) (auto simp: unat_eq_0)

lemma oc_eq_wsum_flip: "oc_eq (256 * wsum hi bs) (wsum (\<not> hi) bs)"
proof (induction bs arbitrary: hi)
  case (Cons b bs)
  have "oc_eq (256 * (256 * unat b)) (unat b)"
    using mod65535_cong_add [of "unat b" "unat b"] by (auto simp: oc_eq_def)
  then have "oc_eq (256 * (if hi then 256 * unat b else unat b)) (if \<not> hi then 256 * unat b else unat b)"
    by simp
  from oc_eq_add [OF this Cons.IH [of "\<not> hi"]] show ?case
    by (simp add: distrib_left)
qed simp

lemma wsum_bound: "wsum hi bs \<le> 65535 * ((length bs + 1) div 2)"
proof -
  have byte: "unat b \<le> 255" for b :: u8 using unat_u8_less [of b] by linarith
  have "wsum True bs \<le> 65535 * (length bs div 2) + 65280 * (length bs mod 2)
    \<and> wsum False bs \<le> 65535 * (length bs div 2) + 255 * (length bs mod 2)"
  proof (induction bs)
    case (Cons b bs)
    then show ?case using byte [of b] by (cases "even (length bs)") (auto elim!: evenE oddE)
  qed simp
  moreover have "65535 * (length bs div 2) + 65280 * (length bs mod 2) \<le> 65535 * ((length bs + 1) div 2)"
    by (cases "even (length bs)") (auto elim!: evenE oddE)
  ultimately show ?thesis by (cases hi) auto
qed


section \<open>The word operations\<close>

lemma and_FFFF: "(u :: u32) AND 0xFFFF = take_bit 16 u"
proof -
  have "(0xFFFF :: u32) = mask 16" by (simp add: mask_eq_exp_minus_1)
  then show ?thesis by (simp only: take_bit_eq_mask)
qed

lemma unat_and_FFFF [simp]: "unat ((u :: u32) AND 0xFFFF) = unat u mod 65536"
  unfolding and_FFFF by (simp add: unat_take_bit_word)

lemma unat_FOLD: "unat (FOLD_U32T u) = unat u div 65536 + unat u mod 65536"
proof -
  have "unat u div 65536 < 65536" using unat_u32_less [of u] by linarith
  moreover have "unat u mod 65536 < 65536" by simp
  ultimately have "unat u div 65536 + unat u mod 65536 < 4294967296" by linarith
  then show ?thesis
    by (simp add: FOLD_U32T_def unat_add_u32 unat_drop_bit_word)
qed

lemma FOLD_oc_eq: "oc_eq (unat (FOLD_U32T u)) (unat u)"
  unfolding unat_FOLD by (rule oc_eq_wrap)

lemma FOLD_le: "unat u \<le> 131070 \<Longrightarrow> unat (FOLD_U32T u) \<le> 65535"
  unfolding unat_FOLD
proof -
  assume u: "unat u \<le> 131070"
  show "unat u div 65536 + unat u mod 65536 \<le> 65535"
  proof (cases "unat u < 65536")
    case False
    with u have "unat u div 65536 = 1" and "unat u mod 65536 = unat u - 65536"
      by (auto simp: mod_if)
    with u False show ?thesis by simp
  qed simp
qed

lemma FOLD_le2: "unat (FOLD_U32T u) \<le> 131070"
proof -
  have "unat u div 65536 \<le> 65535" using unat_u32_less [of u] by linarith
  moreover have "unat u mod 65536 \<le> 65535" using mod_less_divisor [of 65536 "unat u"] by linarith
  ultimately show ?thesis by (simp add: unat_FOLD)
qed

lemma FOLD2_eq: "unat (FOLD_U32T (FOLD_U32T u)) = oc (unat u)"
  using oc_unique [OF oc_eq_trans [OF FOLD_oc_eq FOLD_oc_eq] FOLD_le [OF FOLD_le2]] .

lemma unat_SWAP: "unat (SWAP_BYTES_IN_WORD w) = 256 * (unat w mod 256) + unat w div 256 mod 256"
proof -
  have "SWAP_BYTES_IN_WORD w = PP_HTONS w" by (simp add: SWAP_BYTES_IN_WORD_def PP_HTONS_def)
  then show ?thesis by (simp add: unat_PP_HTONS)
qed

lemma SWAP_le: "unat (SWAP_BYTES_IN_WORD w) \<le> 65535"
proof -
  have "unat w mod 256 \<le> 255" "unat w div 256 mod 256 \<le> 255"
    using mod_less_divisor [of 256] by (simp_all add: less_Suc_eq_le [symmetric])
  then show ?thesis unfolding unat_SWAP by linarith
qed

lemma SWAP_oc_eq: "unat w \<le> 65535 \<Longrightarrow> oc_eq (unat (SWAP_BYTES_IN_WORD w)) (256 * unat w)"
proof -
  assume "unat w \<le> 65535"
  then have "unat w div 256 mod 256 = unat w div 256" by simp
  then have *: "unat (SWAP_BYTES_IN_WORD w) = 256 * (unat w mod 256) + unat w div 256"
    by (simp add: unat_SWAP)
  have "256 * unat w = unat (SWAP_BYTES_IN_WORD w) + 65535 * (unat w div 256)"
    unfolding * using mult_div_mod_eq [of 256 "unat w"] by linarith
  then have "256 * unat w mod 65535 = unat (SWAP_BYTES_IN_WORD w) mod 65535"
    by (metis mod65535_cong_add)
  moreover have "unat (SWAP_BYTES_IN_WORD w) = 0 \<longleftrightarrow> unat w = 0"
    unfolding * using mult_div_mod_eq [of 256 "unat w"] by auto
  ultimately show ?thesis by (simp add: oc_eq_def)
qed

lemma unat_set_byte0_0: "unat (set_byte0 0 b) = unat b"
  by (simp add: set_byte0_def)

lemma unat_set_byte1_0: "unat (set_byte1 0 b) = 256 * unat b"
  by (simp add: set_byte1_def unat_push_bit_word)

lemma and_FF00_u16: "(t :: u16) AND 0xFF00 = push_bit 8 (drop_bit 8 t)"
proof -
  have "(0xFF00 :: u16) = push_bit 8 (mask 8)" by (simp add: mask_eq_exp_minus_1 push_bit_eq_mult)
  then show ?thesis by (simp only: and_push_mask) (rule bit_word_eqI, auto simp: bit_simps)
qed

lemma unat_set_byte0: "unat (set_byte0 t b) = 256 * (unat t div 256) + unat b"
proof -
  have "(t AND 0xFF00) AND ucast b = 0"
    unfolding and_FF00_u16 by (rule bit_word_eqI) (auto simp: bit_simps dest: bit_imp_le_length)
  moreover have "unat t div 256 * 256 mod 65536 = 256 * (unat t div 256)"
    using unat_u16_less [of t] by (simp add: less_mult_imp_div_less)
  ultimately show ?thesis
    by (simp add: set_byte0_def unat_or_disjoint and_FF00_u16 unat_push_bit_word unat_drop_bit_word)
qed

lemma unat_load16: "unat (load16 b0 b1) = unat b0 + 256 * unat b1"
proof -
  have "(ucast b0 AND 0x00FF :: u16) AND push_bit 8 (ucast b1) = 0"
    by (rule bit_word_eqI) (auto simp: bit_simps dest: bit_imp_le_length)
  moreover have "ucast b0 AND 0x00FF = (ucast b0 :: u16)"
    unfolding word_unat_eq_iff by (subst unat_and_255) simp_all
  ultimately show ?thesis
    by (simp add: load16_def set_byte0_def set_byte1_def unat_or_disjoint unat_push_bit_word)
qed

lemma unat_load32: "unat (load32 b0 b1 b2 b3) = unat (load16 b0 b1) + 65536 * unat (load16 b2 b3)"
proof -
  have "(ucast (load16 b0 b1) :: u32) AND push_bit 16 (ucast (load16 b2 b3)) = 0"
    by (rule bit_word_eqI) (auto simp: bit_simps dest: bit_imp_le_length)
  then show ?thesis
    by (simp add: load32_def unat_or_disjoint unat_push_bit_word)
qed



section \<open>The three algorithms compute the one's complement sum\<close>

lemma unat_htons_inet_sum: "unat (lwip_htons (of_nat (inet_sum octets))) = oc (wsum False octets)"
proof -
  let ?x = "of_nat (inet_sum octets) :: u16"
  have le: "oc (wsum True octets) \<le> 65535" by (rule oc_le)
  then have u: "unat ?x = oc (wsum True octets)"
    by (simp add: inet_sum_def unat_u16_of_nat)
  have "unat (lwip_htons ?x) = unat (SWAP_BYTES_IN_WORD (ucast ?x))"
    using SWAP_le [of "ucast ?x"]
    by (simp add: lwip_htons_def PP_HTONS_def SWAP_BYTES_IN_WORD_def)
  moreover have "oc_eq (unat (SWAP_BYTES_IN_WORD (ucast ?x))) (256 * oc (wsum True octets))"
    using SWAP_oc_eq [of "ucast ?x"] le by (simp add: u)
  moreover have "oc_eq (256 * oc (wsum True octets)) (wsum False octets)"
    using oc_eq_trans [OF oc_eq_mult256 [OF oc_eq_oc] oc_eq_wsum_flip [of True octets]] by simp
  ultimately show ?thesis
    using oc_unique SWAP_le oc_eq_trans by metis
qed

text \<open>What \<open>LWIP_CHKSUM\<close> must compute: the sum of the bytes as big endian words, in host order.\<close>

locale chksum_alg =
  fixes chk :: "u32 \<Rightarrow> u8 list \<Rightarrow> u16"
  assumes chk_sum: "length octets \<le> 0x20000 \<Longrightarrow> chk addr octets = lwip_htons (of_nat (inet_sum octets))"
begin

lemma unat_chk: "length octets \<le> 0x20000 \<Longrightarrow> unat (chk addr octets) = oc (wsum False octets)"
  by (simp add: chk_sum unat_htons_inet_sum)

text \<open>Alignment does not matter, and a zero sum means zero data.\<close>

lemma chk_alignment: "length octets \<le> 0x20000 \<Longrightarrow> chk addr octets = chk addr' octets"
  by (simp add: chk_sum)

lemma chk_zero: "length octets \<le> 0x20000 \<Longrightarrow> chk addr octets = 0 \<longleftrightarrow> (\<forall>b \<in> set octets. b = 0)"
  using unat_chk [of octets addr] wsum_zero [of False octets] oc_eq_oc [of "wsum False octets"]
  by (auto simp: unat_eq_0 [symmetric] oc_eq_def)

end

lemma chksum_alg_by_unat:
  assumes "\<And>addr octets. length octets \<le> 0x20000 \<Longrightarrow> unat (chk addr octets) = oc (wsum False octets)"
  shows "chksum_alg chk"
  by unfold_locales (simp add: word_unat_eq_iff unat_htons_inet_sum assms)

subsection \<open>Algorithm 1\<close>

lemma unat_be16: "unat (push_bit 8 (ucast a) OR ucast b :: u16) = 256 * unat (a :: u8) + unat (b :: u8)"
proof -
  have "push_bit 8 (ucast a) AND (ucast b :: u16) = 0"
    by (rule bit_word_eqI) (auto simp: bit_simps dest: bit_imp_le_length)
  then show ?thesis by (simp add: unat_or_disjoint unat_push_bit_word)
qed

lemma unat_add_u32_small: "unat a + unat b < 4294967296 \<Longrightarrow> unat (a + b :: u32) = unat a + unat b"
  by (simp add: unat_add_u32)

lemma unat_chksum1_loop:
  "unat acc + wsum True octets < 4294967296 \<Longrightarrow>
   unat (chksum1_loop acc octets) = unat acc + wsum True octets"
proof (induction acc octets rule: chksum1_loop.induct)
  case (1 acc a b octets)
  then have "unat (acc + ucast (push_bit 8 (ucast a) OR ucast b :: u16)) = unat acc + (256 * unat a + unat b)"
    by (subst unat_add_u32_small) (simp_all add: unat_be16)
  with 1 show ?case by (simp add: Let_def)
next
  case (2 acc a)
  then show ?case by (simp add: unat_add_u32 unat_push_bit_word)
qed simp

lemma wsum_less: "length octets \<le> 0x20000 \<Longrightarrow> wsum hi octets \<le> 4294901760"
proof -
  assume "length octets \<le> 0x20000"
  then have "(length octets + 1) div 2 \<le> 65536" by simp
  with wsum_bound [of hi octets] show ?thesis by linarith
qed

lemma and_FFFF0000_zero: "(u :: u32) AND 0xFFFF0000 = 0 \<longleftrightarrow> unat u \<le> 65535"
proof -
  have "(0xFFFF0000 :: u32) = push_bit 16 (mask 16)" by (simp add: mask_eq_exp_minus_1 push_bit_eq_mult)
  then have "u AND 0xFFFF0000 = push_bit 16 (drop_bit 16 u)"
    by (simp only: and_push_mask) (rule bit_word_eqI, auto simp: bit_simps)
  moreover have "unat (push_bit 16 (drop_bit 16 u)) = 65536 * (unat u div 65536)"
    using unat_u32_less [of u] by (simp add: unat_push_bit_word unat_drop_bit_word less_mult_imp_div_less)
  ultimately have "u AND 0xFFFF0000 = 0 \<longleftrightarrow> 65536 * (unat u div 65536) = 0"
    by (metis unat_eq_0)
  then show ?thesis by (auto simp: div_eq_0_iff)
qed

lemma unat_ucast_small: "unat (u :: u32) \<le> 65535 \<Longrightarrow> unat (ucast u :: u16) = unat u"
  by simp

lemma FOLD_id: "unat u \<le> 65535 \<Longrightarrow> FOLD_U32T u = u"
  by (simp add: word_unat_eq_iff unat_FOLD)

lemma unat_chksum1:
  assumes "length octets \<le> 0x20000"
  shows "unat (lwip_standard_chksum1 addr octets) = oc (wsum False octets)"
proof -
  let ?a = "chksum1_loop 0 octets"
  have "unat ?a = wsum True octets"
    using unat_chksum1_loop [of 0 octets] wsum_less [OF assms, of True] by simp
  then have u: "unat (FOLD_U32T (FOLD_U32T ?a)) = inet_sum octets"
    by (simp add: FOLD2_eq inet_sum_def)
  have "lwip_standard_chksum1 addr octets = lwip_htons (ucast (FOLD_U32T (FOLD_U32T ?a)))"
    by (auto simp: lwip_standard_chksum1_def Let_def FOLD_id and_FFFF0000_zero simp flip: FOLD_U32T_def)
  moreover have "ucast (FOLD_U32T (FOLD_U32T ?a)) = (of_nat (inet_sum octets) :: u16)"
    using oc_le [of "wsum True octets"]
    by (simp add: word_unat_eq_iff u unat_u16_of_nat inet_sum_def)
  ultimately show ?thesis by (simp add: unat_htons_inet_sum)
qed

subsection \<open>Algorithm 2\<close>

lemma chksum2_bulk_sum:
  assumes "chksum2_bulk sm ps = (sm', r)" and "unat sm + wsum False ps < 4294967296"
  shows "length r \<le> 1 \<and> unat sm' + wsum False r = unat sm + wsum False ps"
  using assms
proof (induction sm ps rule: chksum2_bulk.induct)
  case (1 sm b0 b1 ps)
  then have "unat (sm + ucast (load16 b0 b1)) = unat sm + (unat b0 + 256 * unat b1)"
    by (subst unat_add_u32_small) (simp_all add: unat_load16)
  with 1 show ?case by simp
qed auto

lemma chksum_tail:
  assumes "length r \<le> 1" and "unat t = 256 * unat (b :: u8)"
  shows "unat (if r \<noteq> [] then set_byte0 t (hd r) else t) = unat t + wsum False r"
  using assms by (cases r) (simp_all add: unat_set_byte0)

text \<open>The closing steps shared by algorithms 2 and 3: fold twice, swap back after an odd start.\<close>

lemma chksum_finish:
  assumes "oc_eq (unat sm) (wsum od octets)"
  shows "unat (ucast (if od then SWAP_BYTES_IN_WORD (FOLD_U32T (FOLD_U32T sm)) else FOLD_U32T (FOLD_U32T sm)) :: u16)
    = oc (wsum False octets)"
proof (cases od)
  case False
  have "unat (FOLD_U32T (FOLD_U32T sm)) = oc (wsum False octets)"
    using oc_cong [OF assms] False by (simp add: FOLD2_eq)
  with False oc_le [of "wsum False octets"] show ?thesis by simp
next
  case True
  let ?s = "FOLD_U32T (FOLD_U32T sm)"
  have le: "unat ?s \<le> 65535" by (simp add: FOLD2_eq oc_le)
  have "oc_eq (unat ?s) (wsum True octets)"
    using assms True oc_eq_trans [OF oc_eq_oc] by (simp add: FOLD2_eq)
  then have "oc_eq (256 * unat ?s) (wsum False octets)"
    using oc_eq_trans [OF oc_eq_mult256 oc_eq_wsum_flip] by fastforce
  with SWAP_oc_eq [OF le] have "oc_eq (unat (SWAP_BYTES_IN_WORD ?s)) (wsum False octets)"
    by (rule oc_eq_trans)
  then have "unat (SWAP_BYTES_IN_WORD ?s) = oc (wsum False octets)"
    using SWAP_le by (rule oc_unique)
  with True oc_le [of "wsum False octets"] show ?thesis by simp
qed

lemma unat_chksum2:
  assumes "length octets \<le> 0x20000"
  shows "unat (lwip_standard_chksum addr octets) = oc (wsum False octets)"
proof -
  define od where "od \<longleftrightarrow> addr AND 1 \<noteq> 0"
  obtain t pb where tp: "(t, pb) = (if od \<and> octets \<noteq> [] then (set_byte1 0 (hd octets), tl octets) else (0, octets))"
    by (metis surj_pair)
  obtain sm r where bulk: "chksum2_bulk 0 pb = (sm, r)" by (metis surj_pair)
  obtain b where t: "unat t = 256 * unat (b :: u8)" and split: "unat t + wsum False pb = wsum od octets"
  proof (cases "od \<and> octets \<noteq> []")
    case True
    with tp that [of "hd octets"] show ?thesis by (cases octets) (auto simp: unat_set_byte1_0)
  next
    case False
    with tp that [of 0] show ?thesis by (cases octets) auto
  qed
  have total: "wsum od octets \<le> 4294901760" by (rule wsum_less [OF assms])
  from split total have "unat (0 :: u32) + wsum False pb < 4294967296" by simp
  note bulk_sum = chksum2_bulk_sum [OF bulk this]
  let ?t = "if r \<noteq> [] then set_byte0 t (hd r) else t"
  have "unat ?t = unat t + wsum False r" using bulk_sum t by (intro chksum_tail) auto
  then have "unat (sm + ucast ?t) = wsum od octets"
    using bulk_sum split total by (subst unat_add_u32_small) auto
  then have "oc_eq (unat (sm + ucast ?t)) (wsum od octets)" by simp
  from chksum_finish [OF this] show ?thesis
    unfolding lwip_standard_chksum_def Let_def od_def [symmetric] tp [symmetric] prod.case bulk .
qed

subsection \<open>Algorithm 3\<close>

lemma mod65535_2_32: "(x + 4294967296) mod 65535 = (x + 1) mod (65535 :: nat)"
proof -
  have "x + 4294967296 = (x + 1) + 65535 * 65537" by simp
  then show ?thesis by (metis mod65535_cong_add)
qed

lemma add_carry_oc_eq: "oc_eq (unat (add_carry acc x)) (unat acc + unat x)"
proof (cases "unat acc + unat x < 4294967296")
  case True
  then have "unat (acc + x) = unat acc + unat x" by (rule unat_add_u32_small)
  then show ?thesis by (simp add: add_carry_def Let_def word_less_nat_alt)
next
  case False
  moreover have "unat acc + unat x - 4294967296 < 4294967296"
    using unat_u32_less [of acc] unat_u32_less [of x] by linarith
  ultimately have ov: "unat (acc + x) = unat acc + unat x - 4294967296"
    unfolding unat_add_u32 by (subst le_mod_geq) (simp_all only: not_less mod_less)
  with False have less: "acc + x < acc"
    unfolding word_less_nat_alt using unat_u32_less [of x] by linarith
  have "unat (acc + x) + unat (1 :: u32) < 4294967296"
    unfolding ov unsigned_1 using unat_u32_less [of acc] unat_u32_less [of x] by linarith
  then have "unat (acc + x + 1) = unat (acc + x) + 1" by (subst unat_add_u32_small) simp_all
  with less have u: "unat (add_carry acc x) = unat acc + unat x - 4294967296 + 1"
    by (simp add: add_carry_def Let_def ov)
  moreover have "unat acc + unat x \<noteq> 0" using False by linarith
  ultimately show ?thesis
    using False mod65535_2_32 [of "unat acc + unat x - 4294967296"] by (simp add: oc_eq_def)
qed

lemma load32_oc_eq: "oc_eq (unat (load32 b0 b1 b2 b3)) (wsum False [b0, b1, b2, b3])"
proof -
  have "oc_eq (65536 * unat (load16 b2 b3)) (unat (load16 b2 b3))"
    using mod65535_cong_add [of "unat (load16 b2 b3)" "unat (load16 b2 b3)"] by (auto simp: oc_eq_def)
  from oc_eq_add [OF oc_eq_refl this, of "unat (load16 b0 b1)"] show ?thesis
    by (simp add: unat_load32 unat_load16 add.assoc)
qed

lemma chksum3_bulk_oc_eq:
  assumes "chksum3_bulk sm ps = (sm', r)"
  shows "length r \<le> 7 \<and> oc_eq (unat sm' + wsum False r) (unat sm + wsum False ps)"
  using assms
proof (induction sm ps rule: chksum3_bulk.induct)
  case (1 sm b0 b1 b2 b3 b4 b5 b6 b7 pl)
  let ?s1 = "add_carry sm (load32 b0 b1 b2 b3)"
  let ?s2 = "add_carry ?s1 (load32 b4 b5 b6 b7)"
  have "oc_eq (unat ?s1) (unat sm + wsum False [b0, b1, b2, b3])"
    by (rule oc_eq_trans [OF add_carry_oc_eq oc_eq_add [OF oc_eq_refl load32_oc_eq]])
  then have "oc_eq (unat ?s2) (unat sm + wsum False [b0, b1, b2, b3] + wsum False [b4, b5, b6, b7])"
    by (rule oc_eq_trans [OF add_carry_oc_eq oc_eq_add [OF _ load32_oc_eq]])
  from oc_eq_add [OF this oc_eq_refl [of "wsum False pl"]]
  have step: "oc_eq (unat ?s2 + wsum False pl)
      (unat sm + wsum False (b0 # b1 # b2 # b3 # b4 # b5 # b6 # b7 # pl))"
    by (simp add: ac_simps)
  from 1 have "length r \<le> 7" and "oc_eq (unat sm' + wsum False r) (unat ?s2 + wsum False pl)"
    by (simp_all add: Let_def)
  with step show ?case by (blast intro: oc_eq_trans)
qed auto

lemma unat_chksum3: "unat (lwip_standard_chksum3 addr octets) = oc (wsum False octets)"
proof -
  define od where "od \<longleftrightarrow> addr AND 1 \<noteq> 0"
  obtain t pb adr where tp: "(t, pb, adr) = (if od \<and> octets \<noteq> []
      then (set_byte1 0 (hd octets), tl octets, addr + 1) else (0, octets, addr))"
    by (metis surj_pair)
  obtain b where t: "unat t = 256 * unat (b :: u8)" and split: "unat t + wsum False pb = wsum od octets"
  proof (cases "od \<and> octets \<noteq> []")
    case True
    with tp that [of "hd octets"] show ?thesis by (cases octets) (auto simp: unat_set_byte1_0)
  next
    case False
    with tp that [of 0] show ?thesis by (cases octets) auto
  qed
  obtain s0 ps where sp: "(s0 :: u32, ps) = (if adr AND 3 \<noteq> 0 \<and> length pb > 1
      then (ucast (load16 (pb ! 0) (pb ! 1)), drop 2 pb) else (0, pb))"
    by (metis surj_pair)
  have s0: "unat s0 + wsum False ps = wsum False pb"
  proof (cases "adr AND 3 \<noteq> 0 \<and> length pb > 1")
    case True
    then obtain x y zs where "pb = x # y # zs" by (cases pb; cases "tl pb") auto
    with True sp show ?thesis by (simp add: unat_load16)
  qed (use sp in auto)
  obtain s1 pl where bulk3: "chksum3_bulk s0 ps = (s1, pl)" by (metis surj_pair)
  obtain s2 r where bulk2: "chksum2_bulk (FOLD_U32T s1) pl = (s2, r)" by (metis surj_pair)
  note b3 = chksum3_bulk_oc_eq [OF bulk3]
  then have "length pl \<le> 7" ..
  then have "(length pl + 1) div 2 \<le> 4" by linarith
  then have small: "unat (FOLD_U32T s1) + wsum False pl \<le> 393210"
    using wsum_bound [of False pl] FOLD_le2 [of s1] by linarith
  note b2 = chksum2_bulk_sum [OF bulk2]
  let ?t = "if r \<noteq> [] then set_byte0 t (hd r) else t"
  have tail: "unat ?t = unat t + wsum False r" using b2 small t by (intro chksum_tail) auto
  have "unat (s2 + ucast ?t) = unat s2 + unat ?t"
    using b2 small unat_u16_less [of ?t] by (subst unat_add_u32_small) (simp_all del: unat_u16_less)
  also have "\<dots> = unat t + (unat (FOLD_U32T s1) + wsum False pl)" using b2 small tail by simp
  finally have "oc_eq (unat (s2 + ucast ?t)) (unat t + (unat s1 + wsum False pl))"
    using oc_eq_add [OF oc_eq_refl oc_eq_add [OF FOLD_oc_eq oc_eq_refl]] by metis
  then have "oc_eq (unat (s2 + ucast ?t)) (unat t + (unat s0 + wsum False ps))"
    using oc_eq_trans oc_eq_add [OF oc_eq_refl b3 [THEN conjunct2]] by blast
  then have "oc_eq (unat (s2 + ucast ?t)) (wsum od octets)" by (simp add: s0 split)
  from chksum_finish [OF this] show ?thesis
    unfolding lwip_standard_chksum3_def Let_def od_def [symmetric] tp [symmetric] sp [symmetric]
      prod.case bulk3 bulk2 .
qed

interpretation alg1: chksum_alg lwip_standard_chksum1
  by (rule chksum_alg_by_unat) (rule unat_chksum1)

interpretation alg2: chksum_alg lwip_standard_chksum
  by (rule chksum_alg_by_unat) (rule unat_chksum2)

interpretation alg3: chksum_alg lwip_standard_chksum3
  by (rule chksum_alg_by_unat) (rule unat_chksum3)



section \<open>Checksums over buffers and chains\<close>

lemma unat_NOT_u16: "unat (NOT (x :: u16)) = 65535 - unat x"
proof -
  have "NOT x = - 1 - x" by (simp add: not_eq_complement)
  then have "unat (NOT x) = unat (- 1 :: u16) - unat x" by (simp add: unat_sub)
  moreover have "unat (- 1 :: u16) = 65535" by (simp add: unsigned_minus_1_eq_mask mask_eq_exp_minus_1)
  ultimately show ?thesis by simp
qed

lemma ucast_NOT_and_FFFF: "ucast (NOT ((acc :: u32) AND 0xFFFF)) = (NOT (ucast acc) :: u16)"
  by (rule bit_word_eqI) (auto simp: and_FFFF bit_simps)

text \<open>The checksum a sender stores: the complement of the sum, as a word in memory order.\<close>

definition inet_checksum_of :: "u8 list \<Rightarrow> u16" where
  "inet_checksum_of octets = NOT (lwip_htons (of_nat (inet_sum octets)))"

lemma inet_checksum_of_unat: "unat x = oc (wsum False octets) \<Longrightarrow> NOT x = inet_checksum_of octets"
  by (metis inet_checksum_of_def unat_htons_inet_sum word_unat_eq_iff)

lemma inet_chksum_eq: "length octets \<le> 0x20000 \<Longrightarrow> inet_chksum addr octets = inet_checksum_of octets"
  by (simp add: inet_chksum_def inet_checksum_of_def alg2.chk_sum)

definition chain_ok :: "payload list \<Rightarrow> bool" where
  "chain_ok chain \<longleftrightarrow> (\<forall>(addr, q) \<in> set chain. length q < 65536)"

definition payload_data :: "payload list \<Rightarrow> u8 list" where
  "payload_data chain = concat (map snd chain)"

lemma chain_simps [simp]:
  "chain_ok []" "chain_ok ((addr, q) # chain) \<longleftrightarrow> length q < 65536 \<and> chain_ok chain"
  "payload_data [] = []" "payload_data ((addr, q) # chain) = q @ payload_data chain"
  by (auto simp: chain_ok_def payload_data_def)

text \<open>
  The loop invariant: after the bytes \<open>done\<close>, the accumulator stands for the start value plus the
  sum of the bytes, multiplied by \<open>256\<close> (that is, with its bytes swapped) while \<open>swapped\<close> is set.
\<close>

definition acc_inv :: "nat \<Rightarrow> u8 list \<Rightarrow> u32 \<Rightarrow> bool \<Rightarrow> bool" where
  "acc_inv base seen acc swapped \<longleftrightarrow> unat acc \<le> 65535 \<and> (swapped \<longleftrightarrow> odd (length seen)) \<and>
     oc_eq (unat acc) ((if swapped then 256 else 1) * (base + wsum False seen))"

lemma acc_add_fold:
  fixes addr :: u32
  assumes inv: "acc_inv base seen acc swapped" and len: "length q \<le> 0x20000"
  defines "acc' \<equiv> FOLD_U32T (acc + ucast (lwip_standard_chksum addr q))"
  shows "unat acc' \<le> 65535"
    and "oc_eq (unat acc') ((if swapped then 256 else 1) * (base + wsum False (seen @ q)))"
proof -
  let ?c = "lwip_standard_chksum addr q"
  have chk: "oc_eq (unat ?c) (wsum False q)" by (simp add: alg2.unat_chk [OF len] oc_eq_oc)
  have le: "unat acc + unat ?c \<le> 131070"
    using inv unat_u16_less [of ?c] unfolding acc_inv_def by linarith
  then have sum: "unat (acc + ucast ?c) = unat acc + unat ?c" by (simp add: unat_add_u32)
  show "unat acc' \<le> 65535" unfolding acc'_def using sum le by (intro FOLD_le) simp
  have flip: "oc_eq (unat ?c) ((if swapped then 256 else 1) * wsum swapped q)"
  proof (cases swapped)
    case True
    have "oc_eq (wsum False q) (256 * wsum True q)" using oc_eq_sym [OF oc_eq_wsum_flip [of True q]] by simp
    with True chk show ?thesis by (simp add: oc_eq_trans)
  qed (use chk in simp)
  have app: "wsum False (seen @ q) = wsum False seen + wsum swapped q"
    using inv by (auto simp: acc_inv_def wsum_append)
  have "oc_eq (unat acc + unat ?c) ((if swapped then 256 else 1) * (base + wsum False seen)
      + (if swapped then 256 else 1) * wsum swapped q)"
    using inv unfolding acc_inv_def by (intro oc_eq_add flip) blast
  then have "oc_eq (unat acc + unat ?c) ((if swapped then 256 else 1) * (base + wsum False (seen @ q)))"
    by (simp only: app distrib_left add.assoc)
  then show "oc_eq (unat acc') ((if swapped then 256 else 1) * (base + wsum False (seen @ q)))"
    unfolding acc'_def using oc_eq_trans [OF FOLD_oc_eq] sum by simp
qed

lemma oc_eq_256_256: "oc_eq (256 * (256 * n)) n"
  using mod65535_cong_add [of n n] by (auto simp: oc_eq_def)

lemma acc_swap:
  assumes "unat acc \<le> 65535" and "oc_eq (unat acc) ((if swapped then 256 else 1) * n)"
  shows "oc_eq (unat (SWAP_BYTES_IN_WORD acc)) ((if \<not> swapped then 256 else 1) * n)"
proof -
  from assms have "oc_eq (unat (SWAP_BYTES_IN_WORD acc)) (256 * ((if swapped then 256 else 1) * n))"
    by (blast intro: oc_eq_trans SWAP_oc_eq oc_eq_mult256)
  then show ?thesis
    using oc_eq_trans [OF _ oc_eq_256_256] by (cases swapped) auto
qed

lemma acc_inv_step:
  fixes addr :: u32
  assumes "acc_inv base seen acc swapped" and "length q \<le> 0x20000"
  defines "acc' \<equiv> FOLD_U32T (acc + ucast (lwip_standard_chksum addr q))"
  shows "acc_inv base (seen @ q) (if odd (length q) then SWAP_BYTES_IN_WORD acc' else acc')
    (if odd (length q) then \<not> swapped else swapped)"
  using acc_add_fold [OF assms(1,2), of addr] acc_swap [of acc' swapped] SWAP_le [of acc'] assms(1)
  by (auto simp: acc_inv_def acc'_def)

lemma acc_final:
  assumes "unat acc \<le> 65535" and "oc_eq (unat acc) ((if swapped then 256 else 1) * n)"
  shows "unat (if swapped then SWAP_BYTES_IN_WORD acc else acc) \<le> 65535 \<and>
    oc_eq (unat (if swapped then SWAP_BYTES_IN_WORD acc else acc)) n"
  using assms acc_swap [OF assms] SWAP_le [of acc] by (cases swapped) simp_all

lemma acc_inv_final:
  assumes "acc_inv base seen acc swapped"
  shows "unat (if swapped then SWAP_BYTES_IN_WORD acc else acc) \<le> 65535 \<and>
    oc_eq (unat (if swapped then SWAP_BYTES_IN_WORD acc else acc)) (base + wsum False seen)"
  using assms unfolding acc_inv_def by (intro acc_final) blast+

lemma chain_loop_inv:
  assumes "acc_inv base seen acc swapped" and "chain_ok chain"
    and "chain_loop chain acc swapped = (acc', swapped')"
  shows "acc_inv base (seen @ payload_data chain) acc' swapped'"
  using assms
proof (induction chain acc swapped arbitrary: seen rule: chain_loop.induct)
  case (2 addr q chain acc swapped)
  have "length q \<le> 0x20000" using "2.prems"(2) by simp
  note step = acc_inv_step [OF "2.prems"(1) this, of addr]
  show ?case
  proof (cases "odd (length q)")
    case True
    with step "2.IH"(1) [OF refl refl, of "seen @ q"] "2.prems"(2,3) show ?thesis
      by (simp add: Let_def odd_iff_mod_2_eq_one)
  next
    case False
    with step "2.IH"(2) [OF refl refl, of "seen @ q"] "2.prems"(2,3) show ?thesis
      by (simp add: Let_def)
  qed
qed auto

lemma inet_chksum_pbuf_eq:
  assumes "chain_ok p"
  shows "inet_chksum_pbuf p = inet_checksum_of (payload_data p)"
proof -
  obtain acc swapped where loop: "chain_loop p 0 False = (acc, swapped)" by (metis surj_pair)
  have "acc_inv 0 [] 0 False" by (simp add: acc_inv_def)
  from acc_inv_final [OF chain_loop_inv [OF this assms loop]]
  have "unat (ucast (if swapped then SWAP_BYTES_IN_WORD acc else acc) :: u16) = oc (wsum False (payload_data p))"
    using oc_unique by auto
  from inet_checksum_of_unat [OF this] show ?thesis
    unfolding inet_chksum_pbuf_def loop Let_def prod.case ucast_NOT_and_FFFF .
qed


subsection \<open>Pseudo header\<close>

text \<open>The bytes of a word as they lie in memory: little endian for host words, big endian on the wire.\<close>

definition mem32 :: "u32 \<Rightarrow> u8 list" where
  "mem32 w = [ucast w, ucast (drop_bit 8 w), ucast (drop_bit 16 w), ucast (drop_bit 24 w)]"

definition net16 :: "u16 \<Rightarrow> u8 list" where
  "net16 w = [ucast (drop_bit 8 w), ucast w]"

text \<open>The pseudo header of RFC 768 and RFC 793; the addresses are kept in network order in memory.\<close>

definition pseudo_header :: "u8 \<Rightarrow> u16 \<Rightarrow> u32 \<Rightarrow> u32 \<Rightarrow> u8 list" where
  "pseudo_header proto proto_len src dest = mem32 src @ mem32 dest @ [0, proto] @ net16 proto_len"

lemma wsum_mem32: "wsum False (mem32 w) = unat w mod 65536 + unat w div 65536"
proof -
  have "unat w div 16777216 < 256" using unat_u32_less [of w] by linarith
  then have "unat w div 16777216 mod 256 = unat w div 16777216" by simp
  moreover have "unat w mod 65536 = unat w mod 256 + 256 * (unat w div 256 mod 256)"
    using mod_mult2_eq [of "unat w" 256 256] by simp
  moreover have "unat w div 65536 = unat w div 65536 mod 256 + 256 * (unat w div 16777216)"
    using mult_div_mod_eq [of 256 "unat w div 65536"] div_mult2_eq [of "unat w" 65536 256] by simp
  ultimately show ?thesis by (simp add: mem32_def unat_drop_bit_word)
qed

lemma wsum_net16: "wsum False (net16 w) = unat (lwip_htons w)"
proof -
  have "unat w div 256 < 256" using unat_u16_less [of w] by linarith
  then show ?thesis by (simp add: net16_def unat_lwip_htons unat_drop_bit_word)
qed

lemma wsum_pseudo_header:
  "wsum False (pseudo_header proto proto_len src dest) =
    (unat src mod 65536 + unat src div 65536) + (unat dest mod 65536 + unat dest div 65536)
    + (unat (lwip_htons (ucast proto)) + unat (lwip_htons proto_len))"
  by (simp add: pseudo_header_def wsum_append wsum_mem32 wsum_net16 unat_lwip_htons)
    (simp add: mem32_def wsum_net16)

lemma unat_pseudo_addr_acc:
  "unat (pseudo_addr_acc src dest) =
    oc ((unat src mod 65536 + unat src div 65536) + (unat dest mod 65536 + unat dest div 65536))"
proof -
  have hi: "unat (drop_bit 16 w) mod 65536 = unat w div 65536" for w :: u32
  proof -
    have "unat w div 65536 < 65536" using unat_u32_less [of w] by linarith
    then show ?thesis by (simp add: unat_drop_bit_word)
  qed
  have lo: "unat w mod 65536 \<le> 65535" "unat w div 65536 \<le> 65535" for w :: u32
    using unat_u32_less [of w] mod_less_divisor [of 65536 "unat w"] by linarith+
  have "unat ((src AND 0xFFFF) + (drop_bit 16 src AND 0xFFFF) + (dest AND 0xFFFF) + (drop_bit 16 dest AND 0xFFFF))
    = (unat src mod 65536 + unat src div 65536) + (unat dest mod 65536 + unat dest div 65536)"
    using lo [of src] lo [of dest] by (simp add: unat_add_u32 hi)
  then show ?thesis unfolding pseudo_addr_acc_def Let_def FOLD2_eq by simp
qed

text \<open>Adding protocol and length to a folded accumulator cannot overflow.\<close>

lemma pseudo_finish:
  fixes proto :: u8 and proto_len :: u16
  assumes le: "unat acc \<le> 65535" and acc: "oc_eq (unat acc) n"
  defines "acc' \<equiv> acc + ucast (lwip_htons (ucast proto)) + ucast (lwip_htons proto_len)"
  shows "unat (ucast (FOLD_U32T (FOLD_U32T acc')) :: u16)
    = oc (n + (unat (lwip_htons (ucast proto)) + unat (lwip_htons proto_len)))"
proof -
  let ?x = "unat (lwip_htons (ucast proto)) + unat (lwip_htons proto_len)"
  have "unat acc' = unat acc + ?x"
    using le unat_u16_less [of "lwip_htons (ucast proto)"] unat_u16_less [of "lwip_htons proto_len"]
    by (simp add: acc'_def unat_add_u32 del: unat_u16_less)
  then have "oc_eq (unat acc') (n + ?x)" using oc_eq_add [OF acc oc_eq_refl] by metis
  then have "oc (unat acc') = oc (n + ?x)" by (rule oc_cong)
  then show ?thesis using oc_le [of "unat acc'"] by (simp add: FOLD2_eq)
qed

lemma inet_chksum_pseudo_eq:
  assumes "chain_ok p"
  shows "inet_chksum_pseudo p proto proto_len src dest
    = inet_checksum_of (pseudo_header proto proto_len src dest @ payload_data p)"
proof -
  let ?a = "(unat src mod 65536 + unat src div 65536) + (unat dest mod 65536 + unat dest div 65536)"
  let ?h = "pseudo_header proto proto_len src dest"
  obtain acc swapped where loop: "chain_loop p (pseudo_addr_acc src dest) False = (acc, swapped)"
    by (metis surj_pair)
  have "acc_inv ?a [] (pseudo_addr_acc src dest) False"
    by (simp add: acc_inv_def unat_pseudo_addr_acc oc_le oc_eq_oc)
  note final = acc_inv_final [OF chain_loop_inv [OF this assms loop]]
  have "wsum False (?h @ payload_data p) = ?a + wsum False (payload_data p)
      + (unat (lwip_htons (ucast proto)) + unat (lwip_htons proto_len))"
    by (simp add: wsum_append wsum_pseudo_header) (simp add: pseudo_header_def mem32_def net16_def)
  with pseudo_finish [OF final [THEN conjunct1] final [THEN conjunct2], of proto proto_len]
  show ?thesis
    unfolding inet_chksum_pseudo_def inet_cksum_pseudo_base_def loop Let_def prod.case ucast_NOT_and_FFFF
    by (intro inet_checksum_of_unat) simp
qed

text \<open>The partial checksum covers the first \<open>chksum_len\<close> bytes of the chain.\<close>

lemma partial_loop_inv:
  assumes "acc_inv base seen acc swapped" and "chain_ok chain" and "n < 0x7FFF"
  shows "\<exists>acc' swapped'. partial_loop chain n acc swapped = Some (acc', swapped') \<and>
    unat (if swapped' then SWAP_BYTES_IN_WORD acc' else acc') \<le> 65535 \<and>
    oc_eq (unat (if swapped' then SWAP_BYTES_IN_WORD acc' else acc'))
      (base + wsum False (seen @ take (unat n) (payload_data chain)))"
  using assms
proof (induction chain arbitrary: n acc swapped seen)
  case Nil
  then show ?case using acc_inv_final [OF Nil.prems(1)] by simp
next
  case (Cons pq chain)
  obtain addr q where pq: "pq = (addr, q)" by (cases pq)
  show ?case
  proof (cases "n = 0")
    case True
    with acc_inv_final [OF Cons.prems(1)] show ?thesis by (simp add: pq)
  next
    case False
    define chklen where "chklen = (if length q > unat n then n else of_nat (length q))"
    define acc1 where "acc1 = FOLD_U32T (acc + ucast (lwip_standard_chksum addr (take (unat n) q)))"
    have small: "length q < 65536" and ok: "chain_ok chain" using Cons.prems(2) by (auto simp: pq)
    have uchk: "unat chklen = min (length q) (unat n)"
      using small by (auto simp: chklen_def unat_u16_of_nat)
    then have "chklen \<le> n" by (simp add: word_le_nat_alt)
    then have rest: "unat (n - chklen) = unat n - length q" by (simp add: unat_sub uchk)
    then have bound: "n - chklen < 0x7FFF"
      using Cons.prems(3) unfolding word_less_nat_alt by linarith
    have tk: "take (unat chklen) q = take (unat n) q" by (simp add: uchk min_def)
    have step: "partial_loop (pq # chain) n acc swapped =
        (if odd (length q) then partial_loop chain (n - chklen) (SWAP_BYTES_IN_WORD acc1) (\<not> swapped)
         else partial_loop chain (n - chklen) acc1 swapped)"
      unfolding pq partial_loop.simps chklen_def [symmetric] tk Let_def acc1_def [symmetric]
      using False bound by (simp add: odd_iff_mod_2_eq_one)
    show ?thesis
    proof (cases "length q \<le> unat n")
      case True
      then have acc1: "acc1 = FOLD_U32T (acc + ucast (lwip_standard_chksum addr q))"
        and tail: "take (unat n) (payload_data (pq # chain)) = q @ take (unat (n - chklen)) (payload_data chain)"
        by (simp_all add: rest pq acc1_def)
      have "length q \<le> 0x20000" using small by simp
      note inv = acc_inv_step [OF Cons.prems(1) this, of addr, folded acc1]
      from Cons.IH [OF inv ok bound] show ?thesis
        unfolding step tail append_assoc by (cases "odd (length q)") simp_all
    next
      case False
      then have "n - chklen = 0" by (simp add: word_unat_eq_iff rest)
      then have stop: "partial_loop chain (n - chklen) a s = Some (a, s)" for a s
        by (cases chain) auto
      have tail: "take (unat n) (payload_data (pq # chain)) = take (unat n) q" using False by (simp add: pq)
      have "length (take (unat n) q) \<le> 0x20000" using small by simp
      note add = acc_add_fold [OF Cons.prems(1) this, of addr, folded acc1_def]
      show ?thesis
        unfolding step stop tail
        using acc_final [OF add] acc_final [OF SWAP_le acc_swap [OF add]] by (cases "odd (length q)") simp_all
    qed
  qed
qed

lemma inet_chksum_pseudo_partial_eq:
  assumes "chain_ok p" and "chksum_len < 0x7FFF"
  shows "inet_chksum_pseudo_partial p proto proto_len chksum_len src dest
    = Some (inet_checksum_of (pseudo_header proto proto_len src dest
        @ take (unat chksum_len) (payload_data p)))"
proof -
  let ?a = "(unat src mod 65536 + unat src div 65536) + (unat dest mod 65536 + unat dest div 65536)"
  let ?h = "pseudo_header proto proto_len src dest" and ?d = "take (unat chksum_len) (payload_data p)"
  have "acc_inv ?a [] (pseudo_addr_acc src dest) False"
    by (simp add: acc_inv_def unat_pseudo_addr_acc oc_le oc_eq_oc)
  from partial_loop_inv [OF this assms] obtain acc swapped
    where loop: "partial_loop p chksum_len (pseudo_addr_acc src dest) False = Some (acc, swapped)"
      and le: "unat (if swapped then SWAP_BYTES_IN_WORD acc else acc) \<le> 65535"
      and eq: "oc_eq (unat (if swapped then SWAP_BYTES_IN_WORD acc else acc)) (?a + wsum False ?d)"
    by auto
  have "wsum False (?h @ ?d) = ?a + wsum False ?d
      + (unat (lwip_htons (ucast proto)) + unat (lwip_htons proto_len))"
    by (simp add: wsum_append wsum_pseudo_header) (simp add: pseudo_header_def mem32_def net16_def)
  with pseudo_finish [OF le eq, of proto proto_len]
  show ?thesis
    unfolding inet_chksum_pseudo_partial_def inet_cksum_pseudo_partial_base_def loop Let_def
      Option.bind.simps prod.case ucast_NOT_and_FFFF
    by (intro arg_cong [of _ _ Some] inet_checksum_of_unat) simp
qed

subsection \<open>Verification by the receiver\<close>

text \<open>A 16-bit store of the host.\<close>

definition mem16 :: "u16 \<Rightarrow> u8 list" where
  "mem16 w = [ucast w, ucast (drop_bit 8 w)]"

lemma wsum_mem16: "wsum False (mem16 w) = unat w"
proof -
  have "unat w div 256 < 256" using unat_u16_less [of w] by linarith
  then show ?thesis by (simp add: mem16_def unat_drop_bit_word)
qed

lemma inet_checksum_verifies:
  assumes "even (length pre)"
  shows "inet_checksum_of (pre @ mem16 (inet_checksum_of (pre @ [0, 0] @ post)) @ post) = 0"
proof -
  let ?zero = "pre @ [0, 0] @ post" and ?w = "wsum False (pre @ [0, 0] @ post)"
  let ?c = "inet_checksum_of ?zero"
  have c: "unat ?c = 65535 - oc ?w"
    by (simp add: inet_checksum_of_def unat_NOT_u16 unat_htons_inet_sum)
  have "wsum False (pre @ mem16 ?c @ post) = wsum False pre + (unat ?c + wsum False post)"
    using assms by (simp add: wsum_append wsum_mem16) (simp add: mem16_def)
  moreover have "?w = wsum False pre + wsum False post" using assms by (simp add: wsum_append)
  ultimately have w': "wsum False (pre @ mem16 ?c @ post) = ?w + (65535 - oc ?w)" using c by simp
  have "(65535 - oc ?w + oc ?w) mod 65535 = (65535 - oc ?w + ?w) mod 65535"
    using oc_eq_oc [of ?w] unfolding oc_eq_def by (intro mod_add_cong) auto
  then have "oc_eq 65535 (?w + (65535 - oc ?w))"
    using oc_le [of ?w] oc_eq_oc [of ?w] by (auto simp: oc_eq_def add.commute)
  then have "oc (wsum False (pre @ mem16 ?c @ post)) = 65535"
    unfolding w' using oc_unique by fastforce
  then have "unat (inet_checksum_of (pre @ mem16 ?c @ post)) = 0"
    by (simp add: inet_checksum_of_def unat_NOT_u16 unat_htons_inet_sum)
  then show ?thesis by (simp add: unat_eq_0)
qed


section \<open>Properties\<close>

text \<open>C21: for every buffer of up to \<open>0x20000\<close> bytes at any alignment, the three implementations of
  \<open>lwip_standard_chksum\<close> return the same value, and it is the one's complement sum of RFC 1071 (the
  bytes as big endian 16-bit words, an odd last byte padded with zero) in host order.\<close>

theorem chksum_algorithms_agree:
  assumes "length octets \<le> 0x20000"
  shows "lwip_standard_chksum addr octets = lwip_htons (of_nat (inet_sum octets))
    \<and> lwip_standard_chksum1 addr1 octets = lwip_standard_chksum addr octets
    \<and> lwip_standard_chksum3 addr3 octets = lwip_standard_chksum addr octets"
  by (simp add: alg1.chk_sum alg2.chk_sum alg3.chk_sum assms)

theorem chksum_algorithms_agree_witness:
  "lwip_standard_chksum 1 [0x45, 0, 0xFF] = lwip_htons (of_nat (inet_sum [0x45, 0, 0xFF]))
    \<and> lwip_standard_chksum1 0 [0x45, 0, 0xFF] = lwip_standard_chksum 1 [0x45, 0, 0xFF]
    \<and> lwip_standard_chksum3 3 [0x45, 0, 0xFF] = lwip_standard_chksum 1 [0x45, 0, 0xFF]
    \<and> lwip_standard_chksum 1 [0x45, 0, 0xFF] = 0x0144"
proof -
  have "length [0x45 :: u8, 0, 0xFF] \<le> 0x20000" by simp
  note agree = chksum_algorithms_agree [OF this, of 1 0 3]
  have "lwip_standard_chksum 1 [0x45, 0, 0xFF] = 0x0144" by code_simp
  with agree show ?thesis by blast
qed

text \<open>C10: the checksum over a pbuf chain, with or without the pseudo header of TCP and UDP, is the
  checksum of the concatenated payloads: it does not depend on how the data is cut into pbufs, on
  odd-sized pbufs in the middle, on their alignment or on the total length.\<close>

theorem chain_checksum_is_flat_checksum:
  assumes "chain_ok p"
  shows "inet_chksum_pbuf p = NOT (lwip_htons (of_nat (inet_sum (payload_data p))))
    \<and> inet_chksum_pseudo p proto proto_len src dest =
        NOT (lwip_htons (of_nat (inet_sum (pseudo_header proto proto_len src dest @ payload_data p))))"
  using inet_chksum_pbuf_eq [OF assms] inet_chksum_pseudo_eq [OF assms]
  by (simp add: inet_checksum_of_def)

theorem chain_checksum_is_flat_checksum_witness:
  "chain_ok [(1, [0x12]), (4, [0x34, 0x56])] \<and>
   inet_chksum_pbuf [(1, [0x12]), (4, [0x34, 0x56])] =
     NOT (lwip_htons (of_nat (inet_sum (payload_data [(1, [0x12]), (4, [0x34, 0x56])]))))"
  using chain_checksum_is_flat_checksum [of "[(1, [0x12]), (4, [0x34, 0x56])]"] by simp

text \<open>C22: a checksum stored by the sender is accepted by the receiver. When a header with a zeroed
  checksum field at an even offset gets the value of \<open>inet_chksum\<close> stored in the field, \<open>inet_chksum\<close>
  over the result is zero; the same for \<open>inet_chksum_pseudo\<close> over two chains that hold the segment before
  and after the store.\<close>

theorem stored_checksum_verifies:
  assumes "even (length pre)" and "length pre + 2 + length post \<le> 0x20000"
    and "chain_ok p0" and "payload_data p0 = pre @ [0, 0] @ post"
    and "chain_ok p1" and "payload_data p1 = pre @ mem16 (inet_chksum_pseudo p0 proto len src dest) @ post"
  shows "inet_chksum addr (pre @ mem16 (inet_chksum addr0 (pre @ [0, 0] @ post)) @ post) = 0
    \<and> inet_chksum_pseudo p1 proto len src dest = 0"
proof
  have [simp]: "length (mem16 w) = 2" for w by (simp add: mem16_def)
  show "inet_chksum addr (pre @ mem16 (inet_chksum addr0 (pre @ [0, 0] @ post)) @ post) = 0"
    using inet_checksum_verifies [OF assms(1), of post] assms(2) by (simp add: inet_chksum_eq)
  let ?h = "pseudo_header proto len src dest"
  have "even (length (?h @ pre))"
    using assms(1) by (simp add: pseudo_header_def mem32_def net16_def)
  from inet_checksum_verifies [OF this, of post]
  show "inet_chksum_pseudo p1 proto len src dest = 0"
    using assms(3-6) by (simp add: inet_chksum_pseudo_eq)
qed

theorem stored_checksum_verifies_witness:
  "inet_chksum 0 ([0x45, 7] @ mem16 (inet_chksum 2 ([0x45, 7] @ [0, 0] @ [9])) @ [9]) = 0
   \<and> inet_chksum_pseudo [(0, [0x45, 7] @ mem16 (inet_chksum_pseudo [(3, [0x45, 7, 0, 0, 9])] 17 5 1 2) @ [9])]
       17 5 1 2 = 0"
  using stored_checksum_verifies [of "[0x45, 7]" "[9]" "[(3, [0x45, 7, 0, 0, 9])]"
      "[(0, [0x45, 7] @ mem16 (inet_chksum_pseudo [(3, [0x45, 7, 0, 0, 9])] 17 5 1 2) @ [9])]"
      17 5 1 2 0 2]
  by (simp add: mem16_def)

text \<open>the partial checksum of UDP-Lite covers the pseudo header and exactly the first \<open>chksum_len\<close>
  bytes of the chain, for every coverage below \<open>0x7fff\<close>, the bound its assertion sets.\<close>

theorem partial_checksum_covers_prefix:
  assumes "chain_ok p" and "chksum_len < 0x7FFF"
  shows "inet_chksum_pseudo_partial p proto proto_len chksum_len src dest =
    Some (NOT (lwip_htons (of_nat (inet_sum (pseudo_header proto proto_len src dest
        @ take (unat chksum_len) (payload_data p))))))"
  using inet_chksum_pseudo_partial_eq [OF assms] by (simp add: inet_checksum_of_def)

theorem partial_checksum_covers_prefix_witness:
  "inet_chksum_pseudo_partial [(1, [1, 2, 3]), (2, [4, 5])] 136 5 4 10 20 =
    Some (NOT (lwip_htons (of_nat (inet_sum (pseudo_header 136 5 10 20
        @ take (unat (4 :: u16)) (payload_data [(1, [1, 2, 3]), (2, [4, 5])]))))))"
  by (rule partial_checksum_covers_prefix) simp_all

end
