(* ===== verification/Ip4_Addr.thy ===== *)
theory Ip4_Addr
  imports Lwip_Def
begin

text \<open>
  \<^verbatim>\<open>core/ipv4/ip4_addr.c\<close> and the address macros of \<^verbatim>\<open>lwip/ip4_addr.h\<close>: broadcast addresses, netmasks,
  and the conversion between addresses and text.

  An \<^verbatim>\<open>ip4_addr_t\<close> is its 32-bit word as it lies in memory, that is in network byte order on the little
  endian host. The part of \<^verbatim>\<open>struct netif\<close> this file reads is the record \<open>netif_cfg\<close>; the interface
  component extends it.
\<close>

section \<open>Definitions\<close>

abbreviation (input) IPADDR_NONE :: u32 where "IPADDR_NONE \<equiv> 0xFFFFFFFF"
abbreviation (input) IPADDR_ANY :: u32 where "IPADDR_ANY \<equiv> 0"
abbreviation (input) IPADDR_BROADCAST :: u32 where "IPADDR_BROADCAST \<equiv> 0xFFFFFFFF"

definition IP4_ADDR :: "u32 \<Rightarrow> u32 \<Rightarrow> u32 \<Rightarrow> u32 \<Rightarrow> u32" where
  "IP4_ADDR a b c d =
     PP_HTONL (push_bit 24 (a AND 0xFF) OR push_bit 16 (b AND 0xFF) OR push_bit 8 (c AND 0xFF) OR (d AND 0xFF))"

definition ip4_addr_netcmp :: "u32 \<Rightarrow> u32 \<Rightarrow> u32 \<Rightarrow> bool" where
  "ip4_addr_netcmp addr1 addr2 msk \<longleftrightarrow> addr1 AND msk = addr2 AND msk"

definition ip4_addr_ismulticast :: "u32 \<Rightarrow> bool" where
  "ip4_addr_ismulticast addr1 \<longleftrightarrow> addr1 AND PP_HTONL 0xF0000000 = PP_HTONL 0xE0000000"

definition ip4_addr_islinklocal :: "u32 \<Rightarrow> bool" where
  "ip4_addr_islinklocal addr1 \<longleftrightarrow> addr1 AND PP_HTONL 0xFFFF0000 = PP_HTONL 0xA9FE0000"

definition ip4_addr_isloopback :: "u32 \<Rightarrow> bool" where
  "ip4_addr_isloopback addr1 \<longleftrightarrow> addr1 AND PP_HTONL 0xFF000000 = PP_HTONL (push_bit 24 127)"

record netif_cfg =
  ip_addr :: u32
  netmask :: u32
  gw :: u32
  flags :: u8
  mtu :: u16
  name :: "u8 \<times> u8"
  num :: u8

abbreviation (input) NETIF_FLAG_UP :: u8 where "NETIF_FLAG_UP \<equiv> 0x01"
abbreviation (input) NETIF_FLAG_BROADCAST :: u8 where "NETIF_FLAG_BROADCAST \<equiv> 0x02"
abbreviation (input) NETIF_FLAG_LINK_UP :: u8 where "NETIF_FLAG_LINK_UP \<equiv> 0x04"
abbreviation (input) NETIF_FLAG_ETHARP :: u8 where "NETIF_FLAG_ETHARP \<equiv> 0x08"
abbreviation (input) NETIF_FLAG_ETHERNET :: u8 where "NETIF_FLAG_ETHERNET \<equiv> 0x10"
abbreviation (input) NETIF_FLAG_IGMP :: u8 where "NETIF_FLAG_IGMP \<equiv> 0x20"

definition ip4_addr_isbroadcast_u32 :: "u32 \<Rightarrow> 'a netif_cfg_scheme \<Rightarrow> bool" where
  "ip4_addr_isbroadcast_u32 addr netif =
     (if NOT addr = IPADDR_ANY \<or> addr = IPADDR_ANY then True
      else if flags netif AND NETIF_FLAG_BROADCAST = 0 then False
      else if addr = ip_addr netif then False
      else if ip4_addr_netcmp addr (ip_addr netif) (netmask netif)
           \<and> addr AND NOT (netmask netif) = IPADDR_BROADCAST AND NOT (netmask netif) then True
      else False)"

subsection \<open>Netmasks\<close>

text \<open>The two loops shift \<open>mask\<close> down from the top bit.\<close>

function netmask_loop1 :: "u32 \<Rightarrow> u32 \<Rightarrow> u32" where
  "netmask_loop1 nm msk =
     (if msk \<noteq> 0 then if nm AND msk = 0 then msk else netmask_loop1 nm (drop_bit 1 msk)
      else msk)"
  by pat_completeness auto
termination
  by (relation "measure (\<lambda>(nm, msk). unat msk)") (auto simp: unat_drop_bit_word unat_gt_0 word_neq_0_conv)

function netmask_loop2 :: "u32 \<Rightarrow> u32 \<Rightarrow> bool" where
  "netmask_loop2 nm msk =
     (if msk \<noteq> 0 then if nm AND msk \<noteq> 0 then False else netmask_loop2 nm (drop_bit 1 msk)
      else True)"
  by pat_completeness auto
termination
  by (relation "measure (\<lambda>(nm, msk). unat msk)") (auto simp: unat_drop_bit_word unat_gt_0 word_neq_0_conv)

declare netmask_loop1.simps [simp del] netmask_loop2.simps [simp del]

definition ip4_addr_netmask_valid :: "u32 \<Rightarrow> bool" where
  "ip4_addr_netmask_valid nm =
     (let nm_hostorder = lwip_htonl nm;
          mask = netmask_loop1 nm_hostorder (push_bit 31 1)
      in netmask_loop2 nm_hostorder mask)"

subsection \<open>Text to address\<close>

definition in_range :: "u8 \<Rightarrow> u8 \<Rightarrow> u8 \<Rightarrow> bool" where
  "in_range c lo up \<longleftrightarrow> c \<ge> lo \<and> c \<le> up"

definition isdigit :: "u8 \<Rightarrow> bool" where
  "isdigit c = in_range c 48 57"

definition isxdigit :: "u8 \<Rightarrow> bool" where
  "isxdigit c = (isdigit c \<or> in_range c 97 102 \<or> in_range c 65 70)"

definition islower :: "u8 \<Rightarrow> bool" where
  "islower c = in_range c 97 122"

definition isspace :: "u8 \<Rightarrow> bool" where
  "isspace c = (c = 32 \<or> c = 12 \<or> c = 10 \<or> c = 13 \<or> c = 9 \<or> c = 11)"

text \<open>
  \<open>aton_num\<close> is the inner loop, which collects one number; \<open>aton_parts\<close> is the outer loop, whose
  state is the array \<open>parts\<close> filled so far and the rest of the string. \<open>None\<close> is \<^verbatim>\<open>return 0\<close>.
\<close>

fun aton_num :: "u32 \<Rightarrow> u32 \<Rightarrow> cstring \<Rightarrow> u32 \<times> cstring" where
  "aton_num base val [] = (val, [])"
| "aton_num base val (c # cp) =
     (if isdigit c then aton_num base (val * base + (ucast c - 48)) cp
      else if base = 16 \<and> isxdigit c then
        aton_num base (push_bit 4 val OR (ucast c + 10 - (if islower c then 97 else 65))) cp
      else (val, c # cp))"

definition aton_base :: "cstring \<Rightarrow> u32 \<times> cstring" where
  "aton_base cp =
     (if deref cp = 48 then
        let cp = tl cp in
        if deref cp = 120 \<or> deref cp = 88 then (16, tl cp) else (8, cp)
      else (10, cp))"

lemma aton_num_length: "length (snd (aton_num base val cp)) \<le> length cp"
  by (induction base val cp rule: aton_num.induct) auto

function aton_parts :: "u32 list \<Rightarrow> cstring \<Rightarrow> (u32 list \<times> u32 \<times> cstring) option" where
  "aton_parts parts cp =
     (if \<not> isdigit (deref cp) then None
      else let (base, cp1) = aton_base cp; (val, cp2) = aton_num base 0 cp1 in
        if deref cp2 = 46 then
          if length parts \<ge> 3 then None else aton_parts (parts @ [val]) (tl cp2)
        else Some (parts, val, cp2))"
  by pat_completeness auto
termination
  by (relation "measure (\<lambda>(parts, cp). 3 - length parts)") auto

declare aton_parts.simps [simp del]

definition ip4addr_aton :: "cstring \<Rightarrow> u32 option" where
  "ip4addr_aton cp = do {
     (parts, val, cp) \<leftarrow> aton_parts [] cp;
     let c = deref cp;
     if c \<noteq> 0 \<and> \<not> isspace c then None
     else do {
       val \<leftarrow> (case parts of
           [] \<Rightarrow> Some val
         | [p0] \<Rightarrow> if val > 0xFFFFFF then None else if p0 > 0xFF then None
                   else Some (val OR push_bit 24 p0)
         | [p0, p1] \<Rightarrow> if val > 0xFFFF then None else if p0 > 0xFF \<or> p1 > 0xFF then None
                   else Some (val OR (push_bit 24 p0 OR push_bit 16 p1))
         | [p0, p1, p2] \<Rightarrow> if val > 0xFF then None else if p0 > 0xFF \<or> p1 > 0xFF \<or> p2 > 0xFF then None
                   else Some (val OR (push_bit 24 p0 OR push_bit 16 p1 OR push_bit 8 p2))
         | _ \<Rightarrow> None);
       Some (lwip_htonl val)
     }
   }"

definition ipaddr_addr :: "cstring \<Rightarrow> u32" where
  "ipaddr_addr cp = (case ip4addr_aton cp of Some val \<Rightarrow> val | None \<Rightarrow> IPADDR_NONE)"

subsection \<open>Address to text\<close>

text \<open>The digits of one byte, least significant first, as they are written to \<open>inv\<close>.\<close>

function ntoa_inv :: "u8 \<Rightarrow> cstring" where
  "ntoa_inv ap =
     (let rem = ap mod 10; ap' = ap div 10 in
      (48 + rem) # (if ap' \<noteq> 0 then ntoa_inv ap' else []))"
  by pat_completeness auto
termination
  by (relation "measure unat") (auto simp: unat_div simp flip: unat_eq_0 intro!: div_less_dividend)

declare ntoa_inv.simps [simp del]

text \<open>\<open>if (len++ >= buflen) return NULL; *rp++ = c\<close>, where \<open>len\<close> is the number of characters written.\<close>

fun ntoa_put :: "int \<Rightarrow> cstring \<Rightarrow> cstring \<Rightarrow> cstring option" where
  "ntoa_put buflen buf [] = Some buf"
| "ntoa_put buflen buf (c # cs) =
     (if int (length buf) \<ge> buflen then None else ntoa_put buflen (buf @ [c]) cs)"

fun ntoa_bytes :: "int \<Rightarrow> cstring \<Rightarrow> u8 list \<Rightarrow> cstring option" where
  "ntoa_bytes buflen buf [] = Some buf"
| "ntoa_bytes buflen buf (ap # aps) = do {
     buf \<leftarrow> ntoa_put buflen buf (rev (ntoa_inv ap));
     buf \<leftarrow> ntoa_put buflen buf [46];
     ntoa_bytes buflen buf aps
   }"

text \<open>The final \<open>*--rp = 0\<close> overwrites the last dot with the terminator.\<close>

definition ip4addr_ntoa_r :: "u32 \<Rightarrow> int \<Rightarrow> cstring option" where
  "ip4addr_ntoa_r addr buflen = do {
     buf \<leftarrow> ntoa_bytes buflen []
              [ucast addr, ucast (drop_bit 8 addr), ucast (drop_bit 16 addr), ucast (drop_bit 24 addr)];
     Some (butlast buf)
   }"

definition ip4addr_ntoa :: "u32 \<Rightarrow> cstring option" where
  "ip4addr_ntoa addr = ip4addr_ntoa_r addr 16"


section \<open>Netmasks\<close>

text \<open>Bit \<open>i\<close> of a 32-bit mask, seen through the loops: the top \<open>k\<close> bits set and all others clear.\<close>

lemma and_exp_zero: "(nm :: u32) AND 2 ^ n = 0 \<longleftrightarrow> \<not> bit nm n" if "n < 32"
proof
  assume "nm AND 2 ^ n = 0"
  moreover have "bit (nm AND 2 ^ n) n \<longleftrightarrow> bit nm n" using that by (simp add: bit_simps)
  ultimately show "\<not> bit nm n" by (metis bit_0_eq bot_apply bot_bool_def)
next
  assume "\<not> bit nm n"
  then show "nm AND 2 ^ n = 0" by (intro bit_word_eqI) (auto simp: bit_simps)
qed

lemma drop_bit_1_exp: "drop_bit 1 (2 ^ Suc n :: u32) = 2 ^ n" if "Suc n < 32"
  using that by (intro bit_word_eqI) (auto simp: bit_simps)

lemma exp_nonzero: "(2 :: u32) ^ n \<noteq> 0" if "n < 32"
  using that by (simp add: exp_eq_zero_iff)

lemma netmask_loop1_exp:
  assumes "n < 32"
  shows "netmask_loop1 nm (2 ^ n) = (if bit nm n then netmask_loop1 nm (drop_bit 1 (2 ^ n)) else 2 ^ n)"
  using and_exp_zero [OF assms, of nm] exp_nonzero [OF assms]
  by (subst netmask_loop1.simps) presburger

lemma netmask_loop2_exp:
  assumes "n < 32"
  shows "netmask_loop2 nm (2 ^ n) \<longleftrightarrow> \<not> bit nm n \<and> netmask_loop2 nm (drop_bit 1 (2 ^ n))"
  using and_exp_zero [OF assms, of nm] exp_nonzero [OF assms]
  by (subst netmask_loop2.simps) presburger

lemma netmask_loops_0: "netmask_loop1 nm 0 = 0" "netmask_loop2 nm 0"
  by (simp_all add: netmask_loop1.simps netmask_loop2.simps)

lemma drop_bit_1_one: "drop_bit 1 (2 ^ 0 :: u32) = 0"
  by (intro bit_word_eqI) (simp add: bit_simps)

lemma netmask_loop2_bits:
  "n < 32 \<Longrightarrow> netmask_loop2 nm (2 ^ n) \<longleftrightarrow> (\<forall>i \<le> n. \<not> bit nm i)"
proof (induction n)
  case 0
  show ?case
    using netmask_loop2_exp [of 0 nm] unfolding drop_bit_1_one by (simp add: netmask_loops_0)
next
  case (Suc n)
  then have "netmask_loop2 nm (2 ^ Suc n) \<longleftrightarrow> \<not> bit nm (Suc n) \<and> (\<forall>i \<le> n. \<not> bit nm i)"
    by (simp only: netmask_loop2_exp drop_bit_1_exp Suc_lessD)
  then show ?case by (metis le_Suc_eq)
qed

lemma netmask_prefix_Suc:
  "(\<exists>k \<le> Suc n. \<forall>i < Suc n. bit nm i \<longleftrightarrow> k \<le> i) \<longleftrightarrow>
     (if bit nm n then \<exists>k \<le> n. \<forall>i < n. bit nm i \<longleftrightarrow> k \<le> i else \<forall>i \<le> n. \<not> bit nm i)"
  for nm :: u32
proof (cases "bit nm n")
  case True
  then have "(\<exists>k \<le> Suc n. \<forall>i < Suc n. bit nm i \<longleftrightarrow> k \<le> i) \<longleftrightarrow> (\<exists>k \<le> n. \<forall>i < n. bit nm i \<longleftrightarrow> k \<le> i)"
    unfolding less_Suc_eq by (metis le_SucI)
  with True show ?thesis by simp
next
  case False
  have "(\<exists>k \<le> Suc n. \<forall>i < Suc n. bit nm i \<longleftrightarrow> k \<le> i) \<longleftrightarrow> (\<forall>i \<le> n. \<not> bit nm i)"
  proof
    assume "\<exists>k \<le> Suc n. \<forall>i < Suc n. bit nm i \<longleftrightarrow> k \<le> i"
    then obtain k where "k \<le> Suc n" "\<forall>i < Suc n. bit nm i \<longleftrightarrow> k \<le> i" by blast
    with False have "k = Suc n" by (metis le_SucE lessI)
    with \<open>\<forall>i < Suc n. bit nm i \<longleftrightarrow> k \<le> i\<close> show "\<forall>i \<le> n. \<not> bit nm i" by (simp add: less_Suc_eq_le)
  next
    assume "\<forall>i \<le> n. \<not> bit nm i"
    then show "\<exists>k \<le> Suc n. \<forall>i < Suc n. bit nm i \<longleftrightarrow> k \<le> i"
      by (intro exI [of _ "Suc n"]) (simp add: less_Suc_eq_le)
  qed
  with False show ?thesis by simp
qed

lemma netmask_loops:
  "n < 32 \<Longrightarrow> netmask_loop2 nm (netmask_loop1 nm (2 ^ n)) \<longleftrightarrow>
     (\<exists>k \<le> Suc n. \<forall>i < Suc n. bit nm i \<longleftrightarrow> k \<le> i)"
proof (induction n)
  case 0
  show ?case
    unfolding netmask_prefix_Suc [of 0] netmask_loop1_exp [OF 0] drop_bit_1_one
    using netmask_loop2_bits [OF 0, of nm] by (simp add: netmask_loops_0)
next
  case (Suc n)
  then show ?case
    unfolding netmask_prefix_Suc [of "Suc n"] netmask_loop1_exp [OF Suc.prems] drop_bit_1_exp [OF Suc.prems]
    using netmask_loop2_bits [OF Suc.prems, of nm] by (simp del: power_Suc)
qed

lemma netmask_valid_bits:
  "ip4_addr_netmask_valid nm \<longleftrightarrow> (\<exists>k \<le> 32. lwip_htonl nm = NOT (mask k))"
proof -
  have "(push_bit 31 1 :: u32) = 2 ^ 31" by (simp add: push_bit_eq_mult)
  then have "ip4_addr_netmask_valid nm \<longleftrightarrow> (\<exists>k \<le> 32. \<forall>i < 32. bit (lwip_htonl nm) i \<longleftrightarrow> k \<le> i)"
    using netmask_loops [of 31 "lwip_htonl nm"] by (simp only: ip4_addr_netmask_valid_def Let_def) simp
  also have "\<dots> \<longleftrightarrow> (\<exists>k \<le> 32. lwip_htonl nm = NOT (mask k))"
    by (auto simp: bit_eq_iff [where 'a = u32] bit_simps not_less dest: bit_imp_le_length)
  finally show ?thesis .
qed


section \<open>Broadcast addresses\<close>

text \<open>
  An address that shares the subnet of the interface and has only ones in its host part is the
  subnet address of the interface with the host part filled by ones.
\<close>

lemma subnet_broadcast_iff:
  fixes addr ip msk :: u32
  shows "addr AND msk = ip AND msk \<and> addr AND NOT msk = 0xFFFFFFFF AND NOT msk \<longleftrightarrow> addr = ip OR NOT msk"
proof -
  have "(0xFFFFFFFF :: u32) = - 1" by simp
  then show ?thesis by (auto simp: bit_eq_iff [where 'a = u32] bit_simps)
qed

lemma isbroadcast_iff:
  "ip4_addr_isbroadcast_u32 addr netif \<longleftrightarrow>
     addr = 0xFFFFFFFF \<or> addr = 0 \<or>
     flags netif AND NETIF_FLAG_BROADCAST \<noteq> 0 \<and> addr \<noteq> ip_addr netif
       \<and> addr = ip_addr netif OR NOT (netmask netif)"
proof -
  have "(0xFFFFFFFF :: u32) = - 1" by simp
  then have "NOT addr = 0 \<longleftrightarrow> addr = 0xFFFFFFFF"
    by (metis bit.compl_one bit.double_compl)
  then show ?thesis
    unfolding ip4_addr_isbroadcast_u32_def ip4_addr_netcmp_def
    using subnet_broadcast_iff [of addr "netmask netif" "ip_addr netif"] by auto
qed


section \<open>Addresses as text\<close>

lemma ntoa_inv_eq: "ntoa_inv ap = rev (show_dec (unat ap))"
proof (induction ap rule: ntoa_inv.induct)
  case (1 ap)
  have chr: "48 + ap mod 10 = 48 + of_nat (unat ap mod 10)"
    by (simp add: word_unat_eq_iff unat_word_ariths unat_mod unat_u8_of_nat)
  have zero: "ap div 10 = 0 \<longleftrightarrow> unat ap < 10"
    by (simp add: word_unat_eq_iff unat_div div_eq_0_iff)
  show ?case
  proof (cases "ap div 10 = 0")
    case True
    with chr zero show ?thesis by (simp add: ntoa_inv.simps [of ap] show_dec.simps [of "unat ap"])
  next
    case False
    with chr zero "1" [OF refl refl False] show ?thesis
      by (simp add: ntoa_inv.simps [of ap] show_dec.simps [of "unat ap"] unat_div)
  qed
qed

lemma ntoa_put_eq:
  "ntoa_put buflen buf cs =
     (if cs = [] \<or> int (length buf + length cs) \<le> buflen then Some (buf @ cs) else None)"
  by (induction buflen buf cs rule: ntoa_put.induct) auto

text \<open>The dotted text of a list of bytes, with a dot after each of them.\<close>

definition dotted :: "u8 list \<Rightarrow> cstring" where
  "dotted aps = concat (map (\<lambda>ap. show_dec (unat ap) @ [46]) aps)"

lemma dotted_simps [simp]: "dotted [] = []" "dotted (ap # aps) = show_dec (unat ap) @ 46 # dotted aps"
  by (simp_all add: dotted_def)

lemma ntoa_bytes_eq:
  "ntoa_bytes buflen buf aps =
     (if aps = [] \<or> int (length buf + length (dotted aps)) \<le> buflen then Some (buf @ dotted aps) else None)"
  by (induction buflen buf aps rule: ntoa_bytes.induct)
    (auto simp: ntoa_put_eq ntoa_inv_eq bind_eq_None_conv)

definition addr_bytes :: "u32 \<Rightarrow> u8 list" where
  "addr_bytes addr = [ucast addr, ucast (drop_bit 8 addr), ucast (drop_bit 16 addr), ucast (drop_bit 24 addr)]"

lemma addr_bytes_nonempty [simp]: "addr_bytes addr \<noteq> []"
  by (simp add: addr_bytes_def)

lemma ntoa_r_eq:
  "ip4addr_ntoa_r addr buflen =
     (if int (length (dotted (addr_bytes addr))) \<le> buflen then Some (butlast (dotted (addr_bytes addr))) else None)"
  by (simp add: ip4addr_ntoa_r_def ntoa_bytes_eq flip: addr_bytes_def)

lemma length_show_byte: "length (show_dec (unat (b :: u8))) \<le> 3"
  using length_show_dec [of "unat b" 2] unat_u8_less [of b] by simp

lemma length_dotted_le: "length (dotted aps) \<le> 4 * length aps"
proof (induction aps)
  case (Cons ap aps)
  then show ?case using length_show_byte [of ap] by simp
qed simp

lemma ntoa_r_total: "16 \<le> buflen \<Longrightarrow> ip4addr_ntoa_r addr buflen = Some (butlast (dotted (addr_bytes addr)))"
  using length_dotted_le [of "addr_bytes addr"] by (simp add: ntoa_r_eq) (simp add: addr_bytes_def)


text \<open>Reading a number back.\<close>

lemma isdigit_iff: "isdigit c \<longleftrightarrow> 48 \<le> c \<and> c \<le> 57"
  by (auto simp: isdigit_def in_range_def)

lemma digit_value: "48 \<le> c \<Longrightarrow> (ucast (c :: u8) - 48 :: u32) = of_nat (unat c - 48)"
proof -
  assume "48 \<le> c"
  then have "48 \<le> unat c" by (simp add: word_le_nat_alt)
  then have "(of_nat (unat c - 48) :: u32) = of_nat (unat c) - of_nat 48" by (rule of_nat_diff)
  then show ?thesis by (simp add: of_nat_unat)
qed

lemma aton_num_digits:
  "\<lbrakk>\<forall>c \<in> set ds. 48 \<le> c \<and> c \<le> 57; \<not> isdigit (deref rest)\<rbrakk> \<Longrightarrow>
   aton_num 10 (of_nat v) (ds @ rest) = (of_nat (foldl (\<lambda>v c. 10 * v + (unat c - 48)) v ds), rest)"
proof (induction ds arbitrary: v)
  case Nil
  then show ?case by (cases rest) auto
next
  case (Cons c ds)
  then have "(of_nat v * 10 + (ucast c - 48) :: u32) = of_nat (10 * v + (unat c - 48))"
    by (simp add: digit_value)
  with Cons.prems Cons.IH [of "10 * v + (unat c - 48)"] show ?case
    by (simp add: isdigit_iff mult.commute)
qed

lemma aton_number:
  assumes "deref rest = 46 \<or> rest = []"
  shows "(case aton_base (show_dec n @ rest) of (base, cp1) \<Rightarrow> aton_num base 0 cp1) = (of_nat n, rest)"
proof (cases "n = 0")
  case True
  from assms show ?thesis
    by (cases rest) (auto simp: True show_dec.simps [of 0] aton_base_def isdigit_iff)
next
  case False
  then have "deref (show_dec n @ rest) \<noteq> 48"
    using hd_show_dec [of n] by (cases "show_dec n") auto
  moreover have "\<not> isdigit (deref rest)" using assms by (auto simp: isdigit_iff)
  ultimately show ?thesis
    using aton_num_digits [of "show_dec n" rest 0] show_dec_digits dec_value_show_dec [of n]
    by (simp add: aton_base_def dec_value_def)
qed

lemma deref_show_dec: "isdigit (deref (show_dec n @ rest))"
  using show_dec_digits [of "hd (show_dec n)" n] by (cases "show_dec n") (auto simp: isdigit_iff)

lemma aton_parts_dot:
  "length parts < 3 \<Longrightarrow> aton_parts parts (show_dec n @ 46 # cp) = aton_parts (parts @ [of_nat n]) cp"
  using aton_number [of "46 # cp" n]
  by (simp add: aton_parts.simps [of parts] deref_show_dec split_beta Let_def)

lemma aton_parts_end: "aton_parts parts (show_dec n) = Some (parts, of_nat n, [])"
  using aton_number [of "[]" n] deref_show_dec [of n "[]"]
  by (simp add: aton_parts.simps [of parts] split_beta Let_def)

lemma ucast_byte_le: "(ucast (b :: u8) :: u32) \<le> 0xFF"
  using unat_u8_less [of b] by (simp add: word_le_nat_alt del: unat_u8_less)

lemma aton_dotted:
  "ip4addr_aton (butlast (dotted [a, b, c, d])) =
     Some (lwip_htonl (ucast d OR (push_bit 24 (ucast a) OR push_bit 16 (ucast b) OR push_bit 8 (ucast c))))"
proof -
  have "butlast (dotted [a, b, c, d]) =
      show_dec (unat a) @ 46 # show_dec (unat b) @ 46 # show_dec (unat c) @ 46 # show_dec (unat d)"
    by (simp add: butlast_append)
  then show ?thesis
    by (simp add: ip4addr_aton_def aton_parts_dot aton_parts_end of_nat_unat
        linorder_not_less ucast_byte_le)
qed

lemma addr_join:
  "lwip_htonl (ucast (ucast (drop_bit 24 addr) :: u8) OR (push_bit 24 (ucast (ucast addr :: u8))
     OR push_bit 16 (ucast (ucast (drop_bit 8 addr) :: u8)) OR push_bit 8 (ucast (ucast (drop_bit 16 addr) :: u8))))
   = (addr :: u32)"
proof -
  have "ucast (ucast x :: u8) = take_bit 8 (x :: u32)" for x
    by (rule bit_word_eqI) (auto simp: bit_simps)
  then have "ucast (ucast (drop_bit 24 addr) :: u8) OR (push_bit 24 (ucast (ucast addr :: u8))
     OR push_bit 16 (ucast (ucast (drop_bit 8 addr) :: u8)) OR push_bit 8 (ucast (ucast (drop_bit 16 addr) :: u8)))
    = lwip_htonl addr"
    by (simp only: lwip_htonl_def PP_HTONL_bytes ac_simps)
  then show ?thesis by (simp only: lwip_htonl_invol)
qed

lemma aton_ntoa: "ip4addr_aton (butlast (dotted (addr_bytes addr))) = Some addr"
  by (simp only: addr_bytes_def aton_dotted addr_join)



section \<open>Properties\<close>

text \<open>A netmask is accepted exactly when, in host byte order, it is a run of ones followed by a run
  of zeros, from the empty mask to the full one.\<close>

theorem netmask_valid_iff_contiguous:
  "ip4_addr_netmask_valid nm \<longleftrightarrow> (\<exists>k. k \<le> 32 \<and> lwip_htonl nm = NOT (mask k))"
  by (rule netmask_valid_bits)

text \<open>An address is a broadcast address for an interface exactly when it is all ones, all zeros, or,
  on an interface that can broadcast, the interface's own address with the host part filled with ones,
  unless that is the interface's own address itself.\<close>

theorem broadcast_addresses:
  "ip4_addr_isbroadcast_u32 addr netif \<longleftrightarrow>
     addr = IPADDR_BROADCAST \<or> addr = IPADDR_ANY \<or>
     (bit (flags netif) 1 \<and> addr = ip_addr netif OR NOT (netmask netif) \<and> \<not> addr = ip_addr netif)"
proof -
  have "(2 :: u8) = 2 ^ 1" by simp
  moreover have "flags netif AND 2 ^ 1 = 0 \<longleftrightarrow> \<not> bit (flags netif) 1"
    by (metis and_exp_eq_0_iff_not_bit)
  ultimately have "flags netif AND NETIF_FLAG_BROADCAST = 0 \<longleftrightarrow> \<not> bit (flags netif) 1"
    by (simp only:)
  then show ?thesis unfolding isbroadcast_iff by blast
qed

text \<open>C23: printing an address always succeeds in the 16 byte buffer of \<open>ip4addr_ntoa\<close>, gives at most 15
  characters, and parsing the text gives the same address.\<close>

theorem ntoa_aton_roundtrip:
  "\<exists>text. ip4addr_ntoa addr = Some text \<and> length text \<le> 15
     \<and> ip4addr_aton text = Some addr \<and> ipaddr_addr text = addr"
proof -
  have "length (dotted (addr_bytes addr)) \<le> 16"
    using length_dotted_le [of "addr_bytes addr"] by (simp add: addr_bytes_def)
  then have "length (butlast (dotted (addr_bytes addr))) \<le> 15" by simp
  moreover have "ip4addr_ntoa addr = Some (butlast (dotted (addr_bytes addr)))"
    by (simp add: ip4addr_ntoa_def ntoa_r_total)
  ultimately show ?thesis using aton_ntoa [of addr] by (simp add: ipaddr_addr_def)
qed

text \<open>The number parser does not notice overflow: a component is reduced modulo \<open>2 ^ 32\<close> before its range check,
  it takes the digits 8 and 9 in octal numbers, and it takes a bare \<open>0x\<close>.\<close>

lemma aton_accepts_overflow:
  "ip4addr_aton (cstr ''1.2.3.4294967300'') = ip4addr_aton (cstr ''1.2.3.4'')"
  "ip4addr_aton (cstr ''1.2.3.09'') = ip4addr_aton (cstr ''1.2.3.9'')"
  "ip4addr_aton (cstr ''1.2.3.0x'') = ip4addr_aton (cstr ''1.2.3.0'')"
  by code_simp+

end
