(* ===== verification/Memp.thy ===== *)
theory Memp
  imports Lwip_Prelude
begin

text \<open>
  \<^verbatim>\<open>core/memp.c\<close>: pools of fixed-size elements, as configured by \<^verbatim>\<open>port/lwipopts.h\<close>
  (\<^verbatim>\<open>MEMP_MEM_MALLOC\<close> and \<^verbatim>\<open>MEMP_OVERFLOW_CHECK\<close> off, so \<^verbatim>\<open>MEMP_SIZE\<close> is 0; \<^verbatim>\<open>MEMP_STATS\<close> on).

  The state holds the \<open>next\<close> field of the \<^verbatim>\<open>struct memp\<close> at every address, the static variable
  \<open>memp_tab_<name>\<close> of every pool (the head of its free list) and its static statistics. A descriptor
  names the two variables of its pool by \<open>desc_id\<close>. The element sizes (\<^verbatim>\<open>sizeof\<close>) and base
  addresses come from the compiler and the linker, so the table \<^verbatim>\<open>memp_pools\<close> is an argument.

  The interface the rest of the stack relies on is the locale \<open>element_pool\<close>; its interpretation
  \<open>memp\<close> shows that the free list implements it.
\<close>

section \<open>Definitions\<close>

abbreviation (input) MEM_ALIGNMENT :: nat where "MEM_ALIGNMENT \<equiv> 4"
abbreviation (input) MEMP_SIZE :: nat where "MEMP_SIZE \<equiv> 0"

definition LWIP_MEM_ALIGN :: "nat \<Rightarrow> nat" where
  "LWIP_MEM_ALIGN addr = (addr + MEM_ALIGNMENT - 1) div MEM_ALIGNMENT * MEM_ALIGNMENT"

record stats_mem =
  st_err :: u16
  st_avail :: u16
  st_used :: u16
  st_max :: u16
  st_illegal :: u16

record memp_desc =
  desc_id :: nat
  desc_size :: u16
  desc_num :: u16
  desc_base :: nat

record memp_state =
  memp_next :: "nat \<Rightarrow> ptr"
  memp_tab :: "nat \<Rightarrow> ptr"
  memp_stats :: "nat \<Rightarrow> stats_mem"

text \<open>\<^verbatim>\<open>memp_t\<close>: the pools of this configuration, in the order of \<^verbatim>\<open>memp_std.h\<close>.\<close>

abbreviation (input) MEMP_RAW_PCB :: nat where "MEMP_RAW_PCB \<equiv> 0"
abbreviation (input) MEMP_UDP_PCB :: nat where "MEMP_UDP_PCB \<equiv> 1"
abbreviation (input) MEMP_TCP_PCB :: nat where "MEMP_TCP_PCB \<equiv> 2"
abbreviation (input) MEMP_TCP_PCB_LISTEN :: nat where "MEMP_TCP_PCB_LISTEN \<equiv> 3"
abbreviation (input) MEMP_TCP_SEG :: nat where "MEMP_TCP_SEG \<equiv> 4"
abbreviation (input) MEMP_REASSDATA :: nat where "MEMP_REASSDATA \<equiv> 5"
abbreviation (input) MEMP_FRAG_PBUF :: nat where "MEMP_FRAG_PBUF \<equiv> 6"
abbreviation (input) MEMP_ARP_QUEUE :: nat where "MEMP_ARP_QUEUE \<equiv> 7"
abbreviation (input) MEMP_SYS_TIMEOUT :: nat where "MEMP_SYS_TIMEOUT \<equiv> 8"
abbreviation (input) MEMP_PBUF :: nat where "MEMP_PBUF \<equiv> 9"
abbreviation (input) MEMP_PBUF_POOL :: nat where "MEMP_PBUF_POOL \<equiv> 10"
abbreviation (input) MEMP_MAX :: nat where "MEMP_MAX \<equiv> 11"

definition set_next :: "nat \<Rightarrow> ptr \<Rightarrow> memp_state \<Rightarrow> memp_state" where
  "set_next a p s = s\<lparr>memp_next := (memp_next s)(a := p)\<rparr>"

definition set_tab :: "memp_desc \<Rightarrow> ptr \<Rightarrow> memp_state \<Rightarrow> memp_state" where
  "set_tab desc p s = s\<lparr>memp_tab := (memp_tab s)(desc_id desc := p)\<rparr>"

definition upd_stats :: "memp_desc \<Rightarrow> (stats_mem \<Rightarrow> stats_mem) \<Rightarrow> memp_state \<Rightarrow> memp_state" where
  "upd_stats desc f s = s\<lparr>memp_stats := (memp_stats s)(desc_id desc := f (memp_stats s (desc_id desc)))\<rparr>"

text \<open>The loop of \<open>memp_init_pool\<close>, with the number of elements still to be linked.\<close>

fun memp_init_loop :: "memp_desc \<Rightarrow> nat \<Rightarrow> nat \<Rightarrow> memp_state \<Rightarrow> memp_state" where
  "memp_init_loop desc 0 memp s = s"
| "memp_init_loop desc (Suc n) memp s =
     (let s = set_next memp (memp_tab s (desc_id desc)) s;
          s = set_tab desc (Some memp) s
      in memp_init_loop desc n (memp + MEMP_SIZE + unat (desc_size desc)) s)"

definition memp_init_pool :: "memp_desc \<Rightarrow> memp_state \<Rightarrow> memp_state" where
  "memp_init_pool desc s =
     (let s = set_tab desc None s;
          memp = LWIP_MEM_ALIGN (desc_base desc);
          s = memp_init_loop desc (unat (desc_num desc)) memp s
      in upd_stats desc (\<lambda>st. st\<lparr>st_avail := desc_num desc\<rparr>) s)"

fun memp_init :: "memp_desc list \<Rightarrow> memp_state \<Rightarrow> memp_state" where
  "memp_init [] s = s"
| "memp_init (desc # memp_pools) s = memp_init memp_pools (memp_init_pool desc s)"

definition do_memp_malloc_pool :: "memp_desc \<Rightarrow> memp_state \<Rightarrow> (ptr \<times> memp_state) option" where
  "do_memp_malloc_pool desc s =
     (case memp_tab s (desc_id desc) of
        Some memp \<Rightarrow> do {
          let s = set_tab desc (memp_next s memp) s;
          lwip_assert (memp mod MEM_ALIGNMENT = 0);
          let s = upd_stats desc (\<lambda>st. st\<lparr>st_used := st_used st + 1\<rparr>) s;
          let s = upd_stats desc (\<lambda>st. if st_used st > st_max st then st\<lparr>st_max := st_used st\<rparr> else st) s;
          Some (Some (memp + MEMP_SIZE), s)
        }
      | None \<Rightarrow>
          let s = upd_stats desc (\<lambda>st. st\<lparr>st_err := st_err st + 1\<rparr>) s
          in Some (None, s))"

definition memp_malloc_pool :: "memp_desc option \<Rightarrow> memp_state \<Rightarrow> (ptr \<times> memp_state) option" where
  "memp_malloc_pool desc s =
     (case desc of None \<Rightarrow> None | Some desc \<Rightarrow> do_memp_malloc_pool desc s)"

definition memp_malloc :: "memp_desc list \<Rightarrow> nat \<Rightarrow> memp_state \<Rightarrow> (ptr \<times> memp_state) option" where
  "memp_malloc memp_pools type s =
     (if \<not> type < length memp_pools then Some (None, s)
      else do_memp_malloc_pool (memp_pools ! type) s)"

definition do_memp_free_pool :: "memp_desc \<Rightarrow> nat \<Rightarrow> memp_state \<Rightarrow> memp_state option" where
  "do_memp_free_pool desc mem s = do {
     lwip_assert (mem mod MEM_ALIGNMENT = 0);
     let memp = mem - MEMP_SIZE;
     let s = upd_stats desc (\<lambda>st. st\<lparr>st_used := st_used st - 1\<rparr>) s;
     let s = set_next memp (memp_tab s (desc_id desc)) s;
     let s = set_tab desc (Some memp) s;
     Some s
   }"

definition memp_free_pool :: "memp_desc option \<Rightarrow> ptr \<Rightarrow> memp_state \<Rightarrow> memp_state option" where
  "memp_free_pool desc mem s =
     (case desc of
        None \<Rightarrow> None
      | Some desc \<Rightarrow> (case mem of None \<Rightarrow> Some s | Some mem \<Rightarrow> do_memp_free_pool desc mem s))"

definition memp_free :: "memp_desc list \<Rightarrow> nat \<Rightarrow> ptr \<Rightarrow> memp_state \<Rightarrow> memp_state option" where
  "memp_free memp_pools type mem s =
     (if \<not> type < length memp_pools then Some s
      else case mem of None \<Rightarrow> Some s | Some mem \<Rightarrow> do_memp_free_pool (memp_pools ! type) mem s)"


section \<open>The interface of a pool\<close>

text \<open>
  What a client of a pool may rely on. \<open>inv A s\<close>: \<open>s\<close> is a consistent state in which exactly the elements
  \<open>A\<close> are handed out. Allocation succeeds as long as fewer than \<open>capacity\<close> elements are out, and never
  returns an element that is out; releasing an element that is out succeeds.
\<close>

text \<open>\<open>n\<close> successful allocations in a row.\<close>

fun alloc_n :: "('s \<Rightarrow> (ptr \<times> 's) option) \<Rightarrow> nat \<Rightarrow> 's \<Rightarrow> (nat list \<times> 's) option" where
  "alloc_n alloc 0 s = Some ([], s)"
| "alloc_n alloc (Suc n) s = (case alloc s of Some (Some a, s) \<Rightarrow>
     (case alloc_n alloc n s of Some (as, s) \<Rightarrow> Some (a # as, s) | None \<Rightarrow> None) | _ \<Rightarrow> None)"

locale element_pool =
  fixes alloc :: "'s \<Rightarrow> (ptr \<times> 's) option"
    and release :: "nat \<Rightarrow> 's \<Rightarrow> 's option"
    and inv :: "nat set \<Rightarrow> 's \<Rightarrow> bool"
    and capacity :: nat
  assumes inv_card: "inv A s \<Longrightarrow> finite A \<and> card A \<le> capacity"
    and alloc_some: "\<lbrakk>inv A s; card A < capacity\<rbrakk> \<Longrightarrow>
          \<exists>a s'. alloc s = Some (Some a, s') \<and> a \<notin> A \<and> inv (insert a A) s'"
    and alloc_none: "\<lbrakk>inv A s; card A = capacity\<rbrakk> \<Longrightarrow> \<exists>s'. alloc s = Some (None, s') \<and> inv A s'"
    and release_out: "\<lbrakk>inv A s; a \<in> A\<rbrakk> \<Longrightarrow> \<exists>s'. release a s = Some s' \<and> inv (A - {a}) s'"
begin

text \<open>Allocation never aborts; its outcome is decided by the number of elements out.\<close>

lemma alloc_cases:
  assumes "inv A s"
  obtains (got) a s' where "card A < capacity" "alloc s = Some (Some a, s')" "a \<notin> A" "inv (insert a A) s'"
    "card (insert a A) = Suc (card A)"
  | (full) s' where "card A = capacity" "alloc s = Some (None, s')" "inv A s'"
proof (cases "card A < capacity")
  case True
  with alloc_some [OF assms] inv_card [OF assms] got show ?thesis by (metis card_insert_disjoint)
next
  case False
  with inv_card [OF assms] have "card A = capacity" by simp
  with alloc_none [OF assms] full show ?thesis by blast
qed

lemma release_card: "\<lbrakk>inv A s; a \<in> A\<rbrakk> \<Longrightarrow> card (A - {a}) < capacity"
  using inv_card [of A s] by (metis card_Diff1_less order_less_le_trans)

lemma alloc_n_distinct:
  "\<lbrakk>inv A s; card A + n \<le> capacity\<rbrakk> \<Longrightarrow>
   \<exists>as s'. alloc_n alloc n s = Some (as, s') \<and> length as = n \<and> distinct as \<and> set as \<inter> A = {} \<and> inv (set as \<union> A) s'"
proof (induction n arbitrary: A s)
  case (Suc n)
  from Suc.prems(1) show ?case
  proof (cases rule: alloc_cases)
    case (got a s')
    with Suc.prems Suc.IH [of "insert a A" s'] show ?thesis by fastforce
  next
    case (full s')
    with Suc.prems show ?thesis by simp
  qed
qed simp

end


section \<open>The free list of a pool\<close>

definition pool_elems :: "memp_desc \<Rightarrow> nat list" where
  "pool_elems d = map (\<lambda>i. LWIP_MEM_ALIGN (desc_base d) + i * unat (desc_size d)) [0..<unat (desc_num d)]"

text \<open>Element sizes are produced by \<open>LWIP_MEM_ALIGN_SIZE\<close> from the size of a non-empty struct.\<close>

definition desc_ok :: "memp_desc \<Rightarrow> bool" where
  "desc_ok d \<longleftrightarrow> 0 < unat (desc_size d) \<and> unat (desc_size d) mod MEM_ALIGNMENT = 0"

definition memp_inv :: "memp_desc \<Rightarrow> nat set \<Rightarrow> memp_state \<Rightarrow> bool" where
  "memp_inv d A s \<longleftrightarrow> desc_ok d \<and>
     (\<exists>fs. list_from (memp_next s) (memp_tab s (desc_id d)) fs \<and> distinct fs
        \<and> set fs \<inter> A = {} \<and> set fs \<union> A = set (pool_elems d))
     \<and> unat (st_used (memp_stats s (desc_id d))) = card A
     \<and> st_avail (memp_stats s (desc_id d)) = desc_num d
     \<and> st_used (memp_stats s (desc_id d)) \<le> st_max (memp_stats s (desc_id d))
     \<and> st_max (memp_stats s (desc_id d)) \<le> desc_num d"

lemma LWIP_MEM_ALIGN_mod [simp]: "LWIP_MEM_ALIGN a mod 4 = 0"
  by (simp add: LWIP_MEM_ALIGN_def)

lemma LWIP_MEM_ALIGN_bounds: "a \<le> LWIP_MEM_ALIGN a" "LWIP_MEM_ALIGN a < a + 4"
  unfolding LWIP_MEM_ALIGN_def by presburger+

lemma pool_elems_aligned: "desc_ok d \<Longrightarrow> a \<in> set (pool_elems d) \<Longrightarrow> a mod 4 = 0"
  by (auto simp: pool_elems_def desc_ok_def mod_add_eq [symmetric] mod_mult_right_eq [symmetric])

lemma distinct_pool_elems: "desc_ok d \<Longrightarrow> distinct (pool_elems d)"
  by (auto simp: pool_elems_def desc_ok_def distinct_map inj_on_def)

lemma length_pool_elems [simp]: "length (pool_elems d) = unat (desc_num d)"
  by (simp add: pool_elems_def)

lemma card_pool_elems: "desc_ok d \<Longrightarrow> card (set (pool_elems d)) = unat (desc_num d)"
  using distinct_card [OF distinct_pool_elems] by simp

lemma memp_state_simps [simp]:
  "memp_next (set_next a p s) = (memp_next s)(a := p)"
  "memp_tab (set_next a p s) = memp_tab s"
  "memp_stats (set_next a p s) = memp_stats s"
  "memp_next (set_tab d p s) = memp_next s"
  "memp_tab (set_tab d p s) = (memp_tab s)(desc_id d := p)"
  "memp_stats (set_tab d p s) = memp_stats s"
  "memp_next (upd_stats d f s) = memp_next s"
  "memp_tab (upd_stats d f s) = memp_tab s"
  "memp_stats (upd_stats d f s) = (memp_stats s)(desc_id d := f (memp_stats s (desc_id d)))"
  by (simp_all add: set_next_def set_tab_def upd_stats_def)

lemma memp_invE:
  assumes "memp_inv d A s"
  obtains fs where "desc_ok d" "list_from (memp_next s) (memp_tab s (desc_id d)) fs" "distinct fs"
    "set fs \<inter> A = {}" "set fs \<union> A = set (pool_elems d)" "card A + length fs = unat (desc_num d)" "finite A"
    "unat (st_used (memp_stats s (desc_id d))) = card A"
proof -
  from assms obtain fs where fs: "desc_ok d" "list_from (memp_next s) (memp_tab s (desc_id d)) fs" "distinct fs"
    "set fs \<inter> A = {}" "set fs \<union> A = set (pool_elems d)" "unat (st_used (memp_stats s (desc_id d))) = card A"
    by (auto simp: memp_inv_def)
  moreover have fin: "finite A" using fs(5) by (metis List.finite_set finite_Un)
  moreover have "card A + length fs = unat (desc_num d)"
    using card_pool_elems [OF fs(1)] card_Un_disjoint [OF List.finite_set fin fs(4)] distinct_card [OF fs(3)] fs(5)
    by simp
  ultimately show ?thesis using that by blast
qed

lemma unat_Suc_u16: "unat (x :: u16) < unat (y :: u16) \<Longrightarrow> unat (x + 1) = Suc (unat x)"
  using unat_u16_less [of y] by (simp add: unat_add_u16 del: unat_u16_less)

lemma malloc_pool_some:
  assumes "memp_inv d A s" and "card A < unat (desc_num d)"
  shows "\<exists>a s'. do_memp_malloc_pool d s = Some (Some a, s') \<and> a \<notin> A \<and> memp_inv d (insert a A) s'"
proof -
  from assms(1) obtain fs where fs: "desc_ok d" "list_from (memp_next s) (memp_tab s (desc_id d)) fs" "distinct fs"
    "set fs \<inter> A = {}" "set fs \<union> A = set (pool_elems d)" "card A + length fs = unat (desc_num d)" "finite A"
    "unat (st_used (memp_stats s (desc_id d))) = card A"
    by (rule memp_invE)
  from fs(6) assms(2) obtain a gs where a: "fs = a # gs" by (cases fs) auto
  have used: "unat (st_used (memp_stats s (desc_id d)) + 1) = Suc (card A)"
    using unat_Suc_u16 [of _ "desc_num d"] fs(8) assms(2) by metis
  have "a mod 4 = 0" using pool_elems_aligned [OF fs(1)] fs(5) a by auto
  moreover have "card (insert a A) = Suc (card A)" using fs a by auto
  moreover have "list_from (memp_next s) (memp_next s a) gs" "distinct gs" "set gs \<inter> insert a A = {}"
    "set gs \<union> insert a A = set (pool_elems d)" using fs a by auto
  ultimately show ?thesis
    using fs(1,2,4) assms used a
    by (auto simp: do_memp_malloc_pool_def memp_inv_def Let_def
        word_le_nat_alt word_less_nat_alt not_less intro!: exI [of _ gs])
qed

lemma malloc_pool_none:
  assumes "memp_inv d A s" and "card A = unat (desc_num d)"
  shows "\<exists>s'. do_memp_malloc_pool d s = Some (None, s') \<and> memp_inv d A s'"
proof -
  from assms obtain "memp_tab s (desc_id d) = None" by (auto elim: memp_invE)
  with assms(1) show ?thesis by (simp add: do_memp_malloc_pool_def memp_inv_def Let_def)
qed

lemma free_pool_out:
  assumes "memp_inv d A s" and "a \<in> A"
  shows "\<exists>s'. do_memp_free_pool d a s = Some s' \<and> memp_inv d (A - {a}) s'"
proof -
  from assms(1) obtain fs where fs: "desc_ok d" "list_from (memp_next s) (memp_tab s (desc_id d)) fs" "distinct fs"
    "set fs \<inter> A = {}" "set fs \<union> A = set (pool_elems d)" "card A + length fs = unat (desc_num d)" "finite A"
    "unat (st_used (memp_stats s (desc_id d))) = card A"
    by (rule memp_invE)
  have "0 < card A" using fs(7) assms(2) by (auto simp: card_gt_0_iff)
  then have "1 \<le> st_used (memp_stats s (desc_id d))" using fs(8) by (simp add: word_le_nat_alt)
  then have used: "unat (st_used (memp_stats s (desc_id d)) - 1) = card (A - {a})"
    using fs(7,8) assms(2) by (simp add: unat_sub)
  have "a mod 4 = 0" using pool_elems_aligned [OF fs(1)] fs(5) assms(2) by auto
  moreover have "a \<notin> set fs" using fs(4) assms(2) by auto
  moreover have "set (a # fs) \<inter> (A - {a}) = {}" "set (a # fs) \<union> (A - {a}) = set (pool_elems d)"
    using fs(4,5) assms(2) by auto
  moreover have "card (A - {a}) \<le> card A" by (simp add: card_Diff1_le)
  ultimately show ?thesis
    using fs(1-3,8) assms used
    by (auto simp: do_memp_free_pool_def memp_inv_def Let_def word_le_nat_alt intro!: exI [of _ "a # fs"])
qed

interpretation memp: element_pool "do_memp_malloc_pool d" "do_memp_free_pool d" "memp_inv d" "unat (desc_num d)"
  for d
proof unfold_locales
  show "finite A \<and> card A \<le> unat (desc_num d)" if "memp_inv d A s" for A s
    using that by (rule memp_invE) simp
qed (rule malloc_pool_some malloc_pool_none free_pool_out; assumption)+


section \<open>Independence of pools and initialisation\<close>

definition pools_apart :: "memp_desc \<Rightarrow> memp_desc \<Rightarrow> bool" where
  "pools_apart d d' \<longleftrightarrow> desc_id d \<noteq> desc_id d' \<and> set (pool_elems d) \<inter> set (pool_elems d') = {}"

text \<open>What \<open>s\<close> and \<open>s'\<close> must agree on for the pool \<open>d\<close> to be in the same situation.\<close>

lemma memp_inv_frame:
  assumes "memp_inv d A s"
    and "\<And>a. a \<in> set (pool_elems d) - A \<Longrightarrow> memp_next s' a = memp_next s a"
    and "memp_tab s' (desc_id d) = memp_tab s (desc_id d)"
    and "memp_stats s' (desc_id d) = memp_stats s (desc_id d)"
  shows "memp_inv d A s'"
proof -
  from assms(1) obtain fs where fs: "list_from (memp_next s) (memp_tab s (desc_id d)) fs" "distinct fs"
    "set fs \<inter> A = {}" "set fs \<union> A = set (pool_elems d)"
    by (auto simp: memp_inv_def)
  have "list_from (memp_next s') (memp_tab s' (desc_id d)) fs"
    unfolding assms(3) by (rule list_from_cong [OF fs(1)]) (use assms(2) fs(3,4) in blast)
  with fs assms(1,4) show ?thesis by (auto simp: memp_inv_def)
qed

text \<open>The owner of an element may overwrite all of it, the link field included.\<close>

lemma memp_inv_user_write: "\<lbrakk>memp_inv d A s; a \<in> A\<rbrakk> \<Longrightarrow> memp_inv d A (set_next a p s)"
  by (rule memp_inv_frame) auto

lemma malloc_pool_other:
  assumes "do_memp_malloc_pool d' s = Some (p, s')" and "pools_apart d d'" and "memp_inv d A s"
  shows "memp_inv d A s'"
  using assms(1,2)
  by (intro memp_inv_frame [OF assms(3)])
    (auto simp: do_memp_malloc_pool_def pools_apart_def Let_def split: option.splits)

lemma free_pool_other:
  assumes "do_memp_free_pool d' a s = Some s'" and "a \<in> set (pool_elems d')" and "pools_apart d d'" and "memp_inv d A s"
  shows "memp_inv d A s'"
  using assms(1-3)
  by (intro memp_inv_frame [OF assms(4)]) (auto simp: do_memp_free_pool_def pools_apart_def Let_def)

lemma memp_init_loop_eq:
  assumes "list_from (memp_next s) (memp_tab s (desc_id d)) fs" "distinct fs" and "0 < unat (desc_size d)"
    and "\<And>f. f \<in> set fs \<Longrightarrow> f < memp"
  shows "\<exists>gs. list_from (memp_next (memp_init_loop d n memp s)) (memp_tab (memp_init_loop d n memp s) (desc_id d)) gs
     \<and> distinct gs \<and> set gs = set fs \<union> (\<lambda>i. memp + i * unat (desc_size d)) ` {0..<n}"
  using assms
proof (induction n arbitrary: memp s fs)
  case (Suc n)
  let ?s = "set_tab d (Some memp) (set_next memp (memp_tab s (desc_id d)) s)"
  have "memp \<notin> set fs" using Suc.prems(4) by blast
  then have "list_from (memp_next ?s) (memp_tab ?s (desc_id d)) (memp # fs)" "distinct (memp # fs)"
    using Suc.prems by simp_all
  moreover have "f < memp + unat (desc_size d)" if "f \<in> set (memp # fs)" for f
    using that Suc.prems(3,4) by (auto intro: trans_less_add1)
  ultimately obtain gs where gs: "list_from (memp_next (memp_init_loop d n (memp + unat (desc_size d)) ?s))
      (memp_tab (memp_init_loop d n (memp + unat (desc_size d)) ?s) (desc_id d)) gs" "distinct gs"
    "set gs = set (memp # fs) \<union> (\<lambda>i. memp + unat (desc_size d) + i * unat (desc_size d)) ` {0..<n}"
    using Suc.IH [of ?s "memp # fs" "memp + unat (desc_size d)"] Suc.prems(3) by blast
  have "(\<lambda>i. memp + i * unat (desc_size d)) ` {0..<Suc n} =
      insert memp ((\<lambda>i. memp + unat (desc_size d) + i * unat (desc_size d)) ` {0..<n})"
    unfolding atLeast0_lessThan_Suc_eq_insert_0 image_insert image_image by (simp add: ac_simps)
  with gs show ?case by (intro exI [of _ gs]) (simp add: Let_def)
qed auto

lemma memp_init_loop_frame:
  "memp_stats (memp_init_loop d n memp s) = memp_stats s"
  "i \<noteq> desc_id d \<Longrightarrow> memp_tab (memp_init_loop d n memp s) i = memp_tab s i"
  "a \<notin> (\<lambda>i. memp + i * unat (desc_size d)) ` {0..<n} \<Longrightarrow> memp_next (memp_init_loop d n memp s) a = memp_next s a"
proof (induction n arbitrary: memp s)
  case (Suc n)
  { case 1 show ?case using Suc.IH(1) by (simp add: Let_def) }
  { case 2 then show ?case using Suc.IH(2) by (simp add: Let_def) }
  { case 3
    have "(\<lambda>i. memp + i * unat (desc_size d)) ` {0..<Suc n} =
      insert memp ((\<lambda>i. memp + unat (desc_size d) + i * unat (desc_size d)) ` {0..<n})"
      unfolding atLeast0_lessThan_Suc_eq_insert_0 image_insert image_image by (simp add: ac_simps)
    with 3 Suc.IH(3) [of "memp + unat (desc_size d)"] show ?case by (simp add: Let_def) }
qed auto

lemma set_pool_elems:
  "set (pool_elems d) = (\<lambda>i. LWIP_MEM_ALIGN (desc_base d) + i * unat (desc_size d)) ` {0..<unat (desc_num d)}"
  by (simp add: pool_elems_def)

lemma memp_init_pool_inv:
  assumes "desc_ok d" and "st_used (memp_stats s (desc_id d)) = 0" "st_max (memp_stats s (desc_id d)) = 0"
  shows "memp_inv d {} (memp_init_pool d s)"
proof -
  let ?s = "set_tab d None s" and ?n = "unat (desc_num d)" and ?m = "LWIP_MEM_ALIGN (desc_base d)"
  obtain gs where "list_from (memp_next (memp_init_loop d ?n ?m ?s)) (memp_tab (memp_init_loop d ?n ?m ?s) (desc_id d)) gs"
    "distinct gs" "set gs = set (pool_elems d)"
    using memp_init_loop_eq [of ?s d "[]" ?m ?n] assms(1) by (auto simp: set_pool_elems desc_ok_def)
  with assms show ?thesis
    by (auto simp: memp_inv_def memp_init_pool_def Let_def memp_init_loop_frame(1))
qed

lemma memp_init_pool_other:
  assumes "pools_apart d d'" 
  shows "memp_inv d A s \<Longrightarrow> memp_inv d A (memp_init_pool d' s)"
    and "memp_stats (memp_init_pool d' s) (desc_id d) = memp_stats s (desc_id d)"
proof -
  have ids: "desc_id d \<noteq> desc_id d'" using assms by (simp add: pools_apart_def)
  then show "memp_stats (memp_init_pool d' s) (desc_id d) = memp_stats s (desc_id d)"
    by (simp add: memp_init_pool_def Let_def memp_init_loop_frame(1))
  show "memp_inv d A (memp_init_pool d' s)" if "memp_inv d A s"
  proof (rule memp_inv_frame [OF that])
    fix a assume "a \<in> set (pool_elems d) - A"
    then have "a \<notin> set (pool_elems d')" using assms by (auto simp: pools_apart_def)
    then show "memp_next (memp_init_pool d' s) a = memp_next s a"
      unfolding set_pool_elems by (simp add: memp_init_pool_def Let_def memp_init_loop_frame(3))
  qed (simp_all add: memp_init_pool_def Let_def memp_init_loop_frame(1,2) ids)
qed

text \<open>The table of pools: usable sizes, and no two pools share memory or static variables.\<close>

fun pools_layout :: "memp_desc list \<Rightarrow> bool" where
  "pools_layout [] \<longleftrightarrow> True"
| "pools_layout (d # ds) \<longleftrightarrow> desc_ok d \<and> list_all (\<lambda>d'. pools_apart d d' \<and> pools_apart d' d) ds \<and> pools_layout ds"

lemma memp_init_other:
  "list_all (pools_apart d) ds \<Longrightarrow> memp_inv d A s \<Longrightarrow> memp_inv d A (memp_init ds s)"
  by (induction ds arbitrary: s) (simp_all add: memp_init_pool_other)

lemma memp_init_inv:
  assumes "pools_layout ds"
    and "\<And>d. d \<in> set ds \<Longrightarrow> st_used (memp_stats s (desc_id d)) = 0 \<and> st_max (memp_stats s (desc_id d)) = 0"
    and "d \<in> set ds"
  shows "memp_inv d {} (memp_init ds s)"
  using assms
proof (induction ds arbitrary: s)
  case (Cons d0 ds)
  show ?case
  proof (cases "d = d0")
    case True
    with Cons.prems show ?thesis
      by (auto intro!: memp_init_other memp_init_pool_inv simp: list_all_iff)
  next
    case False
    have "st_used (memp_stats (memp_init_pool d0 s) (desc_id d')) = 0
      \<and> st_max (memp_stats (memp_init_pool d0 s) (desc_id d')) = 0" if "d' \<in> set ds" for d'
      using that Cons.prems by (simp add: memp_init_pool_other list_all_iff)
    with False Cons.prems Cons.IH show ?thesis by simp
  qed
qed simp


section \<open>Properties\<close>

text \<open>A table with two pools, at an unaligned and an aligned base address, to apply the properties to.\<close>

definition example_pools :: "memp_desc list" where
  "example_pools =
     [\<lparr>desc_id = 0, desc_size = 8, desc_num = 2, desc_base = 1001\<rparr>, \<lparr>desc_id = 1, desc_size = 4, desc_num = 1, desc_base = 2000\<rparr>]"

definition example_memp :: memp_state where
  "example_memp = \<lparr>memp_next = (\<lambda>_. None), memp_tab = (\<lambda>_. None),
     memp_stats = (\<lambda>_. \<lparr>st_err = 0, st_avail = 0, st_used = 0, st_max = 0, st_illegal = 0\<rparr>)\<rparr>"

lemma example_pools_layout: "pools_layout example_pools"
  by code_simp

lemma example_memp_inv:
  "memp_inv (example_pools ! 0) {} (memp_init example_pools example_memp)"
  "memp_inv (example_pools ! 1) {} (memp_init example_pools example_memp)"
  by (rule memp_init_inv [OF example_pools_layout], simp add: example_memp_def, simp add: example_pools_def)+

text \<open>C16: the contract of a pool. While elements are left, \<open>memp_malloc\<close> returns an aligned element of the
  pool that is not handed out; when all are out it returns the null pointer. \<open>memp_free\<close> takes back any element
  that is out, whatever was written to it and in whatever order the elements were handed out. The free list, the
  set of elements out and the statistics stay consistent.\<close>

theorem memp_malloc_free_contract:
  assumes "type < length memp_pools" and "memp_inv (memp_pools ! type) A s"
  shows "(if card A < unat (desc_num (memp_pools ! type))
      then \<exists>a s'. memp_malloc memp_pools type s = Some (Some a, s') \<and> a mod MEM_ALIGNMENT = 0
             \<and> a \<in> set (pool_elems (memp_pools ! type)) \<and> a \<notin> A
             \<and> memp_inv (memp_pools ! type) (insert a A) s'
      else \<exists>s'. memp_malloc memp_pools type s = Some (None, s') \<and> memp_inv (memp_pools ! type) A s')
    \<and> (\<forall>a \<in> A. \<forall>p. \<exists>s'. memp_free memp_pools type (Some a) (set_next a p s) = Some s' \<and> memp_inv (memp_pools ! type) (A - {a}) s')"
proof (intro conjI ballI allI)
  let ?d = "memp_pools ! type"
  have elem: "a \<in> set (pool_elems ?d) \<and> a mod MEM_ALIGNMENT = 0" if "memp_inv ?d (insert a A) s'" for a s'
    using that by (rule memp_invE) (auto intro: pool_elems_aligned)
  from assms(2) show "if card A < unat (desc_num ?d)
      then \<exists>a s'. memp_malloc memp_pools type s = Some (Some a, s') \<and> a mod MEM_ALIGNMENT = 0 \<and> a \<in> set (pool_elems ?d) \<and> a \<notin> A \<and> memp_inv ?d (insert a A) s'
      else \<exists>s'. memp_malloc memp_pools type s = Some (None, s') \<and> memp_inv ?d A s'"
  proof (cases rule: memp.alloc_cases)
    case (got a s')
    with elem [OF got(4)] assms(1) show ?thesis by (simp add: memp_malloc_def)
  next
    case (full s')
    with assms(1) show ?thesis by (simp add: memp_malloc_def)
  qed
  fix a p assume a: "a \<in> A"
  have "memp_inv ?d A (set_next a p s)" by (rule memp_inv_user_write [OF assms(2) a])
  from memp.release_out [OF this a] assms(1)
  show "\<exists>s'. memp_free memp_pools type (Some a) (set_next a p s) = Some s' \<and> memp_inv ?d (A - {a}) s'" by (simp add: memp_free_def)
qed

theorem memp_malloc_free_contract_witness:
  "\<exists>a b s1 s2 s3. memp_malloc example_pools 0 (memp_init example_pools example_memp) = Some (Some a, s1) \<and> memp_malloc example_pools 0 s1 = Some (Some b, s2)
     \<and> a \<noteq> b \<and> memp_free example_pools 0 (Some a) (set_next a (Some 5) s2) = Some s3 \<and> memp_inv (example_pools ! 0) {b} s3"
proof -
  have n: "1 < unat (desc_num (example_pools ! 0))" "0 < length example_pools" by (simp_all add: example_pools_def)
  from memp_malloc_free_contract [OF n(2) example_memp_inv(1)] n obtain a s1 where
    a: "memp_malloc example_pools 0 (memp_init example_pools example_memp) = Some (Some a, s1)" "memp_inv (example_pools ! 0) {a} s1" by auto
  from memp_malloc_free_contract [OF n(2) a(2)] n obtain b s2 where
    b: "memp_malloc example_pools 0 s1 = Some (Some b, s2)" "b \<noteq> a" "memp_inv (example_pools ! 0) {b, a} s2" by auto
  from memp_malloc_free_contract [OF n(2) b(3)] obtain s3 where
    "memp_free example_pools 0 (Some a) (set_next a (Some 5) s2) = Some s3" "memp_inv (example_pools ! 0) ({b, a} - {a}) s3" by blast
  moreover have "{b, a} - {a} = {b}" using b(2) by auto
  ultimately show ?thesis using a(1) b(1,2) by auto
qed

text \<open>Pools are independent of each other and of what their clients do with the elements. Allocating from
  or freeing to another pool, and writing to an element that is handed out (its link field included),
  leave a pool as it was.\<close>

theorem memp_pools_independent:
  assumes "memp_inv d A s" and "pools_apart d d'" and "memp_inv d' B s"
  shows "(\<exists>p s'. do_memp_malloc_pool d' s = Some (p, s') \<and> memp_inv d A s')
    \<and> (b \<in> B \<longrightarrow> (\<exists>s'. do_memp_free_pool d' b s = Some s' \<and> memp_inv d A s'))
    \<and> (a \<in> A \<longrightarrow> memp_inv d A (set_next a p s))"
proof (intro conjI impI)
  from assms(3) show "\<exists>p s'. do_memp_malloc_pool d' s = Some (p, s') \<and> memp_inv d A s'"
    by (cases rule: memp.alloc_cases) (use assms(1,2) malloc_pool_other in blast)+
  show "\<exists>s'. do_memp_free_pool d' b s = Some s' \<and> memp_inv d A s'" if "b \<in> B"
  proof -
    have "b \<in> set (pool_elems d')" using assms(3) that by (auto elim!: memp_invE)
    with memp.release_out [OF assms(3) that] assms(1,2) show ?thesis
      by (blast intro: free_pool_other)
  qed
  show "memp_inv d A (set_next a p s)" if "a \<in> A"
    by (rule memp_inv_user_write [OF assms(1) that])
qed

theorem memp_pools_independent_witness:
  "\<exists>p s'. do_memp_malloc_pool (example_pools ! 1) (memp_init example_pools example_memp) = Some (p, s')
     \<and> memp_inv (example_pools ! 0) {} s'"
proof -
  have "pools_apart (example_pools ! 0) (example_pools ! 1)" by code_simp
  from memp_pools_independent [OF example_memp_inv(1) this example_memp_inv(2)] show ?thesis by blast
qed

text \<open>After \<open>memp_init\<close> over zero-initialised statistics every pool of the table is full: exactly its
  configured number of allocations succeeds, with pairwise different elements of the pool, and the next
  one returns the null pointer.\<close>

theorem memp_init_fills_pools:
  assumes "pools_layout memp_pools" and "type < length memp_pools"
    and "\<And>d. d \<in> set memp_pools \<Longrightarrow> st_used (memp_stats s (desc_id d)) = 0 \<and> st_max (memp_stats s (desc_id d)) = 0"
  shows "\<exists>as s' s''. alloc_n (memp_malloc memp_pools type) (unat (desc_num (memp_pools ! type))) (memp_init memp_pools s)
             = Some (as, s')
    \<and> distinct as \<and> set as = set (pool_elems (memp_pools ! type))
    \<and> memp_malloc memp_pools type s' = Some (None, s'')"
proof -
  let ?d = "memp_pools ! type"
  have malloc: "memp_malloc memp_pools type = do_memp_malloc_pool ?d"
    using assms(2) by (simp add: memp_malloc_def fun_eq_iff)
  have "memp_inv ?d {} (memp_init memp_pools s)"
    using assms(2) by (intro memp_init_inv [OF assms(1,3)]) auto
  from memp.alloc_n_distinct [OF this, of "unat (desc_num ?d)"]
  obtain as s' where as: "alloc_n (do_memp_malloc_pool ?d) (unat (desc_num ?d)) (memp_init memp_pools s) = Some (as, s')"
    "length as = unat (desc_num ?d)" "distinct as" "memp_inv ?d (set as) s'" by auto
  then have card: "card (set as) = unat (desc_num ?d)" by (simp add: distinct_card)
  from as(4) have "set as \<subseteq> set (pool_elems ?d)" "desc_ok ?d" by (auto elim!: memp_invE)
  with card card_pool_elems [of ?d] have "set as = set (pool_elems ?d)" by (intro card_subset_eq) auto
  with memp.alloc_none [OF as(4) card] as show ?thesis unfolding malloc by blast
qed

theorem memp_init_fills_pools_witness:
  "\<exists>as s' s''. alloc_n (memp_malloc example_pools 0) 2 (memp_init example_pools example_memp) = Some (as, s')
     \<and> distinct as \<and> set as = {1004, 1012} \<and> memp_malloc example_pools 0 s' = Some (None, s'')"
proof -
  have "set (pool_elems (example_pools ! 0)) = {1004, 1012}" "unat (desc_num (example_pools ! 0)) = 2"
    "0 < length example_pools"
    by code_simp+
  moreover have "st_used (memp_stats example_memp i) = 0 \<and> st_max (memp_stats example_memp i) = 0" for i
    by (simp add: example_memp_def)
  ultimately show ?thesis
    using memp_init_fills_pools [of example_pools 0 example_memp, OF example_pools_layout] by simp
qed

end
