(* ===== verification/Timeouts.thy ===== *)
theory Timeouts
  imports Memp "HOL-Library.Multiset"
begin

text \<open>
  \<^verbatim>\<open>core/timeouts.c\<close>: the list of pending timeouts and the cyclic timers of the stack, with
  \<^verbatim>\<open>port/sys_arch.c\<close> as the clock.

  \<open>next_timeout\<close> is the linked list as a list of its nodes. A node carries the address of the element of the
  pool \<^verbatim>\<open>MEMP_SYS_TIMEOUT\<close> it lives in; its \<open>time\<close> is relative to the node before it, and that of the
  first node to \<open>timeouts_last_time\<close>. The tick counter of the kernel is the field \<open>clock\<close>, which only the
  environment changes.

  Function pointers are the values of \<open>timeout_fn\<close>: the two static callbacks of this file and the others
  by number. What the others do, the periodic functions of the protocols, the test for live TCP
  connections and the release of out-of-sequence segments are the arguments collected in \<open>timer_env\<close>;
  they act on the whole state, so they may themselves set and cancel timeouts.
\<close>

section \<open>Definitions\<close>

datatype timeout_fn = Fn_tcpip_tcp_timer | Fn_cyclic_timer | Fn nat

record sys_timeo =
  tm_addr :: nat
  tm_time :: u32
  tm_h :: "timeout_fn option"
  tm_arg :: ptr

record timeouts_state =
  next_timeout :: "sys_timeo list"
  timeouts_last_time :: u32
  tcpip_tcp_timer_active :: bool
  timeo_memp :: memp_state
  clock :: u32

record 'a timer_env =
  env_pools :: "memp_desc list"
  env_tmr :: "nat \<Rightarrow> 'a timeouts_state_scheme \<Rightarrow> 'a timeouts_state_scheme option"
  env_fn :: "nat \<Rightarrow> ptr \<Rightarrow> 'a timeouts_state_scheme \<Rightarrow> 'a timeouts_state_scheme option"
  env_tcp_pcbs :: "'a timeouts_state_scheme \<Rightarrow> bool"
  env_free_ooseq :: "'a timeouts_state_scheme \<Rightarrow> 'a timeouts_state_scheme option"

definition sys_now :: "'a timeouts_state_scheme \<Rightarrow> u32" where
  "sys_now s = clock s"

abbreviation TCP_TMR_INTERVAL :: u32 where "TCP_TMR_INTERVAL \<equiv> 250"
abbreviation IP_TMR_INTERVAL :: u32 where "IP_TMR_INTERVAL \<equiv> 1000"
abbreviation ARP_TMR_INTERVAL :: u32 where "ARP_TMR_INTERVAL \<equiv> 1000"
abbreviation DHCP_COARSE_TIMER_MSECS :: u32 where "DHCP_COARSE_TIMER_MSECS \<equiv> 60 * 1000"
abbreviation DHCP_FINE_TIMER_MSECS :: u32 where "DHCP_FINE_TIMER_MSECS \<equiv> 500"
abbreviation AUTOIP_TMR_INTERVAL :: u32 where "AUTOIP_TMR_INTERVAL \<equiv> 100"

text \<open>The intervals of the table of cyclic timers; \<open>env_tmr i\<close> is the handler of entry \<open>i\<close>.\<close>

definition lwip_cyclic_timers :: "u32 list" where
  "lwip_cyclic_timers = [TCP_TMR_INTERVAL, IP_TMR_INTERVAL, ARP_TMR_INTERVAL,
     DHCP_COARSE_TIMER_MSECS, DHCP_FINE_TIMER_MSECS, AUTOIP_TMR_INTERVAL]"

subsection \<open>Setting and cancelling\<close>

text \<open>
  The loop of \<open>sys_timeout\<close> over \<open>t\<close>, which inserts \<open>timeout\<close> behind a node; \<open>first\<close> is
  \<open>next_timeout->time\<close>. A list that ends without a place for it leaves the timeout out.
\<close>

fun timeout_insert :: "u32 \<Rightarrow> u32 \<Rightarrow> sys_timeo \<Rightarrow> sys_timeo list \<Rightarrow> sys_timeo list" where
  "timeout_insert msecs first timeout [] = []"
| "timeout_insert msecs first timeout [t] =
     (let timeout = timeout\<lparr>tm_time := tm_time timeout - tm_time t\<rparr>;
          timeout = (if tm_time timeout > msecs then timeout\<lparr>tm_time := msecs + first\<rparr> else timeout)
      in [t, timeout])"
| "timeout_insert msecs first timeout (t # t1 # ts) =
     (let timeout = timeout\<lparr>tm_time := tm_time timeout - tm_time t\<rparr>
      in if tm_time t1 > tm_time timeout
         then t # timeout # t1\<lparr>tm_time := tm_time t1 - tm_time timeout\<rparr> # ts
         else t # timeout_insert msecs first timeout (t1 # ts))"

definition sys_timeout ::
  "memp_desc list \<Rightarrow> u32 \<Rightarrow> timeout_fn option \<Rightarrow> ptr \<Rightarrow> 'a timeouts_state_scheme \<Rightarrow> 'a timeouts_state_scheme option" where
  "sys_timeout memp_pools msecs handler arg s = do {
     (timeout, m) \<leftarrow> memp_malloc memp_pools MEMP_SYS_TIMEOUT (timeo_memp s);
     let s = s\<lparr>timeo_memp := m\<rparr>;
     case timeout of
       None \<Rightarrow> None
     | Some a \<Rightarrow>
         let now = sys_now s;
             (diff, s) = (if next_timeout s = [] then (0, s\<lparr>timeouts_last_time := now\<rparr>)
                          else (now - timeouts_last_time s, s));
             timeout = \<lparr>tm_addr = a, tm_time = msecs + diff, tm_h = handler, tm_arg = arg\<rparr>
         in Some (case next_timeout s of
              [] \<Rightarrow> s\<lparr>next_timeout := [timeout]\<rparr>
            | t # ts \<Rightarrow>
                if tm_time t > msecs
                then s\<lparr>next_timeout := timeout # t\<lparr>tm_time := tm_time t - msecs\<rparr> # ts\<rparr>
                else s\<lparr>next_timeout := timeout_insert msecs (tm_time t) timeout (t # ts)\<rparr>)
   }"

text \<open>The walk of \<open>sys_untimeout\<close>: the list without the first match, and the node unlinked.\<close>

fun untimeout_walk :: "timeout_fn option \<Rightarrow> ptr \<Rightarrow> sys_timeo list \<Rightarrow> sys_timeo list \<times> nat option" where
  "untimeout_walk handler arg [] = ([], None)"
| "untimeout_walk handler arg (t # ts) =
     (if tm_h t = handler \<and> tm_arg t = arg
      then ((case ts of [] \<Rightarrow> [] | t1 # ts' \<Rightarrow> t1\<lparr>tm_time := tm_time t1 + tm_time t\<rparr> # ts'), Some (tm_addr t))
      else let (ts', r) = untimeout_walk handler arg ts in (t # ts', r))"

definition sys_untimeout ::
  "memp_desc list \<Rightarrow> timeout_fn option \<Rightarrow> ptr \<Rightarrow> 'a timeouts_state_scheme \<Rightarrow> 'a timeouts_state_scheme option" where
  "sys_untimeout memp_pools handler arg s =
     (if next_timeout s = [] then Some s
      else let (ts, r) = untimeout_walk handler arg (next_timeout s) in
        case r of
          None \<Rightarrow> Some s
        | Some a \<Rightarrow> do {
            let s = s\<lparr>next_timeout := ts\<rparr>;
            m \<leftarrow> memp_free memp_pools MEMP_SYS_TIMEOUT (Some a) (timeo_memp s);
            Some (s\<lparr>timeo_memp := m\<rparr>)
          })"

subsection \<open>The callbacks of the stack\<close>

definition tcpip_tcp_timer :: "'a timer_env \<Rightarrow> 'a timeouts_state_scheme \<Rightarrow> 'a timeouts_state_scheme option" where
  "tcpip_tcp_timer env s = do {
     s \<leftarrow> env_tmr env 0 s;
     if env_tcp_pcbs env s then sys_timeout (env_pools env) TCP_TMR_INTERVAL (Some Fn_tcpip_tcp_timer) None s
     else Some (s\<lparr>tcpip_tcp_timer_active := False\<rparr>)
   }"

definition tcp_timer_needed :: "'a timer_env \<Rightarrow> 'a timeouts_state_scheme \<Rightarrow> 'a timeouts_state_scheme option" where
  "tcp_timer_needed env s =
     (if \<not> tcpip_tcp_timer_active s \<and> env_tcp_pcbs env s then
        let s = s\<lparr>tcpip_tcp_timer_active := True\<rparr>
        in sys_timeout (env_pools env) TCP_TMR_INTERVAL (Some Fn_tcpip_tcp_timer) None s
      else Some s)"

text \<open>The argument of \<open>cyclic_timer\<close> points to an entry of the table; any other pointer is undefined behaviour.\<close>

definition cyclic_timer :: "'a timer_env \<Rightarrow> ptr \<Rightarrow> 'a timeouts_state_scheme \<Rightarrow> 'a timeouts_state_scheme option" where
  "cyclic_timer env arg s =
     (case arg of
        None \<Rightarrow> None
      | Some i \<Rightarrow> if i < length lwip_cyclic_timers then do {
          s \<leftarrow> env_tmr env i s;
          sys_timeout (env_pools env) (lwip_cyclic_timers ! i) (Some Fn_cyclic_timer) arg s
        } else None)"

text \<open>The loop of \<open>sys_timeouts_init\<close> from index \<open>i\<close>; entry 0, the TCP timer, is started on demand.\<close>

fun timeouts_init_loop :: "memp_desc list \<Rightarrow> nat list \<Rightarrow> 'a timeouts_state_scheme \<Rightarrow> 'a timeouts_state_scheme option" where
  "timeouts_init_loop memp_pools [] s = Some s"
| "timeouts_init_loop memp_pools (i # is) s = do {
     s \<leftarrow> sys_timeout memp_pools (lwip_cyclic_timers ! i) (Some Fn_cyclic_timer) (Some i) s;
     timeouts_init_loop memp_pools is s
   }"

definition sys_timeouts_init :: "memp_desc list \<Rightarrow> 'a timeouts_state_scheme \<Rightarrow> 'a timeouts_state_scheme option" where
  "sys_timeouts_init memp_pools s = do {
     s \<leftarrow> timeouts_init_loop memp_pools [1..<length lwip_cyclic_timers] s;
     Some (s\<lparr>timeouts_last_time := sys_now s\<rparr>)
   }"

subsection \<open>Expiry\<close>

definition call_handler ::
  "'a timer_env \<Rightarrow> timeout_fn \<Rightarrow> ptr \<Rightarrow> 'a timeouts_state_scheme \<Rightarrow> 'a timeouts_state_scheme option" where
  "call_handler env handler arg s =
     (case handler of
        Fn_tcpip_tcp_timer \<Rightarrow> tcpip_tcp_timer env s
      | Fn_cyclic_timer \<Rightarrow> cyclic_timer env arg s
      | Fn n \<Rightarrow> env_fn env n arg s)"

text \<open>One pass of the loop of \<open>sys_check_timeouts\<close>, with the flag \<open>had_one\<close> and the remaining \<open>diff\<close>.\<close>

definition check_timeouts_step ::
  "'a timer_env \<Rightarrow> u32 \<Rightarrow> 'a timeouts_state_scheme \<Rightarrow> (bool \<times> u32 \<times> 'a timeouts_state_scheme) option" where
  "check_timeouts_step env diff s = do {
     s \<leftarrow> env_free_ooseq env s;
     case next_timeout s of
       tmptimeout # rest \<Rightarrow>
         if tm_time tmptimeout \<le> diff then do {
           let s = s\<lparr>timeouts_last_time := timeouts_last_time s + tm_time tmptimeout\<rparr>;
           let diff = diff - tm_time tmptimeout;
           let s = s\<lparr>next_timeout := rest\<rparr>;
           m \<leftarrow> memp_free (env_pools env) MEMP_SYS_TIMEOUT (Some (tm_addr tmptimeout)) (timeo_memp s);
           let s = s\<lparr>timeo_memp := m\<rparr>;
           s \<leftarrow> (case tm_h tmptimeout of
                  None \<Rightarrow> Some s
                | Some handler \<Rightarrow> call_handler env handler (tm_arg tmptimeout) s);
           Some (True, diff, s)
         } else Some (False, diff, s)
     | [] \<Rightarrow> Some (False, diff, s)
   }"

partial_function (option) check_timeouts_loop ::
  "'a timer_env \<Rightarrow> u32 \<Rightarrow> 'a timeouts_state_scheme \<Rightarrow> 'a timeouts_state_scheme option" where
  "check_timeouts_loop env diff s =
     Option.bind (check_timeouts_step env diff s) (\<lambda>(had_one, diff, s).
       if had_one then check_timeouts_loop env diff s else Some s)"

definition sys_check_timeouts :: "'a timer_env \<Rightarrow> 'a timeouts_state_scheme \<Rightarrow> 'a timeouts_state_scheme option" where
  "sys_check_timeouts env s =
     (if next_timeout s \<noteq> [] then
        let now = sys_now s; diff = now - timeouts_last_time s in check_timeouts_loop env diff s
      else Some s)"

definition sys_restart_timeouts :: "'a timeouts_state_scheme \<Rightarrow> 'a timeouts_state_scheme" where
  "sys_restart_timeouts s = s\<lparr>timeouts_last_time := sys_now s\<rparr>"

definition sys_timeouts_sleeptime :: "'a timeouts_state_scheme \<Rightarrow> u32" where
  "sys_timeouts_sleeptime s =
     (case next_timeout s of
        [] \<Rightarrow> 0xFFFFFFFF
      | t # _ \<Rightarrow>
          let diff = sys_now s - timeouts_last_time s
          in if diff > tm_time t then 0 else tm_time t - diff)"



section \<open>Due times\<close>

text \<open>
  The abstract view of the list: for every timeout the time at which it is due, counted from
  \<open>timeouts_last_time\<close> as an unbounded number, and what it will call.
\<close>

type_synonym due = "nat \<times> timeout_fn option \<times> ptr"

fun dues :: "nat \<Rightarrow> sys_timeo list \<Rightarrow> due list" where
  "dues b [] = []"
| "dues b (t # ts) = (b + unat (tm_time t), tm_h t, tm_arg t) # dues (b + unat (tm_time t)) ts"

definition pending :: "'a timeouts_state_scheme \<Rightarrow> due list" where
  "pending s = dues 0 (next_timeout s)"

definition total_time :: "sys_timeo list \<Rightarrow> nat" where
  "total_time ts = sum_list (map (\<lambda>t. unat (tm_time t)) ts)"

definition elapsed :: "'a timeouts_state_scheme \<Rightarrow> nat" where
  "elapsed s = unat (sys_now s - timeouts_last_time s)"

definition delay :: "nat \<Rightarrow> due list \<Rightarrow> due list" where
  "delay k = map (\<lambda>(d, x). (d + k, x))"

text \<open>Insertion by due time, behind the timeouts that are due at the same time.\<close>

definition insert_due :: "due \<Rightarrow> due list \<Rightarrow> due list" where
  "insert_due x D = takeWhile (\<lambda>y. fst y \<le> fst x) D @ x # dropWhile (\<lambda>y. fst y \<le> fst x) D"

lemma total_time_simps [simp]:
  "total_time [] = 0" "total_time (t # ts) = unat (tm_time t) + total_time ts"
  "total_time (ts @ us) = total_time ts + total_time us"
  by (simp_all add: total_time_def)

lemma delay_simps [simp]:
  "delay k [] = []" "delay k ((d, x) # D) = (d + k, x) # delay k D"
  by (simp_all add: delay_def)

lemma dues_shift: "dues (b + k) ts = delay k (dues b ts)"
proof (induction ts arbitrary: b)
  case (Cons t ts)
  from Cons [of "b + unat (tm_time t)"] show ?case by (simp add: ac_simps)
qed simp

lemma dues_append: "dues b (ts @ us) = dues b ts @ dues (b + total_time ts) us"
  by (induction ts arbitrary: b) (simp_all add: add.assoc)

lemma dues_range: "(d, x) \<in> set (dues b ts) \<Longrightarrow> b \<le> d \<and> d \<le> b + total_time ts"
  by (induction ts arbitrary: b) fastforce+

lemma dues_sorted: "sorted (map fst (dues b ts))"
  by (induction ts arbitrary: b) (auto dest: dues_range)

lemma dues_eq_Nil [simp]: "dues b ts = [] \<longleftrightarrow> ts = []"
  by (cases ts) auto

lemma dues_head:
  "\<lbrakk>tm_time t' = r; tm_h t' = tm_h t; tm_arg t' = tm_arg t; b' + unat r = b + unat (tm_time t)\<rbrakk> \<Longrightarrow>
   dues b' (t' # ts) = dues b (t # ts)"
  by simp

lemma timeout_insert_dues:
  assumes "tm_time t \<le> tm_time timeout"
  shows "dues b (timeout_insert msecs first timeout (t # ts)) =
    (if unat (tm_time timeout) \<le> total_time (t # ts) + unat msecs
     then insert_due (b + unat (tm_time timeout), tm_h timeout, tm_arg timeout) (dues b (t # ts))
     else dues b (t # ts) @ [(b + total_time (t # ts) + unat (msecs + first), tm_h timeout, tm_arg timeout)])"
  using assms
proof (induction ts arbitrary: t timeout b)
  case Nil
  then have "unat (tm_time timeout - tm_time t) = unat (tm_time timeout) - unat (tm_time t)"
    "unat (tm_time t) \<le> unat (tm_time timeout)"
    by (simp_all add: unat_sub word_le_nat_alt)
  then show ?case by (auto simp: Let_def insert_due_def word_less_nat_alt)
next
  case (Cons t1 ts)
  let ?timeout = "timeout\<lparr>tm_time := tm_time timeout - tm_time t\<rparr>"
  have r: "unat (tm_time timeout - tm_time t) = unat (tm_time timeout) - unat (tm_time t)"
    and le: "unat (tm_time t) \<le> unat (tm_time timeout)"
    using Cons.prems by (simp_all add: unat_sub word_le_nat_alt)
  show ?case
  proof (cases "tm_time t1 > tm_time ?timeout")
    case True
    then have "unat (tm_time t1 - tm_time ?timeout) = unat (tm_time t1) - unat (tm_time ?timeout)"
      "unat (tm_time ?timeout) < unat (tm_time t1)"
      by (simp_all only: unat_sub order_less_imp_le word_less_nat_alt [symmetric])
    moreover from this r have "unat (tm_time timeout) < unat (tm_time t) + unat (tm_time t1)" by simp
    ultimately show ?thesis using True r le by (simp add: Let_def insert_due_def add_ac)
  next
    case False
    then have "tm_time t1 \<le> tm_time ?timeout" by simp
    note IH = Cons.IH [OF this, of "b + unat (tm_time t)"]
    from False have "unat (tm_time t1) \<le> unat (tm_time ?timeout)" by (simp add: word_le_nat_alt not_less)
    with False r le IH show ?thesis by (auto simp: Let_def insert_due_def add.assoc)
  qed
qed

lemma timeout_insert_addrs:
  "set (map tm_addr (timeout_insert msecs first timeout (t # ts))) = insert (tm_addr timeout) (set (map tm_addr (t # ts)))"
  "length (timeout_insert msecs first timeout (t # ts)) = Suc (length (t # ts))"
proof (induction ts arbitrary: t timeout)
  case (Cons t1 ts)
  { case 1 show ?case using Cons.IH(1) by (simp add: Let_def insert_commute) }
  { case 2 show ?case using Cons.IH(2) by (simp add: Let_def) }
qed (auto simp: Let_def)

text \<open>
  The state invariant: the nodes are exactly the elements handed out by the pool, and the due
  times fit the 32-bit time fields.
\<close>

definition timers_inv :: "memp_desc list \<Rightarrow> 'a timeouts_state_scheme \<Rightarrow> bool" where
  "timers_inv memp_pools s \<longleftrightarrow> MEMP_SYS_TIMEOUT < length memp_pools
     \<and> distinct (map tm_addr (next_timeout s))
     \<and> memp_inv (memp_pools ! MEMP_SYS_TIMEOUT) (set (map tm_addr (next_timeout s))) (timeo_memp s)
     \<and> total_time (next_timeout s) < 2 ^ 32"

lemma last_due: "ts \<noteq> [] \<Longrightarrow> fst (last (dues b ts)) = b + total_time ts"
proof (induction ts arbitrary: b)
  case (Cons t ts)
  then show ?case by (cases "ts = []") (auto simp: add.assoc)
qed simp



section \<open>Setting a timeout\<close>

text \<open>The effect of \<open>sys_timeout\<close> on the due times, for a call \<open>diff\<close> after \<open>timeouts_last_time\<close>.\<close>

definition schedule :: "nat \<Rightarrow> nat \<Rightarrow> timeout_fn option \<times> ptr \<Rightarrow> due list \<Rightarrow> due list" where
  "schedule msecs diff x D =
     (case D of
        [] \<Rightarrow> [(msecs, x)]
      | (first, _) # _ \<Rightarrow>
          if first > msecs then (msecs + diff, x) # delay diff D
          else if diff \<le> fst (last D) then insert_due (msecs + diff, x) D
          else D @ [(fst (last D) + msecs + first, x)])"

lemma schedule_exact: "sorted (map fst D) \<Longrightarrow> schedule msecs 0 x D = insert_due (msecs, x) D"
  by (cases D) (auto simp: schedule_def insert_due_def delay_def case_prod_beta' dropWhile_eq_self_iff split: prod.splits)

definition call_diff :: "'a timeouts_state_scheme \<Rightarrow> nat" where
  "call_diff s = (if next_timeout s = [] then 0 else elapsed s)"

lemma sys_timeout_alloc:
  assumes "timers_inv memp_pools s" and "length (next_timeout s) < unat (desc_num (memp_pools ! MEMP_SYS_TIMEOUT))"
  obtains a m where "memp_malloc memp_pools MEMP_SYS_TIMEOUT (timeo_memp s) = Some (Some a, m)"
    "a \<notin> set (map tm_addr (next_timeout s))"
    "memp_inv (memp_pools ! MEMP_SYS_TIMEOUT) (insert a (set (map tm_addr (next_timeout s)))) m"
proof -
  have inv: "memp_inv (memp_pools ! MEMP_SYS_TIMEOUT) (set (map tm_addr (next_timeout s))) (timeo_memp s)"
    and len: "MEMP_SYS_TIMEOUT < length memp_pools" and "distinct (map tm_addr (next_timeout s))"
    using assms(1) by (simp_all add: timers_inv_def)
  then have "card (set (map tm_addr (next_timeout s))) < unat (desc_num (memp_pools ! MEMP_SYS_TIMEOUT))"
    using assms(2) distinct_card by fastforce
  with inv len that show ?thesis
    by (cases rule: memp.alloc_cases) (auto simp: memp_malloc_def)
qed

lemma unat_sum_u32: "unat (a :: u32) + unat b < 2 ^ 32 \<Longrightarrow> unat (a + b) = unat a + unat b"
  by (simp add: unat_add_u32)

lemma insert_due_Cons: "fst y \<le> fst x \<Longrightarrow> insert_due x (y # D) = y # insert_due x D"
  by (simp add: insert_due_def)

lemma total_time_from_dues: "total_time ts = (if ts = [] then 0 else fst (last (dues 0 ts)))"
  by (simp add: last_due)

lemma set_insert_due: "set (insert_due x D) = insert x (set D)"
proof -
  have "set (takeWhile P D) \<union> set (dropWhile P D) = set D" for P
    by (metis set_append takeWhile_dropWhile_id)
  then show ?thesis by (auto simp: insert_due_def)
qed

lemma insert_due_nonempty [simp]: "insert_due x D \<noteq> []"
  by (simp add: insert_due_def)

lemma last_delay: "D \<noteq> [] \<Longrightarrow> fst (last (delay k D)) = fst (last D) + k"
  by (simp add: delay_def last_map case_prod_beta')


lemma schedule_bound:
  assumes D: "\<And>y. y \<in> set D \<Longrightarrow> fst y \<le> n" and y: "y \<in> set (schedule msecs diff x D)"
  shows "fst y \<le> n + msecs + diff"
proof (cases D)
  case Nil
  with y show ?thesis by (simp add: schedule_def)
next
  case (Cons z E)
  obtain first w where z: "z = (first, w)" by (cases z)
  have last: "fst (last D) \<le> n" using D last_in_set [of D] Cons by simp
  consider "y \<in> set ((msecs + diff, x) # delay diff D)" | "y = (msecs + diff, x) \<or> y \<in> set D"
    | "diff > fst (last D)" "first \<le> msecs" "y = (fst (last D) + msecs + first, x)"
    using y by (auto simp: schedule_def Cons z set_insert_due split: if_splits)
  then show ?thesis
  proof cases
    case 1
    then show ?thesis using D by (force simp: delay_def)
  next
    case 2
    then show ?thesis using D by fastforce
  next
    case 3
    with 3 last D [of z] show ?thesis by (simp add: Cons z)
  qed
qed

lemma sys_timeout_eq:
  assumes inv: "timers_inv memp_pools s" and "length (next_timeout s) < unat (desc_num (memp_pools ! MEMP_SYS_TIMEOUT))"
    and bound: "total_time (next_timeout s) + unat msecs + call_diff s < 2 ^ 32"
  shows "\<exists>s'. sys_timeout memp_pools msecs handler arg s = Some s' \<and> timers_inv memp_pools s'
    \<and> pending s' = schedule (unat msecs) (call_diff s) (handler, arg) (pending s)
    \<and> length (next_timeout s') = Suc (length (next_timeout s))
    \<and> timeouts_last_time s' = (if next_timeout s = [] then clock s else timeouts_last_time s)
    \<and> clock s' = clock s \<and> tcpip_tcp_timer_active s' = tcpip_tcp_timer_active s
    \<and> timeouts_state.more s' = timeouts_state.more s"
proof -
  obtain a m where a: "memp_malloc memp_pools MEMP_SYS_TIMEOUT (timeo_memp s) = Some (Some a, m)"
    "a \<notin> set (map tm_addr (next_timeout s))"
    "memp_inv (memp_pools ! MEMP_SYS_TIMEOUT) (insert a (set (map tm_addr (next_timeout s)))) m"
    using sys_timeout_alloc [OF assms(1,2)] by blast
  have len: "MEMP_SYS_TIMEOUT < length memp_pools" and dist: "distinct (map tm_addr (next_timeout s))"
    using inv by (simp_all add: timers_inv_def)
  define new where "new = \<lparr>tm_addr = a, tm_time = msecs + (if next_timeout s = [] then 0 else sys_now s - timeouts_last_time s),
    tm_h = handler, tm_arg = arg\<rparr>"
  define ts' where "ts' = (case next_timeout s of [] \<Rightarrow> [new]
    | t # ts \<Rightarrow> if tm_time t > msecs then new # t\<lparr>tm_time := tm_time t - msecs\<rparr> # ts
        else timeout_insert msecs (tm_time t) new (t # ts))"
  define s' where "s' = s\<lparr>timeo_memp := m, next_timeout := ts',
    timeouts_last_time := (if next_timeout s = [] then clock s else timeouts_last_time s)\<rparr>"
  have s': "sys_timeout memp_pools msecs handler arg s = Some s'"
    using a(1) by (auto simp: sys_timeout_def s'_def ts'_def new_def sys_now_def split: list.splits)
  have new: "unat (tm_time new) = unat msecs + call_diff s"
    using bound by (auto simp: new_def call_diff_def elapsed_def intro!: unat_sum_u32)
  have "tm_addr new = a" by (simp add: new_def)
  have addrs: "set (map tm_addr ts') = insert a (set (map tm_addr (next_timeout s)))"
    and lts': "length ts' = Suc (length (next_timeout s))"
    using timeout_insert_addrs [of msecs _ new] \<open>tm_addr new = a\<close>
    by (simp_all add: ts'_def del: set_map split: list.splits)
  have dues: "dues 0 ts' = schedule (unat msecs) (call_diff s) (handler, arg) (pending s)"
  proof (cases "next_timeout s")
    case Nil
    with new show ?thesis by (simp add: ts'_def pending_def schedule_def call_diff_def new_def)
  next
    case (Cons t ts)
    show ?thesis
    proof (cases "tm_time t > msecs")
      case True
      then have "unat msecs < unat (tm_time t)" "unat (tm_time t - msecs) = unat (tm_time t) - unat msecs"
        by (simp_all add: word_less_nat_alt unat_sub order_less_imp_le)
      with True Cons new dues_shift [of "unat (tm_time t)" "call_diff s" ts] show ?thesis
        by (simp add: ts'_def pending_def schedule_def new_def add_ac)
    next
      case False
      then have le: "unat (tm_time t) \<le> unat msecs" by (simp add: word_le_nat_alt not_less)
      with new have "tm_time t \<le> tm_time new" by (simp add: word_le_nat_alt)
      note ins = timeout_insert_dues [OF this, of 0 msecs "tm_time t" ts]
      have "fst (last (pending s)) = total_time (t # ts)"
        using last_due [of "t # ts" 0] Cons by (simp add: pending_def)
      moreover have "unat (msecs + tm_time t) = unat msecs + unat (tm_time t)"
        using bound Cons by (intro unat_sum_u32) simp
      ultimately show ?thesis
        using False Cons ins new le
        by (simp add: ts'_def pending_def schedule_def) (simp add: new_def add_ac)
    qed
  qed
  have "total_time ts' < 2 ^ 32"
  proof -
    have "fst y \<le> total_time (next_timeout s)" if "y \<in> set (pending s)" for y
      using that dues_range [of "fst y" "snd y" 0 "next_timeout s"] by (simp add: pending_def)
    then have "fst y \<le> total_time (next_timeout s) + unat msecs + call_diff s" if "y \<in> set (dues 0 ts')" for y
      using schedule_bound [of "pending s"] that dues by metis
    from this [of "last (dues 0 ts')"] bound lts' show ?thesis
      using total_time_from_dues [of ts'] by fastforce
  qed
  then have "timers_inv memp_pools s'"
    using len a dist addrs lts' distinct_card [OF dist] card_insert_disjoint [OF _ a(2)]
    by (simp add: timers_inv_def s'_def card_distinct)
  with s' dues lts' show ?thesis by (simp add: s'_def pending_def)
qed



section \<open>Cancelling a timeout\<close>

fun remove_due :: "timeout_fn option \<times> ptr \<Rightarrow> due list \<Rightarrow> due list" where
  "remove_due x [] = []"
| "remove_due x (y # D) = (if snd y = x then D else y # remove_due x D)"

lemma untimeout_walk_dues:
  assumes "total_time ts < 2 ^ 32"
  shows "dues b (fst (untimeout_walk handler arg ts)) = remove_due (handler, arg) (dues b ts)"
  using assms
proof (induction ts arbitrary: b)
  case (Cons t ts)
  show ?case
  proof (cases "tm_h t = handler \<and> tm_arg t = arg")
    case True
    show ?thesis
    proof (cases ts)
      case Nil
      with True show ?thesis by simp
    next
      case (Cons t1 ts')
      with Cons.prems have "unat (tm_time t1 + tm_time t) = unat (tm_time t1) + unat (tm_time t)"
        by (intro unat_sum_u32) simp
      with True Cons show ?thesis by (simp add: add_ac)
    qed
  next
    case False
    with Cons.IH [of "b + unat (tm_time t)"] Cons.prems show ?thesis
      by (auto simp: split_beta)
  qed
qed simp

lemma untimeout_walk_Some:
  "untimeout_walk handler arg ts = (ts', Some a) \<Longrightarrow> distinct (map tm_addr ts) \<Longrightarrow>
   a \<in> set (map tm_addr ts) \<and> set (map tm_addr ts') = set (map tm_addr ts) - {a} \<and> distinct (map tm_addr ts')
   \<and> total_time ts' \<le> total_time ts"
proof (induction ts arbitrary: ts')
  case (Cons t ts)
  show ?case
  proof (cases "tm_h t = handler \<and> tm_arg t = arg")
    case True
    have "unat (x + y) \<le> unat x + unat y" for x y :: u32
      unfolding unat_add_u32 by (rule mod_less_eq_dividend)
    with True Cons.prems show ?thesis
      by (auto split: list.splits simp: add_ac intro: order_trans [OF add_right_mono])
  next
    case False
    then obtain us where "untimeout_walk handler arg ts = (us, Some a)" "ts' = t # us"
      using Cons.prems(1) by (auto split: prod.splits if_splits)
    with Cons.IH [of us] Cons.prems(2) show ?thesis by auto
  qed
qed simp

lemma untimeout_walk_None: "snd (untimeout_walk handler arg ts) = None \<Longrightarrow> fst (untimeout_walk handler arg ts) = ts"
  by (induction ts) (auto split: prod.splits if_splits)

lemma memp_free_timeout:
  assumes "memp_inv (memp_pools ! MEMP_SYS_TIMEOUT) A m" and "a \<in> A" and "MEMP_SYS_TIMEOUT < length memp_pools"
  obtains m' where "memp_free memp_pools MEMP_SYS_TIMEOUT (Some a) m = Some m'"
    "memp_inv (memp_pools ! MEMP_SYS_TIMEOUT) (A - {a}) m'"
  using memp.release_out [OF assms(1,2)] assms(3) by (auto simp: memp_free_def)

lemma sys_untimeout_eq:
  assumes "timers_inv memp_pools s"
  shows "\<exists>s'. sys_untimeout memp_pools handler arg s = Some s' \<and> timers_inv memp_pools s'
    \<and> pending s' = remove_due (handler, arg) (pending s)
    \<and> timeouts_last_time s' = timeouts_last_time s \<and> clock s' = clock s"
proof -
  obtain ts' r where walk: "untimeout_walk handler arg (next_timeout s) = (ts', r)" by fastforce
  have dues: "dues 0 ts' = remove_due (handler, arg) (pending s)"
    using untimeout_walk_dues [of "next_timeout s" 0 handler arg] assms walk
    by (simp add: timers_inv_def pending_def)
  show ?thesis
  proof (cases r)
    case None
    with walk have "ts' = next_timeout s" using untimeout_walk_None [of handler arg "next_timeout s"] by simp
    with assms dues walk None show ?thesis by (simp add: sys_untimeout_def pending_def)
  next
    case (Some a)
    with walk untimeout_walk_Some [of handler arg "next_timeout s" ts' a] assms
    have a: "a \<in> set (map tm_addr (next_timeout s))" "set (map tm_addr ts') = set (map tm_addr (next_timeout s)) - {a}"
      "distinct (map tm_addr ts')" "total_time ts' < 2 ^ 32"
      by (auto simp: timers_inv_def)
    from assms have inv: "memp_inv (memp_pools ! MEMP_SYS_TIMEOUT) (set (map tm_addr (next_timeout s))) (timeo_memp s)"
      "MEMP_SYS_TIMEOUT < length memp_pools" by (simp_all add: timers_inv_def)
    obtain m' where "memp_free memp_pools MEMP_SYS_TIMEOUT (Some a) (timeo_memp s) = Some m'"
      "memp_inv (memp_pools ! MEMP_SYS_TIMEOUT) (set (map tm_addr ts')) m'"
      using memp_free_timeout [OF inv(1) a(1) inv(2)] a(2) by metis
    with a inv(2) walk Some dues show ?thesis
      by (auto simp: sys_untimeout_def timers_inv_def pending_def)
  qed
qed



section \<open>Expiry of one-shot timeouts\<close>

definition same_timers :: "'a timeouts_state_scheme \<Rightarrow> 'a timeouts_state_scheme \<Rightarrow> bool" where
  "same_timers s s' \<longleftrightarrow> next_timeout s' = next_timeout s \<and> timeouts_last_time s' = timeouts_last_time s
     \<and> timeo_memp s' = timeo_memp s \<and> clock s' = clock s"

lemma same_timers_inv: "same_timers s s' \<Longrightarrow> timers_inv memp_pools s' \<longleftrightarrow> timers_inv memp_pools s"
  by (simp add: same_timers_def timers_inv_def)

text \<open>The state in which the handler of the first timeout \<open>t\<close> runs.\<close>

definition popped :: "memp_state \<Rightarrow> 'a timeouts_state_scheme \<Rightarrow> 'a timeouts_state_scheme" where
  "popped m s = s\<lparr>timeouts_last_time := timeouts_last_time s + tm_time (hd (next_timeout s)),
     next_timeout := tl (next_timeout s), timeo_memp := m\<rparr>"

lemma popped_simps [simp]:
  "next_timeout (popped m s) = tl (next_timeout s)" "clock (popped m s) = clock s"
  "timeouts_last_time (popped m s) = timeouts_last_time s + tm_time (hd (next_timeout s))"
  "timeo_memp (popped m s) = m" "timeouts_state.more (popped m s) = timeouts_state.more s"
  by (simp_all add: popped_def)

lemma check_step_idle:
  assumes "env_free_ooseq env s = Some s0" and "same_timers s s0"
    and "next_timeout s = [] \<or> \<not> tm_time (hd (next_timeout s)) \<le> diff"
  shows "check_timeouts_step env diff s = Some (False, diff, s0)"
  using assms by (cases "next_timeout s") (auto simp: check_timeouts_step_def same_timers_def)

lemma check_step_due:
  assumes "timers_inv (env_pools env) s" and "env_free_ooseq env s = Some s0" and "same_timers s s0"
    and "next_timeout s = t # ts" and "tm_time t \<le> diff"
  obtains m where "timers_inv (env_pools env) (popped m s0)"
    "check_timeouts_step env diff s =
       Option.bind (case tm_h t of None \<Rightarrow> Some (popped m s0) | Some h \<Rightarrow> call_handler env h (tm_arg t) (popped m s0))
         (\<lambda>s'. Some (True, diff - tm_time t, s'))"
proof -
  have inv: "timers_inv (env_pools env) s0" and next0: "next_timeout s0 = t # ts"
    using assms(1,4) same_timers_inv [OF assms(3)] assms(3) [unfolded same_timers_def] by simp_all
  obtain m where m: "memp_free (env_pools env) MEMP_SYS_TIMEOUT (Some (tm_addr t)) (timeo_memp s0) = Some m"
    "memp_inv (env_pools env ! MEMP_SYS_TIMEOUT) (set (map tm_addr (next_timeout s0)) - {tm_addr t}) m"
  proof (rule memp_free_timeout [of "env_pools env" "set (map tm_addr (next_timeout s0))" "timeo_memp s0" "tm_addr t"])
    show "tm_addr t \<in> set (map tm_addr (next_timeout s0))" by (simp add: next0)
  qed (use inv in \<open>simp_all add: timers_inv_def\<close>)
  moreover have "set (map tm_addr (next_timeout s0)) - {tm_addr t} = set (map tm_addr ts)"
    using inv next0 by (auto simp: timers_inv_def)
  ultimately have "timers_inv (env_pools env) (popped m s0)"
    using inv next0 by (simp add: timers_inv_def del: set_map)
  moreover have "check_timeouts_step env diff s =
       Option.bind (case tm_h t of None \<Rightarrow> Some (popped m s0) | Some h \<Rightarrow> call_handler env h (tm_arg t) (popped m s0))
         (\<lambda>s'. Some (True, diff - tm_time t, s'))"
    using assms(2,5) next0 m(1) by (simp add: check_timeouts_step_def Let_def popped_def split: option.split)
  ultimately show ?thesis by (rule that)
qed

text \<open>
  An environment whose one-shot handlers do not touch the timers: each returns and leaves one entry
  in the part \<open>log\<close> of the rest of the state.
\<close>

definition logs_calls :: "'a timer_env \<Rightarrow> ('a \<Rightarrow> (nat \<times> ptr) list) \<Rightarrow> bool" where
  "logs_calls env log \<longleftrightarrow>
     (\<forall>s. \<exists>s'. env_free_ooseq env s = Some s' \<and> same_timers s s'
        \<and> log (timeouts_state.more s') = log (timeouts_state.more s)) \<and>
     (\<forall>n arg s. \<exists>s'. env_fn env n arg s = Some s' \<and> same_timers s s'
        \<and> log (timeouts_state.more s') = log (timeouts_state.more s) @ [(n, arg)])"

definition calls_of :: "due list \<Rightarrow> (nat \<times> ptr) list" where
  "calls_of D = concat (map (\<lambda>(d, h, arg). case h of Some (Fn n) \<Rightarrow> [(n, arg)] | _ \<Rightarrow> []) D)"

definition one_shot :: "due \<Rightarrow> bool" where
  "one_shot y \<longleftrightarrow> (case fst (snd y) of None \<Rightarrow> True | Some (Fn n) \<Rightarrow> True | _ \<Rightarrow> False)"

lemma calls_of_simps [simp]:
  "calls_of [] = []"
  "calls_of ((d, Some (Fn n), arg) # D) = (n, arg) # calls_of D"
  "calls_of ((d, None, arg) # D) = calls_of D"
  by (simp_all add: calls_of_def)

lemma calls_of_delay [simp]: "calls_of (delay k D) = calls_of D"
  unfolding calls_of_def delay_def map_map comp_def by (rule arg_cong [of _ _ concat], rule map_cong) auto

lemma calls_of_Cons: "calls_of (y # D) = calls_of [y] @ calls_of D"
  by (simp add: calls_of_def)

lemma delay_split:
  "k \<le> n \<Longrightarrow> takeWhile (\<lambda>y. fst y \<le> n) (delay k D) = delay k (takeWhile (\<lambda>y. fst y \<le> n - k) D)"
  "k \<le> n \<Longrightarrow> dropWhile (\<lambda>y. fst y \<le> n) (delay k D) = delay k (dropWhile (\<lambda>y. fst y \<le> n - k) D)"
  by (induction D) (auto simp: delay_def)

lemma delay_delay: "delay j (delay k D) = delay (j + k) D"
  by (simp add: delay_def comp_def case_prod_beta' add_ac)

lemma delay_0 [simp]: "delay 0 D = D"
  by (simp add: delay_def case_prod_beta')

lemma list_all_delay: "list_all one_shot (delay k D) \<longleftrightarrow> list_all one_shot D"
  by (simp add: delay_def list_all_iff one_shot_def case_prod_beta')

lemma pending_Cons:
  "next_timeout s = t # ts \<Longrightarrow>
   pending s = (unat (tm_time t), tm_h t, tm_arg t) # delay (unat (tm_time t)) (dues 0 ts)"
  using dues_shift [of 0 "unat (tm_time t)" ts] by (simp add: pending_def)

lemma logs_calls_ooseq:
  assumes "logs_calls env log"
  obtains s0 where "env_free_ooseq env s = Some s0" "same_timers s s0"
    "log (timeouts_state.more s0) = log (timeouts_state.more s)"
  using assms unfolding logs_calls_def by blast

lemma logs_calls_fn:
  assumes "logs_calls env log"
  obtains s1 where "env_fn env n arg s = Some s1" "same_timers s s1"
    "log (timeouts_state.more s1) = log (timeouts_state.more s) @ [(n, arg)]"
  using assms unfolding logs_calls_def by blast

lemma check_loop_idle:
  assumes "env_free_ooseq env s = Some s0" and "same_timers s s0"
    and "next_timeout s = [] \<or> \<not> tm_time (hd (next_timeout s)) \<le> diff"
  shows "check_timeouts_loop env diff s = Some s0"
  using check_step_idle [OF assms] by (subst check_timeouts_loop.simps) simp

lemma check_step_one_shot:
  assumes "timers_inv (env_pools env) s" and "logs_calls env log" and "list_all one_shot (pending s)"
    and "next_timeout s = t # ts" and "tm_time t \<le> diff"
  obtains s1 where "check_timeouts_step env diff s = Some (True, diff - tm_time t, s1)"
    "timers_inv (env_pools env) s1" "next_timeout s1 = ts" "clock s1 = clock s"
    "timeouts_last_time s1 = timeouts_last_time s + tm_time t" "list_all one_shot (pending s1)"
    "log (timeouts_state.more s1) = log (timeouts_state.more s) @ calls_of [(unat (tm_time t), tm_h t, tm_arg t)]"
proof -
  obtain s0 where s0: "env_free_ooseq env s = Some s0" "same_timers s s0"
    "log (timeouts_state.more s0) = log (timeouts_state.more s)" by (rule logs_calls_ooseq [OF assms(2)])
  obtain m where m: "timers_inv (env_pools env) (popped m s0)"
    "check_timeouts_step env diff s =
     Option.bind (case tm_h t of None \<Rightarrow> Some (popped m s0) | Some h \<Rightarrow> call_handler env h (tm_arg t) (popped m s0))
       (\<lambda>s'. Some (True, diff - tm_time t, s'))"
    by (rule check_step_due [OF assms(1) s0(1,2) assms(4,5)])
  obtain s1 where s1: "(case tm_h t of None \<Rightarrow> Some (popped m s0) | Some h \<Rightarrow> call_handler env h (tm_arg t) (popped m s0)) = Some s1"
    "same_timers (popped m s0) s1"
    "log (timeouts_state.more s1) = log (timeouts_state.more s) @ calls_of [(unat (tm_time t), tm_h t, tm_arg t)]"
  proof (cases "tm_h t")
    case None
    with that [of "popped m s0"] s0(3) show ?thesis by (simp add: same_timers_def)
  next
    case (Some h)
    with assms(3) pending_Cons [OF assms(4)] obtain n where n: "h = Fn n" by (cases h) (auto simp: one_shot_def)
    obtain s1 where "env_fn env n (tm_arg t) (popped m s0) = Some s1" "same_timers (popped m s0) s1"
      "log (timeouts_state.more s1) = log (timeouts_state.more (popped m s0)) @ [(n, tm_arg t)]"
      by (rule logs_calls_fn [OF assms(2)])
    with that [of s1] Some n s0(3) show ?thesis by (simp add: call_handler_def)
  qed
  have "next_timeout s1 = ts" "timeouts_last_time s1 = timeouts_last_time s + tm_time t" "clock s1 = clock s"
    using s1(2) s0(2) assms(4) by (simp_all add: same_timers_def)
  moreover from this have "list_all one_shot (pending s1)"
    using assms(3) pending_Cons [OF assms(4)] by (simp add: list_all_delay pending_def)
  ultimately show ?thesis
    using that [of s1] m s1 same_timers_inv [OF s1(2)] by simp
qed

lemma check_loop_fires:
  assumes "timers_inv (env_pools env) s" and "logs_calls env log" and "list_all one_shot (pending s)"
  shows "\<exists>s' k. check_timeouts_loop env diff s = Some s' \<and> timers_inv (env_pools env) s' \<and> clock s' = clock s
    \<and> log (timeouts_state.more s') =
        log (timeouts_state.more s) @ calls_of (takeWhile (\<lambda>y. fst y \<le> unat diff) (pending s))
    \<and> delay k (pending s') = dropWhile (\<lambda>y. fst y \<le> unat diff) (pending s)
    \<and> timeouts_last_time s' = timeouts_last_time s + of_nat k \<and> k \<le> unat diff"
  using assms
proof (induction "next_timeout s" arbitrary: s diff rule: list.induct)
  case Nil
  obtain s0 where s0: "env_free_ooseq env s = Some s0" "same_timers s s0"
    "log (timeouts_state.more s0) = log (timeouts_state.more s)" by (rule logs_calls_ooseq [OF Nil.prems(2)])
  moreover have "pending s0 = []" "pending s = []"
    using s0(2) Nil.hyps by (simp_all add: same_timers_def pending_def)
  ultimately show ?case
    using check_loop_idle [OF s0(1,2), of diff] Nil.hyps Nil.prems(1) same_timers_inv [OF s0(2)]
    by (intro exI [of _ s0] exI [of _ 0]) (simp add: same_timers_def)
next
  case (Cons t ts)
  note nxt = Cons.hyps(2) [symmetric]
  show ?case
  proof (cases "tm_time t \<le> diff")
    case False
    obtain s0 where s0: "env_free_ooseq env s = Some s0" "same_timers s s0"
      "log (timeouts_state.more s0) = log (timeouts_state.more s)" by (rule logs_calls_ooseq [OF Cons.prems(2)])
    have "pending s0 = pending s" using s0(2) by (simp add: same_timers_def pending_def)
    with s0 check_loop_idle [OF s0(1,2), of diff] False nxt pending_Cons [OF nxt] Cons.prems(1) same_timers_inv [OF s0(2)]
    show ?thesis
      by (intro exI [of _ s0] exI [of _ 0]) (simp add: same_timers_def word_le_nat_alt)
  next
    case True
    then have le: "unat (tm_time t) \<le> unat diff" and sub: "unat (diff - tm_time t) = unat diff - unat (tm_time t)"
      by (simp_all add: word_le_nat_alt unat_sub)
    obtain s1 where s1: "check_timeouts_step env diff s = Some (True, diff - tm_time t, s1)"
      "timers_inv (env_pools env) s1" "next_timeout s1 = ts" "clock s1 = clock s"
      "timeouts_last_time s1 = timeouts_last_time s + tm_time t" "list_all one_shot (pending s1)"
      "log (timeouts_state.more s1) = log (timeouts_state.more s) @ calls_of [(unat (tm_time t), tm_h t, tm_arg t)]"
      by (rule check_step_one_shot [OF Cons.prems nxt True])
    obtain s' k where IH: "check_timeouts_loop env (diff - tm_time t) s1 = Some s'"
      "timers_inv (env_pools env) s'" "clock s' = clock s1"
      "log (timeouts_state.more s') = log (timeouts_state.more s1)
         @ calls_of (takeWhile (\<lambda>y. fst y \<le> unat (diff - tm_time t)) (pending s1))"
      "delay k (pending s') = dropWhile (\<lambda>y. fst y \<le> unat (diff - tm_time t)) (pending s1)"
      "timeouts_last_time s' = timeouts_last_time s1 + of_nat k" "k \<le> unat (diff - tm_time t)"
      using Cons.hyps(1) [OF s1(3) [symmetric] s1(2) Cons.prems(2) s1(6)] by blast
    have pend: "pending s = (unat (tm_time t), tm_h t, tm_arg t) # delay (unat (tm_time t)) (pending s1)"
      using pending_Cons [OF nxt] s1(3) by (simp add: pending_def)
    have "calls_of (takeWhile (\<lambda>y. fst y \<le> unat diff) (pending s)) = calls_of [(unat (tm_time t), tm_h t, tm_arg t)]
        @ calls_of (takeWhile (\<lambda>y. fst y \<le> unat (diff - tm_time t)) (pending s1))"
      unfolding pend sub using le by (simp add: delay_split(1) [OF le] calls_of_Cons [of _ "delay k E" for k E])
    moreover have "check_timeouts_loop env diff s = Some s'"
      using s1(1) IH(1) by (simp add: check_timeouts_loop.simps [of env diff s])
    moreover have "delay (unat (tm_time t) + k) (pending s') = dropWhile (\<lambda>y. fst y \<le> unat diff) (pending s)"
      using IH(5) pend le sub by (simp add: delay_split(2) [OF le] flip: delay_delay)
    ultimately show ?thesis
      using IH s1(4,5,7) le sub by (intro exI [of _ s'] exI [of _ "unat (tm_time t) + k"]) simp
  qed
qed


section \<open>Cyclic timers\<close>

definition cyclic :: "due \<Rightarrow> bool" where
  "cyclic y \<longleftrightarrow> (case snd y of (Some Fn_cyclic_timer, Some i) \<Rightarrow> i < length lwip_cyclic_timers | _ \<Rightarrow> False)"

text \<open>Protocol timers that leave the list of timeouts alone.\<close>

definition quiet_env :: "'a timer_env \<Rightarrow> bool" where
  "quiet_env env \<longleftrightarrow> (\<forall>s. \<exists>s'. env_free_ooseq env s = Some s' \<and> same_timers s s')
     \<and> (\<forall>i s. \<exists>s'. env_tmr env i s = Some s' \<and> same_timers s s')"

lemma cyclic_interval: "i < length lwip_cyclic_timers \<Longrightarrow> 0 < unat (lwip_cyclic_timers ! i) \<and> unat (lwip_cyclic_timers ! i) \<le> 60000"
proof -
  have "list_all (\<lambda>v. 0 < unat v \<and> unat v \<le> 60000) lwip_cyclic_timers" by (simp add: lwip_cyclic_timers_def)
  then show "i < length lwip_cyclic_timers \<Longrightarrow> 0 < unat (lwip_cyclic_timers ! i) \<and> unat (lwip_cyclic_timers ! i) \<le> 60000"
    by (simp only: list_all_length)
qed

text \<open>
  How much of the elapsed time \<open>d\<close> is still to be worked off, over all timeouts. Every pass of the loop
  decreases it, so the loop ends.
\<close>

definition backlog :: "nat \<Rightarrow> due list \<Rightarrow> nat" where
  "backlog d D = sum_list (map (\<lambda>y. Suc d - fst y) D)"

lemma backlog_simps [simp]:
  "backlog d [] = 0" "backlog d (y # D) = (Suc d - fst y) + backlog d D"
  "backlog d (D @ E) = backlog d D + backlog d E"
  by (simp_all add: backlog_def)

lemma backlog_delay: "backlog d (delay k D) = backlog (d - k) D" if "k \<le> d"
  using that by (induction D) (auto simp: delay_def)

lemma backlog_delay_le: "backlog d (delay k D) \<le> backlog d D"
  by (induction D) (auto simp: delay_def intro!: add_mono)

lemma mset_insert_due: "mset (insert_due x D) = add_mset x (mset D)"
proof -
  have "mset (takeWhile P D) + mset (dropWhile P D) = mset D" for P
    by (metis mset_append takeWhile_dropWhile_id)
  then show ?thesis by (simp add: insert_due_def)
qed

lemma backlog_insert_due: "backlog d (insert_due x D) = (Suc d - fst x) + backlog d D"
proof -
  have "backlog d E = sum_mset (image_mset (\<lambda>y. Suc d - fst y) (mset E))" for E
    by (simp add: backlog_def flip: sum_mset_sum_list)
  then show ?thesis by (simp add: mset_insert_due)
qed

lemma schedule_cases:
  assumes "D \<noteq> []"
  obtains (first) "schedule msecs diff x D = (msecs + diff, x) # delay diff D" "msecs < fst (hd D)"
  | (inside) "schedule msecs diff x D = insert_due (msecs + diff, x) D" "fst (hd D) \<le> msecs"
  | (beyond) "schedule msecs diff x D = D @ [(fst (last D) + msecs + fst (hd D), x)]" "fst (hd D) \<le> msecs" "fst (last D) < diff"
proof -
  obtain d w E where D: "D = (d, w) # E" using assms by (cases D) auto
  show ?thesis
  proof (cases "msecs < d")
    case True
    then show ?thesis using first by (simp add: D schedule_def)
  next
    case False
    then show ?thesis using inside beyond by (cases "diff \<le> fst (last D)") (simp_all add: D schedule_def)
  qed
qed

lemma backlog_schedule:
  assumes "0 < msecs" and "D \<noteq> []"
  shows "backlog d (schedule msecs d x D) < Suc d + backlog d D"
  using assms(2)
proof (cases rule: schedule_cases [where msecs = msecs and diff = d and x = x])
  case first
  with assms backlog_delay_le [of d d D] show ?thesis by simp
next
  case inside
  with assms show ?thesis by (simp add: backlog_insert_due)
next
  case beyond
  with assms show ?thesis by simp
qed

lemma map_snd_delay: "map snd (delay k D) = map snd D"
  by (simp add: delay_def comp_def case_prod_beta')

lemma mset_schedule: "mset (map snd (schedule msecs diff x D)) = add_mset x (mset (map snd D))"
proof (cases "D = []")
  case False
  then show ?thesis
  proof (cases rule: schedule_cases [where msecs = msecs and diff = diff and x = x])
    case first
    then show ?thesis by (simp only: map_snd_delay list.map snd_conv mset.simps)
  next
    case inside
    then show ?thesis by (simp add: mset_insert_due)
  next
    case beyond
    then show ?thesis by simp
  qed
qed (simp add: schedule_def)

lemma length_schedule: "length (schedule msecs diff x D) = Suc (length D)"
  using mset_schedule [of msecs diff x D] by (metis length_map size_add_mset size_mset)

text \<open>Re-arming a cyclic timer from its callback, when other timeouts are still pending.\<close>

lemma cyclic_timer_rearms:
  assumes "timers_inv (env_pools env) s" and "quiet_env env" and "next_timeout s \<noteq> []"
    and "length (next_timeout s) < unat (desc_num (env_pools env ! MEMP_SYS_TIMEOUT))"
    and "total_time (next_timeout s) + elapsed s + 60000 < 2 ^ 32" and "i < length lwip_cyclic_timers"
  obtains s' where "cyclic_timer env (Some i) s = Some s'" "timers_inv (env_pools env) s'"
    "pending s' = schedule (unat (lwip_cyclic_timers ! i)) (elapsed s) (Some Fn_cyclic_timer, Some i) (pending s)"
    "clock s' = clock s" "timeouts_last_time s' = timeouts_last_time s"
proof -
  obtain s0 where s0: "env_tmr env i s = Some s0" "same_timers s s0"
    using assms(2) unfolding quiet_env_def by blast
  have same: "next_timeout s0 = next_timeout s" "elapsed s0 = elapsed s" "pending s0 = pending s"
    "clock s0 = clock s" "timeouts_last_time s0 = timeouts_last_time s"
    using s0(2) by (simp_all add: same_timers_def elapsed_def sys_now_def pending_def)
  have "timers_inv (env_pools env) s0" using same_timers_inv [OF s0(2)] assms(1) by simp
  moreover have "call_diff s0 = elapsed s" using same assms(3) by (simp add: call_diff_def)
  ultimately show ?thesis
    using sys_timeout_eq [of "env_pools env" s0 "lwip_cyclic_timers ! i" "Some Fn_cyclic_timer" "Some i"]
      assms(3-6) same cyclic_interval [OF assms(6)] s0(1) that
    by (auto simp: cyclic_timer_def)
qed


text \<open>The situation in the loop when all pending timeouts are cyclic timers.\<close>

definition cyclic_inv :: "'a timer_env \<Rightarrow> u32 \<Rightarrow> 'a timeouts_state_scheme \<Rightarrow> bool" where
  "cyclic_inv env diff s \<longleftrightarrow> timers_inv (env_pools env) s \<and> list_all cyclic (pending s)
     \<and> 2 \<le> length (next_timeout s) \<and> length (next_timeout s) \<le> unat (desc_num (env_pools env ! MEMP_SYS_TIMEOUT))
     \<and> clock s - timeouts_last_time s = diff"

definition room :: "u32 \<Rightarrow> 'a timeouts_state_scheme \<Rightarrow> bool" where
  "room diff s \<longleftrightarrow> total_time (next_timeout s) + unat diff + 60000 < 2 ^ 32 \<and> 3 * unat diff + 120000 < 2 ^ 32"

lemma length_pending [simp]: "length (pending s) = length (next_timeout s)"
proof -
  have "length (dues b ts) = length ts" for b ts by (induction ts arbitrary: b) auto
  then show ?thesis by (simp add: pending_def)
qed

lemma total_time_pending: "next_timeout s \<noteq> [] \<Longrightarrow> total_time (next_timeout s) = fst (last (pending s))"
  using last_due [of "next_timeout s" 0] by (simp add: pending_def)

lemma pending_le_total: "y \<in> set (pending s) \<Longrightarrow> fst y \<le> total_time (next_timeout s)"
  using dues_range [of "fst y" "snd y" 0 "next_timeout s"] by (simp add: pending_def)

lemma list_all_snd_mset:
  assumes "mset (map snd D) = mset (map snd E)" and "list_all (\<lambda>y. P (snd y)) D"
  shows "list_all (\<lambda>y. P (snd y)) E"
proof -
  have "snd ` set E = snd ` set D" using mset_eq_setD [OF assms(1)] by simp
  moreover have "\<forall>x \<in> snd ` set D. P x" using assms(2) by (simp add: list_all_iff)
  ultimately have "\<forall>x \<in> snd ` set E. P x" by simp
  then show ?thesis by (simp add: list_all_iff)
qed

lemma cyclic_snd: "list_all cyclic D \<longleftrightarrow> list_all (\<lambda>y. (\<lambda>x. cyclic (0, x)) (snd y)) D"
  by (simp add: list_all_iff cyclic_def)

lemma quiet_env_ooseq:
  assumes "quiet_env env"
  obtains s0 where "env_free_ooseq env s = Some s0" "same_timers s s0"
  using assms unfolding quiet_env_def by blast

lemma cyclic_head:
  assumes "list_all cyclic (pending s)" and "next_timeout s = t # ts"
  obtains i where "tm_h t = Some Fn_cyclic_timer" "tm_arg t = Some i" "i < length lwip_cyclic_timers"
  using assms pending_Cons [OF assms(2)]
  by (auto simp: cyclic_def split: option.splits timeout_fn.splits)

text \<open>The time up to the last timeout after a re-arming that did not come first.\<close>

lemma schedule_total:
  assumes "D \<noteq> []" and "sorted (map fst D)" and "fst (hd D) \<le> msecs"
  shows "fst (last (schedule msecs d x D)) + d \<le> max (fst (last D) + d) (3 * d + msecs)"
proof -
  have "sorted (map fst (butlast D @ [last D]))" using assms(1,2) by simp
  then have "\<forall>y \<in> set (butlast D). fst y \<le> fst (last D)" unfolding map_append sorted_append by simp
  moreover have "set D = insert (last D) (set (butlast D))"
    using assms(1) append_butlast_last_id [of D] by (metis Un_insert_right list.simps(15) set_append sup_bot_right empty_set)
  ultimately have le_last: "fst y \<le> fst (last D)" if "y \<in> set D" for y using that by auto
  from assms(1) show ?thesis
  proof (cases rule: schedule_cases [where msecs = msecs and diff = d and x = x])
    case first
    with assms(3) show ?thesis by simp
  next
    case inside
    have "last (insert_due (msecs + d, x) D) \<in> insert (msecs + d, x) (set D)"
      using last_in_set [OF insert_due_nonempty] by (simp add: set_insert_due)
    with inside le_last show ?thesis by (fastforce simp: max_def)
  next
    case beyond
    with le_last [of "hd D"] assms(1) show ?thesis by simp
  qed
qed


lemma cyclic_step:
  assumes inv: "cyclic_inv env diff s" and "room diff s" and quiet: "quiet_env env"
    and nxt: "next_timeout s = t # ts" and due: "tm_time t \<le> diff"
  obtains s1 where "check_timeouts_step env diff s = Some (True, diff - tm_time t, s1)"
    "cyclic_inv env (diff - tm_time t) s1" "mset (map snd (pending s1)) = mset (map snd (pending s))"
    "clock s1 = clock s" "backlog (unat (diff - tm_time t)) (pending s1) < backlog (unat diff) (pending s)"
    "diff - tm_time t < tm_time (hd (next_timeout s1)) \<or> room (diff - tm_time t) s1"
proof -
  let ?d = "diff - tm_time t" and ?\<tau> = "unat (tm_time t)"
  have \<tau>: "?\<tau> \<le> unat diff" and d: "unat ?d = unat diff - ?\<tau>" using due by (simp_all add: word_le_nat_alt unat_sub)
  have ts: "ts \<noteq> []" using inv nxt by (auto simp: cyclic_inv_def)
  obtain i where i: "tm_h t = Some Fn_cyclic_timer" "tm_arg t = Some i" "i < length lwip_cyclic_timers"
    using cyclic_head [OF _ nxt] inv unfolding cyclic_inv_def by blast
  let ?I = "unat (lwip_cyclic_timers ! i)" and ?x = "(Some Fn_cyclic_timer, Some i)"
  have I: "0 < ?I" "?I \<le> 60000" using cyclic_interval [OF i(3)] by auto
  obtain s0 where s0: "env_free_ooseq env s = Some s0" "same_timers s s0" by (rule quiet_env_ooseq [OF quiet])
  have inv_s: "timers_inv (env_pools env) s" using inv by (simp add: cyclic_inv_def)
  obtain m where m: "timers_inv (env_pools env) (popped m s0)" "check_timeouts_step env diff s =
      Option.bind (cyclic_timer env (Some i) (popped m s0)) (\<lambda>s'. Some (True, ?d, s'))"
    using check_step_due [OF inv_s s0(1,2) nxt due] by (auto simp: i call_handler_def)
  have pop: "next_timeout (popped m s0) = ts" "clock (popped m s0) = clock s" "pending (popped m s0) = dues 0 ts"
    "timeouts_last_time (popped m s0) = timeouts_last_time s + tm_time t" "elapsed (popped m s0) = unat ?d"
    using s0(2) nxt inv by (auto simp: same_timers_def pending_def elapsed_def sys_now_def cyclic_inv_def diff_diff_eq)
  have len: "length ts < unat (desc_num (env_pools env ! MEMP_SYS_TIMEOUT))"
    "total_time ts + unat ?d + 60000 < 2 ^ 32"
    using inv assms(2) nxt d \<tau> by (auto simp: cyclic_inv_def room_def)
  obtain s1 where s1: "cyclic_timer env (Some i) (popped m s0) = Some s1" "timers_inv (env_pools env) s1"
    "pending s1 = schedule ?I (unat ?d) ?x (dues 0 ts)" "clock s1 = clock s"
    "timeouts_last_time s1 = timeouts_last_time s + tm_time t"
    by (rule cyclic_timer_rearms [OF m(1) quiet _ _ _ i(3)]) (use pop ts len in simp_all)
  have pend: "pending s = (?\<tau>, ?x) # delay ?\<tau> (dues 0 ts)" using pending_Cons [OF nxt] i by simp
  have mset: "mset (map snd (pending s1)) = mset (map snd (pending s))"
    unfolding s1(3) mset_schedule pend by (simp only: list.map map_snd_delay snd_conv mset.simps)
  have "length (next_timeout s1) = length (next_timeout s)"
    using mset by (metis length_pending length_map size_mset)
  then have "cyclic_inv env ?d s1"
    using inv s1(2,4,5) list_all_snd_mset [OF mset [symmetric], of "\<lambda>x. cyclic (0, x)"]
    by (auto simp: cyclic_inv_def cyclic_snd [of "pending s"] cyclic_snd [of "pending s1"])
  moreover have "backlog (unat ?d) (pending s1) < backlog (unat diff) (pending s)"
    unfolding s1(3) pend using backlog_schedule [OF I(1), of "dues 0 ts" "unat ?d" ?x] ts \<tau> d
    by (simp add: backlog_delay Suc_diff_le)
  moreover have "?d < tm_time (hd (next_timeout s1)) \<or> room ?d s1"
  proof (cases "?I < fst (hd (dues 0 ts))")
    case True
    then have "fst (hd (pending s1)) = ?I + unat ?d"
      using ts s1(3) by (cases "dues 0 ts") (auto simp: schedule_def split: prod.splits)
    moreover have "fst (hd (pending s1)) = unat (tm_time (hd (next_timeout s1)))"
      using \<open>length (next_timeout s1) = length (next_timeout s)\<close> nxt by (cases "next_timeout s1") (auto simp: pending_def)
    ultimately show ?thesis using I by (simp add: word_less_nat_alt)
  next
    case False
    then have "fst (last (pending s1)) + unat ?d \<le> max (total_time ts + unat ?d) (3 * unat ?d + ?I)"
      using schedule_total [of "dues 0 ts" ?I "unat ?d" ?x] ts last_due [of ts 0] dues_sorted [of 0 ts] s1(3) by simp
    moreover have "total_time (next_timeout s1) = fst (last (pending s1))"
      using \<open>length (next_timeout s1) = length (next_timeout s)\<close> nxt by (intro total_time_pending) auto
    ultimately show ?thesis using len(2) I assms(2) d by (auto simp: room_def max_def split: if_splits)
  qed
  ultimately show ?thesis using that [of s1] m(2) s1(1,4) mset by simp
qed

lemma check_loop_cyclic:
  assumes "cyclic_inv env diff s" and "quiet_env env"
    and "diff < tm_time (hd (next_timeout s)) \<or> room diff s"
  shows "\<exists>s'. check_timeouts_loop env diff s = Some s' \<and> timers_inv (env_pools env) s' \<and> clock s' = clock s
    \<and> mset (map snd (pending s')) = mset (map snd (pending s)) \<and> elapsed s' < fst (hd (pending s'))"
  using assms
proof (induction "backlog (unat diff) (pending s)" arbitrary: s diff rule: less_induct)
  case less
  obtain t ts where nxt: "next_timeout s = t # ts" using less.prems(1) by (cases "next_timeout s") (auto simp: cyclic_inv_def)
  show ?case
  proof (cases "tm_time t \<le> diff")
    case True
    with less.prems(3) nxt have "room diff s" by (auto simp: not_less)
    from cyclic_step [OF less.prems(1) this less.prems(2) nxt True]
    obtain s1 where s1: "check_timeouts_step env diff s = Some (True, diff - tm_time t, s1)"
      "cyclic_inv env (diff - tm_time t) s1" "mset (map snd (pending s1)) = mset (map snd (pending s))"
      "clock s1 = clock s" "backlog (unat (diff - tm_time t)) (pending s1) < backlog (unat diff) (pending s)"
      "diff - tm_time t < tm_time (hd (next_timeout s1)) \<or> room (diff - tm_time t) s1" by blast
    from less.hyps [OF s1(5,2) less.prems(2) s1(6)] s1(1,3,4) show ?thesis
      by (subst check_timeouts_loop.simps) simp
  next
    case False
    obtain s0 where s0: "env_free_ooseq env s = Some s0" "same_timers s s0" by (rule quiet_env_ooseq [OF less.prems(2)])
    have "pending s0 = pending s" "elapsed s0 = unat diff" "clock s0 = clock s"
      using s0(2) less.prems(1) by (simp_all add: same_timers_def pending_def elapsed_def sys_now_def cyclic_inv_def)
    moreover have "timers_inv (env_pools env) s0" using same_timers_inv [OF s0(2)] less.prems(1) by (simp add: cyclic_inv_def)
    ultimately show ?thesis
      using check_loop_idle [OF s0, of diff] False nxt by (simp add: pending_Cons [OF nxt] word_le_nat_alt)
  qed
qed



section \<open>Initialisation\<close>

lemma timeouts_init_loop_eq:
  assumes "timers_inv memp_pools s" and "next_timeout s = [] \<or> clock s = timeouts_last_time s"
    and "length (next_timeout s) + length is \<le> unat (desc_num (memp_pools ! MEMP_SYS_TIMEOUT))"
    and "\<forall>y \<in> set (pending s). fst y \<le> 60000" and "\<forall>i \<in> set is. i < length lwip_cyclic_timers"
  shows "\<exists>s'. timeouts_init_loop memp_pools is s = Some s' \<and> timers_inv memp_pools s' \<and> clock s' = clock s
    \<and> length (next_timeout s') = length (next_timeout s) + length is
    \<and> pending s' = foldl (\<lambda>D i. insert_due (unat (lwip_cyclic_timers ! i), Some Fn_cyclic_timer, Some i) D) (pending s) is"
  using assms
proof (induction "is" arbitrary: s)
  case (Cons i "is")
  let ?v = "lwip_cyclic_timers ! i"
  have v: "unat ?v \<le> 60000" using cyclic_interval [of i] Cons.prems(5) by simp
  have total: "total_time (next_timeout s) \<le> 60000"
    using Cons.prems(4) total_time_pending [of s] last_in_set [of "pending s"]
    by (cases "next_timeout s = []") (auto simp: pending_def)
  have diff: "call_diff s = 0" using Cons.prems(2) by (auto simp: call_diff_def elapsed_def sys_now_def)
  have "schedule (unat ?v) 0 (Some Fn_cyclic_timer, Some i) (pending s) =
      insert_due (unat ?v, Some Fn_cyclic_timer, Some i) (pending s)"
    by (rule schedule_exact) (simp add: pending_def dues_sorted)
  then obtain s1 where s1: "sys_timeout memp_pools ?v (Some Fn_cyclic_timer) (Some i) s = Some s1"
    "timers_inv memp_pools s1" "pending s1 = insert_due (unat ?v, Some Fn_cyclic_timer, Some i) (pending s)"
    "length (next_timeout s1) = Suc (length (next_timeout s))" "clock s1 = clock s" "timeouts_last_time s1 = clock s"
    using sys_timeout_eq [OF Cons.prems(1), of ?v "Some Fn_cyclic_timer" "Some i"] Cons.prems(2,3) v total diff
    by fastforce
  with Cons.IH [of s1] Cons.prems v show ?case by (simp add: set_insert_due)
qed simp

text \<open>The table of timers the stack runs with.\<close>

definition stack_timers :: "due list" where
  "stack_timers = [(100, Some Fn_cyclic_timer, Some 5), (500, Some Fn_cyclic_timer, Some 4),
     (1000, Some Fn_cyclic_timer, Some 1), (1000, Some Fn_cyclic_timer, Some 2), (60000, Some Fn_cyclic_timer, Some 3)]"

lemma stack_timers_eq:
  "foldl (\<lambda>D i. insert_due (unat (lwip_cyclic_timers ! i), Some Fn_cyclic_timer, Some i) D) [] [1..<length lwip_cyclic_timers] = stack_timers"
  by (simp add: lwip_cyclic_timers_def stack_timers_def insert_due_def upt_rec [of 1] upt_rec [of 2] upt_rec [of 3]
      upt_rec [of 4] upt_rec [of 5])

lemma timeouts_init_eq:
  assumes "timers_inv memp_pools s" and "next_timeout s = []"
    and "5 \<le> unat (desc_num (memp_pools ! MEMP_SYS_TIMEOUT))"
  shows "\<exists>s'. sys_timeouts_init memp_pools s = Some s' \<and> timers_inv memp_pools s' \<and> pending s' = stack_timers
    \<and> timeouts_last_time s' = clock s \<and> clock s' = clock s \<and> length (next_timeout s') = 5"
proof -
  have "length [1..<length lwip_cyclic_timers] = 5" by (simp add: lwip_cyclic_timers_def)
  moreover have "pending s = []" using assms(2) by (simp add: pending_def)
  ultimately obtain s' where s': "timeouts_init_loop memp_pools [1..<length lwip_cyclic_timers] s = Some s'"
    "timers_inv memp_pools s'" "clock s' = clock s" "length (next_timeout s') = 5" "pending s' = stack_timers"
    using timeouts_init_loop_eq [OF assms(1), of "[1..<length lwip_cyclic_timers]"] assms(2,3) stack_timers_eq by auto
  then show ?thesis
    by (simp add: sys_timeouts_init_def timers_inv_def pending_def sys_now_def)
qed


section \<open>An environment to apply the properties to\<close>

definition example_timer_pools :: "memp_desc list" where
  "example_timer_pools = replicate 8 \<lparr>desc_id = 0, desc_size = 4, desc_num = 1, desc_base = 0\<rparr>
     @ [\<lparr>desc_id = 8, desc_size = 16, desc_num = 15, desc_base = 4000\<rparr>]"

definition example_timers :: "(nat \<times> ptr) list timeouts_state_scheme" where
  "example_timers = \<lparr>next_timeout = [], timeouts_last_time = 0, tcpip_tcp_timer_active = False,
     timeo_memp = memp_init_pool (example_timer_pools ! MEMP_SYS_TIMEOUT) example_memp, clock = 7, \<dots> = []\<rparr>"

definition example_env :: "(nat \<times> ptr) list timer_env" where
  "example_env = \<lparr>env_pools = example_timer_pools, env_tmr = (\<lambda>i s. Some s),
     env_fn = (\<lambda>n arg s. Some (timeouts_state.more_update (\<lambda>l. l @ [(n, arg)]) s)),
     env_tcp_pcbs = (\<lambda>s. False), env_free_ooseq = (\<lambda>s. Some s)\<rparr>"

lemma example_timers_inv: "timers_inv example_timer_pools example_timers"
proof -
  have "memp_inv (example_timer_pools ! MEMP_SYS_TIMEOUT) {} (memp_init_pool (example_timer_pools ! MEMP_SYS_TIMEOUT) example_memp)"
    by (rule memp_init_pool_inv) (simp_all add: example_memp_def example_timer_pools_def nth_append desc_ok_def)
  then show ?thesis by (simp add: timers_inv_def example_timers_def example_timer_pools_def)
qed

lemma example_pool_size: "unat (desc_num (example_timer_pools ! MEMP_SYS_TIMEOUT)) = 15"
  by (simp add: example_timer_pools_def nth_append)

lemma example_env_ok: "logs_calls example_env (\<lambda>l. l)" "quiet_env example_env" "env_pools example_env = example_timer_pools"
  by (simp_all add: example_env_def logs_calls_def quiet_env_def same_timers_def)

text \<open>The example after one timeout has been set, and some time later.\<close>

lemma example_one_timeout:
  obtains s where "sys_timeout example_timer_pools 50 (Some (Fn 3)) None example_timers = Some s"
    "timers_inv example_timer_pools s" "pending s = [(50, Some (Fn 3), None)]" "timeouts_last_time s = 7" "clock s = 7"
    "timeouts_state.more s = []" "length (next_timeout s) = 1"
  using sys_timeout_eq [OF example_timers_inv, of 50 "Some (Fn 3)" None]
  by (auto simp: example_pool_size schedule_def pending_def example_timers_def call_diff_def)

lemma advance_clock:
  "timers_inv memp_pools (s\<lparr>clock := c\<rparr>) \<longleftrightarrow> timers_inv memp_pools s" "pending (s\<lparr>clock := c\<rparr>) = pending s"
  "elapsed (s\<lparr>clock := c\<rparr>) = unat (c - timeouts_last_time s)"
  by (simp_all add: timers_inv_def pending_def elapsed_def sys_now_def)


section \<open>Properties\<close>

text \<open>A timeout set at the moment the timer list refers to (right after \<open>sys_check_timeouts\<close> has caught up,
  or with no timeout pending) is due after exactly \<open>msecs\<close>, is queued behind the timeouts that are
  due at the same time, and leaves the due times of all others alone. It fails only when the pool is empty.\<close>

theorem sys_timeout_exact:
  assumes "timers_inv memp_pools s" and "length (next_timeout s) < unat (desc_num (memp_pools ! MEMP_SYS_TIMEOUT))"
    and "next_timeout s = [] \<or> clock s = timeouts_last_time s"
    and "total_time (next_timeout s) + unat msecs < 2 ^ 32"
  shows "\<exists>s'. sys_timeout memp_pools msecs handler arg s = Some s' \<and> timers_inv memp_pools s'
    \<and> pending s' = insert_due (unat msecs, handler, arg) (pending s) \<and> timeouts_last_time s' = clock s"
proof -
  have "call_diff s = 0" using assms(3) by (auto simp: call_diff_def elapsed_def sys_now_def)
  moreover have "sorted (map fst (pending s))" by (simp add: pending_def dues_sorted)
  ultimately show ?thesis
    using sys_timeout_eq [OF assms(1,2), of msecs handler arg] assms(3,4) schedule_exact by auto
qed

theorem sys_timeout_exact_witness:
  "\<exists>s'. sys_timeout example_timer_pools 50 (Some (Fn 3)) None example_timers = Some s' \<and> timers_inv example_timer_pools s'
    \<and> pending s' = insert_due (unat (50 :: u32), Some (Fn 3), None) (pending example_timers)
    \<and> timeouts_last_time s' = clock example_timers"
  by (rule sys_timeout_exact [OF example_timers_inv])
    (simp_all add: example_pool_size, simp_all add: example_timers_def)

text \<open>the same for a call \<open>elapsed s\<close> ticks after the moment the list refers to. The new timeout is due \<open>msecs\<close>
  after the call. When it comes first, all timeouts that were pending are put off by \<open>elapsed s\<close>, although the
  delta list should keep their due times; otherwise their due times do not change. When the list has
  fallen behind by more than its whole length, the new timeout is queued at the end, relative to the
  first timeout instead of the call.\<close>

theorem sys_timeout_late_call:
  assumes "timers_inv memp_pools s" and "length (next_timeout s) < unat (desc_num (memp_pools ! MEMP_SYS_TIMEOUT))"
    and "next_timeout s \<noteq> []" and "total_time (next_timeout s) + unat msecs + elapsed s < 2 ^ 32"
  shows "\<exists>s'. sys_timeout memp_pools msecs handler arg s = Some s' \<and> timers_inv memp_pools s'
    \<and> timeouts_last_time s' = timeouts_last_time s
    \<and> pending s' =
        (if unat msecs < fst (hd (pending s)) then (unat msecs + elapsed s, handler, arg) # delay (elapsed s) (pending s)
         else if elapsed s \<le> total_time (next_timeout s) then insert_due (unat msecs + elapsed s, handler, arg) (pending s)
         else pending s @ [(total_time (next_timeout s) + unat msecs + fst (hd (pending s)), handler, arg)])"
proof -
  have "call_diff s = elapsed s" using assms(3) by (simp add: call_diff_def)
  moreover have "schedule (unat msecs) (elapsed s) (handler, arg) (pending s) =
     (if unat msecs < fst (hd (pending s)) then (unat msecs + elapsed s, handler, arg) # delay (elapsed s) (pending s)
      else if elapsed s \<le> total_time (next_timeout s) then insert_due (unat msecs + elapsed s, handler, arg) (pending s)
      else pending s @ [(total_time (next_timeout s) + unat msecs + fst (hd (pending s)), handler, arg)])"
    using assms(3) unfolding total_time_pending [OF assms(3)]
    by (cases "pending s") (auto simp: schedule_def pending_def)
  ultimately show ?thesis
    using sys_timeout_eq [OF assms(1,2), of msecs handler arg] assms(3,4) by auto
qed

theorem sys_timeout_late_call_witness:
  "\<exists>s s'. sys_timeout example_timer_pools 50 (Some (Fn 3)) None example_timers = Some s
    \<and> sys_timeout example_timer_pools 10 (Some (Fn 4)) None (s\<lparr>clock := 27\<rparr>) = Some s'
    \<and> pending s' = [(30, Some (Fn 4), None), (70, Some (Fn 3), None)]"
proof -
  obtain s where s: "sys_timeout example_timer_pools 50 (Some (Fn 3)) None example_timers = Some s"
    "timers_inv example_timer_pools s" "pending s = [(50, Some (Fn 3), None)]" "timeouts_last_time s = 7"
    "length (next_timeout s) = 1" by (rule example_one_timeout)
  then have ne: "next_timeout s \<noteq> []" by auto
  then have "total_time (next_timeout s) = 50" using total_time_pending [OF ne] s(3) by simp
  with ne sys_timeout_late_call [of example_timer_pools "s\<lparr>clock := 27\<rparr>" 10 "Some (Fn 4)" None] s
  show ?thesis by (auto simp: advance_clock example_pool_size)
qed

text \<open>\<open>sys_untimeout\<close> removes the first timeout with the given handler and argument, if there is one, gives
  its element back to the pool, and leaves the due times of all other timeouts alone.\<close>

theorem sys_untimeout_removes_first:
  assumes "timers_inv memp_pools s"
  shows "\<exists>s'. sys_untimeout memp_pools handler arg s = Some s' \<and> timers_inv memp_pools s'
    \<and> pending s' = remove_due (handler, arg) (pending s) \<and> timeouts_last_time s' = timeouts_last_time s"
  using sys_untimeout_eq [OF assms] by blast

theorem sys_untimeout_removes_first_witness:
  "\<exists>s s'. sys_timeout example_timer_pools 50 (Some (Fn 3)) None example_timers = Some s
    \<and> sys_untimeout example_timer_pools (Some (Fn 3)) None s = Some s' \<and> pending s' = []"
proof -
  obtain s where s: "sys_timeout example_timer_pools 50 (Some (Fn 3)) None example_timers = Some s"
    "timers_inv example_timer_pools s" "pending s = [(50, Some (Fn 3), None)]" by (rule example_one_timeout)
  with sys_untimeout_removes_first [OF s(2), of "Some (Fn 3)" None] show ?thesis by auto
qed

text \<open>C24: \<open>sys_check_timeouts\<close> with one-shot handlers that do not touch the timers returns, has called exactly the
  handlers whose due time has passed, once each and in order of their due times, and leaves the others
  pending with their due times unchanged (they are now counted from a moment \<open>k\<close> later).\<close>

theorem check_timeouts_fires_due:
  assumes "timers_inv (env_pools env) s" and "logs_calls env log" and "list_all one_shot (pending s)"
  shows "\<exists>s' k. sys_check_timeouts env s = Some s' \<and> timers_inv (env_pools env) s'
    \<and> log (timeouts_state.more s') =
        log (timeouts_state.more s) @ calls_of (takeWhile (\<lambda>y. fst y \<le> elapsed s) (pending s))
    \<and> delay k (pending s') = dropWhile (\<lambda>y. fst y \<le> elapsed s) (pending s)
    \<and> timeouts_last_time s' = timeouts_last_time s + of_nat k \<and> k \<le> elapsed s"
proof (cases "next_timeout s = []")
  case True
  with assms(1) show ?thesis
    by (intro exI [of _ s] exI [of _ 0]) (simp add: sys_check_timeouts_def pending_def)
next
  case False
  with check_loop_fires [OF assms, of "sys_now s - timeouts_last_time s"] show ?thesis
    by (auto simp: sys_check_timeouts_def elapsed_def)
qed

theorem check_timeouts_fires_due_witness:
  "\<exists>s s'. sys_timeout example_timer_pools 50 (Some (Fn 3)) None example_timers = Some s
    \<and> sys_check_timeouts example_env (s\<lparr>clock := 57\<rparr>) = Some s'
    \<and> timeouts_state.more s' = [(3, None)] \<and> pending s' = []"
proof -
  obtain s where s: "sys_timeout example_timer_pools 50 (Some (Fn 3)) None example_timers = Some s"
    "timers_inv example_timer_pools s" "pending s = [(50, Some (Fn 3), None)]" "timeouts_last_time s = 7"
    "timeouts_state.more s = []" by (rule example_one_timeout)
  have "timers_inv (env_pools example_env) (s\<lparr>clock := 57\<rparr>)" "list_all one_shot (pending (s\<lparr>clock := 57\<rparr>))"
    using s by (simp_all add: advance_clock example_env_ok one_shot_def)
  from check_timeouts_fires_due [OF this(1) example_env_ok(1) this(2)] s show ?thesis
    by (auto simp: advance_clock delay_def)
qed

text \<open>C14: with only cyclic timers pending, at least two of them, \<open>sys_check_timeouts\<close> returns however far the list
  has fallen behind (up to a third of the range of the clock). Every timer is re-armed exactly once per expiry,
  so the same timers are pending afterwards, and none of them is due any more.\<close>

theorem cyclic_timers_survive:
  assumes "timers_inv (env_pools env) s" and "quiet_env env" and "list_all cyclic (pending s)"
    and "2 \<le> length (next_timeout s)" and "length (next_timeout s) \<le> unat (desc_num (env_pools env ! MEMP_SYS_TIMEOUT))"
    and "total_time (next_timeout s) + elapsed s + 60000 < 2 ^ 32" and "3 * elapsed s + 120000 < 2 ^ 32"
  shows "\<exists>s'. sys_check_timeouts env s = Some s' \<and> timers_inv (env_pools env) s'
    \<and> mset (map snd (pending s')) = mset (map snd (pending s)) \<and> elapsed s' < fst (hd (pending s'))"
proof -
  have "cyclic_inv env (sys_now s - timeouts_last_time s) s" "room (sys_now s - timeouts_last_time s) s"
    using assms by (simp_all add: cyclic_inv_def room_def elapsed_def sys_now_def)
  from check_loop_cyclic [OF this(1) assms(2) disjI2 [OF this(2)]] assms(4) show ?thesis
    by (auto simp: sys_check_timeouts_def)
qed

theorem cyclic_timers_survive_witness:
  "\<exists>s s'. sys_timeouts_init example_timer_pools example_timers = Some s
    \<and> sys_check_timeouts example_env (s\<lparr>clock := 5007\<rparr>) = Some s'
    \<and> mset (map snd (pending s')) = mset (map snd stack_timers) \<and> elapsed s' < fst (hd (pending s'))"
proof -
  obtain s where s: "sys_timeouts_init example_timer_pools example_timers = Some s"
    "timers_inv example_timer_pools s" "pending s = stack_timers" "timeouts_last_time s = 7" "length (next_timeout s) = 5"
    using timeouts_init_eq [OF example_timers_inv] by (auto simp: example_pool_size example_timers_def)
  then have "next_timeout s \<noteq> []" by auto
  then have "total_time (next_timeout s) = 60000" using total_time_pending [of s] s(3) by (simp add: stack_timers_def)
  moreover have "list_all cyclic stack_timers" by (simp add: stack_timers_def cyclic_def lwip_cyclic_timers_def)
  ultimately show ?thesis
    using cyclic_timers_survive [OF _ example_env_ok(2), of "s\<lparr>clock := 5007\<rparr>"] s
    by (auto simp: advance_clock example_env_ok example_pool_size)
qed

text \<open>\<open>sys_timeouts_init\<close> arms the five cyclic timers of the stack other than that of TCP, each due after its
  interval, in order.\<close>

theorem timeouts_init_arms_stack_timers:
  assumes "timers_inv memp_pools s" and "next_timeout s = []"
    and "5 \<le> unat (desc_num (memp_pools ! MEMP_SYS_TIMEOUT))"
  shows "\<exists>s'. sys_timeouts_init memp_pools s = Some s' \<and> timers_inv memp_pools s' \<and> pending s' = stack_timers
    \<and> timeouts_last_time s' = clock s"
  using timeouts_init_eq [OF assms] by blast

theorem timeouts_init_arms_stack_timers_witness:
  "\<exists>s'. sys_timeouts_init example_timer_pools example_timers = Some s' \<and> timers_inv example_timer_pools s'
     \<and> pending s' = stack_timers \<and> timeouts_last_time s' = clock example_timers"
  by (rule timeouts_init_arms_stack_timers [OF example_timers_inv])
    (simp add: example_timers_def, simp add: example_pool_size)

end
