(* ===== verification/Mem.thy ===== *)
theory Mem
  imports Memp "HOL-Library.Multiset"
begin

text \<open>
  \<^verbatim>\<open>core/mem.c\<close>: the heap, in the variant that \<^verbatim>\<open>port/lwipopts.h\<close> selects (the allocator of lwIP itself,
  \<^verbatim>\<open>MEM_SIZE\<close> 512, no mutex because \<^verbatim>\<open>NO_SYS\<close> is set, no freeing from other contexts).

  The heap is an array of bytes at address \<open>ram\<close>; the headers \<^verbatim>\<open>struct mem\<close> in it are found by their
  offset. \<open>hdr\<close> holds the headers that have been written; an offset at which no header was written, or
  whose header was overwritten by user data, has no entry, and reading it is undefined. Offsets,
  pointers and the fields \<open>next\<close> and \<open>prev\<close> are natural numbers; every conversion to the 16-bit type
  \<^verbatim>\<open>mem_size_t\<close> is written out as \<open>to_u16\<close>.

  The abstract view is the list of blocks, each with its size and whether it is used. The operations
  refine operations on this list.
\<close>

section \<open>Definitions\<close>

abbreviation (input) MEM_SIZE_ALIGNED :: nat where "MEM_SIZE_ALIGNED \<equiv> 512"
abbreviation (input) SIZEOF_STRUCT_MEM :: nat where "SIZEOF_STRUCT_MEM \<equiv> 8"
abbreviation (input) MIN_SIZE_ALIGNED :: nat where "MIN_SIZE_ALIGNED \<equiv> 12"

definition to_u16 :: "nat \<Rightarrow> nat" where
  "to_u16 n = n mod 65536"

text \<open>Subtraction of unsigned 32-bit values.\<close>

definition usub :: "nat \<Rightarrow> nat \<Rightarrow> nat" where
  "usub a b = (a + 2 ^ 32 - b) mod 2 ^ 32"

definition LWIP_MEM_ALIGN_SIZE :: "nat \<Rightarrow> nat" where
  "LWIP_MEM_ALIGN_SIZE n = (n + MEM_ALIGNMENT - 1) div MEM_ALIGNMENT * MEM_ALIGNMENT"

record mem =
  mem_next :: nat
  mem_prev :: nat
  mem_used :: bool

record mem_state =
  ram :: nat
  hdr :: "nat \<rightharpoonup> mem"
  lfree :: nat
  mem_stats :: stats_mem

definition put_hdr :: "nat \<Rightarrow> mem \<Rightarrow> mem_state \<Rightarrow> mem_state" where
  "put_hdr p h s = s\<lparr>hdr := (hdr s)(p \<mapsto> h)\<rparr>"

definition set_mem_next :: "nat \<Rightarrow> nat \<Rightarrow> mem_state \<Rightarrow> mem_state option" where
  "set_mem_next p v s = do { h \<leftarrow> hdr s p; Some (put_hdr p (h\<lparr>mem_next := v\<rparr>) s) }"

definition set_mem_prev :: "nat \<Rightarrow> nat \<Rightarrow> mem_state \<Rightarrow> mem_state option" where
  "set_mem_prev p v s = do { h \<leftarrow> hdr s p; Some (put_hdr p (h\<lparr>mem_prev := v\<rparr>) s) }"

definition set_mem_used :: "nat \<Rightarrow> bool \<Rightarrow> mem_state \<Rightarrow> mem_state option" where
  "set_mem_used p v s = do { h \<leftarrow> hdr s p; Some (put_hdr p (h\<lparr>mem_used := v\<rparr>) s) }"

definition stats_inc_used :: "nat \<Rightarrow> mem_state \<Rightarrow> mem_state" where
  "stats_inc_used n s = s\<lparr>mem_stats :=
     (let st = (mem_stats s)\<lparr>st_used := st_used (mem_stats s) + of_nat n\<rparr>
      in if st_max st < st_used st then st\<lparr>st_max := st_used st\<rparr> else st)\<rparr>"

definition stats_dec_used :: "nat \<Rightarrow> mem_state \<Rightarrow> mem_state" where
  "stats_dec_used n s = s\<lparr>mem_stats := (mem_stats s)\<lparr>st_used := st_used (mem_stats s) - of_nat n\<rparr>\<rparr>"

definition stats_inc_err :: "mem_state \<Rightarrow> mem_state" where
  "stats_inc_err s = s\<lparr>mem_stats := (mem_stats s)\<lparr>st_err := st_err (mem_stats s) + 1\<rparr>\<rparr>"

definition set_lfree :: "nat \<Rightarrow> mem_state \<Rightarrow> mem_state" where
  "set_lfree p s = s\<lparr>lfree := p\<rparr>"

subsection \<open>Joining free neighbours\<close>

definition plug_forward :: "nat \<Rightarrow> mem_state \<Rightarrow> mem_state option" where
  "plug_forward mem s = do {
     m \<leftarrow> hdr s mem;
     lwip_assert (mem_next m \<le> MEM_SIZE_ALIGNED);
     let nmem = mem_next m;
     n \<leftarrow> hdr s nmem;
     if mem \<noteq> nmem \<and> \<not> mem_used n \<and> nmem \<noteq> MEM_SIZE_ALIGNED then do {
       let s = (if lfree s = nmem then set_lfree mem s else s);
       s \<leftarrow> set_mem_next mem (mem_next n) s;
       set_mem_prev (mem_next n) (to_u16 mem) s
     } else Some s
   }"

definition plug_backward :: "nat \<Rightarrow> mem_state \<Rightarrow> mem_state option" where
  "plug_backward mem s = do {
     m \<leftarrow> hdr s mem;
     let pmem = mem_prev m;
     p \<leftarrow> hdr s pmem;
     if pmem \<noteq> mem \<and> \<not> mem_used p then do {
       let s = (if lfree s = mem then set_lfree pmem s else s);
       s \<leftarrow> set_mem_next pmem (mem_next m) s;
       set_mem_prev (mem_next m) (to_u16 pmem) s
     } else Some s
   }"

definition plug_holes :: "nat \<Rightarrow> mem_state \<Rightarrow> mem_state option" where
  "plug_holes mem s = do {
     lwip_assert (mem < MEM_SIZE_ALIGNED);
     m \<leftarrow> hdr s mem;
     lwip_assert (\<not> mem_used m);
     s \<leftarrow> plug_forward mem s;
     plug_backward mem s
   }"

subsection \<open>Operations\<close>

definition mem_init :: "nat \<Rightarrow> mem_state \<Rightarrow> mem_state" where
  "mem_init ram_heap s =
     (let s = s\<lparr>ram := LWIP_MEM_ALIGN ram_heap\<rparr>;
          s = put_hdr 0 \<lparr>mem_next = MEM_SIZE_ALIGNED, mem_prev = 0, mem_used = False\<rparr> s;
          s = put_hdr MEM_SIZE_ALIGNED \<lparr>mem_next = MEM_SIZE_ALIGNED, mem_prev = MEM_SIZE_ALIGNED, mem_used = True\<rparr> s;
          s = set_lfree 0 s
      in s\<lparr>mem_stats := (mem_stats s)\<lparr>st_avail := of_nat MEM_SIZE_ALIGNED\<rparr>\<rparr>)"

text \<open>
  The header of the data at address \<open>rmem\<close>; the pointer below \<open>ram\<close> that results for the first bytes
  of the heap is undefined.
\<close>

definition hdr_of :: "mem_state \<Rightarrow> nat \<Rightarrow> nat option" where
  "hdr_of s rmem = (if ram s + SIZEOF_STRUCT_MEM \<le> rmem then Some (rmem - SIZEOF_STRUCT_MEM - ram s) else None)"

definition mem_free :: "ptr \<Rightarrow> mem_state \<Rightarrow> mem_state option" where
  "mem_free rmem s =
     (case rmem of
        None \<Rightarrow> Some s
      | Some rmem \<Rightarrow> do {
          lwip_assert (rmem mod MEM_ALIGNMENT = 0);
          lwip_assert (rmem \<ge> ram s \<and> rmem < ram s + MEM_SIZE_ALIGNED);
          mem \<leftarrow> hdr_of s rmem;
          m \<leftarrow> hdr s mem;
          lwip_assert (mem_used m);
          s \<leftarrow> set_mem_used mem False s;
          let s = (if mem < lfree s then set_lfree mem s else s);
          let s = stats_dec_used (usub (mem_next m) mem) s;
          plug_holes mem s
        })"

text \<open>
  \<open>mem2\<close> becomes the header of a free block behind the block \<open>ptr\<close>, with successor \<open>next\<close>
  (the lines shared by \<open>mem_trim\<close> and \<open>mem_malloc\<close>).
\<close>

definition link_remainder :: "nat \<Rightarrow> nat \<Rightarrow> nat \<Rightarrow> mem_state \<Rightarrow> mem_state option" where
  "link_remainder ptr ptr2 next s = do {
     let s = put_hdr ptr2 \<lparr>mem_next = next, mem_prev = ptr, mem_used = False\<rparr> s;
     s \<leftarrow> set_mem_next ptr ptr2 s;
     if next \<noteq> MEM_SIZE_ALIGNED then set_mem_prev next ptr2 s else Some s
   }"

definition mem_trim :: "nat \<Rightarrow> nat \<Rightarrow> mem_state \<Rightarrow> (ptr \<times> mem_state) option" where
  "mem_trim rmem newsize s =
     (let newsize = to_u16 (LWIP_MEM_ALIGN_SIZE newsize);
          newsize = (if newsize < MIN_SIZE_ALIGNED then MIN_SIZE_ALIGNED else newsize)
      in if newsize > MEM_SIZE_ALIGNED then Some (None, s)
         else do {
           lwip_assert (rmem \<ge> ram s \<and> rmem < ram s + MEM_SIZE_ALIGNED);
           ptr \<leftarrow> hdr_of s rmem;
           m \<leftarrow> hdr s ptr;
           let sz = to_u16 (usub (usub (mem_next m) ptr) SIZEOF_STRUCT_MEM);
           lwip_assert (newsize \<le> sz);
           if newsize = sz then Some (Some rmem, s)
           else do {
             m2 \<leftarrow> hdr s (mem_next m);
             if \<not> mem_used m2 then do {
               let ptr2 = to_u16 (ptr + SIZEOF_STRUCT_MEM + newsize);
               let s = (if lfree s = mem_next m then set_lfree ptr2 s else s);
               s \<leftarrow> link_remainder ptr ptr2 (mem_next m2) s;
               Some (Some rmem, stats_dec_used (sz - newsize) s)
             } else if newsize + SIZEOF_STRUCT_MEM + MIN_SIZE_ALIGNED \<le> sz then do {
               let ptr2 = to_u16 (ptr + SIZEOF_STRUCT_MEM + newsize);
               let s = (if ptr2 < lfree s then set_lfree ptr2 s else s);
               s \<leftarrow> link_remainder ptr ptr2 (mem_next m) s;
               Some (Some rmem, stats_dec_used (sz - newsize) s)
             } else Some (Some rmem, s)
           }
         })"

text \<open>The scan for a free block that is big enough: its offset, or \<open>None\<close> at the end of the heap.\<close>

partial_function (option) malloc_scan :: "mem_state \<Rightarrow> nat \<Rightarrow> nat \<Rightarrow> ptr option" where
  "malloc_scan s sz ptr =
     (if ptr < MEM_SIZE_ALIGNED - sz then
        Option.bind (hdr s ptr) (\<lambda>m.
          if \<not> mem_used m \<and> usub (mem_next m) (ptr + SIZEOF_STRUCT_MEM) \<ge> sz then Some (Some ptr)
          else malloc_scan s sz (mem_next m))
      else Some None)"

text \<open>The search for the lowest free block from \<open>cur\<close> on.\<close>

partial_function (option) next_free :: "mem_state \<Rightarrow> nat \<Rightarrow> nat option" where
  "next_free s cur =
     Option.bind (hdr s cur) (\<lambda>m.
       if mem_used m \<and> cur \<noteq> MEM_SIZE_ALIGNED then next_free s (mem_next m) else Some cur)"

definition adjust_lfree :: "nat \<Rightarrow> mem_state \<Rightarrow> mem_state option" where
  "adjust_lfree mem s =
     (if mem = lfree s then do {
        cur \<leftarrow> next_free s (lfree s);
        let s = set_lfree cur s;
        m \<leftarrow> hdr s (lfree s);
        lwip_assert (lfree s = MEM_SIZE_ALIGNED \<or> \<not> mem_used m);
        Some s
      } else Some s)"

definition take_block :: "nat \<Rightarrow> nat \<Rightarrow> mem_state \<Rightarrow> mem_state option" where
  "take_block sz ptr s = do {
     m \<leftarrow> hdr s ptr;
     if usub (mem_next m) (ptr + SIZEOF_STRUCT_MEM) \<ge> sz + SIZEOF_STRUCT_MEM + MIN_SIZE_ALIGNED then do {
       let ptr2 = to_u16 (ptr + SIZEOF_STRUCT_MEM + sz);
       s \<leftarrow> link_remainder ptr ptr2 (mem_next m) s;
       s \<leftarrow> set_mem_used ptr True s;
       Some (stats_inc_used (sz + SIZEOF_STRUCT_MEM) s)
     } else do {
       s \<leftarrow> set_mem_used ptr True s;
       Some (stats_inc_used (usub (mem_next m) ptr) s)
     }
   }"

definition mem_malloc :: "nat \<Rightarrow> mem_state \<Rightarrow> (ptr \<times> mem_state) option" where
  "mem_malloc sz s =
     (if sz = 0 then Some (None, s)
      else
        let sz = to_u16 (LWIP_MEM_ALIGN_SIZE sz);
            sz = (if sz < MIN_SIZE_ALIGNED then MIN_SIZE_ALIGNED else sz)
        in if sz > MEM_SIZE_ALIGNED then Some (None, s)
           else do {
             found \<leftarrow> malloc_scan s sz (lfree s);
             case found of
               None \<Rightarrow> Some (None, stats_inc_err s)
             | Some ptr \<Rightarrow> do {
                 s \<leftarrow> take_block sz ptr s;
                 s \<leftarrow> adjust_lfree ptr s;
                 lwip_assert (ptr + SIZEOF_STRUCT_MEM + sz \<le> MEM_SIZE_ALIGNED);
                 lwip_assert ((ram s + ptr + SIZEOF_STRUCT_MEM) mod MEM_ALIGNMENT = 0);
                 lwip_assert ((ram s + ptr) mod MEM_ALIGNMENT = 0);
                 Some (Some (ram s + ptr + SIZEOF_STRUCT_MEM), s)
               }
           })"

text \<open>
  \<open>mem_calloc\<close> multiplies at the width of \<^verbatim>\<open>int\<close> and converts the product to \<^verbatim>\<open>mem_size_t\<close>; the second
  component of its result is the number of bytes that \<open>memset\<close> clears.
\<close>

definition mem_calloc :: "nat \<Rightarrow> nat \<Rightarrow> mem_state \<Rightarrow> (ptr \<times> nat \<times> mem_state) option" where
  "mem_calloc cnt sz s = do {
     (p, s) \<leftarrow> mem_malloc (to_u16 (cnt * sz)) s;
     Some (p, if p \<noteq> None then cnt * sz else 0, s)
   }"


section \<open>The heap as a list of blocks\<close>

text \<open>A block with its size, header included, and whether it is used.\<close>

type_synonym block = "nat \<times> bool"

definition ext :: "block list \<Rightarrow> nat" where
  "ext bl = sum_list (map fst bl)"

definition last_start :: "nat \<Rightarrow> nat \<Rightarrow> block list \<Rightarrow> nat" where
  "last_start off prv bl = (if bl = [] then prv else off + ext (butlast bl))"

text \<open>The headers from offset \<open>off\<close> on describe the blocks \<open>bl\<close>; \<open>prv\<close> is the block before them.\<close>

fun heap_seg :: "(nat \<rightharpoonup> mem) \<Rightarrow> nat \<Rightarrow> nat \<Rightarrow> block list \<Rightarrow> bool" where
  "heap_seg h off prv [] \<longleftrightarrow> True"
| "heap_seg h off prv ((n, u) # bl) \<longleftrightarrow>
     h off = Some \<lparr>mem_next = off + n, mem_prev = prv, mem_used = u\<rparr> \<and> heap_seg h (off + n) off bl"

definition sizes_ok :: "block list \<Rightarrow> bool" where
  "sizes_ok bl \<longleftrightarrow> list_all (\<lambda>(n, u). 20 \<le> n \<and> n mod 4 = 0) bl"

definition end_ok :: "(nat \<rightharpoonup> mem) \<Rightarrow> bool" where
  "end_ok h \<longleftrightarrow> (case h 512 of None \<Rightarrow> False | Some e \<Rightarrow> mem_next e = 512 \<and> mem_used e)"

fun lowest_free :: "nat \<Rightarrow> block list \<Rightarrow> nat" where
  "lowest_free off [] = off"
| "lowest_free off ((n, u) # bl) = (if u then lowest_free (off + n) bl else off)"

definition used_bytes :: "block list \<Rightarrow> nat" where
  "used_bytes bl = ext (filter snd bl)"

definition no_adjacent_free :: "block list \<Rightarrow> bool" where
  "no_adjacent_free bl \<longleftrightarrow> successively (\<lambda>x y. snd x \<or> snd y) bl"

definition mem_inv :: "block list \<Rightarrow> mem_state \<Rightarrow> bool" where
  "mem_inv bl s \<longleftrightarrow> heap_seg (hdr s) 0 0 bl \<and> ext bl = 512 \<and> sizes_ok bl \<and> end_ok (hdr s)
     \<and> no_adjacent_free bl \<and> lfree s = lowest_free 0 bl \<and> ram s mod 4 = 0
     \<and> unat (st_used (mem_stats s)) = used_bytes bl \<and> st_used (mem_stats s) \<le> st_max (mem_stats s)"

lemma ext_simps [simp]:
  "ext [] = 0" "ext (b # bl) = fst b + ext bl" "ext (xs @ ys) = ext xs + ext ys"
  by (simp_all add: ext_def)

lemma sizes_ok_simps [simp]:
  "sizes_ok []" "sizes_ok ((n, u) # bl) \<longleftrightarrow> 20 \<le> n \<and> n mod 4 = 0 \<and> sizes_ok bl"
  "sizes_ok (xs @ ys) \<longleftrightarrow> sizes_ok xs \<and> sizes_ok ys"
  by (simp_all add: sizes_ok_def)

lemma used_bytes_simps [simp]:
  "used_bytes [] = 0" "used_bytes ((n, u) # bl) = (if u then n else 0) + used_bytes bl"
  "used_bytes (xs @ ys) = used_bytes xs + used_bytes ys"
  by (simp_all add: used_bytes_def)

lemma used_bytes_le: "used_bytes bl \<le> ext bl"
  by (induction bl) (auto simp: used_bytes_def split: if_splits)

lemma last_start_simps [simp]:
  "last_start off prv [] = prv" "last_start off prv (xs @ [b]) = off + ext xs"
  by (simp_all add: last_start_def)

lemma last_start_Cons: "last_start off prv ((n, u) # bl) = last_start (off + n) off bl"
  by (cases bl rule: rev_cases) (auto simp: last_start_def butlast_append)

lemma heap_seg_append:
  "heap_seg h off prv (xs @ ys) \<longleftrightarrow> heap_seg h off prv xs \<and> heap_seg h (off + ext xs) (last_start off prv xs) ys"
  by (induction h off prv xs rule: heap_seg.induct) (auto simp: last_start_Cons add.assoc)

lemma heap_seg_cong:
  "\<lbrakk>\<And>p. off \<le> p \<Longrightarrow> p < off + ext bl \<Longrightarrow> h' p = h p; sizes_ok bl\<rbrakk> \<Longrightarrow> heap_seg h' off prv bl \<longleftrightarrow> heap_seg h off prv bl"
proof (induction h off prv bl rule: heap_seg.induct)
  case (2 h off prv n u bl)
  have "h' off = h off" using 2(2,3) by simp
  moreover have "heap_seg h' (off + n) off bl \<longleftrightarrow> heap_seg h (off + n) off bl"
    using 2(2,3) by (intro 2(1)) auto
  ultimately show ?case by simp
qed simp

lemma ext_mod: "sizes_ok bl \<Longrightarrow> ext bl mod 4 = 0"
  by (induction bl) (auto simp: sizes_ok_def mod_add_eq [symmetric])

lemma lowest_free_append:
  "lowest_free off (xs @ ys) = (if list_all snd xs then lowest_free (off + ext xs) ys else lowest_free off xs)"
  by (induction off xs rule: lowest_free.induct) (auto simp: add.assoc)

lemma lowest_free_less: "\<not> list_all snd xs \<Longrightarrow> sizes_ok xs \<Longrightarrow> lowest_free off xs < off + ext xs"
proof (induction off xs rule: lowest_free.induct)
  case (2 off n u bl)
  then show ?case by (cases u) fastforce+
qed simp

lemma lowest_free_ge: "off \<le> lowest_free off bl"
  by (induction off bl rule: lowest_free.induct) auto

lemma no_adjacent_free_append:
  "no_adjacent_free (xs @ ys) \<longleftrightarrow> no_adjacent_free xs \<and> no_adjacent_free ys
     \<and> (xs = [] \<or> ys = [] \<or> snd (last xs) \<or> snd (hd ys))"
  by (auto simp: no_adjacent_free_def successively_append_iff)

lemma no_adjacent_free_simps [simp]:
  "no_adjacent_free []" "no_adjacent_free [b]"
  "no_adjacent_free (b # c # bl) \<longleftrightarrow> (snd b \<or> snd c) \<and> no_adjacent_free (c # bl)"
  by (simp_all add: no_adjacent_free_def)

lemma usub_eq: "b \<le> a \<Longrightarrow> a < 2 ^ 32 \<Longrightarrow> usub a b = a - b"
proof -
  assume "b \<le> a" "a < 2 ^ 32"
  then have "a + 2 ^ 32 - b = (a - b) + 2 ^ 32" by simp
  then show ?thesis using \<open>a < 2 ^ 32\<close> unfolding usub_def by (simp only: mod_add_self2) simp
qed

lemma to_u16_eq [simp]: "n < 65536 \<Longrightarrow> to_u16 n = n"
  by (simp add: to_u16_def)

lemma mem_state_simps [simp]:
  "hdr (put_hdr p h s) = (hdr s)(p \<mapsto> h)" "ram (put_hdr p h s) = ram s" "lfree (put_hdr p h s) = lfree s"
  "mem_stats (put_hdr p h s) = mem_stats s"
  "hdr (set_lfree q s) = hdr s" "ram (set_lfree q s) = ram s" "lfree (set_lfree q s) = q" "mem_stats (set_lfree q s) = mem_stats s"
  "hdr (stats_inc_used n s) = hdr s" "ram (stats_inc_used n s) = ram s" "lfree (stats_inc_used n s) = lfree s"
  "hdr (stats_dec_used n s) = hdr s" "ram (stats_dec_used n s) = ram s" "lfree (stats_dec_used n s) = lfree s"
  "hdr (stats_inc_err s) = hdr s" "ram (stats_inc_err s) = ram s" "lfree (stats_inc_err s) = lfree s"
  by (simp_all add: put_hdr_def set_lfree_def stats_inc_used_def stats_dec_used_def stats_inc_err_def)

text \<open>Changing the \<open>prev\<close> field of the block that starts at \<open>off\<close>, or of the end marker.\<close>

lemma set_prev_seg:
  assumes "heap_seg (hdr s) off prv ys" and "off + ext ys = 512" and "sizes_ok ys" and "end_ok (hdr s)"
  obtains h where "set_mem_prev off v s = Some (put_hdr off h s)" "heap_seg ((hdr s)(off \<mapsto> h)) off v ys"
    "end_ok ((hdr s)(off \<mapsto> h))"
proof (cases ys)
  case Nil
  with assms(2,4) that show ?thesis by (auto simp: end_ok_def set_mem_prev_def split: option.splits)
next
  case (Cons b bl)
  obtain n u where b: "b = (n, u)" by (cases b)
  let ?h = "\<lparr>mem_next = off + n, mem_prev = v, mem_used = u\<rparr>"
  from assms Cons b have "hdr s off = Some \<lparr>mem_next = off + n, mem_prev = prv, mem_used = u\<rparr>" "0 < n" "off \<noteq> 512" by auto
  moreover have "heap_seg ((hdr s)(off \<mapsto> ?h)) (off + n) off bl"
    using assms(1,3) Cons b \<open>0 < n\<close> heap_seg_cong [of "off + n" bl "(hdr s)(off \<mapsto> ?h)" "hdr s" off] by simp
  ultimately show ?thesis
    using that [of ?h] assms(4) Cons b by (simp add: set_mem_prev_def end_ok_def)
qed

text \<open>Inserting a header: the block at \<open>ptr\<close> is cut at \<open>ptr2\<close> and the rest reaches up to \<open>nxt\<close>.\<close>

lemma link_remainder_seg:
  assumes "hdr s ptr = Some m" and "ptr < ptr2" "ptr2 < nxt"
    and "heap_seg (hdr s) nxt prv ys" and "nxt + ext ys = 512" and "sizes_ok ys" and "end_ok (hdr s)"
  obtains s' where "link_remainder ptr ptr2 nxt s = Some s'"
    "heap_seg (hdr s') nxt ptr2 ys" "end_ok (hdr s')" "\<forall>p < ptr. hdr s' p = hdr s p"
    "hdr s' ptr = Some (m\<lparr>mem_next := ptr2\<rparr>)"
    "hdr s' ptr2 = Some \<lparr>mem_next = nxt, mem_prev = ptr, mem_used = False\<rparr>"
    "ram s' = ram s" "lfree s' = lfree s" "mem_stats s' = mem_stats s"
proof -
  let ?s = "put_hdr ptr (m\<lparr>mem_next := ptr2\<rparr>) (put_hdr ptr2 \<lparr>mem_next = nxt, mem_prev = ptr, mem_used = False\<rparr> s)"
  have seg: "heap_seg (hdr ?s) nxt prv ys" using assms(2,3,4,6) by (subst heap_seg_cong) auto
  have fin: "end_ok (hdr ?s)" using assms(2,3,5,7) by (simp add: end_ok_def)
  have step: "link_remainder ptr ptr2 nxt s = (if nxt \<noteq> 512 then set_mem_prev nxt ptr2 ?s else Some ?s)"
    using assms(1,2) by (simp add: link_remainder_def set_mem_next_def)
  show ?thesis
  proof (cases "nxt = 512")
    case True
    with assms(5,6) have "ys = []" by (cases ys) auto
    with True step fin that [of ?s] assms(2) show ?thesis by simp
  next
    case False
    obtain h where "set_mem_prev nxt ptr2 ?s = Some (put_hdr nxt h ?s)" "heap_seg ((hdr ?s)(nxt \<mapsto> h)) nxt ptr2 ys"
      "end_ok ((hdr ?s)(nxt \<mapsto> h))"
      using set_prev_seg [OF seg assms(5,6) fin] by blast
    with False step that [of "put_hdr nxt h ?s"] assms(2,3) show ?thesis by simp
  qed
qed



section \<open>Allocation\<close>

fun first_fit :: "nat \<Rightarrow> nat \<Rightarrow> block list \<Rightarrow> ptr" where
  "first_fit off sz [] = None"
| "first_fit off sz ((n, u) # bl) = (if \<not> u \<and> sz + 8 \<le> n then Some off else first_fit (off + n) sz bl)"

lemma first_fit_None: "first_fit off sz bl = None \<longleftrightarrow> list_all (\<lambda>(n, u). u \<or> n < sz + 8) bl"
  by (induction off sz bl rule: first_fit.induct) auto

lemma first_fit_Some:
  "first_fit off sz bl = Some p \<Longrightarrow>
   \<exists>xs n ys. bl = xs @ (n, False) # ys \<and> p = off + ext xs \<and> sz + 8 \<le> n"
proof (induction off sz bl arbitrary: p rule: first_fit.induct)
  case (2 off sz n u bl)
  show ?case
  proof (cases "\<not> u \<and> sz + 8 \<le> n")
    case True
    with 2 show ?thesis by (intro exI [of _ "[]"]) auto
  next
    case False
    with 2(1) [OF False] 2(2) obtain xs k ys where "bl = xs @ (k, False) # ys" "p = off + n + ext xs" "sz + 8 \<le> k"
      by (auto simp del: de_Morgan_conj)
    then show ?thesis by (intro exI [of _ "(n, u) # xs"] exI [of _ k] exI [of _ ys]) simp
  qed
qed simp

lemma first_fit_skip_used: "list_all snd xs \<Longrightarrow> first_fit off sz (xs @ ys) = first_fit (off + ext xs) sz ys"
  by (induction off sz xs rule: first_fit.induct) (auto simp: add.assoc)

lemma malloc_scan_seg:
  assumes "heap_seg (hdr s) off prv bl" and "off + ext bl = 512" and "sizes_ok bl" and "sz \<le> 512"
  shows "malloc_scan s sz off = Some (first_fit off sz bl)"
  using assms
proof (induction bl arbitrary: off prv)
  case Nil
  then show ?case by (subst malloc_scan.simps) auto
next
  case (Cons b bl)
  obtain n u where b: "b = (n, u)" by (cases b)
  have m: "hdr s off = Some \<lparr>mem_next = off + n, mem_prev = prv, mem_used = u\<rparr>" and n: "20 \<le> n"
    and bound: "off + n + ext bl = 512" using Cons.prems b by auto
  have IH: "malloc_scan s sz (off + n) = Some (first_fit (off + n) sz bl)"
    using Cons.prems b bound by (intro Cons.IH [of _ off]) auto
  show ?case
  proof (cases "off < 512 - sz")
    case True
    have "usub (off + n) (off + 8) = n - 8" using bound n by (subst usub_eq) auto
    with True m n IH show ?thesis by (auto simp: malloc_scan.simps [of s sz off] b)
  next
    case False
    then have "list_all (\<lambda>(k, u). u \<or> k < sz + 8) (b # bl)"
      using bound Cons.prems(4) member_le_sum_list [of _ "map fst bl"]
      by (fastforce simp: list_all_iff b ext_def)
    then have "first_fit off sz (b # bl) = None" by (simp only: first_fit_None)
    with False show ?thesis by (simp add: malloc_scan.simps [of s sz off])
  qed
qed

lemma next_free_seg:
  assumes "heap_seg (hdr s) off prv bl" and "off + ext bl = 512" and "sizes_ok bl" and "end_ok (hdr s)"
  shows "next_free s off = Some (lowest_free off bl)"
  using assms
proof (induction bl arbitrary: off prv)
  case Nil
  then show ?case by (subst next_free.simps) (auto simp: end_ok_def split: option.splits)
next
  case (Cons b bl)
  obtain n u where b: "b = (n, u)" by (cases b)
  have m: "hdr s off = Some \<lparr>mem_next = off + n, mem_prev = prv, mem_used = u\<rparr>" and n: "20 \<le> n"
    and bound: "off + n + ext bl = 512" using Cons.prems b by auto
  have "next_free s (off + n) = Some (lowest_free (off + n) bl)"
    using Cons.prems b bound by (intro Cons.IH [of _ off]) auto
  with m n bound show ?case by (auto simp: next_free.simps [of s off] b)
qed

lemma lowest_free_split:
  obtains xs ys where "bl = xs @ ys" "list_all snd xs" "lowest_free off bl = off + ext xs" "ys = [] \<or> \<not> snd (hd ys)"
proof -
  have "bl = takeWhile snd bl @ dropWhile snd bl" by simp
  moreover have "list_all snd (takeWhile snd bl)" by (auto simp: list_all_iff dest: set_takeWhileD)
  moreover have "lowest_free off bl = off + ext (takeWhile snd bl)"
    by (induction off bl rule: lowest_free.induct) auto
  moreover have "dropWhile snd bl = [] \<or> \<not> snd (hd (dropWhile snd bl))" using hd_dropWhile [of snd bl] by blast
  ultimately show ?thesis by (rule that [of "takeWhile snd bl" "dropWhile snd bl"])
qed

lemma malloc_scan_inv:
  assumes "mem_inv bl s" and "sz \<le> 512"
  shows "malloc_scan s sz (lfree s) = Some (first_fit 0 sz bl)"
proof -
  obtain xs ys where bl: "bl = xs @ ys" "list_all snd xs" "lowest_free 0 bl = ext xs"
    by (rule lowest_free_split [of bl 0]) auto
  with assms have "malloc_scan s sz (ext xs) = Some (first_fit (ext xs) sz ys)"
    by (intro malloc_scan_seg [of _ _ "last_start 0 0 xs"]) (auto simp: mem_inv_def heap_seg_append)
  with bl assms(1) show ?thesis by (simp add: mem_inv_def first_fit_skip_used)
qed

text \<open>Taking a free block of size \<open>n\<close> for \<open>sz\<close> bytes of data.\<close>

definition taken :: "nat \<Rightarrow> nat \<Rightarrow> block list" where
  "taken sz n = (if sz + 28 \<le> n then [(sz + 8, True), (n - (sz + 8), False)] else [(n, True)])"

lemma taken_facts:
  assumes "sz + 8 \<le> n" and "12 \<le> sz" and "sz mod 4 = 0" and "n mod 4 = 0"
  shows "ext (taken sz n) = n" "sizes_ok (taken sz n)" "no_adjacent_free (taken sz n)"
    "snd (hd (taken sz n))" "taken sz n \<noteq> []" "fst (hd (taken sz n)) \<ge> sz + 8"
  using assms by (auto simp: taken_def)

definition taken_size :: "nat \<Rightarrow> nat \<Rightarrow> nat" where
  "taken_size sz n = fst (hd (taken sz n))"

lemma used_bytes_taken: "used_bytes (taken sz n) = taken_size sz n"
  by (simp add: taken_def taken_size_def)

lemma set_used_seg:
  assumes "hdr s off = Some m"
  shows "set_mem_used off v s = Some (put_hdr off (m\<lparr>mem_used := v\<rparr>) s)"
  using assms by (simp add: set_mem_used_def)

lemma take_block_seg:
  assumes seg: "heap_seg (hdr s) 0 0 (xs @ (n, False) # ys)" and ext: "ext (xs @ (n, False) # ys) = 512"
    and sizes: "sizes_ok (xs @ (n, False) # ys)" and fin: "end_ok (hdr s)"
    and sz: "sz + 8 \<le> n" "12 \<le> sz" "sz mod 4 = 0"
  obtains s' where "take_block sz (ext xs) s = Some (stats_inc_used (taken_size sz n) s')"
    "heap_seg (hdr s') 0 0 (xs @ taken sz n @ ys)" "end_ok (hdr s')"
    "ram s' = ram s" "lfree s' = lfree s" "mem_stats s' = mem_stats s"
proof -
  let ?p = "ext xs" and ?prv = "last_start 0 0 xs"
  have m: "hdr s ?p = Some \<lparr>mem_next = ?p + n, mem_prev = ?prv, mem_used = False\<rparr>"
    and xs: "heap_seg (hdr s) 0 0 xs" and ys: "heap_seg (hdr s) (?p + n) ?p ys"
    using seg by (auto simp: heap_seg_append)
  have bound: "?p + n + ext ys = 512" "sizes_ok xs" "sizes_ok ys" using ext sizes by auto
  have xs_frame: "heap_seg h 0 0 xs" if "\<And>p. p < ?p \<Longrightarrow> h p = hdr s p" for h
    using xs that heap_seg_cong [of 0 xs h "hdr s" 0] bound(2) by auto
  have usub: "usub (?p + n) (?p + 8) = n - 8" "usub (?p + n) ?p = n"
    using bound sz by (subst usub_eq; auto)+
  show ?thesis
  proof (cases "sz + 28 \<le> n")
    case True
    let ?p2 = "?p + 8 + sz"
    have p2: "?p < ?p2" "?p2 < ?p + n" using True sz by auto
    obtain s1 where s1: "link_remainder ?p ?p2 (?p + n) s = Some s1" "heap_seg (hdr s1) (?p + n) ?p2 ys" "end_ok (hdr s1)"
      "\<forall>p < ?p. hdr s1 p = hdr s p"
      "hdr s1 ?p = Some (\<lparr>mem_next = ?p + n, mem_prev = ?prv, mem_used = False\<rparr>\<lparr>mem_next := ?p2\<rparr>)"
      "hdr s1 ?p2 = Some \<lparr>mem_next = ?p + n, mem_prev = ?p, mem_used = False\<rparr>"
      "ram s1 = ram s" "lfree s1 = lfree s" "mem_stats s1 = mem_stats s"
      by (rule link_remainder_seg [OF m p2 ys bound(1,3) fin])
    let ?s = "put_hdr ?p \<lparr>mem_next = ?p2, mem_prev = ?prv, mem_used = True\<rparr> s1"
    have "take_block sz ?p s = Some (stats_inc_used (taken_size sz n) ?s)"
      using m s1(1,5) True usub bound by (simp add: take_block_def set_mem_used_def taken_size_def taken_def)
    moreover have "heap_seg (hdr ?s) (?p + n) ?p2 ys"
      using s1(2) heap_seg_cong [of "?p + n" ys "hdr ?s" "hdr s1" ?p2] bound(3) p2 by auto
    then have "heap_seg (hdr ?s) 0 0 (xs @ taken sz n @ ys)"
      using xs_frame [of "hdr ?s"] s1(4,6) True p2 by (auto simp: heap_seg_append taken_def last_start_Cons add_ac)
    moreover have "end_ok (hdr ?s)" using s1(3) bound(1) p2 by (simp add: end_ok_def)
    ultimately show ?thesis using that [of ?s] s1(7-9) by simp
  next
    case False
    let ?s = "put_hdr ?p \<lparr>mem_next = ?p + n, mem_prev = ?prv, mem_used = True\<rparr> s"
    have "take_block sz ?p s = Some (stats_inc_used (taken_size sz n) ?s)"
      using m False usub sz by (auto simp: take_block_def set_mem_used_def taken_size_def taken_def)
    moreover have "heap_seg (hdr ?s) (?p + n) ?p ys"
      using ys heap_seg_cong [of "?p + n" ys "hdr ?s" "hdr s" ?p] bound(3) sz by auto
    then have "heap_seg (hdr ?s) 0 0 (xs @ taken sz n @ ys)"
      using xs_frame [of "hdr ?s"] False by (auto simp: heap_seg_append taken_def)
    moreover have "end_ok (hdr ?s)" using fin bound(1) sz by (simp add: end_ok_def)
    ultimately show ?thesis using that [of ?s] by simp
  qed
qed


text \<open>The statistics after handing out and taking back \<open>n\<close> bytes.\<close>

lemma stats_inc_used_ok:
  assumes "unat (st_used (mem_stats s)) = u" and "st_used (mem_stats s) \<le> st_max (mem_stats s)" and "u + n < 65536"
  shows "unat (st_used (mem_stats (stats_inc_used n s))) = u + n
    \<and> st_used (mem_stats (stats_inc_used n s)) \<le> st_max (mem_stats (stats_inc_used n s))"
proof -
  have "unat (st_used (mem_stats s) + of_nat n) = u + n" using assms by (simp add: unat_add_u16 unat_u16_of_nat)
  then show ?thesis by (auto simp: stats_inc_used_def Let_def)
qed

lemma stats_dec_used_ok:
  assumes "unat (st_used (mem_stats s)) = u" and "st_used (mem_stats s) \<le> st_max (mem_stats s)" and "n \<le> u"
  shows "unat (st_used (mem_stats (stats_dec_used n s))) = u - n
    \<and> st_used (mem_stats (stats_dec_used n s)) \<le> st_max (mem_stats (stats_dec_used n s))"
proof -
  have n: "unat (of_nat n :: u16) = n" using assms(1,3) unat_u16_less [of "st_used (mem_stats s)"]
    by (simp add: unat_u16_of_nat del: unat_u16_less)
  then have le: "(of_nat n :: u16) \<le> st_used (mem_stats s)" using assms(1,3) by (simp add: word_le_nat_alt)
  then have "unat (st_used (mem_stats s) - of_nat n) = u - n" using assms(1) n by (simp add: unat_sub)
  moreover have "unat (st_used (mem_stats s)) \<le> unat (st_max (mem_stats s))" using assms(2) by (simp add: word_le_nat_alt)
  ultimately show ?thesis using assms(1) by (simp add: stats_dec_used_def word_le_nat_alt)
qed

lemma adjust_lfree_ok:
  assumes seg: "heap_seg (hdr s) 0 0 (xs @ zs)" and "ext (xs @ zs) = 512" and "sizes_ok (xs @ zs)" and fin: "end_ok (hdr s)"
    and zs: "zs \<noteq> []" "snd (hd zs)"
    and lfree: "lfree s = lowest_free 0 (xs @ (n, False) # ys)"
  shows "\<exists>s'. adjust_lfree (ext xs) s = Some s' \<and> lfree s' = lowest_free 0 (xs @ zs)
    \<and> hdr s' = hdr s \<and> ram s' = ram s \<and> mem_stats s' = mem_stats s"
proof (cases "list_all snd xs")
  case True
  then have l: "lfree s = ext xs" using lfree by (simp add: lowest_free_append)
  have "next_free s (ext xs) = Some (lowest_free (ext xs) zs)"
    using seg assms(2-4) by (intro next_free_seg [of _ _ "last_start 0 0 xs"]) (auto simp: heap_seg_append)
  moreover have low: "lowest_free 0 (xs @ zs) = lowest_free (ext xs) zs" using True by (simp add: lowest_free_append)
  moreover obtain m where "hdr s (lowest_free (ext xs) zs) = Some m" "lowest_free (ext xs) zs = 512 \<or> \<not> mem_used m"
  proof -
    obtain us vs where uv: "zs = us @ vs" "lowest_free (ext xs) zs = ext xs + ext us" "vs = [] \<or> \<not> snd (hd vs)"
      by (rule lowest_free_split [of zs "ext xs"]) auto
    show ?thesis
    proof (cases vs)
      case Nil
      with uv assms(2) fin that show ?thesis by (auto simp: end_ok_def split: option.splits)
    next
      case (Cons v vs')
      obtain k w where "v = (k, w)" by (cases v)
      with uv seg Cons that show ?thesis by (auto simp: heap_seg_append)
    qed
  qed
  ultimately show ?thesis using l by (simp add: adjust_lfree_def)
next
  case False
  then have "lfree s < ext xs" using lfree lowest_free_less [OF False, of 0] assms(3) by (simp add: lowest_free_append)
  with False lfree show ?thesis by (simp add: adjust_lfree_def lowest_free_append)
qed

lemma mem_inv_no_adjacent_replace:
  assumes "no_adjacent_free (xs @ (n, False) # ys)" and "no_adjacent_free zs" "zs \<noteq> []" "snd (hd zs)"
  shows "no_adjacent_free (xs @ zs @ ys)"
  using assms by (cases ys) (auto simp: no_adjacent_free_append)

text \<open>The rounding of sizes.\<close>

definition rounded :: "nat \<Rightarrow> nat" where
  "rounded sz = (let sz = to_u16 (LWIP_MEM_ALIGN_SIZE sz) in if sz < MIN_SIZE_ALIGNED then MIN_SIZE_ALIGNED else sz)"

lemma rounded_facts: "12 \<le> rounded sz" "rounded sz mod 4 = 0"
proof -
  have "to_u16 (LWIP_MEM_ALIGN_SIZE sz) mod 4 = 0"
    by (simp add: to_u16_def LWIP_MEM_ALIGN_SIZE_def mod_mod_cancel)
  then show "12 \<le> rounded sz" "rounded sz mod 4 = 0" by (simp_all add: rounded_def Let_def)
qed

lemma rounded_ge: "sz \<le> 65532 \<Longrightarrow> sz \<le> rounded sz"
proof -
  assume "sz \<le> 65532"
  then have "LWIP_MEM_ALIGN_SIZE sz \<le> 65532" "sz \<le> LWIP_MEM_ALIGN_SIZE sz"
    unfolding LWIP_MEM_ALIGN_SIZE_def by presburger+
  then show ?thesis by (simp add: rounded_def Let_def)
qed

lemma mem_malloc_rounded:
  "0 < sz \<Longrightarrow> rounded sz \<le> 512 \<Longrightarrow> mem_malloc sz s = do {
     found \<leftarrow> malloc_scan s (rounded sz) (lfree s);
     case found of
       None \<Rightarrow> Some (None, stats_inc_err s)
     | Some ptr \<Rightarrow> do {
         s \<leftarrow> take_block (rounded sz) ptr s;
         s \<leftarrow> adjust_lfree ptr s;
         lwip_assert (ptr + SIZEOF_STRUCT_MEM + rounded sz \<le> MEM_SIZE_ALIGNED);
         lwip_assert ((ram s + ptr + SIZEOF_STRUCT_MEM) mod MEM_ALIGNMENT = 0);
         lwip_assert ((ram s + ptr) mod MEM_ALIGNMENT = 0);
         Some (Some (ram s + ptr + SIZEOF_STRUCT_MEM), s)
       }
   }"
proof -
  assume a: "0 < sz" "rounded sz \<le> 512"
  have "(if to_u16 (LWIP_MEM_ALIGN_SIZE sz) < 12 then 12 else to_u16 (LWIP_MEM_ALIGN_SIZE sz)) = rounded sz"
    by (simp add: rounded_def Let_def)
  moreover have "sz \<noteq> 0" "\<not> 512 < rounded sz" using a by simp_all
  ultimately show ?thesis unfolding mem_malloc_def Let_def by (simp only: if_False)
qed

lemma mem_malloc_eq:
  assumes inv: "mem_inv bl s" and "0 < sz" and "rounded sz \<le> 512"
  shows "case first_fit 0 (rounded sz) bl of
      None \<Rightarrow> mem_malloc sz s = Some (None, stats_inc_err s) \<and> mem_inv bl (stats_inc_err s)
    | Some p \<Rightarrow> \<exists>xs n ys s'. bl = xs @ (n, False) # ys \<and> p = ext xs \<and> rounded sz + 8 \<le> n
        \<and> mem_malloc sz s = Some (Some (ram s + p + 8), s') \<and> ram s' = ram s \<and> mem_inv (xs @ taken (rounded sz) n @ ys) s'"
proof (cases "first_fit 0 (rounded sz) bl")
  case None
  moreover have "mem_malloc sz s = Some (None, stats_inc_err s)"
    using assms malloc_scan_inv [OF inv assms(3)] None by (simp add: mem_malloc_rounded)
  ultimately show ?thesis using inv by (simp add: mem_inv_def stats_inc_err_def)
next
  case (Some p)
  obtain xs n ys where bl: "bl = xs @ (n, False) # ys" "p = ext xs" "rounded sz + 8 \<le> n"
    using first_fit_Some [OF Some] by auto
  note r = rounded_facts [of sz]
  have parts: "heap_seg (hdr s) 0 0 (xs @ (n, False) # ys)" "ext (xs @ (n, False) # ys) = 512"
    "sizes_ok (xs @ (n, False) # ys)" "end_ok (hdr s)" "lfree s = lowest_free 0 (xs @ (n, False) # ys)"
    "no_adjacent_free (xs @ (n, False) # ys)"
    using inv bl by (simp_all add: mem_inv_def)
  let ?zs = "taken (rounded sz) n"
  have "n mod 4 = 0" using parts(3) by simp
  note t = taken_facts [OF bl(3) r this]
  obtain s1 where s1: "take_block (rounded sz) (ext xs) s = Some (stats_inc_used (taken_size (rounded sz) n) s1)"
    "heap_seg (hdr s1) 0 0 (xs @ ?zs @ ys)" "end_ok (hdr s1)" "ram s1 = ram s" "lfree s1 = lfree s" "mem_stats s1 = mem_stats s"
    by (rule take_block_seg [OF parts(1-4) bl(3) r])
  let ?s2 = "stats_inc_used (taken_size (rounded sz) n) s1"
  have ext': "ext (xs @ ?zs @ ys) = 512" "sizes_ok (xs @ ?zs @ ys)" using parts(2,3) t by auto
  obtain s' where s': "adjust_lfree (ext xs) ?s2 = Some s'" "lfree s' = lowest_free 0 (xs @ ?zs @ ys)"
    "hdr s' = hdr s1" "ram s' = ram s" "mem_stats s' = mem_stats ?s2"
    using adjust_lfree_ok [of ?s2 xs "?zs @ ys" n ys] s1 ext' parts(5) t by (auto simp: hd_append)
  have used: "unat (st_used (mem_stats s')) = used_bytes (xs @ ?zs @ ys) \<and> st_used (mem_stats s') \<le> st_max (mem_stats s')"
    using stats_inc_used_ok [of s1 "used_bytes xs + used_bytes ys" "taken_size (rounded sz) n"] inv bl(1) s1(6) s'(5)
      used_bytes_le [of "xs @ ?zs @ ys"] ext'(1)
    by (simp add: mem_inv_def used_bytes_taken add_ac)
  have "mem_inv (xs @ ?zs @ ys) s'"
    using s1 s' ext' used t inv mem_inv_no_adjacent_replace [OF parts(6) t(3,5,4)]
    by (simp add: mem_inv_def)
  moreover have "mem_malloc sz s = Some (Some (ram s + p + 8), s')"
  proof -
    have "ext xs mod 4 = 0" using parts(3) ext_mod by simp
    moreover have "ram s mod 4 = 0" using inv by (simp add: mem_inv_def)
    ultimately have "(ram s + ext xs) mod 4 = 0" "(ram s + ext xs + 8) mod 4 = 0" by presburger+
    then show ?thesis
      using assms(2,3) malloc_scan_inv [OF inv assms(3)] Some s1(1) s'(1,4) bl parts(2)
      by (simp add: mem_malloc_rounded)
  qed
  ultimately show ?thesis using Some bl s'(4) by auto
qed



section \<open>Release\<close>

text \<open>Joining the free block of size \<open>n\<close> with a free successor and a free predecessor.\<close>

fun join_right :: "nat \<Rightarrow> block list \<Rightarrow> block list" where
  "join_right n ((k, False) # ys) = (n + k, False) # ys"
| "join_right n ys = (n, False) # ys"

definition join_left :: "block list \<Rightarrow> block list \<Rightarrow> block list" where
  "join_left xs ys = (if xs \<noteq> [] \<and> \<not> snd (last xs) \<and> ys \<noteq> [] then butlast xs @ (fst (last xs) + fst (hd ys), False) # tl ys
     else xs @ ys)"

lemma join_right_shape:
  "\<exists>k zs. join_right n ys = (k, False) # zs \<and> n \<le> k \<and> k + ext zs = n + ext ys \<and> used_bytes zs = used_bytes ys
     \<and> (n mod 4 = 0 \<and> 20 \<le> n \<and> sizes_ok ys \<longrightarrow> sizes_ok ((k, False) # zs))
     \<and> (no_adjacent_free ys \<longrightarrow> no_adjacent_free ((k, False) # zs))"
proof (cases ys)
  case (Cons b bl)
  obtain k u where b: "b = (k, u)" by (cases b)
  show ?thesis
  proof (cases u)
    case True
    with Cons b show ?thesis by (intro exI [of _ n] exI [of _ ys]) auto
  next
    case False
    then have "no_adjacent_free ys \<longrightarrow> no_adjacent_free ((n + k, False) # bl)"
      using Cons b by (cases bl) auto
    with False Cons b show ?thesis by (intro exI [of _ "n + k"] exI [of _ bl]) (auto simp: mod_add_eq [symmetric])
  qed
qed simp

lemma plug_forward_seg:
  assumes seg: "heap_seg (hdr s) 0 0 (xs @ (n, False) # ys)" and ext: "ext (xs @ (n, False) # ys) = 512"
    and sizes: "sizes_ok (xs @ (n, False) # ys)" and fin: "end_ok (hdr s)" and lf: "lfree s \<le> ext xs"
  obtains s' where "plug_forward (ext xs) s = Some s'" "heap_seg (hdr s') 0 0 (xs @ join_right n ys)"
    "end_ok (hdr s')" "lfree s' = lfree s" "ram s' = ram s" "mem_stats s' = mem_stats s"
proof -
  let ?p = "ext xs" and ?prv = "last_start 0 0 xs"
  have m: "hdr s ?p = Some \<lparr>mem_next = ?p + n, mem_prev = ?prv, mem_used = False\<rparr>"
    and xs: "heap_seg (hdr s) 0 0 xs" and ys: "heap_seg (hdr s) (?p + n) ?p ys" using seg by (auto simp: heap_seg_append)
  have bound: "?p + n + ext ys = 512" "sizes_ok xs" "sizes_ok ys" "20 \<le> n" using ext sizes by auto
  consider (join) k zs where "ys = (k, False) # zs" | (used) k zs where "ys = (k, True) # zs" | (last) "ys = []"
    by (metis (full_types) list.exhaust prod.exhaust)
  then show ?thesis
  proof cases
    case join
    have nm: "hdr s (?p + n) = Some \<lparr>mem_next = ?p + n + k, mem_prev = ?p, mem_used = False\<rparr>" and k: "20 \<le> k"
      and zs: "heap_seg (hdr s) (?p + n + k) (?p + n) zs" "?p + n + k + ext zs = 512" "sizes_ok zs"
      using ys bound join by auto
    let ?s = "put_hdr ?p \<lparr>mem_next = ?p + n + k, mem_prev = ?prv, mem_used = False\<rparr> s"
    have "heap_seg (hdr ?s) (?p + n + k) (?p + n) zs"
      using zs(1,3) heap_seg_cong [of "?p + n + k" zs "hdr ?s" "hdr s" "?p + n"] bound(4) by auto
    moreover have "end_ok (hdr ?s)" using fin bound(1,4) by (simp add: end_ok_def)
    ultimately obtain h where h: "set_mem_prev (?p + n + k) ?p ?s = Some (put_hdr (?p + n + k) h ?s)"
      "heap_seg ((hdr ?s)(?p + n + k \<mapsto> h)) (?p + n + k) ?p zs" "end_ok ((hdr ?s)(?p + n + k \<mapsto> h))"
      using set_prev_seg [of ?s "?p + n + k" _ zs ?p] zs(2,3) by metis
    have "plug_forward ?p s = Some (put_hdr (?p + n + k) h ?s)"
      using m nm h(1) bound lf k zs(2) by (simp add: plug_forward_def set_mem_next_def Let_def)
    moreover have "heap_seg (hdr (put_hdr (?p + n + k) h ?s)) 0 0 xs"
      using xs bound(2,4) heap_seg_cong [of 0 xs "hdr (put_hdr (?p + n + k) h ?s)" "hdr s" 0] by auto
    ultimately show ?thesis
      using that [of "put_hdr (?p + n + k) h ?s"] h(2,3) join bound(4) by (simp add: heap_seg_append add_ac)
  next
    case used
    with ys bound have "hdr s (?p + n) = Some \<lparr>mem_next = ?p + n + k, mem_prev = ?p, mem_used = True\<rparr>" by simp
    with m bound used have "plug_forward ?p s = Some s" by (simp add: plug_forward_def)
    with that [of s] used seg fin show ?thesis by simp
  next
    case last
    with m bound fin have "plug_forward ?p s = Some s"
      by (auto simp: plug_forward_def end_ok_def split: option.splits)
    with that [of s] last seg fin show ?thesis by simp
  qed
qed

lemma plug_backward_seg:
  assumes seg: "heap_seg (hdr s) 0 0 (xs @ (n, False) # ys)" and ext: "ext (xs @ (n, False) # ys) = 512"
    and sizes: "sizes_ok (xs @ (n, False) # ys)" and fin: "end_ok (hdr s)"
    and lf: "xs \<noteq> [] \<Longrightarrow> \<not> snd (last xs) \<Longrightarrow> lfree s < ext xs"
  obtains s' where "plug_backward (ext xs) s = Some s'" "heap_seg (hdr s') 0 0 (join_left xs ((n, False) # ys))"
    "end_ok (hdr s')" "lfree s' = lfree s" "ram s' = ram s" "mem_stats s' = mem_stats s"
proof -
  let ?p = "ext xs" and ?prv = "last_start 0 0 xs"
  have m: "hdr s ?p = Some \<lparr>mem_next = ?p + n, mem_prev = ?prv, mem_used = False\<rparr>"
    and xs: "heap_seg (hdr s) 0 0 xs" and ys: "heap_seg (hdr s) (?p + n) ?p ys" using seg by (auto simp: heap_seg_append)
  have bound: "?p + n + ext ys = 512" "sizes_ok xs" "sizes_ok ys" "20 \<le> n" using ext sizes by auto
  consider (join) k ws where "xs = ws @ [(k, False)]" | (used) k ws where "xs = ws @ [(k, True)]" | (first) "xs = []"
    by (metis (full_types) rev_exhaust prod.exhaust)
  then show ?thesis
  proof cases
    case join
    let ?q = "ext ws" and ?pq = "last_start 0 0 ws"
    have pm: "hdr s ?q = Some \<lparr>mem_next = ?p, mem_prev = ?pq, mem_used = False\<rparr>" and ws: "heap_seg (hdr s) 0 0 ws"
      and k: "20 \<le> k" "sizes_ok ws" "?p = ?q + k" "?prv = ?q"
      using xs bound join by (auto simp: heap_seg_append)
    let ?s = "put_hdr ?q \<lparr>mem_next = ?p + n, mem_prev = ?pq, mem_used = False\<rparr> s"
    have "heap_seg (hdr ?s) (?p + n) ?p ys"
      using ys bound(3,4) k heap_seg_cong [of "?p + n" ys "hdr ?s" "hdr s" ?p] by auto
    moreover have "end_ok (hdr ?s)" using fin bound(1,4) k by (simp add: end_ok_def)
    ultimately obtain h where h: "set_mem_prev (?p + n) ?q ?s = Some (put_hdr (?p + n) h ?s)"
      "heap_seg ((hdr ?s)(?p + n \<mapsto> h)) (?p + n) ?q ys" "end_ok ((hdr ?s)(?p + n \<mapsto> h))"
      using set_prev_seg [of ?s "?p + n" _ ys ?q] bound(1,3) by metis
    have "plug_backward ?p s = Some (put_hdr (?p + n) h ?s)"
      using m pm h(1) bound lf k join by (simp add: plug_backward_def set_mem_next_def Let_def)
    moreover have "heap_seg (hdr (put_hdr (?p + n) h ?s)) 0 0 ws"
      using ws k bound(4) heap_seg_cong [of 0 ws "hdr (put_hdr (?p + n) h ?s)" "hdr s" 0] by auto
    ultimately show ?thesis
      using that [of "put_hdr (?p + n) h ?s"] h(2,3) join bound(4) k(1,3) by (simp add: heap_seg_append join_left_def add_ac)
  next
    case used
    with xs bound have "hdr s ?prv = Some \<lparr>mem_next = ?p, mem_prev = last_start 0 0 ws, mem_used = True\<rparr>"
      by (simp add: heap_seg_append)
    with m have "plug_backward ?p s = Some s" by (simp add: plug_backward_def)
    with that [of s] used seg fin show ?thesis by (simp add: join_left_def)
  next
    case first
    with m have "plug_backward ?p s = Some s" by (simp add: plug_backward_def)
    with that [of s] first seg fin show ?thesis by (simp add: join_left_def)
  qed
qed


lemma join_left_facts:
  assumes "sizes_ok xs" and "20 \<le> k" "k mod 4 = 0" "sizes_ok zs" and "no_adjacent_free xs" "no_adjacent_free ((k, False) # zs)"
  shows "ext (join_left xs ((k, False) # zs)) = ext xs + k + ext zs \<and> sizes_ok (join_left xs ((k, False) # zs))
    \<and> used_bytes (join_left xs ((k, False) # zs)) = used_bytes xs + used_bytes zs
    \<and> no_adjacent_free (join_left xs ((k, False) # zs))
    \<and> lowest_free 0 (join_left xs ((k, False) # zs)) = lowest_free 0 (xs @ (k, False) # zs)"
proof (cases xs rule: rev_cases)
  case Nil
  with assms show ?thesis by (simp add: join_left_def)
next
  case (snoc ws b)
  obtain j u where b: "b = (j, u)" by (cases b)
  have "no_adjacent_free ((j + k, False) # zs)" using assms(6) by (cases zs) auto
  with snoc b assms show ?thesis
    by (cases u) (auto simp: join_left_def no_adjacent_free_append lowest_free_append mod_add_eq [symmetric])
qed

definition freed :: "block list \<Rightarrow> nat \<Rightarrow> block list \<Rightarrow> block list" where
  "freed xs n ys = join_left xs (join_right n ys)"

lemma plug_holes_seg:
  assumes seg: "heap_seg (hdr s) 0 0 (xs @ (n, False) # ys)" and ext: "ext (xs @ (n, False) # ys) = 512"
    and sizes: "sizes_ok (xs @ (n, False) # ys)" and fin: "end_ok (hdr s)" and lf: "lfree s = lowest_free 0 (xs @ (n, False) # ys)"
  obtains s' where "plug_holes (ext xs) s = Some s'" "heap_seg (hdr s') 0 0 (freed xs n ys)"
    "end_ok (hdr s')" "lfree s' = lfree s" "ram s' = ram s" "mem_stats s' = mem_stats s"
proof -
  have less: "lfree s < ext xs" if "\<not> list_all snd xs"
    using lf that lowest_free_less [OF that, of 0] sizes by (simp add: lowest_free_append)
  then have le: "lfree s \<le> ext xs" using lf by (cases "list_all snd xs") (auto simp: lowest_free_append)
  obtain s1 where s1: "plug_forward (ext xs) s = Some s1" "heap_seg (hdr s1) 0 0 (xs @ join_right n ys)"
    "end_ok (hdr s1)" "lfree s1 = lfree s" "ram s1 = ram s" "mem_stats s1 = mem_stats s"
    by (rule plug_forward_seg [OF seg ext sizes fin le])
  obtain k zs where k: "join_right n ys = (k, False) # zs" "k + ext zs = n + ext ys" "sizes_ok ((k, False) # zs)"
    using join_right_shape [of n ys] sizes by auto
  obtain s' where "plug_backward (ext xs) s1 = Some s'" "heap_seg (hdr s') 0 0 (join_left xs ((k, False) # zs))"
    "end_ok (hdr s')" "lfree s' = lfree s" "ram s' = ram s" "mem_stats s' = mem_stats s"
  proof (rule plug_backward_seg [of s1 xs k zs])
    show "lfree s1 < ext xs" if "xs \<noteq> []" "\<not> snd (last xs)"
    proof -
      have "\<not> list_all snd xs" using that last_in_set [of xs] by (auto simp: list_all_iff)
      with less s1(4) show ?thesis by simp
    qed
  qed (use s1 k ext sizes in auto)
  moreover have "hdr s (ext xs) = Some \<lparr>mem_next = ext xs + n, mem_prev = last_start 0 0 xs, mem_used = False\<rparr>"
    using seg by (simp add: heap_seg_append)
  ultimately show ?thesis
    using that [of s'] s1(1) ext sizes k(1) by (simp add: plug_holes_def freed_def)
qed

lemma freed_facts:
  assumes "sizes_ok (xs @ (n, u) # ys)" and "no_adjacent_free xs" "no_adjacent_free ys"
  shows "ext (freed xs n ys) = ext (xs @ (n, u) # ys)" "sizes_ok (freed xs n ys)"
    "used_bytes (freed xs n ys) = used_bytes xs + used_bytes ys" "no_adjacent_free (freed xs n ys)"
    "lowest_free 0 (freed xs n ys) = lowest_free 0 (xs @ (n, False) # ys)"
proof -
  obtain k zs where k: "join_right n ys = (k, False) # zs" "n \<le> k" "k + ext zs = n + ext ys" "used_bytes zs = used_bytes ys"
    "sizes_ok ((k, False) # zs)" "no_adjacent_free ((k, False) # zs)"
    using join_right_shape [of n ys] assms by auto
  note j = join_left_facts [OF _ _ _ _ assms(2) k(6)]
  show "ext (freed xs n ys) = ext (xs @ (n, u) # ys)" "sizes_ok (freed xs n ys)"
    "used_bytes (freed xs n ys) = used_bytes xs + used_bytes ys" "no_adjacent_free (freed xs n ys)"
    using j k assms by (simp_all add: freed_def)
  show "lowest_free 0 (freed xs n ys) = lowest_free 0 (xs @ (n, False) # ys)"
    using j k assms by (simp add: freed_def lowest_free_append)
qed

lemma mem_free_eq:
  assumes inv: "mem_inv (xs @ (n, True) # ys) s"
  shows "\<exists>s'. mem_free (Some (ram s + ext xs + 8)) s = Some s' \<and> ram s' = ram s \<and> mem_inv (freed xs n ys) s'"
proof -
  let ?p = "ext xs" and ?m = "\<lparr>mem_next = ext xs + n, mem_prev = last_start 0 0 xs, mem_used = True\<rparr>"
  have parts: "heap_seg (hdr s) 0 0 (xs @ (n, True) # ys)" "ext (xs @ (n, True) # ys) = 512" "sizes_ok (xs @ (n, True) # ys)"
    "end_ok (hdr s)" "lfree s = lowest_free 0 (xs @ (n, True) # ys)" "ram s mod 4 = 0"
    "no_adjacent_free (xs @ (n, True) # ys)" using inv by (simp_all add: mem_inv_def)
  have m: "hdr s ?p = Some ?m" using parts(1) by (simp add: heap_seg_append)
  let ?s1 = "put_hdr ?p (?m\<lparr>mem_used := False\<rparr>) s"
  let ?s2 = "stats_dec_used n (if ?p < lfree s then set_lfree ?p ?s1 else ?s1)"
  have seg: "heap_seg (hdr ?s2) 0 0 (xs @ (n, False) # ys)"
  proof -
    have "heap_seg ((hdr s)(?p \<mapsto> h)) 0 0 xs" "heap_seg ((hdr s)(?p \<mapsto> h)) (?p + n) ?p ys" for h
      using parts(1,3) heap_seg_cong [of 0 xs "(hdr s)(?p \<mapsto> h)" "hdr s" 0]
        heap_seg_cong [of "?p + n" ys "(hdr s)(?p \<mapsto> h)" "hdr s" ?p] by (auto simp: heap_seg_append)
    then show ?thesis by (simp add: heap_seg_append)
  qed
  have lf: "lfree ?s2 = lowest_free 0 (xs @ (n, False) # ys)"
  proof (cases "list_all snd xs")
    case True
    then have "ext xs < lowest_free 0 (xs @ (n, True) # ys)"
      using lowest_free_ge [of "?p + n" ys] parts(3) by (simp add: lowest_free_append)
    with True parts(5) show ?thesis by (simp add: lowest_free_append)
  next
    case False
    then have "lfree s < ?p" using parts(3,5) lowest_free_less [OF False, of 0] by (simp add: lowest_free_append)
    with False parts(5) show ?thesis by (simp add: lowest_free_append)
  qed
  have fin: "end_ok (hdr ?s2)" using parts(2-4) by (simp add: end_ok_def)
  obtain s' where s': "plug_holes ?p ?s2 = Some s'" "heap_seg (hdr s') 0 0 (freed xs n ys)"
    "end_ok (hdr s')" "lfree s' = lfree ?s2" "ram s' = ram ?s2" "mem_stats s' = mem_stats ?s2"
    using plug_holes_seg [OF seg _ _ fin lf] parts(2,3) by auto
  have "usub (?p + n) ?p = n" using parts(2) by (subst usub_eq) auto
  moreover have "(ram s + ?p + 8) mod 4 = 0" using parts(3,6) ext_mod [of xs] by simp presburger
  ultimately have "mem_free (Some (ram s + ?p + 8)) s = Some s'"
    using m parts(2,3) s'(1) by (simp add: mem_free_def hdr_of_def set_mem_used_def Let_def)
  moreover have "mem_inv (freed xs n ys) s'"
  proof -
    have adj: "no_adjacent_free xs" "no_adjacent_free ys"
      using parts(7) by (simp_all add: no_adjacent_free_append) (cases ys, simp_all)
    have "unat (st_used (mem_stats s')) = used_bytes xs + used_bytes ys \<and> st_used (mem_stats s') \<le> st_max (mem_stats s')"
      using inv s'(6) stats_dec_used_ok [of "if ?p < lfree s then set_lfree ?p ?s1 else ?s1" "used_bytes (xs @ (n, True) # ys)" n]
      by (auto simp: mem_inv_def split: if_splits)
    then show ?thesis using s' lf parts(2,6) freed_facts [OF parts(3) adj] by (simp add: mem_inv_def)
  qed
  ultimately show ?thesis using s'(5) by auto
qed



section \<open>Shrinking\<close>

text \<open>The blocks from a used block of size \<open>n\<close> on, after it was shrunk to \<open>r\<close> bytes of data.\<close>

fun trimmed :: "nat \<Rightarrow> nat \<Rightarrow> block list \<Rightarrow> block list" where
  "trimmed r n ((k, False) # zs) =
     (if r + 8 = n then (n, True) # (k, False) # zs else (r + 8, True) # (n - (r + 8) + k, False) # zs)"
| "trimmed r n ys = (if r + 28 \<le> n then (r + 8, True) # (n - (r + 8), False) # ys else (n, True) # ys)"

lemma trim_link:
  assumes inv: "mem_inv (xs @ (n, True) # ys) s" and r: "12 \<le> r" "r mod 4 = 0" "r + 8 < n"
    and zs: "heap_seg (hdr s) (ext xs + n + j) prv zs" "ext xs + n + j + ext zs = 512" "sizes_ok zs"
      "no_adjacent_free ((j, False) # zs)" "used_bytes zs = used_bytes ys"
    and j: "r + 28 \<le> n + j" "j mod 4 = 0"
    and L: "L = lowest_free 0 (xs @ (r + 8, True) # (n - (r + 8) + j, False) # zs)"
  obtains s' where "link_remainder (ext xs) (ext xs + 8 + r) (ext xs + n + j) (set_lfree L s) = Some s'"
    "ram s' = ram s"
    "mem_inv (xs @ (r + 8, True) # (n - (r + 8) + j, False) # zs) (stats_dec_used (n - 8 - r) s')"
proof -
  let ?p = "ext xs" and ?m = "\<lparr>mem_next = ext xs + n, mem_prev = last_start 0 0 xs, mem_used = True\<rparr>"
  let ?s = "set_lfree L s" and ?p2 = "ext xs + 8 + r" and ?N = "ext xs + n + j"
  have parts: "heap_seg (hdr s) 0 0 (xs @ (n, True) # ys)" "sizes_ok (xs @ (n, True) # ys)" "end_ok (hdr s)" "ram s mod 4 = 0"
    "no_adjacent_free xs" "xs = [] \<or> True" using inv by (auto simp: mem_inv_def no_adjacent_free_append)
  have m: "hdr ?s ?p = Some ?m" using parts(1) by (simp add: heap_seg_append)
  have p2: "?p < ?p2" "?p2 < ?N" using r j by auto
  obtain s' where s': "link_remainder ?p ?p2 ?N ?s = Some s'" "heap_seg (hdr s') ?N ?p2 zs" "end_ok (hdr s')"
    "\<forall>p < ?p. hdr s' p = hdr ?s p" "hdr s' ?p = Some (?m\<lparr>mem_next := ?p2\<rparr>)"
    "hdr s' ?p2 = Some \<lparr>mem_next = ?N, mem_prev = ?p, mem_used = False\<rparr>"
    "ram s' = ram ?s" "lfree s' = lfree ?s" "mem_stats s' = mem_stats ?s"
    by (rule link_remainder_seg [OF m p2, of prv zs]) (use zs parts(3) in simp_all)
  have "heap_seg (hdr s') 0 0 xs"
    using s'(4) parts(1,2) heap_seg_cong [of 0 xs "hdr s'" "hdr s" 0] by (auto simp: heap_seg_append)
  then have "heap_seg (hdr s') 0 0 (xs @ (r + 8, True) # (n - (r + 8) + j, False) # zs)"
    using s'(2,5,6) r(3) by (simp add: heap_seg_append add_ac)
  moreover have "sizes_ok (xs @ (r + 8, True) # (n - (r + 8) + j, False) # zs)"
  proof -
    have "n mod 4 = 0" using parts(2) by simp
    then have "(n - (r + 8) + j) mod 4 = 0" "(r + 8) mod 4 = 0" "20 \<le> n - (r + 8) + j" "20 \<le> r + 8"
      using r j by presburger+
    with parts(2) zs(3) show ?thesis by (simp only: sizes_ok_simps)
  qed
  moreover have "no_adjacent_free (xs @ (r + 8, True) # (n - (r + 8) + j, False) # zs)"
    using parts(5) zs(4) by (cases zs) (auto simp: no_adjacent_free_append)
  moreover have "unat (st_used (mem_stats (stats_dec_used (n - 8 - r) s'))) = used_bytes (xs @ (r + 8, True) # (n - (r + 8) + j, False) # zs)
    \<and> st_used (mem_stats (stats_dec_used (n - 8 - r) s')) \<le> st_max (mem_stats (stats_dec_used (n - 8 - r) s'))"
    using stats_dec_used_ok [of s' "used_bytes (xs @ (n, True) # ys)" "n - 8 - r"] inv s'(9) zs(5) r(3)
    by (simp add: mem_inv_def)
  ultimately have "mem_inv (xs @ (r + 8, True) # (n - (r + 8) + j, False) # zs) (stats_dec_used (n - 8 - r) s')"
    using s'(3,7,8) L parts(4) zs(2) r(3) by (simp add: mem_inv_def)
  with that s'(1,7) show ?thesis by simp
qed

lemma mem_trim_rounded:
  "rounded newsize \<le> 512 \<Longrightarrow> mem_trim rmem newsize s = do {
     lwip_assert (rmem \<ge> ram s \<and> rmem < ram s + MEM_SIZE_ALIGNED);
     ptr \<leftarrow> hdr_of s rmem;
     m \<leftarrow> hdr s ptr;
     let sz = to_u16 (usub (usub (mem_next m) ptr) SIZEOF_STRUCT_MEM);
     lwip_assert (rounded newsize \<le> sz);
     if rounded newsize = sz then Some (Some rmem, s)
     else do {
       m2 \<leftarrow> hdr s (mem_next m);
       if \<not> mem_used m2 then do {
         let ptr2 = to_u16 (ptr + SIZEOF_STRUCT_MEM + rounded newsize);
         let s = (if lfree s = mem_next m then set_lfree ptr2 s else s);
         s \<leftarrow> link_remainder ptr ptr2 (mem_next m2) s;
         Some (Some rmem, stats_dec_used (sz - rounded newsize) s)
       } else if rounded newsize + SIZEOF_STRUCT_MEM + MIN_SIZE_ALIGNED \<le> sz then do {
         let ptr2 = to_u16 (ptr + SIZEOF_STRUCT_MEM + rounded newsize);
         let s = (if ptr2 < lfree s then set_lfree ptr2 s else s);
         s \<leftarrow> link_remainder ptr ptr2 (mem_next m) s;
         Some (Some rmem, stats_dec_used (sz - rounded newsize) s)
       } else Some (Some rmem, s)
     }
   }"
proof -
  assume a: "rounded newsize \<le> 512"
  have "(if to_u16 (LWIP_MEM_ALIGN_SIZE newsize) < 12 then 12 else to_u16 (LWIP_MEM_ALIGN_SIZE newsize)) = rounded newsize"
    by (simp add: rounded_def Let_def)
  moreover have "\<not> 512 < rounded newsize" using a by simp
  ultimately show ?thesis unfolding mem_trim_def Let_def by (simp only: if_False)
qed

lemma set_lfree_same: "set_lfree (lfree s) s = s"
  by (simp add: set_lfree_def)

lemma mem_trim_eq:
  assumes inv: "mem_inv (xs @ (n, True) # ys) s" and r: "rounded newsize + 8 \<le> n"
  shows "\<exists>s'. mem_trim (ram s + ext xs + 8) newsize s = Some (Some (ram s + ext xs + 8), s')
    \<and> ram s' = ram s \<and> mem_inv (xs @ trimmed (rounded newsize) n ys) s'"
proof -
  let ?p = "ext xs" and ?r = "rounded newsize" and ?m = "\<lparr>mem_next = ext xs + n, mem_prev = last_start 0 0 xs, mem_used = True\<rparr>"
  have parts: "heap_seg (hdr s) 0 0 (xs @ (n, True) # ys)" "ext (xs @ (n, True) # ys) = 512" "sizes_ok (xs @ (n, True) # ys)"
    "end_ok (hdr s)" "lfree s = lowest_free 0 (xs @ (n, True) # ys)" "no_adjacent_free (xs @ (n, True) # ys)"
    using inv by (simp_all add: mem_inv_def)
  have m: "hdr s ?p = Some ?m" and ys: "heap_seg (hdr s) (?p + n) ?p ys" using parts(1) by (simp_all add: heap_seg_append)
  note rf = rounded_facts [of newsize]
  have bound: "?p + n + ext ys = 512" "sizes_ok ys" using parts by auto
  have sz: "to_u16 (usub (usub (?p + n) ?p) 8) = n - 8"
    using bound r by (subst usub_eq; simp)+
  have "?r \<le> 512" using bound r by linarith
  note step = mem_trim_rounded [OF this, of "ram s + ?p + 8" s]
  have less: "lfree s < ?p" if "\<not> list_all snd xs"
    using parts(3,5) that lowest_free_less [OF that, of 0] by (simp add: lowest_free_append)
  consider (same) "?r + 8 = n" | (grow) k zs where "?r + 8 < n" "ys = (k, False) # zs"
    | (cut) "?r + 8 < n" "?r + 28 \<le> n" "\<nexists>k zs. ys = (k, False) # zs" | (keep) "?r + 8 < n" "\<not> ?r + 28 \<le> n" "\<nexists>k zs. ys = (k, False) # zs"
    using r by fastforce
  then show ?thesis
  proof cases
    case same
    then have "trimmed ?r n ys = (n, True) # ys" by (cases "(?r, n, ys)" rule: trimmed.cases) auto
    moreover have "mem_trim (ram s + ?p + 8) newsize s = Some (Some (ram s + ?p + 8), s)"
      unfolding step using m sz same bound rf by (auto simp: hdr_of_def Let_def)
    ultimately show ?thesis using inv by auto
  next
    case grow
    have m2: "hdr s (?p + n) = Some \<lparr>mem_next = ?p + n + k, mem_prev = ?p, mem_used = False\<rparr>"
      and zs: "heap_seg (hdr s) (?p + n + k) (?p + n) zs" using ys grow by auto
    let ?L = "if lfree s = ?p + n then ?p + 8 + ?r else lfree s"
    have L: "?L = lowest_free 0 (xs @ (?r + 8, True) # (n - (?r + 8) + k, False) # zs)"
      using parts(5) less grow by (cases "list_all snd xs") (auto simp: lowest_free_append)
    have adj: "no_adjacent_free ((k, False) # zs)" using parts(6) grow by (simp add: no_adjacent_free_append)
    obtain s' where s': "link_remainder ?p (?p + 8 + ?r) (?p + n + k) (set_lfree ?L s) = Some s'" "ram s' = ram s"
      "mem_inv (xs @ (?r + 8, True) # (n - (?r + 8) + k, False) # zs) (stats_dec_used (n - 8 - ?r) s')"
      by (rule trim_link [OF inv rf grow(1) zs _ _ adj _ _ _ L]) (use bound grow in auto)
    have "mem_trim (ram s + ?p + 8) newsize s = Some (Some (ram s + ?p + 8), stats_dec_used (n - 8 - ?r) s')"
      unfolding step using m m2 sz grow bound s'(1) by (auto simp: hdr_of_def Let_def set_lfree_same)
    with s' grow show ?thesis by simp
  next
    case cut
    obtain m2 where m2: "hdr s (?p + n) = Some m2" "mem_used m2"
      using ys cut parts(4) bound by (cases "(?r, n, ys)" rule: trimmed.cases) (auto simp: end_ok_def split: option.splits)
    let ?L = "if ?p + 8 + ?r < lfree s then ?p + 8 + ?r else lfree s"
    have L: "?L = lowest_free 0 (xs @ (?r + 8, True) # (n - (?r + 8) + 0, False) # ys)"
      using parts(5) less cut lowest_free_ge [of "?p + n" ys] by (cases "list_all snd xs") (auto simp: lowest_free_append)
    have adj: "no_adjacent_free ((0, False) # ys)"
      using parts(6) cut(3) by (cases "(?r, n, ys)" rule: trimmed.cases) (auto simp: no_adjacent_free_append)
    obtain s' where s': "link_remainder ?p (?p + 8 + ?r) (?p + n + 0) (set_lfree ?L s) = Some s'" "ram s' = ram s"
      "mem_inv (xs @ (?r + 8, True) # (n - (?r + 8) + 0, False) # ys) (stats_dec_used (n - 8 - ?r) s')"
      by (rule trim_link [OF inv rf cut(1) _ _ _ adj _ _ _ L, of ?p]) (use bound cut ys in auto)
    have "mem_trim (ram s + ?p + 8) newsize s = Some (Some (ram s + ?p + 8), stats_dec_used (n - 8 - ?r) s')"
      unfolding step using m m2 sz cut bound s'(1) by (auto simp: hdr_of_def Let_def set_lfree_same)
    moreover have "trimmed ?r n ys = (?r + 8, True) # (n - (?r + 8), False) # ys"
      using cut by (cases "(?r, n, ys)" rule: trimmed.cases) auto
    ultimately show ?thesis using s' by simp
  next
    case keep
    obtain m2 where m2: "hdr s (?p + n) = Some m2" "mem_used m2"
      using ys keep parts(4) bound by (cases "(?r, n, ys)" rule: trimmed.cases) (auto simp: end_ok_def split: option.splits)
    have "trimmed ?r n ys = (n, True) # ys" using keep by (cases "(?r, n, ys)" rule: trimmed.cases) auto
    moreover have "mem_trim (ram s + ?p + 8) newsize s = Some (Some (ram s + ?p + 8), s)"
      unfolding step using m m2 sz keep bound by (auto simp: hdr_of_def Let_def)
    ultimately show ?thesis using inv by auto
  qed
qed



section \<open>Allocations\<close>

text \<open>The data areas handed out: for each used block the offset of its data and their size.\<close>

fun allocs :: "nat \<Rightarrow> block list \<Rightarrow> (nat \<times> nat) list" where
  "allocs off [] = []"
| "allocs off ((n, u) # bl) = (if u then [(off + 8, n - 8)] else []) @ allocs (off + n) bl"

lemma allocs_append: "allocs off (xs @ ys) = allocs off xs @ allocs (off + ext xs) ys"
  by (induction off xs rule: allocs.induct) (auto simp: add.assoc)

lemma allocs_range: "(q, k) \<in> set (allocs off bl) \<Longrightarrow> sizes_ok bl \<Longrightarrow> off + 8 \<le> q \<and> q + k \<le> off + ext bl \<and> 12 \<le> k"
proof (induction off bl rule: allocs.induct)
  case (2 off n u bl)
  then show ?case by (auto split: if_splits)
qed simp

lemma allocs_split:
  "(q, k) \<in> set (allocs off bl) \<Longrightarrow> sizes_ok bl \<Longrightarrow>
   \<exists>xs ys. bl = xs @ (k + 8, True) # ys \<and> q = off + ext xs + 8"
proof (induction off bl rule: allocs.induct)
  case (2 off n u bl)
  show ?case
  proof (cases "u \<and> q = off + 8 \<and> k = n - 8")
    case True
    with 2(3) show ?thesis by (intro exI [of _ "[]"] exI [of _ bl]) simp
  next
    case False
    with 2 obtain xs ys where "bl = xs @ (k + 8, True) # ys" "q = off + n + ext xs + 8" by (auto split: if_splits)
    then show ?thesis by (intro exI [of _ "(n, u) # xs"] exI [of _ ys]) simp
  qed
qed simp

lemma allocs_join_right: "allocs off (join_right n ys) = allocs (off + n) ys"
  by (cases "(n, ys)" rule: join_right.cases) (auto simp: add.assoc)

lemma allocs_freed: "allocs 0 (freed xs n ys) = allocs 0 xs @ allocs (ext xs + n) ys"
proof -
  obtain k zs where k: "join_right n ys = (k, False) # zs" using join_right_shape [of n ys] by blast
  show ?thesis
  proof (cases xs rule: rev_cases)
    case Nil
    then show ?thesis using allocs_join_right [of 0 n ys] by (simp add: freed_def join_left_def)
  next
    case (snoc ws b)
    obtain j u where "b = (j, u)" by (cases b)
    with snoc k allocs_join_right [of "ext xs" n ys] show ?thesis
      by (cases u) (auto simp: freed_def join_left_def allocs_append add.assoc)
  qed
qed

lemma allocs_taken: "sz + 8 \<le> n \<Longrightarrow> allocs off (taken sz n) = [(off + 8, taken_size sz n - 8)]"
  by (simp add: taken_def taken_size_def)

lemma allocs_trimmed:
  "r + 8 \<le> n \<Longrightarrow> \<exists>k. allocs off (trimmed r n ys) = (off + 8, k) # allocs (off + n) ys \<and> r \<le> k \<and> k \<le> n - 8"
  by (cases "(r, n, ys)" rule: trimmed.cases) (auto simp: add.assoc)

lemma mem_init_inv:
  assumes "st_used (mem_stats s) = 0"
  shows "mem_inv [(512, False)] (mem_init ram_heap s)"
  using assms by (simp add: mem_inv_def mem_init_def Let_def end_ok_def)

lemma all_free_single:
  assumes "mem_inv bl s" and "allocs 0 bl = []"
  shows "bl = [(512, False)]"
proof -
  have free: "list_all (\<lambda>b. \<not> snd b) bl"
  proof -
    have "allocs off bl = [] \<Longrightarrow> list_all (\<lambda>b. \<not> snd b) bl" for off
      by (induction off bl rule: allocs.induct) (auto split: if_splits)
    with assms(2) show ?thesis by blast
  qed
  have "ext bl = 512" "no_adjacent_free bl" using assms(1) by (simp_all add: mem_inv_def)
  with free show ?thesis by (cases bl rule: remdups_adj.cases) auto
qed

text \<open>Writing data to the bytes from \<open>q\<close> to \<open>q + k\<close> destroys at most the headers that overlap with them.\<close>

definition data_written :: "nat \<Rightarrow> nat \<Rightarrow> mem_state \<Rightarrow> mem_state \<Rightarrow> bool" where
  "data_written q k s s' \<longleftrightarrow> (\<forall>p. p + 8 \<le> q \<or> q + k \<le> p \<longrightarrow> hdr s' p = hdr s p)
     \<and> ram s' = ram s \<and> lfree s' = lfree s \<and> mem_stats s' = mem_stats s"

lemma data_written_inv:
  assumes inv: "mem_inv bl s" and alloc: "(q, k) \<in> set (allocs 0 bl)" and w: "data_written q k s s'"
  shows "mem_inv bl s'"
proof -
  obtain xs ys where bl: "bl = xs @ (k + 8, True) # ys" "q = ext xs + 8"
    using allocs_split [OF alloc] inv by (auto simp: mem_inv_def)
  have parts: "heap_seg (hdr s) 0 0 bl" "sizes_ok bl" "ext bl = 512" "end_ok (hdr s)" using inv by (simp_all add: mem_inv_def)
  have same: "hdr s' p = hdr s p" if "p \<le> ext xs \<or> ext xs + 8 + k \<le> p" for p using w bl(2) that by (auto simp: data_written_def)
  have "heap_seg (hdr s') 0 0 bl"
    using parts(1,2) same heap_seg_cong [of 0 xs "hdr s'" "hdr s" 0]
      heap_seg_cong [of "ext xs + (k + 8)" ys "hdr s'" "hdr s" "ext xs"]
    unfolding bl(1) by (simp add: heap_seg_append)
  moreover have "end_ok (hdr s')" using parts(3,4) same [of 512] bl(1) by (simp add: end_ok_def)
  ultimately show ?thesis using inv w by (simp add: mem_inv_def data_written_def)
qed



section \<open>The interface of a heap\<close>

text \<open>
  What the clients of the heap rely on. \<open>areas M s\<close>: the areas handed out, with addresses and sizes, are \<open>M\<close>.
\<close>

fun free_all :: "(nat \<Rightarrow> 's \<Rightarrow> 's option) \<Rightarrow> (nat \<times> nat) list \<Rightarrow> 's \<Rightarrow> 's option" where
  "free_all release [] s = Some s"
| "free_all release ((a, k) # as) s = (case release a s of None \<Rightarrow> None | Some s \<Rightarrow> free_all release as s)"

locale area_heap =
  fixes alloc :: "nat \<Rightarrow> 's \<Rightarrow> (ptr \<times> 's) option"
    and release :: "nat \<Rightarrow> 's \<Rightarrow> 's option"
    and areas :: "(nat \<times> nat) multiset \<Rightarrow> 's \<Rightarrow> bool"
  assumes alloc_areas: "\<lbrakk>areas M s; 0 < sz; sz \<le> 65532\<rbrakk> \<Longrightarrow> \<exists>p s'. alloc sz s = Some (p, s') \<and>
      (case p of None \<Rightarrow> areas M s'
       | Some a \<Rightarrow> \<exists>k. sz \<le> k \<and> areas (add_mset (a, k) M) s' \<and> (\<forall>(b, j) \<in># M. b + j \<le> a \<or> a + k \<le> b))"
    and release_areas: "areas (add_mset (a, k) M) s \<Longrightarrow> \<exists>s'. release a s = Some s' \<and> areas M s'"
begin

text \<open>Every area obtained can be given back, which restores the areas that were handed out before.\<close>

lemma alloc_release:
  assumes "areas M s" "0 < sz" "sz \<le> 65532" "alloc sz s = Some (Some a, s')"
  shows "\<exists>s''. release a s' = Some s'' \<and> areas M s''"
  using alloc_areas [OF assms(1-3)] assms(4) release_areas by fastforce

text \<open>The areas can be given back in any order.\<close>

lemma free_all_areas:
  "areas (mset as + M) s \<Longrightarrow> \<exists>s'. free_all release as s = Some s' \<and> areas M s'"
proof (induction "as" arbitrary: s)
  case (Cons x "as")
  obtain a k where x: "x = (a, k)" by (cases x)
  with Cons.prems release_areas [of a k "mset as + M" s] obtain s1 where "release a s = Some s1" "areas (mset as + M) s1"
    by auto
  with Cons.IH [of s1] x show ?case by auto
qed simp

end

text \<open>
  A heap that also keeps its areas aligned and apart within fixed bounds, and can shrink them.
\<close>

locale bounded_heap = area_heap +
  fixes trim :: "nat \<Rightarrow> nat \<Rightarrow> 's \<Rightarrow> (ptr \<times> 's) option"
    and lo hi :: nat
  assumes areas_range: "\<lbrakk>areas M s; (a, k) \<in># M\<rbrakk> \<Longrightarrow> lo \<le> a \<and> a + k \<le> hi \<and> 12 \<le> k \<and> a mod 4 = 0"
    and areas_apart: "areas (add_mset (a, k) (add_mset (b, j) M)) s \<Longrightarrow> b + j \<le> a \<or> a + k \<le> b"
    and trim_areas: "\<lbrakk>areas (add_mset (a, k) M) s; sz \<le> k; sz \<le> 65532\<rbrakk> \<Longrightarrow>
          \<exists>k' s'. trim a sz s = Some (Some a, s') \<and> sz \<le> k' \<and> k' \<le> k \<and> areas (add_mset (a, k') M) s'"
begin

text \<open>Two areas that start at the same address are the same.\<close>

lemma areas_inj: "\<lbrakk>areas M s; (a, k) \<in># M; (a, j) \<in># M\<rbrakk> \<Longrightarrow> k = j"
proof (rule ccontr)
  assume s: "areas M s" "(a, k) \<in># M" "(a, j) \<in># M" and "k \<noteq> j"
  then obtain M' where "M = add_mset (a, k) (add_mset (a, j) M')"
    by (metis insert_DiffM insert_noteq_member prod.inject)
  with areas_apart [of a k a j M' s] areas_range [OF s(1,2)] areas_range [OF s(1,3)] s(1) show False by auto
qed

lemma areas_disjoint: "\<lbrakk>areas M s; (a, k) \<in># M; (b, j) \<in># M; a \<noteq> b\<rbrakk> \<Longrightarrow> b + j \<le> a \<or> a + k \<le> b"
  by (metis areas_apart insert_DiffM insert_noteq_member prod.inject)

end

definition mem_areas :: "nat \<Rightarrow> (nat \<times> nat) multiset \<Rightarrow> mem_state \<Rightarrow> bool" where
  "mem_areas r M s \<longleftrightarrow> ram s = r \<and> (\<exists>bl. mem_inv bl s \<and> M = mset (map (\<lambda>(q, k). (r + q, k)) (allocs 0 bl)))"

lemma mem_malloc_too_big: "0 < sz \<Longrightarrow> 512 < rounded sz \<Longrightarrow> mem_malloc sz s = Some (None, s)"
  by (simp add: mem_malloc_def rounded_def Let_def)

lemma mem_malloc_areas:
  assumes "mem_inv bl s" "0 < sz" "sz \<le> 65532" "rounded sz \<le> 512" "first_fit 0 (rounded sz) bl = Some p"
  obtains q k bl' s' where "mem_malloc sz s = Some (Some (ram s + q), s')" "mem_inv bl' s'" "ram s' = ram s"
    "(ram s + q) mod 4 = 0" "sz \<le> k" "q + k \<le> 512" "mset (allocs 0 bl') = add_mset (q, k) (mset (allocs 0 bl))"
    "list_all (\<lambda>(q', k'). q' + k' \<le> q \<or> q + k \<le> q') (allocs 0 bl)"
proof -
  from mem_malloc_eq [OF assms(1,2,4)] assms(5) obtain xs n ys s' where bl: "bl = xs @ (n, False) # ys" "p = ext xs"
    "rounded sz + 8 \<le> n" "mem_malloc sz s = Some (Some (ram s + p + 8), s')" "ram s' = ram s"
    "mem_inv (xs @ taken (rounded sz) n @ ys) s'" by auto
  have sizes: "sizes_ok xs" "sizes_ok ys" "n mod 4 = 0" "ext xs + n + ext ys = 512" "ram s mod 4 = 0"
    using assms(1) bl(1) by (auto simp: mem_inv_def)
  note t = taken_facts [OF bl(3) rounded_facts sizes(3)]
  let ?k = "taken_size (rounded sz) n - 8"
  have k: "sz \<le> ?k" "?k + 8 \<le> n"
    using rounded_ge [OF assms(3)] t(6) bl(3) by (auto simp: taken_size_def taken_def)
  have "mset (allocs 0 (xs @ taken (rounded sz) n @ ys)) = add_mset (p + 8, ?k) (mset (allocs 0 bl))"
    using bl(1-3) t(1) by (simp add: allocs_append allocs_taken add.assoc)
  moreover have "list_all (\<lambda>(q', k'). q' + k' \<le> p + 8 \<or> p + 8 + ?k \<le> q') (allocs 0 bl)"
    using allocs_range [OF _ sizes(1), of _ _ 0] allocs_range [OF _ sizes(2), of _ _ "ext xs + n"] bl(1,2) k(2)
    by (fastforce simp: list_all_iff allocs_append)
  moreover have "(ram s + (p + 8)) mod 4 = 0" using sizes(5) ext_mod [OF sizes(1)] bl(2) by presburger
  ultimately show ?thesis
    using that [of "p + 8" s' "xs @ taken (rounded sz) n @ ys" ?k] bl(2,4-6) k sizes(4) by (simp add: add.assoc)
qed

lemma mem_free_areas:
  assumes "mem_inv bl s" and "(q, k) \<in> set (allocs 0 bl)"
  shows "\<exists>bl' s'. mem_free (Some (ram s + q)) s = Some s' \<and> mem_inv bl' s' \<and> ram s' = ram s
    \<and> add_mset (q, k) (mset (allocs 0 bl')) = mset (allocs 0 bl)"
proof -
  obtain xs ys where bl: "bl = xs @ (k + 8, True) # ys" "q = ext xs + 8"
    using allocs_split [OF assms(2)] assms(1) by (auto simp: mem_inv_def)
  with mem_free_eq [of xs "k + 8" ys s] assms(1) obtain s' where
    "mem_free (Some (ram s + q)) s = Some s'" "ram s' = ram s" "mem_inv (freed xs (k + 8) ys) s'" by (auto simp: add.assoc)
  moreover have "add_mset (q, k) (mset (allocs 0 (freed xs (k + 8) ys))) = mset (allocs 0 bl)"
    unfolding allocs_freed bl by (simp add: allocs_append)
  ultimately show ?thesis by blast
qed

lemma mem_trim_areas:
  assumes "mem_inv bl s" and "(q, k) \<in> set (allocs 0 bl)" and "rounded newsize \<le> k" and "newsize \<le> 65532"
  shows "\<exists>k' bl' s'. mem_trim (ram s + q) newsize s = Some (Some (ram s + q), s') \<and> mem_inv bl' s' \<and> ram s' = ram s
    \<and> newsize \<le> k' \<and> k' \<le> k
    \<and> add_mset (q, k) (mset (allocs 0 bl')) = add_mset (q, k') (mset (allocs 0 bl))"
proof -
  obtain xs ys where bl: "bl = xs @ (k + 8, True) # ys" "q = ext xs + 8"
    using allocs_split [OF assms(2)] assms(1) by (auto simp: mem_inv_def)
  with mem_trim_eq [of xs "k + 8" ys s newsize] assms(1,3) obtain s' where
    s': "mem_trim (ram s + q) newsize s = Some (Some (ram s + q), s')" "ram s' = ram s"
    "mem_inv (xs @ trimmed (rounded newsize) (k + 8) ys) s'" by (auto simp: add.assoc)
  obtain k' where k': "allocs (ext xs) (trimmed (rounded newsize) (k + 8) ys) = (ext xs + 8, k') # allocs (ext xs + (k + 8)) ys"
    "rounded newsize \<le> k'" "k' \<le> k"
    using allocs_trimmed [of "rounded newsize" "k + 8" "ext xs" ys] assms(3) by auto
  have "add_mset (q, k) (mset (allocs 0 (xs @ trimmed (rounded newsize) (k + 8) ys))) = add_mset (q, k') (mset (allocs 0 bl))"
    using k'(1) unfolding bl by (simp add: allocs_append)
  with s' k' rounded_ge [OF assms(4)] show ?thesis by (meson order_trans)
qed

lemma mem_areasE:
  assumes "mem_areas r M s"
  obtains bl where "ram s = r" "mem_inv bl s" "M = image_mset (\<lambda>(q, k). (r + q, k)) (mset (allocs 0 bl))"
  using assms by (auto simp: mem_areas_def)

lemma mem_areasI:
  "\<lbrakk>ram s = r; mem_inv bl s; M = image_mset (\<lambda>(q, k). (r + q, k)) (mset (allocs 0 bl))\<rbrakk> \<Longrightarrow> mem_areas r M s"
  by (auto simp: mem_areas_def)

lemma mem_areas_member:
  assumes "M = image_mset (\<lambda>(q, k). (r + q, k)) (mset (allocs 0 bl))" and "(a, k) \<in># M"
  obtains q where "a = r + q" "(q, k) \<in> set (allocs 0 bl)"
  using assms by auto

lemma allocs_mod4: "(q, k) \<in> set (allocs off bl) \<Longrightarrow> sizes_ok bl \<Longrightarrow> off mod 4 = 0 \<Longrightarrow> q mod 4 = 0 \<and> k mod 4 = 0"
proof (induction off bl rule: allocs.induct)
  case (2 off n u bl)
  then have "20 \<le> n" "n mod 4 = 0" "sizes_ok bl" "off mod 4 = 0" "(off + n) mod 4 = 0" by (auto simp: sizes_ok_def mod_add_eq [symmetric])
  moreover have "(off + 8) mod 4 = 0" "(n - 8) mod 4 = 0"
    using \<open>20 \<le> n\<close> \<open>n mod 4 = 0\<close> \<open>off mod 4 = 0\<close> by presburger+
  ultimately show ?case using 2 by (cases "(q, k) = (off + 8, n - 8)") (auto split: if_splits)
qed simp

text \<open>The areas are listed by increasing address.\<close>

lemma allocs_sorted: "sizes_ok bl \<Longrightarrow> sorted_wrt (\<lambda>(q, k) (q', k'). q + k \<le> q') (allocs off bl)"
proof (induction off bl rule: allocs.induct)
  case (2 off n u bl)
  then have "20 \<le> n" "sizes_ok bl" by (auto simp: sizes_ok_def)
  with 2 show ?case by (fastforce dest: allocs_range)
qed simp

lemma sorted_wrt_pair:
  assumes "sorted_wrt P xs" and "mset xs = add_mset x (add_mset y M)"
  shows "P x y \<or> P y x"
proof -
  have "x \<in># mset xs" using assms(2) by simp
  then obtain us vs where xs: "xs = us @ x # vs" by (auto simp: in_set_conv_decomp)
  have "add_mset x (mset (us @ vs)) = add_mset x (add_mset y M)" using assms(2) unfolding xs by simp
  then have "mset (us @ vs) = add_mset y M" by simp
  then have "y \<in># mset (us @ vs)" by simp
  then have "y \<in> set us \<or> y \<in> set vs" by simp
  with assms(1) show ?thesis unfolding xs by (auto simp: sorted_wrt_append)
qed

lemma mem_malloc_mem_areas:
  assumes "mem_areas r M s" "0 < sz" "sz \<le> 65532"
  shows "\<exists>p s'. mem_malloc sz s = Some (p, s') \<and> (case p of None \<Rightarrow> mem_areas r M s'
       | Some a \<Rightarrow> \<exists>k. sz \<le> k \<and> mem_areas r (add_mset (a, k) M) s' \<and> (\<forall>(b, j) \<in># M. b + j \<le> a \<or> a + k \<le> b))"
proof -
  from assms(1) obtain bl where bl: "ram s = r" "mem_inv bl s" "M = image_mset (\<lambda>(q, k). (r + q, k)) (mset (allocs 0 bl))"
    by (rule mem_areasE)
  show ?thesis
  proof (cases "rounded sz \<le> 512 \<and> first_fit 0 (rounded sz) bl \<noteq> None")
    case True
    then obtain p where "rounded sz \<le> 512" "first_fit 0 (rounded sz) bl = Some p" by blast
    then obtain q k bl' s' where
      s': "mem_malloc sz s = Some (Some (ram s + q), s')" "mem_inv bl' s'" "ram s' = ram s"
      "(ram s + q) mod 4 = 0" "sz \<le> k" "q + k \<le> 512" "mset (allocs 0 bl') = add_mset (q, k) (mset (allocs 0 bl))"
      "list_all (\<lambda>(q', k'). q' + k' \<le> q \<or> q + k \<le> q') (allocs 0 bl)"
      by (rule mem_malloc_areas [OF bl(2) assms(2,3)])
    have "mem_areas r (add_mset (r + q, k) M) s'" using s'(2,3,7) bl(1,3) by (intro mem_areasI [of s' r bl']) simp_all
    moreover have "\<forall>(b, j) \<in># M. b + j \<le> r + q \<or> r + q + k \<le> b"
      using s'(8) bl(3) by (fastforce simp: list_all_iff)
    ultimately show ?thesis using s'(1,5) bl(1) by auto
  next
    case False
    then have "mem_malloc sz s = Some (None, s) \<or> mem_malloc sz s = Some (None, stats_inc_err s) \<and> mem_inv bl (stats_inc_err s)"
      using mem_malloc_too_big [of sz s] mem_malloc_eq [OF bl(2) assms(2)] assms(2) by (cases "rounded sz \<le> 512") auto
    moreover have "mem_areas r M (stats_inc_err s)" if "mem_inv bl (stats_inc_err s)"
      using that bl by (intro mem_areasI) simp_all
    ultimately show ?thesis using assms(1) by auto
  qed
qed

lemma mem_free_mem_areas:
  assumes "mem_areas r (add_mset (a, k) M) s"
  shows "\<exists>s'. mem_free (Some a) s = Some s' \<and> mem_areas r M s'"
proof -
  from assms obtain bl where bl: "ram s = r" "mem_inv bl s"
    "add_mset (a, k) M = image_mset (\<lambda>(q, k). (r + q, k)) (mset (allocs 0 bl))" by (rule mem_areasE)
  obtain q where q: "a = r + q" "(q, k) \<in> set (allocs 0 bl)"
    by (rule mem_areas_member [OF bl(3) union_single_eq_member [OF refl]])
  from mem_free_areas [OF bl(2) q(2)] obtain bl' s' where s': "mem_free (Some (ram s + q)) s = Some s'" "mem_inv bl' s'"
    "ram s' = ram s" "add_mset (q, k) (mset (allocs 0 bl')) = mset (allocs 0 bl)" by blast
  have "M = image_mset (\<lambda>(q, k). (r + q, k)) (mset (allocs 0 bl'))"
    using bl(3) unfolding s'(4) [symmetric] q(1) by simp
  with s' bl(1) have "mem_areas r M s'" by (intro mem_areasI) simp_all
  with s'(1) q(1) bl(1) show ?thesis by simp
qed

lemma mem_trim_mem_areas:
  assumes "mem_areas r (add_mset (a, k) M) s" "sz \<le> k" "sz \<le> 65532"
  shows "\<exists>k' s'. mem_trim a sz s = Some (Some a, s') \<and> sz \<le> k' \<and> k' \<le> k \<and> mem_areas r (add_mset (a, k') M) s'"
proof -
  from assms(1) obtain bl where bl: "ram s = r" "mem_inv bl s"
    "add_mset (a, k) M = image_mset (\<lambda>(q, k). (r + q, k)) (mset (allocs 0 bl))" by (rule mem_areasE)
  obtain q where q: "a = r + q" "(q, k) \<in> set (allocs 0 bl)"
    by (rule mem_areas_member [OF bl(3) union_single_eq_member [OF refl]])
  have "sizes_ok bl" using bl(2) by (simp add: mem_inv_def)
  then have "12 \<le> k" "k mod 4 = 0" using allocs_range [OF q(2)] allocs_mod4 [OF q(2)] by simp_all
  moreover have "LWIP_MEM_ALIGN_SIZE sz \<le> k" using \<open>k mod 4 = 0\<close> assms(2) unfolding LWIP_MEM_ALIGN_SIZE_def by presburger
  ultimately have "rounded sz \<le> k" using order_trans [OF mod_less_eq_dividend [of "LWIP_MEM_ALIGN_SIZE sz" 65536], of k]
    by (simp add: rounded_def to_u16_def Let_def)
  from mem_trim_areas [OF bl(2) q(2) this assms(3)] obtain k' bl' s' where
    s': "mem_trim (ram s + q) sz s = Some (Some (ram s + q), s')" "mem_inv bl' s'" "ram s' = ram s"
    "sz \<le> k'" "k' \<le> k" "add_mset (q, k) (mset (allocs 0 bl')) = add_mset (q, k') (mset (allocs 0 bl))" by blast
  have "add_mset (a, k) (image_mset (\<lambda>(q, k). (r + q, k)) (mset (allocs 0 bl'))) = add_mset (a, k') (add_mset (a, k) M)"
    using arg_cong [OF s'(6), of "image_mset (\<lambda>(q, k). (r + q, k))"] bl(3) q(1) by simp
  then have "add_mset (a, k') M = image_mset (\<lambda>(q, k). (r + q, k)) (mset (allocs 0 bl'))"
    by (metis add_mset_commute add_mset_remove_trivial)
  with s' bl(1) have "mem_areas r (add_mset (a, k') M) s'" by (intro mem_areasI) simp_all
  with s' q(1) bl(1) show ?thesis by auto
qed

interpretation heap: bounded_heap mem_malloc "\<lambda>a. mem_free (Some a)" "mem_areas r" mem_trim "r + 8" "r + 512" for r
proof unfold_locales
  fix M s a k assume "mem_areas r M s" and m: "(a, k) \<in># M"
  then obtain bl where bl: "ram s = r" "mem_inv bl s" "M = image_mset (\<lambda>(q, k). (r + q, k)) (mset (allocs 0 bl))"
    by (elim mem_areasE)
  from bl(3) m obtain q where q: "a = r + q" "(q, k) \<in> set (allocs 0 bl)" by (rule mem_areas_member)
  have sz: "sizes_ok bl" "ext bl = 512" "r mod 4 = 0" using bl by (simp_all add: mem_inv_def)
  then show "r + 8 \<le> a \<and> a + k \<le> r + 512 \<and> 12 \<le> k \<and> a mod 4 = 0"
    using allocs_range [OF q(2)] allocs_mod4 [OF q(2)] q(1) by (auto simp: mod_add_eq [symmetric])
next
  fix a k b j M s assume "mem_areas r (add_mset (a, k) (add_mset (b, j) M)) s"
  then obtain bl where bl: "mem_inv bl s"
    "add_mset (a, k) (add_mset (b, j) M) = mset (map (\<lambda>(q, k). (r + q, k)) (allocs 0 bl))" by (auto elim: mem_areasE)
  have "sorted_wrt (\<lambda>(q, k) (q', k'). q + k \<le> q') (map (\<lambda>(q, k). (r + q, k)) (allocs 0 bl))"
    using allocs_sorted [of bl 0] bl(1) by (simp add: sorted_wrt_map case_prod_beta' mem_inv_def)
  from sorted_wrt_pair [OF this bl(2) [symmetric]] show "b + j \<le> a \<or> a + k \<le> b" by auto
qed (rule mem_malloc_mem_areas mem_free_mem_areas mem_trim_mem_areas; assumption)+


section \<open>Properties\<close>

text \<open>A heap at an unaligned address, freshly initialised and after one allocation, to apply the properties to.\<close>

definition example_heap :: mem_state where
  "example_heap = mem_init 1001 \<lparr>ram = 0, hdr = Map.empty, lfree = 0,
     mem_stats = \<lparr>st_err = 0, st_avail = 0, st_used = 0, st_max = 0, st_illegal = 0\<rparr>\<rparr>"

lemma example_heap_inv: "mem_inv [(512, False)] example_heap" "ram example_heap = 1004"
  by (simp_all add: example_heap_def mem_init_inv) (simp add: mem_init_def Let_def LWIP_MEM_ALIGN_def)

lemma rounded_100: "rounded 100 = 100"
  by (simp add: rounded_def LWIP_MEM_ALIGN_SIZE_def)

lemma example_alloc:
  obtains s where "mem_malloc 100 example_heap = Some (Some 1012, s)" "mem_inv [(108, True), (404, False)] s" "ram s = 1004"
proof -
  have "taken 100 512 = [(108, True), (404, False)]" by (simp add: taken_def)
  with mem_malloc_eq [OF example_heap_inv(1), of 100] that show ?thesis
    by (auto simp: rounded_100 example_heap_inv(2) append_eq_Cons_conv Cons_eq_append_conv)
qed

text \<open>C7: allocation. When a free block can hold the rounded request, \<open>mem_malloc\<close> returns an aligned area of
  at least the requested size inside the heap that overlaps no area handed out before; the areas handed
  out are then these and the new one. Otherwise it returns the null pointer and only counts the error. It never
  aborts, and it keeps the header list, the pointer to the lowest free block and the statistics consistent.\<close>

theorem mem_malloc_contract:
  assumes "mem_inv bl s" and "0 < sz" and "sz \<le> 65532" and "rounded sz \<le> 512"
  shows "if list_all (\<lambda>(n, u). u \<or> n < rounded sz + 8) bl
    then \<exists>s'. mem_malloc sz s = Some (None, s') \<and> mem_inv bl s'
    else \<exists>q k bl' s'. mem_malloc sz s = Some (Some (ram s + q), s') \<and> mem_inv bl' s' \<and> ram s' = ram s
      \<and> (ram s + q) mod 4 = 0 \<and> sz \<le> k \<and> q + k \<le> 512
      \<and> mset (allocs 0 bl') = add_mset (q, k) (mset (allocs 0 bl))
      \<and> list_all (\<lambda>(q', k'). q' + k' \<le> q \<or> q + k \<le> q') (allocs 0 bl)"
proof (cases "first_fit 0 (rounded sz) bl")
  case None
  with mem_malloc_eq [OF assms(1,2,4)] show ?thesis by (auto simp: first_fit_None)
next
  case (Some p)
  then have "\<not> list_all (\<lambda>(n, u). u \<or> n < rounded sz + 8) bl" using first_fit_None by (metis option.discI)
  moreover obtain q k bl' s' where "mem_malloc sz s = Some (Some (ram s + q), s')" "mem_inv bl' s'" "ram s' = ram s"
    "(ram s + q) mod 4 = 0" "sz \<le> k" "q + k \<le> 512" "mset (allocs 0 bl') = add_mset (q, k) (mset (allocs 0 bl))"
    "list_all (\<lambda>(q', k'). q' + k' \<le> q \<or> q + k \<le> q') (allocs 0 bl)"
    by (rule mem_malloc_areas [OF assms Some])
  ultimately show ?thesis
    unfolding if_not_P [OF \<open>\<not> list_all (\<lambda>(n, u). u \<or> n < rounded sz + 8) bl\<close>]
    by (intro exI [of _ q] exI [of _ k] exI [of _ bl'] exI [of _ s'] conjI)
qed

theorem mem_malloc_contract_witness:
  "\<exists>q k bl' s'. mem_malloc 100 example_heap = Some (Some (1004 + q), s') \<and> mem_inv bl' s' \<and> 100 \<le> k
     \<and> mset (allocs 0 bl') = {#(q, k)#}"
  using mem_malloc_contract [OF example_heap_inv(1), of 100] by (auto simp: rounded_100 example_heap_inv(2))

text \<open>C15: release. Freeing an area that is handed out succeeds, and exactly this area is no longer handed out.
  Adjacent free blocks are joined.\<close>

theorem mem_free_contract:
  assumes "mem_inv bl s" and "(q, k) \<in> set (allocs 0 bl)"
  shows "\<exists>bl' s'. mem_free (Some (ram s + q)) s = Some s' \<and> mem_inv bl' s' \<and> ram s' = ram s
    \<and> add_mset (q, k) (mset (allocs 0 bl')) = mset (allocs 0 bl)"
  by (rule mem_free_areas [OF assms])

theorem mem_free_contract_witness:
  "\<exists>s bl' s'. mem_malloc 100 example_heap = Some (Some 1012, s) \<and> mem_free (Some 1012) s = Some s'
     \<and> mem_inv bl' s' \<and> allocs 0 bl' = []"
proof -
  obtain s where s: "mem_malloc 100 example_heap = Some (Some 1012, s)" "mem_inv [(108, True), (404, False)] s" "ram s = 1004"
    by (rule example_alloc)
  from mem_free_contract [OF s(2), of 8 100] s show ?thesis by auto
qed

text \<open>Shrinking. An area is shrunk in place to at least the requested size; all other areas are untouched.\<close>

theorem mem_trim_contract:
  assumes "mem_inv bl s" and "(q, k) \<in> set (allocs 0 bl)" and "rounded newsize \<le> k" and "newsize \<le> 65532"
  shows "\<exists>k' bl' s'. mem_trim (ram s + q) newsize s = Some (Some (ram s + q), s') \<and> mem_inv bl' s' \<and> ram s' = ram s
    \<and> newsize \<le> k' \<and> k' \<le> k
    \<and> add_mset (q, k) (mset (allocs 0 bl')) = add_mset (q, k') (mset (allocs 0 bl))"
  by (rule mem_trim_areas [OF assms])

theorem mem_trim_contract_witness:
  "\<exists>s k' bl' s'. mem_malloc 100 example_heap = Some (Some 1012, s) \<and> mem_trim 1012 20 s = Some (Some 1012, s')
     \<and> mem_inv bl' s' \<and> 20 \<le> k' \<and> k' \<le> 100 \<and> mset (allocs 0 bl') = {#(8, k')#}"
proof -
  obtain s where s: "mem_malloc 100 example_heap = Some (Some 1012, s)" "mem_inv [(108, True), (404, False)] s" "ram s = 1004"
    by (rule example_alloc)
  have "rounded 20 \<le> 100" by (simp add: rounded_def LWIP_MEM_ALIGN_SIZE_def)
  from mem_trim_contract [OF s(2), of 8 100, OF _ this] s show ?thesis by (fastforce simp: add_eq_conv_ex)
qed

text \<open>C26: no fragmentation remains and no memory is lost. Freeing all areas that are handed out, in any order,
  succeeds and leaves one free block, so that a request for 504 bytes is served from the start of the heap.\<close>

theorem mem_free_all_any_order:
  assumes "mem_inv bl s" and "mset as = mset (map (\<lambda>(q, k). (ram s + q, k)) (allocs 0 bl))"
  shows "\<exists>s' s''. free_all (\<lambda>a. mem_free (Some a)) as s = Some s' \<and> mem_inv [(512, False)] s'
    \<and> st_used (mem_stats s') = 0 \<and> mem_malloc 504 s' = Some (Some (ram s' + 8), s'')"
proof -
  have "mem_areas (ram s) (mset as + {#}) s" using assms by (intro mem_areasI [of s _ bl]) simp_all
  from heap.free_all_areas [OF this] obtain s' bl' where s': "free_all (\<lambda>a. mem_free (Some a)) as s = Some s'"
    "mem_inv bl' s'" "allocs 0 bl' = []" by (auto elim: mem_areasE)
  then have inv: "mem_inv [(512, False)] s'" using all_free_single [OF s'(2,3)] by simp
  have r: "rounded 504 = 504" by (simp add: rounded_def LWIP_MEM_ALIGN_SIZE_def)
  then have "\<exists>s''. mem_malloc 504 s' = Some (Some (ram s' + 8), s'')" using mem_malloc_eq [OF inv, of 504] by auto
  with s'(1) inv show ?thesis by (auto simp: mem_inv_def unat_eq_0)
qed

theorem mem_free_all_any_order_witness:
  "\<exists>s s' s''. mem_malloc 100 example_heap = Some (Some 1012, s)
     \<and> free_all (\<lambda>a. mem_free (Some a)) [(1012, 100)] s = Some s' \<and> mem_inv [(512, False)] s'
     \<and> mem_malloc 504 s' = Some (Some (ram s' + 8), s'')"
proof -
  obtain s where s: "mem_malloc 100 example_heap = Some (Some 1012, s)" "mem_inv [(108, True), (404, False)] s" "ram s = 1004"
    by (rule example_alloc)
  from mem_free_all_any_order [OF s(2), of "[(1012, 100)]"] s(1,3) show ?thesis by auto
qed

text \<open>An area that \<open>mem_malloc\<close> returned is one of the areas handed out afterwards, and is at least as large as
  requested.\<close>

lemma mem_malloc_returned:
  assumes inv: "mem_inv bl s" and sz: "0 < sz" "sz \<le> 65532" and m: "mem_malloc sz s = Some (Some a, s1)"
  obtains q k bl1 where "a = ram s + q" "mem_inv bl1 s1" "ram s1 = ram s" "sz \<le> k"
    "mset (allocs 0 bl1) = add_mset (q, k) (mset (allocs 0 bl))"
proof -
  have small: "rounded sz \<le> 512" using mem_malloc_too_big [OF sz(1), of s] m by fastforce
  show ?thesis
  proof (cases "first_fit 0 (rounded sz) bl")
    case None
    with mem_malloc_eq [OF inv sz(1) small] m show ?thesis by auto
  next
    case (Some p)
    obtain q k bl' s' where "mem_malloc sz s = Some (Some (ram s + q), s')" "mem_inv bl' s'" "ram s' = ram s"
      "sz \<le> k" "mset (allocs 0 bl') = add_mset (q, k) (mset (allocs 0 bl))"
      by (rule mem_malloc_areas [OF inv sz small Some])
    with m show ?thesis by (intro that [of q bl' k]) simp_all
  qed
qed

lemma data_written_mono: "data_written q j s s' \<Longrightarrow> j \<le> k \<Longrightarrow> data_written q k s s'"
  by (simp add: data_written_def)

text \<open>C27: the users of the heap cannot damage it through the bytes they asked for. Whatever is written to the
  \<open>sz\<close> bytes that \<open>mem_malloc\<close> returned (\<open>data_written\<close>: every header that overlaps these bytes may be
  destroyed), \<open>mem_free\<close> of this area succeeds afterwards, the heap is consistent, and exactly the areas
  that were handed out before the allocation are handed out again.\<close>

theorem mem_malloc_write_free:
  assumes "mem_inv bl s" and "0 < sz" and "sz \<le> 65532"
    and "mem_malloc sz s = Some (Some a, s1)" and "data_written (a - ram s) sz s1 s2"
  shows "\<exists>bl' s3. mem_free (Some a) s2 = Some s3 \<and> mem_inv bl' s3 \<and> ram s3 = ram s
    \<and> mset (allocs 0 bl') = mset (allocs 0 bl)"
proof -
  obtain q k bl1 where a: "a = ram s + q" "mem_inv bl1 s1" "ram s1 = ram s" "sz \<le> k"
    "mset (allocs 0 bl1) = add_mset (q, k) (mset (allocs 0 bl))" by (rule mem_malloc_returned [OF assms(1-4)])
  have mem: "(q, k) \<in> set (allocs 0 bl1)" by (metis a(5) set_mset_mset union_single_eq_member)
  have w: "data_written q k s1 s2" using data_written_mono [OF assms(5) a(4)] a(1) by simp
  have "mem_inv bl1 s2" "ram s2 = ram s" using data_written_inv [OF a(2) mem w] w a(3) by (simp_all add: data_written_def)
  with mem_free_areas [OF _ mem] a(1,5) show ?thesis by (metis add_mset_add_mset_same_iff)
qed

theorem mem_malloc_write_free_witness:
  "\<exists>s bl' s3. mem_malloc 100 example_heap = Some (Some 1012, s)
     \<and> mem_free (Some 1012) (s\<lparr>hdr := (hdr s)(16 := None, 100 \<mapsto> \<lparr>mem_next = 7, mem_prev = 9, mem_used = False\<rparr>)\<rparr>) = Some s3
     \<and> mem_inv bl' s3 \<and> allocs 0 bl' = []"
proof -
  obtain s where s: "mem_malloc 100 example_heap = Some (Some 1012, s)" "mem_inv [(108, True), (404, False)] s"
    by (rule example_alloc)
  let ?w = "s\<lparr>hdr := (hdr s)(16 := None, 100 \<mapsto> \<lparr>mem_next = 7, mem_prev = 9, mem_used = False\<rparr>)\<rparr>"
  have "data_written (1012 - ram example_heap) 100 s ?w" by (simp add: data_written_def example_heap_inv(2))
  from mem_malloc_write_free [OF example_heap_inv(1) _ _ s(1) this] s(1) show ?thesis by auto
qed

text \<open>
  Two limits of the allocator. A request for 65533 to 65535 bytes wraps around when it is rounded up and is served
  with 12 bytes. \<open>mem_calloc\<close> allocates the product reduced to 16 bits, but clears the whole product.
\<close>

lemma mem_malloc_wraps:
  assumes "65533 \<le> sz" "sz \<le> 65535"
  shows "mem_malloc sz s = mem_malloc 12 s"
proof -
  have "LWIP_MEM_ALIGN_SIZE sz = 65536" using assms unfolding LWIP_MEM_ALIGN_SIZE_def by presburger
  then have r: "rounded sz = 12" "rounded 12 = 12" by (simp_all add: rounded_def to_u16_def LWIP_MEM_ALIGN_SIZE_def)
  have "0 < sz" "rounded sz \<le> 512" "0 < (12 :: nat)" "rounded 12 \<le> 512" using assms r by simp_all
  then show ?thesis by (simp only: mem_malloc_rounded r)
qed

lemma mem_calloc_overrun:
  "\<exists>s. mem_malloc 256 example_heap = Some (Some 1012, s) \<and> mem_calloc 257 256 example_heap = Some (Some 1012, 65792, s)"
proof -
  have r: "rounded 256 = 256" by (simp add: rounded_def LWIP_MEM_ALIGN_SIZE_def)
  have "\<exists>s. mem_malloc 256 example_heap = Some (Some 1012, s)"
    using mem_malloc_eq [OF example_heap_inv(1), of 256]
    by (auto simp: r example_heap_inv(2) append_eq_Cons_conv Cons_eq_append_conv)
  moreover have "to_u16 (257 * 256) = 256" by (simp add: to_u16_def)
  ultimately show ?thesis by (auto simp: mem_calloc_def)
qed

end
