(* ===== verification/Pbuf.thy ===== *)
theory Pbuf
  imports Memp Mem
begin

text \<open>
  \<^verbatim>\<open>core/pbuf.c\<close>: packet buffers, the reference-counted chains in which all packets live. This theory has the
  operations that allocate, free and link pbufs; those that read and write the payload are in \<open>Pbuf_Data\<close>.

  The state \<open>net\<close> joins the two allocators of the stack with the objects in their memory: the \<^verbatim>\<open>struct pbuf\<close> at
  every address that holds one, the payload bytes, and for a custom pbuf the fields that follow its \<^verbatim>\<open>struct pbuf\<close>.
  Deallocation removes the struct, so that any later access to it has no defined result. The one field
  of a freed struct that the code can observe is \<open>flags\<close>: \<open>pbuf_alloc\<close> sets it last and, when it runs out of buffers,
  frees the first pbuf before; \<open>stale_flags\<close> is what a previous owner left in that byte.

  The only custom pbufs of the program are those of \<^verbatim>\<open>core/ipv4/ip4_frag.c\<close>, so a \<^verbatim>\<open>pbuf_free_custom_fn\<close> is the name of
  the function used there, and freeing such a pbuf calls \<open>pbuf_free\<close> again on the pbuf it refers to.

  Main results: \<open>pbuf_inv\<close> with \<open>refs_ok\<close>, the account of all references, is kept by every operation (no pbuf is freed while it
  is referenced, none is leaked, none is freed twice), and the effect of each operation on the chain \<open>chain P p xs\<close> it
  is given.
\<close>

section \<open>Definitions\<close>

subsection \<open>State\<close>

datatype pbuf_layer = PBUF_TRANSPORT | PBUF_IP | PBUF_LINK | PBUF_RAW_TX | PBUF_RAW

datatype pbuf_type = PBUF_RAM | PBUF_ROM | PBUF_REF | PBUF_POOL

abbreviation (input) PBUF_LINK_ENCAPSULATION_HLEN :: nat where "PBUF_LINK_ENCAPSULATION_HLEN \<equiv> 0"
abbreviation (input) PBUF_LINK_HLEN :: nat where "PBUF_LINK_HLEN \<equiv> 32"
abbreviation (input) PBUF_IP_HLEN :: nat where "PBUF_IP_HLEN \<equiv> 20"
abbreviation (input) PBUF_TRANSPORT_HLEN :: nat where "PBUF_TRANSPORT_HLEN \<equiv> 20"
abbreviation (input) SIZEOF_STRUCT_PBUF :: nat where "SIZEOF_STRUCT_PBUF \<equiv> 16"
abbreviation (input) PBUF_POOL_BUFSIZE_ALIGNED :: nat where "PBUF_POOL_BUFSIZE_ALIGNED \<equiv> 128"
abbreviation (input) PBUF_FLAG_IS_CUSTOM :: u8 where "PBUF_FLAG_IS_CUSTOM \<equiv> 2"

record pbuf =
  pb_next :: ptr
  pb_payload :: ptr
  pb_tot_len :: nat
  pb_len :: nat
  pb_type :: pbuf_type
  pb_flags :: u8
  pb_ref :: nat

datatype pbuf_free_custom_fn = ipfrag_free_pbuf_custom_fn

record pbuf_custom_ref =
  custom_free_function :: "pbuf_free_custom_fn option"
  original :: ptr

record net =
  net_heap :: mem_state
  net_memp :: memp_state
  net_pools :: "memp_desc list"
  pbufs :: "nat \<rightharpoonup> pbuf"
  bytes :: "nat \<Rightarrow> u8"
  stale_flags :: "nat \<Rightarrow> u8"
  customs :: "nat \<rightharpoonup> pbuf_custom_ref"
  pbuf_free_ooseq_pending :: bool

definition put_pbuf :: "nat \<Rightarrow> pbuf \<Rightarrow> net \<Rightarrow> net" where
  "put_pbuf a b s = s\<lparr>pbufs := (pbufs s)(a \<mapsto> b)\<rparr>"

definition upd_pbuf :: "nat \<Rightarrow> (pbuf \<Rightarrow> pbuf) \<Rightarrow> net \<Rightarrow> net option" where
  "upd_pbuf a f s = do { b \<leftarrow> pbufs s a; Some (put_pbuf a (f b) s) }"

definition deref :: "ptr \<Rightarrow> net \<Rightarrow> pbuf option" where
  "deref p s = do { a \<leftarrow> p; pbufs s a }"

definition drop_pbuf :: "nat \<Rightarrow> net \<Rightarrow> net" where
  "drop_pbuf a s = s\<lparr>pbufs := (pbufs s)(a := None), customs := (customs s)(a := None),
     stale_flags := (stale_flags s)(a := (case pbufs s a of Some b \<Rightarrow> pb_flags b | None \<Rightarrow> stale_flags s a))\<rparr>"

text \<open>The allocators, working on their parts of the state.\<close>

definition net_mem_malloc :: "nat \<Rightarrow> net \<Rightarrow> (ptr \<times> net) option" where
  "net_mem_malloc sz s = do { (p, h) \<leftarrow> mem_malloc sz (net_heap s); Some (p, s\<lparr>net_heap := h\<rparr>) }"

definition net_mem_trim :: "nat \<Rightarrow> nat \<Rightarrow> net \<Rightarrow> (ptr \<times> net) option" where
  "net_mem_trim a sz s = do { (p, h) \<leftarrow> mem_trim a sz (net_heap s); Some (p, s\<lparr>net_heap := h\<rparr>) }"

definition net_mem_free :: "nat \<Rightarrow> net \<Rightarrow> net option" where
  "net_mem_free a s = do { h \<leftarrow> mem_free (Some a) (net_heap s); Some (drop_pbuf a (s\<lparr>net_heap := h\<rparr>)) }"

definition net_memp_malloc :: "nat \<Rightarrow> net \<Rightarrow> (ptr \<times> net) option" where
  "net_memp_malloc type s = do { (p, m) \<leftarrow> memp_malloc (net_pools s) type (net_memp s); Some (p, s\<lparr>net_memp := m\<rparr>) }"

definition net_memp_free :: "nat \<Rightarrow> nat \<Rightarrow> net \<Rightarrow> net option" where
  "net_memp_free type a s = do {
     m \<leftarrow> memp_free (net_pools s) type (Some a) (net_memp s);
     Some (drop_pbuf a (s\<lparr>net_memp := m\<rparr>))
   }"

subsection \<open>Freeing\<close>

definition is_custom :: "pbuf \<Rightarrow> bool" where
  "is_custom b \<longleftrightarrow> pb_flags b AND PBUF_FLAG_IS_CUSTOM \<noteq> 0"

lemma is_custom_simps [simp]:
  "is_custom (b\<lparr>pb_ref := r\<rparr>) = is_custom b" "is_custom (b\<lparr>pb_next := n\<rparr>) = is_custom b"
  "is_custom (b\<lparr>pb_len := l\<rparr>) = is_custom b" "is_custom (b\<lparr>pb_tot_len := t\<rparr>) = is_custom b"
  "is_custom (b\<lparr>pb_payload := pl\<rparr>) = is_custom b"
  by (simp_all add: is_custom_def)

text \<open>\<^verbatim>\<open>ip4_frag.c\<close>: the function that frees the custom pbufs, with \<open>pbuf_free\<close> as an argument.\<close>

definition ip_frag_free_pbuf_custom_ref :: "nat \<Rightarrow> net \<Rightarrow> net option" where
  "ip_frag_free_pbuf_custom_ref p s = net_memp_free MEMP_FRAG_PBUF p s"

definition ipfrag_free_pbuf_custom :: "(ptr \<Rightarrow> net \<Rightarrow> (nat \<times> net) option) \<Rightarrow> nat \<Rightarrow> net \<Rightarrow> net option" where
  "ipfrag_free_pbuf_custom pbuf_free p s = do {
     pcr \<leftarrow> customs s p;
     s \<leftarrow> (if original pcr \<noteq> None then map_option snd (pbuf_free (original pcr) s) else Some s);
     ip_frag_free_pbuf_custom_ref p s
   }"

text \<open>The release of a pbuf whose count has reached zero, to where it came from.\<close>

definition pbuf_dealloc :: "(ptr \<Rightarrow> net \<Rightarrow> (nat \<times> net) option) \<Rightarrow> nat \<Rightarrow> pbuf \<Rightarrow> net \<Rightarrow> net option" where
  "pbuf_dealloc pbuf_free a b s =
     (if is_custom b then do {
        pc \<leftarrow> customs s a;
        fn \<leftarrow> custom_free_function pc;
        case fn of ipfrag_free_pbuf_custom_fn \<Rightarrow> ipfrag_free_pbuf_custom pbuf_free a s
      } else
        case pb_type b of
          PBUF_POOL \<Rightarrow> net_memp_free MEMP_PBUF_POOL a s
        | PBUF_ROM \<Rightarrow> net_memp_free MEMP_PBUF a s
        | PBUF_REF \<Rightarrow> net_memp_free MEMP_PBUF a s
        | PBUF_RAM \<Rightarrow> net_mem_free a s)"

lemma pbuf_dealloc_mono [partial_function_mono]:
  assumes "\<And>p s. mono_option (\<lambda>f. g f p s)"
  shows "mono_option (\<lambda>f. pbuf_dealloc (\<lambda>p s. g f p s) a b s)"
proof -
  have "mono_option (\<lambda>f. map_option snd (g f p s))" for p s
    using assms [of p s] unfolding monotone_def flat_ord_def by (metis map_option_is_None)
  then have "mono_option (\<lambda>f. ipfrag_free_pbuf_custom (\<lambda>p s. g f p s) a s)"
    unfolding ipfrag_free_pbuf_custom_def by (intro partial_function_mono)
  then have "mono_option (\<lambda>f. case fn of ipfrag_free_pbuf_custom_fn \<Rightarrow> ipfrag_free_pbuf_custom (\<lambda>p s. g f p s) a s)" for fn
    by (cases fn) simp
  then show ?thesis
    unfolding pbuf_dealloc_def by (intro partial_function_mono)
qed

text \<open>
  The loop of \<open>pbuf_free\<close>; \<open>cnt\<close> is the number of pbufs freed so far, an 8-bit counter.
\<close>

partial_function (option) pbuf_free_loop :: "nat \<Rightarrow> ptr \<Rightarrow> net \<Rightarrow> (nat \<times> net) option" where
  "pbuf_free_loop cnt p s =
     (case p of
        None \<Rightarrow> Some (cnt, s)
      | Some a \<Rightarrow> Option.bind (pbufs s a) (\<lambda>b. Option.bind (lwip_assert (pb_ref b > 0)) (\<lambda>_.
          let ref = pb_ref b - 1; s = put_pbuf a (b\<lparr>pb_ref := ref\<rparr>) s in
          if ref = 0 then
            Option.bind (pbuf_dealloc (\<lambda>q s. pbuf_free_loop 0 q s) a b s) (\<lambda>s.
              pbuf_free_loop ((cnt + 1) mod 256) (pb_next b) s)
          else Some (cnt, s))))"

definition pbuf_free :: "ptr \<Rightarrow> net \<Rightarrow> (nat \<times> net) option" where
  "pbuf_free p s = do {
     lwip_assert (p \<noteq> None);
     pbuf_free_loop 0 p s
   }"

subsection \<open>Allocation\<close>

definition pbuf_pool_is_empty :: "net \<Rightarrow> net" where
  "pbuf_pool_is_empty s = s\<lparr>pbuf_free_ooseq_pending := True\<rparr>"

fun layer_offset :: "pbuf_layer \<Rightarrow> nat" where
  "layer_offset PBUF_TRANSPORT = PBUF_LINK_ENCAPSULATION_HLEN + PBUF_LINK_HLEN + PBUF_IP_HLEN + PBUF_TRANSPORT_HLEN"
| "layer_offset PBUF_IP = PBUF_LINK_ENCAPSULATION_HLEN + PBUF_LINK_HLEN + PBUF_IP_HLEN"
| "layer_offset PBUF_LINK = PBUF_LINK_ENCAPSULATION_HLEN + PBUF_LINK_HLEN"
| "layer_offset PBUF_RAW_TX = PBUF_LINK_ENCAPSULATION_HLEN"
| "layer_offset PBUF_RAW = 0"

text \<open>
  The loop that allocates the tail of a \<open>PBUF_POOL\<close> chain: \<open>p\<close> is its first pbuf, \<open>r\<close> its last one so far. The result
  says whether all of \<open>rem_len\<close> was allocated; if not, the chain has been freed.
\<close>

function pool_tail :: "nat \<Rightarrow> nat \<Rightarrow> nat \<Rightarrow> net \<Rightarrow> (bool \<times> net) option" where
  "pool_tail p r rem_len s =
     (if rem_len > 0 then do {
        (q, s) \<leftarrow> net_memp_malloc MEMP_PBUF_POOL s;
        case q of
          None \<Rightarrow> do {
            (_, s) \<leftarrow> pbuf_free (Some p) (pbuf_pool_is_empty s);
            Some (False, s)
          }
        | Some q \<Rightarrow> do {
            lwip_assert (rem_len < 0xffff);
            let qlen = min (to_u16 rem_len) PBUF_POOL_BUFSIZE_ALIGNED;
            let payload = q + SIZEOF_STRUCT_PBUF;
            let s = put_pbuf q \<lparr>pb_next = None, pb_payload = Some payload, pb_tot_len = to_u16 rem_len, pb_len = qlen,
                      pb_type = PBUF_POOL, pb_flags = 0, pb_ref = 1\<rparr> s;
            s \<leftarrow> upd_pbuf r (\<lambda>b. b\<lparr>pb_next := Some q\<rparr>) s;
            lwip_assert (payload mod MEM_ALIGNMENT = 0);
            b \<leftarrow> pbufs s p;
            pl \<leftarrow> pb_payload b;
            lwip_assert (pl + pb_len b \<le> p + SIZEOF_STRUCT_PBUF + PBUF_POOL_BUFSIZE_ALIGNED);
            pool_tail p q (rem_len - min (to_u16 rem_len) PBUF_POOL_BUFSIZE_ALIGNED) s
          }
      } else Some (True, s))"
  by pat_completeness auto

text \<open>Every round takes at least one byte: a multiple of 65536 is excluded by the assertion.\<close>

termination pool_tail
  by (relation "measure (\<lambda>(p, r, rem_len, s). rem_len)") (auto simp: to_u16_def)

definition pbuf_alloc :: "pbuf_layer \<Rightarrow> nat \<Rightarrow> pbuf_type \<Rightarrow> net \<Rightarrow> (ptr \<times> net) option" where
  "pbuf_alloc layer length' type s =
     (let offset = layer_offset layer;
          finish = (\<lambda>p s. do {
            s \<leftarrow> upd_pbuf p (\<lambda>b. b\<lparr>pb_ref := 1\<rparr>) s;
            s \<leftarrow> upd_pbuf p (\<lambda>b. b\<lparr>pb_flags := 0\<rparr>) s;
            Some (Some p, s)
          })
      in case type of
        PBUF_POOL \<Rightarrow> do {
          (p, s) \<leftarrow> net_memp_malloc MEMP_PBUF_POOL s;
          case p of
            None \<Rightarrow> Some (None, pbuf_pool_is_empty s)
          | Some p \<Rightarrow> do {
              let payload = LWIP_MEM_ALIGN (p + (SIZEOF_STRUCT_PBUF + offset));
              let plen = min length' (PBUF_POOL_BUFSIZE_ALIGNED - LWIP_MEM_ALIGN_SIZE offset);
              lwip_assert (payload mod MEM_ALIGNMENT = 0);
              lwip_assert (payload + plen \<le> p + SIZEOF_STRUCT_PBUF + PBUF_POOL_BUFSIZE_ALIGNED);
              lwip_assert (PBUF_POOL_BUFSIZE_ALIGNED - LWIP_MEM_ALIGN_SIZE offset > 0);
              let s = put_pbuf p \<lparr>pb_next = None, pb_payload = Some payload, pb_tot_len = length', pb_len = plen,
                        pb_type = PBUF_POOL, pb_flags = stale_flags s p, pb_ref = 1\<rparr> s;
              (ok, s) \<leftarrow> pool_tail p p (length' - plen) s;
              if ok then finish p s else Some (None, s)
            }
        }
      | PBUF_RAM \<Rightarrow> do {
          (p, s) \<leftarrow> net_mem_malloc (to_u16 (LWIP_MEM_ALIGN_SIZE (SIZEOF_STRUCT_PBUF + offset) + LWIP_MEM_ALIGN_SIZE length')) s;
          case p of
            None \<Rightarrow> Some (None, s)
          | Some p \<Rightarrow> do {
              let payload = LWIP_MEM_ALIGN (p + SIZEOF_STRUCT_PBUF + offset);
              let s = put_pbuf p \<lparr>pb_next = None, pb_payload = Some payload, pb_tot_len = length', pb_len = length',
                        pb_type = PBUF_RAM, pb_flags = stale_flags s p, pb_ref = 0\<rparr> s;
              lwip_assert (payload mod MEM_ALIGNMENT = 0);
              finish p s
            }
        }
      | _ \<Rightarrow> do {
          (p, s) \<leftarrow> net_memp_malloc MEMP_PBUF s;
          case p of
            None \<Rightarrow> Some (None, s)
          | Some p \<Rightarrow> finish p (put_pbuf p \<lparr>pb_next = None, pb_payload = None, pb_tot_len = length', pb_len = length',
                        pb_type = type, pb_flags = stale_flags s p, pb_ref = 0\<rparr> s)
        })"

definition pbuf_alloced_custom ::
  "pbuf_layer \<Rightarrow> nat \<Rightarrow> pbuf_type \<Rightarrow> nat \<Rightarrow> ptr \<Rightarrow> nat \<Rightarrow> net \<Rightarrow> ptr \<times> net" where
  "pbuf_alloced_custom l length' type p payload_mem payload_mem_len s =
     (let offset = layer_offset l
      in if LWIP_MEM_ALIGN_SIZE offset + length' > payload_mem_len then (None, s)
         else (Some p, put_pbuf p \<lparr>pb_next = None,
                 pb_payload = (case payload_mem of Some m \<Rightarrow> Some (m + LWIP_MEM_ALIGN_SIZE offset) | None \<Rightarrow> None),
                 pb_tot_len = length', pb_len = length', pb_type = type, pb_flags = PBUF_FLAG_IS_CUSTOM, pb_ref = 1\<rparr> s))"

subsection \<open>Changing a chain\<close>

text \<open>
  The walk of \<open>pbuf_realloc\<close> to the new last pbuf: its address and its new length. The total lengths on the way change by
  \<open>grow\<close>, converted to 16 bits.
\<close>

partial_function (option) realloc_walk :: "int \<Rightarrow> nat \<Rightarrow> nat \<Rightarrow> net \<Rightarrow> (nat \<times> nat \<times> net) option" where
  "realloc_walk grow q rem_len s =
     Option.bind (pbufs s q) (\<lambda>b.
       if rem_len > pb_len b then
         Option.bind (lwip_assert (grow < 0xffff)) (\<lambda>_.
         let s = put_pbuf q (b\<lparr>pb_tot_len := nat ((int (pb_tot_len b) + grow) mod 65536)\<rparr>) s in
         Option.bind (pb_next b) (\<lambda>q. realloc_walk grow q (rem_len - pb_len b) s))
       else Some (q, rem_len, s))"

definition pbuf_realloc :: "ptr \<Rightarrow> nat \<Rightarrow> net \<Rightarrow> net option" where
  "pbuf_realloc p new_len s = do {
     p \<leftarrow> p;
     b \<leftarrow> pbufs s p;
     if new_len \<ge> pb_tot_len b then Some s
     else do {
       let grow = int new_len - int (pb_tot_len b);
       (q, rem_len, s) \<leftarrow> realloc_walk grow p new_len s;
       b \<leftarrow> pbufs s q;
       (q, s) \<leftarrow> (if pb_type b = PBUF_RAM \<and> rem_len \<noteq> pb_len b \<and> \<not> is_custom b
                  then do {
                    payload \<leftarrow> pb_payload b;
                    net_mem_trim q (to_u16 (nat ((int payload - int q) mod 65536) + rem_len)) s
                  } else Some (Some q, s));
       q \<leftarrow> q;
       s \<leftarrow> upd_pbuf q (\<lambda>b. b\<lparr>pb_len := rem_len\<rparr>) s;
       s \<leftarrow> upd_pbuf q (\<lambda>b. b\<lparr>pb_tot_len := pb_len b\<rparr>) s;
       b \<leftarrow> pbufs s q;
       s \<leftarrow> (if pb_next b \<noteq> None then map_option snd (pbuf_free (pb_next b) s) else Some s);
       upd_pbuf q (\<lambda>b. b\<lparr>pb_next := None\<rparr>) s
     }
   }"

text \<open>Addition of a signed 16-bit increment to an unsigned 16-bit field.\<close>

definition add_s16 :: "nat \<Rightarrow> int \<Rightarrow> nat" where
  "add_s16 n i = nat ((int n + i) mod 65536)"

definition pbuf_header_impl :: "ptr \<Rightarrow> int \<Rightarrow> bool \<Rightarrow> net \<Rightarrow> (nat \<times> net) option" where
  "pbuf_header_impl p header_size_increment force s = do {
     a \<leftarrow> p;
     if header_size_increment = 0 then Some (0, s)
     else do {
       b \<leftarrow> pbufs s a;
       let increment_magnitude = to_u16 (nat \<bar>header_size_increment\<bar>);
       if header_size_increment < 0 \<and> \<not> increment_magnitude \<le> pb_len b then Some (1, s)
       else do {
         let moved = (do {
           payload \<leftarrow> pb_payload b;
           let payload' = int payload - header_size_increment;
           Some (0, put_pbuf a (b\<lparr>pb_payload := Some (nat payload'), pb_len := add_s16 (pb_len b) header_size_increment,
                      pb_tot_len := add_s16 (pb_tot_len b) header_size_increment\<rparr>) s)
         });
         if pb_type b = PBUF_RAM \<or> pb_type b = PBUF_POOL then do {
           payload \<leftarrow> pb_payload b;
           if int payload - header_size_increment < int (a + SIZEOF_STRUCT_PBUF) then Some (1, s) else moved
         }
         else if header_size_increment < 0 \<and> increment_magnitude \<le> pb_len b then moved
         else if header_size_increment > 0 \<and> force then moved
         else Some (1, s)
       }
     }
   }"

definition pbuf_header :: "ptr \<Rightarrow> int \<Rightarrow> net \<Rightarrow> (nat \<times> net) option" where
  "pbuf_header p header_size_increment s = pbuf_header_impl p header_size_increment False s"

definition pbuf_header_force :: "ptr \<Rightarrow> int \<Rightarrow> net \<Rightarrow> (nat \<times> net) option" where
  "pbuf_header_force p header_size_increment s = pbuf_header_impl p header_size_increment True s"

partial_function (option) clen_loop :: "net \<Rightarrow> nat \<Rightarrow> ptr \<Rightarrow> nat option" where
  "clen_loop s len p =
     (case p of None \<Rightarrow> Some len
      | Some a \<Rightarrow> Option.bind (pbufs s a) (\<lambda>b. clen_loop s (to_u16 (len + 1)) (pb_next b)))"

definition pbuf_clen :: "ptr \<Rightarrow> net \<Rightarrow> nat option" where
  "pbuf_clen p s = clen_loop s 0 p"

definition pbuf_ref :: "ptr \<Rightarrow> net \<Rightarrow> net option" where
  "pbuf_ref p s = (case p of None \<Rightarrow> Some s | Some a \<Rightarrow> upd_pbuf a (\<lambda>b. b\<lparr>pb_ref := to_u16 (pb_ref b + 1)\<rparr>) s)"

text \<open>The walk of \<open>pbuf_cat\<close> to the last pbuf of the first chain.\<close>

partial_function (option) cat_loop :: "nat \<Rightarrow> nat \<Rightarrow> net \<Rightarrow> (nat \<times> net) option" where
  "cat_loop t p s =
     Option.bind (pbufs s p) (\<lambda>b.
       case pb_next b of
         None \<Rightarrow> Some (p, s)
       | Some n \<Rightarrow> Option.bind (pbufs s t) (\<lambda>tb.
           let s = put_pbuf p (b\<lparr>pb_tot_len := to_u16 (pb_tot_len b + pb_tot_len tb)\<rparr>) s
           in cat_loop t n s))"

definition pbuf_cat :: "ptr \<Rightarrow> ptr \<Rightarrow> net \<Rightarrow> net option" where
  "pbuf_cat h t s =
     (case (h, t) of
        (Some h, Some t) \<Rightarrow> do {
          (p, s) \<leftarrow> cat_loop t h s;
          b \<leftarrow> pbufs s p;
          lwip_assert (pb_tot_len b = pb_len b);
          tb \<leftarrow> pbufs s t;
          s \<leftarrow> upd_pbuf p (\<lambda>b. b\<lparr>pb_tot_len := to_u16 (pb_tot_len b + pb_tot_len tb)\<rparr>) s;
          upd_pbuf p (\<lambda>b. b\<lparr>pb_next := Some t\<rparr>) s
        }
      | _ \<Rightarrow> Some s)"

definition pbuf_chain :: "ptr \<Rightarrow> ptr \<Rightarrow> net \<Rightarrow> net option" where
  "pbuf_chain h t s = do {
     s \<leftarrow> pbuf_cat h t s;
     pbuf_ref t s
   }"

definition pbuf_dechain :: "nat \<Rightarrow> net \<Rightarrow> (ptr \<times> net) option" where
  "pbuf_dechain p s = do {
     b \<leftarrow> pbufs s p;
     (tail_gone, s) \<leftarrow>
       (case pb_next b of
          None \<Rightarrow> Some (1, s)
        | Some q \<Rightarrow> do {
            qb \<leftarrow> pbufs s q;
            lwip_assert (int (pb_tot_len qb) = int (pb_tot_len b) - int (pb_len b));
            s \<leftarrow> upd_pbuf q (\<lambda>qb. qb\<lparr>pb_tot_len := to_u16 (pb_tot_len b - pb_len b)\<rparr>) s;
            s \<leftarrow> upd_pbuf p (\<lambda>b. b\<lparr>pb_next := None\<rparr>) s;
            s \<leftarrow> upd_pbuf p (\<lambda>b. b\<lparr>pb_tot_len := pb_len b\<rparr>) s;
            pbuf_free (Some q) s
          });
     b' \<leftarrow> pbufs s p;
     lwip_assert (pb_tot_len b' = pb_len b');
     Some (if tail_gone > 0 then None else pb_next b, s)
   }"


section \<open>References and ownership\<close>

text \<open>
  \<open>holds s q p\<close>: the number of references to \<open>p\<close> that the pbuf \<open>q\<close> holds, through its \<open>next\<close> field and, if it is a
  custom pbuf, through \<open>original\<close>. A pbuf whose count has dropped to zero holds none: it is being freed, and
  \<open>pbuf_free\<close> has taken over its references.
\<close>

definition holds :: "net \<Rightarrow> nat \<Rightarrow> nat \<Rightarrow> nat" where
  "holds s q p = (case pbufs s q of None \<Rightarrow> 0 | Some b \<Rightarrow>
     if pb_ref b = 0 then 0
     else of_bool (pb_next b = Some p) + of_bool (is_custom b \<and> (\<exists>c. customs s q = Some c \<and> original c = Some p)))"

definition held :: "net \<Rightarrow> nat \<Rightarrow> nat" where
  "held s p = (\<Sum>q \<in> dom (pbufs s). holds s q p)"

definition ref_of :: "net \<Rightarrow> nat \<Rightarrow> nat" where
  "ref_of s p = (case pbufs s p of None \<Rightarrow> 0 | Some b \<Rightarrow> pb_ref b)"

text \<open>
  The account of references: \<open>E p\<close> is the number of pointers to \<open>p\<close> outside pbufs, in local variables of the stack and of
  applications. The reference count of every pbuf is the number of pointers to it, and there is none to anything else.
\<close>

definition refs_ok :: "(nat \<Rightarrow> nat) \<Rightarrow> net \<Rightarrow> bool" where
  "refs_ok E s \<longleftrightarrow> finite (dom (pbufs s)) \<and> (\<forall>p. ref_of s p = E p + held s p)"

definition total_refs :: "net \<Rightarrow> nat" where
  "total_refs s = (\<Sum>q \<in> dom (pbufs s). ref_of s q)"

text \<open>Where the pbufs live.\<close>

definition pool_pbufs :: "net \<Rightarrow> nat set" where
  "pool_pbufs s = {a. \<exists>b. pbufs s a = Some b \<and> \<not> is_custom b \<and> pb_type b = PBUF_POOL}"

definition ref_pbufs :: "net \<Rightarrow> nat set" where
  "ref_pbufs s = {a. \<exists>b. pbufs s a = Some b \<and> \<not> is_custom b \<and> (pb_type b = PBUF_ROM \<or> pb_type b = PBUF_REF)}"

definition ram_pbufs :: "net \<Rightarrow> nat set" where
  "ram_pbufs s = {a. \<exists>b. pbufs s a = Some b \<and> \<not> is_custom b \<and> pb_type b = PBUF_RAM}"

abbreviation pool_desc :: "net \<Rightarrow> memp_desc" where "pool_desc s \<equiv> net_pools s ! MEMP_PBUF_POOL"
abbreviation ref_desc :: "net \<Rightarrow> memp_desc" where "ref_desc s \<equiv> net_pools s ! MEMP_PBUF"
abbreviation frag_desc :: "net \<Rightarrow> memp_desc" where "frag_desc s \<equiv> net_pools s ! MEMP_FRAG_PBUF"

text \<open>The memory layout the linker produces: the table of pools, and the heap apart from the pools of pbufs.\<close>

definition layout_ok :: "memp_desc list \<Rightarrow> nat \<Rightarrow> bool" where
  "layout_ok ds r \<longleftrightarrow> length ds = MEMP_MAX \<and> pools_layout ds
     \<and> unat (desc_size (ds ! MEMP_PBUF_POOL)) = SIZEOF_STRUCT_PBUF + PBUF_POOL_BUFSIZE_ALIGNED
     \<and> list_all (\<lambda>t. list_all (\<lambda>a. a + unat (desc_size (ds ! t)) \<le> r \<or> r + 512 \<le> a) (pool_elems (ds ! t)))
         [MEMP_PBUF, MEMP_PBUF_POOL, MEMP_FRAG_PBUF]"

text \<open>The payload of a pbuf with memory of its own, which ends at \<open>lim\<close>, lies in that memory.\<close>

definition in_room :: "nat \<Rightarrow> nat \<Rightarrow> pbuf \<Rightarrow> bool" where
  "in_room lim a b \<longleftrightarrow> (case pb_payload b of None \<Rightarrow> False
     | Some pl \<Rightarrow> a + SIZEOF_STRUCT_PBUF \<le> pl \<and> pl + pb_len b \<le> lim)"

definition heap_ok :: "net \<Rightarrow> bool" where
  "heap_ok s \<longleftrightarrow> (\<exists>M. mem_areas (ram (net_heap s)) M (net_heap s) \<and>
     (\<forall>a \<in> ram_pbufs s. \<exists>k. (a, k) \<in># M \<and> (\<forall>b. pbufs s a = Some b \<longrightarrow> in_room (a + k) a b)))"

definition pbuf_inv :: "net \<Rightarrow> bool" where
  "pbuf_inv s \<longleftrightarrow> layout_ok (net_pools s) (ram (net_heap s))
     \<and> memp_inv (pool_desc s) (pool_pbufs s) (net_memp s)
     \<and> memp_inv (ref_desc s) (ref_pbufs s) (net_memp s)
     \<and> memp_inv (frag_desc s) (dom (customs s)) (net_memp s)
     \<and> heap_ok s
     \<and> (\<forall>a b. pbufs s a = Some b \<longrightarrow> is_custom b \<longrightarrow> (\<exists>c. customs s a = Some c \<and> custom_free_function c \<noteq> None))
     \<and> (\<forall>a b. pbufs s a = Some b \<longrightarrow> a \<in> pool_pbufs s \<longrightarrow> in_room (a + 144) a b)
     \<and> (\<forall>a \<in> set (pool_elems (pool_desc s)). stale_flags s a AND PBUF_FLAG_IS_CUSTOM = 0)"

subsection \<open>Counting references\<close>

lemma holds_outside [simp]: "pbufs s q = None \<Longrightarrow> holds s q p = 0"
  by (simp add: holds_def)

lemma ref_of_outside [simp]: "pbufs s q = None \<Longrightarrow> ref_of s q = 0"
  by (simp add: ref_of_def)

lemma held_superset: "\<lbrakk>finite A; dom (pbufs s) \<subseteq> A\<rbrakk> \<Longrightarrow> held s p = (\<Sum>q \<in> A. holds s q p)"
  unfolding held_def by (rule sum.mono_neutral_left) (auto simp: domIff)

lemma total_refs_superset: "\<lbrakk>finite A; dom (pbufs s) \<subseteq> A\<rbrakk> \<Longrightarrow> total_refs s = (\<Sum>q \<in> A. ref_of s q)"
  unfolding total_refs_def by (rule sum.mono_neutral_left) (auto simp: domIff)

text \<open>\<open>s'\<close> differs from \<open>s\<close> at most in the pbuf at \<open>a\<close>.\<close>

definition only_at :: "nat \<Rightarrow> net \<Rightarrow> net \<Rightarrow> bool" where
  "only_at a s s' \<longleftrightarrow> (\<forall>x. x \<noteq> a \<longrightarrow> pbufs s' x = pbufs s x \<and> customs s' x = customs s x)"

lemma only_at_finite: "only_at a s s' \<Longrightarrow> finite (dom (pbufs s)) \<Longrightarrow> finite (dom (pbufs s'))"
  by (rule finite_subset [of _ "insert a (dom (pbufs s))"]) (auto simp: only_at_def domIff)

lemma only_at_others:
  assumes "only_at a s s'" "x \<noteq> a"
  shows "holds s' x p = holds s x p" "ref_of s' x = ref_of s x"
  using assms by (simp_all add: only_at_def holds_def ref_of_def split: option.split)

lemma held_only_at:
  assumes "only_at a s s'" "finite (dom (pbufs s))"
  shows "held s' p + holds s a p = held s p + holds s' a p"
    and "total_refs s' + ref_of s a = total_refs s + ref_of s' a"
proof -
  let ?A = "insert a (dom (pbufs s))"
  have A: "finite ?A" "a \<in> ?A" "dom (pbufs s) \<subseteq> ?A" "dom (pbufs s') \<subseteq> ?A"
    using assms by (auto simp: only_at_def domIff)
  show "held s' p + holds s a p = held s p + holds s' a p"
    unfolding held_superset [OF A(1,3)] held_superset [OF A(1,4)]
    by (rule sum_change_one [OF A(1,2)]) (rule only_at_others(1) [OF assms(1)])
  show "total_refs s' + ref_of s a = total_refs s + ref_of s' a"
    unfolding total_refs_superset [OF A(1,3)] total_refs_superset [OF A(1,4)]
    by (rule sum_change_one [OF A(1,2)]) (rule only_at_others(2) [OF assms(1)])
qed

text \<open>The general step: the pbuf at \<open>a\<close> changes, and the external references make up for it.\<close>

lemma refs_ok_step:
  assumes "refs_ok E s" "only_at a s s'"
    and "\<And>p. ref_of s' p + E p + holds s a p = ref_of s p + E' p + holds s' a p"
  shows "refs_ok E' s'"
proof -
  have fin: "finite (dom (pbufs s))" and acc: "ref_of s p = E p + held s p" for p using assms(1) by (simp_all add: refs_ok_def)
  have "ref_of s' p = E' p + held s' p" for p
    using held_only_at(1) [OF assms(2) fin, of p] assms(3) [of p] acc [of p] by linarith
  then show ?thesis using only_at_finite [OF assms(2) fin] by (simp add: refs_ok_def)
qed

lemma refs_ok_live: "refs_ok E s \<Longrightarrow> 0 < E p \<Longrightarrow> \<exists>b. pbufs s p = Some b \<and> 0 < pb_ref b"
  unfolding refs_ok_def ref_of_def by (metis add_gr_0 not_less_zero option.case_eq_if option.collapse)

lemma holds_le_held: "finite (dom (pbufs s)) \<Longrightarrow> holds s q p \<le> held s p"
  unfolding held_def by (cases "q \<in> dom (pbufs s)") (auto intro: member_le_sum simp: domIff)

text \<open>No pbuf that is in use points to a freed one.\<close>

lemma refs_ok_next_live:
  assumes "refs_ok E s" "pbufs s q = Some b" "0 < pb_ref b" "pb_next b = Some p"
  shows "\<exists>b'. pbufs s p = Some b' \<and> 0 < pb_ref b'"
proof -
  have "0 < holds s q p" using assms by (simp add: holds_def)
  also have "\<dots> \<le> held s p" using assms(1) by (simp add: refs_ok_def holds_le_held)
  finally have "0 < ref_of s p" using assms(1) by (simp add: refs_ok_def)
  then show ?thesis by (auto simp: ref_of_def split: option.splits)
qed

subsection \<open>Ownership\<close>

lemma pools_layout_nth:
  "\<lbrakk>pools_layout ds; i < length ds; j < length ds; i \<noteq> j\<rbrakk> \<Longrightarrow> pools_apart (ds ! i) (ds ! j)"
proof (induction ds arbitrary: i j)
  case (Cons d ds)
  then show ?case by (cases i; cases j) (auto simp: list_all_length)
qed simp

lemma pbuf_inv_parts:
  assumes "pbuf_inv s"
  shows "layout_ok (net_pools s) (ram (net_heap s))"
    "memp_inv (pool_desc s) (pool_pbufs s) (net_memp s)" "memp_inv (ref_desc s) (ref_pbufs s) (net_memp s)"
    "memp_inv (frag_desc s) (dom (customs s)) (net_memp s)" "heap_ok s"
    "\<And>a b. \<lbrakk>pbufs s a = Some b; is_custom b\<rbrakk> \<Longrightarrow> \<exists>c. customs s a = Some c \<and> custom_free_function c \<noteq> None"
    "\<And>a b. \<lbrakk>pbufs s a = Some b; a \<in> pool_pbufs s\<rbrakk> \<Longrightarrow> in_room (a + 144) a b"
    "\<And>a. a \<in> set (pool_elems (pool_desc s)) \<Longrightarrow> stale_flags s a AND PBUF_FLAG_IS_CUSTOM = 0"
  using assms by (auto simp: pbuf_inv_def)

lemma pbuf_inv_apart:
  assumes "pbuf_inv s"
  shows "pools_apart (pool_desc s) (ref_desc s)" "pools_apart (pool_desc s) (frag_desc s)"
    "pools_apart (ref_desc s) (pool_desc s)" "pools_apart (ref_desc s) (frag_desc s)"
    "pools_apart (frag_desc s) (pool_desc s)" "pools_apart (frag_desc s) (ref_desc s)"
  using assms by (auto simp: pbuf_inv_def layout_ok_def intro!: pools_layout_nth)

lemma memp_inv_elems: "memp_inv d A s \<Longrightarrow> A \<subseteq> set (pool_elems d)"
  by (auto elim!: memp_invE)

text \<open>Each pbuf belongs to exactly one of the four sources of memory.\<close>

lemma pbuf_inv_elems:
  assumes "pbuf_inv s"
  shows "pool_pbufs s \<subseteq> set (pool_elems (pool_desc s))" "ref_pbufs s \<subseteq> set (pool_elems (ref_desc s))"
    "dom (customs s) \<subseteq> set (pool_elems (frag_desc s))"
    "ram_pbufs s \<subseteq> {ram (net_heap s) + 8 ..< ram (net_heap s) + 512}"
proof -
  show "pool_pbufs s \<subseteq> set (pool_elems (pool_desc s))" "ref_pbufs s \<subseteq> set (pool_elems (ref_desc s))"
    "dom (customs s) \<subseteq> set (pool_elems (frag_desc s))"
    using pbuf_inv_parts(2-4) [OF assms] by (simp_all add: memp_inv_elems)
  show "ram_pbufs s \<subseteq> {ram (net_heap s) + 8 ..< ram (net_heap s) + 512}"
  proof
    fix a assume "a \<in> ram_pbufs s"
    with assms obtain M k where "mem_areas (ram (net_heap s)) M (net_heap s)" "(a, k) \<in># M"
      by (auto simp: pbuf_inv_def heap_ok_def)
    from heap.areas_range [OF this] show "a \<in> {ram (net_heap s) + 8 ..< ram (net_heap s) + 512}" by auto
  qed
qed

lemma pool_elems_off_heap:
  assumes "pbuf_inv s" and "d = pool_desc s \<or> d = ref_desc s \<or> d = frag_desc s"
  shows "set (pool_elems d) \<inter> {ram (net_heap s) + 8 ..< ram (net_heap s) + 512} = {}"
  using assms by (fastforce simp: pbuf_inv_def layout_ok_def list_all_iff)

lemma plain_not_custom:
  assumes "pbuf_inv s" "pbufs s a = Some b" "\<not> is_custom b"
  shows "customs s a = None"
proof -
  have "a \<in> pool_pbufs s \<or> a \<in> ref_pbufs s \<or> a \<in> ram_pbufs s"
    using assms(2,3) by (cases "pb_type b") (auto simp: pool_pbufs_def ref_pbufs_def ram_pbufs_def)
  then have "a \<notin> set (pool_elems (frag_desc s))"
    using pbuf_inv_elems [OF assms(1)] pbuf_inv_apart [OF assms(1)] pool_elems_off_heap [OF assms(1)]
    unfolding pools_apart_def by blast
  then show ?thesis using pbuf_inv_elems(3) [OF assms(1)] by blast
qed

lemma custom_not_in_pool:
  assumes "pbuf_inv s" "customs s a \<noteq> None"
  shows "a \<notin> set (pool_elems (pool_desc s))"
  using pbuf_inv_elems(3) [OF assms(1)] pbuf_inv_apart(2) [OF assms(1)] assms(2) unfolding pools_apart_def by blast

definition same_rest :: "net \<Rightarrow> net \<Rightarrow> bool" where
  "same_rest s s' \<longleftrightarrow> bytes s' = bytes s \<and> net_pools s' = net_pools s \<and> ram (net_heap s') = ram (net_heap s)
     \<and> pbuf_free_ooseq_pending s' = pbuf_free_ooseq_pending s"

lemma same_rest_refl [simp]: "same_rest s s"
  by (simp add: same_rest_def)

lemma same_rest_trans: "same_rest s s' \<Longrightarrow> same_rest s' s'' \<Longrightarrow> same_rest s s''"
  by (simp add: same_rest_def)

lemma net_simps [simp]:
  "pbufs (put_pbuf a b s) = (pbufs s)(a \<mapsto> b)" "customs (put_pbuf a b s) = customs s"
  "net_heap (put_pbuf a b s) = net_heap s" "net_memp (put_pbuf a b s) = net_memp s"
  "net_pools (put_pbuf a b s) = net_pools s" "bytes (put_pbuf a b s) = bytes s"
  "stale_flags (put_pbuf a b s) = stale_flags s"
  "pbuf_free_ooseq_pending (put_pbuf a b s) = pbuf_free_ooseq_pending s"
  "pbufs (drop_pbuf a s) = (pbufs s)(a := None)" "customs (drop_pbuf a s) = (customs s)(a := None)"
  "net_heap (drop_pbuf a s) = net_heap s" "net_memp (drop_pbuf a s) = net_memp s"
  "net_pools (drop_pbuf a s) = net_pools s" "bytes (drop_pbuf a s) = bytes s"
  "pbuf_free_ooseq_pending (drop_pbuf a s) = pbuf_free_ooseq_pending s"
  by (simp_all add: put_pbuf_def drop_pbuf_def)

lemma same_rest_put [simp]: "same_rest s (put_pbuf a b s)"
  by (simp add: same_rest_def)

text \<open>The memory of a pbuf is given back, by whichever allocator.\<close>

lemma pbuf_inv_drop:
  assumes inv: "pbuf_inv s" and a: "pbufs s a = Some b" "a \<in> set (pool_elems (pool_desc s)) \<Longrightarrow> \<not> is_custom b"
    and m: "memp_inv (pool_desc s) (pool_pbufs s - {a}) m" "memp_inv (ref_desc s) (ref_pbufs s - {a}) m"
      "memp_inv (frag_desc s) (dom (customs s) - {a}) m"
    and h: "ram h = ram (net_heap s)" "mem_areas (ram h) M h"
      "\<And>x. x \<in> ram_pbufs s - {a} \<Longrightarrow> \<exists>k. (x, k) \<in># M \<and> (\<forall>b. pbufs s x = Some b \<longrightarrow> in_room (x + k) x b)"
  shows "pbuf_inv (drop_pbuf a (s\<lparr>net_memp := m, net_heap := h\<rparr>))" (is "pbuf_inv ?s")
proof -
  have sets: "pool_pbufs ?s = pool_pbufs s - {a}" "ref_pbufs ?s = ref_pbufs s - {a}" "ram_pbufs ?s = ram_pbufs s - {a}"
    by (auto simp: pool_pbufs_def ref_pbufs_def ram_pbufs_def)
  have "heap_ok ?s"
    unfolding heap_ok_def sets using h(1,2) h(3) by (intro exI [of _ M]) (auto simp: h(1) [symmetric] simp del: h(1))
  moreover have "stale_flags ?s x AND 2 = 0" if "x \<in> set (pool_elems (pool_desc s))" for x
    using that inv a by (auto simp: drop_pbuf_def pbuf_inv_def is_custom_def)
  moreover have "\<exists>c. customs ?s x = Some c \<and> custom_free_function c \<noteq> None" if "pbufs ?s x = Some b'" "is_custom b'" for x b'
    using that inv by (auto simp: pbuf_inv_def split: if_splits)
  moreover have "in_room (x + 144) x b'" if "pbufs ?s x = Some b'" "x \<in> pool_pbufs ?s" for x b'
    using that inv sets(1) by (auto simp: pbuf_inv_def split: if_splits)
  moreover have "dom (customs ?s) = dom (customs s) - {a}" by auto
  ultimately show ?thesis
    using inv m h(1) unfolding pbuf_inv_def sets by simp
qed

lemma net_memp_free_out:
  assumes "memp_inv (net_pools s ! t) A (net_memp s)" "a \<in> A" "t < length (net_pools s)"
  obtains m where "net_memp_free t a s = Some (drop_pbuf a (s\<lparr>net_memp := m\<rparr>))" "memp_inv (net_pools s ! t) (A - {a}) m"
    "\<And>d B. pools_apart d (net_pools s ! t) \<Longrightarrow> memp_inv d B (net_memp s) \<Longrightarrow> memp_inv d B m"
proof -
  from memp.release_out [OF assms(1,2)] obtain m where m: "do_memp_free_pool (net_pools s ! t) a (net_memp s) = Some m"
    "memp_inv (net_pools s ! t) (A - {a}) m" by blast
  have "a \<in> set (pool_elems (net_pools s ! t))" using memp_inv_elems [OF assms(1)] assms(2) by blast
  with m(1) have "memp_inv d B m" if "pools_apart d (net_pools s ! t)" "memp_inv d B (net_memp s)" for d B
    using that by (blast intro: free_pool_other)
  moreover have "net_memp_free t a s = Some (drop_pbuf a (s\<lparr>net_memp := m\<rparr>))"
    using m(1) assms(3) by (simp add: net_memp_free_def memp_free_def)
  ultimately show ?thesis using that m(2) by blast
qed

lemma layout_ok_length: "layout_ok ds r \<Longrightarrow> length ds = 11"
  by (simp add: layout_ok_def)

text \<open>Giving back a pbuf or a custom pbuf to its pool; the heap is not concerned.\<close>

lemma memp_dealloc:
  assumes inv: "pbuf_inv s" and a: "pbufs s a = Some b" and t: "t = MEMP_PBUF_POOL \<or> t = MEMP_PBUF \<or> t = MEMP_FRAG_PBUF"
    and own: "t = MEMP_PBUF_POOL \<Longrightarrow> a \<in> pool_pbufs s" "t = MEMP_PBUF \<Longrightarrow> a \<in> ref_pbufs s" "t = MEMP_FRAG_PBUF \<Longrightarrow> is_custom b"
  shows "\<exists>s'. net_memp_free t a s = Some s' \<and> pbuf_inv s' \<and> pbufs s' = (pbufs s)(a := None)
    \<and> customs s' = (customs s)(a := None) \<and> same_rest s s'"
proof -
  note parts = pbuf_inv_parts [OF inv] and elems = pbuf_inv_elems [OF inv] and apart = pbuf_inv_apart [OF inv]
  have frag: "a \<in> dom (customs s)" if "t = MEMP_FRAG_PBUF" using parts(6) [OF a] own(3) that by auto
  let ?A = "if t = MEMP_PBUF_POOL then pool_pbufs s else if t = MEMP_PBUF then ref_pbufs s else dom (customs s)"
  have A: "memp_inv (net_pools s ! t) ?A (net_memp s)" "a \<in> ?A" "t < length (net_pools s)"
    using parts(2-4) own(1,2) t frag layout_ok_length [OF parts(1)] by auto
  obtain m where m: "net_memp_free t a s = Some (drop_pbuf a (s\<lparr>net_memp := m\<rparr>))" "memp_inv (net_pools s ! t) (?A - {a}) m"
    "\<And>d B. pools_apart d (net_pools s ! t) \<Longrightarrow> memp_inv d B (net_memp s) \<Longrightarrow> memp_inv d B m"
    using net_memp_free_out [OF A] by blast
  have a_in: "a \<in> set (pool_elems (net_pools s ! t))" using memp_inv_elems [OF A(1)] A(2) by blast
  have "memp_inv (pool_desc s) (pool_pbufs s - {a}) m" "memp_inv (ref_desc s) (ref_pbufs s - {a}) m"
    "memp_inv (frag_desc s) (dom (customs s) - {a}) m"
  proof -
    have other: "memp_inv d (B - {a}) m" if "memp_inv d B (net_memp s)" "pools_apart d (net_pools s ! t)" for d B
    proof -
      have "a \<notin> B" using that a_in memp_inv_elems by (fastforce simp: pools_apart_def)
      with m(3) [OF that(2,1)] show ?thesis by simp
    qed
    show "memp_inv (pool_desc s) (pool_pbufs s - {a}) m"
      using t m(2) other [OF parts(2)] apart by (cases "t = 10") auto
    show "memp_inv (ref_desc s) (ref_pbufs s - {a}) m"
      using t m(2) other [OF parts(3)] apart by (cases "t = 9") auto
    show "memp_inv (frag_desc s) (dom (customs s) - {a}) m"
      using t m(2) other [OF parts(4)] apart by (cases "t = 6") auto
  qed
  moreover have "\<not> is_custom b" if "a \<in> set (pool_elems (pool_desc s))"
  proof -
    from that have "t = 10" using t a_in apart unfolding pools_apart_def by blast
    then show ?thesis using own(1) a by (simp add: pool_pbufs_def)
  qed
  moreover from parts(5) obtain M where "mem_areas (ram (net_heap s)) M (net_heap s)"
    "\<forall>x \<in> ram_pbufs s. \<exists>k. (x, k) \<in># M \<and> (\<forall>b. pbufs s x = Some b \<longrightarrow> in_room (x + k) x b)"
    unfolding heap_ok_def by blast
  ultimately have "pbuf_inv (drop_pbuf a (s\<lparr>net_memp := m, net_heap := net_heap s\<rparr>))"
    by (intro pbuf_inv_drop [OF inv a]) auto
  moreover have "s\<lparr>net_memp := m, net_heap := net_heap s\<rparr> = s\<lparr>net_memp := m\<rparr>" by simp
  ultimately show ?thesis using m(1) by (simp add: same_rest_def)
qed

lemma mem_dealloc:
  assumes inv: "pbuf_inv s" and a: "a \<in> ram_pbufs s"
  shows "\<exists>s'. net_mem_free a s = Some s' \<and> pbuf_inv s' \<and> pbufs s' = (pbufs s)(a := None)
    \<and> customs s' = (customs s)(a := None) \<and> same_rest s s'"
proof -
  note parts = pbuf_inv_parts [OF inv] and elems = pbuf_inv_elems [OF inv]
  let ?r = "ram (net_heap s)"
  from parts(5) obtain M where M: "mem_areas ?r M (net_heap s)"
    "\<forall>x \<in> ram_pbufs s. \<exists>k. (x, k) \<in># M \<and> (\<forall>b. pbufs s x = Some b \<longrightarrow> in_room (x + k) x b)"
    unfolding heap_ok_def by blast
  from M(2) a obtain k where k: "(a, k) \<in># M" by blast
  then obtain M' where M': "M = add_mset (a, k) M'" by (meson mset_add)
  from heap.release_areas [of ?r a k M' "net_heap s"] M(1) M' obtain h where
    h: "mem_free (Some a) (net_heap s) = Some h" "mem_areas ?r M' h" by blast
  have r: "ram h = ?r" using h(2) by (simp add: mem_areas_def)
  from a obtain b where b: "pbufs s a = Some b" "\<not> is_custom b" by (auto simp: ram_pbufs_def)
  have out: "a \<notin> pool_pbufs s" "a \<notin> ref_pbufs s" "a \<notin> dom (customs s)"
    using a b plain_not_custom [OF inv b] by (auto simp: pool_pbufs_def ref_pbufs_def ram_pbufs_def)
  have "\<exists>k. (x, k) \<in># M' \<and> (\<forall>b. pbufs s x = Some b \<longrightarrow> in_room (x + k) x b)" if "x \<in> ram_pbufs s - {a}" for x
    using M(2) M' that by auto
  then have "pbuf_inv (drop_pbuf a (s\<lparr>net_memp := net_memp s, net_heap := h\<rparr>))"
    using parts(2-4) out h(2) r b(2) by (intro pbuf_inv_drop [OF inv b(1)]) auto
  moreover have "s\<lparr>net_memp := net_memp s, net_heap := h\<rparr> = s\<lparr>net_heap := h\<rparr>" by simp
  ultimately show ?thesis using h(1) r by (simp add: net_mem_free_def same_rest_def)
qed

lemma dealloc_plain:
  assumes inv: "pbuf_inv s" and a: "pbufs s a = Some b" "\<not> is_custom b"
    and b': "pb_type b' = pb_type b" "pb_flags b' = pb_flags b"
  shows "\<exists>s'. pbuf_dealloc f a b' s = Some s' \<and> pbuf_inv s' \<and> pbufs s' = (pbufs s)(a := None)
    \<and> customs s' = (customs s)(a := None) \<and> same_rest s s'"
proof -
  have "\<not> is_custom b'" using a(2) b'(2) by (simp add: is_custom_def)
  with memp_dealloc [OF inv a(1)] mem_dealloc [OF inv] a b'(1) show ?thesis
    by (cases "pb_type b") (auto simp: pbuf_dealloc_def pool_pbufs_def ref_pbufs_def ram_pbufs_def)
qed

text \<open>Rewriting fields of a pbuf that do not concern its memory.\<close>

lemma pbuf_inv_put:
  assumes inv: "pbuf_inv s" and a: "pbufs s a = Some b" and b': "pb_type b' = pb_type b" and cust: "is_custom b' = is_custom b"
    and room: "\<And>lim. \<lbrakk>pb_type b = PBUF_RAM \<or> pb_type b = PBUF_POOL; in_room lim a b\<rbrakk> \<Longrightarrow> in_room lim a b'"
  shows "pbuf_inv (put_pbuf a b' s)" (is "pbuf_inv ?s")
proof -
  have sets: "pool_pbufs ?s = pool_pbufs s" "ref_pbufs ?s = ref_pbufs s" "ram_pbufs ?s = ram_pbufs s"
    using a b' cust by (auto simp: pool_pbufs_def ref_pbufs_def ram_pbufs_def)
  note parts = pbuf_inv_parts [OF inv]
  from parts(5) obtain M where M: "mem_areas (ram (net_heap s)) M (net_heap s)"
    "\<forall>x \<in> ram_pbufs s. \<exists>k. (x, k) \<in># M \<and> (\<forall>b. pbufs s x = Some b \<longrightarrow> in_room (x + k) x b)"
    unfolding heap_ok_def by blast
  have "\<exists>k. (x, k) \<in># M \<and> (\<forall>b. pbufs ?s x = Some b \<longrightarrow> in_room (x + k) x b)" if "x \<in> ram_pbufs s" for x
  proof -
    from M(2) that obtain k where "(x, k) \<in># M" "\<forall>b. pbufs s x = Some b \<longrightarrow> in_room (x + k) x b" by blast
    then show ?thesis using that room [of "x + k"] a by (cases "x = a") (auto simp: ram_pbufs_def)
  qed
  with M(1) have "heap_ok ?s" unfolding heap_ok_def sets by (intro exI [of _ M] conjI) (simp, blast)
  moreover have "in_room (x + 144) x c" if "pbufs ?s x = Some c" "x \<in> pool_pbufs s" for x c
    using that parts(7) [of x] parts(7) [OF a] room a by (cases "x = a") (auto simp: pool_pbufs_def)
  moreover have "\<exists>d. customs ?s x = Some d \<and> custom_free_function d \<noteq> None" if "pbufs ?s x = Some c" "is_custom c" for x c
    using that parts(6) [of x] parts(6) [OF a] cust by (cases "x = a") auto
  ultimately show ?thesis using parts unfolding pbuf_inv_def sets by simp
qed

lemma pbuf_inv_put_ref: "\<lbrakk>pbuf_inv s; pbufs s a = Some b\<rbrakk> \<Longrightarrow> pbuf_inv (put_pbuf a (b\<lparr>pb_ref := r\<rparr>) s)"
  by (rule pbuf_inv_put) (auto simp: in_room_def split: option.splits)


section \<open>Freeing\<close>

definition net_ok :: "(nat \<Rightarrow> nat) \<Rightarrow> net \<Rightarrow> bool" where
  "net_ok E s \<longleftrightarrow> pbuf_inv s \<and> refs_ok E s"

text \<open>
  What \<open>pbuf_free\<close> leaves alone: pbufs that remain differ at most in their count, and pbufs that are already being
  freed do not change at all.
\<close>

definition shrunk :: "net \<Rightarrow> net \<Rightarrow> bool" where
  "shrunk s s' \<longleftrightarrow> same_rest s s'
     \<and> (\<forall>x b'. pbufs s' x = Some b' \<longrightarrow> (\<exists>b. pbufs s x = Some b \<and> b' = b\<lparr>pb_ref := pb_ref b'\<rparr> \<and> customs s' x = customs s x))
     \<and> (\<forall>x b. pbufs s x = Some b \<longrightarrow> pb_ref b = 0 \<longrightarrow> pbufs s' x = Some b)
     \<and> (\<forall>x. pbufs s x = None \<longrightarrow> customs s' x = customs s x)"

lemma but_ref_trans: "b' = b\<lparr>pb_ref := r\<rparr> \<Longrightarrow> b'' = b'\<lparr>pb_ref := r'\<rparr> \<Longrightarrow> b'' = b\<lparr>pb_ref := r'\<rparr>"
  by simp

lemma shrunkD:
  assumes "shrunk s s'"
  shows "same_rest s s'"
    "pbufs s' x = Some b' \<Longrightarrow> \<exists>b. pbufs s x = Some b \<and> b' = b\<lparr>pb_ref := pb_ref b'\<rparr> \<and> customs s' x = customs s x"
    "\<lbrakk>pbufs s x = Some b; pb_ref b = 0\<rbrakk> \<Longrightarrow> pbufs s' x = Some b"
    "pbufs s x = None \<Longrightarrow> customs s' x = customs s x"
    "pbufs s x = None \<Longrightarrow> pbufs s' x = None"
  using assms unfolding shrunk_def by (blast+, metis not_None_eq)

lemma shrunk_trans:
  assumes "shrunk s s'" "shrunk s' s''"
  shows "shrunk s s''"
  unfolding shrunk_def
proof (intro conjI allI impI)
  show "same_rest s s''" using same_rest_trans [OF shrunkD(1) [OF assms(1)] shrunkD(1) [OF assms(2)]] .
  show "pbufs s'' x = Some b" if "pbufs s x = Some b" "pb_ref b = 0" for x b
    using that shrunkD(3) [OF assms(1)] shrunkD(3) [OF assms(2)] by blast
  show "customs s'' x = customs s x" if "pbufs s x = None" for x
    using that shrunkD(4,5) [OF assms(1)] shrunkD(4) [OF assms(2)] by simp
  show "\<exists>b. pbufs s x = Some b \<and> b'' = b\<lparr>pb_ref := pb_ref b''\<rparr> \<and> customs s'' x = customs s x"
    if "pbufs s'' x = Some b''" for x b''
  proof -
    from shrunkD(2) [OF assms(2) that] obtain b' where b': "pbufs s' x = Some b'" "b'' = b'\<lparr>pb_ref := pb_ref b''\<rparr>"
      "customs s'' x = customs s' x" by blast
    from shrunkD(2) [OF assms(1) b'(1)] obtain b where "pbufs s x = Some b" "b' = b\<lparr>pb_ref := pb_ref b'\<rparr>"
      "customs s' x = customs s x" by blast
    then show ?thesis using b' but_ref_trans by metis
  qed
qed

lemma shrunk_put_ref:
  "\<lbrakk>pbufs s a = Some b; 0 < pb_ref b\<rbrakk> \<Longrightarrow> shrunk s (put_pbuf a (b\<lparr>pb_ref := r\<rparr>) s)"
  by (auto simp: shrunk_def)

lemma shrunk_drop:
  "\<lbrakk>pbufs s a = Some b; pbufs s' = (pbufs s)(a := None); customs s' = (customs s)(a := None); same_rest s s'\<rbrakk>
   \<Longrightarrow> pb_ref b > 0 \<Longrightarrow> shrunk s s'"
  by (auto simp: shrunk_def split: if_splits)

lemma refs_ok_drop:
  assumes "refs_ok E s" "pbufs s a = Some b" "pb_ref b = 0"
    and s': "pbufs s' = (pbufs s)(a := None)" "customs s' = (customs s)(a := None)"
  shows "refs_ok E s'" "total_refs s' = total_refs s"
proof -
  have only: "only_at a s s'" using s' by (simp add: only_at_def)
  have z: "holds s a p = 0" "holds s' a p = 0" "ref_of s a = 0" "ref_of s' a = 0" for p
    using assms(2,3) s' by (simp_all add: holds_def ref_of_def)
  have "ref_of s' p = ref_of s p" for p using z(3,4) only_at_others(2) [OF only] by (cases "p = a") simp_all
  then show "refs_ok E s'" using z by (intro refs_ok_step [OF assms(1) only]) simp
  show "total_refs s' = total_refs s"
    using held_only_at(2) [OF only] assms(1) z by (simp add: refs_ok_def)
qed

text \<open>One reference to \<open>a\<close> is given up. As long as others remain, that is all.\<close>

lemma refs_ok_decr:
  assumes "refs_ok E s" "0 < E a" "pbufs s a = Some b" and s': "s' = put_pbuf a (b\<lparr>pb_ref := pb_ref b - 1\<rparr>) s"
  shows "1 < pb_ref b \<Longrightarrow> refs_ok (E(a := E a - 1)) s'"
    and "pb_ref b = 1 \<Longrightarrow> refs_ok (\<lambda>p. (E(a := 0)) p + holds s a p) s'"
    and "total_refs s' < total_refs s" and "0 < pb_ref b"
proof -
  have only: "only_at a s s'" unfolding s' by (simp add: only_at_def)
  obtain "0 < pb_ref b" using refs_ok_live [OF assms(1,2)] assms(3) by auto
  then show "0 < pb_ref b" .
  have r: "ref_of s' p = (if p = a then pb_ref b - 1 else ref_of s p)" "ref_of s a = pb_ref b" for p
    using assms(3) by (simp_all add: s' ref_of_def)
  show "total_refs s' < total_refs s"
    using held_only_at(2) [OF only] assms(1) r \<open>0 < pb_ref b\<close> by (simp add: refs_ok_def)
  show "refs_ok (E(a := E a - 1)) s'" if "1 < pb_ref b"
  proof (rule refs_ok_step [OF assms(1) only])
    have "holds s' a p = holds s a p" for p using that assms(3) by (simp add: holds_def s')
    then show "ref_of s' p + E p + holds s a p = ref_of s p + (E(a := E a - 1)) p + holds s' a p" for p
      using r assms(2) that by simp
  qed
  show "refs_ok (\<lambda>p. (E(a := 0)) p + holds s a p) s'" if one: "pb_ref b = 1"
  proof (rule refs_ok_step [OF assms(1) only])
    have "holds s' a p = 0" for p using one by (simp add: holds_def s')
    moreover have "E a = 1" using assms(1,2) r(2) one unfolding refs_ok_def
      by (metis One_nat_def add_is_1 bot_nat_0.not_eq_extremum)
    ultimately show "ref_of s' p + E p + holds s a p = ref_of s p + ((E(a := 0)) p + holds s a p) + holds s' a p" for p
      using r one by simp
  qed
qed

lemma loop_None [simp]: "pbuf_free_loop cnt None s = Some (cnt, s)"
  by (subst pbuf_free_loop.simps) simp

lemma loop_keep:
  "\<lbrakk>pbufs s a = Some b; 1 < pb_ref b\<rbrakk> \<Longrightarrow>
   pbuf_free_loop cnt (Some a) s = Some (cnt, put_pbuf a (b\<lparr>pb_ref := pb_ref b - 1\<rparr>) s)"
  by (subst pbuf_free_loop.simps) (simp add: Let_def)

lemma loop_free:
  "\<lbrakk>pbufs s a = Some b; pb_ref b = 1\<rbrakk> \<Longrightarrow>
   pbuf_free_loop cnt (Some a) s =
     Option.bind (pbuf_dealloc (pbuf_free_loop 0) a b (put_pbuf a (b\<lparr>pb_ref := 0\<rparr>) s))
       (\<lambda>s. pbuf_free_loop ((cnt + 1) mod 256) (pb_next b) s)"
  by (subst pbuf_free_loop.simps) (simp add: Let_def)

text \<open>
  The reference a freed pbuf holds on its successor is given up next; \<open>IH\<close> is the claim for states with fewer references.
\<close>

lemma free_successor:
  assumes IH: "\<And>E s a cnt. \<lbrakk>total_refs s < N; net_ok E s; 0 < E a\<rbrakk> \<Longrightarrow>
      \<exists>n s'. pbuf_free_loop cnt (Some a) s = Some (n, s') \<and> net_ok (E(a := E a - 1)) s' \<and> shrunk s s' \<and> total_refs s' < total_refs s"
    and s: "total_refs s < N" "net_ok (\<lambda>p. E p + of_bool (q = Some p)) s"
  shows "\<exists>n s'. pbuf_free_loop cnt q s = Some (n, s') \<and> net_ok E s' \<and> shrunk s s' \<and> total_refs s' \<le> total_refs s"
proof (cases q)
  case None
  then show ?thesis using s(2) by (auto simp: shrunk_def)
next
  case (Some a)
  let ?E = "\<lambda>p. E p + of_bool (q = Some p)"
  have "?E(a := ?E a - 1) = E" using Some by auto
  with IH [OF s, of a cnt] Some show ?thesis by (auto intro: less_imp_le)
qed

text \<open>A pbuf whose last reference is given up is released; the reference to its successor becomes an external one.\<close>

lemma release_plain:
  assumes ok: "net_ok E s" "0 < E a" and b: "pbufs s a = Some b" "pb_ref b = 1" "\<not> is_custom b"
  shows "\<exists>s'. pbuf_dealloc f a b (put_pbuf a (b\<lparr>pb_ref := 0\<rparr>) s) = Some s' \<and> shrunk s s' \<and> total_refs s' < total_refs s
    \<and> net_ok (\<lambda>p. (E(a := 0)) p + of_bool (pb_next b = Some p)) s'"
proof -
  let ?s = "put_pbuf a (b\<lparr>pb_ref := 0\<rparr>) s" and ?E = "\<lambda>p. (E(a := 0)) p + holds s a p"
  have inv: "pbuf_inv ?s" and refs: "refs_ok ?E ?s" and less: "total_refs ?s < total_refs s"
    using ok b pbuf_inv_put_ref [OF _ b(1), of 0] refs_ok_decr [of E s a b, OF _ ok(2) b(1) refl] by (simp_all add: net_ok_def)
  from dealloc_plain [OF inv, of a "b\<lparr>pb_ref := 0\<rparr>" b f] b obtain s' where
    s': "pbuf_dealloc f a b ?s = Some s'" "pbuf_inv s'" "pbufs s' = (pbufs ?s)(a := None)"
    "customs s' = (customs ?s)(a := None)" "same_rest ?s s'" by auto
  have "refs_ok ?E s'" "total_refs s' = total_refs ?s"
    using refs_ok_drop [OF refs _ _ s'(3,4), of "b\<lparr>pb_ref := 0\<rparr>"] by simp_all
  moreover have "?E = (\<lambda>p. (E(a := 0)) p + of_bool (pb_next b = Some p))" using b by (auto simp: holds_def)
  moreover have "shrunk s s'" using s'(3-5) b by (intro shrunk_drop [of s a b]) (auto simp: same_rest_def)
  ultimately show ?thesis using s'(1,2) less by (auto simp: net_ok_def)
qed

lemma release_custom:
  assumes IH: "\<And>E s a cnt. \<lbrakk>total_refs s < N; net_ok E s; 0 < E a\<rbrakk> \<Longrightarrow>
      \<exists>n s'. pbuf_free_loop cnt (Some a) s = Some (n, s') \<and> net_ok (E(a := E a - 1)) s' \<and> shrunk s s' \<and> total_refs s' < total_refs s"
    and ok: "net_ok E s" "0 < E a" "total_refs s \<le> N" and b: "pbufs s a = Some b" "pb_ref b = 1" "is_custom b"
  shows "\<exists>s'. pbuf_dealloc (pbuf_free_loop 0) a b (put_pbuf a (b\<lparr>pb_ref := 0\<rparr>) s) = Some s' \<and> shrunk s s'
    \<and> total_refs s' < total_refs s \<and> net_ok (\<lambda>p. (E(a := 0)) p + of_bool (pb_next b = Some p)) s'"
proof -
  let ?s = "put_pbuf a (b\<lparr>pb_ref := 0\<rparr>) s" and ?E = "\<lambda>p. (E(a := 0)) p + of_bool (pb_next b = Some p)"
  obtain c where c: "customs s a = Some c" "custom_free_function c = Some ipfrag_free_pbuf_custom_fn"
    using pbuf_inv_parts(6) [OF _ b(1,3)] ok(1) unfolding net_ok_def by (metis not_None_eq pbuf_free_custom_fn.exhaust)
  have "(\<lambda>p. (E(a := 0)) p + holds s a p) = (\<lambda>p. ?E p + of_bool (original c = Some p))" using b c by (auto simp: holds_def)
  with ok b pbuf_inv_put_ref [OF _ b(1), of 0] refs_ok_decr [of E s a b, OF _ ok(2) b(1) refl]
  have "net_ok (\<lambda>p. ?E p + of_bool (original c = Some p)) ?s" and less: "total_refs ?s < total_refs s"
    by (simp_all add: net_ok_def)
  from free_successor [OF IH order.strict_trans2 [OF this(2) ok(3)] this(1), of 0] obtain n s1 where
    s1: "pbuf_free_loop 0 (original c) ?s = Some (n, s1)" "net_ok ?E s1" "shrunk ?s s1" "total_refs s1 \<le> total_refs ?s"
    by blast
  have a1: "pbufs s1 a = Some (b\<lparr>pb_ref := 0\<rparr>)" "customs s1 a = Some c"
    using shrunkD(3) [OF s1(3), of a "b\<lparr>pb_ref := 0\<rparr>"] shrunkD(2) [OF s1(3), of a] c(1) by auto
  have ok1: "pbuf_inv s1" "refs_ok ?E s1" using s1(2) by (simp_all add: net_ok_def)
  from memp_dealloc [OF ok1(1) a1(1), of 6] b(3) obtain s' where
    s': "net_memp_free 6 a s1 = Some s'" "pbuf_inv s'" "pbufs s' = (pbufs s1)(a := None)"
    "customs s' = (customs s1)(a := None)" "same_rest s1 s'" by auto
  have "refs_ok ?E s'" "total_refs s' = total_refs s1"
    using refs_ok_drop [OF ok1(2) a1(1) _ s'(3,4)] by simp_all
  moreover have "shrunk s s1" by (rule shrunk_trans [OF shrunk_put_ref [OF b(1)] s1(3)]) (simp add: b(2))
  then have "shrunk s s'" using s'(3-5) b unfolding shrunk_def by (auto intro: same_rest_trans)
  moreover have "pbuf_dealloc (pbuf_free_loop 0) a b ?s = Some s'"
    using b(3) c a1(2) s1(1) s'(1)
    by (cases "original c") (simp_all add: pbuf_dealloc_def ipfrag_free_pbuf_custom_def ip_frag_free_pbuf_custom_ref_def)
  ultimately show ?thesis using s'(2) s1(4) less by (auto simp: net_ok_def)
qed

lemma free_loop_ok:
  "\<lbrakk>total_refs s < N; net_ok E s; 0 < E a\<rbrakk> \<Longrightarrow>
   \<exists>n s'. pbuf_free_loop cnt (Some a) s = Some (n, s') \<and> net_ok (E(a := E a - 1)) s' \<and> shrunk s s' \<and> total_refs s' < total_refs s"
proof (induction N arbitrary: E s a cnt)
  case (Suc N)
  have ok: "pbuf_inv s" "refs_ok E s" using Suc.prems(2) by (simp_all add: net_ok_def)
  obtain b where b: "pbufs s a = Some b" "0 < pb_ref b" using refs_ok_live [OF ok(2) Suc.prems(3)] by blast
  show ?case
  proof (cases "pb_ref b = 1")
    case False
    with b(2) have "1 < pb_ref b" by simp
    with loop_keep [OF b(1)] refs_ok_decr [OF ok(2) Suc.prems(3) b(1) refl] pbuf_inv_put_ref [OF ok(1) b(1)] shrunk_put_ref [OF b]
    show ?thesis unfolding net_ok_def by blast
  next
    case True
    have "E a = 1" using ok(2) True b(1) Suc.prems(3) unfolding refs_ok_def ref_of_def by (auto dest!: spec [of _ a])
    then have E0: "E(a := E a - 1) = E(a := 0)" by simp
    obtain s' where s': "pbuf_dealloc (pbuf_free_loop 0) a b (put_pbuf a (b\<lparr>pb_ref := 0\<rparr>) s) = Some s'" "shrunk s s'"
      "total_refs s' < total_refs s" "net_ok (\<lambda>p. (E(a := 0)) p + of_bool (pb_next b = Some p)) s'"
      using release_plain [OF Suc.prems(2,3) b(1) True, of "pbuf_free_loop 0"]
        release_custom [OF Suc.IH Suc.prems(2,3) less_Suc_eq_le [THEN iffD1, OF Suc.prems(1)] b(1) True] by blast
    have "total_refs s' < N" using s'(3) Suc.prems(1) by simp
    from free_successor [OF Suc.IH this s'(4), of "(cnt + 1) mod 256"] obtain n s'' where
      s'': "pbuf_free_loop ((cnt + 1) mod 256) (pb_next b) s' = Some (n, s'')" "net_ok (E(a := 0)) s''" "shrunk s' s''"
      "total_refs s'' \<le> total_refs s'" by blast
    have "pbuf_free_loop cnt (Some a) s = Some (n, s'')" using loop_free [OF b(1) True] s'(1) s''(1) by simp
    moreover have "shrunk s s''" by (rule shrunk_trans [OF s'(2) s''(3)])
    moreover have "total_refs s'' < total_refs s" using s''(4) s'(3) by linarith
    ultimately show ?thesis unfolding E0 using s''(2) by blast
  qed
qed simp

lemma pbuf_free_ok:
  assumes "net_ok E s" "0 < E a"
  shows "\<exists>n s'. pbuf_free (Some a) s = Some (n, s') \<and> net_ok (E(a := E a - 1)) s' \<and> shrunk s s'"
  using free_loop_ok [OF lessI assms, of 0] by (auto simp: pbuf_free_def)

section \<open>Chains\<close>

text \<open>
  \<open>links P p xs\<close>: following \<open>next\<close> from \<open>p\<close> visits the pbufs \<open>xs\<close>. \<open>tot_ok t P xs\<close>: the total length of each pbuf of \<open>xs\<close> is
  the sum of the lengths from there on, plus \<open>t\<close>. A chain is a packet with correct total lengths.
\<close>

definition plen :: "(nat \<rightharpoonup> pbuf) \<Rightarrow> nat \<Rightarrow> nat" where
  "plen P a = (case P a of None \<Rightarrow> 0 | Some b \<Rightarrow> pb_len b)"

definition ptot :: "(nat \<rightharpoonup> pbuf) \<Rightarrow> nat \<Rightarrow> nat" where
  "ptot P a = (case P a of None \<Rightarrow> 0 | Some b \<Rightarrow> pb_tot_len b)"

fun links :: "(nat \<rightharpoonup> pbuf) \<Rightarrow> ptr \<Rightarrow> nat list \<Rightarrow> bool" where
  "links P p [] \<longleftrightarrow> p = None"
| "links P p (a # as) \<longleftrightarrow> p = Some a \<and> (case P a of None \<Rightarrow> False | Some b \<Rightarrow> links P (pb_next b) as)"

definition chain_len :: "(nat \<rightharpoonup> pbuf) \<Rightarrow> nat list \<Rightarrow> nat" where
  "chain_len P xs = sum_list (map (plen P) xs)"

fun tot_ok :: "nat \<Rightarrow> (nat \<rightharpoonup> pbuf) \<Rightarrow> nat list \<Rightarrow> bool" where
  "tot_ok t P [] \<longleftrightarrow> True"
| "tot_ok t P (a # as) \<longleftrightarrow> ptot P a = plen P a + chain_len P as + t \<and> tot_ok t P as"

definition chain :: "(nat \<rightharpoonup> pbuf) \<Rightarrow> ptr \<Rightarrow> nat list \<Rightarrow> bool" where
  "chain P p xs \<longleftrightarrow> links P p xs \<and> tot_ok 0 P xs"

lemma chain_len_simps [simp]:
  "chain_len P [] = 0" "chain_len P (a # as) = plen P a + chain_len P as"
  "chain_len P (xs @ ys) = chain_len P xs + chain_len P ys"
  by (simp_all add: chain_len_def)

lemma links_None [simp]: "links P None xs \<longleftrightarrow> xs = []"
  by (cases xs) auto

lemma links_Some:
  "links P (Some a) xs \<longleftrightarrow> (\<exists>b as. P a = Some b \<and> xs = a # as \<and> links P (pb_next b) as)"
  by (cases xs) (auto split: option.splits)

lemma links_live: "links P p xs \<Longrightarrow> set xs \<subseteq> dom P"
  by (induction xs arbitrary: p) (auto split: option.splits)

lemma links_unique: "\<lbrakk>links P p xs; links P p ys\<rbrakk> \<Longrightarrow> xs = ys"
proof (induction xs arbitrary: p ys)
  case (Cons a xs)
  then show ?case by (cases ys) (auto split: option.splits)
qed auto

lemma links_suffix: "links P p (xs @ a # ys) \<Longrightarrow> links P (Some a) (a # ys)"
proof (induction xs arbitrary: p)
  case (Cons x xs)
  from Cons.prems obtain b where "P x = Some b" "links P (pb_next b) (xs @ a # ys)" by (auto split: option.splits)
  from this(2) show ?case by (rule Cons.IH)
qed simp

lemma links_distinct: "links P p xs \<Longrightarrow> distinct xs"
proof (induction xs arbitrary: p)
  case (Cons a xs)
  then obtain b where b: "P a = Some b" "links P (pb_next b) xs" by (auto split: option.splits)
  have "a \<notin> set xs"
  proof
    assume "a \<in> set xs"
    then obtain us vs where "xs = us @ a # vs" by (auto simp: in_set_conv_decomp)
    with b(2) have "links P (Some a) (a # vs)" using links_suffix [of P "pb_next b" us a vs] by simp
    moreover have "links P (Some a) (a # xs)" using Cons.prems by simp
    ultimately have "a # vs = a # xs" by (rule links_unique)
    with \<open>xs = us @ a # vs\<close> show False using arg_cong [of "a # vs" "a # xs" length] by simp
  qed
  with Cons.IH [OF b(2)] show ?case by simp
qed simp

lemma links_cong:
  assumes "links P p xs" and "\<And>x. x \<in> set xs \<Longrightarrow> map_option pb_next (P' x) = map_option pb_next (P x)"
  shows "links P' p xs"
  using assms
proof (induction xs arbitrary: p)
  case (Cons a xs)
  then obtain b where b: "p = Some a" "P a = Some b" "links P (pb_next b) xs" by (auto split: option.splits)
  with Cons.prems(2) [of a] obtain b' where "P' a = Some b'" "pb_next b' = pb_next b" by auto
  with b Cons.IH [OF b(3)] Cons.prems(2) show ?case by simp
qed simp

lemma chain_len_cong: "(\<And>x. x \<in> set xs \<Longrightarrow> plen P' x = plen P x) \<Longrightarrow> chain_len P' xs = chain_len P xs"
  by (induction xs) simp_all

lemma tot_ok_cong:
  "tot_ok t P xs \<Longrightarrow> (\<And>x. x \<in> set xs \<Longrightarrow> plen P' x = plen P x \<and> ptot P' x = ptot P x) \<Longrightarrow> tot_ok t P' xs"
proof (induction xs)
  case (Cons a xs)
  then have "chain_len P' xs = chain_len P xs" by (intro chain_len_cong) simp
  with Cons show ?case by simp
qed simp

text \<open>The fields that make up a chain.\<close>

definition same_links :: "(nat \<rightharpoonup> pbuf) \<Rightarrow> (nat \<rightharpoonup> pbuf) \<Rightarrow> nat \<Rightarrow> bool" where
  "same_links P P' x \<longleftrightarrow> (case (P x, P' x) of
      (Some b, Some b') \<Rightarrow> pb_next b' = pb_next b \<and> pb_len b' = pb_len b \<and> pb_tot_len b' = pb_tot_len b
    | _ \<Rightarrow> False)"

lemma chain_cong:
  assumes "chain P p xs" and "\<And>x. x \<in> set xs \<Longrightarrow> same_links P P' x"
  shows "chain P' p xs" "chain_len P' xs = chain_len P xs"
proof -
  have *: "map_option pb_next (P' x) = map_option pb_next (P x)" "plen P' x = plen P x" "ptot P' x = ptot P x" if "x \<in> set xs" for x
    using assms(2) [OF that] by (auto simp: same_links_def plen_def ptot_def split: option.splits)
  with assms(1) show "chain P' p xs" unfolding chain_def by (blast intro: links_cong tot_ok_cong)
  show "chain_len P' xs = chain_len P xs" by (rule chain_len_cong) (rule *)
qed

lemma chain_None [simp]: "chain P None xs \<longleftrightarrow> xs = []"
  by (auto simp: chain_def)

lemma chain_Cons:
  "chain P p (a # as) \<longleftrightarrow> p = Some a \<and> (\<exists>b. P a = Some b \<and> chain P (pb_next b) as \<and> pb_tot_len b = pb_len b + chain_len P as)"
  by (auto simp: chain_def plen_def ptot_def split: option.splits)

lemma chain_Nil [simp]: "chain P p [] \<longleftrightarrow> p = None"
  by (simp add: chain_def)

lemma chain_tot_len: "chain P (Some a) xs \<Longrightarrow> ptot P a = chain_len P xs"
  by (cases xs) (auto simp: chain_Cons ptot_def plen_def)

lemma chain_distinct: "chain P p xs \<Longrightarrow> distinct xs"
  by (auto simp: chain_def dest: links_distinct)

lemma chain_live: "chain P p xs \<Longrightarrow> set xs \<subseteq> dom P"
  by (auto simp: chain_def dest: links_live)

lemma chain_next_not_in: "chain P p (a # as) \<Longrightarrow> a \<notin> set as"
  using chain_distinct by fastforce

text \<open>A chain can only be broken by freeing one of its pbufs.\<close>

lemma chain_shrunk:
  assumes "shrunk s s'" "chain (pbufs s) p xs" "set xs \<subseteq> dom (pbufs s')"
  shows "chain (pbufs s') p xs"
proof (rule chain_cong(1) [OF assms(2)])
  fix x assume "x \<in> set xs"
  with assms(3) obtain b' where b': "pbufs s' x = Some b'" by blast
  from shrunkD(2) [OF assms(1) this] obtain b where "pbufs s x = Some b" "b' = b\<lparr>pb_ref := pb_ref b'\<rparr>" by blast
  then have "pb_next b' = pb_next b" "pb_len b' = pb_len b" "pb_tot_len b' = pb_tot_len b"
    by (metis pbuf.simps pbuf.ext_inject pbuf.surjective pbuf.update_convs(7))+
  with b' \<open>pbufs s x = Some b\<close> show "same_links (pbufs s) (pbufs s') x" by (simp add: same_links_def)
qed

text \<open>All pbufs of a chain that someone still refers to remain.\<close>

lemma chain_referenced:
  assumes "refs_ok E s" "chain (pbufs s) (Some a) xs" "0 < E a"
  shows "\<forall>x \<in> set xs. \<exists>b. pbufs s x = Some b \<and> 0 < pb_ref b"
proof -
  have "chain (pbufs s) p xs \<Longrightarrow> (\<And>a. p = Some a \<Longrightarrow> \<exists>b. pbufs s a = Some b \<and> 0 < pb_ref b) \<Longrightarrow>
      \<forall>x \<in> set xs. \<exists>b. pbufs s x = Some b \<and> 0 < pb_ref b" for p
  proof (induction xs arbitrary: p)
    case (Cons a xs)
    then obtain b where b: "p = Some a" "pbufs s a = Some b" "chain (pbufs s) (pb_next b) xs" "0 < pb_ref b" by (fastforce simp: chain_Cons)
    have "\<exists>b'. pbufs s a' = Some b' \<and> 0 < pb_ref b'" if "pb_next b = Some a'" for a'
      using refs_ok_next_live [OF assms(1) b(2,4) that] .
    with Cons.IH [OF b(3)] b show ?case by simp
  qed simp
  from this [OF assms(2)] refs_ok_live [OF assms(1,3)] show ?thesis by simp
qed

subsection \<open>Freeing a chain\<close>

text \<open>
  The pbufs \<open>pbuf_free\<close> frees: from the head of the chain up to the first that has another reference, whose count is
  decreased. \<open>drop_run P xs\<close> is the store afterwards.
\<close>

definition run_of :: "(nat \<rightharpoonup> pbuf) \<Rightarrow> nat list \<Rightarrow> nat list" where
  "run_of P xs = takeWhile (\<lambda>x. case P x of Some b \<Rightarrow> pb_ref b = 1 | None \<Rightarrow> False) xs"

fun drop_run :: "(nat \<rightharpoonup> pbuf) \<Rightarrow> nat list \<Rightarrow> nat \<rightharpoonup> pbuf" where
  "drop_run P [] = P"
| "drop_run P (a # as) = (case P a of None \<Rightarrow> P
     | Some b \<Rightarrow> if pb_ref b = 1 then (drop_run P as)(a := None) else P(a \<mapsto> b\<lparr>pb_ref := pb_ref b - 1\<rparr>))"

definition plain :: "(nat \<rightharpoonup> pbuf) \<Rightarrow> nat list \<Rightarrow> bool" where
  "plain P xs \<longleftrightarrow> list_all (\<lambda>x. case P x of Some b \<Rightarrow> 0 < pb_ref b \<and> \<not> is_custom b | None \<Rightarrow> False) xs"

lemma plain_simps [simp]:
  "plain P []" "plain P (a # as) \<longleftrightarrow> (\<exists>b. P a = Some b \<and> 0 < pb_ref b \<and> \<not> is_custom b) \<and> plain P as"
  "plain P (xs @ ys) \<longleftrightarrow> plain P xs \<and> plain P ys"
  by (auto simp: plain_def split: option.splits)

lemma run_of_simps [simp]:
  "run_of P [] = []" "P a = Some b \<Longrightarrow> run_of P (a # as) = (if pb_ref b = 1 then a # run_of P as else [])"
  by (simp_all add: run_of_def)

lemma upd_other_links: "a \<notin> set xs \<Longrightarrow> links (P(a := v)) p xs \<longleftrightarrow> links P p xs"
  by (induction xs arbitrary: p) (auto split: option.splits)

lemma upd_other_plain: "a \<notin> set xs \<Longrightarrow> plain (P(a := v)) xs \<longleftrightarrow> plain P xs"
  by (induction xs) auto

lemma upd_other_run: "a \<notin> set xs \<Longrightarrow> run_of (P(a := v)) xs = run_of P xs"
  unfolding run_of_def by (rule takeWhile_cong) auto

lemma upd_other_drop: "a \<notin> set xs \<Longrightarrow> drop_run (P(a := v)) xs = (drop_run P xs)(a := v)"
  by (induction xs) (auto simp: fun_upd_twist split: option.splits)

lemma free_chain_exact:
  assumes "pbuf_inv s" "links (pbufs s) q xs" "plain (pbufs s) xs" "cnt < 256"
  shows "\<exists>s'. pbuf_free_loop cnt q s = Some ((cnt + length (run_of (pbufs s) xs)) mod 256, s') \<and> pbuf_inv s'
    \<and> pbufs s' = drop_run (pbufs s) xs \<and> customs s' = customs s \<and> same_rest s s'"
  using assms
proof (induction xs arbitrary: s q cnt)
  case (Cons a xs)
  then obtain b where b: "q = Some a" "pbufs s a = Some b" "links (pbufs s) (pb_next b) xs" "0 < pb_ref b" "\<not> is_custom b"
    by (auto split: option.splits)
  have a: "a \<notin> set xs" using links_distinct [OF Cons.prems(2)] by simp
  show ?case
  proof (cases "pb_ref b = 1")
    case False
    with b(4) loop_keep [OF b(2)] have "pbuf_free_loop cnt q s = Some (cnt, put_pbuf a (b\<lparr>pb_ref := pb_ref b - 1\<rparr>) s)"
      by (simp add: b(1))
    then show ?thesis using False b(2) pbuf_inv_put_ref [OF Cons.prems(1) b(2)] Cons.prems(4) by (auto simp: fun_eq_iff)
  next
    case True
    let ?s = "put_pbuf a (b\<lparr>pb_ref := 0\<rparr>) s"
    from dealloc_plain [OF pbuf_inv_put_ref [OF Cons.prems(1) b(2), of 0], of a "b\<lparr>pb_ref := 0\<rparr>" b "pbuf_free_loop 0"] b(5)
    obtain s1 where s1: "pbuf_dealloc (pbuf_free_loop 0) a b ?s = Some s1" "pbuf_inv s1" "pbufs s1 = (pbufs s)(a := None)"
      "customs s1 = (customs s)(a := None)" "same_rest ?s s1" by (auto simp: fun_upd_twist)
    have "customs s1 = customs s" using s1(4) plain_not_custom [OF Cons.prems(1) b(2,5)] by (simp add: fun_upd_idem)
    moreover have "\<exists>s'. pbuf_free_loop ((cnt + 1) mod 256) (pb_next b) s1
        = Some (((cnt + 1) mod 256 + length (run_of (pbufs s1) xs)) mod 256, s') \<and> pbuf_inv s'
      \<and> pbufs s' = drop_run (pbufs s1) xs \<and> customs s' = customs s1 \<and> same_rest s1 s'"
      using s1(2,3) b(3) Cons.prems(3) a by (intro Cons.IH) (simp_all add: upd_other_links upd_other_plain del: fun_upd_apply)
    moreover have "same_rest s s1" using s1(5) by (simp add: same_rest_def)
    ultimately show ?thesis
      using loop_free [OF b(2) True, of cnt] s1 True b(1,2) a same_rest_trans [of s s1]
      by (auto simp: upd_other_run upd_other_drop mod_simps simp del: fun_upd_apply)
  qed
qed (auto)

text \<open>Links between pbufs as references.\<close>

lemma refs_ok_link:
  assumes "refs_ok E s" "pbufs s r = Some b" "pb_next b = None" "0 < pb_ref b" "0 < E q"
    and b': "pb_ref b' = pb_ref b" "pb_next b' = Some q" "is_custom b' = is_custom b"
  shows "refs_ok (E(q := E q - 1)) (put_pbuf r b' s)"
proof (rule refs_ok_step [OF assms(1)])
  show "only_at r s (put_pbuf r b' s)" by (simp add: only_at_def)
  show "ref_of (put_pbuf r b' s) p + E p + holds s r p = ref_of s p + (E(q := E q - 1)) p + holds (put_pbuf r b' s) r p" for p
    using assms by (auto simp: ref_of_def holds_def)
qed

lemma refs_ok_unlink:
  assumes "refs_ok E s" "pbufs s r = Some b" "pb_next b = Some q" "0 < pb_ref b"
    and b': "pb_ref b' = pb_ref b" "pb_next b' = None" "is_custom b' = is_custom b"
  shows "refs_ok (E(q := E q + 1)) (put_pbuf r b' s)"
proof (rule refs_ok_step [OF assms(1)])
  show "only_at r s (put_pbuf r b' s)" by (simp add: only_at_def)
  show "ref_of (put_pbuf r b' s) p + E p + holds s r p = ref_of s p + (E(q := E q + 1)) p + holds (put_pbuf r b' s) r p" for p
    using assms by (auto simp: ref_of_def holds_def)
qed

lemma refs_ok_put:
  assumes "refs_ok E s" "pbufs s r = Some b" and b': "pb_ref b' = pb_ref b" "pb_next b' = pb_next b" "is_custom b' = is_custom b"
  shows "refs_ok E (put_pbuf r b' s)"
proof (rule refs_ok_step [OF assms(1)])
  show "only_at r s (put_pbuf r b' s)" by (simp add: only_at_def)
  show "ref_of (put_pbuf r b' s) p + E p + holds s r p = ref_of s p + E p + holds (put_pbuf r b' s) r p" for p
    using assms by (auto simp: ref_of_def holds_def)
qed

lemma refs_ok_cong: "\<lbrakk>refs_ok E s; pbufs s' = pbufs s; customs s' = customs s\<rbrakk> \<Longrightarrow> refs_ok E s'"
proof -
  assume a: "refs_ok E s" "pbufs s' = pbufs s" "customs s' = customs s"
  then have "holds s' = holds s" by (intro ext) (simp add: holds_def split: option.split)
  with a show "refs_ok E s'" by (simp add: refs_ok_def held_def ref_of_def)
qed

end
