(* ===== verification/Pbuf_Alloc.thy ===== *)
theory Pbuf_Alloc
  imports Pbuf
begin

text \<open>
  Allocation of packet buffers (\<open>pbuf_alloc\<close>, \<open>pbuf_alloced_custom\<close> of \<^verbatim>\<open>core/pbuf.c\<close>): success and failure of each kind of
  buffer, the shape of the chains it returns, and that a failed allocation leaves no trace in the store of pbufs.
\<close>

section \<open>Allocation\<close>

lemma net_memp_malloc_cases:
  assumes "memp_inv (net_pools s ! t) A (net_memp s)" "t < length (net_pools s)"
  obtains (got) q m where "card A < unat (desc_num (net_pools s ! t))"
      "net_memp_malloc t s = Some (Some q, s\<lparr>net_memp := m\<rparr>)" "q \<notin> A" "memp_inv (net_pools s ! t) (insert q A) m"
      "\<And>d B. pools_apart d (net_pools s ! t) \<Longrightarrow> memp_inv d B (net_memp s) \<Longrightarrow> memp_inv d B m"
  | (full) m where "card A = unat (desc_num (net_pools s ! t))" "net_memp_malloc t s = Some (None, s\<lparr>net_memp := m\<rparr>)"
      "memp_inv (net_pools s ! t) A m"
      "\<And>d B. pools_apart d (net_pools s ! t) \<Longrightarrow> memp_inv d B (net_memp s) \<Longrightarrow> memp_inv d B m"
  using assms(1)
proof (cases rule: memp.alloc_cases)
  case (got q m)
  then have "net_memp_malloc t s = Some (Some q, s\<lparr>net_memp := m\<rparr>)" using assms(2) by (simp add: net_memp_malloc_def memp_malloc_def)
  then show ?thesis using that(1) got malloc_pool_other by blast
next
  case (full m)
  then have "net_memp_malloc t s = Some (None, s\<lparr>net_memp := m\<rparr>)" using assms(2) by (simp add: net_memp_malloc_def memp_malloc_def)
  then show ?thesis using that(2) full malloc_pool_other by blast
qed

lemma pbuf_owner:
  assumes "pbuf_inv s" "pbufs s a = Some b"
  shows "a \<in> pool_pbufs s \<or> a \<in> ref_pbufs s \<or> a \<in> ram_pbufs s \<or> a \<in> dom (customs s)"
  using assms pbuf_inv_parts(6) [OF assms]
  by (cases "is_custom b"; cases "pb_type b") (auto simp: pool_pbufs_def ref_pbufs_def ram_pbufs_def)

text \<open>The state of a pool may change without any effect on the pbufs.\<close>

lemma pbuf_inv_memp:
  assumes "pbuf_inv s" "memp_inv (pool_desc s) (pool_pbufs s) m" "memp_inv (ref_desc s) (ref_pbufs s) m"
    "memp_inv (frag_desc s) (dom (customs s)) m"
  shows "pbuf_inv (s\<lparr>net_memp := m\<rparr>)"
  using assms unfolding pbuf_inv_def heap_ok_def pool_pbufs_def ref_pbufs_def ram_pbufs_def by simp

lemma pbuf_inv_pending [simp]: "pbuf_inv (s\<lparr>pbuf_free_ooseq_pending := x\<rparr>) = pbuf_inv s"
  by (simp add: pbuf_inv_def heap_ok_def pool_pbufs_def ref_pbufs_def ram_pbufs_def)

text \<open>A new pbuf in a fresh element of its pool.\<close>

lemma pbuf_inv_new:
  assumes inv: "pbuf_inv s" and new: "pbufs s q = None" "\<not> is_custom b"
    and sets: "memp_inv (pool_desc s) (if pb_type b = PBUF_POOL then insert q (pool_pbufs s) else pool_pbufs s) m"
      "memp_inv (ref_desc s) (if pb_type b = PBUF_ROM \<or> pb_type b = PBUF_REF then insert q (ref_pbufs s) else ref_pbufs s) m"
      "memp_inv (frag_desc s) (dom (customs s)) m"
    and room: "pb_type b = PBUF_POOL \<Longrightarrow> in_room (q + 144) q b"
    and heap: "ram h = ram (net_heap s)" "mem_areas (ram h) M h" "pb_type b = PBUF_RAM \<Longrightarrow> \<exists>k. (q, k) \<in># M \<and> in_room (q + k) q b"
      "\<And>x. x \<in> ram_pbufs s \<Longrightarrow> \<exists>k. (x, k) \<in># M \<and> (\<forall>b. pbufs s x = Some b \<longrightarrow> in_room (x + k) x b)"
  shows "pbuf_inv (put_pbuf q b (s\<lparr>net_memp := m, net_heap := h\<rparr>))" (is "pbuf_inv ?s")
proof -
  have s: "pool_pbufs ?s = (if pb_type b = PBUF_POOL then insert q (pool_pbufs s) else pool_pbufs s)"
    "ref_pbufs ?s = (if pb_type b = PBUF_ROM \<or> pb_type b = PBUF_REF then insert q (ref_pbufs s) else ref_pbufs s)"
    "ram_pbufs ?s = (if pb_type b = PBUF_RAM then insert q (ram_pbufs s) else ram_pbufs s)"
    using new by (auto simp: pool_pbufs_def ref_pbufs_def ram_pbufs_def)
  have "q \<notin> ram_pbufs s" "q \<notin> pool_pbufs s" using new(1) by (simp_all add: ram_pbufs_def pool_pbufs_def)
  then have "heap_ok ?s"
    unfolding heap_ok_def s using heap new(1)
    by (intro exI [of _ M]) (auto simp: heap(1) [symmetric] simp del: heap(1))
  moreover have "in_room (x + 144) x b'" if "pbufs ?s x = Some b'" "x \<in> pool_pbufs ?s" for x b'
    using that room pbuf_inv_parts(7) [OF inv] \<open>q \<notin> pool_pbufs s\<close> s(1) by (auto split: if_splits)
  moreover have "\<exists>c. customs ?s x = Some c \<and> custom_free_function c \<noteq> None" if "pbufs ?s x = Some b'" "is_custom b'" for x b'
    using that new(2) pbuf_inv_parts(6) [OF inv] by (auto split: if_splits)
  ultimately show ?thesis
    using pbuf_inv_parts [OF inv] sets heap(1) unfolding pbuf_inv_def s by simp
qed

lemma refs_ok_unused: "refs_ok E s \<Longrightarrow> pbufs s q = None \<Longrightarrow> E q = 0"
  unfolding refs_ok_def by (metis add_is_0 ref_of_outside)

lemma refs_ok_new:
  assumes "refs_ok E s" "pbufs s q = None" "customs s q = None \<or> \<not> is_custom b" "pb_next b = None" "pb_ref b = 1"
  shows "refs_ok (E(q := 1)) (put_pbuf q b s)"
proof (rule refs_ok_step [OF assms(1)])
  show "only_at q s (put_pbuf q b s)" by (simp add: only_at_def)
  show "ref_of (put_pbuf q b s) p + E p + holds s q p = ref_of s p + (E(q := 1)) p + holds (put_pbuf q b s) q p" for p
    using assms refs_ok_unused [OF assms(1,2)] by (auto simp: ref_of_def holds_def)
qed

lemma refs_ok_memp [simp]:
  "refs_ok E (s\<lparr>net_memp := m\<rparr>) = refs_ok E s" "refs_ok E (s\<lparr>net_heap := h\<rparr>) = refs_ok E s"
  "refs_ok E (s\<lparr>pbuf_free_ooseq_pending := x\<rparr>) = refs_ok E s"
  by (auto elim!: refs_ok_cong)

lemma pool_malloc_cases:
  assumes "net_ok E s"
  obtains (got) q m where "card (pool_pbufs s) < unat (desc_num (pool_desc s))"
      "net_memp_malloc MEMP_PBUF_POOL s = Some (Some q, s\<lparr>net_memp := m\<rparr>)" "pbufs s q = None" "q mod 4 = 0"
      "stale_flags s q AND 2 = 0" "q \<in> set (pool_elems (pool_desc s))"
      "\<And>b. \<lbrakk>\<not> is_custom b; pb_type b = PBUF_POOL; in_room (q + 144) q b; pb_next b = None; pb_ref b = 1\<rbrakk>
         \<Longrightarrow> net_ok (E(q := 1)) (put_pbuf q b (s\<lparr>net_memp := m\<rparr>))"
      "E q = 0"
  | (full) m where "card (pool_pbufs s) = unat (desc_num (pool_desc s))"
      "net_memp_malloc MEMP_PBUF_POOL s = Some (None, s\<lparr>net_memp := m\<rparr>)" "net_ok E (s\<lparr>net_memp := m\<rparr>)"
proof -
  have inv: "pbuf_inv s" and refs: "refs_ok E s" using assms by (simp_all add: net_ok_def)
  note parts = pbuf_inv_parts [OF inv]
  have len: "10 < length (net_pools s)" using layout_ok_length [OF parts(1)] by simp
  from parts(2) len show ?thesis
  proof (cases rule: net_memp_malloc_cases)
    case (got q m)
    have elem: "q \<in> set (pool_elems (pool_desc s))" using memp_inv_elems [OF got(4)] by simp
    then have "q \<notin> ref_pbufs s" "q \<notin> dom (customs s)" "q \<notin> ram_pbufs s"
      using pbuf_inv_elems [OF inv] pbuf_inv_apart [OF inv] pool_elems_off_heap [OF inv] unfolding pools_apart_def by blast+
    with got(3) have new: "pbufs s q = None" using pbuf_owner [OF inv] by (cases "pbufs s q") blast+
    have al: "q mod 4 = 0" using got(4) elem by (auto elim!: memp_invE intro: pool_elems_aligned)
    have ok: "net_ok (E(q := 1)) (put_pbuf q b (s\<lparr>net_memp := m\<rparr>))"
      if b: "\<not> is_custom b" "pb_type b = PBUF_POOL" "in_room (q + 144) q b" "pb_next b = None" "pb_ref b = 1" for b
    proof -
      from parts(5) obtain M where M: "mem_areas (ram (net_heap s)) M (net_heap s)"
        "\<forall>x \<in> ram_pbufs s. \<exists>k. (x, k) \<in># M \<and> (\<forall>b. pbufs s x = Some b \<longrightarrow> in_room (x + k) x b)"
        unfolding heap_ok_def by blast
      have "pbuf_inv (put_pbuf q b (s\<lparr>net_memp := m, net_heap := net_heap s\<rparr>))"
        using b got(4) got(5) [OF _ parts(3)] got(5) [OF _ parts(4)] pbuf_inv_apart [OF inv] M
        by (intro pbuf_inv_new [OF inv new b(1)]) auto
      moreover have "refs_ok (E(q := 1)) (put_pbuf q b (s\<lparr>net_memp := m\<rparr>))"
        using refs_ok_new [of E "s\<lparr>net_memp := m\<rparr>" q b] refs new b by simp
      ultimately show ?thesis by (simp add: net_ok_def)
    qed
    show ?thesis by (rule that(1) [OF got(1,2) new al parts(8) [OF elem] elem ok refs_ok_unused [OF refs new]])
  next
    case (full m)
    have "pbuf_inv (s\<lparr>net_memp := m\<rparr>)"
      using full(3) full(4) [OF _ parts(3)] full(4) [OF _ parts(4)] pbuf_inv_apart [OF inv] by (intro pbuf_inv_memp [OF inv]) auto
    with that(2) full(1,2) refs show ?thesis by (simp add: net_ok_def)
  qed
qed

declare pool_tail.simps [simp del]

lemma tot_ok_append: "tot_ok t P (xs @ ys) \<longleftrightarrow> tot_ok (t + chain_len P ys) P xs \<and> tot_ok t P ys"
  by (induction xs) auto

lemma links_last: "\<lbrakk>links P p xs; xs \<noteq> []\<rbrakk> \<Longrightarrow> \<exists>b. P (last xs) = Some b \<and> pb_next b = None"
proof (induction xs arbitrary: p)
  case (Cons a xs)
  then show ?case by (cases xs) (auto split: option.splits)
qed simp

text \<open>Linking a second chain behind the last pbuf of the first.\<close>

lemma links_append:
  "\<lbrakk>links P p xs; xs \<noteq> []; links P q ys; last xs \<notin> set ys; P (last xs) = Some b; pb_next b' = q\<rbrakk>
   \<Longrightarrow> links (P(last xs \<mapsto> b')) p (xs @ ys)"
proof (induction xs arbitrary: p)
  case (Cons a xs)
  then obtain c where c: "p = Some a" "P a = Some c" "links P (pb_next c) xs" by (auto split: option.splits)
  show ?case
  proof (cases xs)
    case Nil
    with Cons.prems c show ?thesis by (simp add: upd_other_links fun_upd_same del: fun_upd_apply)
  next
    case (Cons x xs')
    then have "a \<noteq> last xs" using links_distinct [OF Cons.prems(1)] by auto
    with Cons c Cons.prems Cons.IH [OF c(3)] show ?thesis by simp
  qed
qed simp

definition owned :: "(nat \<rightharpoonup> pbuf) \<Rightarrow> nat list \<Rightarrow> bool" where
  "owned P xs \<longleftrightarrow> list_all (\<lambda>x. case P x of None \<Rightarrow> False
     | Some b \<Rightarrow> pb_ref b = 1 \<and> \<not> is_custom b \<and> pb_type b = PBUF_POOL) xs"

lemma owned_simps [simp]:
  "owned P []" "owned P (a # as) \<longleftrightarrow> (\<exists>b. P a = Some b \<and> pb_ref b = 1 \<and> \<not> is_custom b \<and> pb_type b = PBUF_POOL) \<and> owned P as"
  "owned P (xs @ ys) \<longleftrightarrow> owned P xs \<and> owned P ys"
  by (auto simp: owned_def split: option.splits)

lemma owned_plain: "owned P xs \<Longrightarrow> plain P xs"
  by (induction xs) auto

lemma owned_drop_run: "owned P xs \<Longrightarrow> drop_run P xs = (\<lambda>x. if x \<in> set xs then None else P x)"
  by (induction xs) (auto simp: fun_eq_iff)

lemma owned_cong:
  "owned P xs \<Longrightarrow> (\<And>x. x \<in> set xs \<Longrightarrow> map_option (\<lambda>b. (pb_ref b, pb_flags b, pb_type b)) (P' x) = map_option (\<lambda>b. (pb_ref b, pb_flags b, pb_type b)) (P x))
   \<Longrightarrow> owned P' xs"
  unfolding owned_def list_all_iff by (fastforce simp: is_custom_def split: option.splits)

lemma chain_len_upd_other: "a \<notin> set xs \<Longrightarrow> chain_len (P(a := v)) xs = chain_len P xs"
  by (rule chain_len_cong) (auto simp: plen_def)

lemma pbuf_inv_upd_next:
  "\<lbrakk>pbuf_inv s; pbufs s a = Some b\<rbrakk> \<Longrightarrow> pbuf_inv (put_pbuf a (b\<lparr>pb_next := n, pb_tot_len := t\<rparr>) s)"
  by (rule pbuf_inv_put) (auto simp: in_room_def split: option.splits)

lemma pbuf_inv_upd_next': "\<lbrakk>pbuf_inv s; pbufs s a = Some b\<rbrakk> \<Longrightarrow> pbuf_inv (put_pbuf a (b\<lparr>pb_next := n\<rparr>) s)"
  by (rule pbuf_inv_put) (auto simp: in_room_def split: option.splits)

text \<open>A chain under construction: \<open>rem\<close> bytes are still missing from the chain \<open>xs\<close> that starts at \<open>p\<close>.\<close>

definition growing :: "(nat \<Rightarrow> nat) \<Rightarrow> (nat \<rightharpoonup> pbuf) \<Rightarrow> nat \<Rightarrow> nat \<Rightarrow> nat list \<Rightarrow> net \<Rightarrow> bool" where
  "growing E P0 p rem xs s \<longleftrightarrow> net_ok (E(p := 1)) s \<and> links (pbufs s) (Some p) xs \<and> tot_ok rem (pbufs s) xs
     \<and> owned (pbufs s) xs \<and> set xs \<inter> dom P0 = {} \<and> (\<forall>x. x \<notin> set xs \<longrightarrow> pbufs s x = P0 x)"

lemma growing_step:
  assumes g: "growing E P0 p rem xs s" "rem > 0" "rem < 65535" and q: "net_ok ((E(p := 1))(q := 1)) s1" "(E(p := 1)) q = 0"
      "pbufs s q = None" "pbufs s1 = (pbufs s)(q \<mapsto> \<lparr>pb_next = None, pb_payload = Some (q + 16), pb_tot_len = rem,
         pb_len = min rem 128, pb_type = PBUF_POOL, pb_flags = 0, pb_ref = 1\<rparr>)"
    and r: "pbufs s (last xs) = Some b"
  shows "growing E P0 p (rem - min rem 128) (xs @ [q]) (put_pbuf (last xs) (b\<lparr>pb_next := Some q\<rparr>) s1)"
    and "chain_len (pbufs (put_pbuf (last xs) (b\<lparr>pb_next := Some q\<rparr>) s1)) (xs @ [q]) = chain_len (pbufs s) xs + min rem 128"
proof -
  let ?r = "last xs" and ?l = "min rem 128"
  let ?s = "put_pbuf ?r (b\<lparr>pb_next := Some q\<rparr>) s1"
  have g': "net_ok (E(p := 1)) s" "links (pbufs s) (Some p) xs" "tot_ok rem (pbufs s) xs" "owned (pbufs s) xs"
    "set xs \<inter> dom P0 = {}" "\<And>x. x \<notin> set xs \<Longrightarrow> pbufs s x = P0 x" using g(1) by (auto simp: growing_def)
  have xs: "xs \<noteq> []" using g'(2) by auto
  have qxs: "q \<notin> set xs" using links_live [OF g'(2)] q(3) by auto
  have r': "?r \<in> set xs" "?r \<noteq> q" "pbufs s1 ?r = Some b" using xs qxs r q(4) by auto
  have b: "pb_next b = None" "pb_ref b = 1" "\<not> is_custom b" using links_last [OF g'(2) xs] r g'(4) r'(1)
    by (auto simp: owned_def list_all_iff)
  have P: "pbufs ?s = (pbufs s1)(?r \<mapsto> b\<lparr>pb_next := Some q\<rparr>)" by simp
  have "net_ok (((E(p := 1))(q := 1))(q := ((E(p := 1))(q := 1)) q - 1)) ?s"
    using q(1) r'(3) b pbuf_inv_upd_next' [of s1 ?r b] refs_ok_link [of "(E(p := 1))(q := 1)" s1 ?r b q] by (simp add: net_ok_def)
  moreover have "((E(p := 1))(q := 1))(q := ((E(p := 1))(q := 1)) q - 1) = E(p := 1)" using q(2) by (auto simp: fun_eq_iff)
  ultimately have ok: "net_ok (E(p := 1)) ?s" by (simp only:)
  have same: "plen (pbufs ?s) x = plen (pbufs s) x" "ptot (pbufs ?s) x = ptot (pbufs s) x" if "x \<in> set xs" for x
    using that qxs r q(4) by (auto simp: plen_def ptot_def)
  have len: "chain_len (pbufs ?s) xs = chain_len (pbufs s) xs" "plen (pbufs ?s) q = ?l" "ptot (pbufs ?s) q = rem"
    using same(1) chain_len_cong [of xs "pbufs ?s"] q(4) r'(2) by (auto simp: plen_def ptot_def)
  have "links (pbufs s1) (Some p) xs" "links (pbufs s1) (Some q) [q]" using g'(2) q(4) qxs by (simp_all add: upd_other_links del: fun_upd_apply) simp
  then have "links (pbufs ?s) (Some p) (xs @ [q])" unfolding P using r' xs by (intro links_append [where q = "Some q" and b = b]) auto
  moreover have "tot_ok rem (pbufs ?s) xs" using g'(3) same by (auto intro: tot_ok_cong)
  then have "tot_ok (rem - ?l) (pbufs ?s) (xs @ [q])" using len by (simp add: tot_ok_append)
  moreover have "owned (pbufs ?s) xs" by (rule owned_cong [OF g'(4)]) (use q(4) qxs r in auto)
  moreover have "P0 q = None" using g'(6) [OF qxs] q(3) by simp
  ultimately show "growing E P0 p (rem - ?l) (xs @ [q]) ?s"
    using ok g'(5,6) q(4) r' by (auto simp: growing_def is_custom_def)
  show "chain_len (pbufs ?s) (xs @ [q]) = chain_len (pbufs s) xs + ?l" using len by simp
qed

lemma pool_tail_step:
  assumes "rem > 0" "rem < 65535" "net_memp_malloc MEMP_PBUF_POOL s = Some (Some q, s\<lparr>net_memp := m\<rparr>)" "q mod 4 = 0"
    and s1: "s1 = put_pbuf q \<lparr>pb_next = None, pb_payload = Some (q + 16), pb_tot_len = rem, pb_len = min rem 128,
         pb_type = PBUF_POOL, pb_flags = 0, pb_ref = 1\<rparr> (s\<lparr>net_memp := m\<rparr>)"
    and r: "pbufs s1 r = Some b" and p: "pbufs (put_pbuf r (b\<lparr>pb_next := Some q\<rparr>) s1) p = Some c" "in_room (p + 144) p c"
  shows "pool_tail p r rem s = pool_tail p q (rem - min rem 128) (put_pbuf r (b\<lparr>pb_next := Some q\<rparr>) s1)"
proof -
  have "(q + 16) mod 4 = 0" using assms(4) by presburger
  moreover obtain pl where "pb_payload c = Some pl" "pl + pb_len c \<le> p + 144" using p(2) by (auto simp: in_room_def split: option.splits)
  moreover have "upd_pbuf r (\<lambda>b. b\<lparr>pb_next := Some q\<rparr>) s1 = Some (put_pbuf r (b\<lparr>pb_next := Some q\<rparr>) s1)"
    using r by (simp add: upd_pbuf_def)
  moreover have "to_u16 rem = rem" using assms(2) by (simp add: to_u16_def)
  ultimately show ?thesis
    using assms(1-4) p(1) unfolding s1 by (subst pool_tail.simps) (simp add: Let_def del: net_simps(1) One_nat_def)
qed

lemma min_128: "rem > 0 \<Longrightarrow> (rem - min rem 128 + 127) div 128 = (rem + 127) div 128 - 1" "rem > 0 \<Longrightarrow> 0 < (rem + 127) div (128 :: nat)"
  by (cases "rem \<le> 128") (auto simp: min_def)

lemma pool_pbufs_insert:
  "\<lbrakk>pbufs s q = None; \<not> is_custom b; pb_type b = PBUF_POOL; pbufs s r = Some c; r \<noteq> q;
    pbufs s' = ((pbufs s)(q \<mapsto> b))(r \<mapsto> c\<lparr>pb_next := n\<rparr>)\<rbrakk> \<Longrightarrow> pool_pbufs s' = insert q (pool_pbufs s)"
  by (auto simp: pool_pbufs_def split: if_splits)

lemma finite_pool_pbufs: "net_ok E s \<Longrightarrow> finite (pool_pbufs s)"
  by (rule finite_subset [of _ "dom (pbufs s)"]) (auto simp: net_ok_def refs_ok_def pool_pbufs_def)

lemma same_rest_upd [simp]: "same_rest s (s\<lparr>net_memp := m\<rparr>)"
  by (simp add: same_rest_def)

lemma growingD:
  assumes "growing E P0 p rem xs s"
  shows "net_ok (E(p := 1)) s" "links (pbufs s) (Some p) xs" "tot_ok rem (pbufs s) xs" "owned (pbufs s) xs"
    "set xs \<inter> dom P0 = {}" "\<And>x. x \<notin> set xs \<Longrightarrow> pbufs s x = P0 x" "xs \<noteq> []" "hd xs = p"
  using assms by (auto simp: growing_def) (cases xs; auto)

text \<open>Out of elements: the chain built so far is freed, and the store is what it was before.\<close>

lemma pool_tail_fails:
  assumes g: "growing E P0 p rem xs s" "0 < rem" "E p = 0" and full: "net_memp_malloc MEMP_PBUF_POOL s = Some (None, s\<lparr>net_memp := m\<rparr>)"
    "net_ok (E(p := 1)) (s\<lparr>net_memp := m\<rparr>)"
  shows "\<exists>s'. pool_tail p (last xs) rem s = Some (False, s') \<and> net_ok E s' \<and> pbufs s' = P0 \<and> customs s' = customs s
      \<and> pbuf_free_ooseq_pending s' \<and> bytes s' = bytes s \<and> net_pools s' = net_pools s"
proof -
  note gD = growingD [OF g(1)]
  let ?s = "pbuf_pool_is_empty (s\<lparr>net_memp := m\<rparr>)"
  have ok: "net_ok (E(p := 1)) ?s" using full(2) by (simp add: net_ok_def pbuf_pool_is_empty_def)
  obtain n s' where s': "pbuf_free (Some p) ?s = Some (n, s')" "net_ok ((E(p := 1))(p := 0)) s'"
    using pbuf_free_ok [OF ok, of p] by auto
  have "(E(p := 1))(p := 0) = E" using g(3) by (auto simp: fun_eq_iff)
  moreover have "links (pbufs ?s) (Some p) xs" "plain (pbufs ?s) xs"
    using gD(2) owned_plain [OF gD(4)] by (simp_all add: pbuf_pool_is_empty_def)
  from free_chain_exact [OF _ this, of 0] ok s'(1) have "pbufs s' = drop_run (pbufs s) xs" "customs s' = customs s" "same_rest ?s s'"
    by (auto simp: pbuf_free_def net_ok_def) (auto simp: pbuf_pool_is_empty_def)
  moreover have "P0 x = None" if "x \<in> set xs" for x using gD(5) that by (cases "P0 x") auto
  then have "drop_run (pbufs s) xs x = P0 x" for x unfolding owned_drop_run [OF gD(4)] using gD(6) [of x] by simp
  then have "drop_run (pbufs s) xs = P0" by (rule ext)
  ultimately show ?thesis
    using full(1) g(2) s' by (auto simp: pool_tail.simps [of _ _ rem] same_rest_def pbuf_pool_is_empty_def)
qed

lemma pool_tail_continues:
  assumes g: "growing E P0 p rem xs s" "0 < rem" "rem < 65535"
    and got: "net_memp_malloc MEMP_PBUF_POOL s = Some (Some q, s\<lparr>net_memp := m\<rparr>)" "pbufs s q = None" "q mod 4 = 0" "(E(p := 1)) q = 0"
    and new: "\<And>b. \<lbrakk>\<not> is_custom b; pb_type b = PBUF_POOL; in_room (q + 144) q b; pb_next b = None; pb_ref b = 1\<rbrakk>
         \<Longrightarrow> net_ok ((E(p := 1))(q := 1)) (put_pbuf q b (s\<lparr>net_memp := m\<rparr>))"
  obtains s2 where "pool_tail p (last xs) rem s = pool_tail p q (rem - min rem 128) s2"
    "growing E P0 p (rem - min rem 128) (xs @ [q]) s2" "card (pool_pbufs s2) = Suc (card (pool_pbufs s))"
    "chain_len (pbufs s2) (xs @ [q]) = chain_len (pbufs s) xs + min rem 128" "same_rest s s2" "customs s2 = customs s"
    "\<And>b. pbufs s p = Some b \<Longrightarrow> \<exists>n. pbufs s2 p = Some (b\<lparr>pb_next := n\<rparr>)"
proof -
  note gD = growingD [OF g(1)]
  let ?f = "\<lparr>pb_next = None, pb_payload = Some (q + 16), pb_tot_len = rem, pb_len = min rem 128, pb_type = PBUF_POOL, pb_flags = 0, pb_ref = 1\<rparr>"
  let ?s1 = "put_pbuf q ?f (s\<lparr>net_memp := m\<rparr>)"
  obtain b where b: "pbufs s (last xs) = Some b" using links_last [OF gD(2,7)] by blast
  let ?s2 = "put_pbuf (last xs) (b\<lparr>pb_next := Some q\<rparr>) ?s1"
  have ne: "last xs \<noteq> q" "p \<noteq> q" using b got(2) gD(7,8) links_live [OF gD(2)] by (auto, metis domIff hd_in_set subsetD)
  have "in_room (q + 144) q ?f" by (simp add: in_room_def)
  then have ok1: "net_ok ((E(p := 1))(q := 1)) ?s1" by (intro new) (simp_all add: is_custom_def)
  have P1: "pbufs ?s1 = (pbufs s)(q \<mapsto> ?f)" by simp
  note grow = growing_step [OF g ok1 got(4,2) P1 b]
  have pool: "pool_pbufs ?s2 = insert q (pool_pbufs s)"
    using got(2) b ne by (intro pool_pbufs_insert [of s q ?f "last xs" b _ "Some q"]) (simp_all add: is_custom_def)
  have card: "card (pool_pbufs ?s2) = Suc (card (pool_pbufs s))"
    unfolding pool using finite_pool_pbufs [OF gD(1)] got(2) by (simp add: pool_pbufs_def)
  have "p \<in> set xs" using gD(7,8) by auto
  then obtain d where d: "pbufs s p = Some d" "pb_type d = PBUF_POOL" "\<not> is_custom d"
    using gD(4) by (auto simp: owned_def list_all_iff split: option.splits)
  have "pbufs ?s2 p = Some (d\<lparr>pb_next := if p = last xs then Some q else pb_next d\<rparr>)" using d(1) ne(2) b by auto
  then obtain n where c: "pbufs ?s2 p = Some (d\<lparr>pb_next := n\<rparr>)" by blast
  have "p \<in> pool_pbufs ?s2" unfolding pool using d by (auto simp: pool_pbufs_def)
  then have "in_room (p + 144) p (d\<lparr>pb_next := n\<rparr>)"
    using pbuf_inv_parts(7) [OF _ c] grow(1) by (simp add: growing_def net_ok_def)
  from pool_tail_step [OF g(2,3) got(1,3) refl _ c this] b ne
  have "pool_tail p (last xs) rem s = pool_tail p q (rem - min rem 128) ?s2" by simp
  moreover have "same_rest s ?s2" "customs ?s2 = customs s" by (simp_all add: same_rest_def)
  moreover have "\<exists>n. pbufs ?s2 p = Some (b\<lparr>pb_next := n\<rparr>)" if "pbufs s p = Some b" for b using that c d(1) by auto
  ultimately show ?thesis by (intro that [OF _ grow(1) card grow(2)])
qed

text \<open>The loop completes the chain when the pool has enough elements left, and otherwise frees it.\<close>

lemma pool_tail_ok:
  assumes "growing E P0 p rem xs s" "rem < 65535" "E p = 0"
  shows "if card (pool_pbufs s) + (rem + 127) div 128 \<le> unat (desc_num (pool_desc s))
    then \<exists>ys s'. pool_tail p (last xs) rem s = Some (True, s') \<and> growing E P0 p 0 (xs @ ys) s' \<and> length ys = (rem + 127) div 128
      \<and> chain_len (pbufs s') (xs @ ys) = chain_len (pbufs s) xs + rem \<and> customs s' = customs s \<and> same_rest s s'
      \<and> (\<forall>b. pbufs s p = Some b \<longrightarrow> (\<exists>n. pbufs s' p = Some (b\<lparr>pb_next := n\<rparr>)))
    else \<exists>s'. pool_tail p (last xs) rem s = Some (False, s') \<and> net_ok E s' \<and> pbufs s' = P0 \<and> customs s' = customs s
      \<and> pbuf_free_ooseq_pending s' \<and> bytes s' = bytes s \<and> net_pools s' = net_pools s"
  using assms(1,2)
proof (induction rem arbitrary: xs s rule: less_induct)
  case (less rem)
  have ok: "net_ok (E(p := 1)) s" using less.prems(1) by (simp add: growing_def)
  show ?case
  proof (cases "rem = 0")
    case True
    have "card (pool_pbufs s) \<le> unat (desc_num (pool_desc s))"
      using ok memp.inv_card pbuf_inv_parts(2) by (auto simp: net_ok_def)
    moreover have "\<exists>n. b = b\<lparr>pb_next := n\<rparr>" for b :: pbuf by (rule exI [of _ "pb_next b"]) simp
    ultimately show ?thesis
      using True less.prems(1) by (auto simp: pool_tail.simps intro!: exI [of _ "[]"])
  next
    case False
    then have pos: "rem > 0" by simp
    from ok show ?thesis
    proof (cases rule: pool_malloc_cases)
      case (full m)
      from pool_tail_fails [OF less.prems(1) pos assms(3) full(2,3)] full(1) min_128(2) [OF pos] show ?thesis by simp
    next
      case (got q m)
      obtain s2 where s2: "pool_tail p (last xs) rem s = pool_tail p q (rem - min rem 128) s2"
        "growing E P0 p (rem - min rem 128) (xs @ [q]) s2" "card (pool_pbufs s2) = Suc (card (pool_pbufs s))"
        "chain_len (pbufs s2) (xs @ [q]) = chain_len (pbufs s) xs + min rem 128" "same_rest s s2" "customs s2 = customs s"
        "\<And>b. pbufs s p = Some b \<Longrightarrow> \<exists>n. pbufs s2 p = Some (b\<lparr>pb_next := n\<rparr>)"
        using pool_tail_continues [OF less.prems(1) pos less.prems(2) got(2-4,8,7)] by blast
      have small: "rem - min rem 128 < rem" "rem - min rem 128 < 65535" using pos less.prems(2) by auto
      have pools: "net_pools s2 = net_pools s" "bytes s2 = bytes s" using s2(5) by (simp_all add: same_rest_def)
      note IH = less.IH [OF small(1) s2(2) small(2), simplified last_snoc pools(1) s2(3) min_128(1) [OF pos]]
      show ?thesis
      proof (cases "card (pool_pbufs s) + (rem + 127) div 128 \<le> unat (desc_num (pool_desc s))")
        case True
        with IH min_128(2) [OF pos] obtain ys s' where
          s': "pool_tail p q (rem - min rem 128) s2 = Some (True, s')" "growing E P0 p 0 ((xs @ [q]) @ ys) s'"
          "length ys = (rem + 127) div 128 - 1" "chain_len (pbufs s') ((xs @ [q]) @ ys) = chain_len (pbufs s2) (xs @ [q]) + (rem - min rem 128)"
          "customs s' = customs s2" "same_rest s2 s'" "\<forall>b. pbufs s2 p = Some b \<longrightarrow> (\<exists>n. pbufs s' p = Some (b\<lparr>pb_next := n\<rparr>))"
          by auto
        have "\<exists>n. pbufs s' p = Some (b\<lparr>pb_next := n\<rparr>)" if "pbufs s p = Some b" for b
          using s2(7) [OF that] s'(7) by auto
        moreover have "same_rest s s'" using s2(5) s'(6) by (rule same_rest_trans)
        moreover have "length (q # ys) = (rem + 127) div 128" using s'(3) min_128(2) [OF pos] by simp
        ultimately show ?thesis
          using True s2(1,4,6) s'(1,2,4,5) by (auto intro!: exI [of _ "q # ys"])
      next
        case False
        then show ?thesis using IH s2(1,6) pools min_128(2) [OF pos] by auto
      qed
    qed
  qed
qed

lemma upd_pbuf_Some: "pbufs s a = Some b \<Longrightarrow> upd_pbuf a f s = Some (put_pbuf a (f b) s)"
  by (simp add: upd_pbuf_def)

lemma put_put [simp]: "put_pbuf a c (put_pbuf a b s) = put_pbuf a c s"
  by (simp add: put_pbuf_def)

lemma layer_offset_bounds: "layer_offset l mod 4 = 0" "layer_offset l \<le> 72"
  by (cases l; simp)+

lemma ALIGN_SIZE_id: "n mod 4 = 0 \<Longrightarrow> LWIP_MEM_ALIGN_SIZE n = n" "n mod 4 = 0 \<Longrightarrow> LWIP_MEM_ALIGN n = n"
  unfolding LWIP_MEM_ALIGN_SIZE_def LWIP_MEM_ALIGN_def by presburger+

lemma net_ok_put:
  assumes "net_ok E s" "pbufs s a = Some b" and b': "pb_type b' = pb_type b" "is_custom b' = is_custom b" "pb_ref b' = pb_ref b"
      "pb_next b' = pb_next b" and room: "\<And>lim. \<lbrakk>pb_type b = PBUF_RAM \<or> pb_type b = PBUF_POOL; in_room lim a b\<rbrakk> \<Longrightarrow> in_room lim a b'"
  shows "net_ok E (put_pbuf a b' s)"
  using assms pbuf_inv_put [OF _ assms(2) b'(1,2) room] refs_ok_put [OF _ assms(2) b'(3,4,2)] by (simp add: net_ok_def)

text \<open>The number of elements a request of \<open>n\<close> bytes takes from the pool.\<close>

definition pool_need :: "pbuf_layer \<Rightarrow> nat \<Rightarrow> nat" where
  "pool_need l n = 1 + (n - min n (128 - layer_offset l) + 127) div 128"

text \<open>What \<open>pbuf_alloc\<close> returns: a chain of new pbufs of \<open>n\<close> bytes, owned by the caller through one reference.\<close>

definition new_chain :: "(nat \<Rightarrow> nat) \<Rightarrow> pbuf_layer \<Rightarrow> nat \<Rightarrow> pbuf_type \<Rightarrow> net \<Rightarrow> nat \<Rightarrow> nat list \<Rightarrow> net \<Rightarrow> bool" where
  "new_chain E l n ty s p xs s' \<longleftrightarrow> net_ok (E(p := 1)) s' \<and> E p = 0 \<and> chain (pbufs s') (Some p) xs \<and> chain_len (pbufs s') xs = n
     \<and> set xs \<inter> dom (pbufs s) = {} \<and> (\<forall>x. x \<notin> set xs \<longrightarrow> pbufs s' x = pbufs s x) \<and> customs s' = customs s \<and> same_rest s s'
     \<and> (\<forall>x \<in> set xs. \<exists>b. pbufs s' x = Some b \<and> pb_ref b = 1 \<and> \<not> is_custom b \<and> pb_type b = ty)
     \<and> (\<forall>b. pbufs s' p = Some b \<longrightarrow> pb_flags b = 0 \<and> ((ty = PBUF_POOL \<or> ty = PBUF_RAM) \<longrightarrow> pb_payload b = Some (p + 16 + layer_offset l)))"

lemma new_chain_of_growing:
  assumes g: "growing E (pbufs s) p 0 xs s1" and E: "E p = 0" and len: "chain_len (pbufs s1) xs = n"
    and rest: "customs s1 = customs s" "same_rest s s1"
    and p: "pbufs s1 p = Some b" "pb_payload b = Some (p + 16 + layer_offset l)"
  shows "new_chain E l n PBUF_POOL s p xs (put_pbuf p (b\<lparr>pb_flags := 0\<rparr>) s1)" (is "new_chain _ _ _ _ _ _ _ ?s'")
proof -
  note gD = growingD [OF g]
  have b: "\<not> is_custom b" "pb_ref b = 1" "pb_type b = PBUF_POOL" using gD(4,7,8) p(1) by (cases xs; auto)+
  have ok: "net_ok (E(p := 1)) ?s'"
    by (rule net_ok_put [OF gD(1) p(1)]) (use b in \<open>auto simp: in_room_def is_custom_def split: option.splits\<close>)
  have "chain (pbufs s1) (Some p) xs" using gD(2,3) by (simp add: chain_def)
  moreover have same: "same_links (pbufs s1) (pbufs ?s') x" if x: "x \<in> set xs" for x
  proof -
    obtain c where "pbufs s1 x = Some c" using links_live [OF gD(2)] x by blast
    then show ?thesis using p(1) by (auto simp: same_links_def)
  qed
  ultimately have ch: "chain (pbufs ?s') (Some p) xs" "chain_len (pbufs ?s') xs = n"
    using chain_cong [OF _ same] len by auto
  have "p \<in> set xs" using gD(7,8) by auto
  moreover have "\<exists>b'. pbufs ?s' x = Some b' \<and> pb_ref b' = 1 \<and> \<not> is_custom b' \<and> pb_type b' = PBUF_POOL" if "x \<in> set xs" for x
    using gD(4) that b by (auto simp: owned_def list_all_iff is_custom_def split: option.splits)
  ultimately show ?thesis
    using ok ch gD(5,6) E rest p(2) unfolding new_chain_def by (auto simp: same_rest_def)
qed

lemma alloc_pool_ok:
  assumes ok: "net_ok E s" and n: "n < 65536"
  shows "if card (pool_pbufs s) + pool_need l n \<le> unat (desc_num (pool_desc s))
    then \<exists>p xs s'. pbuf_alloc l n PBUF_POOL s = Some (Some p, s') \<and> new_chain E l n PBUF_POOL s p xs s' \<and> length xs = pool_need l n
    else \<exists>s'. pbuf_alloc l n PBUF_POOL s = Some (None, s') \<and> net_ok E s' \<and> pbufs s' = pbufs s \<and> customs s' = customs s
      \<and> pbuf_free_ooseq_pending s' \<and> bytes s' = bytes s \<and> net_pools s' = net_pools s"
  using ok
proof (cases rule: pool_malloc_cases)
  case (full m)
  then show ?thesis by (auto simp: pbuf_alloc_def pool_need_def pbuf_pool_is_empty_def net_ok_def)
next
  case (got p m)
  let ?o = "layer_offset l" and ?l = "min n (128 - layer_offset l)"
  let ?b = "\<lparr>pb_next = None, pb_payload = Some (p + 16 + ?o), pb_tot_len = n, pb_len = ?l, pb_type = PBUF_POOL,
     pb_flags = stale_flags s p, pb_ref = 1\<rparr>"
  let ?s = "put_pbuf p ?b (s\<lparr>net_memp := m\<rparr>)"
  have o: "?o mod 4 = 0" "?o \<le> 72" by (rule layer_offset_bounds)+
  have pl: "LWIP_MEM_ALIGN (p + (16 + ?o)) = p + 16 + ?o" "(p + 16 + ?o) mod 4 = 0" "LWIP_MEM_ALIGN_SIZE ?o = ?o"
    using got(4) o(1) ALIGN_SIZE_id(2) [of "p + (16 + ?o)"] ALIGN_SIZE_id(1) [OF o(1)] by (auto simp: add.assoc mod_add_eq [symmetric])
  have bound: "p + 16 + ?o + ?l \<le> p + 16 + 128" using o(2) by auto
  have nc: "\<not> is_custom ?b" using got(5) by (simp add: is_custom_def)
  have "net_ok (E(p := 1)) ?s" using nc bound by (intro got(7)) (auto simp: in_room_def)
  then have g: "growing E (pbufs s) p (n - ?l) [p] ?s"
    using nc got(3) by (auto simp: growing_def plen_def ptot_def)
  have "pool_pbufs ?s = insert p (pool_pbufs s)" using nc got(3) by (auto simp: pool_pbufs_def)
  then have card: "card (pool_pbufs ?s) = Suc (card (pool_pbufs s))"
    using finite_pool_pbufs [OF ok] got(3) by (simp add: pool_pbufs_def)
  have rem: "n - ?l < 65535" using n o(2) by auto
  have len: "chain_len (pbufs ?s) [p] = ?l" by (simp add: plen_def)
  have start: "pbuf_alloc l n PBUF_POOL s = Option.bind (pool_tail p p (n - ?l) ?s) (\<lambda>(ok, s).
      if ok then Option.bind (upd_pbuf p (\<lambda>b. b\<lparr>pb_ref := 1\<rparr>) s) (\<lambda>s. Option.bind (upd_pbuf p (\<lambda>b. b\<lparr>pb_flags := 0\<rparr>) s) (\<lambda>s. Some (Some p, s)))
      else Some (None, s))"
    using got(2) pl bound o(2) by (simp add: pbuf_alloc_def Let_def add.assoc del: One_nat_def)
  show ?thesis
  proof (cases "card (pool_pbufs s) + pool_need l n \<le> unat (desc_num (pool_desc s))")
    case True
    with pool_tail_ok [OF g rem got(8)] card obtain ys s1 nx where
      s1: "pool_tail p p (n - ?l) ?s = Some (True, s1)" "growing E (pbufs s) p 0 (p # ys) s1" "length ys = (n - ?l + 127) div 128"
      "chain_len (pbufs s1) (p # ys) = ?l + (n - ?l)" "customs s1 = customs s" "same_rest ?s s1"
      "pbufs s1 p = Some (?b\<lparr>pb_next := nx\<rparr>)"
      unfolding len by (auto simp: pool_need_def)
    have "same_rest s s1" using s1(6) by (simp add: same_rest_def)
    with new_chain_of_growing [OF s1(2) got(8) _ s1(5) _ s1(7), of n l] s1(4)
    have "new_chain E l n PBUF_POOL s p (p # ys) (put_pbuf p (?b\<lparr>pb_next := nx, pb_flags := 0\<rparr>) s1)" by simp
    moreover have "pbuf_alloc l n PBUF_POOL s = Some (Some p, put_pbuf p (?b\<lparr>pb_next := nx, pb_flags := 0\<rparr>) s1)"
      unfolding start using s1(1,7) by (simp add: upd_pbuf_Some)
    ultimately show ?thesis using True s1(3) by (auto simp: pool_need_def intro!: exI [of _ "p # ys"])
  next
    case False
    with pool_tail_ok [OF g rem got(8)] card show ?thesis unfolding start by (auto simp: pool_need_def)
  qed
qed

text \<open>A pbuf of a single piece is a chain.\<close>

lemma new_chain_single:
  assumes ok: "net_ok (E(p := 1)) s'" "E p = 0" and s': "pbufs s' = (pbufs s)(p \<mapsto> b)" "customs s' = customs s" "same_rest s s'"
    and new: "pbufs s p = None" and b: "pb_next b = None" "pb_len b = n" "pb_tot_len b = n" "pb_ref b = 1" "\<not> is_custom b" "pb_type b = ty" "pb_flags b = 0"
    "(ty = PBUF_POOL \<or> ty = PBUF_RAM) \<longrightarrow> pb_payload b = Some (p + 16 + layer_offset l)"
  shows "new_chain E l n ty s p [p] s'"
  using assms by (auto simp: new_chain_def chain_Cons plen_def)

lemma alloc_ref_ok:
  assumes ok: "net_ok E s" and ty: "ty = PBUF_ROM \<or> ty = PBUF_REF"
  shows "if card (ref_pbufs s) < unat (desc_num (ref_desc s))
    then \<exists>p s'. pbuf_alloc l n ty s = Some (Some p, s') \<and> new_chain E l n ty s p [p] s'
    else \<exists>s'. pbuf_alloc l n ty s = Some (None, s') \<and> net_ok E s' \<and> pbufs s' = pbufs s \<and> customs s' = customs s \<and> same_rest s s'"
proof -
  have inv: "pbuf_inv s" and refs: "refs_ok E s" using ok by (simp_all add: net_ok_def)
  note parts = pbuf_inv_parts [OF inv]
  have len: "9 < length (net_pools s)" using layout_ok_length [OF parts(1)] by simp
  from parts(3) len show ?thesis
  proof (cases rule: net_memp_malloc_cases)
    case (got q m)
    have "q \<in> set (pool_elems (ref_desc s))" using memp_inv_elems [OF got(4)] by simp
    then have "q \<notin> pool_pbufs s" "q \<notin> dom (customs s)" "q \<notin> ram_pbufs s"
      using pbuf_inv_elems [OF inv] pbuf_inv_apart [OF inv] pool_elems_off_heap [OF inv] unfolding pools_apart_def by blast+
    with got(3) have new: "pbufs s q = None" using pbuf_owner [OF inv] by (cases "pbufs s q") blast+
    let ?b = "\<lparr>pb_next = None, pb_payload = None, pb_tot_len = n, pb_len = n, pb_type = ty, pb_flags = 0, pb_ref = 1\<rparr>"
    let ?s = "put_pbuf q ?b (s\<lparr>net_memp := m\<rparr>)"
    from parts(5) obtain M where M: "mem_areas (ram (net_heap s)) M (net_heap s)"
      "\<forall>x \<in> ram_pbufs s. \<exists>k. (x, k) \<in># M \<and> (\<forall>b. pbufs s x = Some b \<longrightarrow> in_room (x + k) x b)"
      unfolding heap_ok_def by blast
    have nc: "\<not> is_custom ?b" by (simp add: is_custom_def)
    have "pbuf_inv (put_pbuf q ?b (s\<lparr>net_memp := m, net_heap := net_heap s\<rparr>))"
      using ty got(4) got(5) [OF _ parts(2)] got(5) [OF _ parts(4)] pbuf_inv_apart [OF inv] M
      by (intro pbuf_inv_new [OF inv new nc]) auto
    moreover have "refs_ok (E(q := 1)) ?s" using refs new nc by (intro refs_ok_new) simp_all
    ultimately have "net_ok (E(q := 1)) ?s" by (simp add: net_ok_def)
    then have "new_chain E l n ty s q [q] ?s"
      using refs_ok_unused [OF refs new] ty new nc by (intro new_chain_single [where b = ?b]) (auto simp: same_rest_def)
    moreover have "pbuf_alloc l n ty s = Some (Some q, ?s)"
      using ty got(2) by (auto simp: pbuf_alloc_def upd_pbuf_Some)
    ultimately show ?thesis using got(1) by auto
  next
    case (full m)
    have "pbuf_inv (s\<lparr>net_memp := m\<rparr>)"
      using full(3) full(4) [OF _ parts(2)] full(4) [OF _ parts(4)] pbuf_inv_apart [OF inv] by (intro pbuf_inv_memp [OF inv]) auto
    then show ?thesis using ty full(1,2) refs by (auto simp: pbuf_alloc_def net_ok_def)
  qed
qed

lemma heap_new_address:
  assumes inv: "pbuf_inv s" and M: "mem_areas (ram (net_heap s)) M (net_heap s)"
      "\<forall>x \<in> ram_pbufs s. \<exists>k. (x, k) \<in># M \<and> (\<forall>b. pbufs s x = Some b \<longrightarrow> in_room (x + k) x b)"
    and a: "mem_areas (ram (net_heap s)) (add_mset (a, k) M) h" "\<forall>(b, j) \<in># M. b + j \<le> a \<or> a + k \<le> b"
  shows "pbufs s a = None" "a mod 4 = 0" "ram h = ram (net_heap s)"
proof -
  let ?r = "ram (net_heap s)"
  from heap.areas_range [OF a(1), of a k] have a': "?r + 8 \<le> a" "a + k \<le> ?r + 512" "12 \<le> k" "a mod 4 = 0" by simp_all
  then show "a mod 4 = 0" "ram h = ?r" using a(1) by (simp_all add: mem_areas_def)
  have "a \<notin> ram_pbufs s"
  proof
    assume "a \<in> ram_pbufs s"
    then obtain j where j: "(a, j) \<in># M" using M(2) by blast
    with a(2) have "a + j \<le> a \<or> a + k \<le> a" by blast
    with heap.areas_range [OF M(1) j] a'(3) show False by simp
  qed
  moreover have "a \<in> {?r + 8 ..< ?r + 512}" using a' by simp
  then have "a \<notin> pool_pbufs s" "a \<notin> ref_pbufs s" "a \<notin> dom (customs s)"
    using pbuf_inv_elems(1-3) [OF inv] pool_elems_off_heap [OF inv] by blast+
  ultimately show "pbufs s a = None" using pbuf_owner [OF inv] by (cases "pbufs s a") blast+
qed

lemma alloc_ram_ok:
  assumes ok: "net_ok E s" and n: "layer_offset l + 16 + LWIP_MEM_ALIGN_SIZE n \<le> 65532"
  shows "(\<exists>p s'. pbuf_alloc l n PBUF_RAM s = Some (Some p, s') \<and> new_chain E l n PBUF_RAM s p [p] s')
    \<or> (\<exists>s'. pbuf_alloc l n PBUF_RAM s = Some (None, s') \<and> net_ok E s' \<and> pbufs s' = pbufs s \<and> customs s' = customs s \<and> same_rest s s')"
proof -
  have inv: "pbuf_inv s" and refs: "refs_ok E s" using ok by (simp_all add: net_ok_def)
  note parts = pbuf_inv_parts [OF inv]
  let ?r = "ram (net_heap s)" and ?o = "layer_offset l"
  let ?sz = "16 + ?o + LWIP_MEM_ALIGN_SIZE n"
  from parts(5) obtain M where M: "mem_areas ?r M (net_heap s)"
    "\<forall>x \<in> ram_pbufs s. \<exists>k. (x, k) \<in># M \<and> (\<forall>b. pbufs s x = Some b \<longrightarrow> in_room (x + k) x b)"
    unfolding heap_ok_def by blast
  have o: "?o mod 4 = 0" by (rule layer_offset_bounds)
  then have "LWIP_MEM_ALIGN_SIZE (16 + ?o) = 16 + ?o" by (intro ALIGN_SIZE_id) presburger
  then have sz: "to_u16 (LWIP_MEM_ALIGN_SIZE (16 + ?o) + LWIP_MEM_ALIGN_SIZE n) = ?sz" using n by (simp add: to_u16_def)
  from heap.alloc_areas [OF M(1), of ?sz] n obtain p h where
    p: "mem_malloc ?sz (net_heap s) = Some (p, h)" "case p of None \<Rightarrow> mem_areas ?r M h
       | Some a \<Rightarrow> \<exists>k. ?sz \<le> k \<and> mem_areas ?r (add_mset (a, k) M) h \<and> (\<forall>(b, j) \<in># M. b + j \<le> a \<or> a + k \<le> b)" by auto
  show ?thesis
  proof (cases p)
    case None
    have r: "ram h = ?r" using p(2) None by (simp add: mem_areas_def)
    have "pbuf_inv (s\<lparr>net_heap := h\<rparr>)"
      using inv p(2) M(2) None r unfolding pbuf_inv_def heap_ok_def pool_pbufs_def ref_pbufs_def ram_pbufs_def by auto
    then show ?thesis using p(1) None sz r refs by (simp add: pbuf_alloc_def net_mem_malloc_def net_ok_def same_rest_def)
  next
    case (Some a)
    with p(2) obtain k where k: "?sz \<le> k" "mem_areas ?r (add_mset (a, k) M) h" "\<forall>(b, j) \<in># M. b + j \<le> a \<or> a + k \<le> b" by auto
    note new = heap_new_address [OF inv M k(2,3)]
    have pl: "LWIP_MEM_ALIGN (a + 16 + ?o) = a + 16 + ?o" "(a + 16 + ?o) mod 4 = 0"
      using new(2) o ALIGN_SIZE_id(2) [of "a + 16 + ?o"] by presburger+
    let ?b = "\<lparr>pb_next = None, pb_payload = Some (a + 16 + ?o), pb_tot_len = n, pb_len = n, pb_type = PBUF_RAM, pb_flags = 0, pb_ref = 1\<rparr>"
    let ?s = "put_pbuf a ?b (s\<lparr>net_heap := h\<rparr>)"
    have nc: "\<not> is_custom ?b" by (simp add: is_custom_def)
    have "n \<le> LWIP_MEM_ALIGN_SIZE n" unfolding LWIP_MEM_ALIGN_SIZE_def by presburger
    then have room: "in_room (a + k) a ?b" using k(1) by (simp add: in_room_def)
    have "pbuf_inv (put_pbuf a ?b (s\<lparr>net_memp := net_memp s, net_heap := h\<rparr>))"
      using parts(2-4) new(3) k(2) M(2) room by (intro pbuf_inv_new [OF inv new(1) nc, where M = "add_mset (a, k) M"]) fastforce+
    moreover have "refs_ok (E(a := 1)) ?s" using refs new(1) nc by (intro refs_ok_new) simp_all
    ultimately have "net_ok (E(a := 1)) ?s" by (simp add: net_ok_def)
    then have "new_chain E l n PBUF_RAM s a [a] ?s"
      using refs_ok_unused [OF refs new(1)] new(1,3) nc by (intro new_chain_single [where b = ?b]) (auto simp: same_rest_def)
    moreover have "pbuf_alloc l n PBUF_RAM s = Some (Some a, ?s)"
      using p(1) Some sz pl by (simp add: pbuf_alloc_def net_mem_malloc_def Let_def upd_pbuf_Some)
    ultimately show ?thesis by blast
  qed
qed

end
