(* ===== verification/Pbuf_Chain.thy ===== *)
theory Pbuf_Chain
  imports Pbuf_Alloc
begin

text \<open>
  The operations of \<^verbatim>\<open>core/pbuf.c\<close> that change chains: \<open>pbuf_ref\<close>, \<open>pbuf_clen\<close>, \<open>pbuf_cat\<close>, \<open>pbuf_chain\<close>, \<open>pbuf_dechain\<close>,
  \<open>pbuf_realloc\<close> and \<open>pbuf_header\<close>. Each keeps the account of references and the memory of the pbufs consistent; the
  lemmas also say what becomes of the chain, for the theory \<open>Pbuf_Data\<close> to read off what becomes of the data.
\<close>

section \<open>Counting\<close>

lemma clen_loop_eq: "links (pbufs s) p xs \<Longrightarrow> n < 65536 \<Longrightarrow> clen_loop s n p = Some (to_u16 (n + length xs))"
proof (induction xs arbitrary: n p)
  case Nil
  then show ?case by (subst clen_loop.simps) (simp add: to_u16_def)
next
  case (Cons a xs)
  then obtain b where b: "p = Some a" "pbufs s a = Some b" "links (pbufs s) (pb_next b) xs" by (auto split: option.splits)
  have "to_u16 (n + 1) < 65536" by (simp add: to_u16_def)
  from Cons.IH [OF b(3) this] b show ?case by (subst clen_loop.simps) (simp add: to_u16_def mod_simps)
qed

lemma pbuf_clen_eq: "links (pbufs s) p xs \<Longrightarrow> length xs < 65536 \<Longrightarrow> pbuf_clen p s = Some (length xs)"
  using clen_loop_eq [of s p xs 0] by (simp add: pbuf_clen_def to_u16_def)

section \<open>References\<close>

lemma pbuf_ref_ok:
  assumes ok: "net_ok E s" and b: "pbufs s a = Some b" "0 < pb_ref b" "pb_ref b < 65535"
  shows "pbuf_ref (Some a) s = Some (put_pbuf a (b\<lparr>pb_ref := pb_ref b + 1\<rparr>) s)"
    and "net_ok (E(a := E a + 1)) (put_pbuf a (b\<lparr>pb_ref := pb_ref b + 1\<rparr>) s)"
proof -
  let ?s = "put_pbuf a (b\<lparr>pb_ref := pb_ref b + 1\<rparr>) s"
  show "pbuf_ref (Some a) s = Some ?s" using b by (simp add: pbuf_ref_def upd_pbuf_Some to_u16_def)
  have "refs_ok (E(a := E a + 1)) ?s"
  proof (rule refs_ok_step)
    show "refs_ok E s" using ok by (simp add: net_ok_def)
    show "only_at a s ?s" by (simp add: only_at_def)
    have "holds ?s a p = holds s a p" for p using b(1,2) by (simp add: holds_def)
    then show "ref_of ?s p + E p + holds s a p = ref_of s p + (E(a := E a + 1)) p + holds ?s a p" for p
      using b(1) by (simp add: ref_of_def)
  qed
  then show "net_ok (E(a := E a + 1)) ?s" using ok pbuf_inv_put_ref [OF _ b(1)] by (simp add: net_ok_def)
qed

section \<open>Concatenation\<close>

definition add_tot :: "nat \<Rightarrow> (nat \<rightharpoonup> pbuf) \<Rightarrow> nat list \<Rightarrow> nat \<rightharpoonup> pbuf" where
  "add_tot n P xs = (\<lambda>x. if x \<in> set xs then map_option (\<lambda>b. b\<lparr>pb_tot_len := to_u16 (pb_tot_len b + n)\<rparr>) (P x) else P x)"

lemma add_tot_Nil [simp]: "add_tot n P [] = P"
  by (simp add: add_tot_def)

lemma add_tot_Cons:
  "P a = Some b \<Longrightarrow> a \<notin> set xs \<Longrightarrow>
   add_tot n (P(a \<mapsto> b\<lparr>pb_tot_len := to_u16 (pb_tot_len b + n)\<rparr>)) xs = add_tot n P (a # xs)"
  by (auto simp: add_tot_def fun_eq_iff)

lemma cat_loop_ok:
  assumes "net_ok E s" "links (pbufs s) (Some h) xs" "xs \<noteq> []" "t \<notin> set xs" "pbufs s t = Some tb"
  shows "\<exists>s'. cat_loop t h s = Some (last xs, s') \<and> net_ok E s' \<and> pbufs s' = add_tot (pb_tot_len tb) (pbufs s) (butlast xs)
    \<and> customs s' = customs s \<and> same_rest s s'"
  using assms
proof (induction xs arbitrary: h s)
  case (Cons a xs)
  then obtain b where b: "h = a" "pbufs s a = Some b" "links (pbufs s) (pb_next b) xs" by (auto split: option.splits)
  have a: "a \<notin> set xs" "t \<noteq> a" using links_distinct [OF Cons.prems(2)] Cons.prems(4) by auto
  show ?case
  proof (cases "pb_next b")
    case None
    then show ?thesis using b Cons.prems(1) by (subst cat_loop.simps) auto
  next
    case (Some n)
    let ?b = "b\<lparr>pb_tot_len := to_u16 (pb_tot_len b + pb_tot_len tb)\<rparr>"
    have ne: "xs \<noteq> []" using Some b(3) by auto
    have "net_ok E (put_pbuf a ?b s)"
      by (rule net_ok_put [OF Cons.prems(1) b(2)]) (auto simp: in_room_def split: option.splits)
    moreover have "links (pbufs (put_pbuf a ?b s)) (Some n) xs" using b(3) Some a(1) upd_other_links [OF a(1)] by (simp del: fun_upd_apply)
    moreover have "pbufs (put_pbuf a ?b s) t = Some tb" "t \<notin> set xs" using Cons.prems(4,5) a(2) by auto
    ultimately obtain s' where s': "cat_loop t n (put_pbuf a ?b s) = Some (last xs, s')" "net_ok E s'"
      "pbufs s' = add_tot (pb_tot_len tb) (pbufs (put_pbuf a ?b s)) (butlast xs)" "customs s' = customs (put_pbuf a ?b s)" "same_rest (put_pbuf a ?b s) s'"
      using Cons.IH [of "put_pbuf a ?b s" n] ne by blast
    have "pbufs s' = add_tot (pb_tot_len tb) (pbufs s) (a # butlast xs)"
      unfolding s'(3) using add_tot_Cons [of "pbufs s" a b "butlast xs"] b(2) a(1) by (auto dest: in_set_butlastD)
    moreover have "cat_loop t h s = Some (last xs, s')"
      using b Some s'(1) Cons.prems(5) by (subst cat_loop.simps) simp
    moreover have "same_rest s s'" using s'(5) by (simp add: same_rest_def)
    ultimately show ?thesis using s'(2,4) ne by (auto simp del: fun_upd_apply)
  qed
qed simp

text \<open>\<open>P'\<close> has the payload of \<open>P\<close> at \<open>x\<close>.\<close>

definition same_data :: "(nat \<rightharpoonup> pbuf) \<Rightarrow> (nat \<rightharpoonup> pbuf) \<Rightarrow> nat \<Rightarrow> bool" where
  "same_data P P' x \<longleftrightarrow> map_option (\<lambda>b. (pb_payload b, pb_len b)) (P' x) = map_option (\<lambda>b. (pb_payload b, pb_len b)) (P x)"

lemma same_data_plen: "same_data P P' x \<Longrightarrow> plen P' x = plen P x"
  by (auto simp: same_data_def plen_def split: option.splits)

lemma tot_ok_add:
  assumes "tot_ok 0 P xs" "\<And>x. x \<in> set xs \<Longrightarrow> plen P' x = plen P x \<and> ptot P' x = ptot P x + n"
  shows "tot_ok n P' xs"
  using assms
proof (induction xs)
  case (Cons a xs)
  then have "chain_len P' xs = chain_len P xs" by (intro chain_len_cong) simp
  with Cons show ?case by simp
qed simp

lemma ptot_le: "tot_ok t P xs \<Longrightarrow> x \<in> set xs \<Longrightarrow> ptot P x \<le> chain_len P xs + t"
  by (induction xs) auto

lemma chain_last:
  assumes "net_ok E s" "0 < E h" "chain (pbufs s) (Some h) xs"
  obtains b where "pbufs s (last xs) = Some b" "pb_next b = None" "0 < pb_ref b" "pb_tot_len b = pb_len b" "xs \<noteq> []"
    "last xs \<notin> set (butlast xs)" "set xs = insert (last xs) (set (butlast xs))"
proof -
  have links: "links (pbufs s) (Some h) xs" "tot_ok 0 (pbufs s) xs" using assms(3) by (simp_all add: chain_def)
  have ne: "xs \<noteq> []" using links(1) by auto
  then have eq: "butlast xs @ [last xs] = xs" by simp
  obtain b where b: "pbufs s (last xs) = Some b" "pb_next b = None" using links_last [OF links(1) ne] by blast
  moreover have "0 < pb_ref b" using chain_referenced [of E s h xs] assms last_in_set [OF ne] b by (fastforce simp: net_ok_def)
  moreover have "pb_tot_len b = pb_len b"
    using links(2) b tot_ok_append [of 0 "pbufs s" "butlast xs" "[last xs]"] unfolding eq by (simp add: ptot_def plen_def)
  moreover have "distinct (butlast xs @ [last xs])" unfolding eq by (rule links_distinct [OF links(1)])
  then have "last xs \<notin> set (butlast xs)" unfolding distinct_append by simp
  moreover have "set xs = insert (last xs) (set (butlast xs))"
    using arg_cong [OF eq, of set] unfolding set_append by simp
  ultimately show ?thesis using that ne by blast
qed

text \<open>The effect of \<open>pbuf_cat\<close> on the store, before the total lengths are looked at.\<close>

lemma pbuf_cat_effect:
  assumes ok: "net_ok E s" "0 < E h" "0 < E t" and xs: "chain (pbufs s) (Some h) xs" and t: "pbufs s t = Some tb" "t \<notin> set xs"
  obtains s' b where "pbuf_cat (Some h) (Some t) s = Some s'" "net_ok (E(t := E t - 1)) s'" "customs s' = customs s" "same_rest s s'"
    "pbufs s (last xs) = Some b"
    "\<And>x. pbufs s' x = (if x \<in> set xs then map_option (\<lambda>b. b\<lparr>pb_tot_len := to_u16 (pb_tot_len b + pb_tot_len tb),
        pb_next := if x = last xs then Some t else pb_next b\<rparr>) (pbufs s x) else pbufs s x)"
proof -
  obtain b where b: "pbufs s (last xs) = Some b" "pb_next b = None" "0 < pb_ref b" "pb_tot_len b = pb_len b" "xs \<noteq> []"
    "last xs \<notin> set (butlast xs)" "set xs = insert (last xs) (set (butlast xs))"
    using chain_last [OF ok(1,2) xs] .
  have links: "links (pbufs s) (Some h) xs" using xs by (simp add: chain_def)
  from cat_loop_ok [OF ok(1) links b(5) t(2,1)] obtain s1 where
    s1: "cat_loop t h s = Some (last xs, s1)" "net_ok E s1" "pbufs s1 = add_tot (pb_tot_len tb) (pbufs s) (butlast xs)"
    "customs s1 = customs s" "same_rest s s1" by blast
  let ?b = "b\<lparr>pb_tot_len := to_u16 (pb_tot_len b + pb_tot_len tb), pb_next := Some t\<rparr>"
  let ?s = "put_pbuf (last xs) ?b s1"
  have b1: "pbufs s1 (last xs) = Some b" "pbufs s1 t = Some tb" using s1(3) b t by (auto simp: add_tot_def)
  have cat: "pbuf_cat (Some h) (Some t) s = Some ?s" using s1(1) b1 b(4) by (simp add: pbuf_cat_def upd_pbuf_Some)
  have "refs_ok (E(t := E t - 1)) ?s" using s1(2) b1(1) b ok(3) by (intro refs_ok_link [of E s1 "last xs" b]) (simp_all add: net_ok_def)
  moreover have "pbuf_inv ?s"
    using s1(2) b1(1) by (intro pbuf_inv_put [of s1 "last xs" b]) (auto simp: net_ok_def in_room_def split: option.splits)
  ultimately have "net_ok (E(t := E t - 1)) ?s" by (simp add: net_ok_def)
  moreover have "pbufs ?s x = (if x \<in> set xs then map_option (\<lambda>b. b\<lparr>pb_tot_len := to_u16 (pb_tot_len b + pb_tot_len tb),
      pb_next := if x = last xs then Some t else pb_next b\<rparr>) (pbufs s x) else pbufs s x)" for x
    using s1(3) b by (auto simp: add_tot_def option.map_comp intro!: option.map_cong)
  moreover have "same_rest s ?s" using s1(5) by (simp add: same_rest_def)
  ultimately show ?thesis using s1(4) b(1) by (intro that [of ?s b]) (simp_all add: cat del: net_simps(1))
qed

lemma pbuf_cat_ok:
  assumes ok: "net_ok E s" "0 < E h" "0 < E t" and xs: "chain (pbufs s) (Some h) xs" and ys: "chain (pbufs s) (Some t) ys"
    and disj: "set xs \<inter> set ys = {}" and len: "chain_len (pbufs s) xs + chain_len (pbufs s) ys < 65536"
  shows "\<exists>s'. pbuf_cat (Some h) (Some t) s = Some s' \<and> net_ok (E(t := E t - 1)) s' \<and> chain (pbufs s') (Some h) (xs @ ys)
    \<and> chain (pbufs s') (Some t) ys \<and> (\<forall>x. x \<notin> set xs \<longrightarrow> pbufs s' x = pbufs s x) \<and> (\<forall>x. same_data (pbufs s) (pbufs s') x)
    \<and> (\<forall>x b. pbufs s x = Some b \<longrightarrow> (\<exists>b'. pbufs s' x = Some b' \<and> pb_ref b' = pb_ref b)) \<and> customs s' = customs s \<and> same_rest s s'"
proof -
  obtain tb where tb: "pbufs s t = Some tb" "t \<in> set ys" using ys by (cases ys) (auto simp: chain_Cons)
  have t: "t \<notin> set xs" using disj tb(2) by auto
  let ?n = "pb_tot_len tb"
  have n: "?n = chain_len (pbufs s) ys" using chain_tot_len [OF ys] tb(1) by (simp add: ptot_def)
  have links: "links (pbufs s) (Some h) xs" "tot_ok 0 (pbufs s) xs" using xs by (simp_all add: chain_def)
  have ne: "xs \<noteq> []" using links(1) by auto
  obtain s' b where s': "pbuf_cat (Some h) (Some t) s = Some s'" "net_ok (E(t := E t - 1)) s'" "customs s' = customs s" "same_rest s s'"
    "pbufs s (last xs) = Some b"
    "\<And>x. pbufs s' x = (if x \<in> set xs then map_option (\<lambda>b. b\<lparr>pb_tot_len := to_u16 (pb_tot_len b + ?n),
        pb_next := if x = last xs then Some t else pb_next b\<rparr>) (pbufs s x) else pbufs s x)"
    using pbuf_cat_effect [OF ok xs tb(1) t] by blast
  have data: "same_data (pbufs s) (pbufs s') x" "\<And>b. pbufs s x = Some b \<Longrightarrow> \<exists>b'. pbufs s' x = Some b' \<and> pb_ref b' = pb_ref b" for x
    by (auto simp: same_data_def s'(6) option.map_comp intro!: option.map_cong)
  have tot: "ptot (pbufs s') x = ptot (pbufs s) x + ?n" if "x \<in> set xs" for x
  proof -
    have "ptot (pbufs s) x + ?n < 65536" using ptot_le [OF links(2) that] len n by simp
    then show ?thesis using that links_live [OF links(1)] by (auto simp: ptot_def s'(6) to_u16_def split: option.splits)
  qed
  have "same_links (pbufs s) (pbufs s') x" if "x \<in> set ys" for x
    using s'(6) [of x] that disj chain_live [OF ys] by (auto simp: same_links_def)
  from chain_cong [OF ys this] have ys': "chain (pbufs s') (Some t) ys" "chain_len (pbufs s') ys = ?n" by (simp_all add: n)
  let ?P = "\<lambda>x. if x = last xs then Some b else pbufs s' x"
  have last_ys: "last xs \<notin> set ys" using disj last_in_set [OF ne] by blast
  have "links ?P (Some h) xs" by (rule links_cong [OF links(1)]) (use s'(5,6) in \<open>auto simp: option.map_comp intro!: option.map_cong\<close>)
  moreover have "links ?P (Some t) ys"
    using ys'(1) disj last_in_set [OF ne] by (auto simp: chain_def intro!: links_cong [of "pbufs s'"])
  ultimately have "links (?P(last xs \<mapsto> the (pbufs s' (last xs)))) (Some h) (xs @ ys)"
    using last_ys s'(5,6) ne by (intro links_append [of ?P "Some h" xs "Some t" ys b]) auto
  moreover have "?P(last xs \<mapsto> the (pbufs s' (last xs))) = pbufs s'" using s'(5,6) ne by (auto simp: fun_eq_iff)
  moreover have "tot_ok ?n (pbufs s') xs"
    by (rule tot_ok_add [OF links(2)]) (simp add: tot same_data_plen [OF data(1)])
  ultimately have "chain (pbufs s') (Some h) (xs @ ys)" using ys' by (simp add: chain_def tot_ok_append)
  then show ?thesis using s'(1-4) ys'(1) data s'(6) by auto
qed

lemma pbuf_chain_ok:
  assumes ok: "net_ok E s" "0 < E h" "0 < E t" and xs: "chain (pbufs s) (Some h) xs" and ys: "chain (pbufs s) (Some t) ys"
    and disj: "set xs \<inter> set ys = {}" and len: "chain_len (pbufs s) xs + chain_len (pbufs s) ys < 65536"
    and ref: "pbufs s t = Some tb" "pb_ref tb < 65535"
  shows "\<exists>s'. pbuf_chain (Some h) (Some t) s = Some s' \<and> net_ok E s' \<and> chain (pbufs s') (Some h) (xs @ ys)
    \<and> chain (pbufs s') (Some t) ys \<and> (\<forall>x. same_data (pbufs s) (pbufs s') x) \<and> customs s' = customs s \<and> same_rest s s'"
proof -
  from pbuf_cat_ok [OF assms(1-7)] ref(1) obtain s1 tb1 where
    s1: "pbuf_cat (Some h) (Some t) s = Some s1" "net_ok (E(t := E t - 1)) s1" "chain (pbufs s1) (Some h) (xs @ ys)"
    "chain (pbufs s1) (Some t) ys" "\<forall>x. same_data (pbufs s) (pbufs s1) x" "pbufs s1 t = Some tb1" "pb_ref tb1 = pb_ref tb"
    "customs s1 = customs s" "same_rest s s1" by blast
  have "0 < pb_ref tb" using refs_ok_live [of E s t] ok ref(1) by (auto simp: net_ok_def)
  then have r: "0 < pb_ref tb1" "pb_ref tb1 < 65535" using s1(7) ref(2) by simp_all
  let ?s = "put_pbuf t (tb1\<lparr>pb_ref := pb_ref tb1 + 1\<rparr>) s1"
  note ref' = pbuf_ref_ok [OF s1(2,6) r]
  have E: "(E(t := E t - 1))(t := (E(t := E t - 1)) t + 1) = E" using ok(3) by (auto simp: fun_eq_iff)
  have same: "same_links (pbufs s1) (pbufs ?s) x" if "x \<in> dom (pbufs s1)" for x
    using that s1(6) by (auto simp: same_links_def)
  have "chain (pbufs ?s) (Some h) (xs @ ys)" "chain (pbufs ?s) (Some t) ys"
    using chain_cong(1) [OF s1(3) same] chain_cong(1) [OF s1(4) same] chain_live [OF s1(3)] chain_live [OF s1(4)] by blast+
  moreover have "same_data (pbufs s) (pbufs ?s) x" for x
    using s1(5) [rule_format, of x] s1(6) by (cases "x = t") (auto simp: same_data_def)
  ultimately show ?thesis
    using ref' s1(1,8,9) unfolding E by (auto simp: pbuf_chain_def same_rest_def simp del: net_simps(1))
qed

section \<open>Taking a chain apart\<close>

lemma drop_run_nonempty:
  assumes "plain P (q # ys)" "P q = Some b"
  shows "run_of P (q # ys) \<noteq> [] \<longleftrightarrow> pb_ref b = 1"
    and "pb_ref b \<noteq> 1 \<Longrightarrow> drop_run P (q # ys) = P(q \<mapsto> b\<lparr>pb_ref := pb_ref b - 1\<rparr>)"
  using assms by (auto simp: fun_eq_iff)

lemma run_of_length: "length (run_of P xs) \<le> length xs"
  unfolding run_of_def by (rule length_takeWhile_le)

lemma drop_run_outside: "x \<notin> set xs \<Longrightarrow> drop_run P xs x = P x"
  by (induction xs) (auto split: option.splits)

lemma drop_run_cong:
  "(\<And>y. y \<in> set vs \<Longrightarrow> P' y = P y) \<Longrightarrow> P' x = P x \<Longrightarrow> drop_run P' vs x = drop_run P vs x"
  by (induction vs) (auto split: option.splits)

lemma pbuf_dechain_ok:
  assumes ok: "net_ok E s" "0 < E p" and ch: "chain (pbufs s) (Some p) (p # q # ys)" and pl: "plain (pbufs s) (q # ys)"
    and len: "length ys < 255" and tot: "chain_len (pbufs s) (q # ys) < 65536"
    and b: "pbufs s p = Some b" and qb: "pbufs s q = Some qb"
  shows "\<exists>s'. pbuf_dechain p s = Some (if pb_ref qb = 1 then None else Some q, s') \<and> net_ok E s' \<and> same_rest s s' \<and> customs s' = customs s
    \<and> pbufs s' = (drop_run (pbufs s) (q # ys))(p \<mapsto> b\<lparr>pb_next := None, pb_tot_len := pb_len b\<rparr>)"
proof -
  have bq: "pb_next b = Some q" "pb_tot_len b = pb_len b + chain_len (pbufs s) (q # ys)" "chain (pbufs s) (Some q) (q # ys)"
    using ch b by (auto simp: chain_Cons)
  have qt: "pb_tot_len qb = chain_len (pbufs s) (q # ys)" using chain_tot_len [OF bq(3)] qb by (simp add: ptot_def)
  have pq: "p \<notin> set (q # ys)" using chain_distinct [OF ch] by auto
  let ?b = "b\<lparr>pb_next := None, pb_tot_len := pb_len b\<rparr>"
  have self: "put_pbuf q (qb\<lparr>pb_tot_len := to_u16 (pb_tot_len b - pb_len b)\<rparr>) s = s"
    using tot qt bq(2) qb by (simp add: put_pbuf_def to_u16_def fun_upd_idem)
  let ?s = "put_pbuf p ?b s"
  have ref: "0 < pb_ref b" using refs_ok_live [of E s p] ok b by (auto simp: net_ok_def)
  have inv: "pbuf_inv ?s" by (rule pbuf_inv_put [OF _ b]) (use ok in \<open>auto simp: net_ok_def in_room_def split: option.splits\<close>)
  have "refs_ok (E(q := E q + 1)) ?s" using ok(1) b bq(1) ref by (intro refs_ok_unlink [of E s p b q]) (simp_all add: net_ok_def)
  with inv have "net_ok (E(q := E q + 1)) ?s" by (simp add: net_ok_def)
  from pbuf_free_ok [OF this, of q] obtain n s' where s': "pbuf_free (Some q) ?s = Some (n, s')"
    "net_ok ((E(q := E q + 1))(q := (E(q := E q + 1)) q - 1)) s'" by auto
  have "links (pbufs ?s) (Some q) (q # ys)" "plain (pbufs ?s) (q # ys)"
    unfolding net_simps upd_other_links [OF pq] upd_other_plain [OF pq] using bq(3) pl by (simp_all only: chain_def)
  from free_chain_exact [OF inv this, of 0] s'(1)
  have free: "n = length (run_of (pbufs ?s) (q # ys)) mod 256" "pbufs s' = drop_run (pbufs ?s) (q # ys)" "customs s' = customs ?s" "same_rest ?s s'"
    by (auto simp: pbuf_free_def simp del: net_simps(1))
  have "(E(q := E q + 1))(q := (E(q := E q + 1)) q - 1) = E" by (auto simp: fun_eq_iff)
  with s'(2) have "net_ok E s'" by simp
  have pb: "pbufs s' = (drop_run (pbufs s) (q # ys))(p \<mapsto> ?b)"
    using free(2) upd_other_drop [OF pq] by (simp del: fun_upd_apply drop_run.simps)
  have "length (run_of (pbufs s) (q # ys)) < 256" using run_of_length [of "pbufs s" "q # ys"] len by simp
  then have n: "0 < n \<longleftrightarrow> pb_ref qb = 1"
    using free(1) upd_other_run [OF pq] drop_run_nonempty(1) [OF pl qb] by (simp del: fun_upd_apply run_of_simps)
  have "pbufs s' p = Some ?b" unfolding pb by simp
  have "pbuf_dechain p s = Some (if n > 0 then None else Some q, s')"
    using b bq(1,2) qb qt self s'(1) \<open>pbufs s' p = Some ?b\<close> pq
    by (simp add: pbuf_dechain_def upd_pbuf_Some)
  then show ?thesis using n pb free(3,4) \<open>net_ok E s'\<close> by (simp add: same_rest_def del: drop_run.simps)
qed

lemma pbuf_dechain_single:
  "\<lbrakk>chain (pbufs s) (Some p) [p]\<rbrakk> \<Longrightarrow> pbuf_dechain p s = Some (None, s)"
  by (auto simp: chain_Cons pbuf_dechain_def)

section \<open>Shrinking\<close>

lemma realloc_walk_ok:
  assumes "net_ok E s" "chain (pbufs s) (Some q) xs" "chain_len (pbufs s) xs < 65536" "rem \<le> chain_len (pbufs s) xs"
    "grow = int rem - int (chain_len (pbufs s) xs)"
  shows "\<exists>us a vs s'. xs = us @ a # vs \<and> realloc_walk grow q rem s = Some (a, rem - chain_len (pbufs s) us, s')
    \<and> chain_len (pbufs s) us \<le> rem \<and> rem - chain_len (pbufs s) us \<le> plen (pbufs s) a \<and> net_ok E s' \<and> customs s' = customs s \<and> same_rest s s'
    \<and> (\<forall>x. pbufs s' x = (if x \<in> set us then map_option (\<lambda>b. b\<lparr>pb_tot_len := nat (int (pb_tot_len b) + grow)\<rparr>) (pbufs s x) else pbufs s x))"
  using assms
proof (induction xs arbitrary: q rem s)
  case (Cons a xs)
  then obtain b where b: "q = a" "pbufs s a = Some b" "chain (pbufs s) (pb_next b) xs" "pb_tot_len b = pb_len b + chain_len (pbufs s) xs"
    by (auto simp: chain_Cons)
  have pl: "plen (pbufs s) a = pb_len b" using b(2) by (simp add: plen_def)
  show ?case
  proof (cases "rem > pb_len b")
    case False
    then have "realloc_walk grow q rem s = Some (a, rem, s)" using b by (subst realloc_walk.simps) simp
    then show ?thesis using False Cons.prems(1) pl by (intro exI [of _ "[]"]) simp
  next
    case True
    let ?b = "b\<lparr>pb_tot_len := nat (int (pb_tot_len b) + grow)\<rparr>"
    let ?s = "put_pbuf a ?b s"
    have a: "a \<notin> set xs" using chain_distinct [OF Cons.prems(2)] by simp
    have grow: "grow \<le> 0" "int (pb_tot_len b) + grow = int rem" "rem < 65536" using Cons.prems(3-5) pl b(4) by auto
    have "xs \<noteq> []" using True Cons.prems(4) pl by auto
    then obtain n where n: "pb_next b = Some n" using b(3) by (cases "pb_next b") auto
    have walk: "realloc_walk grow q rem s = realloc_walk grow n (rem - pb_len b) ?s"
      using b(1,2) True n grow by (subst realloc_walk.simps) (simp add: Let_def)
    have ok: "net_ok E ?s" by (rule net_ok_put [OF Cons.prems(1) b(2)]) (auto simp: in_room_def split: option.splits)
    have same: "same_links (pbufs s) (pbufs ?s) x" if "x \<in> set xs" for x
      using that a chain_live [OF b(3)] by (auto simp: same_links_def)
    have ch: "chain (pbufs ?s) (Some n) xs" "chain_len (pbufs ?s) xs = chain_len (pbufs s) xs"
      using chain_cong [OF b(3) same] n by simp_all
    have plen: "plen (pbufs ?s) x = plen (pbufs s) x" for x using b(2) by (simp add: plen_def)
    then have clen: "chain_len (pbufs ?s) ys = chain_len (pbufs s) ys" for ys by (rule chain_len_cong)
    have pre: "chain_len (pbufs ?s) xs < 65536" "rem - pb_len b \<le> chain_len (pbufs ?s) xs"
      "grow = int (rem - pb_len b) - int (chain_len (pbufs ?s) xs)"
      using Cons.prems(3-5) ch(2) pl True by auto
    from Cons.IH [OF ok ch(1) pre] obtain us c vs s' where
      s': "xs = us @ c # vs" "realloc_walk grow n (rem - pb_len b) ?s = Some (c, rem - pb_len b - chain_len (pbufs s) us, s')"
      "chain_len (pbufs s) us \<le> rem - pb_len b" "rem - pb_len b - chain_len (pbufs s) us \<le> plen (pbufs s) c" "net_ok E s'"
      "customs s' = customs ?s" "same_rest ?s s'"
      "\<And>x. pbufs s' x = (if x \<in> set us then map_option (\<lambda>b. b\<lparr>pb_tot_len := nat (int (pb_tot_len b) + grow)\<rparr>) (pbufs ?s x) else pbufs ?s x)"
      unfolding clen plen by blast
    have "pbufs s' x = (if x \<in> set (a # us) then map_option (\<lambda>b. b\<lparr>pb_tot_len := nat (int (pb_tot_len b) + grow)\<rparr>) (pbufs s x) else pbufs s x)" for x
      using s'(1,8) a b(2) by auto
    moreover have "realloc_walk grow q rem s = Some (c, rem - chain_len (pbufs s) (a # us), s')" using walk s'(2) pl by simp
    moreover have "same_rest s s'" using s'(7) by (simp add: same_rest_def)
    ultimately show ?thesis using s'(1,3-6) pl True by (intro exI [of _ "a # us"] exI [of _ c] exI [of _ vs] exI [of _ s']) auto
  qed
qed simp

lemma pbuf_inv_heap:
  "\<lbrakk>pbuf_inv s; ram h = ram (net_heap s); heap_ok (s\<lparr>net_heap := h\<rparr>)\<rbrakk> \<Longrightarrow> pbuf_inv (s\<lparr>net_heap := h\<rparr>)"
  unfolding pbuf_inv_def pool_pbufs_def ref_pbufs_def by simp

text \<open>Shortening the last pbuf; a \<open>PBUF_RAM\<close> pbuf gives memory back to the heap.\<close>

lemma realloc_trim:
  assumes ok: "net_ok E s" and b: "pbufs s q = Some b" "rem \<le> pb_len b" "\<not> is_custom b" "pb_len b < 65536"
  shows "\<exists>s1. (if pb_type b = PBUF_RAM \<and> rem \<noteq> pb_len b \<and> \<not> is_custom b
      then Option.bind (pb_payload b) (\<lambda>payload. net_mem_trim q (to_u16 (nat ((int payload - int q) mod 65536) + rem)) s)
      else Some (Some q, s)) = Some (Some q, s1) \<and> pbufs s1 = pbufs s \<and> customs s1 = customs s \<and> same_rest s s1
    \<and> net_ok E (put_pbuf q (b\<lparr>pb_len := rem, pb_tot_len := rem\<rparr>) s1)"
proof -
  have put: "net_ok E (put_pbuf q (b\<lparr>pb_len := rem, pb_tot_len := rem\<rparr>) s)"
    by (rule net_ok_put [OF ok b(1)]) (use b(2) in \<open>auto simp: in_room_def split: option.splits\<close>)
  show ?thesis
  proof (cases "pb_type b = PBUF_RAM \<and> rem \<noteq> pb_len b")
    case False
    then show ?thesis using put by auto
  next
    case True
    have inv: "pbuf_inv s" using ok by (simp add: net_ok_def)
    have q: "q \<in> ram_pbufs s" using b True by (auto simp: ram_pbufs_def)
    let ?r = "ram (net_heap s)"
    from pbuf_inv_parts(5) [OF inv] obtain M where M: "mem_areas ?r M (net_heap s)"
      "\<forall>x \<in> ram_pbufs s. \<exists>k. (x, k) \<in># M \<and> (\<forall>b. pbufs s x = Some b \<longrightarrow> in_room (x + k) x b)"
      unfolding heap_ok_def by blast
    from M(2) q b(1) obtain k pl where k: "(q, k) \<in># M" "pb_payload b = Some pl" "q + 16 \<le> pl" "pl + pb_len b \<le> q + k"
      by (fastforce simp: in_room_def split: option.splits)
    have k512: "q + k \<le> ?r + 512" "?r \<le> q" using heap.areas_range [OF M(1) k(1)] by auto
    then have sz: "to_u16 (nat ((int pl - int q) mod 65536) + rem) = pl - q + rem"
      using k(3,4) b(2) by (simp add: to_u16_def nat_mod_distrib flip: of_nat_diff) 
    obtain M' where M': "M = add_mset (q, k) M'" using k(1) by (meson mset_add)
    have "pl - q + rem \<le> k" "pl - q + rem \<le> 65532" using k(3,4) b(2) k512 by auto
    with heap.trim_areas [of ?r q k M' "net_heap s"] M(1) M' obtain k' h where
      h: "mem_trim q (pl - q + rem) (net_heap s) = Some (Some q, h)" "pl - q + rem \<le> k'" "mem_areas ?r (add_mset (q, k') M') h" by blast
    have r: "ram h = ?r" using h(3) by (simp add: mem_areas_def)
    let ?b = "b\<lparr>pb_len := rem, pb_tot_len := rem\<rparr>"
    let ?s = "put_pbuf q ?b (s\<lparr>net_heap := h\<rparr>)"
    have sets: "pool_pbufs ?s = pool_pbufs s" "ref_pbufs ?s = ref_pbufs s" "ram_pbufs ?s = ram_pbufs s"
      using b(1) by (auto simp: pool_pbufs_def ref_pbufs_def ram_pbufs_def)
    have "\<exists>j. (x, j) \<in># add_mset (q, k') M' \<and> (\<forall>b. pbufs ?s x = Some b \<longrightarrow> in_room (x + j) x b)" if "x \<in> ram_pbufs s" for x
      using M(2) that M' h(2) k(2,3) by (cases "x = q") (auto simp: in_room_def)
    then have "heap_ok ?s" unfolding heap_ok_def sets using h(3) r by (intro exI [of _ "add_mset (q, k') M'"]) simp
    moreover have "pbuf_inv (put_pbuf q ?b s)" "refs_ok E (put_pbuf q ?b s)" using put by (simp_all add: net_ok_def)
    moreover have eq: "?s = (put_pbuf q ?b s)\<lparr>net_heap := h\<rparr>" by (simp add: put_pbuf_def)
    ultimately have "net_ok E ?s" unfolding net_ok_def eq using r by (intro conjI pbuf_inv_heap) simp_all
    then show ?thesis using True b(3) k(2) sz h(1) r by (auto simp: net_mem_trim_def same_rest_def)
  qed
qed

text \<open>
  \<open>pbuf_realloc\<close> frees the rest of the chain while the last pbuf still points to it; the result is the same as if it
  were unlinked first.
\<close>

lemma free_rest:
  assumes ok: "net_ok E s" "pbufs s q = Some b" "0 < pb_ref b" and links: "links (pbufs s) (pb_next b) vs" and pl: "plain (pbufs s) vs"
    and q: "q \<notin> set vs"
  shows "\<exists>s1. (if pb_next b \<noteq> None then map_option snd (pbuf_free (pb_next b) s) else Some s) = Some s1
    \<and> pbufs s1 = drop_run (pbufs s) vs \<and> customs s1 = customs s \<and> same_rest s s1 \<and> net_ok E (put_pbuf q (b\<lparr>pb_next := None\<rparr>) s1)"
proof (cases "pb_next b")
  case None
  have "b = b\<lparr>pb_next := None\<rparr>" using None by simp
  with None links ok show ?thesis by (simp add: put_pbuf_def fun_upd_idem)
next
  case (Some n)
  let ?b = "b\<lparr>pb_next := None\<rparr>" and ?E = "E(n := E n + 1)"
  let ?s = "put_pbuf q ?b s"
  have inv: "pbuf_inv s" "pbuf_inv ?s" using ok pbuf_inv_upd_next' [OF _ ok(2)] by (simp_all add: net_ok_def)
  have "refs_ok ?E ?s" using ok Some by (intro refs_ok_unlink [of E s q b n]) (simp_all add: net_ok_def)
  with inv have "net_ok ?E ?s" by (simp add: net_ok_def)
  from pbuf_free_ok [OF this, of n] obtain k s2 where s2: "pbuf_free (Some n) ?s = Some (k, s2)" "net_ok (?E(n := ?E n - 1)) s2" by auto
  have "?E(n := ?E n - 1) = E" by (auto simp: fun_eq_iff)
  with s2(2) have refs: "refs_ok E s2" by (simp add: net_ok_def)
  have "links (pbufs ?s) (Some n) vs" "plain (pbufs ?s) vs"
    unfolding net_simps upd_other_links [OF q] upd_other_plain [OF q] using links pl Some by simp_all
  from free_chain_exact [OF inv(2) this, of 0] s2(1)
  have free2: "pbufs s2 = (drop_run (pbufs s) vs)(q \<mapsto> ?b)" "customs s2 = customs s"
    using upd_other_drop [OF q, of "pbufs s"] by (auto simp: pbuf_free_def simp del: fun_upd_apply)
  from free_chain_exact [OF inv(1) links pl, of 0] Some obtain j s1 where
    s1: "pbuf_free (Some n) s = Some (j, s1)" "pbuf_inv s1" "pbufs s1 = drop_run (pbufs s) vs" "customs s1 = customs s" "same_rest s s1"
    by (auto simp: pbuf_free_def)
  have "pbufs s1 q = Some b" using s1(3) drop_run_outside [OF q] ok(2) by simp
  then have "pbuf_inv (put_pbuf q ?b s1)" by (rule pbuf_inv_upd_next' [OF s1(2)])
  moreover have "refs_ok E (put_pbuf q ?b s1)" by (rule refs_ok_cong [OF refs]) (use free2 s1(3,4) in simp_all)
  ultimately show ?thesis using s1 Some by (simp add: net_ok_def)
qed

lemma pbuf_realloc_ok:
  assumes ok: "net_ok E s" "0 < E p" and ch: "chain (pbufs s) (Some p) xs" and pl: "plain (pbufs s) xs"
    and len: "chain_len (pbufs s) xs < 65536" "new_len < chain_len (pbufs s) xs"
  shows "\<exists>us a vs b s'. xs = us @ a # vs \<and> chain_len (pbufs s) us \<le> new_len \<and> new_len - chain_len (pbufs s) us \<le> plen (pbufs s) a
    \<and> pbuf_realloc (Some p) new_len s = Some s' \<and> net_ok E s' \<and> customs s' = customs s \<and> same_rest s s' \<and> pbufs s a = Some b
    \<and> (\<forall>x. x \<in> set us \<longrightarrow> pbufs s' x = map_option (\<lambda>b. b\<lparr>pb_tot_len := pb_tot_len b - (chain_len (pbufs s) xs - new_len)\<rparr>) (pbufs s x))
    \<and> pbufs s' a = Some (b\<lparr>pb_len := new_len - chain_len (pbufs s) us, pb_tot_len := new_len - chain_len (pbufs s) us, pb_next := None\<rparr>)
    \<and> (\<forall>x. x \<notin> set (us @ [a]) \<longrightarrow> pbufs s' x = drop_run (pbufs s) vs x)"
proof -
  let ?d = "chain_len (pbufs s) xs - new_len" and ?g = "int new_len - int (chain_len (pbufs s) xs)"
  from realloc_walk_ok [OF ok(1) ch len(1) less_imp_le [OF len(2)] refl] obtain us a vs s1 where
    s1: "xs = us @ a # vs" "realloc_walk ?g p new_len s = Some (a, new_len - chain_len (pbufs s) us, s1)"
    "chain_len (pbufs s) us \<le> new_len" "new_len - chain_len (pbufs s) us \<le> plen (pbufs s) a" "net_ok E s1" "customs s1 = customs s"
    "same_rest s s1" "\<And>x. pbufs s1 x = (if x \<in> set us then map_option (\<lambda>b. b\<lparr>pb_tot_len := nat (int (pb_tot_len b) + ?g)\<rparr>) (pbufs s x) else pbufs s x)"
    by blast
  let ?rem = "new_len - chain_len (pbufs s) us"
  have dist: "a \<notin> set us" "a \<notin> set vs" "set us \<inter> set vs = {}" using chain_distinct [OF ch] s1(1) by auto
  obtain b where b: "pbufs s a = Some b" "0 < pb_ref b" "\<not> is_custom b" using pl s1(1) by auto
  have pla: "?rem \<le> pb_len b" "pb_len b < 65536" using s1(1,4) b(1) len(1) by (auto simp: plen_def)
  have b1: "pbufs s1 a = Some b" using s1(8) dist b by simp
  let ?b = "b\<lparr>pb_len := ?rem, pb_tot_len := ?rem\<rparr>"
  from realloc_trim [OF s1(5) b1 pla(1) b(3) pla(2)] obtain s2 where
    s2: "(if pb_type b = PBUF_RAM \<and> ?rem \<noteq> pb_len b \<and> \<not> is_custom b
      then Option.bind (pb_payload b) (\<lambda>payload. net_mem_trim a (to_u16 (nat ((int payload - int a) mod 65536) + ?rem)) s1)
      else Some (Some a, s1)) = Some (Some a, s2)"
    "pbufs s2 = pbufs s1" "customs s2 = customs s1" "same_rest s1 s2" "net_ok E (put_pbuf a ?b s2)" by blast
  let ?s = "put_pbuf a ?b s2"
  have vs: "links (pbufs s) (pb_next b) vs" using links_suffix [of "pbufs s" "Some p" us a vs] ch s1(1) b(1) by (simp add: chain_def)
  have same: "pbufs ?s x = pbufs s x" if "x \<in> set vs" for x using s1(8) s2(2) that dist by auto
  have vs': "links (pbufs ?s) (pb_next ?b) vs" "plain (pbufs ?s) vs"
    using links_cong [OF vs, of "pbufs ?s"] same pl s1(1) by (auto simp: plain_def list_all_iff simp del: net_simps)
  have at: "pbufs ?s a = Some ?b" "0 < pb_ref ?b" using b(2) by simp_all
  from free_rest [OF s2(5) at vs' dist(2)] obtain s3 where
    s3: "(if pb_next ?b \<noteq> None then map_option snd (pbuf_free (pb_next ?b) ?s) else Some ?s) = Some s3" "pbufs s3 = drop_run (pbufs ?s) vs"
    "customs s3 = customs ?s" "same_rest ?s s3" "net_ok E (put_pbuf a (?b\<lparr>pb_next := None\<rparr>) s3)" by blast
  have drop: "pbufs s3 = (drop_run (pbufs s1) vs)(a \<mapsto> ?b)"
    unfolding s3(2) net_simps s2(2) by (rule upd_other_drop [OF dist(2)])
  obtain pb where pb: "pbufs s p = Some pb" "pb_tot_len pb = chain_len (pbufs s) xs" using ch by (cases xs) (auto simp: chain_Cons plen_def)
  let ?s' = "put_pbuf a (?b\<lparr>pb_next := None\<rparr>) s3"
  have "pbuf_realloc (Some p) new_len s = Some ?s'"
    using pb len(2) s1(2) b1 s2(1) s3(1) drop by (simp add: pbuf_realloc_def upd_pbuf_Some s2(2))
  moreover have "pbufs ?s' x = map_option (\<lambda>b. b\<lparr>pb_tot_len := pb_tot_len b - ?d\<rparr>) (pbufs s x)" if "x \<in> set us" for x
  proof -
    have "nat (int n + ?g) = n - ?d" for n using len(2) by auto
    moreover have "pbufs ?s' x = pbufs s1 x" using drop that dist drop_run_outside [of x vs "pbufs s1"] by auto
    ultimately show ?thesis using s1(8) that by simp
  qed
  moreover have "pbufs ?s' x = drop_run (pbufs s) vs x" if "x \<notin> set (us @ [a])" for x
  proof -
    have "pbufs s1 y = pbufs s y" if "y \<notin> set us" for y using s1(8) that by simp
    moreover have "y \<notin> set us" if "y \<in> set vs" for y using dist(3) that by blast
    ultimately have "drop_run (pbufs s1) vs x = drop_run (pbufs s) vs x" using that by (intro drop_run_cong) simp_all
    then show ?thesis using drop that by simp
  qed
  moreover have "same_rest s ?s'" "customs ?s' = customs s" using s1(6,7) s2(3,4) s3(3,4) by (simp_all add: same_rest_def)
  ultimately show ?thesis
    using s1(1,3,4) s3(5) b(1) by (intro exI [of _ us] exI [of _ a] exI [of _ vs] exI [of _ b] exI [of _ ?s']) simp
qed

lemma links_prefix:
  "\<lbrakk>links P p (us @ a # vs); \<And>x. x \<in> set us \<Longrightarrow> map_option pb_next (P' x) = map_option pb_next (P x); P' a = Some c; pb_next c = None\<rbrakk>
   \<Longrightarrow> links P' p (us @ [a])"
proof (induction us arbitrary: p)
  case (Cons x us)
  then obtain b where b: "p = Some x" "P x = Some b" "links P (pb_next b) (us @ a # vs)" by (auto split: option.splits)
  with Cons.prems(2) [of x] obtain b' where "P' x = Some b'" "pb_next b' = pb_next b" by auto
  with b Cons.IH [OF b(3)] Cons.prems show ?case by simp
qed simp

lemma tot_ok_sub:
  "\<lbrakk>tot_ok (t + d) P us; \<And>x. x \<in> set us \<Longrightarrow> plen P' x = plen P x \<and> ptot P' x = ptot P x - d\<rbrakk> \<Longrightarrow> tot_ok t P' us"
proof (induction us)
  case (Cons x us)
  then have "chain_len P' us = chain_len P us" by (intro chain_len_cong) simp
  with Cons show ?case by simp
qed simp

lemma realloc_chain:
  assumes ch: "chain P (Some p) (us @ a # vs)" and a: "P a = Some b" "rem \<le> pb_len b"
    and us: "\<And>x. x \<in> set us \<Longrightarrow> P' x = map_option (\<lambda>b. b\<lparr>pb_tot_len := pb_tot_len b - (chain_len P (a # vs) - rem)\<rparr>) (P x)"
    and a': "P' a = Some (b\<lparr>pb_len := rem, pb_tot_len := rem, pb_next := None\<rparr>)"
  shows "chain P' (Some p) (us @ [a])" "chain_len P' (us @ [a]) = chain_len P us + rem"
proof -
  have links: "links P (Some p) (us @ a # vs)" and tot: "tot_ok (chain_len P (a # vs)) P us"
    using ch by (simp_all add: chain_def tot_ok_append)
  have same: "plen P' x = plen P x \<and> ptot P' x = ptot P x - (chain_len P (a # vs) - rem)" if "x \<in> set us" for x
    using us [OF that] by (auto simp: plen_def ptot_def split: option.splits)
  have "links P' (Some p) (us @ [a])"
    by (rule links_prefix [of P _ us a vs P', OF links _ a']) (use us in \<open>auto simp: option.map_comp intro!: option.map_cong\<close>)
  moreover have "rem + (chain_len P (a # vs) - rem) = chain_len P (a # vs)" using a by (simp add: plen_def)
  then have "tot_ok rem P' us" using tot same by (intro tot_ok_sub [of rem "chain_len P (a # vs) - rem" P]) simp_all
  ultimately show "chain P' (Some p) (us @ [a])" using a' by (simp add: chain_def tot_ok_append plen_def ptot_def)
  show "chain_len P' (us @ [a]) = chain_len P us + rem"
    using chain_len_cong [of us P' P] same a' by (simp add: plen_def)
qed

section \<open>Headers\<close>

text \<open>Hiding the first \<open>n\<close> bytes of a pbuf.\<close>

lemma pbuf_header_hide:
  assumes ok: "net_ok E s" and b: "pbufs s a = Some b" "pb_payload b = Some pl" and n: "0 < n" "n \<le> pb_len b" "n \<le> 32768"
    and len: "pb_len b \<le> pb_tot_len b" "pb_tot_len b < 65536"
    and room: "pb_type b = PBUF_RAM \<or> pb_type b = PBUF_POOL \<Longrightarrow> a + 16 \<le> pl"
  shows "pbuf_header_impl (Some a) (- int n) force s
      = Some (0, put_pbuf a (b\<lparr>pb_payload := Some (pl + n), pb_len := pb_len b - n, pb_tot_len := pb_tot_len b - n\<rparr>) s)"
    and "net_ok E (put_pbuf a (b\<lparr>pb_payload := Some (pl + n), pb_len := pb_len b - n, pb_tot_len := pb_tot_len b - n\<rparr>) s)"
proof -
  have "nat ((int m - int n) mod 65536) = m - n" if "n \<le> m" "m < 65536" for m
    using that by (simp flip: of_nat_diff)
  then have "add_s16 (pb_len b) (- int n) = pb_len b - n" "add_s16 (pb_tot_len b) (- int n) = pb_tot_len b - n"
    using n len by (simp_all add: add_s16_def)
  moreover have "to_u16 n = n" "nat (int pl + int n) = pl + n" using n by (simp_all add: to_u16_def)
  ultimately show "pbuf_header_impl (Some a) (- int n) force s
      = Some (0, put_pbuf a (b\<lparr>pb_payload := Some (pl + n), pb_len := pb_len b - n, pb_tot_len := pb_tot_len b - n\<rparr>) s)"
    using b n room by (cases "pb_type b") (auto simp: pbuf_header_impl_def)
  show "net_ok E (put_pbuf a (b\<lparr>pb_payload := Some (pl + n), pb_len := pb_len b - n, pb_tot_len := pb_tot_len b - n\<rparr>) s)"
    by (rule net_ok_put [OF ok b(1)]) (use n b(2) in \<open>auto simp: in_room_def is_custom_def\<close>)
qed

text \<open>Revealing \<open>n\<close> bytes in front, for a pbuf with memory of its own.\<close>

lemma pbuf_header_reveal:
  assumes ok: "net_ok E s" and b: "pbufs s a = Some b" "pb_payload b = Some pl" "pb_type b = PBUF_RAM \<or> pb_type b = PBUF_POOL"
    and n: "0 < n" "n \<le> 32767" "pb_len b \<le> pb_tot_len b" "pb_tot_len b + n < 65536"
  shows "a + 16 + n \<le> pl \<Longrightarrow> pbuf_header_impl (Some a) (int n) force s
      = Some (0, put_pbuf a (b\<lparr>pb_payload := Some (pl - n), pb_len := pb_len b + n, pb_tot_len := pb_tot_len b + n\<rparr>) s)"
    and "a + 16 + n \<le> pl \<Longrightarrow> net_ok E (put_pbuf a (b\<lparr>pb_payload := Some (pl - n), pb_len := pb_len b + n, pb_tot_len := pb_tot_len b + n\<rparr>) s)"
    and "pl < a + 16 + n \<Longrightarrow> pbuf_header_impl (Some a) (int n) force s = Some (1, s)"
proof -
  have "add_s16 (pb_len b) (int n) = pb_len b + n" "add_s16 (pb_tot_len b) (int n) = pb_tot_len b + n"
    using n by (simp_all add: add_s16_def nat_add_distrib flip: of_nat_add)
  then show "pbuf_header_impl (Some a) (int n) force s
      = Some (0, put_pbuf a (b\<lparr>pb_payload := Some (pl - n), pb_len := pb_len b + n, pb_tot_len := pb_tot_len b + n\<rparr>) s)"
    if "a + 16 + n \<le> pl" using that b n by (auto simp: pbuf_header_impl_def nat_diff_distrib)
  show "net_ok E (put_pbuf a (b\<lparr>pb_payload := Some (pl - n), pb_len := pb_len b + n, pb_tot_len := pb_tot_len b + n\<rparr>) s)"
    if "a + 16 + n \<le> pl"
    by (rule net_ok_put [OF ok b(1)]) (use that n b(2) in \<open>auto simp: in_room_def is_custom_def\<close>)
  show "pbuf_header_impl (Some a) (int n) force s = Some (1, s)" if "pl < a + 16 + n"
    using that b n by (auto simp: pbuf_header_impl_def)
qed

end
