(* ===== verification/Pbuf_Data.thy ===== *)
theory Pbuf_Data
  imports Pbuf_Chain
begin

text \<open>
  The operations of \<^verbatim>\<open>core/pbuf.c\<close> that read and write the payload: copying between chains and from and to buffers of the
  application, access to single bytes, comparison and search.

  A chain of pbufs stands for the byte string \<open>chain_data\<close>, the concatenation of its payloads; each operation is shown to act
  on that string as its documentation says, wherever the boundaries of the pbufs are, and to write to no other byte.
\<close>

section \<open>Definitions\<close>

subsection \<open>Memory\<close>

definition rd :: "(nat \<Rightarrow> u8) \<Rightarrow> nat \<Rightarrow> nat \<Rightarrow> u8 list" where
  "rd M a n = map M [a..<a + n]"

definition wr :: "(nat \<Rightarrow> u8) \<Rightarrow> nat \<Rightarrow> u8 list \<Rightarrow> nat \<Rightarrow> u8" where
  "wr M a xs = (\<lambda>x. if a \<le> x \<and> x < a + length xs then xs ! (x - a) else M x)"

text \<open>\<^verbatim>\<open>memcpy\<close>, undefined when the two areas overlap.\<close>

definition MEMCPY :: "nat \<Rightarrow> nat \<Rightarrow> nat \<Rightarrow> net \<Rightarrow> net option" where
  "MEMCPY dst src n s = (if n = 0 \<or> dst + n \<le> src \<or> src + n \<le> dst
     then Some (s\<lparr>bytes := wr (bytes s) dst (rd (bytes s) src n)\<rparr>) else None)"

subsection \<open>Copying\<close>

definition is_queue :: "ptr \<Rightarrow> net \<Rightarrow> bool option" where
  "is_queue p s = (case p of None \<Rightarrow> Some False
     | Some a \<Rightarrow> do { b \<leftarrow> pbufs s a; Some (pb_len b = pb_tot_len b \<and> pb_next b \<noteq> None) })"

partial_function (option) copy_loop :: "nat \<Rightarrow> nat \<Rightarrow> nat \<Rightarrow> nat \<Rightarrow> net \<Rightarrow> (err_t \<times> net) option" where
  "copy_loop p_to offset_to p_from offset_from s =
     Option.bind (pbufs s p_to) (\<lambda>tb. Option.bind (pbufs s p_from) (\<lambda>fb.
     let len = to_u16 (if pb_len tb - offset_to \<ge> pb_len fb - offset_from then pb_len fb - offset_from else pb_len tb - offset_to) in
     Option.bind (pb_payload tb) (\<lambda>tpl. Option.bind (pb_payload fb) (\<lambda>fpl.
     Option.bind (MEMCPY (tpl + offset_to) (fpl + offset_from) len s) (\<lambda>s.
     let offset_to = to_u16 (offset_to + len); offset_from = to_u16 (offset_from + len) in
     Option.bind (lwip_assert (offset_to \<le> pb_len tb)) (\<lambda>_. Option.bind (lwip_assert (offset_from \<le> pb_len fb)) (\<lambda>_.
     let (from', offset_from') = (if offset_from \<ge> pb_len fb then (pb_next fb, 0) else (Some p_from, offset_from));
         (to', offset_to') = (if offset_to = pb_len tb then (pb_next tb, 0) else (Some p_to, offset_to)) in
     if offset_to = pb_len tb \<and> \<not> (to' \<noteq> None \<or> from' = None) then Some (ERR_ARG, s)
     else Option.bind (is_queue from' s) (\<lambda>qf. if qf then Some (ERR_VAL, s)
     else Option.bind (is_queue to' s) (\<lambda>qt. if qt then Some (ERR_VAL, s)
     else case from' of
         None \<Rightarrow> Some (ERR_OK, s)
       | Some f \<Rightarrow> Option.bind to' (\<lambda>t. copy_loop t offset_to' f offset_from' s))))))))))"

definition pbuf_copy :: "ptr \<Rightarrow> ptr \<Rightarrow> net \<Rightarrow> (err_t \<times> net) option" where
  "pbuf_copy p_to p_from s =
     (case (p_to, p_from) of
        (Some t, Some f) \<Rightarrow> do {
          tb \<leftarrow> pbufs s t;
          fb \<leftarrow> pbufs s f;
          if pb_tot_len tb \<ge> pb_tot_len fb then copy_loop t 0 f 0 s else Some (ERR_ARG, s)
        }
      | _ \<Rightarrow> Some (ERR_ARG, s))"

partial_function (option) copy_partial_loop ::
  "nat \<Rightarrow> ptr \<Rightarrow> nat \<Rightarrow> nat \<Rightarrow> nat \<Rightarrow> nat \<Rightarrow> net \<Rightarrow> (nat \<times> net) option" where
  "copy_partial_loop dataptr p len offset left copied_total s =
     (case p of
        Some a \<Rightarrow>
          if len \<noteq> 0 then
            Option.bind (pbufs s a) (\<lambda>b.
            if offset \<noteq> 0 \<and> offset \<ge> pb_len b
            then copy_partial_loop dataptr (pb_next b) len (offset - pb_len b) left copied_total s
            else
              let n = to_u16 (pb_len b - offset); n = (if n > len then len else n) in
              Option.bind (pb_payload b) (\<lambda>pl.
              Option.bind (MEMCPY (dataptr + left) (pl + offset) n s) (\<lambda>s.
              copy_partial_loop dataptr (pb_next b) (len - n) 0 (to_u16 (left + n)) (to_u16 (copied_total + n)) s)))
          else Some (copied_total, s)
      | None \<Rightarrow> Some (copied_total, s))"

definition pbuf_copy_partial :: "ptr \<Rightarrow> ptr \<Rightarrow> nat \<Rightarrow> nat \<Rightarrow> net \<Rightarrow> (nat \<times> net) option" where
  "pbuf_copy_partial buf dataptr len offset s =
     (if buf = None then Some (0, s)
      else case dataptr of None \<Rightarrow> Some (0, s) | Some d \<Rightarrow> copy_partial_loop d buf len offset 0 0 s)"

partial_function (option) skip_loop :: "net \<Rightarrow> ptr \<Rightarrow> nat \<Rightarrow> (ptr \<times> nat) option" where
  "skip_loop s q offset_left =
     (case q of None \<Rightarrow> Some (None, offset_left)
      | Some a \<Rightarrow> Option.bind (pbufs s a) (\<lambda>b.
          if pb_len b \<le> offset_left then skip_loop s (pb_next b) (offset_left - pb_len b) else Some (Some a, offset_left)))"

definition pbuf_skip_const :: "ptr \<Rightarrow> nat \<Rightarrow> net \<Rightarrow> (ptr \<times> nat) option" where
  "pbuf_skip_const in_buf in_offset s = skip_loop s in_buf in_offset"

definition pbuf_skip :: "ptr \<Rightarrow> nat \<Rightarrow> net \<Rightarrow> (ptr \<times> nat) option" where
  "pbuf_skip in_buf in_offset s = pbuf_skip_const in_buf in_offset s"

partial_function (option) take_loop :: "nat \<Rightarrow> ptr \<Rightarrow> nat \<Rightarrow> nat \<Rightarrow> net \<Rightarrow> (nat \<times> net) option" where
  "take_loop dataptr p total_copy_len copied_total s =
     (if total_copy_len \<noteq> 0 then
        Option.bind p (\<lambda>a. Option.bind (pbufs s a) (\<lambda>b.
        let n = (if total_copy_len > pb_len b then pb_len b else total_copy_len) in
        Option.bind (pb_payload b) (\<lambda>pl.
        Option.bind (MEMCPY pl (dataptr + copied_total) n s) (\<lambda>s.
        take_loop dataptr (pb_next b) (total_copy_len - n) (to_u16 (copied_total + n)) s))))
      else Some (copied_total, s))"

definition pbuf_take :: "ptr \<Rightarrow> ptr \<Rightarrow> nat \<Rightarrow> net \<Rightarrow> (err_t \<times> net) option" where
  "pbuf_take buf dataptr len s =
     (if buf = None then Some (ERR_ARG, s)
      else case dataptr of
        None \<Rightarrow> Some (ERR_ARG, s)
      | Some d \<Rightarrow> do {
          b \<leftarrow> deref buf s;
          if \<not> pb_tot_len b \<ge> len then Some (ERR_MEM, s)
          else do {
            (copied_total, s) \<leftarrow> take_loop d buf len 0 s;
            lwip_assert (copied_total = len);
            Some (ERR_OK, s)
          }
        })"

definition pbuf_take_at :: "ptr \<Rightarrow> ptr \<Rightarrow> nat \<Rightarrow> nat \<Rightarrow> net \<Rightarrow> (err_t \<times> net) option" where
  "pbuf_take_at buf dataptr len offset s = do {
     (q, target_offset) \<leftarrow> pbuf_skip buf offset s;
     case q of
       None \<Rightarrow> Some (ERR_MEM, s)
     | Some a \<Rightarrow> do {
         b \<leftarrow> pbufs s a;
         if pb_tot_len b \<ge> target_offset + len then do {
           let first_copy_len = to_u16 (min (pb_len b - target_offset) len);
           pl \<leftarrow> pb_payload b;
           d \<leftarrow> dataptr;
           s \<leftarrow> MEMCPY (pl + target_offset) d first_copy_len s;
           let remaining_len = len - first_copy_len;
           if remaining_len > 0 then pbuf_take (pb_next b) (Some (d + first_copy_len)) remaining_len s
           else Some (ERR_OK, s)
         } else Some (ERR_MEM, s)
       }
   }"

definition pbuf_coalesce :: "nat \<Rightarrow> pbuf_layer \<Rightarrow> net \<Rightarrow> (nat \<times> net) option" where
  "pbuf_coalesce p layer s = do {
     b \<leftarrow> pbufs s p;
     if pb_next b = None then Some (p, s)
     else do {
       (q, s) \<leftarrow> pbuf_alloc layer (pb_tot_len b) PBUF_RAM s;
       case q of
         None \<Rightarrow> Some (p, s)
       | Some q \<Rightarrow> do {
           (err, s) \<leftarrow> pbuf_copy (Some q) (Some p) s;
           lwip_assert (err = ERR_OK);
           (_, s) \<leftarrow> pbuf_free (Some p) s;
           Some (q, s)
         }
     }
   }"

subsection \<open>Single bytes, comparison and search\<close>

definition pbuf_try_get_at :: "ptr \<Rightarrow> nat \<Rightarrow> net \<Rightarrow> int option" where
  "pbuf_try_get_at p offset s = do {
     (q, q_idx) \<leftarrow> pbuf_skip_const p offset s;
     case q of
       None \<Rightarrow> Some (-1)
     | Some a \<Rightarrow> do {
         b \<leftarrow> pbufs s a;
         if pb_len b > q_idx then do { pl \<leftarrow> pb_payload b; Some (uint (bytes s (pl + q_idx))) } else Some (-1)
       }
   }"

definition pbuf_get_at :: "ptr \<Rightarrow> nat \<Rightarrow> net \<Rightarrow> u8 option" where
  "pbuf_get_at p offset s = do {
     ret \<leftarrow> pbuf_try_get_at p offset s;
     Some (if ret \<ge> 0 then word_of_int ret else 0)
   }"

definition pbuf_put_at :: "ptr \<Rightarrow> nat \<Rightarrow> u8 \<Rightarrow> net \<Rightarrow> net option" where
  "pbuf_put_at p offset data s = do {
     (q, q_idx) \<leftarrow> pbuf_skip p offset s;
     case q of
       None \<Rightarrow> Some s
     | Some a \<Rightarrow> do {
         b \<leftarrow> pbufs s a;
         if pb_len b > q_idx
         then do { pl \<leftarrow> pb_payload b; Some (s\<lparr>bytes := (bytes s)(pl + q_idx := data)\<rparr>) }
         else Some s
       }
   }"

function memcmp_loop :: "ptr \<Rightarrow> nat \<Rightarrow> nat \<Rightarrow> nat \<Rightarrow> nat \<Rightarrow> net \<Rightarrow> nat option" where
  "memcmp_loop q start s2 n i s =
     (if i < n then do {
        a \<leftarrow> pbuf_get_at q (to_u16 (start + i)) s;
        let b = bytes s (s2 + i);
        if a \<noteq> b then Some (to_u16 (i + 1)) else memcmp_loop q start s2 n (i + 1) s
      } else Some 0)"
  by pat_completeness auto
termination memcmp_loop
  by (relation "measure (\<lambda>(q, start, s2, n, i, s). n - i)") auto

definition pbuf_memcmp :: "nat \<Rightarrow> nat \<Rightarrow> nat \<Rightarrow> nat \<Rightarrow> net \<Rightarrow> nat option" where
  "pbuf_memcmp p offset s2 n s = do {
     b \<leftarrow> pbufs s p;
     if pb_tot_len b < offset + n then Some 0xffff
     else do {
       (q, start) \<leftarrow> skip_loop s (Some p) offset;
       memcmp_loop q start s2 n 0 s
     }
   }"

partial_function (option) memfind_loop :: "nat \<Rightarrow> nat \<Rightarrow> nat \<Rightarrow> nat \<Rightarrow> nat \<Rightarrow> net \<Rightarrow> nat option" where
  "memfind_loop p mem mem_len max' i s =
     (if i \<le> max' then
        Option.bind (pbuf_memcmp p i mem mem_len s) (\<lambda>plus.
        if plus = 0 then Some i else memfind_loop p mem mem_len max' (to_u16 (i + 1)) s)
      else Some 0xFFFF)"

definition pbuf_memfind :: "nat \<Rightarrow> nat \<Rightarrow> nat \<Rightarrow> nat \<Rightarrow> net \<Rightarrow> nat option" where
  "pbuf_memfind p mem mem_len start_offset s = do {
     b \<leftarrow> pbufs s p;
     let max' = nat ((int (pb_tot_len b) - int mem_len) mod 65536);
     if pb_tot_len b \<ge> mem_len + start_offset then memfind_loop p mem mem_len max' start_offset s
     else Some 0xFFFF
   }"

text \<open>\<^verbatim>\<open>strlen\<close> of the C library; a string that is not terminated has no length.\<close>

partial_function (option) c_strlen :: "(nat \<Rightarrow> u8) \<Rightarrow> nat \<Rightarrow> nat option" where
  "c_strlen M a = (if M a = 0 then Some 0 else Option.bind (c_strlen M (a + 1)) (\<lambda>n. Some (n + 1)))"

definition pbuf_strstr :: "nat \<Rightarrow> ptr \<Rightarrow> net \<Rightarrow> nat option" where
  "pbuf_strstr p substr s =
     (case substr of
        None \<Rightarrow> Some 0xFFFF
      | Some a \<Rightarrow> do {
          b \<leftarrow> pbufs s p;
          if bytes s a = 0 \<or> pb_tot_len b = 0xFFFF then Some 0xFFFF
          else do {
            substr_len \<leftarrow> c_strlen (bytes s) a;
            if substr_len \<ge> 0xFFFF then Some 0xFFFF else pbuf_memfind p a substr_len 0 s
          }
        })"


section \<open>Memory\<close>

lemma length_rd [simp]: "length (rd M a n) = n"
  by (simp add: rd_def)

lemma rd_0 [simp]: "rd M a 0 = []"
  by (simp add: rd_def)

lemma nth_rd [simp]: "i < n \<Longrightarrow> rd M a n ! i = M (a + i)"
  by (simp add: rd_def)

lemma take_rd [simp]: "take m (rd M a n) = rd M a (min m n)"
  by (rule nth_equalityI) auto

lemma drop_rd [simp]: "drop m (rd M a n) = rd M (a + m) (n - m)"
  by (rule nth_equalityI) (auto simp: add.assoc)

lemma wr_Nil [simp]: "wr M a [] = M"
  by (auto simp: wr_def fun_eq_iff)

lemma wr_append: "wr (wr M a xs) (a + length xs) ys = wr M a (xs @ ys)"
  by (auto simp: wr_def fun_eq_iff nth_append)

lemma rd_wr [simp]: "rd (wr M a xs) a (length xs) = xs"
  by (rule nth_equalityI) (auto simp: wr_def)

text \<open>Two areas without a common byte.\<close>

definition apart :: "nat \<Rightarrow> nat \<Rightarrow> nat \<Rightarrow> nat \<Rightarrow> bool" where
  "apart a n b m \<longleftrightarrow> n = 0 \<or> m = 0 \<or> a + n \<le> b \<or> b + m \<le> a"

lemma apart_sym: "apart a n b m \<Longrightarrow> apart b m a n"
  by (auto simp: apart_def)

lemma apart_sub: "\<lbrakk>apart a n b m; i + n' \<le> n; j + m' \<le> m\<rbrakk> \<Longrightarrow> apart (a + i) n' (b + j) m'"
  by (auto simp: apart_def)

lemma rd_wr_apart: "apart a (length xs) b n \<Longrightarrow> rd (wr M a xs) b n = rd M b n"
  by (rule nth_equalityI) (auto simp: wr_def apart_def)

lemma MEMCPY_apart: "apart dst n src n \<Longrightarrow> MEMCPY dst src n s = Some (s\<lparr>bytes := wr (bytes s) dst (rd (bytes s) src n)\<rparr>)"
  by (auto simp: MEMCPY_def apart_def)


section \<open>The data of a chain\<close>

definition pbytes :: "(nat \<rightharpoonup> pbuf) \<Rightarrow> (nat \<Rightarrow> u8) \<Rightarrow> nat \<Rightarrow> u8 list" where
  "pbytes P M x = (case P x of None \<Rightarrow> [] | Some b \<Rightarrow> (case pb_payload b of None \<Rightarrow> [] | Some pl \<Rightarrow> rd M pl (pb_len b)))"

definition chain_data :: "(nat \<rightharpoonup> pbuf) \<Rightarrow> (nat \<Rightarrow> u8) \<Rightarrow> nat list \<Rightarrow> u8 list" where
  "chain_data P M xs = concat (map (pbytes P M) xs)"

text \<open>Every pbuf of \<open>xs\<close> has a payload, which satisfies \<open>Q\<close> (its address and length).\<close>

definition payloads :: "(nat \<Rightarrow> nat \<Rightarrow> bool) \<Rightarrow> (nat \<rightharpoonup> pbuf) \<Rightarrow> nat list \<Rightarrow> bool" where
  "payloads Q P xs \<longleftrightarrow> list_all (\<lambda>x. case P x of None \<Rightarrow> False
     | Some b \<Rightarrow> (case pb_payload b of None \<Rightarrow> False | Some pl \<Rightarrow> Q pl (pb_len b))) xs"

lemma payloads_simps [simp]:
  "payloads Q P []"
  "payloads Q P (a # as) \<longleftrightarrow> (\<exists>b pl. P a = Some b \<and> pb_payload b = Some pl \<and> Q pl (pb_len b)) \<and> payloads Q P as"
  "payloads Q P (xs @ ys) \<longleftrightarrow> payloads Q P xs \<and> payloads Q P ys"
  by (auto simp: payloads_def split: option.splits)

lemma payloads_mono: "payloads Q P xs \<Longrightarrow> (\<And>a n. Q a n \<Longrightarrow> R a n) \<Longrightarrow> payloads R P xs"
  by (induction xs) auto

lemma chain_data_simps [simp]:
  "chain_data P M [] = []" "chain_data P M (a # as) = pbytes P M a @ chain_data P M as"
  "chain_data P M (xs @ ys) = chain_data P M xs @ chain_data P M ys"
  by (simp_all add: chain_data_def)

lemma pbytes_eq: "P a = Some b \<Longrightarrow> pb_payload b = Some pl \<Longrightarrow> pbytes P M a = rd M pl (pb_len b)"
  by (simp add: pbytes_def)

lemma length_chain_data: "payloads Q P xs \<Longrightarrow> length (chain_data P M xs) = chain_len P xs"
  by (induction xs) (auto simp: pbytes_def plen_def)

text \<open>Writing to an area apart from the payloads leaves the data alone.\<close>

lemma chain_data_wr:
  "payloads (apart d (length zs)) P xs \<Longrightarrow> chain_data P (wr M d zs) xs = chain_data P M xs"
  by (induction xs) (auto simp: pbytes_def rd_wr_apart)

lemma pbytes_cong: "same_data P P' x \<Longrightarrow> pbytes P' M x = pbytes P M x"
  by (auto simp: pbytes_def same_data_def split: option.splits)

lemma chain_data_cong:
  "(\<And>x. x \<in> set xs \<Longrightarrow> same_data P P' x) \<Longrightarrow> chain_data P' M xs = chain_data P M xs"
  by (induction xs) (simp_all add: pbytes_cong)

lemma bytes_upd_simps [simp]:
  "pbufs (s\<lparr>bytes := M\<rparr>) = pbufs s" "s\<lparr>bytes := M, bytes := M'\<rparr> = s\<lparr>bytes := M'\<rparr>"
  by simp_all


section \<open>Copying to and from buffers\<close>

lemma copy_partial_loop_eq:
  assumes "links (pbufs s) p xs" "payloads (apart (d + left) len) (pbufs s) xs" "left + len < 65536" "tot + len < 65536"
    "chain_len (pbufs s) xs < 65536"
  shows "copy_partial_loop d p len offset left tot s =
    (let zs = take len (drop offset (chain_data (pbufs s) (bytes s) xs))
     in Some (tot + length zs, s\<lparr>bytes := wr (bytes s) (d + left) zs\<rparr>))"
  using assms
proof (induction xs arbitrary: p len offset left tot s)
  case Nil
  then show ?case by (subst copy_partial_loop.simps) simp
next
  case (Cons a xs)
  then obtain b pl where b: "p = Some a" "pbufs s a = Some b" "links (pbufs s) (pb_next b) xs" "pb_payload b = Some pl"
    "apart (d + left) len pl (pb_len b)" by (auto split: option.splits)
  have pb: "pbytes (pbufs s) (bytes s) a = rd (bytes s) pl (pb_len b)" "plen (pbufs s) a = pb_len b"
    using b by (simp_all add: pbytes_eq plen_def)
  note D = chain_data_simps(2) [of "pbufs s" "bytes s" a xs, unfolded pb(1)]
  consider "len = 0" | "len \<noteq> 0" "offset \<noteq> 0" "offset \<ge> pb_len b" | "len \<noteq> 0" "offset = 0 \<or> offset < pb_len b" by linarith
  then show ?case
  proof cases
    case 1
    then show ?thesis using b(1) by (subst copy_partial_loop.simps) simp
  next
    case 2
    have "copy_partial_loop d p len offset left tot s = copy_partial_loop d (pb_next b) len (offset - pb_len b) left tot s"
      using 2 b by (subst copy_partial_loop.simps) simp
    also have "\<dots> = (let zs = take len (drop (offset - pb_len b) (chain_data (pbufs s) (bytes s) xs))
       in Some (tot + length zs, s\<lparr>bytes := wr (bytes s) (d + left) zs\<rparr>))"
      using Cons.prems b(3) by (intro Cons.IH) simp_all
    finally show ?thesis unfolding D using 2 by simp
  next
    case 3
    let ?n = "min (pb_len b - offset) len"
    let ?zs = "rd (bytes s) (pl + offset) ?n"
    let ?s = "s\<lparr>bytes := wr (bytes s) (d + left) ?zs\<rparr>"
    have u16: "to_u16 (pb_len b - offset) = pb_len b - offset" "to_u16 (left + ?n) = left + ?n" "to_u16 (tot + ?n) = tot + ?n"
      using Cons.prems(3-5) pb(2) by (auto simp: to_u16_def)
    have "apart (d + left + 0) ?n (pl + offset) ?n" using b(5) 3(2) by (intro apart_sub [OF b(5)]) auto
    then have cpy: "MEMCPY (d + left) (pl + offset) ?n s = Some ?s" by (simp add: MEMCPY_apart)
    have clear: "payloads (apart (d + left) ?n) (pbufs s) xs" "payloads (apart (d + (left + ?n)) (len - ?n)) (pbufs s) xs"
      using Cons.prems(2) apart_sub [of "d + left" len _ _ 0 ?n 0] apart_sub [of "d + left" len _ _ ?n "len - ?n" 0]
      by (auto elim!: payloads_mono simp: add.assoc)
    have "copy_partial_loop d p len offset left tot s = copy_partial_loop d (pb_next b) (len - ?n) 0 (left + ?n) (tot + ?n) ?s"
      using 3 b(1,2,4) u16 cpy by (subst copy_partial_loop.simps) (auto simp: Let_def min_def)
    also have "\<dots> = (let zs = take (len - ?n) (drop 0 (chain_data (pbufs ?s) (bytes ?s) xs))
       in Some (tot + ?n + length zs, ?s\<lparr>bytes := wr (bytes ?s) (d + (left + ?n)) zs\<rparr>))"
      using Cons.prems(3-5) b(3) clear(2) by (intro Cons.IH) simp_all
    also have "chain_data (pbufs ?s) (bytes ?s) xs = chain_data (pbufs s) (bytes s) xs"
      using chain_data_wr [of "d + left" ?zs "pbufs s" xs] clear(1) by simp
    also have "(let zs = take (len - ?n) (drop 0 (chain_data (pbufs s) (bytes s) xs))
        in Some (tot + ?n + length zs, ?s\<lparr>bytes := wr (bytes ?s) (d + (left + ?n)) zs\<rparr>))
      = (let zs = ?zs @ take (len - ?n) (chain_data (pbufs s) (bytes s) xs)
        in Some (tot + length zs, s\<lparr>bytes := wr (bytes s) (d + left) zs\<rparr>))"
      using wr_append [of "bytes s" "d + left" ?zs] by (simp add: Let_def add.assoc)
    also have "?zs @ take (len - ?n) (chain_data (pbufs s) (bytes s) xs) = take len (drop offset (chain_data (pbufs s) (bytes s) (a # xs)))"
      unfolding D using 3(2) by (auto simp: min_def take_append)
    finally show ?thesis .
  qed
qed

text \<open>The payloads of a chain do not overlap.\<close>

fun separate :: "(nat \<rightharpoonup> pbuf) \<Rightarrow> nat list \<Rightarrow> bool" where
  "separate P [] \<longleftrightarrow> True"
| "separate P (a # as) \<longleftrightarrow> (\<forall>b pl. P a = Some b \<longrightarrow> pb_payload b = Some pl \<longrightarrow> payloads (apart pl (pb_len b)) P as) \<and> separate P as"

text \<open>\<open>M'\<close> differs from \<open>M\<close> only in the payloads of \<open>xs\<close>.\<close>

definition within :: "(nat \<rightharpoonup> pbuf) \<Rightarrow> nat list \<Rightarrow> (nat \<Rightarrow> u8) \<Rightarrow> (nat \<Rightarrow> u8) \<Rightarrow> bool" where
  "within P xs M M' \<longleftrightarrow> (\<forall>a n. payloads (apart a n) P xs \<longrightarrow> rd M' a n = rd M a n)"

lemma within_refl [simp]: "within P xs M M"
  by (simp add: within_def)

lemma within_trans: "within P xs M M' \<Longrightarrow> within P xs M' M'' \<Longrightarrow> within P xs M M''"
  by (simp add: within_def)

lemma within_sub: "within P xs M M' \<Longrightarrow> within P (us @ xs @ vs) M M'"
  by (simp add: within_def)

lemma within_wr:
  assumes "P a = Some b" "pb_payload b = Some pl" "k + length zs \<le> pb_len b"
  shows "within P [a] M (wr M (pl + k) zs)"
  unfolding within_def
proof (intro allI impI)
  fix x n assume "payloads (apart x n) P [a]"
  with assms have "apart pl (pb_len b) x n" by (simp add: apart_sym)
  from apart_sub [OF this assms(3), of 0 n] show "rd (wr M (pl + k) zs) x n = rd M x n" by (simp add: rd_wr_apart)
qed

lemma within_data:
  assumes "within P us M M'" "\<And>pl n. P a = Some b \<Longrightarrow> pb_payload b = Some pl \<Longrightarrow> payloads (apart pl (pb_len b)) P us" "P a = Some b"
  shows "pbytes P M' a = pbytes P M a"
  using assms by (auto simp: pbytes_def within_def split: option.splits)

lemma rd_split: "m \<le> n \<Longrightarrow> rd M a n = rd M a m @ rd M (a + m) (n - m)"
  using append_take_drop_id [of m "rd M a n"] by (simp add: min_absorb1)

lemma rd_wr_prefix: "length zs \<le> n \<Longrightarrow> rd (wr M a zs) a n = zs @ drop (length zs) (rd M a n)"
  using rd_split [of "length zs" n "wr M a zs" a] rd_wr_apart [of a zs "a + length zs" "n - length zs" M]
  by (simp add: apart_def)

lemma chain_data_apart_wr:
  "payloads (apart pl (pb_len b)) P xs \<Longrightarrow> n \<le> pb_len b \<Longrightarrow> length zs = n \<Longrightarrow> chain_data P (wr M pl zs) xs = chain_data P M xs"
  by (intro chain_data_wr) (auto elim!: payloads_mono dest: apart_sub [where i = 0 and n' = n and j = 0 and m' = "_"] simp: apart_def)

lemma take_loop_eq:
  assumes "links (pbufs s) p xs" "payloads (apart (d + tot) len) (pbufs s) xs" "separate (pbufs s) xs" "tot + len < 65536"
    "len \<le> chain_len (pbufs s) xs"
  shows "\<exists>M'. take_loop d p len tot s = Some (tot + len, s\<lparr>bytes := M'\<rparr>) \<and> within (pbufs s) xs (bytes s) M'
    \<and> chain_data (pbufs s) M' xs = rd (bytes s) (d + tot) len @ drop len (chain_data (pbufs s) (bytes s) xs)"
  using assms
proof (induction xs arbitrary: p len tot s)
  case Nil
  then show ?case by (subst take_loop.simps) (auto intro!: exI [of _ "bytes s"])
next
  case (Cons a xs)
  then obtain b pl where b: "p = Some a" "pbufs s a = Some b" "links (pbufs s) (pb_next b) xs" "pb_payload b = Some pl"
    "apart (d + tot) len pl (pb_len b)" "payloads (apart pl (pb_len b)) (pbufs s) xs" by (auto split: option.splits)
  have pb: "pbytes (pbufs s) M a = rd M pl (pb_len b)" "plen (pbufs s) a = pb_len b" for M
    using b by (simp_all add: pbytes_eq plen_def)
  show ?case
  proof (cases "len = 0")
    case True
    then show ?thesis by (subst take_loop.simps) (auto intro!: exI [of _ "bytes s"])
  next
    case False
    let ?P = "pbufs s" and ?n = "min len (pb_len b)"
    let ?zs = "rd (bytes s) (d + tot) ?n"
    let ?M = "wr (bytes s) pl ?zs"
    have "apart pl ?n (d + tot) ?n" using apart_sub [OF apart_sym [OF b(5)], of 0 ?n 0 ?n] by simp
    then have cpy: "MEMCPY pl (d + tot) ?n s = Some (s\<lparr>bytes := ?M\<rparr>)" by (rule MEMCPY_apart)
    have step: "take_loop d p len tot s = take_loop d (pb_next b) (len - ?n) (tot + ?n) (s\<lparr>bytes := ?M\<rparr>)"
      using False b(1,2,4) cpy Cons.prems(4) by (subst take_loop.simps) (auto simp: Let_def min_def to_u16_def)
    have clear: "payloads (apart (d + (tot + ?n)) (len - ?n)) ?P xs"
      using Cons.prems(2) apart_sub [of "d + tot" len _ _ ?n "len - ?n" 0] by (auto elim!: payloads_mono simp: add.assoc)
    have src: "rd ?M (d + (tot + ?n)) (len - ?n) = rd (bytes s) (d + (tot + ?n)) (len - ?n)"
      using apart_sub [OF apart_sym [OF b(5)], of 0 ?n ?n "len - ?n"] by (intro rd_wr_apart) (simp add: add.assoc)
    have dat: "chain_data ?P ?M xs = chain_data ?P (bytes s) xs" by (rule chain_data_apart_wr [OF b(6), of ?n]) simp_all
    have "\<exists>M'. take_loop d (pb_next b) (len - ?n) (tot + ?n) (s\<lparr>bytes := ?M\<rparr>) = Some (tot + ?n + (len - ?n), s\<lparr>bytes := ?M\<rparr>\<lparr>bytes := M'\<rparr>)
        \<and> within ?P xs ?M M' \<and> chain_data ?P M' xs = rd ?M (d + (tot + ?n)) (len - ?n) @ drop (len - ?n) (chain_data ?P ?M xs)"
      using Cons.IH [of "s\<lparr>bytes := ?M\<rparr>" "pb_next b" "tot + ?n" "len - ?n"] b(3) clear Cons.prems(3-5) pb(2) by (simp add: add.assoc)
    then obtain M' where M': "take_loop d p len tot s = Some (tot + len, s\<lparr>bytes := M'\<rparr>)" "within ?P xs ?M M'"
      "chain_data ?P M' xs = rd (bytes s) (d + (tot + ?n)) (len - ?n) @ drop (len - ?n) (chain_data ?P (bytes s) xs)"
      unfolding step src dat by auto
    have "within ?P [a] (bytes s) ?M" using within_wr [of ?P a b pl 0 ?zs] b(2,4) by simp
    then have "within ?P (a # xs) (bytes s) M'"
      using within_sub [OF M'(2), of "[a]" "[]"] within_sub [of ?P "[a]" _ _ "[]" xs] within_trans by fastforce
    moreover have "pbytes ?P M' a = pbytes ?P ?M a" using b(2,4,6) by (intro within_data [OF M'(2)]) auto
    then have "pbytes ?P M' a = ?zs @ drop ?n (rd (bytes s) pl (pb_len b))" unfolding pb using rd_wr_prefix [of ?zs "pb_len b"] by simp
    then have "chain_data ?P M' (a # xs) = rd (bytes s) (d + tot) len @ drop len (chain_data ?P (bytes s) (a # xs))"
      using M'(3) rd_split [of ?n len "bytes s" "d + tot"] by (auto simp: pb(1) min_def add.assoc)
    ultimately show ?thesis using M'(1) by blast
  qed
qed

lemma pbuf_take_eq:
  assumes ch: "chain (pbufs s) (Some p) xs" and pl: "payloads (apart d len) (pbufs s) xs" "separate (pbufs s) xs"
    and len: "len < 65536" "chain_len (pbufs s) xs < 65536"
  shows "if len \<le> chain_len (pbufs s) xs
    then \<exists>M'. pbuf_take (Some p) (Some d) len s = Some (ERR_OK, s\<lparr>bytes := M'\<rparr>) \<and> within (pbufs s) xs (bytes s) M'
      \<and> chain_data (pbufs s) M' xs = rd (bytes s) d len @ drop len (chain_data (pbufs s) (bytes s) xs)
    else pbuf_take (Some p) (Some d) len s = Some (ERR_MEM, s)"
proof -
  obtain b where b: "pbufs s p = Some b" "pb_tot_len b = chain_len (pbufs s) xs"
    using ch chain_tot_len [OF ch] by (cases xs) (auto simp: chain_Cons ptot_def)
  have links: "links (pbufs s) (Some p) xs" using ch by (simp add: chain_def)
  show ?thesis
  proof (cases "len \<le> chain_len (pbufs s) xs")
    case True
    with take_loop_eq [OF links, of d 0 len] pl len obtain M' where
      "take_loop d (Some p) len 0 s = Some (len, s\<lparr>bytes := M'\<rparr>)" "within (pbufs s) xs (bytes s) M'"
      "chain_data (pbufs s) M' xs = rd (bytes s) d len @ drop len (chain_data (pbufs s) (bytes s) xs)" by auto
    with True b show ?thesis by (auto simp: pbuf_take_def deref_def)
  next
    case False
    with b show ?thesis by (auto simp: pbuf_take_def deref_def)
  qed
qed

section \<open>Single bytes\<close>

lemma skip_loop_eq:
  "links (pbufs s) p xs \<Longrightarrow>
   (if off < chain_len (pbufs s) xs
    then \<exists>us a vs. xs = us @ a # vs \<and> chain_len (pbufs s) us \<le> off \<and> off - chain_len (pbufs s) us < plen (pbufs s) a
      \<and> skip_loop s p off = Some (Some a, off - chain_len (pbufs s) us)
    else skip_loop s p off = Some (None, off - chain_len (pbufs s) xs))"
proof (induction xs arbitrary: p off)
  case Nil
  then show ?case by (subst skip_loop.simps) simp
next
  case (Cons x xs)
  then obtain b where b: "p = Some x" "pbufs s x = Some b" "links (pbufs s) (pb_next b) xs" by (auto split: option.splits)
  have pl: "plen (pbufs s) x = pb_len b" using b(2) by (simp add: plen_def)
  show ?case
  proof (cases "pb_len b \<le> off")
    case False
    then have "skip_loop s p off = Some (Some x, off)" using b by (subst skip_loop.simps) simp
    then show ?thesis using False pl by (simp, intro exI [of _ "[]"] exI [of _ x] exI [of _ xs], simp)
  next
    case True
    have step: "skip_loop s p off = skip_loop s (pb_next b) (off - pb_len b)" using True b by (subst skip_loop.simps) simp
    show ?thesis
    proof (cases "off < chain_len (pbufs s) (x # xs)")
      case True': True
      then have "off - pb_len b < chain_len (pbufs s) xs" using True pl by simp
      with Cons.IH [OF b(3), of "off - pb_len b"] obtain us a vs where
        "xs = us @ a # vs" "chain_len (pbufs s) us \<le> off - pb_len b" "off - pb_len b - chain_len (pbufs s) us < plen (pbufs s) a"
        "skip_loop s p off = Some (Some a, off - pb_len b - chain_len (pbufs s) us)" using step by auto
      then have "x # xs = (x # us) @ a # vs" "chain_len (pbufs s) (x # us) \<le> off" "off - chain_len (pbufs s) (x # us) < plen (pbufs s) a"
        "skip_loop s p off = Some (Some a, off - chain_len (pbufs s) (x # us))" using True pl by auto
      with True' show ?thesis by (metis (no_types))
    next
      case False
      with Cons.IH [OF b(3), of "off - pb_len b"] step pl show ?thesis by simp
    qed
  qed
qed

text \<open>The position of a byte of the data in the memory.\<close>

lemma data_position:
  assumes "links (pbufs s) p xs" "payloads Q (pbufs s) xs" "off < chain_len (pbufs s) xs"
  obtains us a vs b pl where "xs = us @ a # vs" "pbufs s a = Some b" "pb_payload b = Some pl" "chain_len (pbufs s) us \<le> off"
    "off - chain_len (pbufs s) us < pb_len b" "skip_loop s p off = Some (Some a, off - chain_len (pbufs s) us)"
    "chain_data (pbufs s) M xs ! off = M (pl + (off - chain_len (pbufs s) us))"
proof -
  from skip_loop_eq [OF assms(1), of off] assms(3) obtain us a vs where
    x: "xs = us @ a # vs" "chain_len (pbufs s) us \<le> off" "off - chain_len (pbufs s) us < plen (pbufs s) a"
    "skip_loop s p off = Some (Some a, off - chain_len (pbufs s) us)" by auto
  from assms(2) x(1) obtain b pl where b: "pbufs s a = Some b" "pb_payload b = Some pl" by auto
  have "length (chain_data (pbufs s) M us) = chain_len (pbufs s) us" using assms(2) x(1) by (auto intro: length_chain_data)
  then have "chain_data (pbufs s) M xs ! off = M (pl + (off - chain_len (pbufs s) us))"
    using x(2,3) b unfolding x(1) by (simp add: nth_append pbytes_eq plen_def)
  with x b that show ?thesis by (auto simp: plen_def)
qed

lemma try_get_at_eq:
  assumes "links (pbufs s) p xs" "payloads Q (pbufs s) xs"
  shows "pbuf_try_get_at p off s = Some (if off < chain_len (pbufs s) xs then uint (chain_data (pbufs s) (bytes s) xs ! off) else -1)"
proof (cases "off < chain_len (pbufs s) xs")
  case True
  show ?thesis
  proof (rule data_position [OF assms True, where M = "bytes s"])
    fix us a vs b pl
    assume "pbufs s a = Some b" "pb_payload b = Some pl" "off - chain_len (pbufs s) us < pb_len b"
      "skip_loop s p off = Some (Some a, off - chain_len (pbufs s) us)"
      "chain_data (pbufs s) (bytes s) xs ! off = bytes s (pl + (off - chain_len (pbufs s) us))"
    with True show ?thesis by (simp add: pbuf_try_get_at_def pbuf_skip_const_def)
  qed
next
  case False
  with skip_loop_eq [OF assms(1), of off] show ?thesis by (simp add: pbuf_try_get_at_def pbuf_skip_const_def)
qed

lemma get_at_eq:
  assumes "links (pbufs s) p xs" "payloads Q (pbufs s) xs"
  shows "pbuf_get_at p off s = Some (if off < chain_len (pbufs s) xs then chain_data (pbufs s) (bytes s) xs ! off else 0)"
  by (simp add: pbuf_get_at_def try_get_at_eq [OF assms])

lemma wr_single: "M(a := x) = wr M a [x]"
  by (auto simp: wr_def fun_eq_iff)

lemma separate_middle:
  assumes "separate P (us @ a # vs)" "P a = Some b" "pb_payload b = Some pl" "payloads Q P (us @ a # vs)"
  shows "payloads (apart pl (pb_len b)) P us" "payloads (apart pl (pb_len b)) P vs"
proof -
  show "payloads (apart pl (pb_len b)) P vs" using assms(1-3) by (induction us) auto
  show "payloads (apart pl (pb_len b)) P us" using assms
    by (induction us) (auto intro: apart_sym)
qed

text \<open>Writing inside one pbuf of the chain changes that part of the data.\<close>

lemma chain_data_write:
  assumes sep: "separate P (us @ a # vs)" "payloads Q P (us @ a # vs)" and b: "P a = Some b" "pb_payload b = Some pl"
    and k: "k + length zs \<le> pb_len b" and off: "off = chain_len P us + k"
  shows "chain_data P (wr M (pl + k) zs) (us @ a # vs) =
      take off (chain_data P M (us @ a # vs)) @ zs @ drop (off + length zs) (chain_data P M (us @ a # vs))"
    and "within P (us @ a # vs) M (wr M (pl + k) zs)"
proof -
  let ?M = "wr M (pl + k) zs"
  have w: "within P [a] M ?M" using within_wr [of P a b pl k zs] b k by simp
  from within_sub [OF w, of us vs] show "within P (us @ a # vs) M ?M" by simp
  note ap = separate_middle [OF sep(1) b sep(2)]
  have "apart (pl + k) (length zs) x n" if "apart pl (pb_len b) x n" for x n
    using apart_sub [OF that k, of 0 n] by simp
  then have "chain_data P ?M us = chain_data P M us" "chain_data P ?M vs = chain_data P M vs"
    using ap by (auto intro!: chain_data_wr elim!: payloads_mono)
  moreover have "rd ?M pl (pb_len b) = rd M pl k @ zs @ drop (k + length zs) (rd M pl (pb_len b))"
  proof -
    have "rd ?M pl (pb_len b) = rd ?M pl k @ rd ?M (pl + k) (pb_len b - k)" using k by (intro rd_split) simp
    moreover have "rd ?M pl k = rd M pl k" by (rule rd_wr_apart) (simp add: apart_def)
    moreover have "rd ?M (pl + k) (pb_len b - k) = zs @ drop (length zs) (rd M (pl + k) (pb_len b - k))"
      using k by (intro rd_wr_prefix) simp
    ultimately show ?thesis by (simp add: add.assoc)
  qed
  moreover have "length (chain_data P M us) = chain_len P us" using sep(2) by (auto intro: length_chain_data)
  ultimately show "chain_data P ?M (us @ a # vs) =
      take off (chain_data P M (us @ a # vs)) @ zs @ drop (off + length zs) (chain_data P M (us @ a # vs))"
    using k off b by (simp add: pbytes_eq take_append drop_append min_def)
qed

lemma put_at_eq:
  assumes ch: "links (pbufs s) p xs" "payloads Q (pbufs s) xs" "separate (pbufs s) xs"
  shows "if off < chain_len (pbufs s) xs
    then \<exists>M'. pbuf_put_at p off x s = Some (s\<lparr>bytes := M'\<rparr>) \<and> within (pbufs s) xs (bytes s) M'
      \<and> chain_data (pbufs s) M' xs = (chain_data (pbufs s) (bytes s) xs)[off := x]
    else pbuf_put_at p off x s = Some s"
proof (cases "off < chain_len (pbufs s) xs")
  case True
  obtain us a vs b pl where
    d: "xs = us @ a # vs" "pbufs s a = Some b" "pb_payload b = Some pl" "chain_len (pbufs s) us \<le> off"
    "off - chain_len (pbufs s) us < pb_len b" "skip_loop s p off = Some (Some a, off - chain_len (pbufs s) us)"
    by (rule data_position [OF ch(1,2) True])
  let ?k = "off - chain_len (pbufs s) us"
  let ?M = "wr (bytes s) (pl + ?k) [x]"
  have len: "length (chain_data (pbufs s) (bytes s) xs) = chain_len (pbufs s) xs" by (rule length_chain_data [OF ch(2)])
  have "chain_data (pbufs s) ?M xs = take off (chain_data (pbufs s) (bytes s) xs) @ [x] @ drop (off + 1) (chain_data (pbufs s) (bytes s) xs)"
    "within (pbufs s) xs (bytes s) ?M"
    using chain_data_write [of "pbufs s" us a vs Q b pl ?k "[x]" off "bytes s"] ch(2,3) d by auto
  moreover have "take off (chain_data (pbufs s) (bytes s) xs) @ [x] @ drop (off + 1) (chain_data (pbufs s) (bytes s) xs)
      = (chain_data (pbufs s) (bytes s) xs)[off := x]" using True len by (simp add: upd_conv_take_nth_drop)
  moreover have "pbuf_put_at p off x s = Some (s\<lparr>bytes := ?M\<rparr>)"
    using d by (simp add: pbuf_put_at_def pbuf_skip_def pbuf_skip_const_def wr_single)
  ultimately show ?thesis using True by auto
next
  case False
  with skip_loop_eq [OF ch(1), of off] show ?thesis by (simp add: pbuf_put_at_def pbuf_skip_def pbuf_skip_const_def)
qed

lemma chain_suffix: "chain P (Some p) (us @ a # vs) \<Longrightarrow> chain P (Some a) (a # vs)"
  by (auto simp: chain_def tot_ok_append dest!: links_suffix simp del: links.simps)

lemma separate_append: "separate P (us @ vs) \<Longrightarrow> separate P us \<and> separate P vs"
  by (induction us) auto

lemma within_other:
  assumes "separate P (us @ vs)" "payloads Q P (us @ vs)" "within P vs M M'"
  shows "chain_data P M' us = chain_data P M us"
  using assms(1,2)
proof (induction us)
  case (Cons a us)
  then obtain b pl where b: "P a = Some b" "pb_payload b = Some pl" by auto
  with Cons.prems have "payloads (apart pl (pb_len b)) P vs" by simp
  then have "pbytes P M' a = pbytes P M a" using b by (intro within_data [OF assms(3) _ b(1)]) simp
  with Cons show ?case by simp
qed simp

lemma pbuf_take_at_eq:
  assumes ch: "chain (pbufs s) (Some p) xs" and pl: "payloads (apart d len) (pbufs s) xs" "separate (pbufs s) xs"
    and len: "chain_len (pbufs s) xs < 65536"
  shows "if off < chain_len (pbufs s) xs \<and> off + len \<le> chain_len (pbufs s) xs
    then \<exists>M'. pbuf_take_at (Some p) (Some d) len off s = Some (ERR_OK, s\<lparr>bytes := M'\<rparr>) \<and> within (pbufs s) xs (bytes s) M'
      \<and> chain_data (pbufs s) M' xs = take off (chain_data (pbufs s) (bytes s) xs) @ rd (bytes s) d len @ drop (off + len) (chain_data (pbufs s) (bytes s) xs)
    else pbuf_take_at (Some p) (Some d) len off s = Some (ERR_MEM, s)"
proof (cases "off < chain_len (pbufs s) xs")
  case False
  with skip_loop_eq [of s "Some p" xs off] ch show ?thesis by (simp add: pbuf_take_at_def pbuf_skip_def pbuf_skip_const_def chain_def)
next
  case True
  let ?P = "pbufs s" and ?M = "bytes s"
  have links: "links ?P (Some p) xs" using ch by (simp add: chain_def)
  obtain us a vs b pl where
    p: "xs = us @ a # vs" "?P a = Some b" "pb_payload b = Some pl" "chain_len ?P us \<le> off"
    "off - chain_len ?P us < pb_len b" "skip_loop s (Some p) off = Some (Some a, off - chain_len ?P us)"
    by (rule data_position [OF links pl(1) True])
  let ?k = "off - chain_len ?P us"
  have av: "chain ?P (Some a) (a # vs)" using chain_suffix ch p(1) by blast
  have tot: "pb_tot_len b = chain_len ?P (a # vs)" using chain_tot_len [OF av] p(2) by (simp add: ptot_def)
  have plb: "plen ?P a = pb_len b" using p(2) by (simp add: plen_def)
  show ?thesis
  proof (cases "off + len \<le> chain_len ?P xs")
    case False
    then have "\<not> pb_tot_len b \<ge> ?k + len" using tot p(1,4) by simp
    with p False show ?thesis by (simp add: pbuf_take_at_def pbuf_skip_def pbuf_skip_const_def)
  next
    case True': True
    then have fits: "pb_tot_len b \<ge> ?k + len" using tot p(1,4) by simp
    let ?n = "min (pb_len b - ?k) len"
    let ?zs = "rd ?M d ?n"
    let ?M1 = "wr ?M (pl + ?k) ?zs"
    have ap: "apart d len pl (pb_len b)" using pl(1) p(1-3) by auto
    have kn: "?k + ?n \<le> pb_len b" using p(5) by auto
    then have "apart (pl + ?k) ?n (d + 0) ?n" using apart_sub [OF apart_sym [OF ap], of ?k ?n 0 ?n] by simp
    then have cpy: "MEMCPY (pl + ?k) d ?n s = Some (s\<lparr>bytes := ?M1\<rparr>)" by (simp add: MEMCPY_apart)
    have u16: "to_u16 ?n = ?n" using len plb p(1) by (auto simp: to_u16_def)
    have k: "?k + length ?zs \<le> pb_len b" "off = chain_len ?P us + ?k" using kn p(4) by simp_all
    have w1: "chain_data ?P ?M1 xs = take off (chain_data ?P ?M xs) @ ?zs @ drop (off + ?n) (chain_data ?P ?M xs)" "within ?P xs ?M ?M1"
      using chain_data_write [OF _ _ p(2,3) k, of vs "apart d len" ?M] pl p(1) by simp_all
    have start: "pbuf_take_at (Some p) (Some d) len off s =
      (if len - ?n > 0 then pbuf_take (pb_next b) (Some (d + ?n)) (len - ?n) (s\<lparr>bytes := ?M1\<rparr>) else Some (ERR_OK, s\<lparr>bytes := ?M1\<rparr>))"
      using p(2,3,6) fits u16 cpy by (simp add: pbuf_take_at_def pbuf_skip_def pbuf_skip_const_def Let_def)
    show ?thesis
    proof (cases "len - ?n = 0")
      case True
      then have "?n = len" by (simp add: min_def split: if_splits)
      then show ?thesis using True' \<open>off < chain_len ?P xs\<close> start w1 by auto
    next
      case False
      then have n: "?n = pb_len b - ?k" "chain_len ?P us + pb_len b = off + ?n" using p(4,5) by (auto simp: min_def split: if_splits)
      have vs: "chain ?P (pb_next b) vs" "payloads (apart (d + ?n) (len - ?n)) ?P vs" "separate ?P vs"
        using av p(1,2) pl separate_append [of ?P us "a # vs"] apart_sub [of d len _ _ ?n "len - ?n" 0]
        by (auto simp: chain_Cons elim!: payloads_mono)
      have "len - ?n \<le> chain_len ?P vs" using True' p(1) plb n(2) by simp
      moreover from this False obtain q where q: "pb_next b = Some q" using vs(1) by (cases "pb_next b") auto
      ultimately obtain M' where M': "pbuf_take (pb_next b) (Some (d + ?n)) (len - ?n) (s\<lparr>bytes := ?M1\<rparr>) = Some (ERR_OK, s\<lparr>bytes := M'\<rparr>)"
        "within ?P vs ?M1 M'" "chain_data ?P M' vs = rd ?M1 (d + ?n) (len - ?n) @ drop (len - ?n) (chain_data ?P ?M1 vs)"
        using pbuf_take_eq [of "s\<lparr>bytes := ?M1\<rparr>" q vs "d + ?n" "len - ?n"] vs len p(1) by auto
      have src: "rd ?M1 (d + ?n) (len - ?n) = rd ?M (d + ?n) (len - ?n)"
        using apart_sub [OF apart_sym [OF ap] kn, of ?n "len - ?n"] by (intro rd_wr_apart) simp
      have keep: "chain_data ?P M' (us @ [a]) = chain_data ?P ?M1 (us @ [a])"
        using within_other [OF _ _ M'(2), of "us @ [a]"] pl p(1) by simp
      have lenua: "length (chain_data ?P ?M1 (us @ [a])) = off + ?n" "length (chain_data ?P ?M xs) = chain_len ?P xs"
        using length_chain_data [of "apart d len" ?P "us @ [a]" ?M1] length_chain_data [of "apart d len" ?P xs ?M] pl(1) p(1) n(2) plb by simp_all
      have split: "chain_data ?P M xs = chain_data ?P M (us @ [a]) @ chain_data ?P M vs" for M using p(1) by simp
      have "chain_data ?P ?M1 (us @ [a]) = take (off + ?n) (chain_data ?P ?M1 xs)" "chain_data ?P ?M1 vs = drop (off + ?n) (chain_data ?P ?M1 xs)"
        using append_eq_conv_conj [THEN iffD1, OF split [of ?M1, symmetric]] unfolding lenua(1) by simp_all
      then have ua: "chain_data ?P ?M1 (us @ [a]) = take off (chain_data ?P ?M xs) @ ?zs" "chain_data ?P ?M1 vs = drop (off + ?n) (chain_data ?P ?M xs)"
        unfolding w1(1) using True' lenua(2) by simp_all
      have "chain_data ?P M' xs = take off (chain_data ?P ?M xs) @ rd ?M d len @ drop (off + len) (chain_data ?P ?M xs)"
        unfolding split [of M'] keep M'(3) ua src using rd_split [of ?n len ?M d] by (simp add: ac_simps)
      moreover have "within ?P xs ?M M'" using within_trans [OF w1(2)] within_sub [OF M'(2), of "us @ [a]" "[]"] p(1) by simp
      moreover have "pbuf_take_at (Some p) (Some d) len off s = Some (ERR_OK, s\<lparr>bytes := M'\<rparr>)" using start M'(1) False by simp
      ultimately have "\<exists>M'. pbuf_take_at (Some p) (Some d) len off s = Some (ERR_OK, s\<lparr>bytes := M'\<rparr>) \<and> within ?P xs ?M M'
        \<and> chain_data ?P M' xs = take off (chain_data ?P ?M xs) @ rd ?M d len @ drop (off + len) (chain_data ?P ?M xs)" by blast
      then show ?thesis using True' \<open>off < chain_len ?P xs\<close> by (simp only: simp_thms if_True)
    qed
  qed
qed

section \<open>Comparison and search\<close>

declare memcmp_loop.simps [simp del]

lemma memcmp_loop_spec:
  assumes "\<And>j. j < n \<Longrightarrow> pbuf_get_at q (to_u16 (start + j)) s = Some (D j)" "n < 65536" "i \<le> n" "\<And>j. j < i \<Longrightarrow> D j = bytes s (s2 + j)"
  shows "\<exists>r. memcmp_loop q start s2 n i s = Some r \<and> (r = 0 \<longrightarrow> (\<forall>j < n. D j = bytes s (s2 + j)))
    \<and> (r \<noteq> 0 \<longrightarrow> r \<le> n \<and> D (r - 1) \<noteq> bytes s (s2 + (r - 1)) \<and> (\<forall>j < r - 1. D j = bytes s (s2 + j)))"
  using assms(3,4)
proof (induction "n - i" arbitrary: i)
  case 0
  then show ?case by (subst memcmp_loop.simps) auto
next
  case (Suc k)
  then have i: "i < n" by simp
  show ?case
  proof (cases "D i = bytes s (s2 + i)")
    case True
    have "memcmp_loop q start s2 n i s = memcmp_loop q start s2 n (i + 1) s"
      using i True assms(1) by (subst memcmp_loop.simps) simp
    moreover have "D j = bytes s (s2 + j)" if "j < i + 1" for j using that Suc.prems(2) True by (cases "j = i") auto
    ultimately show ?thesis using Suc.hyps(1) [of "i + 1"] Suc.hyps(2) i by simp
  next
    case False
    have "to_u16 (i + 1) = i + 1" using i assms(2) by (simp add: to_u16_def)
    then have "memcmp_loop q start s2 n i s = Some (i + 1)" using i False assms(1) by (subst memcmp_loop.simps) simp
    then show ?thesis using False i Suc.prems(2) by auto
  qed
qed

lemma memcmp_eq:
  assumes ch: "chain (pbufs s) (Some p) xs" and pl: "payloads Q (pbufs s) xs" and len: "chain_len (pbufs s) xs < 65536"
  shows "if chain_len (pbufs s) xs < off + n then pbuf_memcmp p off s2 n s = Some 0xffff
    else \<exists>r. pbuf_memcmp p off s2 n s = Some r \<and> r \<le> n
      \<and> (r = 0 \<longleftrightarrow> take n (drop off (chain_data (pbufs s) (bytes s) xs)) = rd (bytes s) s2 n)
      \<and> (r \<noteq> 0 \<longrightarrow> chain_data (pbufs s) (bytes s) xs ! (off + (r - 1)) \<noteq> bytes s (s2 + (r - 1))
          \<and> take (r - 1) (drop off (chain_data (pbufs s) (bytes s) xs)) = rd (bytes s) s2 (r - 1))"
proof -
  let ?P = "pbufs s" and ?D = "chain_data (pbufs s) (bytes s) xs"
  obtain b where b: "?P p = Some b" "pb_tot_len b = chain_len ?P xs"
    using ch chain_tot_len [OF ch] by (cases xs) (auto simp: chain_Cons ptot_def)
  have lenD: "length ?D = chain_len ?P xs" by (rule length_chain_data [OF pl])
  have links: "links ?P (Some p) xs" using ch by (simp add: chain_def)
  have eq: "take m (drop off ?D) = rd (bytes s) s2 m \<longleftrightarrow> (\<forall>j < m. ?D ! (off + j) = bytes s (s2 + j))" if "off + m \<le> chain_len ?P xs" for m
    using that lenD by (auto simp: list_eq_iff_nth_eq)
  show ?thesis
  proof (cases "chain_len ?P xs < off + n")
    case True
    then show ?thesis using b by (simp add: pbuf_memcmp_def)
  next
    case False
    obtain q start where sk: "skip_loop s (Some p) off = Some (q, start)" "\<And>j. j < n \<Longrightarrow> pbuf_get_at q (to_u16 (start + j)) s = Some (?D ! (off + j))"
    proof (cases "off < chain_len ?P xs")
      case True
      with skip_loop_eq [OF links, of off] obtain us a vs where
        x: "xs = us @ a # vs" "chain_len ?P us \<le> off" "skip_loop s (Some p) off = Some (Some a, off - chain_len ?P us)" by auto
      have av: "links ?P (Some a) (a # vs)" using links_suffix links x(1) by blast
      have "payloads Q ?P (a # vs)" "payloads Q ?P us" using pl x(1) by auto
      then have "length (chain_data ?P (bytes s) us) = chain_len ?P us" by (auto intro: length_chain_data)
      then have "pbuf_get_at (Some a) (to_u16 (off - chain_len ?P us + j)) s = Some (?D ! (off + j))" if "j < n" for j
        using get_at_eq [OF av \<open>payloads Q ?P (a # vs)\<close>] that False x(1,2) len
        by (auto simp: to_u16_def nth_append simp del: chain_data_simps(2) chain_len_simps(2))
      with x(3) that show ?thesis by blast
    next
      case False': False
      then have "n = 0" using False by simp
      with skip_loop_eq [OF links, of off] False' that show ?thesis by simp
    qed
    have "n < 65536" using False len by simp
    from memcmp_loop_spec [of n q start s "\<lambda>j. ?D ! (off + j)", OF sk(2) this, of 0 s2] obtain r where
      r: "memcmp_loop q start s2 n 0 s = Some r" "r = 0 \<longrightarrow> (\<forall>j < n. ?D ! (off + j) = bytes s (s2 + j))"
      "r \<noteq> 0 \<longrightarrow> r \<le> n \<and> ?D ! (off + (r - 1)) \<noteq> bytes s (s2 + (r - 1)) \<and> (\<forall>j < r - 1. ?D ! (off + j) = bytes s (s2 + j))" by auto
    have "pbuf_memcmp p off s2 n s = Some r" using False b sk(1) r(1) by (simp add: pbuf_memcmp_def)
    moreover have "r = 0 \<longleftrightarrow> take n (drop off ?D) = rd (bytes s) s2 n"
    proof
      assume "take n (drop off ?D) = rd (bytes s) s2 n"
      then have all: "\<forall>j < n. ?D ! (off + j) = bytes s (s2 + j)" using eq [of n] False by (simp add: not_less)
      show "r = 0"
      proof (rule ccontr)
        assume "r \<noteq> 0"
        with r(3) have "r - 1 < n" "?D ! (off + (r - 1)) \<noteq> bytes s (s2 + (r - 1))" by auto
        with all show False by blast
      qed
    qed (use eq [of n] False r(2) in \<open>simp add: not_less\<close>)
    moreover have "r \<noteq> 0 \<Longrightarrow> take (r - 1) (drop off ?D) = rd (bytes s) s2 (r - 1)" using eq [of "r - 1"] False r(3) by auto
    ultimately show ?thesis using False r(3) by auto
  qed
qed

text \<open>\<open>D\<close> holds \<open>zs\<close> at \<open>i\<close>.\<close>

definition occurs_at :: "u8 list \<Rightarrow> nat \<Rightarrow> u8 list \<Rightarrow> bool" where
  "occurs_at zs i D \<longleftrightarrow> i + length zs \<le> length D \<and> take (length zs) (drop i D) = zs"

text \<open>The first position from \<open>i\<close> on where \<open>zs\<close> occurs.\<close>

definition first_at :: "u8 list \<Rightarrow> nat \<Rightarrow> u8 list \<Rightarrow> nat \<Rightarrow> bool" where
  "first_at zs i D j \<longleftrightarrow> i \<le> j \<and> occurs_at zs j D \<and> (\<forall>k. i \<le> k \<longrightarrow> k < j \<longrightarrow> \<not> occurs_at zs k D)"

text \<open>What a search returns: the first position, or \<open>0xFFFF\<close> when there is none.\<close>

definition search_result :: "u8 list \<Rightarrow> nat \<Rightarrow> u8 list \<Rightarrow> nat \<Rightarrow> bool" where
  "search_result zs i D r \<longleftrightarrow> first_at zs i D r \<or> r = 0xFFFF \<and> (\<forall>j \<ge> i. \<not> occurs_at zs j D)"

lemma first_at_later: "\<not> occurs_at zs i D \<Longrightarrow> first_at zs (i + 1) D j \<Longrightarrow> first_at zs i D j"
  unfolding first_at_def by (metis Suc_eq_plus1 Suc_leI le_SucI le_trans less_or_eq_imp_le nat_less_le)

lemma search_result_later: "\<not> occurs_at zs i D \<Longrightarrow> search_result zs (i + 1) D j \<Longrightarrow> search_result zs i D j"
  using first_at_later [of zs i D j] by (auto simp: search_result_def Suc_le_eq nat_less_le)

lemma memfind_loop_eq:
  assumes ch: "chain (pbufs s) (Some p) xs" "payloads Q (pbufs s) xs" "chain_len (pbufs s) xs < 65536"
    and D: "D = chain_data (pbufs s) (bytes s) xs" and zs: "zs = rd (bytes s) m n" "0 < n" and le: "i \<le> max' + 1" "max' + n = length D"
  shows "\<exists>r. memfind_loop p m n max' i s = Some r \<and> search_result zs i D r"
  using le(1)
proof (induction "max' + 1 - i" arbitrary: i)
  case 0
  then have "\<forall>j \<ge> i. \<not> occurs_at zs j D" using le(2) zs by (auto simp: occurs_at_def)
  with 0 show ?case by (subst memfind_loop.simps) (simp add: search_result_def)
next
  case (Suc k)
  then have i: "i \<le> max'" by simp
  have len: "length D = chain_len (pbufs s) xs" unfolding D by (rule length_chain_data [OF ch(2)])
  from memcmp_eq [OF ch, of i n m] Suc.hyps(2) le(2) len obtain r where
    r: "pbuf_memcmp p i m n s = Some r" "r = 0 \<longleftrightarrow> take n (drop i D) = zs" unfolding D zs by (simp split: if_splits) blast
  then have r0: "r = 0 \<longleftrightarrow> occurs_at zs i D" using Suc.hyps(2) le(2) zs by (auto simp: occurs_at_def)
  show ?case
  proof (cases "r = 0")
    case True
    then have "memfind_loop p m n max' i s = Some i" using r(1) i by (subst memfind_loop.simps) simp
    moreover have "search_result zs i D i" using True r0 by (simp add: first_at_def search_result_def)
    ultimately show ?thesis by blast
  next
    case False
    have "to_u16 (i + 1) = i + 1" using Suc.hyps(2) le(2) len ch(3) zs(2) by (auto simp: to_u16_def)
    then have "memfind_loop p m n max' i s = memfind_loop p m n max' (i + 1) s"
      using False r(1) i by (subst memfind_loop.simps) simp
    moreover have "\<exists>r. memfind_loop p m n max' (i + 1) s = Some r \<and> search_result zs (i + 1) D r"
      using Suc.hyps i by (intro Suc.hyps(1)) simp_all
    ultimately show ?thesis using search_result_later False r0 by metis
  qed
qed

lemma memfind_eq:
  assumes ch: "chain (pbufs s) (Some p) xs" "payloads Q (pbufs s) xs" "chain_len (pbufs s) xs < 65536" and n: "0 < n" "n < 65536"
  shows "\<exists>r. pbuf_memfind p m n off s = Some r \<and>
    search_result (rd (bytes s) m n) off (chain_data (pbufs s) (bytes s) xs) r"
proof -
  let ?D = "chain_data (pbufs s) (bytes s) xs"
  obtain b where b: "pbufs s p = Some b" "pb_tot_len b = chain_len (pbufs s) xs"
    using ch(1) chain_tot_len [OF ch(1)] by (cases xs) (auto simp: chain_Cons ptot_def)
  have len: "length ?D = chain_len (pbufs s) xs" by (rule length_chain_data [OF ch(2)])
  show ?thesis
  proof (cases "chain_len (pbufs s) xs \<ge> n + off")
    case True
    have "int (pb_tot_len b) - int n = int (chain_len (pbufs s) xs - n)" using True b(2) by simp
    then have "nat ((int (pb_tot_len b) - int n) mod 65536) = chain_len (pbufs s) xs - n"
      using ch(3) by (simp add: nat_mod_distrib)
    then have "pbuf_memfind p m n off s = memfind_loop p m n (chain_len (pbufs s) xs - n) off s"
      using True b by (simp add: pbuf_memfind_def Let_def nat_diff_distrib')
    then show ?thesis using memfind_loop_eq [OF ch refl refl n(1), of off "chain_len (pbufs s) xs - n"] True len by simp
  next
    case False
    then have "pbuf_memfind p m n off s = Some 0xFFFF" using b by (simp add: pbuf_memfind_def)
    moreover have "search_result (rd (bytes s) m n) off ?D 0xFFFF" using False len by (auto simp: search_result_def occurs_at_def)
    ultimately show ?thesis by blast
  qed
qed

lemma c_strlen_eq: "(\<And>i. i < n \<Longrightarrow> M (a + i) \<noteq> 0) \<Longrightarrow> M (a + n) = 0 \<Longrightarrow> c_strlen M a = Some n"
proof (induction n arbitrary: a)
  case 0
  then show ?case by (subst c_strlen.simps) simp
next
  case (Suc n)
  have "M (a + 1 + i) \<noteq> 0" if "i < n" for i using Suc.prems(1) [of "i + 1"] that by (simp add: ac_simps)
  moreover have "M (a + 1 + n) = 0" using Suc.prems(2) by (simp add: ac_simps)
  ultimately have "c_strlen M (a + 1) = Some n" by (rule Suc.IH)
  then show ?case using Suc.prems(1) [of 0] by (subst c_strlen.simps) simp
qed

lemma strstr_eq:
  assumes ch: "chain (pbufs s) (Some p) xs" "payloads Q (pbufs s) xs" "chain_len (pbufs s) xs < 65535"
    and str: "rd (bytes s) a (n + 1) = zs @ [0]" "0 \<notin> set zs" "zs \<noteq> []" "n < 65535"
  shows "\<exists>r. pbuf_strstr p (Some a) s = Some r \<and>
    search_result zs 0 (chain_data (pbufs s) (bytes s) xs) r"
proof -
  obtain b where b: "pbufs s p = Some b" "pb_tot_len b = chain_len (pbufs s) xs"
    using ch(1) chain_tot_len [OF ch(1)] by (cases xs) (auto simp: chain_Cons ptot_def)
  have n: "length zs = n" using arg_cong [OF str(1), of length] by simp
  have ix: "bytes s (a + i) = (zs @ [0]) ! i" if "i < n + 1" for i using arg_cong [OF str(1), of "\<lambda>l. l ! i"] that by simp
  have nz: "bytes s (a + i) \<noteq> 0" if "i < n" for i using ix [of i] that n str(2) by (auto simp: nth_append in_set_conv_nth)
  have "0 < n" using str(3) n by auto
  have "c_strlen (bytes s) a = Some n" using nz ix [of n] n by (intro c_strlen_eq) (auto simp: nth_append)
  then have "pbuf_strstr p (Some a) s = pbuf_memfind p a n 0 s" using b ch(3) nz [of 0] \<open>0 < n\<close> str(4)
    by (simp add: pbuf_strstr_def)
  moreover have "rd (bytes s) a n = zs" using arg_cong [OF str(1), of "take n"] n by simp
  ultimately show ?thesis using memfind_eq [OF ch(1,2) _ \<open>0 < n\<close>, of a 0] ch(3) str(4) by simp
qed

end
