(* ===== verification/Pbuf_Copy.thy ===== *)
theory Pbuf_Copy
  imports Pbuf_Data
begin

text \<open>
  Copying one chain of pbufs to another (\<^verbatim>\<open>pbuf_copy\<close> and \<^verbatim>\<open>pbuf_coalesce\<close> of \<^verbatim>\<open>core/pbuf.c\<close>), the effect of the
  operations that change the shape of a chain on its data, and the properties of packet buffers.
\<close>

section \<open>Copying a chain to another\<close>

text \<open>No pbuf of the chain is empty.\<close>

definition filled :: "(nat \<rightharpoonup> pbuf) \<Rightarrow> nat list \<Rightarrow> bool" where
  "filled P xs \<longleftrightarrow> (\<forall>x \<in> set xs. 0 < plen P x)"

lemma filled_simps [simp]:
  "filled P []" "filled P (a # as) \<longleftrightarrow> 0 < plen P a \<and> filled P as" "filled P (xs @ ys) \<longleftrightarrow> filled P xs \<and> filled P ys"
  by (auto simp: filled_def)

lemma filled_len: "filled P xs \<Longrightarrow> chain_len P xs = 0 \<longleftrightarrow> xs = []"
  by (cases xs) auto

lemma not_queue: "chain (pbufs s) p xs \<Longrightarrow> filled (pbufs s) xs \<Longrightarrow> is_queue p s = Some False"
proof (cases xs)
  case (Cons a as)
  assume "chain (pbufs s) p xs" "filled (pbufs s) xs"
  with Cons obtain b where b: "p = Some a" "pbufs s a = Some b" "chain (pbufs s) (pb_next b) as" "pb_tot_len b = pb_len b + chain_len (pbufs s) as"
    "filled (pbufs s) as" by (auto simp: chain_Cons)
  show ?thesis using filled_len [OF b(5)] b(1-4) by (auto simp: is_queue_def)
qed (simp add: is_queue_def)

text \<open>\<open>p\<close> and the offset \<open>k\<close> into it mark a position in a chain.\<close>

definition at_pos :: "(nat \<rightharpoonup> pbuf) \<Rightarrow> ptr \<Rightarrow> nat list \<Rightarrow> nat \<Rightarrow> bool" where
  "at_pos P p xs k \<longleftrightarrow> chain P p xs \<and> filled P xs \<and> (case xs of [] \<Rightarrow> k = 0 | a # _ \<Rightarrow> k < plen P a)"

lemma advance:
  assumes at: "at_pos P (Some a) (a # as) k" and b: "P a = Some b" and n: "k + n \<le> pb_len b"
    and p': "(p', k') = (if k + n = pb_len b then (pb_next b, 0) else (Some a, k + n))"
  obtains us xs where "a # as = us @ xs" "chain_len P us + k' = k + n" "at_pos P p' xs k'" "us = [] \<longleftrightarrow> k + n < pb_len b"
proof (cases "k + n = pb_len b")
  case True
  have "at_pos P (pb_next b) as 0" using at b by (auto simp: at_pos_def chain_Cons split: list.splits)
  with True p' b that [of "[a]" as] show ?thesis by (simp add: plen_def)
next
  case False
  then have "at_pos P (Some a) (a # as) (k + n)" using at b n by (auto simp: at_pos_def plen_def)
  with False p' n that [of "[]" "a # as"] show ?thesis by simp
qed

text \<open>What is written behind a position shows up behind it.\<close>

lemma write_behind:
  assumes "separate P (us @ xs)" "payloads Q P (us @ xs)" "within P xs M M'" and j: "chain_len P us + k = j"
    and w: "chain_data P M' xs = take k (chain_data P M xs) @ zs @ drop (k + length zs) (chain_data P M xs)"
  shows "chain_data P M' (us @ xs) = take j (chain_data P M (us @ xs)) @ zs @ drop (j + length zs) (chain_data P M (us @ xs))"
proof -
  have "length (chain_data P M us) = chain_len P us" using assms(2) by (auto intro: length_chain_data)
  moreover have "chain_data P M' us = chain_data P M us" by (rule within_other [OF assms(1-3)])
  ultimately show ?thesis using j w by auto
qed

text \<open>No payload of \<open>xs\<close> overlaps one of \<open>ys\<close>.\<close>

definition data_apart :: "(nat \<rightharpoonup> pbuf) \<Rightarrow> nat list \<Rightarrow> nat list \<Rightarrow> bool" where
  "data_apart P xs ys \<longleftrightarrow> payloads (\<lambda>pl n. payloads (apart pl n) P ys) P xs"

lemma data_apart_suffix: "data_apart P (us @ xs) (vs @ ys) \<Longrightarrow> data_apart P xs ys"
  by (auto simp: data_apart_def elim!: payloads_mono)

lemma payloads_flip: "payloads (\<lambda>pl n. payloads (apart pl n) P ys) P xs \<Longrightarrow> payloads (\<lambda>_ _. True) P ys
  \<Longrightarrow> payloads (\<lambda>pl n. payloads (apart pl n) P xs) P ys"
proof (induction xs)
  case (Cons a xs)
  then obtain b pl where b: "P a = Some b" "pb_payload b = Some pl" "payloads (apart pl (pb_len b)) P ys" by auto
  from Cons have "payloads (\<lambda>pl n. payloads (apart pl n) P xs) P ys" by simp
  with b(3) show ?case by (induction ys) (auto simp: b(1,2) intro: apart_sym)
qed simp

lemma data_apart_within: "data_apart P xs ys \<Longrightarrow> payloads (\<lambda>_ _. True) P ys \<Longrightarrow> within P xs M M' \<Longrightarrow> chain_data P M' ys = chain_data P M ys"
proof -
  assume "data_apart P xs ys" "payloads (\<lambda>_ _. True) P ys" and w: "within P xs M M'"
  then have "payloads (\<lambda>pl n. payloads (apart pl n) P xs) P ys" by (simp add: data_apart_def payloads_flip)
  then show ?thesis using w by (induction ys) (auto simp: within_def pbytes_eq)
qed

lemma splice_twice:
  assumes "i + length us \<le> length D" "D' = take i D @ us @ drop (i + length us) D"
  shows "take (i + length us) D' @ vs @ drop (i + length us + length vs) D' = take i D @ (us @ vs) @ drop (i + length (us @ vs)) D"
  using assms by (simp add: ac_simps)

lemma copy_loop_eq:
  assumes "at_pos (pbufs s) (Some t) xs ot" "at_pos (pbufs s) (Some f) ys ofs" "separate (pbufs s) xs" "data_apart (pbufs s) xs ys"
    "payloads (\<lambda>_ _. True) (pbufs s) ys" "chain_len (pbufs s) ys + ot \<le> chain_len (pbufs s) xs + ofs"
    "chain_len (pbufs s) xs < 65536" "chain_len (pbufs s) ys < 65536"
  shows "\<exists>M'. copy_loop t ot f ofs s = Some (ERR_OK, s\<lparr>bytes := M'\<rparr>) \<and> within (pbufs s) xs (bytes s) M'
    \<and> (let F = drop ofs (chain_data (pbufs s) (bytes s) ys); D = chain_data (pbufs s) (bytes s) xs
       in chain_data (pbufs s) M' xs = take ot D @ F @ drop (ot + length F) D)"
  using assms
proof (induction "length xs + length ys" arbitrary: t xs ot f ys ofs s rule: less_induct)
  case less
  note pre = less.prems
  let ?P = "pbufs s" and ?M = "bytes s"
  let ?F = "drop ofs (chain_data ?P ?M ys)" and ?D = "chain_data ?P ?M xs"
  from pre(1) obtain as where as: "xs = t # as" by (cases xs) (auto simp: at_pos_def chain_Cons)
  from pre(2) obtain fs where fs: "ys = f # fs" by (cases ys) (auto simp: at_pos_def chain_Cons)
  from pre(4) as obtain tb tpl where tb: "?P t = Some tb" "pb_payload tb = Some tpl" "ot < pb_len tb" "payloads (apart tpl (pb_len tb)) ?P ys"
    using pre(1) by (auto simp: data_apart_def at_pos_def plen_def)
  from pre(2,5) fs obtain fb fpl where fb: "?P f = Some fb" "pb_payload fb = Some fpl" "ofs < pb_len fb"
    by (auto simp: at_pos_def plen_def)
  define n where "n = min (pb_len fb - ofs) (pb_len tb - ot)"
  let ?zs = "rd ?M (fpl + ofs) n"
  let ?M1 = "wr ?M (tpl + ot) ?zs"
  let ?s1 = "s\<lparr>bytes := ?M1\<rparr>"
  have n: "ot + n \<le> pb_len tb" "ofs + n \<le> pb_len fb" "0 < n" "ot + n = pb_len tb \<or> ofs + n = pb_len fb"
    using tb(3) fb(3) by (auto simp: n_def min_def)
  have small: "pb_len tb < 65536" "pb_len fb < 65536" using pre(7,8) as fs tb(1) fb(1) by (auto simp: plen_def)
  have "apart tpl (pb_len tb) fpl (pb_len fb)" using tb(4) fs fb by auto
  from apart_sub [OF this n(1,2)] have cpy: "MEMCPY (tpl + ot) (fpl + ofs) n s = Some ?s1" by (rule MEMCPY_apart)
  define fr where "fr = (if ofs + n = pb_len fb then (pb_next fb, 0) else (Some f, ofs + n))"
  define to where "to = (if ot + n = pb_len tb then (pb_next tb, 0) else (Some t, ot + n))"
  obtain us xs1 where x: "xs = us @ xs1" "chain_len ?P us + snd to = ot + n" "at_pos ?P (fst to) xs1 (snd to)" "us = [] \<longleftrightarrow> ot + n < pb_len tb"
    using advance [OF pre(1) [unfolded as] tb(1) n(1), of "fst to" "snd to"] as by (auto simp: to_def)
  obtain vs ys1 where y: "ys = vs @ ys1" "chain_len ?P vs + snd fr = ofs + n" "at_pos ?P (fst fr) ys1 (snd fr)" "vs = [] \<longleftrightarrow> ofs + n < pb_len fb"
    using advance [OF pre(2) [unfolded fs] fb(1) n(2), of "fst fr" "snd fr"] fs by (auto simp: fr_def)
  have queue: "is_queue (fst fr) ?s1 = Some False" "is_queue (fst to) ?s1 = Some False"
    using x(3) y(3) not_queue [of ?s1] by (auto simp: at_pos_def)
  have plxs: "payloads (\<lambda>pl n. payloads (apart pl n) ?P ys) ?P xs" using pre(4) by (simp add: data_apart_def)
  have w1: "chain_data ?P ?M1 xs = take ot ?D @ ?zs @ drop (ot + n) ?D" "within ?P xs ?M ?M1"
    using chain_data_write [of ?P "[]" t as _ tb tpl ot ?zs ot ?M] pre(3) plxs as tb(1,2) n(1) by simp_all
  have F1: "chain_data ?P ?M1 ys = chain_data ?P ?M ys" by (rule data_apart_within [OF pre(4,5) w1(2)])
  have F: "?F = ?zs @ drop (ofs + n) (chain_data ?P ?M ys)"
    using fb n(2) by (auto simp: fs pbytes_eq rd_split [of n "pb_len fb - ofs"] add.assoc)
  have lens: "length ?D = chain_len ?P xs" "length (chain_data ?P ?M1 vs) = chain_len ?P vs"
    using plxs pre(5) y(1) by (auto intro: length_chain_data)
  have fits: "ot + n \<le> length ?D" unfolding lens(1) using n(1) as tb(1) by (simp add: plen_def)
  have ends: "ys1 = []" if "xs1 = []"
    using that x(1-3) y(1-3) pre(6) by (cases ys1) (auto simp: at_pos_def)
  have step: "copy_loop t ot f ofs s = (case fst fr of None \<Rightarrow> Some (ERR_OK, ?s1)
      | Some f' \<Rightarrow> Option.bind (fst to) (\<lambda>t'. copy_loop t' (snd to) f' (snd fr) ?s1))"
  proof -
    have len: "to_u16 (if pb_len tb - ot \<ge> pb_len fb - ofs then pb_len fb - ofs else pb_len tb - ot) = n"
      using small by (auto simp: n_def to_u16_def)
    have u: "to_u16 (ot + n) = ot + n" "to_u16 (ofs + n) = ofs + n" using n(1,2) small by (simp_all add: to_u16_def)
    have arg: "\<not> (ot + n = pb_len tb \<and> \<not> (fst to \<noteq> None \<or> fst fr = None))"
      using ends x(3) y(3) by (cases xs1; cases ys1) (auto simp: at_pos_def chain_Cons)
    have ge: "(ofs + n \<ge> pb_len fb) = (ofs + n = pb_len fb)" using n(2) by auto
    have as: "lwip_assert (ot + n \<le> pb_len tb) = Some ()" "lwip_assert (ofs + n \<le> pb_len fb) = Some ()" using n(1,2) by simp_all
    show ?thesis by (subst copy_loop.simps)
      (simp only: tb(1,2) fb(1,2) bind.bind_lunit Let_def len u cpy as ge fr_def [symmetric] to_def [symmetric] split_def arg queue simp_thms if_False)
  qed
  show ?case
  proof (cases ys1)
    case Nil
    then have "copy_loop t ot f ofs s = Some (ERR_OK, ?s1)" using step y(3) by (simp add: at_pos_def)
    moreover have "?F = ?zs" using F y(1-3) Nil pre(5) by (auto simp: at_pos_def length_chain_data)
    then have "chain_data ?P ?M1 xs = take ot ?D @ ?F @ drop (ot + length ?F) ?D" using w1(1) by (simp only: length_rd)
    ultimately show ?thesis using w1(2) by (auto simp only: Let_def)
  next
    case (Cons f' fs')
    with ends obtain t' ts' where xs1: "xs1 = t' # ts'" by (cases xs1) auto
    have ptrs: "fst fr = Some f'" "fst to = Some t'" using x(3) y(3) Cons xs1 by (auto simp: at_pos_def chain_Cons)
    have "length us + length vs > 0" using x(4) y(4) n(4) by auto
    then have "\<exists>M'. copy_loop t' (snd to) f' (snd fr) ?s1 = Some (ERR_OK, ?s1\<lparr>bytes := M'\<rparr>) \<and> within (pbufs ?s1) xs1 (bytes ?s1) M'
      \<and> (let F = drop (snd fr) (chain_data (pbufs ?s1) (bytes ?s1) ys1); D = chain_data (pbufs ?s1) (bytes ?s1) xs1
         in chain_data (pbufs ?s1) M' xs1 = take (snd to) D @ F @ drop (snd to + length F) D)"
      using x(1-3) y(1-3) pre(3-8) ptrs separate_append [of ?P us xs1] data_apart_suffix [of ?P us xs1 vs ys1]
      by (intro less.hyps) auto
    then obtain M' where M': "copy_loop t' (snd to) f' (snd fr) ?s1 = Some (ERR_OK, s\<lparr>bytes := M'\<rparr>)" "within ?P xs1 ?M1 M'"
      "chain_data ?P M' xs1 = take (snd to) (chain_data ?P ?M1 xs1) @ drop (snd fr) (chain_data ?P ?M1 ys1)
         @ drop (snd to + length (drop (snd fr) (chain_data ?P ?M1 ys1))) (chain_data ?P ?M1 xs1)" by (auto simp: Let_def)
    have F1': "drop (snd fr) (chain_data ?P ?M1 ys1) = drop (ofs + n) (chain_data ?P ?M ys)"
      using F1 y(1,2) lens(2) by (metis chain_data_simps(3) drop_append drop_eq_Nil add_diff_cancel_left' append_Nil le_add1)
    have "chain_data ?P M' xs = take (ot + n) (chain_data ?P ?M1 xs) @ drop (ofs + n) (chain_data ?P ?M ys)
        @ drop (ot + n + length (drop (ofs + n) (chain_data ?P ?M ys))) (chain_data ?P ?M1 xs)"
      using write_behind [OF _ _ M'(2) x(2) M'(3)] pre(3) plxs unfolding x(1) F1' by blast
    also have "\<dots> = take ot ?D @ ?F @ drop (ot + length ?F) ?D"
      using splice_twice [of ot ?zs ?D "chain_data ?P ?M1 xs" "drop (ofs + n) (chain_data ?P ?M ys)"] fits w1(1) unfolding F length_rd by blast
    finally have "chain_data ?P M' xs = take ot ?D @ ?F @ drop (ot + length ?F) ?D" .
    moreover have "within ?P xs ?M M'" using within_trans [OF w1(2)] within_sub [OF M'(2), of us "[]"] x(1) by simp
    moreover have "copy_loop t ot f ofs s = Some (ERR_OK, s\<lparr>bytes := M'\<rparr>)" using step ptrs M'(1) by simp
    ultimately show ?thesis by (auto simp only: Let_def)
  qed
qed

lemma pbuf_copy_eq:
  assumes ch: "chain (pbufs s) (Some t) xs" "chain (pbufs s) (Some f) ys" and fill: "filled (pbufs s) xs" "filled (pbufs s) ys"
    and sep: "separate (pbufs s) xs" "data_apart (pbufs s) xs ys" "payloads (\<lambda>_ _. True) (pbufs s) ys"
    and len: "chain_len (pbufs s) xs < 65536" "chain_len (pbufs s) ys < 65536"
  shows "if chain_len (pbufs s) ys \<le> chain_len (pbufs s) xs
    then \<exists>M'. pbuf_copy (Some t) (Some f) s = Some (ERR_OK, s\<lparr>bytes := M'\<rparr>) \<and> within (pbufs s) xs (bytes s) M'
      \<and> chain_data (pbufs s) M' xs = chain_data (pbufs s) (bytes s) ys @ drop (chain_len (pbufs s) ys) (chain_data (pbufs s) (bytes s) xs)
    else pbuf_copy (Some t) (Some f) s = Some (ERR_ARG, s)"
proof -
  let ?P = "pbufs s"
  from ch obtain as fs where as: "xs = t # as" "ys = f # fs" by (cases xs; cases ys) (auto simp: chain_Cons)
  obtain tb fb where b: "?P t = Some tb" "?P f = Some fb" "pb_tot_len tb = chain_len ?P xs" "pb_tot_len fb = chain_len ?P ys"
    using ch as by (auto simp: chain_Cons plen_def)
  show ?thesis
  proof (cases "chain_len ?P ys \<le> chain_len ?P xs")
    case True
    have "at_pos ?P (Some t) xs 0" "at_pos ?P (Some f) ys 0" using ch fill as by (auto simp: at_pos_def)
    from copy_loop_eq [OF this sep _ len] True obtain M' where
      "copy_loop t 0 f 0 s = Some (ERR_OK, s\<lparr>bytes := M'\<rparr>)" "within ?P xs (bytes s) M'"
      "chain_data ?P M' xs = chain_data ?P (bytes s) ys @ drop (length (chain_data ?P (bytes s) ys)) (chain_data ?P (bytes s) xs)"
      by (auto simp: Let_def)
    with True b length_chain_data [OF sep(3)] show ?thesis by (auto simp: pbuf_copy_def)
  next
    case False
    with b show ?thesis by (simp add: pbuf_copy_def)
  qed
qed


section \<open>Pbufs with memory of their own\<close>

definition own_memory :: "(nat \<rightharpoonup> pbuf) \<Rightarrow> nat list \<Rightarrow> bool" where
  "own_memory P xs \<longleftrightarrow> (\<forall>x \<in> set xs. \<exists>b. P x = Some b \<and> \<not> is_custom b \<and> (pb_type b = PBUF_POOL \<or> pb_type b = PBUF_RAM))"

lemma pool_elems_spaced:
  assumes "a \<in> set (pool_elems d)" "b \<in> set (pool_elems d)" "a \<noteq> b"
  shows "a + unat (desc_size d) \<le> b \<or> b + unat (desc_size d) \<le> a"
proof -
  let ?z = "unat (desc_size d)" and ?m = "LWIP_MEM_ALIGN (desc_base d)"
  obtain i j where ij: "a = ?m + i * ?z" "b = ?m + j * ?z" using assms(1,2) unfolding set_pool_elems by blast
  with assms(3) have "i < j \<or> j < i" by (metis nat_neq_iff)
  moreover have "u * ?z + ?z \<le> v * ?z" if "u < v" for u v
    using mult_le_mono1 [of "Suc u" v ?z] that by (simp add: Suc_le_eq)
  ultimately show ?thesis using ij by fastforce
qed

text \<open>The memory a pbuf of its own kind owns: an element of the pool or an area of the heap.\<close>

definition room :: "net \<Rightarrow> (nat \<times> nat) multiset \<Rightarrow> nat \<Rightarrow> nat \<Rightarrow> bool" where
  "room s M a k \<longleftrightarrow> a \<in> set (pool_elems (pool_desc s)) \<and> k = 144 \<or> (a, k) \<in># M"

lemma own_room:
  assumes "pbuf_inv s" "mem_areas (ram (net_heap s)) M (net_heap s)"
    and "\<forall>a \<in> ram_pbufs s. \<exists>k. (a, k) \<in># M \<and> (\<forall>b. pbufs s a = Some b \<longrightarrow> in_room (a + k) a b)"
    and "pbufs s a = Some b" "\<not> is_custom b" "pb_type b = PBUF_POOL \<or> pb_type b = PBUF_RAM"
  shows "\<exists>k pl. room s M a k \<and> pb_payload b = Some pl \<and> a + 16 \<le> pl \<and> pl + pb_len b \<le> a + k"
proof (cases "pb_type b = PBUF_POOL")
  case True
  then have "a \<in> pool_pbufs s" using assms by (auto simp: pool_pbufs_def)
  then show ?thesis using pbuf_inv_parts(7) [OF assms(1,4)] pbuf_inv_elems(1) [OF assms(1)]
    by (auto simp: room_def in_room_def split: option.splits)
next
  case False
  then have "a \<in> ram_pbufs s" using assms by (auto simp: ram_pbufs_def)
  with assms(3,4) show ?thesis by (fastforce simp: room_def in_room_def split: option.splits)
qed

lemma room_apart:
  assumes inv: "pbuf_inv s" "mem_areas (ram (net_heap s)) M (net_heap s)" and r: "room s M a k" "room s M b j" "a \<noteq> b"
  shows "a + k \<le> b \<or> b + j \<le> a"
proof -
  have sz: "unat (desc_size (pool_desc s)) = 144"
    and off: "\<And>x. x \<in> set (pool_elems (pool_desc s)) \<Longrightarrow> x + 144 \<le> ram (net_heap s) \<or> ram (net_heap s) + 512 \<le> x"
    using pbuf_inv_parts(1) [OF inv(1)] by (auto simp: layout_ok_def list_all_iff)
  have rng: "ram (net_heap s) \<le> x \<and> x + n \<le> ram (net_heap s) + 512" if "(x, n) \<in># M" for x n
    using heap.areas_range [OF inv(2) that] by simp
  show ?thesis
    using r pool_elems_spaced [of a "pool_desc s" b] sz off [of a] off [of b] rng [of a k] rng [of b j] heap.areas_disjoint [OF inv(2), of a k b j]
    unfolding room_def by fastforce
qed

end
