(* ===== verification/Pbuf_Props.thy ===== *)
theory Pbuf_Props
  imports Pbuf_Copy
begin

text \<open>
  The properties of packet buffers: what \<open>pbuf_free\<close> keeps, when \<open>pbuf_alloc\<close> succeeds, where payloads lie, and what each
  operation on a chain does to the byte string the chain stands for.
\<close>

section \<open>Memory of chains\<close>

lemma bytes_upd_holds [simp]: "holds (s\<lparr>bytes := M\<rparr>) q p = holds s q p"
  by (simp add: holds_def split: option.split)

lemma bytes_upd_views [simp]:
  "ref_of (s\<lparr>bytes := M\<rparr>) p = ref_of s p" "held (s\<lparr>bytes := M\<rparr>) p = held s p"
  "pool_pbufs (s\<lparr>bytes := M\<rparr>) = pool_pbufs s" "ref_pbufs (s\<lparr>bytes := M\<rparr>) = ref_pbufs s" "ram_pbufs (s\<lparr>bytes := M\<rparr>) = ram_pbufs s"
  "heap_ok (s\<lparr>bytes := M\<rparr>) = heap_ok s"
  by (simp_all add: ref_of_def held_def pool_pbufs_def ref_pbufs_def ram_pbufs_def heap_ok_def)

lemma net_ok_bytes [simp]: "pbuf_inv (s\<lparr>bytes := M\<rparr>) = pbuf_inv s" "net_ok E (s\<lparr>bytes := M\<rparr>) = net_ok E s"
  by (simp_all add: net_ok_def pbuf_inv_def refs_ok_def)

lemma own_memory_simps [simp]:
  "own_memory P []" "own_memory P (xs @ ys) \<longleftrightarrow> own_memory P xs \<and> own_memory P ys"
  "own_memory P (a # as) \<longleftrightarrow> (\<exists>b. P a = Some b \<and> \<not> is_custom b \<and> (pb_type b = PBUF_POOL \<or> pb_type b = PBUF_RAM)) \<and> own_memory P as"
  by (auto simp: own_memory_def)

lemma heap_okE:
  assumes "pbuf_inv s"
  obtains M where "mem_areas (ram (net_heap s)) M (net_heap s)"
    "\<forall>a \<in> ram_pbufs s. \<exists>k. (a, k) \<in># M \<and> (\<forall>b. pbufs s a = Some b \<longrightarrow> in_room (a + k) a b)"
  using pbuf_inv_parts(5) [OF assms] by (auto simp: heap_ok_def)

lemma own_apart:
  assumes inv: "pbuf_inv s" and own: "own_memory (pbufs s) [x, y]" "x \<noteq> y"
    and x: "pbufs s x = Some b" "pb_payload b = Some pl" and y: "pbufs s y = Some c" "pb_payload c = Some ql"
  shows "apart pl (pb_len b) ql (pb_len c)"
proof -
  obtain M where M: "mem_areas (ram (net_heap s)) M (net_heap s)"
    "\<forall>a \<in> ram_pbufs s. \<exists>k. (a, k) \<in># M \<and> (\<forall>b. pbufs s a = Some b \<longrightarrow> in_room (a + k) a b)" by (rule heap_okE [OF inv])
  from own_room [OF inv M x(1)] own x obtain k where k: "room s M x k" "x + 16 \<le> pl" "pl + pb_len b \<le> x + k" by auto
  from own_room [OF inv M y(1)] own y obtain j where j: "room s M y j" "y + 16 \<le> ql" "ql + pb_len c \<le> y + j" by auto
  from room_apart [OF inv M(1) k(1) j(1) own(2)] k j show ?thesis by (auto simp: apart_def)
qed

lemma own_payload:
  assumes "pbuf_inv s" "own_memory (pbufs s) [x]"
  obtains b pl where "pbufs s x = Some b" "pb_payload b = Some pl" "x + 16 \<le> pl"
proof -
  obtain M where M: "mem_areas (ram (net_heap s)) M (net_heap s)"
    "\<forall>a \<in> ram_pbufs s. \<exists>k. (a, k) \<in># M \<and> (\<forall>b. pbufs s a = Some b \<longrightarrow> in_room (a + k) a b)" by (rule heap_okE [OF assms(1)])
  from assms(2) obtain b where "pbufs s x = Some b" "\<not> is_custom b" "pb_type b = PBUF_POOL \<or> pb_type b = PBUF_RAM" by auto
  with own_room [OF assms(1) M] that show ?thesis by blast
qed

lemma own_payloads: "\<lbrakk>pbuf_inv s; own_memory (pbufs s) xs\<rbrakk> \<Longrightarrow> payloads (\<lambda>_ _. True) (pbufs s) xs"
proof (induction xs)
  case (Cons x xs)
  then have "own_memory (pbufs s) [x]" by auto
  from own_payload [OF Cons.prems(1) this] Cons show ?case by (metis own_memory_simps(3) payloads_simps(2))
qed simp

lemma own_payloads_apart:
  assumes inv: "pbuf_inv s" and a: "own_memory (pbufs s) [a]" "pbufs s a = Some b" "pb_payload b = Some pl"
  shows "\<lbrakk>own_memory (pbufs s) xs; a \<notin> set xs\<rbrakk> \<Longrightarrow> payloads (apart pl (pb_len b)) (pbufs s) xs"
proof (induction xs)
  case (Cons x xs)
  then have x: "own_memory (pbufs s) [x]" "own_memory (pbufs s) [a, x]" "a \<noteq> x" using a(1) by auto
  obtain c ql where c: "pbufs s x = Some c" "pb_payload c = Some ql" by (rule own_payload [OF inv x(1)])
  with Cons own_apart [OF inv x(2,3) a(2,3) c] show ?case by simp
qed simp

lemma own_separate: "\<lbrakk>pbuf_inv s; own_memory (pbufs s) xs; distinct xs\<rbrakk> \<Longrightarrow> separate (pbufs s) xs"
  by (induction xs) (auto intro!: own_payloads_apart)

lemma own_data_apart:
  assumes inv: "pbuf_inv s" and own: "own_memory (pbufs s) xs" "own_memory (pbufs s) ys" "set xs \<inter> set ys = {}"
  shows "data_apart (pbufs s) xs ys"
  using own(1,3)
proof (induction xs)
  case (Cons x xs)
  then have x: "own_memory (pbufs s) [x]" "own_memory (pbufs s) xs" "x \<notin> set ys" by auto
  obtain c ql where c: "pbufs s x = Some c" "pb_payload c = Some ql" by (rule own_payload [OF inv x(1)])
  have "payloads (apart ql (pb_len c)) (pbufs s) ys" by (rule own_payloads_apart [OF inv x(1) c own(2) x(3)])
  with Cons x c show ?case by (simp add: data_apart_def)
qed (simp add: data_apart_def)

text \<open>Freeing keeps the data of what is still referred to.\<close>

lemma shrunk_same_data:
  assumes "shrunk s s'" "x \<in> dom (pbufs s')"
  shows "same_data (pbufs s) (pbufs s') x"
proof -
  from assms(2) obtain b' where b': "pbufs s' x = Some b'" by blast
  from shrunkD(2) [OF assms(1) this] obtain b where "pbufs s x = Some b" "b' = b\<lparr>pb_ref := pb_ref b'\<rparr>" by blast
  then have "pb_payload b' = pb_payload b" "pb_len b' = pb_len b"
    by (metis pbuf.simps pbuf.ext_inject pbuf.surjective pbuf.update_convs(7))+
  with b' \<open>pbufs s x = Some b\<close> show ?thesis by (simp add: same_data_def)
qed

lemma referenced_chain_kept:
  assumes sh: "shrunk s s'" and ok: "net_ok E s'" "0 < E q" and ch: "chain (pbufs s) (Some q) ys"
  shows "chain (pbufs s') (Some q) ys \<and> chain_data (pbufs s') (bytes s') ys = chain_data (pbufs s) (bytes s) ys"
proof -
  have refs: "refs_ok E s'" using ok(1) by (simp add: net_ok_def)
  have next_eq: "\<exists>b. pbufs s x = Some b \<and> pb_next b = pb_next b'" if "pbufs s' x = Some b'" for x b'
    using shrunkD(2) [OF sh that] by (metis pbuf.simps pbuf.ext_inject pbuf.surjective pbuf.update_convs(7))
  have "chain (pbufs s) p ys \<Longrightarrow> (\<And>a. p = Some a \<Longrightarrow> \<exists>b. pbufs s' a = Some b \<and> 0 < pb_ref b) \<Longrightarrow> set ys \<subseteq> dom (pbufs s')" for p
  proof (induction ys arbitrary: p)
    case (Cons a ys)
    then obtain b b' where b: "p = Some a" "pbufs s a = Some b" "chain (pbufs s) (pb_next b) ys" "pbufs s' a = Some b'" "0 < pb_ref b'"
      by (fastforce simp: chain_Cons)
    have "\<exists>c. pbufs s' a' = Some c \<and> 0 < pb_ref c" if "pb_next b = Some a'" for a'
      using refs_ok_next_live [OF refs b(4,5)] next_eq [OF b(4)] b(2) that by simp
    with Cons.IH [OF b(3)] b(4) show ?case by auto
  qed simp
  from this [OF ch] refs_ok_live [OF refs ok(2)] have dom: "set ys \<subseteq> dom (pbufs s')" by simp
  have "bytes s' = bytes s" using shrunkD(1) [OF sh] by (simp add: same_rest_def)
  moreover have "chain_data (pbufs s') M ys = chain_data (pbufs s) M ys" for M
    using shrunk_same_data [OF sh] dom by (intro chain_data_cong) blast
  ultimately show ?thesis using chain_shrunk [OF sh ch dom] by simp
qed

section \<open>An initialised stack\<close>

text \<open>The eleven pools of \<^verbatim>\<open>priv/memp_std.h\<close> with the numbers of elements of \<^verbatim>\<open>port/lwipopts.h\<close> and \<^verbatim>\<open>opt.h\<close>.\<close>

definition example_net_pools :: "memp_desc list" where
  "example_net_pools = map (\<lambda>(i, sz, n). \<lparr>desc_id = i, desc_size = sz, desc_num = n, desc_base = 2000 + 3000 * i\<rparr>)
     [(0, 28, 2), (1, 32, 4), (2, 156, 3), (3, 28, 8), (4, 20, 8), (5, 32, 10), (6, 24, 15), (7, 8, 30), (8, 16, 15), (9, 16, 8), (10, 144, 16)]"

definition example_net :: net where
  "example_net = \<lparr>net_heap = example_heap, net_memp = memp_init example_net_pools example_memp, net_pools = example_net_pools,
     pbufs = Map.empty, bytes = (\<lambda>a. of_nat a), stale_flags = (\<lambda>_. 0), customs = Map.empty, pbuf_free_ooseq_pending = False\<rparr>"

text \<open>Pools in ascending order that do not reach into the next one.\<close>

definition before :: "memp_desc \<Rightarrow> memp_desc \<Rightarrow> bool" where
  "before d d' \<longleftrightarrow> desc_id d \<noteq> desc_id d' \<and> LWIP_MEM_ALIGN (desc_base d) + unat (desc_num d) * unat (desc_size d) \<le> desc_base d'"

lemma pool_elems_range:
  "a \<in> set (pool_elems d) \<Longrightarrow> desc_base d \<le> a \<and> a + unat (desc_size d) \<le> LWIP_MEM_ALIGN (desc_base d) + unat (desc_num d) * unat (desc_size d)"
proof -
  assume "a \<in> set (pool_elems d)"
  then obtain i where i: "a = LWIP_MEM_ALIGN (desc_base d) + i * unat (desc_size d)" "i < unat (desc_num d)"
    unfolding set_pool_elems by (auto simp only: image_iff atLeastLessThan_iff)
  then have "i * unat (desc_size d) + unat (desc_size d) \<le> unat (desc_num d) * unat (desc_size d)"
    using mult_le_mono1 [of "Suc i" "unat (desc_num d)" "unat (desc_size d)"] by simp
  with i LWIP_MEM_ALIGN_bounds(1) [of "desc_base d"] show ?thesis by simp
qed

lemma before_apart: "before d d' \<Longrightarrow> desc_ok d \<Longrightarrow> pools_apart d d' \<and> pools_apart d' d"
  by (fastforce simp: before_def pools_apart_def desc_ok_def dest: pool_elems_range)

lemma pools_layout_ascending: "sorted_wrt before ds \<Longrightarrow> list_all desc_ok ds \<Longrightarrow> pools_layout ds"
  by (induction ds) (auto simp: list_all_iff before_apart)

lemma layout_ok_ascending:
  assumes "length ds = 11" "sorted_wrt before ds" "list_all desc_ok ds" "unat (desc_size (ds ! 10)) = 144"
    and "list_all (\<lambda>d. r + 512 \<le> desc_base d) ds"
  shows "layout_ok ds r"
proof -
  have "r + 512 \<le> a" if "i < 11" "a \<in> set (pool_elems (ds ! i))" for i a
    using that assms(1,5) pool_elems_range [of a "ds ! i"] list_all_length [of _ ds] by (auto intro: le_trans)
  then have "list_all (\<lambda>a. a + z \<le> r \<or> r + 512 \<le> a) (pool_elems (ds ! i))" if "i < 11" for i z
    using that by (auto simp: list_all_iff)
  with assms pools_layout_ascending show ?thesis by (simp add: layout_ok_def)
qed

lemma example_net_layout: "layout_ok example_net_pools 1004"
  by (rule layout_ok_ascending) (simp_all add: example_net_pools_def before_def desc_ok_def LWIP_MEM_ALIGN_def)

lemma example_net_ok: "net_ok (\<lambda>_. 0) example_net"
proof -
  have lay: "pools_layout example_net_pools" using example_net_layout by (simp add: layout_ok_def)
  have "memp_inv d {} (memp_init example_net_pools example_memp)" if "d \<in> set example_net_pools" for d
    by (rule memp_init_inv [OF lay _ that]) (simp add: example_memp_def)
  moreover have "mem_areas 1004 {#} example_heap"
    by (rule mem_areasI [of _ _ "[(512, False)]"]) (simp_all add: example_heap_inv)
  moreover have "length example_net_pools = 11" by (simp add: example_net_pools_def)
  ultimately show ?thesis
    using example_net_layout
    by (simp add: net_ok_def pbuf_inv_def refs_ok_def example_net_def ref_of_def held_def heap_ok_def pool_pbufs_def ref_pbufs_def ram_pbufs_def
        example_heap_inv(2) exI [of _ "{#}"])
qed

text \<open>A packet of 200 bytes in two pbufs of the pool.\<close>

lemma example_packet:
  obtains p xs s where "pbuf_alloc PBUF_RAW 200 PBUF_POOL example_net = Some (Some p, s)"
    "new_chain (\<lambda>_. 0) PBUF_RAW 200 PBUF_POOL example_net p xs s" "length xs = 2"
proof -
  have "pool_need PBUF_RAW 200 = 2" "card (pool_pbufs example_net) = 0" "unat (desc_num (pool_desc example_net)) = 16"
    by (simp_all add: pool_need_def pool_pbufs_def example_net_def example_net_pools_def)
  with alloc_pool_ok [OF example_net_ok, of 200 PBUF_RAW] that show ?thesis by auto
qed

lemma new_chain_parts:
  assumes "new_chain E l n ty s p xs s'"
  shows "net_ok (E(p := 1)) s'" "chain (pbufs s') (Some p) xs" "chain_len (pbufs s') xs = n" "plain (pbufs s') xs" "E p = 0"
    "ty = PBUF_POOL \<or> ty = PBUF_RAM \<Longrightarrow> own_memory (pbufs s') xs" "bytes s' = bytes s" "set xs \<inter> dom (pbufs s) = {}"
    "x \<notin> set xs \<Longrightarrow> pbufs s' x = pbufs s x" "run_of (pbufs s') xs = xs" "customs s' = customs s" "same_rest s s'"
proof -
  have one: "\<exists>b. pbufs s' x = Some b \<and> pb_ref b = 1 \<and> \<not> is_custom b \<and> pb_type b = ty" if "x \<in> set xs" for x
    using assms that by (simp add: new_chain_def)
  show "plain (pbufs s') xs" unfolding plain_def list_all_iff using one by fastforce
  show "own_memory (pbufs s') xs" if "ty = PBUF_POOL \<or> ty = PBUF_RAM" unfolding own_memory_def using one that by fastforce
  show "run_of (pbufs s') xs = xs" unfolding run_of_def takeWhile_eq_all_conv using one by fastforce
qed (use assms in \<open>auto simp: new_chain_def same_rest_def\<close>)

text \<open>The size of a \<open>PBUF_RAM\<close> pbuf is computed in 16 bits: a request of 65524 bytes asks the heap for 4.\<close>

lemma pbuf_alloc_ram_wraps:
  "\<exists>p s b. pbuf_alloc PBUF_RAW 65524 PBUF_RAM example_net = Some (Some p, s) \<and> pbufs s p = Some b \<and> pb_len b = 65524"
proof -
  have r: "rounded 4 = 12" by (simp add: rounded_def LWIP_MEM_ALIGN_SIZE_def)
  obtain h where h: "mem_malloc 4 example_heap = Some (Some 1012, h)"
    using mem_malloc_eq [OF example_heap_inv(1), of 4] by (auto simp: r example_heap_inv(2) append_eq_Cons_conv Cons_eq_append_conv)
  have "to_u16 (LWIP_MEM_ALIGN_SIZE 16 + LWIP_MEM_ALIGN_SIZE 65524) = 4" by (simp add: to_u16_def LWIP_MEM_ALIGN_SIZE_def)
  with h show ?thesis
    by (simp add: pbuf_alloc_def net_mem_malloc_def example_net_def put_pbuf_def upd_pbuf_def LWIP_MEM_ALIGN_def)
qed

section \<open>Properties\<close>

text \<open>C3: \<open>pbuf_free\<close> is safe. A holder of a reference may give it up: the call returns, the account of references,
  the pools and the heap stay consistent, and every chain to which a reference remains is intact, with all its data.\<close>

theorem pbuf_free_keeps_referenced:
  assumes "net_ok E s" "0 < E a"
  shows "\<exists>n s'. pbuf_free (Some a) s = Some (n, s') \<and> net_ok (E(a := E a - 1)) s'
    \<and> (\<forall>q ys. 0 < (E(a := E a - 1)) q \<longrightarrow> chain (pbufs s) (Some q) ys \<longrightarrow>
         chain (pbufs s') (Some q) ys \<and> chain_data (pbufs s') (bytes s') ys = chain_data (pbufs s) (bytes s) ys)"
proof -
  obtain n s' where s': "pbuf_free (Some a) s = Some (n, s')" "net_ok (E(a := E a - 1)) s'" "shrunk s s'"
    using pbuf_free_ok [OF assms] by blast
  with referenced_chain_kept [OF s'(3,2)] show ?thesis by blast
qed

theorem pbuf_free_keeps_referenced_witness:
  "\<exists>p s n s'. pbuf_alloc PBUF_RAW 200 PBUF_POOL example_net = Some (Some p, s) \<and> pbuf_free (Some p) s = Some (n, s')
     \<and> net_ok ((\<lambda>_. 0)(p := 0)) s'"
proof -
  obtain p xs s where p: "pbuf_alloc PBUF_RAW 200 PBUF_POOL example_net = Some (Some p, s)"
    "new_chain (\<lambda>_. 0) PBUF_RAW 200 PBUF_POOL example_net p xs s" by (rule example_packet)
  with pbuf_free_keeps_referenced [OF new_chain_parts(1) [OF p(2)], of p] show ?thesis by (auto simp del: fun_upd_apply simp: fun_upd_same)
qed

text \<open>what \<open>pbuf_free\<close> frees. From the head of the chain on, the pbufs to which there is no other reference are freed,
  up to the first that has one, whose count is decreased by one; nothing else changes. The result is the number of pbufs
  freed, kept in eight bits.\<close>

theorem pbuf_free_frees_run:
  assumes "net_ok E s" "chain (pbufs s) (Some p) xs" "plain (pbufs s) xs"
  shows "\<exists>s'. pbuf_free (Some p) s = Some (length (run_of (pbufs s) xs) mod 256, s') \<and> pbufs s' = drop_run (pbufs s) xs
    \<and> customs s' = customs s \<and> bytes s' = bytes s"
  using free_chain_exact [of s "Some p" xs 0] assms by (auto simp: pbuf_free_def net_ok_def chain_def same_rest_def)

theorem pbuf_free_frees_run_witness:
  "\<exists>p s s'. pbuf_alloc PBUF_RAW 200 PBUF_POOL example_net = Some (Some p, s) \<and> pbuf_free (Some p) s = Some (2, s')"
proof -
  obtain p xs s where p: "pbuf_alloc PBUF_RAW 200 PBUF_POOL example_net = Some (Some p, s)"
    "new_chain (\<lambda>_. 0) PBUF_RAW 200 PBUF_POOL example_net p xs s" "length xs = 2" by (rule example_packet)
  from pbuf_free_frees_run [OF new_chain_parts(1,2,4) [OF p(2)]] p(1,3) new_chain_parts(10) [OF p(2)] show ?thesis by auto
qed

text \<open>C17: allocation from the pool. A packet of \<open>n\<close> bytes is handed out if and only if enough elements are left: as a chain of
  fresh pbufs with these \<open>n\<close> bytes, room for the headers of the layer in front and one reference. Otherwise the result is the null
  pointer; then no pbuf has changed, all elements taken on the way are back, and the release of out-of-order TCP data is requested.\<close>

theorem pbuf_alloc_pool_contract:
  assumes "net_ok E s" "n < 65536"
  shows "if card (pool_pbufs s) + pool_need l n \<le> unat (desc_num (pool_desc s))
    then \<exists>p xs s'. pbuf_alloc l n PBUF_POOL s = Some (Some p, s') \<and> new_chain E l n PBUF_POOL s p xs s' \<and> length xs = pool_need l n
    else \<exists>s'. pbuf_alloc l n PBUF_POOL s = Some (None, s') \<and> net_ok E s' \<and> pbufs s' = pbufs s \<and> customs s' = customs s
      \<and> pbuf_free_ooseq_pending s' \<and> bytes s' = bytes s \<and> net_pools s' = net_pools s"
  by (rule alloc_pool_ok [OF assms])

theorem pbuf_alloc_pool_contract_witness:
  "(\<exists>p xs s'. pbuf_alloc PBUF_IP 500 PBUF_POOL example_net = Some (Some p, s') \<and> length xs = 5
      \<and> chain (pbufs s') (Some p) xs \<and> chain_len (pbufs s') xs = 500)
   \<and> (\<exists>s'. pbuf_alloc PBUF_IP 3000 PBUF_POOL example_net = Some (None, s') \<and> pbufs s' = Map.empty)"
proof -
  have "pool_need PBUF_IP 500 = 5" "pool_need PBUF_IP 3000 = 24" "card (pool_pbufs example_net) = 0" "unat (desc_num (pool_desc example_net)) = 16"
    by (simp_all add: pool_need_def pool_pbufs_def example_net_def example_net_pools_def)
  moreover have "pbufs example_net = Map.empty" by (simp add: example_net_def)
  ultimately show ?thesis
    using pbuf_alloc_pool_contract [OF example_net_ok, of 500 PBUF_IP] pbuf_alloc_pool_contract [OF example_net_ok, of 3000 PBUF_IP]
    by (auto simp: new_chain_def)
qed

lemma drop_run_all:
  "(\<forall>x \<in> set xs. \<exists>b. P x = Some b \<and> pb_ref b = 1) \<Longrightarrow> drop_run P xs = (\<lambda>x. if x \<in> set xs then None else P x)"
  by (induction xs) (auto simp: fun_eq_iff)

text \<open>allocating and freeing. Freeing a chain that \<open>pbuf_alloc\<close> has just returned gives back all its pbufs: the store of
  pbufs is what it was, and the result is the number of pbufs of the chain.\<close>

theorem pbuf_alloc_free_roundtrip:
  assumes "net_ok E s" "n \<le> 32000" "pbuf_alloc l n PBUF_POOL s = Some (Some p, s')"
  shows "\<exists>s''. pbuf_free (Some p) s' = Some (pool_need l n, s'') \<and> pbufs s'' = pbufs s \<and> net_ok E s''"
proof -
  from alloc_pool_ok [OF assms(1), of n l] assms(2,3) obtain xs where
    xs: "new_chain E l n PBUF_POOL s p xs s'" "length xs = pool_need l n" by (auto split: if_splits)
  note parts = new_chain_parts [OF xs(1)]
  have inv: "pbuf_inv s'" using parts(1) by (simp add: net_ok_def)
  have "pool_need l n < 256" using assms(2) by (cases l) (auto simp: pool_need_def)
  then obtain s'' where s'': "pbuf_free (Some p) s' = Some (pool_need l n, s'')" "pbufs s'' = drop_run (pbufs s') xs"
    using free_chain_exact [OF inv _ parts(4), of "Some p" 0] parts(2,10) xs(2) by (auto simp: pbuf_free_def chain_def)
  have "\<forall>x \<in> set xs. \<exists>b. pbufs s' x = Some b \<and> pb_ref b = 1" using xs(1) by (auto simp: new_chain_def)
  then have "drop_run (pbufs s') xs = (\<lambda>x. if x \<in> set xs then None else pbufs s' x)" by (rule drop_run_all)
  moreover have "pbufs s x = None" if "x \<in> set xs" for x using parts(8) that by blast
  ultimately have "drop_run (pbufs s') xs = pbufs s" using parts(9) by (intro ext) auto
  moreover have "net_ok E s''" using pbuf_free_ok [OF parts(1), of p] s''(1) parts(5) by (auto simp: fun_upd_idem)
  ultimately show ?thesis using s'' by simp
qed

theorem pbuf_alloc_free_roundtrip_witness:
  "\<exists>p s s''. pbuf_alloc PBUF_RAW 200 PBUF_POOL example_net = Some (Some p, s) \<and> pbuf_free (Some p) s = Some (2, s'') \<and> pbufs s'' = Map.empty"
proof -
  obtain p xs s where p: "pbuf_alloc PBUF_RAW 200 PBUF_POOL example_net = Some (Some p, s)" by (rule example_packet)
  from pbuf_alloc_free_roundtrip [OF example_net_ok _ p] p show ?thesis by (auto simp: pool_need_def example_net_def)
qed

text \<open>The payload of a pbuf with memory of its own lies inside that memory, and apart from that of every other one.\<close>

lemma payload_in_bounds:
  assumes "net_ok E s" "own_memory (pbufs s) [x]" "pbufs s x = Some b" "pb_payload b = Some pl"
  shows "x + SIZEOF_STRUCT_PBUF \<le> pl" and "pb_type b = PBUF_POOL \<Longrightarrow> pl + pb_len b \<le> x + unat (desc_size (pool_desc s))"
    and "pb_type b = PBUF_RAM \<Longrightarrow> ram (net_heap s) \<le> x \<and> pl + pb_len b \<le> ram (net_heap s) + 512"
    and "\<lbrakk>own_memory (pbufs s) [y]; pbufs s y = Some c; pb_payload c = Some ql; x \<noteq> y\<rbrakk> \<Longrightarrow> apart pl (pb_len b) ql (pb_len c)"
proof -
  have inv: "pbuf_inv s" using assms(1) by (simp add: net_ok_def)
  show "x + SIZEOF_STRUCT_PBUF \<le> pl" using own_payload [OF inv assms(2)] assms(3,4) by (metis option.inject)
  have "unat (desc_size (pool_desc s)) = 144" using pbuf_inv_parts(1) [OF inv] by (simp add: layout_ok_def)
  moreover have "in_room (x + 144) x b" if "pb_type b = PBUF_POOL"
    using that assms(2,3) by (intro pbuf_inv_parts(7) [OF inv]) (auto simp: pool_pbufs_def)
  ultimately show "pb_type b = PBUF_POOL \<Longrightarrow> pl + pb_len b \<le> x + unat (desc_size (pool_desc s))" using assms(4) by (simp add: in_room_def)
  show "ram (net_heap s) \<le> x \<and> pl + pb_len b \<le> ram (net_heap s) + 512" if "pb_type b = PBUF_RAM"
  proof -
    obtain M where M: "mem_areas (ram (net_heap s)) M (net_heap s)"
      "\<forall>a \<in> ram_pbufs s. \<exists>k. (a, k) \<in># M \<and> (\<forall>b. pbufs s a = Some b \<longrightarrow> in_room (a + k) a b)" by (rule heap_okE [OF inv])
    have "x \<in> ram_pbufs s" using that assms(2,3) by (auto simp: ram_pbufs_def)
    with M(2) assms(3,4) obtain k where "(x, k) \<in># M" "pl + pb_len b \<le> x + k" by (fastforce simp: in_room_def)
    with heap.areas_range [OF M(1)] show ?thesis by fastforce
  qed
  show "apart pl (pb_len b) ql (pb_len c)" if "own_memory (pbufs s) [y]" "pbufs s y = Some c" "pb_payload c = Some ql" "x \<noteq> y"
    using assms(2) that by (intro own_apart [OF inv _ _ assms(3,4)]) auto
qed

lemma pbuf_alloc_new_chain:
  assumes ok: "net_ok E s" and n: "layer_offset l + 16 + LWIP_MEM_ALIGN_SIZE n \<le> 65532"
    and ty: "ty = PBUF_POOL \<or> ty = PBUF_RAM" and p: "pbuf_alloc l n ty s = Some (Some p, s')"
  obtains xs where "new_chain E l n ty s p xs s'"
  using ty
proof
  assume "ty = PBUF_POOL"
  moreover have "n < 65536" using n by (simp add: LWIP_MEM_ALIGN_SIZE_def)
  ultimately show ?thesis using alloc_pool_ok [OF ok, of n l] p that by (auto split: if_splits)
next
  assume "ty = PBUF_RAM"
  then show ?thesis using alloc_ram_ok [OF ok n] p that by auto
qed

text \<open>C28: allocated memory is in bounds and is nobody else's. A packet that \<open>pbuf_alloc\<close> takes from the pool or the heap is a chain
  of new pbufs with the requested total length; the first one leaves the room in front of its payload that the
  layer asks for; the payload of each of them lies behind its header and ends inside its pool element or inside the heap; and it overlaps the
  payload of no other pbuf with memory of its own, old or new. The pbufs that existed before are unchanged.\<close>

theorem pbuf_alloc_in_bounds:
  assumes "net_ok E s" and "layer_offset l + 16 + LWIP_MEM_ALIGN_SIZE n \<le> 65532"
    and "ty = PBUF_POOL \<or> ty = PBUF_RAM" and "pbuf_alloc l n ty s = Some (Some p, s')"
  shows "\<exists>xs. chain (pbufs s') (Some p) xs \<and> chain_len (pbufs s') xs = n
    \<and> (\<exists>b. pbufs s' p = Some b \<and> pb_payload b = Some (p + SIZEOF_STRUCT_PBUF + layer_offset l))
    \<and> (\<forall>x \<in> set xs. pbufs s x = None \<and> (\<exists>b pl. pbufs s' x = Some b \<and> pb_payload b = Some pl \<and> x + SIZEOF_STRUCT_PBUF \<le> pl
        \<and> (if ty = PBUF_POOL then pl + pb_len b \<le> x + unat (desc_size (pool_desc s))
            else ram (net_heap s) \<le> x \<and> pl + pb_len b \<le> ram (net_heap s) + 512)
        \<and> (\<forall>y c ql. own_memory (pbufs s') [y] \<and> pbufs s' y = Some c \<and> pb_payload c = Some ql \<and> x \<noteq> y
             \<longrightarrow> apart pl (pb_len b) ql (pb_len c))))
    \<and> (\<forall>y. y \<notin> set xs \<longrightarrow> pbufs s' y = pbufs s y)"
proof -
  obtain xs where new: "new_chain E l n ty s p xs s'" by (rule pbuf_alloc_new_chain [OF assms])
  note parts = new_chain_parts [OF new]
  have "p \<in> set xs \<or> xs = []" using parts(2) by (cases xs) (auto simp: chain_Cons)
  then have p: "\<exists>b. pbufs s' p = Some b \<and> pb_payload b = Some (p + 16 + layer_offset l)"
    using new assms(3) by (fastforce simp: new_chain_def chain_def)
  have "\<exists>b pl. pbufs s' x = Some b \<and> pb_payload b = Some pl \<and> x + 16 \<le> pl
        \<and> (if ty = PBUF_POOL then pl + pb_len b \<le> x + unat (desc_size (pool_desc s))
            else ram (net_heap s) \<le> x \<and> pl + pb_len b \<le> ram (net_heap s) + 512)
        \<and> (\<forall>y c ql. own_memory (pbufs s') [y] \<and> pbufs s' y = Some c \<and> pb_payload c = Some ql \<and> x \<noteq> y \<longrightarrow> apart pl (pb_len b) ql (pb_len c))"
    if x: "x \<in> set xs" for x
  proof -
    have own: "own_memory (pbufs s') [x]" using parts(6) [OF assms(3)] x by (simp add: own_memory_def)
    have "pbuf_inv s'" using parts(1) by (simp add: net_ok_def)
    from own_payload [OF this own] obtain b pl where b: "pbufs s' x = Some b" "pb_payload b = Some pl" by blast
    have "pb_type b = ty" using new x b(1) by (auto simp: new_chain_def)
    moreover have "net_pools s' = net_pools s" "ram (net_heap s') = ram (net_heap s)" using parts(12) by (simp_all add: same_rest_def)
    moreover note payload_in_bounds [OF parts(1) own b]
    ultimately show ?thesis using assms(3) b by (intro exI [of _ b] exI [of _ pl]) auto
  qed
  with parts(2,3,8,9) p show ?thesis by (intro exI [of _ xs]) blast
qed

theorem pbuf_alloc_in_bounds_witness:
  "\<exists>p xs s b. pbuf_alloc PBUF_IP 500 PBUF_POOL example_net = Some (Some p, s) \<and> chain (pbufs s) (Some p) xs \<and> chain_len (pbufs s) xs = 500
     \<and> pbufs s p = Some b \<and> pb_payload b = Some (p + SIZEOF_STRUCT_PBUF + 52)"
proof -
  have "pool_need PBUF_IP 500 = 5" "card (pool_pbufs example_net) = 0" "unat (desc_num (pool_desc example_net)) = 16"
    by (simp_all add: pool_need_def pool_pbufs_def example_net_def example_net_pools_def)
  with alloc_pool_ok [OF example_net_ok, of 500 PBUF_IP] obtain p s where p: "pbuf_alloc PBUF_IP 500 PBUF_POOL example_net = Some (Some p, s)" by auto
  have "layer_offset PBUF_IP + 16 + LWIP_MEM_ALIGN_SIZE 500 \<le> 65532" "layer_offset PBUF_IP = 52" by (simp_all add: LWIP_MEM_ALIGN_SIZE_def)
  with pbuf_alloc_in_bounds [OF example_net_ok _ _ p] p show ?thesis by metis
qed

text \<open>Concatenation. \<open>pbuf_cat\<close> appends the data of the tail to that of the head, with correct total lengths, and takes over
  the caller's reference to the tail; no byte is copied.\<close>

theorem pbuf_cat_appends:
  assumes "net_ok E s" "0 < E h" "0 < E t" "chain (pbufs s) (Some h) xs" "chain (pbufs s) (Some t) ys"
    and "set xs \<inter> set ys = {}" "chain_len (pbufs s) xs + chain_len (pbufs s) ys < 65536"
  shows "\<exists>s'. pbuf_cat (Some h) (Some t) s = Some s' \<and> net_ok (E(t := E t - 1)) s' \<and> chain (pbufs s') (Some h) (xs @ ys)
    \<and> bytes s' = bytes s \<and> chain_data (pbufs s') (bytes s') (xs @ ys) = chain_data (pbufs s) (bytes s) xs @ chain_data (pbufs s) (bytes s) ys"
proof -
  from pbuf_cat_ok [OF assms] obtain s' where
    s': "pbuf_cat (Some h) (Some t) s = Some s'" "net_ok (E(t := E t - 1)) s'" "chain (pbufs s') (Some h) (xs @ ys)"
    "\<forall>x. same_data (pbufs s) (pbufs s') x" "same_rest s s'" by blast
  have "chain_data (pbufs s') (bytes s) (xs @ ys) = chain_data (pbufs s) (bytes s) (xs @ ys)" using s'(4) by (intro chain_data_cong) simp
  with s' show ?thesis by (auto simp: same_rest_def)
qed

text \<open>Two packets.\<close>

lemma example_two_packets:
  obtains p q xs ys s where "net_ok ((\<lambda>_. 0)(p := 1, q := 1)) s" "p \<noteq> q" "chain (pbufs s) (Some p) xs" "chain (pbufs s) (Some q) ys"
    "set xs \<inter> set ys = {}" "chain_len (pbufs s) xs = 200" "chain_len (pbufs s) ys = 100" "length xs = 2" "length ys = 1"
    "own_memory (pbufs s) xs" "own_memory (pbufs s) ys"
proof -
  obtain p xs s where p: "new_chain (\<lambda>_. 0) PBUF_RAW 200 PBUF_POOL example_net p xs s" "length xs = 2" by (rule example_packet)
  note parts = new_chain_parts [OF p(1)]
  have pools: "net_pools s = example_net_pools" using parts(12) by (simp add: same_rest_def example_net_def)
  have "pbufs example_net = Map.empty" by (simp add: example_net_def)
  then have "pool_pbufs s \<subseteq> set xs" using parts(9) unfolding pool_pbufs_def by force
  then have "card (pool_pbufs s) \<le> 2" using card_mono [of "set xs" "pool_pbufs s"] card_length [of xs] p(2) by simp
  then have "card (pool_pbufs s) + pool_need PBUF_RAW 100 \<le> unat (desc_num (pool_desc s))"
    by (simp add: pool_need_def pools) (simp add: example_net_pools_def)
  with alloc_pool_ok [OF parts(1), of 100 PBUF_RAW] obtain q ys s' where
    q: "new_chain ((\<lambda>_. 0)(p := 1)) PBUF_RAW 100 PBUF_POOL s q ys s'" "length ys = pool_need PBUF_RAW 100" by auto
  note parts' = new_chain_parts [OF q(1)]
  have disj: "set xs \<inter> set ys = {}" using parts'(8) chain_live [OF parts(2)] by blast
  have same: "pbufs s' x = pbufs s x" if "x \<in> set xs" for x using disj that by (intro parts'(9)) blast
  have "chain (pbufs s') (Some p) xs" using parts(2)
    by (rule chain_cong(1)) (use chain_live [OF parts(2)] in \<open>auto simp: same_links_def same split: option.splits\<close>)
  moreover have "chain_len (pbufs s') xs = 200" using chain_len_cong [of xs "pbufs s'" "pbufs s"] same parts(3) by (simp add: plen_def)
  moreover have "own_memory (pbufs s') xs" using parts(6) same by (simp add: own_memory_def)
  moreover have "p \<noteq> q" using parts'(5) by auto
  ultimately show ?thesis using that [of p q s' xs ys] parts' disj p(2) q(2) by (simp add: pool_need_def)
qed

theorem pbuf_cat_appends_witness:
  "\<exists>p q xs ys s s'. length xs = 2 \<and> length ys = 1 \<and> pbuf_cat (Some p) (Some q) s = Some s' \<and> chain (pbufs s') (Some p) (xs @ ys)"
proof -
  obtain p q xs ys s where s: "net_ok ((\<lambda>_. 0)(p := 1, q := 1)) s" "p \<noteq> q" "chain (pbufs s) (Some p) xs" "chain (pbufs s) (Some q) ys"
    "set xs \<inter> set ys = {}" "chain_len (pbufs s) xs = 200" "chain_len (pbufs s) ys = 100" "length xs = 2" "length ys = 1" by (rule example_two_packets)
  with pbuf_cat_appends [OF s(1) _ _ s(3-5)] show ?thesis by auto
qed

text \<open>The type, the count and the custom flag of a pbuf.\<close>

definition same_kind :: "(nat \<rightharpoonup> pbuf) \<Rightarrow> (nat \<rightharpoonup> pbuf) \<Rightarrow> nat \<Rightarrow> bool" where
  "same_kind P P' x \<longleftrightarrow> (\<exists>b b'. P x = Some b \<and> P' x = Some b' \<and> pb_ref b' = pb_ref b \<and> pb_type b' = pb_type b \<and> is_custom b' = is_custom b)"

lemma realloc_prefix:
  assumes "net_ok E s" "0 < E p" "chain (pbufs s) (Some p) xs" "plain (pbufs s) xs" "payloads Q (pbufs s) xs"
    and "chain_len (pbufs s) xs < 65536" "new_len < chain_len (pbufs s) xs"
  shows "\<exists>s' us vs. pbuf_realloc (Some p) new_len s = Some s' \<and> net_ok E s' \<and> xs = us @ vs \<and> chain (pbufs s') (Some p) us
    \<and> chain_data (pbufs s') (bytes s') us = take new_len (chain_data (pbufs s) (bytes s) xs)
    \<and> (\<forall>x \<in> set us. same_kind (pbufs s) (pbufs s') x)"
proof -
  let ?P = "pbufs s"
  from pbuf_realloc_ok [OF assms(1-4,6,7)] obtain us a vs b s' where
    s': "xs = us @ a # vs" "chain_len ?P us \<le> new_len" "new_len - chain_len ?P us \<le> plen ?P a" "pbuf_realloc (Some p) new_len s = Some s'"
    "net_ok E s'" "same_rest s s'" "?P a = Some b"
    "\<forall>x. x \<in> set us \<longrightarrow> pbufs s' x = map_option (\<lambda>b. b\<lparr>pb_tot_len := pb_tot_len b - (chain_len ?P xs - new_len)\<rparr>) (?P x)"
    "pbufs s' a = Some (b\<lparr>pb_len := new_len - chain_len ?P us, pb_tot_len := new_len - chain_len ?P us, pb_next := None\<rparr>)" by blast
  define r where "r = new_len - chain_len ?P us"
  have ch: "chain ?P (Some p) (us @ a # vs)" using assms(3) s'(1) by simp
  have r: "r \<le> pb_len b" "chain_len ?P us + r = new_len" using s'(2,3,7) by (simp_all add: r_def plen_def)
  have gap: "chain_len ?P (a # vs) - r = chain_len ?P xs - new_len" using r(2) s'(1) by simp
  have "chain (pbufs s') (Some p) (us @ [a])"
    by (rule realloc_chain(1) [OF ch s'(7) r(1)]) (use s'(8,9) gap r_def in auto)
  moreover have "chain_data (pbufs s') (bytes s) us = chain_data ?P (bytes s) us"
    using s'(8) by (intro chain_data_cong) (auto simp: same_data_def option.map_comp comp_def)
  moreover obtain pl where "pb_payload b = Some pl" using assms(5) s'(1,7) by auto
  then have "pbytes (pbufs s') (bytes s) a = take r (pbytes ?P (bytes s) a)" using s'(7,9) r(1) by (simp add: pbytes_eq r_def min_absorb1)
  moreover have "length (chain_data ?P (bytes s) us) = chain_len ?P us" "length (pbytes ?P (bytes s) a) = pb_len b"
    using assms(5) s'(1,7) by (auto intro: length_chain_data simp: pbytes_eq)
  ultimately have "chain (pbufs s') (Some p) (us @ [a])" "chain_data (pbufs s') (bytes s) (us @ [a]) = take new_len (chain_data ?P (bytes s) xs)"
    using r s'(1) r_def by (simp_all add: take_append)
  moreover have "xs = (us @ [a]) @ vs" "bytes s' = bytes s" using s'(1,6) by (simp_all add: same_rest_def)
  moreover have "same_kind ?P (pbufs s') x" if "x \<in> set (us @ [a])" for x
  proof (cases "x = a")
    case True
    with s'(7,9) show ?thesis by (simp add: same_kind_def is_custom_def)
  next
    case False
    with that s'(8) chain_live [OF ch] show ?thesis by (fastforce simp: same_kind_def)
  qed
  ultimately show ?thesis using s'(4,5) by - (rule exI [of _ s'], rule exI [of _ "us @ [a]"], rule exI [of _ vs], simp)
qed

text \<open>C29: shrinking. \<open>pbuf_realloc\<close> keeps the first \<open>new_len\<close> bytes of the data, with correct total lengths, in a prefix of the
  chain, and frees the pbufs behind it.\<close>

theorem pbuf_realloc_keeps_prefix:
  assumes "net_ok E s" "0 < E p" "chain (pbufs s) (Some p) xs" "plain (pbufs s) xs" "payloads Q (pbufs s) xs"
    and "chain_len (pbufs s) xs < 65536" "new_len < chain_len (pbufs s) xs"
  shows "\<exists>s' us vs. pbuf_realloc (Some p) new_len s = Some s' \<and> net_ok E s' \<and> xs = us @ vs \<and> chain (pbufs s') (Some p) us
    \<and> chain_data (pbufs s') (bytes s') us = take new_len (chain_data (pbufs s) (bytes s) xs)"
  using realloc_prefix [OF assms] by blast

theorem pbuf_realloc_keeps_prefix_witness:
  "\<exists>p s s' us. pbuf_alloc PBUF_RAW 200 PBUF_POOL example_net = Some (Some p, s) \<and> pbuf_realloc (Some p) 100 s = Some s'
     \<and> chain (pbufs s') (Some p) us \<and> length (chain_data (pbufs s') (bytes s') us) \<le> 100"
proof -
  obtain p xs s where p: "pbuf_alloc PBUF_RAW 200 PBUF_POOL example_net = Some (Some p, s)"
    "new_chain (\<lambda>_. 0) PBUF_RAW 200 PBUF_POOL example_net p xs s" by (rule example_packet)
  note parts = new_chain_parts [OF p(2)]
  have "pbuf_inv s" using parts(1) by (simp add: net_ok_def)
  from own_payloads [OF this parts(6)] have pl: "payloads (\<lambda>_ _. True) (pbufs s) xs" by simp
  from pbuf_realloc_keeps_prefix [OF parts(1) _ parts(2,4) pl, of 100] parts(3) p(1) show ?thesis by fastforce
qed

text \<open>C30: copying in and out. Bytes written into a chain with \<open>pbuf_take_at\<close> are read back by \<open>pbuf_copy_partial\<close> at the same
  offset, wherever the boundaries of the pbufs are; the rest of the data of the chain is as before.\<close>

theorem take_at_copy_partial_roundtrip:
  assumes "chain (pbufs s) (Some p) xs" "payloads (apart d len) (pbufs s) xs" "payloads (apart d' len) (pbufs s) xs" "separate (pbufs s) xs"
    and "off < chain_len (pbufs s) xs" "off + len \<le> chain_len (pbufs s) xs" "chain_len (pbufs s) xs < 65536"
  shows "\<exists>s' s''. pbuf_take_at (Some p) (Some d) len off s = Some (ERR_OK, s') \<and> pbuf_copy_partial (Some p) (Some d') len off s' = Some (len, s'')
    \<and> rd (bytes s'') d' len = rd (bytes s) d len
    \<and> chain_data (pbufs s) (bytes s') xs = take off (chain_data (pbufs s) (bytes s) xs) @ rd (bytes s) d len @ drop (off + len) (chain_data (pbufs s) (bytes s) xs)"
proof -
  let ?P = "pbufs s" and ?D = "chain_data (pbufs s) (bytes s) xs"
  from pbuf_take_at_eq [OF assms(1,2,4,7), of off] assms(5,6) obtain M' where
    M': "pbuf_take_at (Some p) (Some d) len off s = Some (ERR_OK, s\<lparr>bytes := M'\<rparr>)"
    "chain_data ?P M' xs = take off ?D @ rd (bytes s) d len @ drop (off + len) ?D" by (simp split: if_splits) blast
  have "length ?D = chain_len ?P xs" by (rule length_chain_data [OF assms(2)])
  with assms(6) have z: "take len (drop off (chain_data ?P M' xs)) = rd (bytes s) d len" unfolding M'(2) by simp
  have "pbuf_copy_partial (Some p) (Some d') len off (s\<lparr>bytes := M'\<rparr>) = Some (len, s\<lparr>bytes := wr M' d' (rd (bytes s) d len)\<rparr>)"
    using copy_partial_loop_eq [of "s\<lparr>bytes := M'\<rparr>" "Some p" xs d' 0 len 0 off] assms(1,3,6,7) z
    by (simp add: pbuf_copy_partial_def chain_def Let_def)
  moreover have "rd (wr M' d' (rd (bytes s) d len)) d' len = rd (bytes s) d len" using rd_wr [of M' d' "rd (bytes s) d len"] by simp
  ultimately show ?thesis using M' by (intro exI conjI) (assumption | simp)+
qed

lemma own_chain_far:
  assumes "net_ok E s" "own_memory (pbufs s) xs" "d + len \<le> 1000" "ram (net_heap s) = 1004" "net_pools s = example_net_pools"
  shows "payloads (apart d len) (pbufs s) xs"
proof -
  have inv: "pbuf_inv s" using assms(1) by (simp add: net_ok_def)
  have "1000 \<le> x" if x: "x \<in> set xs" for x
  proof -
    from assms(2) x have "x \<in> pool_pbufs s \<or> x \<in> ram_pbufs s" by (auto simp: own_memory_def pool_pbufs_def ram_pbufs_def)
    moreover have "2000 \<le> desc_base (pool_desc s)" unfolding assms(5) by (simp add: example_net_pools_def)
    ultimately show ?thesis using pbuf_inv_elems [OF inv] assms(4) pool_elems_range [of x "pool_desc s"] by auto
  qed
  then show ?thesis using assms(2)
  proof (induction xs)
    case (Cons x xs)
    then have "own_memory (pbufs s) [x]" by simp
    then obtain b pl where "pbufs s x = Some b" "pb_payload b = Some pl" "x + 16 \<le> pl" by (rule own_payload [OF inv])
    moreover from this have "apart d len pl (pb_len b)" using Cons.prems(1) [of x] assms(3) by (simp add: apart_def)
    moreover have "payloads (apart d len) (pbufs s) xs" using Cons by simp
    ultimately show ?case by simp
  qed simp
qed

theorem take_at_copy_partial_roundtrip_witness:
  "\<exists>p s s' s''. pbuf_alloc PBUF_RAW 200 PBUF_POOL example_net = Some (Some p, s)
     \<and> pbuf_take_at (Some p) (Some 100) 60 100 s = Some (ERR_OK, s') \<and> pbuf_copy_partial (Some p) (Some 300) 60 100 s' = Some (60, s'')
     \<and> rd (bytes s'') 300 60 = rd (bytes example_net) 100 60"
proof -
  obtain p xs s where p: "pbuf_alloc PBUF_RAW 200 PBUF_POOL example_net = Some (Some p, s)"
    "new_chain (\<lambda>_. 0) PBUF_RAW 200 PBUF_POOL example_net p xs s" by (rule example_packet)
  note parts = new_chain_parts [OF p(2)]
  have own: "own_memory (pbufs s) xs" "ram (net_heap s) = 1004" "net_pools s = example_net_pools"
    using parts(6,12) by (simp_all add: same_rest_def example_net_def example_heap_inv(2))
  have "separate (pbufs s) xs" using parts(1) own(1) chain_distinct [OF parts(2)] by (intro own_separate) (simp_all add: net_ok_def)
  from take_at_copy_partial_roundtrip [OF parts(2) own_chain_far [OF parts(1) own(1) _ own(2,3)] own_chain_far [OF parts(1) own(1) _ own(2,3)] this,
      of 100 60 300 100]
  show ?thesis using p(1) parts(3,7) by auto
qed

lemma chain_agree:
  assumes "\<And>x. x \<in> set xs \<Longrightarrow> P' x = P x" "chain P p xs"
  shows "chain P' p xs" "own_memory P xs \<Longrightarrow> own_memory P' xs" "filled P xs \<Longrightarrow> filled P' xs" "chain_len P' xs = chain_len P xs"
    "chain_data P' M xs = chain_data P M xs"
proof -
  have "same_links P P' x" if "x \<in> set xs" for x using that chain_live [OF assms(2)] assms(1) [OF that] by (auto simp: same_links_def)
  then show "chain P' p xs" by (rule chain_cong(1) [OF assms(2)])
  have same: "plen P' x = plen P x" if "x \<in> set xs" for x using assms(1) [OF that] by (simp add: plen_def)
  then show "chain_len P' xs = chain_len P xs" by (rule chain_len_cong)
  show "filled P xs \<Longrightarrow> filled P' xs" using same by (simp add: filled_def)
  show "own_memory P xs \<Longrightarrow> own_memory P' xs" using assms(1) by (simp add: own_memory_def)
  show "chain_data P' M xs = chain_data P M xs" using assms(1) by (intro chain_data_cong) (simp add: same_data_def)
qed

text \<open>C31: coalescing. When the chain has several pbufs and the heap can provide a pbuf for all its data, \<open>pbuf_coalesce\<close> returns a
  new single pbuf with exactly the data of the chain, and the caller's reference to the chain is given up. Exactly when the chain is a single
  pbuf already or the allocation fails, it returns the chain itself, unchanged.\<close>

theorem pbuf_coalesce_same_data:
  assumes ok: "net_ok E s" "0 < E p" and ch: "chain (pbufs s) (Some p) xs" "own_memory (pbufs s) xs" "filled (pbufs s) xs"
    and len: "layer_offset l + 16 + LWIP_MEM_ALIGN_SIZE (chain_len (pbufs s) xs) \<le> 65532" "chain_len (pbufs s) xs < 65536"
  shows "\<exists>q s'. pbuf_coalesce p l s = Some (q, s') \<and>
    (if length xs = 1 \<or> (\<exists>s1. pbuf_alloc l (chain_len (pbufs s) xs) PBUF_RAM s = Some (None, s1))
     then q = p \<and> pbufs s' = pbufs s \<and> bytes s' = bytes s \<and> net_ok E s'
     else q \<noteq> p \<and> net_ok (E(q := 1, p := E p - 1)) s' \<and> chain (pbufs s') (Some q) [q] \<and> chain_data (pbufs s') (bytes s') [q] = chain_data (pbufs s) (bytes s) xs)"
proof (cases "length xs = 1")
  case True
  then obtain b where "xs = [p]" "pbufs s p = Some b" "pb_next b = None" using ch(1) by (cases xs) (auto simp: chain_Cons)
  then show ?thesis using ok(1) by (simp add: pbuf_coalesce_def)
next
  case False
  have "xs \<noteq> []" using ch(1) by (auto simp: chain_def)
  then have ch4: "1 < length xs" using False by (cases xs) auto
  show ?thesis
  proof -
    let ?P = "pbufs s" and ?n = "chain_len (pbufs s) xs"
    obtain as where as: "xs = p # as" "as \<noteq> []" using ch(1) ch4 by (cases xs) (auto simp: chain_Cons)
    then obtain b where b: "?P p = Some b" "pb_next b \<noteq> None" "pb_tot_len b = ?n" using ch(1) by (auto simp: chain_Cons plen_def neq_Nil_conv)
    from alloc_ram_ok [OF ok(1) len(1)] show ?thesis
    proof (elim disjE exE conjE)
      fix s' assume s': "pbuf_alloc l ?n PBUF_RAM s = Some (None, s')" "net_ok E s'" "pbufs s' = ?P" "same_rest s s'"
      then have "pbuf_coalesce p l s = Some (p, s')" using b by (auto simp: pbuf_coalesce_def)
      with s' False show ?thesis by (auto simp: same_rest_def)
    next
      fix q s1 assume s1: "pbuf_alloc l ?n PBUF_RAM s = Some (Some q, s1)" "new_chain E l ?n PBUF_RAM s q [q] s1"
      note parts = new_chain_parts [OF s1(2)]
      let ?P1 = "pbufs s1"
      have inv: "pbuf_inv s1" using parts(1) by (simp add: net_ok_def)
      have "q \<notin> dom ?P" using parts(8) by simp
      then have q: "q \<notin> set xs" using chain_live [OF ch(1)] by (meson subsetD)
      then have same: "?P1 x = ?P x" if "x \<in> set xs" for x using that by (intro parts(9)) auto
      have xs: "chain ?P1 (Some p) xs" "own_memory ?P1 xs" "filled ?P1 xs" "chain_len ?P1 xs = ?n" "chain_data ?P1 M xs = chain_data ?P M xs" for M
        using chain_agree [of xs ?P1 ?P "Some p"] same ch(1-3) by metis+
      have "?n \<noteq> 0" using filled_len [OF ch(3)] as by simp
      then have fill: "filled ?P1 [q]" using parts(3) by simp
      have "separate ?P1 [q]" "data_apart ?P1 [q] xs" "payloads (\<lambda>_ _. True) ?P1 xs"
        using inv parts(6) xs(2) q by (auto intro!: own_data_apart own_payloads)
      from pbuf_copy_eq [OF parts(2) xs(1) fill xs(3) this] parts(3) len(2) xs(4) obtain M' where
        M': "pbuf_copy (Some q) (Some p) s1 = Some (ERR_OK, s1\<lparr>bytes := M'\<rparr>)"
        "chain_data ?P1 M' [q] = chain_data ?P1 (bytes s1) xs @ drop ?n (chain_data ?P1 (bytes s1) [q])" by auto
      have "length (chain_data ?P1 (bytes s1) [q]) = ?n" using length_chain_data [OF own_payloads [OF inv parts(6)]] parts(3) by simp
      then have dat: "chain_data ?P1 M' [q] = chain_data ?P (bytes s) xs" using M'(2) xs(5) parts(7) by simp
      have pq: "p \<noteq> q" using q as by auto
      from parts(1) have "net_ok (E(q := 1)) (s1\<lparr>bytes := M'\<rparr>)" by simp
      from pbuf_free_ok [OF this, of p] pq ok(2) obtain n s' where
        s': "pbuf_free (Some p) (s1\<lparr>bytes := M'\<rparr>) = Some (n, s')" "net_ok (E(q := 1, p := E p - 1)) s'" "shrunk (s1\<lparr>bytes := M'\<rparr>) s'" by auto
      have "chain (pbufs s') (Some q) [q] \<and> chain_data (pbufs s') (bytes s') [q] = chain_data ?P1 M' [q]"
        using referenced_chain_kept [OF s'(3,2), of q "[q]"] pq parts(2) by simp
      moreover have "pbuf_coalesce p l s = Some (q, s')" using b s1(1) M'(1) s'(1) by (auto simp: pbuf_coalesce_def)
      ultimately show ?thesis using s'(2) pq dat s1(1) False by auto
    qed
  qed
qed

lemma pool_len_le:
  assumes "net_ok E s" "own_memory (pbufs s) [x]" "pbufs s x = Some b" "pb_type b = PBUF_POOL"
  shows "plen (pbufs s) x \<le> 128"
proof -
  have "in_room (x + 144) x b" using assms by (intro pbuf_inv_parts(7)) (auto simp: net_ok_def pool_pbufs_def)
  then show ?thesis using assms(3) by (auto simp: in_room_def plen_def split: option.splits)
qed

lemma example_packet_filled:
  assumes "new_chain (\<lambda>_. 0) PBUF_RAW 200 PBUF_POOL example_net p xs s" "length xs = 2"
  shows "filled (pbufs s) xs"
proof -
  note parts = new_chain_parts [OF assms(1)]
  have "plen (pbufs s) x \<le> 128" if x: "x \<in> set xs" for x
  proof -
    from assms(1) x obtain b where "pbufs s x = Some b" "\<not> is_custom b" "pb_type b = PBUF_POOL" by (auto simp: new_chain_def)
    then show ?thesis by (intro pool_len_le [OF parts(1)]) auto
  qed
  moreover from assms(2) obtain y z where "xs = [y, z]" by (auto simp: length_Suc_conv numeral_2_eq_2)
  ultimately have "plen (pbufs s) y \<le> 128" "plen (pbufs s) z \<le> 128" "xs = [y, z]" by simp_all
  with parts(3) show ?thesis by simp
qed

lemma pool_tail_heap: "pool_tail p r k s = Some (True, s') \<Longrightarrow> net_heap s' = net_heap s"
proof (induction k arbitrary: p r s rule: less_induct)
  case (less k)
  show ?case
  proof (cases "k > 0")
    case True
    with less.prems [unfolded pool_tail.simps [of p r k s]] show ?thesis
      by (auto simp: upd_pbuf_def net_memp_malloc_def Let_def put_pbuf_def split: if_splits bind_splits option.splits simp del: pool_tail.simps
          dest!: less.IH [rotated])
  next
    case False
    with less.prems show ?thesis by (simp add: pool_tail.simps)
  qed
qed

text \<open>Allocating from the pool does not touch the heap.\<close>

lemma alloc_pool_heap: "pbuf_alloc l n PBUF_POOL s = Some (Some p, s') \<Longrightarrow> net_heap s' = net_heap s"
  by (auto simp: pbuf_alloc_def upd_pbuf_def net_memp_malloc_def Let_def split: if_splits bind_splits option.splits dest!: pool_tail_heap)

theorem pbuf_coalesce_same_data_witness:
  "\<exists>p xs s q s'. pbuf_alloc PBUF_RAW 200 PBUF_POOL example_net = Some (Some p, s) \<and> chain (pbufs s) (Some p) xs \<and> length xs = 2
     \<and> pbuf_coalesce p PBUF_RAW s = Some (q, s') \<and> q \<noteq> p \<and> chain (pbufs s') (Some q) [q]
     \<and> chain_data (pbufs s') (bytes s') [q] = chain_data (pbufs s) (bytes s) xs"
proof -
  obtain p xs s where p: "pbuf_alloc PBUF_RAW 200 PBUF_POOL example_net = Some (Some p, s)"
    "new_chain (\<lambda>_. 0) PBUF_RAW 200 PBUF_POOL example_net p xs s" "length xs = 2" by (rule example_packet)
  note parts = new_chain_parts [OF p(2)]
  have heap: "net_heap s = example_heap" using alloc_pool_heap [OF p(1)] by (simp add: example_net_def)
  have r: "rounded 216 = 216" by (simp add: rounded_def LWIP_MEM_ALIGN_SIZE_def)
  obtain h where h: "mem_malloc 216 example_heap = Some (Some 1012, h)"
    using mem_malloc_eq [OF example_heap_inv(1), of 216] by (auto simp: r example_heap_inv(2) append_eq_Cons_conv Cons_eq_append_conv)
  have "to_u16 (LWIP_MEM_ALIGN_SIZE 16 + LWIP_MEM_ALIGN_SIZE 200) = 216" by (simp add: to_u16_def LWIP_MEM_ALIGN_SIZE_def)
  with h heap have room: "\<nexists>s1. pbuf_alloc PBUF_RAW 200 PBUF_RAM s = Some (None, s1)"
    by (simp add: pbuf_alloc_def net_mem_malloc_def put_pbuf_def upd_pbuf_def LWIP_MEM_ALIGN_def)
  from pbuf_coalesce_same_data [OF parts(1) _ parts(2) parts(6) example_packet_filled [OF p(2,3)], of PBUF_RAW] p(3) parts(3) room
  have "\<exists>q s'. pbuf_coalesce p PBUF_RAW s = Some (q, s') \<and> q \<noteq> p \<and> chain (pbufs s') (Some q) [q]
     \<and> chain_data (pbufs s') (bytes s') [q] = chain_data (pbufs s) (bytes s) xs" by (auto simp: LWIP_MEM_ALIGN_SIZE_def)
  with p(1,3) parts(2) show ?thesis by blast
qed

text \<open>Searching. \<open>pbuf_memfind\<close> returns the first position at or after the given offset where the bytes occur in the data of the
  chain, even across boundaries of pbufs, or \<open>0xFFFF\<close> when they occur nowhere.\<close>

theorem pbuf_memfind_first:
  assumes "chain (pbufs s) (Some p) xs" "payloads Q (pbufs s) xs" "chain_len (pbufs s) xs < 65536" "0 < n" "n < 65536"
  shows "\<exists>r. pbuf_memfind p m n off s = Some r \<and> search_result (rd (bytes s) m n) off (chain_data (pbufs s) (bytes s) xs) r"
  by (rule memfind_eq [OF assms])

theorem pbuf_memfind_first_witness:
  "\<exists>p xs s r. pbuf_alloc PBUF_RAW 200 PBUF_POOL example_net = Some (Some p, s) \<and> pbuf_memfind p 100 4 10 s = Some r
     \<and> search_result (rd (bytes s) 100 4) 10 (chain_data (pbufs s) (bytes s) xs) r"
proof -
  obtain p xs s where p: "pbuf_alloc PBUF_RAW 200 PBUF_POOL example_net = Some (Some p, s)"
    "new_chain (\<lambda>_. 0) PBUF_RAW 200 PBUF_POOL example_net p xs s" by (rule example_packet)
  note parts = new_chain_parts [OF p(2)]
  have "pbuf_inv s" using parts(1) by (simp add: net_ok_def)
  from own_payloads [OF this parts(6)] have pl: "payloads (\<lambda>_ _. True) (pbufs s) xs" by simp
  from pbuf_memfind_first [OF parts(2) pl, of 4 100 10] parts(3) p(1) show ?thesis by auto
qed

text \<open>Headers. Hiding the first \<open>n\<close> bytes of a pbuf with memory of its own and revealing them again restores the pbuf; the
  payload pointer is never moved in front of the pbuf's memory, an attempt to do so fails and changes nothing.\<close>

theorem pbuf_header_roundtrip:
  assumes "net_ok E s" "pbufs s a = Some b" "pb_payload b = Some pl" "own_memory (pbufs s) [a]"
    and "0 < n" "n \<le> 32767" "pb_len b \<le> pb_tot_len b" "pb_tot_len b < 32768"
  shows "(n \<le> pb_len b \<longrightarrow> (\<exists>s'. pbuf_header (Some a) (- int n) s = Some (0, s') \<and> pbuf_header (Some a) (int n) s' = Some (0, s)
      \<and> pbufs s' a = Some (b\<lparr>pb_payload := Some (pl + n), pb_len := pb_len b - n, pb_tot_len := pb_tot_len b - n\<rparr>)))
    \<and> (pl < a + SIZEOF_STRUCT_PBUF + n \<longrightarrow> pbuf_header (Some a) (int n) s = Some (1, s))"
proof -
  have ty: "pb_type b = PBUF_RAM \<or> pb_type b = PBUF_POOL" "\<not> is_custom b" using assms(2,4) by auto
  have "pbuf_inv s" using assms(1) by (simp add: net_ok_def)
  then have room: "a + 16 \<le> pl" using own_payload [of s a] assms(2-4) by (metis option.inject)
  let ?b = "b\<lparr>pb_payload := Some (pl + n), pb_len := pb_len b - n, pb_tot_len := pb_tot_len b - n\<rparr>"
  have "pbuf_header (Some a) (- int n) s = Some (0, put_pbuf a ?b s) \<and> pbuf_header (Some a) (int n) (put_pbuf a ?b s) = Some (0, s)"
    if n: "n \<le> pb_len b"
  proof
    note hide = pbuf_header_hide [OF assms(1-3,5) n]
    show "pbuf_header (Some a) (- int n) s = Some (0, put_pbuf a ?b s)" using hide(1) assms(6-8) room by (simp add: pbuf_header_def)
    have ok: "net_ok E (put_pbuf a ?b s)" using hide(2) assms(6-8) room by simp
    have "put_pbuf a (?b\<lparr>pb_payload := Some (pl + n - n), pb_len := pb_len ?b + n, pb_tot_len := pb_tot_len ?b + n\<rparr>) (put_pbuf a ?b s) = s"
      using n assms(2,3,7) by (simp add: put_pbuf_def fun_upd_idem)
    then show "pbuf_header (Some a) (int n) (put_pbuf a ?b s) = Some (0, s)"
      using pbuf_header_reveal(1) [OF ok, of a ?b "pl + n" n False] ty(1) n assms(5-8) room by (simp add: pbuf_header_def)
  qed
  moreover have "pbuf_header (Some a) (int n) s = Some (1, s)" if "pl < a + 16 + n"
    using pbuf_header_reveal(3) [OF assms(1-3) ty(1) assms(5,6,7), of False] that assms(6,8) by (simp add: pbuf_header_def)
  ultimately show ?thesis by auto
qed

theorem pbuf_header_roundtrip_witness:
  "\<exists>p s s'. pbuf_alloc PBUF_RAW 200 PBUF_POOL example_net = Some (Some p, s) \<and> pbuf_header (Some p) (- 1) s = Some (0, s')
     \<and> pbuf_header (Some p) 1 s' = Some (0, s)"
proof -
  obtain p xs s where p: "pbuf_alloc PBUF_RAW 200 PBUF_POOL example_net = Some (Some p, s)"
    "new_chain (\<lambda>_. 0) PBUF_RAW 200 PBUF_POOL example_net p xs s" "length xs = 2" by (rule example_packet)
  note parts = new_chain_parts [OF p(2)]
  obtain as where xs: "xs = p # as" using parts(2) p(3) by (cases xs) (auto simp: chain_Cons)
  have own: "own_memory (pbufs s) [p]" using parts(6) xs by simp
  have "pbuf_inv s" using parts(1) by (simp add: net_ok_def)
  then obtain b pl where b: "pbufs s p = Some b" "pb_payload b = Some pl" using own_payload own by blast
  have "pb_len b \<le> pb_tot_len b" "pb_tot_len b = 200" "0 < pb_len b"
    using parts(2,3) xs b(1) example_packet_filled [OF p(2,3)] by (auto simp: chain_Cons plen_def)
  with pbuf_header_roundtrip [OF parts(1) b own, of 1] p(1) show ?thesis by auto
qed

end
