(* ===== verification/Slipif.thy ===== *)
theory Slipif
  imports Pbuf_Props
begin

text \<open>
  \<^verbatim>\<open>netif/slipif.c\<close>: the serial line interface, which frames packets with the bytes of SLIP, and \<^verbatim>\<open>port/sio.c\<close>, the serial
  port it uses.

  The UART and the mailbox of the kernel are not part of the repository: \<open>UART_write\<close>, \<open>Mailbox_post\<close> and \<open>Mailbox_pend\<close>
  are parameters that act on a state \<open>'w\<close> of the devices. What the code relies on is stated by \<open>uart_ok\<close> (a blocking write puts
  the byte on the line) and \<open>mailbox_ok\<close> (a bounded queue of bytes).

  Main results: the receiver refines an abstract one that only knows the bytes received so far, never aborts and never writes
  outside its packet, whatever comes in on the line; and a packet sent with \<open>slipif_output\<close> is received unchanged.
\<close>

section \<open>Definitions\<close>

abbreviation (input) SLIP_END :: u8 where "SLIP_END \<equiv> 0xC0"
abbreviation (input) SLIP_ESC :: u8 where "SLIP_ESC \<equiv> 0xDB"
abbreviation (input) SLIP_ESC_END :: u8 where "SLIP_ESC_END \<equiv> 0xDC"
abbreviation (input) SLIP_ESC_ESC :: u8 where "SLIP_ESC_ESC \<equiv> 0xDD"
abbreviation (input) SLIP_MAX_SIZE :: nat where "SLIP_MAX_SIZE \<equiv> 1500"
abbreviation (input) PBUF_POOL_BUFSIZE :: nat where "PBUF_POOL_BUFSIZE \<equiv> 128"

datatype slipif_recv_state = SLIP_RECV_NORMAL | SLIP_RECV_ESCAPE

text \<open>The private data of the interface, with the counters of \<^verbatim>\<open>lwip_stats.link\<close> it updates.\<close>

record slipif_priv =
  sl_p :: ptr
  sl_q :: ptr
  sl_state :: slipif_recv_state
  sl_i :: nat
  sl_recved :: nat
  link_recv :: u16
  link_drop :: u16

subsection \<open>Sending\<close>

definition sio_send :: "(u8 \<Rightarrow> 'w \<Rightarrow> bool \<times> 'w) \<Rightarrow> u8 \<Rightarrow> 'w \<Rightarrow> 'w" where
  "sio_send UART_write c w = snd (UART_write c w)"

definition output_byte :: "(u8 \<Rightarrow> 'w \<Rightarrow> bool \<times> 'w) \<Rightarrow> u8 \<Rightarrow> 'w \<Rightarrow> 'w" where
  "output_byte UART_write c w =
     (if c = SLIP_END then sio_send UART_write SLIP_ESC_END (sio_send UART_write SLIP_ESC w)
      else if c = SLIP_ESC then sio_send UART_write SLIP_ESC_ESC (sio_send UART_write SLIP_ESC w)
      else sio_send UART_write c w)"

text \<open>The bytes of one pbuf: \<open>n\<close> of them are left, from the address \<open>a\<close>.\<close>

fun output_bytes :: "(u8 \<Rightarrow> 'w \<Rightarrow> bool \<times> 'w) \<Rightarrow> (nat \<Rightarrow> u8) \<Rightarrow> nat \<Rightarrow> nat \<Rightarrow> 'w \<Rightarrow> 'w" where
  "output_bytes UART_write M a 0 w = w"
| "output_bytes UART_write M a (Suc n) w = output_bytes UART_write M (a + 1) n (output_byte UART_write (M a) w)"

partial_function (option) output_loop :: "(u8 \<Rightarrow> 'w \<Rightarrow> bool \<times> 'w) \<Rightarrow> net \<Rightarrow> ptr \<Rightarrow> 'w \<Rightarrow> 'w option" where
  "output_loop UART_write s q w =
     (case q of
        None \<Rightarrow> Some w
      | Some a \<Rightarrow> Option.bind (pbufs s a) (\<lambda>b.
          if pb_len b = 0 then output_loop UART_write s (pb_next b) w
          else Option.bind (pb_payload b) (\<lambda>pl.
            output_loop UART_write s (pb_next b) (output_bytes UART_write (bytes s) pl (pb_len b) w))))"

definition slipif_output :: "(u8 \<Rightarrow> 'w \<Rightarrow> bool \<times> 'w) \<Rightarrow> ptr \<Rightarrow> net \<Rightarrow> 'w \<Rightarrow> (err_t \<times> 'w) option" where
  "slipif_output UART_write p s w = do {
     lwip_assert (p \<noteq> None);
     let w = sio_send UART_write SLIP_END w;
     w \<leftarrow> output_loop UART_write s p w;
     let w = sio_send UART_write SLIP_END w;
     Some (ERR_OK, w)
   }"

definition slipif_output_v4 :: "(u8 \<Rightarrow> 'w \<Rightarrow> bool \<times> 'w) \<Rightarrow> ptr \<Rightarrow> u32 \<Rightarrow> net \<Rightarrow> 'w \<Rightarrow> (err_t \<times> 'w) option" where
  "slipif_output_v4 UART_write p ipaddr s w = slipif_output UART_write p s w"

subsection \<open>Receiving\<close>

text \<open>The part of \<open>slipif_rxbyte\<close> after the state machine: \<open>c\<close> is a byte of the packet.\<close>

definition rx_store :: "u8 \<Rightarrow> slipif_priv \<Rightarrow> net \<Rightarrow> (ptr \<times> slipif_priv \<times> net) option" where
  "rx_store c priv s =
     (if sl_recved priv \<le> SLIP_MAX_SIZE then do {
        p \<leftarrow> sl_p priv;
        b \<leftarrow> pbufs s p;
        pl \<leftarrow> pb_payload b;
        let s = s\<lparr>bytes := (bytes s)(pl + sl_i priv := c)\<rparr>;
        let priv = priv\<lparr>sl_recved := to_u16 (sl_recved priv + 1), sl_i := to_u16 (sl_i priv + 1)\<rparr>;
        if sl_i priv \<ge> pb_len b then do {
          let priv = priv\<lparr>sl_i := 0\<rparr>;
          more \<leftarrow> (case pb_next b of None \<Rightarrow> Some False | Some n \<Rightarrow> do { nb \<leftarrow> pbufs s n; Some (pb_len nb > 0) });
          Some (None, priv\<lparr>sl_p := (if more then pb_next b else None)\<rparr>, s)
        } else Some (None, priv, s)
      } else Some (None, priv, s))"

definition rx_data :: "u8 \<Rightarrow> slipif_priv \<Rightarrow> net \<Rightarrow> (ptr \<times> slipif_priv \<times> net) option" where
  "rx_data c priv s =
     (if sl_p priv = None then do {
        (p, s) \<leftarrow> pbuf_alloc PBUF_LINK (PBUF_POOL_BUFSIZE - PBUF_LINK_HLEN - PBUF_LINK_ENCAPSULATION_HLEN) PBUF_POOL s;
        let priv = priv\<lparr>sl_p := p\<rparr>;
        if p = None then Some (None, priv\<lparr>link_drop := link_drop priv + 1\<rparr>, s)
        else if sl_q priv \<noteq> None then do {
          s \<leftarrow> pbuf_cat (sl_q priv) p s;
          rx_store c priv s
        } else rx_store c (priv\<lparr>sl_q := p\<rparr>) s
      } else rx_store c priv s)"

definition slipif_rxbyte :: "u8 \<Rightarrow> slipif_priv \<Rightarrow> net \<Rightarrow> (ptr \<times> slipif_priv \<times> net) option" where
  "slipif_rxbyte c priv s =
     (case sl_state priv of
        SLIP_RECV_NORMAL \<Rightarrow>
          if c = SLIP_END then
            if sl_recved priv > 0 then do {
              s \<leftarrow> pbuf_realloc (sl_q priv) (sl_recved priv) s;
              let priv = priv\<lparr>link_recv := link_recv priv + 1\<rparr>;
              let t = sl_q priv;
              Some (t, priv\<lparr>sl_p := None, sl_q := None, sl_i := 0, sl_recved := 0\<rparr>, s)
            } else Some (None, priv, s)
          else if c = SLIP_ESC then Some (None, priv\<lparr>sl_state := SLIP_RECV_ESCAPE\<rparr>, s)
          else rx_data c priv s
      | SLIP_RECV_ESCAPE \<Rightarrow>
          let c = (if c = SLIP_ESC_END then SLIP_END else if c = SLIP_ESC_ESC then SLIP_ESC else c)
          in rx_data c (priv\<lparr>sl_state := SLIP_RECV_NORMAL\<rparr>) s)"


subsection \<open>The serial port\<close>


text \<open>\<open>readCallback\<close> after the UART has received the bytes \<open>rxBuf\<close>; \<open>UART_read\<close> starts the next read.\<close>

definition readCallback :: "(u8 \<Rightarrow> 'w \<Rightarrow> bool \<times> 'w) \<Rightarrow> ('w \<Rightarrow> 'w) \<Rightarrow> u8 list \<Rightarrow> 'w \<Rightarrow> 'w" where
  "readCallback Mailbox_post UART_read rxBuf w = UART_read (fold (\<lambda>c w. snd (Mailbox_post c w)) rxBuf w)"

text \<open>\<open>sio_open\<close> aborts when the mailbox or the UART is not available.\<close>

definition sio_open :: "('w \<Rightarrow> bool \<times> 'w) \<Rightarrow> ('w \<Rightarrow> bool \<times> 'w) \<Rightarrow> ('w \<Rightarrow> 'w) \<Rightarrow> 'w \<Rightarrow> (bool \<times> 'w) option" where
  "sio_open Mailbox_create UART_open UART_read w =
     (let (mbox, w) = Mailbox_create w in
      if \<not> mbox then None
      else let (uart, w) = UART_open w in
        if \<not> uart then None else Some (True, UART_read w))"



section \<open>Framing\<close>

text \<open>The SLIP encoding of RFC 1055.\<close>

definition slip_byte :: "u8 \<Rightarrow> u8 list" where
  "slip_byte c = (if c = SLIP_END then [SLIP_ESC, SLIP_ESC_END] else if c = SLIP_ESC then [SLIP_ESC, SLIP_ESC_ESC] else [c])"

definition slip_encode :: "u8 list \<Rightarrow> u8 list" where
  "slip_encode D = concat (map slip_byte D)"

definition slip_frame :: "u8 list \<Rightarrow> u8 list" where
  "slip_frame D = SLIP_END # slip_encode D @ [SLIP_END]"

text \<open>A blocking write puts the byte on the line; \<open>line w\<close> are the bytes sent so far.\<close>

definition uart_ok :: "(u8 \<Rightarrow> 'w \<Rightarrow> bool \<times> 'w) \<Rightarrow> ('w \<Rightarrow> u8 list) \<Rightarrow> bool" where
  "uart_ok UART_write line \<longleftrightarrow> (\<forall>c w. line (snd (UART_write c w)) = line w @ [c])"

text \<open>A mailbox is a queue of at most 50 bytes; a byte posted to a full mailbox is lost.\<close>

definition mailbox_ok :: "(u8 \<Rightarrow> 'w \<Rightarrow> bool \<times> 'w) \<Rightarrow> ('w \<Rightarrow> u8 option \<times> 'w) \<Rightarrow> ('w \<Rightarrow> u8 list) \<Rightarrow> bool" where
  "mailbox_ok Mailbox_post Mailbox_pend box \<longleftrightarrow>
     (\<forall>w. case box w of [] \<Rightarrow> fst (Mailbox_pend w) = None \<and> box (snd (Mailbox_pend w)) = []
        | c # cs \<Rightarrow> fst (Mailbox_pend w) = Some c \<and> box (snd (Mailbox_pend w)) = cs)
     \<and> (\<forall>c w. box (snd (Mailbox_post c w)) = (if length (box w) < 50 then box w @ [c] else box w))"

lemma slip_encode_simps [simp]: "slip_encode [] = []" "slip_encode (c # D) = slip_byte c @ slip_encode D"
  "slip_encode (D @ D') = slip_encode D @ slip_encode D'"
  by (simp_all add: slip_encode_def)

lemma uart_send: "uart_ok UART_write line \<Longrightarrow> line (sio_send UART_write c w) = line w @ [c]"
  by (simp add: uart_ok_def sio_send_def)

lemma output_bytes_line:
  "uart_ok UART_write line \<Longrightarrow> line (output_bytes UART_write M a n w) = line w @ slip_encode (rd M a n)"
proof (induction n arbitrary: a w)
  case (Suc n)
  have "rd M a (Suc n) = M a # rd M (a + 1) n" by (simp add: rd_def upt_rec)
  with Suc show ?case by (simp add: output_byte_def slip_byte_def uart_send)
qed simp

lemma output_loop_line:
  assumes "uart_ok UART_write line" "links (pbufs s) q xs" "payloads Q (pbufs s) xs"
  shows "\<exists>w'. output_loop UART_write s q w = Some w' \<and> line w' = line w @ slip_encode (chain_data (pbufs s) (bytes s) xs)"
  using assms(2,3)
proof (induction xs arbitrary: q w)
  case Nil
  then show ?case by (subst output_loop.simps) simp
next
  case (Cons a xs)
  then obtain b pl where b: "q = Some a" "pbufs s a = Some b" "links (pbufs s) (pb_next b) xs" "pb_payload b = Some pl"
    by (auto split: option.splits)
  let ?w = "output_bytes UART_write (bytes s) pl (pb_len b) w"
  have "output_loop UART_write s q w = output_loop UART_write s (pb_next b) ?w" using b by (subst output_loop.simps) simp
  moreover obtain w' where "output_loop UART_write s (pb_next b) ?w = Some w'" "line w' = line ?w @ slip_encode (chain_data (pbufs s) (bytes s) xs)"
    using Cons.IH [OF b(3)] Cons.prems(2) by auto
  ultimately show ?case using output_bytes_line [OF assms(1)] b by (simp add: pbytes_eq)
qed

lemma slipif_output_line:
  assumes "uart_ok UART_write line" "links (pbufs s) (Some p) xs" "payloads Q (pbufs s) xs"
  shows "\<exists>w'. slipif_output UART_write (Some p) s w = Some (ERR_OK, w') \<and> line w' = line w @ slip_frame (chain_data (pbufs s) (bytes s) xs)"
proof -
  obtain w' where "output_loop UART_write s (Some p) (sio_send UART_write SLIP_END w) = Some w'"
    "line w' = line (sio_send UART_write SLIP_END w) @ slip_encode (chain_data (pbufs s) (bytes s) xs)"
    using output_loop_line [OF assms] by blast
  then show ?thesis using uart_send [OF assms(1)] by (simp add: slipif_output_def slip_frame_def)
qed

section \<open>The receiver\<close>

text \<open>The pbufs of the packet that is being received: a chain of pool buffers of 96 bytes each, to which only the interface refers.\<close>

definition rx_buf :: "pbuf \<Rightarrow> bool" where
  "rx_buf b \<longleftrightarrow> pb_ref b = 1 \<and> \<not> is_custom b \<and> pb_type b = PBUF_POOL \<and> pb_len b = 96"

definition rx_bufs :: "net \<Rightarrow> nat list \<Rightarrow> bool" where
  "rx_bufs s xs \<longleftrightarrow> (\<forall>x \<in> set xs. \<exists>b. pbufs s x = Some b \<and> rx_buf b)"

text \<open>
  The abstraction: \<open>D\<close> are the bytes of the current packet received so far. \<open>E\<close> counts the references to pbufs held by others.
\<close>

definition slip_rx :: "(nat \<Rightarrow> nat) \<Rightarrow> u8 list \<Rightarrow> slipif_priv \<Rightarrow> net \<Rightarrow> bool" where
  "slip_rx E D r s \<longleftrightarrow> sl_recved r = length D \<and> length D \<le> SLIP_MAX_SIZE + 1 \<and>
     (case sl_q r of
        None \<Rightarrow> net_ok E s \<and> sl_p r = None \<and> D = [] \<and> sl_i r = 0
      | Some q \<Rightarrow> net_ok (E(q := 1)) s \<and> E q = 0 \<and> (\<exists>xs. chain (pbufs s) (Some q) xs \<and> rx_bufs s xs
          \<and> take (length D) (chain_data (pbufs s) (bytes s) xs) = D
          \<and> (case sl_p r of None \<Rightarrow> sl_i r = 0 \<and> length D = 96 * length xs
             | Some p \<Rightarrow> p = last xs \<and> sl_i r < 96 \<and> length D + 96 = 96 * length xs + sl_i r)))"

lemma rx_bufs_facts:
  assumes "rx_bufs s xs"
  shows "own_memory (pbufs s) xs" "plain (pbufs s) xs" "chain_len (pbufs s) xs = 96 * length xs"
proof -
  show "own_memory (pbufs s) xs" using assms by (fastforce simp: own_memory_def rx_bufs_def rx_buf_def)
  show "plain (pbufs s) xs" unfolding plain_def list_all_iff using assms by (fastforce simp: rx_bufs_def rx_buf_def)
  show "chain_len (pbufs s) xs = 96 * length xs" using assms by (induction xs) (auto simp: rx_bufs_def rx_buf_def plen_def)
qed

lemma rx_bufs_append [simp]: "rx_bufs s (xs @ ys) \<longleftrightarrow> rx_bufs s xs \<and> rx_bufs s ys"
  by (auto simp: rx_bufs_def)

text \<open>Writing one byte behind those received so far.\<close>

lemma rx_write:
  assumes ok: "net_ok E s" "0 < E q" and ch: "chain (pbufs s) (Some q) xs" "rx_bufs s xs" and D: "take (length D) (chain_data (pbufs s) (bytes s) xs) = D"
    and i: "i < 96" "length D + 96 = 96 * length xs + i"
  obtains b pl where "pbufs s (last xs) = Some b" "pb_payload b = Some pl" "pb_len b = 96" "pb_next b = None"
    "take (length D + 1) (chain_data (pbufs s) ((bytes s)(pl + i := c)) xs) = D @ [c]"
proof -
  have inv: "pbuf_inv s" using ok(1) by (simp add: net_ok_def)
  obtain b where b: "pbufs s (last xs) = Some b" "pb_next b = None" "xs \<noteq> []" by (rule chain_last [OF ok ch(1)])
  then have xs: "xs = butlast xs @ [last xs]" by simp
  have len: "pb_len b = 96" using ch(2) b(1) last_in_set [OF b(3)] by (fastforce simp: rx_bufs_def rx_buf_def)
  note facts = rx_bufs_facts [OF ch(2)]
  have "own_memory (pbufs s) [last xs]" using facts(1) b(3) by (simp add: own_memory_def)
  then obtain pl where pl: "pb_payload b = Some pl" using own_payload [OF inv] b(1) by (metis option.inject)
  have "rx_bufs s (butlast xs)" using ch(2) by (auto simp: rx_bufs_def dest: in_set_butlastD)
  then have off: "length D = chain_len (pbufs s) (butlast xs) + i"
    using rx_bufs_facts(3) [of s "butlast xs"] i(2) b(3) by (cases xs) auto
  have sep: "separate (pbufs s) xs" "payloads (\<lambda>_ _. True) (pbufs s) xs"
    using own_separate [OF inv facts(1) chain_distinct [OF ch(1)]] own_payloads [OF inv facts(1)] by simp_all
  have "chain_data (pbufs s) (wr (bytes s) (pl + i) [c]) xs =
      take (length D) (chain_data (pbufs s) (bytes s) xs) @ [c] @ drop (length D + 1) (chain_data (pbufs s) (bytes s) xs)"
    using chain_data_write(1) [of "pbufs s" "butlast xs" "last xs" "[]" "\<lambda>_ _. True" b pl i "[c]" "length D" "bytes s"] sep b(1) pl i(1) len off
    unfolding xs [symmetric] by simp
  then have "take (length D + 1) (chain_data (pbufs s) ((bytes s)(pl + i := c)) xs) = D @ [c]" unfolding D wr_single by simp
  with that b(1,2) pl len show ?thesis by blast
qed

lemma rx_bufs_bytes [simp]: "rx_bufs (s\<lparr>bytes := M\<rparr>) xs = rx_bufs s xs"
  by (simp add: rx_bufs_def)

lemma round_full: "n + 96 = 96 * k + i \<Longrightarrow> i < 96 \<Longrightarrow> (n + 1) mod 96 = 0 \<longleftrightarrow> i = (95 :: nat)"
proof -
  assume i: "n + 96 = 96 * k + i" "i < 96"
  then have "n + 1 = 96 * (k - 1) + (i + 1)" by (cases k) auto
  then have "(n + 1) mod 96 = (i + 1) mod 96" by (simp only: mod_mult_self4)
  with i(2) show ?thesis by (cases "i = 95") auto
qed

lemma round_up: "(n + 96) div 96 = (n + 95) div 96 + (if n mod 96 = 0 then 1 else 0 :: nat)"
proof -
  obtain q r where n: "n = 96 * q + r" "r < 96" by (metis mod_less_divisor mult_div_mod_eq zero_less_numeral)
  then have "(n + 95) div 96 = q + (r + 95) div 96" "(n + 96) div 96 = q + 1" by (simp_all add: add.assoc)
  moreover have "(r + 95) div 96 = (if r = 0 then 0 else 1)" using n(2) by (cases r) auto
  ultimately show ?thesis using n by simp
qed

lemma rx_store_ok:
  assumes rx: "slip_rx E D r s" and p: "sl_p r = Some p"
  shows "\<exists>r' s'. rx_store c r s = Some (None, r', s') \<and> slip_rx E (if length D \<le> SLIP_MAX_SIZE then D @ [c] else D) r' s'
    \<and> sl_state r' = sl_state r \<and> pbufs s' = pbufs s \<and> net_pools s' = net_pools s
    \<and> (length D \<le> SLIP_MAX_SIZE \<longrightarrow> (sl_p r' = None \<longleftrightarrow> (length D + 1) mod 96 = 0))"
proof (cases "length D \<le> SLIP_MAX_SIZE")
  case False
  with rx show ?thesis by (auto simp: rx_store_def slip_rx_def)
next
  case True
  obtain q where q: "sl_q r = Some q" using rx p by (cases "sl_q r") (auto simp: slip_rx_def)
  then obtain xs where xs: "sl_recved r = length D" "net_ok (E(q := 1)) s" "E q = 0" "chain (pbufs s) (Some q) xs" "rx_bufs s xs"
    "take (length D) (chain_data (pbufs s) (bytes s) xs) = D" "p = last xs" "sl_i r < 96" "length D + 96 = 96 * length xs + sl_i r"
    using rx p by (auto simp: slip_rx_def)
  obtain b pl where b: "pbufs s (last xs) = Some b" "pb_payload b = Some pl" "pb_len b = 96" "pb_next b = None"
    "take (length D + 1) (chain_data (pbufs s) ((bytes s)(pl + sl_i r := c)) xs) = D @ [c]"
    by (rule rx_write [OF xs(2) _ xs(4-6,8,9)]) simp
  let ?s = "s\<lparr>bytes := (bytes s)(pl + sl_i r := c)\<rparr>"
  let ?r = "r\<lparr>sl_recved := length D + 1, sl_i := if sl_i r = 95 then 0 else sl_i r + 1, sl_p := if sl_i r = 95 then None else Some p\<rparr>"
  have u: "to_u16 (length D + 1) = length D + 1" "to_u16 (sl_i r + 1) = sl_i r + 1" using True xs(8) by (simp_all add: to_u16_def)
  have st: "rx_store c r s = Some (None, ?r, ?s)"
    using True p xs(1,7,8) b(1-4) by (auto simp: rx_store_def u Let_def)
  have ok: "net_ok (E(q := 1)) ?s" using xs(2) by simp
  have "slip_rx E (D @ [c]) ?r ?s" unfolding slip_rx_def
    using q True xs b(5) ok by (auto simp del: fun_upd_apply intro!: exI [of _ xs])
  moreover have "(length D + 1) mod 96 = 0 \<longleftrightarrow> sl_i r = 95" by (rule round_full [OF xs(9,8)])
  ultimately show ?thesis using st True by (intro exI [of _ ?r] exI [of _ ?s]) simp
qed

lemma pool_pbufs_kind:
  assumes "\<And>x. x \<in> dom (pbufs s) \<Longrightarrow> same_kind (pbufs s) (pbufs s') x" "dom (pbufs s') = dom (pbufs s)"
  shows "pool_pbufs s' = pool_pbufs s"
  using assms unfolding pool_pbufs_def same_kind_def by (fastforce simp: domIff)

lemma pool_pbufs_new_chain:
  assumes "new_chain E l n PBUF_POOL s p xs s'"
  shows "pool_pbufs s' = pool_pbufs s \<union> set xs"
  using assms unfolding new_chain_def pool_pbufs_def by (auto simp: domIff)

text \<open>A new pbuf at the end of the packet.\<close>

definition rx_room :: "slipif_priv \<Rightarrow> net \<Rightarrow> bool" where
  "rx_room r s \<longleftrightarrow> sl_p r \<noteq> None \<or> card (pool_pbufs s) < unat (desc_num (pool_desc s))"

lemma pool_need_96 [simp]: "pool_need PBUF_LINK 96 = 1"
  by (simp add: pool_need_def)

lemma rx_extend:
  assumes ok: "net_ok (E(q := 1)) s" "E q = 0" and ch: "chain (pbufs s) (Some q) xs" "rx_bufs s xs"
    and new: "new_chain (E(q := 1)) PBUF_LINK 96 PBUF_POOL s p [p] s1" and len: "length xs < 600"
  obtains s' where "pbuf_cat (Some q) (Some p) s1 = Some s'" "net_ok (E(q := 1)) s'" "chain (pbufs s') (Some q) (xs @ [p])" "rx_bufs s' (xs @ [p])"
    "take (chain_len (pbufs s) xs) (chain_data (pbufs s') (bytes s') (xs @ [p])) = chain_data (pbufs s) (bytes s) xs"
    "pool_pbufs s' = insert p (pool_pbufs s)" "net_pools s' = net_pools s"
proof -
  note parts = new_chain_parts [OF new]
  have pq: "p \<noteq> q" "E p = 0" using parts(5) by (auto split: if_splits)
  have p: "p \<notin> set xs" using parts(8) chain_live [OF ch(1)] by auto
  have same: "pbufs s1 x = pbufs s x" if "x \<in> set xs" for x using p that by (intro parts(9)) auto
  note agree = chain_agree [of xs "pbufs s1" "pbufs s" "Some q", OF same ch(1)]
  have xs1: "chain (pbufs s1) (Some q) xs" "chain_len (pbufs s1) xs = 96 * length xs" "chain_data (pbufs s1) M xs = chain_data (pbufs s) M xs" for M
    using agree(1,4) agree(5) [of M] rx_bufs_facts(3) [OF ch(2)] by simp_all
  obtain pb where pb: "pbufs s1 p = Some pb" "pb_ref pb = 1" "\<not> is_custom pb" "pb_type pb = PBUF_POOL" "pb_len pb = 96"
    using new by (auto simp: new_chain_def plen_def)
  have E: "(E(q := 1, p := 1))(p := (E(q := 1, p := 1)) p - 1) = E(q := 1)" using pq by (auto simp: fun_eq_iff)
  have one: "0 < (E(q := 1, p := 1)) q" "0 < (E(q := 1, p := 1)) p" using pq by simp_all
  from pbuf_cat_ok [OF parts(1) one xs1(1) parts(2)] p xs1(2) parts(3) len obtain s' where
    s': "pbuf_cat (Some q) (Some p) s1 = Some s'" "net_ok (E(q := 1)) s'" "chain (pbufs s') (Some q) (xs @ [p])"
    "\<forall>x. same_data (pbufs s1) (pbufs s') x" "same_rest s1 s'" unfolding E by auto
  obtain s'' where "pbuf_cat (Some q) (Some p) s1 = Some s''"
    "\<And>x. pbufs s'' x = (if x \<in> set xs then map_option (\<lambda>b. b\<lparr>pb_tot_len := to_u16 (pb_tot_len b + pb_tot_len pb),
        pb_next := if x = last xs then Some p else pb_next b\<rparr>) (pbufs s1 x) else pbufs s1 x)"
    by (rule pbuf_cat_effect [OF parts(1) one xs1(1) pb(1) p]) blast
  with s'(1) have st: "pbufs s' x = (if x \<in> set xs then map_option (\<lambda>b. b\<lparr>pb_tot_len := to_u16 (pb_tot_len b + pb_tot_len pb),
        pb_next := if x = last xs then Some p else pb_next b\<rparr>) (pbufs s1 x) else pbufs s1 x)" for x by simp
  have kind: "same_kind (pbufs s1) (pbufs s') x" if "x \<in> dom (pbufs s1)" for x
  proof -
    from that obtain y where y: "pbufs s1 x = Some y" by blast
    show ?thesis unfolding same_kind_def st y by simp
  qed
  have "dom (pbufs s') = dom (pbufs s1)" by (auto simp: st split: if_splits)
  with kind have pool: "pool_pbufs s' = insert p (pool_pbufs s)" using pool_pbufs_kind [of s1 s'] pool_pbufs_new_chain [OF new] by auto
  have "\<exists>b. pbufs s' x = Some b \<and> rx_buf b" if "x \<in> set xs" for x
  proof -
    from ch(2) that same obtain y where "pbufs s1 x = Some y" "rx_buf y" by (auto simp: rx_bufs_def)
    then show ?thesis using that unfolding st by (simp add: rx_buf_def)
  qed
  then have "rx_bufs s' (xs @ [p])" using pb p st [of p] by (auto simp: rx_bufs_def rx_buf_def)
  moreover have "bytes s' = bytes s" "net_pools s' = net_pools s" using s'(5) parts(12) by (simp_all add: same_rest_def)
  moreover have "chain_data (pbufs s') M (xs @ [p]) = chain_data (pbufs s1) M (xs @ [p])" for M using s'(4) by (intro chain_data_cong) simp
  moreover have "payloads (\<lambda>_ _. True) (pbufs s) xs" using ok(1) rx_bufs_facts(1) [OF ch(2)] by (intro own_payloads) (simp_all add: net_ok_def)
  ultimately show ?thesis using that [of s'] s'(1-3) pool xs1(3) length_chain_data by simp
qed

text \<open>The packet after the allocation step of \<open>slipif_rxbyte\<close>.\<close>

lemma rx_data_alloc:
  assumes rx: "slip_rx E D r s" and p: "sl_p r = None"
  shows "if card (pool_pbufs s) < unat (desc_num (pool_desc s))
    then \<exists>r' s' x. rx_data c r s = rx_store c r' s' \<and> slip_rx E D r' s' \<and> sl_p r' \<noteq> None \<and> sl_state r' = sl_state r
      \<and> pool_pbufs s' = insert x (pool_pbufs s) \<and> net_pools s' = net_pools s
    else \<exists>s'. rx_data c r s = Some (None, r\<lparr>link_drop := link_drop r + 1\<rparr>, s') \<and> slip_rx E D (r\<lparr>link_drop := link_drop r + 1\<rparr>) s'"
proof (cases "sl_q r")
  case None
  then have r: "net_ok E s" "D = []" "sl_i r = 0" "sl_recved r = 0" using rx by (simp_all add: slip_rx_def)
  show ?thesis
  proof (cases "card (pool_pbufs s) < unat (desc_num (pool_desc s))")
    case True
    with alloc_pool_ok [OF r(1), of 96 PBUF_LINK] obtain x xs s' where
      s': "pbuf_alloc PBUF_LINK 96 PBUF_POOL s = Some (Some x, s')" "new_chain E PBUF_LINK 96 PBUF_POOL s x xs s'" "length xs = 1" by auto
    note parts = new_chain_parts [OF s'(2)]
    have xs: "xs = [x]" using s'(3) parts(2) by (cases xs) (auto simp: chain_Cons)
    have "rx_bufs s' [x]" using s'(2) xs by (auto simp: new_chain_def rx_bufs_def rx_buf_def plen_def)
    then have "slip_rx E D (r\<lparr>sl_p := Some x, sl_q := Some x\<rparr>) s'" using r parts(1,2,5) xs by (auto simp: slip_rx_def simp del: fun_upd_apply)
    moreover have "rx_data c r s = rx_store c (r\<lparr>sl_p := Some x, sl_q := Some x\<rparr>) s'" using p None s'(1) by (simp add: rx_data_def)
    moreover have "pool_pbufs s' = insert x (pool_pbufs s)" "net_pools s' = net_pools s"
      using pool_pbufs_new_chain [OF s'(2)] xs parts(12) by (simp_all add: same_rest_def)
    ultimately have "\<exists>r' s' x. rx_data c r s = rx_store c r' s' \<and> slip_rx E D r' s' \<and> sl_p r' \<noteq> None \<and> sl_state r' = sl_state r
      \<and> pool_pbufs s' = insert x (pool_pbufs s) \<and> net_pools s' = net_pools s"
      by - (rule exI [of _ "r\<lparr>sl_p := Some x, sl_q := Some x\<rparr>"], rule exI [of _ s'], rule exI [of _ x], simp)
    with True show ?thesis by simp
  next
    case False
    with alloc_pool_ok [OF r(1), of 96 PBUF_LINK] obtain s' where
      s': "pbuf_alloc PBUF_LINK 96 PBUF_POOL s = Some (None, s')" "net_ok E s'" by auto
    have "r\<lparr>sl_p := None, link_drop := link_drop r + 1\<rparr> = r\<lparr>link_drop := link_drop r + 1\<rparr>" using p by simp
    with False None s' p r show ?thesis by (simp add: rx_data_def slip_rx_def)
  qed
next
  case (Some q)
  then obtain xs where r: "sl_recved r = length D" "length D \<le> 1501" "net_ok (E(q := 1)) s" "E q = 0" "chain (pbufs s) (Some q) xs" "rx_bufs s xs"
    "take (length D) (chain_data (pbufs s) (bytes s) xs) = D" "sl_i r = 0" "length D = 96 * length xs" using rx p by (auto simp: slip_rx_def)
  show ?thesis
  proof (cases "card (pool_pbufs s) < unat (desc_num (pool_desc s))")
    case True
    with alloc_pool_ok [OF r(3), of 96 PBUF_LINK] obtain x ys s1 where
      s1: "pbuf_alloc PBUF_LINK 96 PBUF_POOL s = Some (Some x, s1)" "new_chain (E(q := 1)) PBUF_LINK 96 PBUF_POOL s x ys s1" "length ys = 1" by auto
    have ys: "ys = [x]" using s1(3) new_chain_parts(2) [OF s1(2)] by (cases ys) (auto simp: chain_Cons)
    have len: "length xs < 600" using r(2,9) by simp
    obtain s' where s': "pbuf_cat (Some q) (Some x) s1 = Some s'" "net_ok (E(q := 1)) s'" "chain (pbufs s') (Some q) (xs @ [x])" "rx_bufs s' (xs @ [x])"
      "take (chain_len (pbufs s) xs) (chain_data (pbufs s') (bytes s') (xs @ [x])) = chain_data (pbufs s) (bytes s) xs"
      "pool_pbufs s' = insert x (pool_pbufs s)" "net_pools s' = net_pools s"
      by (rule rx_extend [OF r(3-6) s1(2) [unfolded ys] len])
    have "take (length D) (chain_data (pbufs s') (bytes s') (xs @ [x])) = D"
      using s'(5) r(7,9) rx_bufs_facts(3) [OF r(6)] by (metis order_refl take_all take_take min.idem)
    then have "slip_rx E D (r\<lparr>sl_p := Some x\<rparr>) s'" unfolding slip_rx_def
      using Some r(1,2,4,8,9) s'(2-4) by (auto simp del: fun_upd_apply intro!: exI [of _ "xs @ [x]"])
    moreover have "rx_data c r s = rx_store c (r\<lparr>sl_p := Some x\<rparr>) s'" using p Some s1(1) s'(1) by (simp add: rx_data_def)
    ultimately have "\<exists>r' s' x. rx_data c r s = rx_store c r' s' \<and> slip_rx E D r' s' \<and> sl_p r' \<noteq> None \<and> sl_state r' = sl_state r
      \<and> pool_pbufs s' = insert x (pool_pbufs s) \<and> net_pools s' = net_pools s"
      using s'(6,7) by - (rule exI [of _ "r\<lparr>sl_p := Some x\<rparr>"], rule exI [of _ s'], rule exI [of _ x], simp)
    with True show ?thesis by simp
  next
    case False
    with alloc_pool_ok [OF r(3), of 96 PBUF_LINK] obtain s' where
      s': "pbuf_alloc PBUF_LINK 96 PBUF_POOL s = Some (None, s')" "net_ok (E(q := 1)) s'" "pbufs s' = pbufs s" "bytes s' = bytes s" by auto
    have "r\<lparr>sl_p := None, link_drop := link_drop r + 1\<rparr> = r\<lparr>link_drop := link_drop r + 1\<rparr>" using p by simp
    moreover have "slip_rx E D (r\<lparr>link_drop := link_drop r + 1\<rparr>) s'" unfolding slip_rx_def
      using Some r p s'(2-4) by (auto simp: rx_bufs_def simp del: fun_upd_apply intro!: exI [of _ xs])
    ultimately show ?thesis using False s'(1) p by (simp add: rx_data_def)
  qed
qed

text \<open>
  The abstract receiver: from the state, the bytes received so far and the next byte to the new state, the bytes of the packet
  and the packet delivered. \<open>space\<close> says whether there is memory for another byte.
\<close>

definition unescape :: "u8 \<Rightarrow> u8" where
  "unescape c = (if c = SLIP_ESC_END then SLIP_END else if c = SLIP_ESC_ESC then SLIP_ESC else c)"

definition add_byte :: "bool \<Rightarrow> u8 \<Rightarrow> u8 list \<Rightarrow> u8 list" where
  "add_byte space c D = (if space \<and> length D \<le> SLIP_MAX_SIZE then D @ [c] else D)"

fun rx_next :: "bool \<Rightarrow> slipif_recv_state \<Rightarrow> u8 \<Rightarrow> u8 list \<Rightarrow> slipif_recv_state \<times> u8 list \<times> u8 list option" where
  "rx_next space SLIP_RECV_NORMAL c D =
     (if c = SLIP_END then (if D = [] then (SLIP_RECV_NORMAL, [], None) else (SLIP_RECV_NORMAL, [], Some D))
      else if c = SLIP_ESC then (SLIP_RECV_ESCAPE, D, None)
      else (SLIP_RECV_NORMAL, add_byte space c D, None))"
| "rx_next space SLIP_RECV_ESCAPE c D = (SLIP_RECV_NORMAL, add_byte space (unescape c) D, None)"

text \<open>A packet that is delivered: \<open>p\<close> is its only reference, and its data are \<open>D\<close>.\<close>

definition packet :: "(nat \<Rightarrow> nat) \<Rightarrow> nat \<Rightarrow> u8 list \<Rightarrow> net \<Rightarrow> bool" where
  "packet E p D s \<longleftrightarrow> net_ok (E(p := 1)) s \<and> E p = 0 \<and> ref_of s p = 1 \<and>
     (\<exists>xs. chain (pbufs s) (Some p) xs \<and> own_memory (pbufs s) xs \<and> chain_data (pbufs s) (bytes s) xs = D)"

text \<open>The interface at rest: no packet is being received.\<close>

definition slip_idle :: "slipif_priv \<Rightarrow> bool" where
  "slip_idle r \<longleftrightarrow> sl_p r = None \<and> sl_q r = None \<and> sl_i r = 0 \<and> sl_recved r = 0 \<and> sl_state r = SLIP_RECV_NORMAL"

lemma slip_idle_rx: "slip_idle r \<Longrightarrow> net_ok E s \<Longrightarrow> slip_rx E [] r s"
  by (simp add: slip_rx_def slip_idle_def)

lemma rx_data_ok:
  assumes rx: "slip_rx E D r s"
  shows "\<exists>r' s'. rx_data c r s = Some (None, r', s') \<and> slip_rx E (add_byte (rx_room r s) c D) r' s' \<and> sl_state r' = sl_state r
    \<and> (rx_room r s \<and> length D \<le> SLIP_MAX_SIZE \<longrightarrow> (sl_p r' = None \<longleftrightarrow> (length D + 1) mod 96 = 0) \<and> net_pools s' = net_pools s
         \<and> card (pool_pbufs s') \<le> card (pool_pbufs s) + (if sl_p r = None then 1 else 0))"
proof (cases "sl_p r = None")
  case False
  then obtain p where "sl_p r = Some p" by blast
  from rx_store_ok [OF rx this, of c] False show ?thesis by (auto simp: rx_data_def add_byte_def rx_room_def pool_pbufs_def)
next
  case True
  show ?thesis
  proof (cases "card (pool_pbufs s) < unat (desc_num (pool_desc s))")
    case room: True
    with rx_data_alloc [OF rx True, of c] obtain r' s' p where
      r': "rx_data c r s = rx_store c r' s'" "slip_rx E D r' s'" "sl_p r' = Some p" "sl_state r' = sl_state r"
      "\<exists>x. pool_pbufs s' = insert x (pool_pbufs s)" "net_pools s' = net_pools s" by auto
    have fin: "card (pool_pbufs s') \<le> card (pool_pbufs s) + 1" using r'(5) by (cases "finite (pool_pbufs s)") (auto simp: card_insert_if)
    from rx_store_ok [OF r'(2,3), of c] obtain r'' s'' where
      r'': "rx_store c r' s' = Some (None, r'', s'')" "slip_rx E (if length D \<le> 1500 then D @ [c] else D) r'' s''" "sl_state r'' = sl_state r'"
      "pbufs s'' = pbufs s'" "net_pools s'' = net_pools s'" "length D \<le> 1500 \<longrightarrow> (sl_p r'' = None \<longleftrightarrow> (length D + 1) mod 96 = 0)" by metis
    have "pool_pbufs s'' = pool_pbufs s'" using r''(4) by (simp add: pool_pbufs_def)
    with r' r'' fin room True show ?thesis by (auto simp: add_byte_def rx_room_def)
  next
    case False
    with rx_data_alloc [OF rx True, of c] True show ?thesis by (auto simp: add_byte_def rx_room_def)
  qed
qed

lemma rx_end_ok:
  assumes rx: "slip_rx E D r s" and D: "D \<noteq> []"
  shows "\<exists>q s'. sl_q r = Some q \<and> pbuf_realloc (Some q) (length D) s = Some s' \<and> packet E q D s'"
proof -
  obtain q where q: "sl_q r = Some q" using rx D by (cases "sl_q r") (auto simp: slip_rx_def)
  then obtain xs where r: "length D \<le> 1501" "net_ok (E(q := 1)) s" "E q = 0" "chain (pbufs s) (Some q) xs" "rx_bufs s xs"
    "take (length D) (chain_data (pbufs s) (bytes s) xs) = D" "length D \<le> 96 * length xs" "96 * length xs < length D + 97"
    using rx by (auto simp: slip_rx_def split: option.splits)
  note facts = rx_bufs_facts [OF r(5)]
  have pl: "payloads (\<lambda>_ _. True) (pbufs s) xs" using r(2) facts(1) by (intro own_payloads) (simp_all add: net_ok_def)
  have len: "length (chain_data (pbufs s) (bytes s) xs) = 96 * length xs" using length_chain_data [OF pl] facts(3) by simp
  have ref: "ref_of s q = 1" using r(4,5) by (cases xs) (auto simp: chain_Cons rx_bufs_def rx_buf_def ref_of_def)
  show ?thesis
  proof (cases "length D = 96 * length xs")
    case True
    obtain b where "pbufs s q = Some b" "pb_tot_len b = 96 * length xs"
      using r(4) chain_tot_len [OF r(4)] facts(3) by (cases xs) (auto simp: chain_Cons ptot_def)
    then have "pbuf_realloc (Some q) (length D) s = Some s" using True by (simp add: pbuf_realloc_def)
    moreover have "chain_data (pbufs s) (bytes s) xs = D" using r(6) len True by simp
    ultimately show ?thesis using q r(2-4) facts(1) ref by (auto simp: packet_def simp del: fun_upd_apply)
  next
    case False
    have one: "0 < (E(q := 1)) q" by simp
    have "chain_len (pbufs s) xs < 65536" "length D < chain_len (pbufs s) xs" using False r(1,7,8) facts(3) by simp_all
    then obtain s' us vs where
      s': "pbuf_realloc (Some q) (length D) s = Some s'" "net_ok (E(q := 1)) s'" "xs = us @ vs" "chain (pbufs s') (Some q) us"
      "chain_data (pbufs s') (bytes s') us = D" "\<forall>x \<in> set us. same_kind (pbufs s) (pbufs s') x"
      using realloc_prefix [OF r(2) one r(4) facts(2) pl, of "length D"] unfolding r(6) by blast
    have "own_memory (pbufs s) us" using facts(1) s'(3) by simp
    then have "own_memory (pbufs s') us" using s'(6) by (fastforce simp: own_memory_def same_kind_def)
    moreover have "q \<in> set us" using s'(4) by (cases us) (auto simp: chain_Cons)
    then have "ref_of s' q = 1" using s'(6) ref by (fastforce simp: same_kind_def ref_of_def)
    ultimately show ?thesis using s' q r(3) by (auto simp: packet_def simp del: fun_upd_apply)
  qed
qed

text \<open>The first pbuf of a packet that is delivered has 96 bytes, or all of them.\<close>

lemma rx_end_head:
  assumes rx: "slip_rx E D r s" and D: "D \<noteq> []" and q: "sl_q r = Some q" and s': "pbuf_realloc (Some q) (length D) s = Some s'"
  shows "\<exists>b. pbufs s' q = Some b \<and> pb_len b = min 96 (length D)"
proof -
  from q obtain xs where r: "length D \<le> 1501" "net_ok (E(q := 1)) s" "chain (pbufs s) (Some q) xs" "rx_bufs s xs" "length D \<le> 96 * length xs" "96 * length xs < length D + 97"
    using rx by (auto simp: slip_rx_def split: option.splits)
  note facts = rx_bufs_facts [OF r(4)]
  from r(3) obtain ys b where b: "xs = q # ys" "pbufs s q = Some b" by (cases xs) (auto simp: chain_Cons)
  with r(4) have len: "pb_len b = 96" by (auto simp: rx_bufs_def rx_buf_def)
  show ?thesis
  proof (cases "length D = 96 * length xs")
    case True
    have "pb_tot_len b = 96 * length xs" using chain_tot_len [OF r(3)] facts(3) b by (simp add: ptot_def)
    then have "s' = s" using True s' b(2) by (simp add: pbuf_realloc_def)
    then show ?thesis using b len True by simp
  next
    case False
    have "chain_len (pbufs s) xs < 65536" "length D < chain_len (pbufs s) xs" using False r(1,5,6) facts(3) by simp_all
    from pbuf_realloc_ok [OF r(2) _ r(3) facts(2) this] s' obtain us a vs c where
      a: "xs = us @ a # vs" "chain_len (pbufs s) us \<le> length D" "length D - chain_len (pbufs s) us \<le> plen (pbufs s) a" "pbufs s a = Some c"
        "\<forall>x. x \<in> set us \<longrightarrow> pbufs s' x = map_option (\<lambda>b. b\<lparr>pb_tot_len := pb_tot_len b - (chain_len (pbufs s) xs - length D)\<rparr>) (pbufs s x)"
        "pbufs s' a = Some (c\<lparr>pb_len := length D - chain_len (pbufs s) us, pb_tot_len := length D - chain_len (pbufs s) us, pb_next := None\<rparr>)" by auto
    show ?thesis
    proof (cases us)
      case Nil
      with a b len show ?thesis by (simp add: plen_def)
    next
      case (Cons y zs)
      with a(1,2) b len have "y = q" "96 \<le> length D" by (simp_all add: plen_def)
      with a(5) Cons b(2) len show ?thesis by simp
    qed
  qed
qed

lemma slip_rx_state [simp]: "slip_rx E D (r\<lparr>sl_state := x\<rparr>) s = slip_rx E D r s" "rx_room (r\<lparr>sl_state := x\<rparr>) s = rx_room r s"
  by (simp_all add: slip_rx_def rx_room_def split: option.split)

lemma rxbyte_ok:
  assumes rx: "slip_rx E D r s"
  shows "\<exists>out r' s'. slipif_rxbyte c r s = Some (out, r', s') \<and>
    (case rx_next (rx_room r s) (sl_state r) c D of (st', D', pk) \<Rightarrow> sl_state r' = st' \<and>
       (case pk of None \<Rightarrow> out = None \<and> slip_rx E D' r' s'
        | Some D \<Rightarrow> \<exists>p. out = Some p \<and> packet E p D s' \<and> slip_idle r'))"
proof (cases "sl_state r")
  case SLIP_RECV_ESCAPE
  have "slip_rx E D (r\<lparr>sl_state := SLIP_RECV_NORMAL\<rparr>) s" using rx by simp
  from rx_data_ok [OF this, of "unescape c"] show ?thesis using SLIP_RECV_ESCAPE by (auto simp: slipif_rxbyte_def Let_def unescape_def)
next
  case SLIP_RECV_NORMAL
  have recved: "sl_recved r = length D" using rx by (simp add: slip_rx_def)
  consider "c = SLIP_END" "D = []" | "c = SLIP_END" "D \<noteq> []" | "c = SLIP_ESC" | "c \<noteq> SLIP_END" "c \<noteq> SLIP_ESC" by blast
  then show ?thesis
  proof cases
    case 1
    then show ?thesis using SLIP_RECV_NORMAL rx recved by (simp add: slipif_rxbyte_def)
  next
    case 2
    from rx_end_ok [OF rx 2(2)] obtain q s' where q: "sl_q r = Some q" "pbuf_realloc (Some q) (length D) s = Some s'" "packet E q D s'" by blast
    moreover have "slip_idle (r\<lparr>link_recv := link_recv r + 1, sl_p := None, sl_q := None, sl_i := 0, sl_recved := 0\<rparr>)"
      using SLIP_RECV_NORMAL by (simp add: slip_idle_def)
    ultimately show ?thesis using 2 SLIP_RECV_NORMAL recved by (auto simp: slipif_rxbyte_def Let_def simp del: fun_upd_apply)
  next
    case 3
    then show ?thesis using SLIP_RECV_NORMAL rx by (simp add: slipif_rxbyte_def)
  next
    case 4
    with rx_data_ok [OF rx, of c] SLIP_RECV_NORMAL show ?thesis by (auto simp: slipif_rxbyte_def)
  qed
qed

section \<open>Transmission\<close>

text \<open>The receiver fed with a list of bytes, and the packets it delivers.\<close>

fun rx_run :: "u8 list \<Rightarrow> slipif_priv \<Rightarrow> net \<Rightarrow> (nat list \<times> slipif_priv \<times> net) option" where
  "rx_run [] r s = Some ([], r, s)"
| "rx_run (c # cs) r s = do {
     (out, r, s) \<leftarrow> slipif_rxbyte c r s;
     (ps, r, s) \<leftarrow> rx_run cs r s;
     Some (case out of None \<Rightarrow> ps | Some p \<Rightarrow> p # ps, r, s)
   }"

lemma rx_run_append:
  "rx_run (cs @ ds) r s = do { (ps, r, s) \<leftarrow> rx_run cs r s; (qs, r, s) \<leftarrow> rx_run ds r s; Some (ps @ qs, r, s) }"
proof (induction cs arbitrary: r s)
  case Nil
  then show ?case by (cases "rx_run ds r s") auto
next
  case (Cons c cs)
  then show ?case by (auto simp: Option.bind_eq_None_conv split: option.splits prod.splits bind_splits)
qed

lemma rx_slip_byte:
  assumes "sl_state r = SLIP_RECV_NORMAL" "rx_data c r s = Some (None, r', s')"
  shows "rx_run (slip_byte c) r s = Some ([], r', s')"
proof -
  have r: "r\<lparr>sl_state := SLIP_RECV_NORMAL\<rparr> = r" using assms(1) by simp
  show ?thesis using assms by (auto simp: slip_byte_def slipif_rxbyte_def r)
qed

lemma rx_encoded:
  assumes "slip_rx E D r s" "sl_state r = SLIP_RECV_NORMAL" "sl_p r = None \<longleftrightarrow> length D mod 96 = 0" "length D + length B \<le> SLIP_MAX_SIZE + 1"
    "card (pool_pbufs s) + ((length D + length B + 95) div 96 - (length D + 95) div 96) \<le> unat (desc_num (pool_desc s))"
  shows "\<exists>r' s'. rx_run (slip_encode B) r s = Some ([], r', s') \<and> slip_rx E (D @ B) r' s' \<and> sl_state r' = SLIP_RECV_NORMAL"
  using assms
proof (induction B arbitrary: D r s)
  case (Cons c B)
  have up: "(length D + 96) div 96 = (length D + 95) div 96 + (if length D mod 96 = 0 then 1 else 0)" by (rule round_up)
  have mono: "(length D + 96) div 96 \<le> (length D + length (c # B) + 95) div 96" by (rule div_le_mono) simp
  have space: "rx_room r s" using Cons.prems(3,5) up mono by (auto simp: rx_room_def split: if_splits)
  from rx_data_ok [OF Cons.prems(1), of c] space Cons.prems(4) obtain r1 s1 where
    r1: "rx_data c r s = Some (None, r1, s1)" "slip_rx E (D @ [c]) r1 s1" "sl_state r1 = sl_state r" "sl_p r1 = None \<longleftrightarrow> (length D + 1) mod 96 = 0"
    "net_pools s1 = net_pools s" "card (pool_pbufs s1) \<le> card (pool_pbufs s) + (if sl_p r = None then 1 else 0)" by (auto simp: add_byte_def)
  have "card (pool_pbufs s1) + ((length (D @ [c]) + length B + 95) div 96 - (length (D @ [c]) + 95) div 96) \<le> unat (desc_num (pool_desc s1))"
    using Cons.prems(3,5) r1(5,6) up mono by (simp add: ac_simps split: if_splits) linarith+
  from Cons.IH [OF r1(2) _ _ _ this] r1 Cons.prems(2,4) obtain r' s' where
    "rx_run (slip_encode B) r1 s1 = Some ([], r', s')" "slip_rx E (D @ c # B) r' s'" "sl_state r' = SLIP_RECV_NORMAL" by auto
  with rx_slip_byte [OF Cons.prems(2) r1(1)] show ?case by (simp add: rx_run_append)
qed simp

lemma rx_frame:
  assumes ok: "net_ok E s" "slip_idle r" and D: "D \<noteq> []" "length D \<le> SLIP_MAX_SIZE + 1"
    and mem: "card (pool_pbufs s) + (length D + 95) div 96 \<le> unat (desc_num (pool_desc s))"
  shows "\<exists>p r' s' b. rx_run (slip_frame D) r s = Some ([p], r', s') \<and> packet E p D s' \<and> slip_idle r' \<and> pbufs s' p = Some b \<and> pb_len b = min 96 (length D)"
proof -
  have idle: "slip_rx E [] r s" "sl_state r = SLIP_RECV_NORMAL" using ok by (simp_all add: slip_rx_def slip_idle_def)
  have first: "slipif_rxbyte SLIP_END r s = Some (None, r, s)" using ok(2) by (simp add: slipif_rxbyte_def slip_idle_def)
  from rx_encoded [OF idle, of D] ok(2) D mem obtain r1 s1 where
    r1: "rx_run (slip_encode D) r s = Some ([], r1, s1)" "slip_rx E D r1 s1" "sl_state r1 = SLIP_RECV_NORMAL" by (auto simp: slip_idle_def)
  from rx_end_ok [OF r1(2) D(1)] obtain q s' where
    q: "sl_q r1 = Some q" "pbuf_realloc (Some q) (length D) s1 = Some s'" "packet E q D s'" by blast
  note head = rx_end_head [OF r1(2) D(1) q(1,2)]
  let ?r = "r1\<lparr>link_recv := link_recv r1 + 1, sl_p := None, sl_q := None, sl_i := 0, sl_recved := 0\<rparr>"
  have "sl_recved r1 = length D" using r1(2) by (simp add: slip_rx_def)
  then have "slipif_rxbyte SLIP_END r1 s1 = Some (Some q, ?r, s')" using q(1,2) r1(3) D(1) by (simp add: slipif_rxbyte_def)
  moreover have "slip_idle ?r" using r1(3) by (simp add: slip_idle_def)
  ultimately show ?thesis using first r1(1) q(3) head by (simp add: slip_frame_def rx_run_append)
qed

section \<open>Polling\<close>





section \<open>Properties\<close>

definition example_uart :: "u8 \<Rightarrow> u8 list \<Rightarrow> bool \<times> u8 list" where
  "example_uart c w = (True, w @ [c])"

definition example_post :: "u8 \<Rightarrow> u8 list \<Rightarrow> bool \<times> u8 list" where
  "example_post c w = (if length w < 50 then (True, w @ [c]) else (False, w))"

fun example_pend :: "u8 list \<Rightarrow> u8 option \<times> u8 list" where
  "example_pend [] = (None, [])"
| "example_pend (c # cs) = (Some c, cs)"

definition idle_priv :: slipif_priv where
  "idle_priv = \<lparr>sl_p = None, sl_q = None, sl_state = SLIP_RECV_NORMAL, sl_i = 0, sl_recved = 0, link_recv = 0, link_drop = 0\<rparr>"

lemma examples_ok:
  "uart_ok example_uart (\<lambda>w. w)" "mailbox_ok example_post example_pend (\<lambda>w. w)" "slip_idle idle_priv"
  by (simp_all add: uart_ok_def example_uart_def mailbox_ok_def example_post_def slip_idle_def idle_priv_def split: list.split)

text \<open>C4: the receiver is safe and refines its abstract description. Whatever byte arrives, in whatever state and however little memory is
  left, \<open>slipif_rxbyte\<close> returns, writes only to the packet under construction, and behaves like \<open>rx_next\<close> on the bytes received so far:
  escapes are undone, an end marker delivers the bytes received if there are any, and bytes that do not fit are dropped.\<close>

theorem slip_receiver_refines:
  assumes "slip_rx E D r s"
  shows "\<exists>out r' s'. slipif_rxbyte c r s = Some (out, r', s') \<and>
    (case rx_next (rx_room r s) (sl_state r) c D of (st', D', pk) \<Rightarrow> sl_state r' = st' \<and>
       (case pk of None \<Rightarrow> out = None \<and> slip_rx E D' r' s'
        | Some D \<Rightarrow> \<exists>p. out = Some p \<and> packet E p D s' \<and> slip_idle r'))"
  by (rule rxbyte_ok [OF assms])

theorem slip_receiver_refines_witness:
  "\<exists>r' s'. slipif_rxbyte 65 idle_priv example_net = Some (None, r', s') \<and> slip_rx (\<lambda>_. 0) [65] r' s'"
proof -
  have "card (pool_pbufs example_net) < unat (desc_num (pool_desc example_net))"
    by (simp add: pool_pbufs_def example_net_def example_net_pools_def)
  then have "rx_next (rx_room idle_priv example_net) (sl_state idle_priv) 65 [] = (SLIP_RECV_NORMAL, [65], None)"
    by (simp add: idle_priv_def add_byte_def rx_room_def)
  with slip_receiver_refines [OF slip_idle_rx [OF examples_ok(3) example_net_ok], of 65] show ?thesis by auto
qed

text \<open>C8: transmission over the line. What \<open>slipif_output\<close> puts on the line for a packet, however it is cut into pbufs, makes an idle receiver with
  enough buffers deliver exactly one packet with the same bytes, at the last byte of the frame.\<close>

theorem slip_transmission:
  assumes "uart_ok UART_write line" "chain (pbufs s) (Some p) xs" "payloads Q (pbufs s) xs"
    and "chain_data (pbufs s) (bytes s) xs = D" "D \<noteq> []" "length D \<le> SLIP_MAX_SIZE + 1"
    and "net_ok E t" "slip_idle r" "card (pool_pbufs t) + (length D + 95) div 96 \<le> unat (desc_num (pool_desc t))"
  shows "\<exists>w' frame q r' t'. slipif_output UART_write (Some p) s w = Some (ERR_OK, w') \<and> line w' = line w @ frame
    \<and> rx_run frame r t = Some ([q], r', t') \<and> packet E q D t' \<and> slip_idle r'"
proof -
  from slipif_output_line [OF assms(1) _ assms(3), of p w] assms(2,4) obtain w' where
    "slipif_output UART_write (Some p) s w = Some (ERR_OK, w')" "line w' = line w @ slip_frame D" by (auto simp: chain_def)
  with rx_frame [OF assms(7,8,5,6,9)] show ?thesis by blast
qed

theorem slip_transmission_witness:
  "\<exists>p s w' frame q r' t'. pbuf_alloc PBUF_RAW 200 PBUF_POOL example_net = Some (Some p, s)
     \<and> slipif_output example_uart (Some p) s [] = Some (ERR_OK, w') \<and> w' = frame \<and> rx_run frame idle_priv example_net = Some ([q], r', t')"
proof -
  obtain p xs s where p: "pbuf_alloc PBUF_RAW 200 PBUF_POOL example_net = Some (Some p, s)"
    "new_chain (\<lambda>_. 0) PBUF_RAW 200 PBUF_POOL example_net p xs s" by (rule example_packet)
  note parts = new_chain_parts [OF p(2)]
  have "pbuf_inv s" using parts(1) by (simp add: net_ok_def)
  from own_payloads [OF this parts(6)] have pl: "payloads (\<lambda>_ _. True) (pbufs s) xs" by simp
  let ?D = "chain_data (pbufs s) (bytes s) xs"
  have len: "length ?D = 200" using length_chain_data [OF pl] parts(3) by simp
  then have ne: "?D \<noteq> []" by auto
  have "card (pool_pbufs example_net) + (length ?D + 95) div 96 \<le> unat (desc_num (pool_desc example_net))"
    unfolding len by (simp add: pool_pbufs_def example_net_def example_net_pools_def)
  from slip_transmission [OF examples_ok(1) parts(2) pl refl ne _ example_net_ok examples_ok(3) this, of "[]"] len p(1) show ?thesis by auto
qed



end
