(* ===== verification/Linked_List.thy ===== *)
theory Linked_List
  imports Lwip_Prelude
begin

text \<open>
  Singly linked lists of structures in a store, as lwIP keeps its interfaces and its protocol control blocks: \<open>linked nx m p xs\<close> says
  that following the \<^verbatim>\<open>next\<close> field \<open>nx\<close> from \<open>p\<close> visits the structures \<open>xs\<close> of the store \<open>m\<close>, each once. The lemmas are those on
  insertion at the head, removal behind a predecessor and moving an element to the front, which all these lists share.
\<close>

definition next_in :: "('n \<Rightarrow> ptr) \<Rightarrow> (nat \<rightharpoonup> 'n) \<Rightarrow> nat \<Rightarrow> ptr" where
  "next_in nx m a = (case m a of None \<Rightarrow> None | Some n \<Rightarrow> nx n)"

definition linked :: "('n \<Rightarrow> ptr) \<Rightarrow> (nat \<rightharpoonup> 'n) \<Rightarrow> ptr \<Rightarrow> nat list \<Rightarrow> bool" where
  "linked nx m p xs \<longleftrightarrow> list_from (next_in nx m) p xs \<and> distinct xs \<and> set xs \<subseteq> dom m"

lemma linked_None [simp]: "linked nx m None xs \<longleftrightarrow> xs = []"
  by (auto simp: linked_def)

lemma linked_Nil [simp]: "linked nx m p [] \<longleftrightarrow> p = None"
  by (simp add: linked_def)

lemma linked_Cons: "linked nx m p (a # as) \<longleftrightarrow> p = Some a \<and> a \<notin> set as \<and> (\<exists>n. m a = Some n \<and> linked nx m (nx n) as)"
  by (auto simp: linked_def next_in_def)

lemma linked_Some: "linked nx m (Some a) xs \<longleftrightarrow> (\<exists>as n. xs = a # as \<and> a \<notin> set as \<and> m a = Some n \<and> linked nx m (nx n) as)"
  by (cases xs) (auto simp: linked_Cons)

lemma linked_dom: "linked nx m p xs \<Longrightarrow> x \<in> set xs \<Longrightarrow> \<exists>n. m x = Some n"
  by (auto simp: linked_def)

lemma linked_distinct: "linked nx m p xs \<Longrightarrow> distinct xs"
  by (simp add: linked_def)

lemma linked_cong:
  "\<lbrakk>linked nx m p xs; \<And>x. x \<in> set xs \<Longrightarrow> map_option nx (m' x) = map_option nx (m x)\<rbrakk> \<Longrightarrow> linked nx m' p xs"
proof (induction xs arbitrary: p)
  case (Cons a xs)
  then obtain n where n: "p = Some a" "a \<notin> set xs" "m a = Some n" "linked nx m (nx n) xs" by (auto simp: linked_Cons)
  with Cons.prems(2) [of a] obtain n' where "m' a = Some n'" "nx n' = nx n" by auto
  with n Cons.IH [OF n(4)] Cons.prems(2) show ?case by (simp add: linked_Cons)
qed simp

lemma linked_other [simp]: "a \<notin> set xs \<Longrightarrow> linked nx (m(a := v)) p xs \<longleftrightarrow> linked nx m p xs"
  by (intro iffI; erule linked_cong) auto

lemma linked_push: "\<lbrakk>linked nx m p xs; a \<notin> set xs; nx n = p\<rbrakk> \<Longrightarrow> linked nx (m(a \<mapsto> n)) (Some a) (a # xs)"
  by (simp add: linked_Cons)

lemma linked_upd_same: "\<lbrakk>linked nx m p xs; m a = Some n; nx n' = nx n\<rbrakk> \<Longrightarrow> linked nx (m(a \<mapsto> n')) p xs"
  by (erule linked_cong) auto

text \<open>Taking \<open>a\<close> out behind its predecessor \<open>t\<close>.\<close>

lemma linked_unlink:
  "\<lbrakk>linked nx m p (us @ t # a # vs); m a = Some n; m t = Some tn; nx tn' = nx n\<rbrakk> \<Longrightarrow> linked nx (m(t \<mapsto> tn')) p (us @ t # vs)"
proof (induction us arbitrary: p)
  case (Cons u us)
  then obtain un where un: "p = Some u" "u \<notin> set (us @ t # a # vs)" "m u = Some un" "linked nx m (nx un) (us @ t # a # vs)"
    by (auto simp: linked_Cons)
  with Cons.IH [OF un(4)] Cons.prems show ?case by (auto simp: linked_Cons)
qed (auto simp: linked_Cons)

lemma linked_split:
  "\<lbrakk>linked nx m p (us @ a # vs); m a = Some n\<rbrakk> \<Longrightarrow> linked nx m (Some a) (a # vs) \<and> linked nx m (nx n) vs \<and> a \<notin> set us \<union> set vs"
proof (induction us arbitrary: p)
  case (Cons u us)
  then obtain un where un: "p = Some u" "u \<notin> set (us @ a # vs)" "linked nx m (nx un) (us @ a # vs)" by (auto simp: linked_Cons)
  with Cons.IH [OF un(3) Cons.prems(2)] show ?case by auto
qed (auto simp: linked_Cons)

end
