(* ===== verification/Netif.thy ===== *)
theory Netif
  imports Slipif Ip4_Addr Linked_List
begin

text \<open>
  \<^verbatim>\<open>core/netif.c\<close>: the list of network interfaces, their configuration and state, and the loopback queue of each; and the
  initialisation of the SLIP interface (\<open>slipif_init\<close>).

  Function pointers in \<^verbatim>\<open>struct netif\<close> are names of the functions that this program stores there. What other components do when
  an interface changes is called through \<open>netif_hooks\<close>, functions on the state \<open>'w\<close> of the rest of the stack: the reactions of TCP,
  UDP and RAW to a new address, of ARP, DHCP and AutoIP to a change of state, and the callbacks of the application. The counters of
  \<^verbatim>\<open>lwip_stats.link\<close> are the sums of those kept here, for the loopback queue, and of those in \<open>slipif_priv\<close>.
\<close>

section \<open>Definitions\<close>

abbreviation (input) NETIF_FLAG_UP :: u8 where "NETIF_FLAG_UP \<equiv> 0x01"
abbreviation (input) NETIF_FLAG_LINK_UP :: u8 where "NETIF_FLAG_LINK_UP \<equiv> 0x04"
abbreviation (input) NETIF_FLAG_ETHARP :: u8 where "NETIF_FLAG_ETHARP \<equiv> 0x08"
abbreviation (input) LWIP_LOOPBACK_MAX_PBUFS :: nat where "LWIP_LOOPBACK_MAX_PBUFS \<equiv> 10"

datatype netif_output_fn = slipif_output_v4_fn | netif_loop_output_ipv4_fn

datatype netif_input_fn = ip_input_fn

text \<open>What \<^verbatim>\<open>netif->state\<close> points to: nothing, the number of a serial port, or the private data of the SLIP interface.\<close>

datatype netif_state = no_state | port_number u8 | slip_state nat

record netif = netif_cfg +
  nf_next :: ptr
  nf_input :: "netif_input_fn option"
  nf_output :: "netif_output_fn option"
  nf_state :: netif_state
  status_callback :: bool
  link_callback :: bool
  loop_first :: ptr
  loop_last :: ptr
  loop_cnt_current :: nat

record netifs =
  netif_at :: "nat \<rightharpoonup> netif"
  netif_list :: ptr
  netif_default :: ptr
  netif_num :: u8
  lo_xmit :: u16
  lo_recv :: u16
  lo_memerr :: u16
  lo_drop :: u16

record 'w netif_hooks =
  tcp_addr_changed :: "u32 \<Rightarrow> u32 option \<Rightarrow> 'w \<Rightarrow> 'w"
  udp_addr_changed :: "u32 \<Rightarrow> u32 option \<Rightarrow> 'w \<Rightarrow> 'w"
  raw_addr_changed :: "u32 \<Rightarrow> u32 option \<Rightarrow> 'w \<Rightarrow> 'w"
  etharp_gratuitous :: "nat \<Rightarrow> 'w \<Rightarrow> 'w"
  etharp_cleanup :: "nat \<Rightarrow> 'w \<Rightarrow> 'w"
  dhcp_changed :: "nat \<Rightarrow> 'w \<Rightarrow> 'w"
  autoip_changed :: "nat \<Rightarrow> 'w \<Rightarrow> 'w"
  status_cb :: "nat \<Rightarrow> netif \<Rightarrow> 'w \<Rightarrow> 'w"
  link_cb :: "nat \<Rightarrow> netif \<Rightarrow> 'w \<Rightarrow> 'w"

definition put_netif :: "nat \<Rightarrow> netif \<Rightarrow> netifs \<Rightarrow> netifs" where
  "put_netif a n ns = ns\<lparr>netif_at := (netif_at ns)(a \<mapsto> n)\<rparr>"

definition upd_netif :: "nat \<Rightarrow> (netif \<Rightarrow> netif) \<Rightarrow> netifs \<Rightarrow> netifs option" where
  "upd_netif a f ns = do { n \<leftarrow> netif_at ns a; Some (put_netif a (f n) ns) }"

subsection \<open>Configuration\<close>

definition NETIF_STATUS_CALLBACK :: "'w netif_hooks \<Rightarrow> nat \<Rightarrow> netifs \<times> 'w \<Rightarrow> (netifs \<times> 'w) option" where
  "NETIF_STATUS_CALLBACK h a st = do {
     let (ns, w) = st;
     n \<leftarrow> netif_at ns a;
     Some (ns, if status_callback n then status_cb h a n w else w)
   }"

definition NETIF_LINK_CALLBACK :: "'w netif_hooks \<Rightarrow> nat \<Rightarrow> netifs \<times> 'w \<Rightarrow> (netifs \<times> 'w) option" where
  "NETIF_LINK_CALLBACK h a st = do {
     let (ns, w) = st;
     n \<leftarrow> netif_at ns a;
     Some (ns, if link_callback n then link_cb h a n w else w)
   }"

definition netif_issue_reports :: "'w netif_hooks \<Rightarrow> nat \<Rightarrow> netifs \<times> 'w \<Rightarrow> (netifs \<times> 'w) option" where
  "netif_issue_reports h a st = do {
     let (ns, w) = st;
     n \<leftarrow> netif_at ns a;
     Some (ns, if ip_addr n \<noteq> IPADDR_ANY \<and> flags n AND NETIF_FLAG_ETHARP \<noteq> 0 then etharp_gratuitous h a w else w)
   }"

definition netif_set_ipaddr :: "'w netif_hooks \<Rightarrow> nat \<Rightarrow> u32 option \<Rightarrow> netifs \<times> 'w \<Rightarrow> (netifs \<times> 'w) option" where
  "netif_set_ipaddr h a ipaddr st = do {
     let (ns, w) = st;
     n \<leftarrow> netif_at ns a;
     let new_addr = (case ipaddr of Some x \<Rightarrow> x | None \<Rightarrow> IPADDR_ANY);
     if new_addr \<noteq> ip_addr n then do {
       let w = tcp_addr_changed h (ip_addr n) (Some new_addr) w;
       let w = udp_addr_changed h (ip_addr n) (Some new_addr) w;
       let w = raw_addr_changed h (ip_addr n) (Some new_addr) w;
       let ns = put_netif a (n\<lparr>ip_addr := new_addr\<rparr>) ns;
       st \<leftarrow> netif_issue_reports h a (ns, w);
       NETIF_STATUS_CALLBACK h a st
     } else Some (ns, w)
   }"

definition netif_set_gw :: "nat \<Rightarrow> u32 option \<Rightarrow> netifs \<Rightarrow> netifs option" where
  "netif_set_gw a g ns = upd_netif a (\<lambda>n. n\<lparr>gw := (case g of Some x \<Rightarrow> x | None \<Rightarrow> 0)\<rparr>) ns"

definition netif_set_netmask :: "nat \<Rightarrow> u32 option \<Rightarrow> netifs \<Rightarrow> netifs option" where
  "netif_set_netmask a m ns = upd_netif a (\<lambda>n. n\<lparr>netmask := (case m of Some x \<Rightarrow> x | None \<Rightarrow> 0)\<rparr>) ns"

definition netif_set_addr :: "'w netif_hooks \<Rightarrow> nat \<Rightarrow> u32 option \<Rightarrow> u32 option \<Rightarrow> u32 option \<Rightarrow> netifs \<times> 'w \<Rightarrow> (netifs \<times> 'w) option" where
  "netif_set_addr h a ipaddr m g st =
     (if ipaddr = None \<or> ipaddr = Some IPADDR_ANY then do {
        (ns, w) \<leftarrow> netif_set_ipaddr h a ipaddr st;
        ns \<leftarrow> netif_set_netmask a m ns;
        ns \<leftarrow> netif_set_gw a g ns;
        Some (ns, w)
      } else do {
        let (ns, w) = st;
        ns \<leftarrow> netif_set_netmask a m ns;
        ns \<leftarrow> netif_set_gw a g ns;
        netif_set_ipaddr h a ipaddr (ns, w)
      })"

definition netif_set_default :: "ptr \<Rightarrow> netifs \<Rightarrow> netifs" where
  "netif_set_default p ns = ns\<lparr>netif_default := p\<rparr>"

definition netif_set_up :: "'w netif_hooks \<Rightarrow> nat \<Rightarrow> netifs \<times> 'w \<Rightarrow> (netifs \<times> 'w) option" where
  "netif_set_up h a st = do {
     let (ns, w) = st;
     n \<leftarrow> netif_at ns a;
     if flags n AND NETIF_FLAG_UP = 0 then do {
       let n = n\<lparr>flags := flags n OR NETIF_FLAG_UP\<rparr>;
       st \<leftarrow> NETIF_STATUS_CALLBACK h a (put_netif a n ns, w);
       if flags n AND NETIF_FLAG_LINK_UP \<noteq> 0 then netif_issue_reports h a st else Some st
     } else Some (ns, w)
   }"

definition netif_set_down :: "'w netif_hooks \<Rightarrow> nat \<Rightarrow> netifs \<times> 'w \<Rightarrow> (netifs \<times> 'w) option" where
  "netif_set_down h a st = do {
     let (ns, w) = st;
     n \<leftarrow> netif_at ns a;
     if flags n AND NETIF_FLAG_UP \<noteq> 0 then do {
       let n = n\<lparr>flags := flags n AND NOT NETIF_FLAG_UP\<rparr>;
       let w = (if flags n AND NETIF_FLAG_ETHARP \<noteq> 0 then etharp_cleanup h a w else w);
       NETIF_STATUS_CALLBACK h a (put_netif a n ns, w)
     } else Some (ns, w)
   }"

definition netif_set_link_up :: "'w netif_hooks \<Rightarrow> nat \<Rightarrow> netifs \<times> 'w \<Rightarrow> (netifs \<times> 'w) option" where
  "netif_set_link_up h a st = do {
     let (ns, w) = st;
     n \<leftarrow> netif_at ns a;
     if flags n AND NETIF_FLAG_LINK_UP = 0 then do {
       let n = n\<lparr>flags := flags n OR NETIF_FLAG_LINK_UP\<rparr>;
       let w = autoip_changed h a (dhcp_changed h a w);
       st \<leftarrow> (if flags n AND NETIF_FLAG_UP \<noteq> 0 then netif_issue_reports h a (put_netif a n ns, w) else Some (put_netif a n ns, w));
       NETIF_LINK_CALLBACK h a st
     } else Some (ns, w)
   }"

definition netif_set_link_down :: "'w netif_hooks \<Rightarrow> nat \<Rightarrow> netifs \<times> 'w \<Rightarrow> (netifs \<times> 'w) option" where
  "netif_set_link_down h a st = do {
     let (ns, w) = st;
     n \<leftarrow> netif_at ns a;
     if flags n AND NETIF_FLAG_LINK_UP \<noteq> 0
     then NETIF_LINK_CALLBACK h a (put_netif a (n\<lparr>flags := flags n AND NOT NETIF_FLAG_LINK_UP\<rparr>) ns, w)
     else Some (ns, w)
   }"

definition netif_set_status_callback :: "ptr \<Rightarrow> bool \<Rightarrow> netifs \<Rightarrow> netifs option" where
  "netif_set_status_callback p cb ns = (case p of None \<Rightarrow> Some ns | Some a \<Rightarrow> upd_netif a (\<lambda>n. n\<lparr>status_callback := cb\<rparr>) ns)"

definition netif_set_link_callback :: "ptr \<Rightarrow> bool \<Rightarrow> netifs \<Rightarrow> netifs option" where
  "netif_set_link_callback p cb ns = (case p of None \<Rightarrow> Some ns | Some a \<Rightarrow> upd_netif a (\<lambda>n. n\<lparr>link_callback := cb\<rparr>) ns)"

subsection \<open>The list of interfaces\<close>

text \<open>\<open>init\<close> is the initialisation function of the driver, which may change the interface and the rest of the state.\<close>

definition netif_add ::
  "'w netif_hooks \<Rightarrow> nat \<Rightarrow> u32 option \<Rightarrow> u32 option \<Rightarrow> u32 option \<Rightarrow> netif_state
   \<Rightarrow> (nat \<Rightarrow> netifs \<times> 'w \<Rightarrow> (err_t \<times> netifs \<times> 'w) option) \<Rightarrow> netif_input_fn \<Rightarrow> netifs \<times> 'w \<Rightarrow> (ptr \<times> netifs \<times> 'w) option" where
  "netif_add h a ipaddr m g state init input st = do {
     let (ns, w) = st;
     ns \<leftarrow> upd_netif a (\<lambda>n. n\<lparr>ip_addr := 0, netmask := 0, gw := 0, flags := 0, status_callback := False, link_callback := False,
            loop_first := None, loop_last := None, nf_state := state, num := netif_num ns, nf_input := Some input, loop_cnt_current := 0\<rparr>) ns;
     let ns = ns\<lparr>netif_num := netif_num ns + 1\<rparr>;
     st \<leftarrow> netif_set_addr h a ipaddr m g (ns, w);
     (err, ns, w) \<leftarrow> init a st;
     if err \<noteq> ERR_OK then Some (None, ns, w)
     else do {
       ns \<leftarrow> upd_netif a (\<lambda>n. n\<lparr>nf_next := netif_list ns\<rparr>) ns;
       Some (Some a, ns\<lparr>netif_list := Some a\<rparr>, w)
     }
   }"

text \<open>The search for the predecessor of \<open>a\<close> in the list; the result says whether it was found.\<close>

partial_function (option) remove_loop :: "nat \<Rightarrow> ptr \<Rightarrow> netifs \<Rightarrow> (bool \<times> netifs) option" where
  "remove_loop a tmp ns =
     (case tmp of
        None \<Rightarrow> Some (False, ns)
      | Some t \<Rightarrow> Option.bind (netif_at ns t) (\<lambda>tn.
          if nf_next tn = Some a
          then Option.bind (netif_at ns a) (\<lambda>n. Some (True, put_netif t (tn\<lparr>nf_next := nf_next n\<rparr>) ns))
          else remove_loop a (nf_next tn) ns))"

definition netif_remove :: "'w netif_hooks \<Rightarrow> ptr \<Rightarrow> netifs \<times> 'w \<Rightarrow> (netifs \<times> 'w) option" where
  "netif_remove h p st =
     (case p of
        None \<Rightarrow> Some st
      | Some a \<Rightarrow> do {
          let (ns, w) = st;
          n \<leftarrow> netif_at ns a;
          let w = (if ip_addr n \<noteq> IPADDR_ANY then
                     raw_addr_changed h (ip_addr n) None (udp_addr_changed h (ip_addr n) None (tcp_addr_changed h (ip_addr n) None w))
                   else w);
          (ns, w) \<leftarrow> (if flags n AND NETIF_FLAG_UP \<noteq> 0 then netif_set_down h a (ns, w) else Some (ns, w));
          let ns = (if netif_default ns = Some a then netif_set_default None ns else ns);
          if netif_list ns = Some a then do {
            n \<leftarrow> netif_at ns a;
            Some (ns\<lparr>netif_list := nf_next n\<rparr>, w)
          } else do {
            (_, ns) \<leftarrow> remove_loop a (netif_list ns) ns;
            Some (ns, w)
          }
        })"

text \<open>\<open>name\<close> are the first three characters of the argument.\<close>

partial_function (option) find_loop :: "u8 \<Rightarrow> u8 \<Rightarrow> u8 \<Rightarrow> netifs \<Rightarrow> ptr \<Rightarrow> ptr option" where
  "find_loop n c0 c1 ns p =
     (case p of
        None \<Rightarrow> Some None
      | Some a \<Rightarrow> Option.bind (netif_at ns a) (\<lambda>x.
          if n = num x \<and> c0 = fst (name x) \<and> c1 = snd (name x) then Some (Some a) else find_loop n c0 c1 ns (nf_next x)))"

definition netif_find :: "(u8 \<times> u8 \<times> u8) option \<Rightarrow> netifs \<Rightarrow> ptr option" where
  "netif_find nm ns =
     (case nm of None \<Rightarrow> Some None
      | Some (c0, c1, c2) \<Rightarrow> find_loop (c2 - 48) c0 c1 ns (netif_list ns))"

definition netif_loopif_init :: "nat \<Rightarrow> netifs \<times> 'w \<Rightarrow> (err_t \<times> netifs \<times> 'w) option" where
  "netif_loopif_init a st = do {
     let (ns, w) = st;
     ns \<leftarrow> upd_netif a (\<lambda>n. n\<lparr>name := (108, 111), nf_output := Some netif_loop_output_ipv4_fn\<rparr>) ns;
     Some (ERR_OK, ns, w)
   }"

text \<open>\<open>loop_netif\<close> is the address of the static structure of the loopback interface.\<close>

definition netif_init :: "'w netif_hooks \<Rightarrow> nat \<Rightarrow> netifs \<times> 'w \<Rightarrow> (netifs \<times> 'w) option" where
  "netif_init h loop_netif st = do {
     let loop_gw = IP4_ADDR 127 0 0 1;
     let loop_ipaddr = IP4_ADDR 127 0 0 1;
     let loop_netmask = IP4_ADDR 255 0 0 0;
     (_, st) \<leftarrow> netif_add h loop_netif (Some loop_ipaddr) (Some loop_netmask) (Some loop_gw) no_state netif_loopif_init ip_input_fn st;
     st \<leftarrow> netif_set_link_up h loop_netif st;
     netif_set_up h loop_netif st
   }"

subsection \<open>The SLIP driver\<close>

text \<open>
  The state of the driver is \<open>(privs, s, w)\<close>: the private data of the SLIP interfaces by address, the pbufs and allocators, and the
  devices. \<open>sio_open\<close> does not look at the number of the port. A \<^verbatim>\<open>struct slipif_priv\<close> has 20 bytes.
\<close>

definition slipif_init ::
  "('w \<Rightarrow> bool \<times> 'w) \<Rightarrow> ('w \<Rightarrow> bool \<times> 'w) \<Rightarrow> ('w \<Rightarrow> 'w) \<Rightarrow> nat \<Rightarrow> netifs \<times> (nat \<rightharpoonup> slipif_priv) \<times> net \<times> 'w
   \<Rightarrow> (err_t \<times> netifs \<times> (nat \<rightharpoonup> slipif_priv) \<times> net \<times> 'w) option" where
  "slipif_init Mailbox_create UART_open UART_read a st = do {
     let (ns, privs, s, w) = st;
     (p, s) \<leftarrow> net_mem_malloc 20 s;
     case p of
       None \<Rightarrow> Some (ERR_MEM, ns, privs, s, w)
     | Some p \<Rightarrow> do {
         ns \<leftarrow> upd_netif a (\<lambda>n. n\<lparr>name := (115, 108), nf_output := Some slipif_output_v4_fn, mtu := of_nat SLIP_MAX_SIZE\<rparr>) ns;
         (sd, w) \<leftarrow> sio_open Mailbox_create UART_open UART_read w;
         if \<not> sd then do {
           s \<leftarrow> net_mem_free p s;
           Some (ERR_IF, ns, privs, s, w)
         } else do {
           let privs = privs(p \<mapsto> \<lparr>sl_p = None, sl_q = None, sl_state = SLIP_RECV_NORMAL, sl_i = 0, sl_recved = 0, link_recv = 0, link_drop = 0\<rparr>);
           ns \<leftarrow> upd_netif a (\<lambda>n. n\<lparr>nf_state := slip_state p\<rparr>) ns;
           Some (ERR_OK, ns, privs, s, w)
         }
       }
   }"

subsection \<open>Loopback\<close>

partial_function (option) last_loop :: "net \<Rightarrow> nat \<Rightarrow> nat option" where
  "last_loop s a = Option.bind (pbufs s a) (\<lambda>b. case pb_next b of None \<Rightarrow> Some a | Some n \<Rightarrow> last_loop s n)"

definition lo_discard :: "netifs \<Rightarrow> netifs" where
  "lo_discard ns = ns\<lparr>lo_memerr := lo_memerr ns + 1, lo_drop := lo_drop ns + 1\<rparr>"

definition netif_loop_output :: "nat \<Rightarrow> nat \<Rightarrow> netifs \<times> net \<Rightarrow> (err_t \<times> netifs \<times> net) option" where
  "netif_loop_output a p st = do {
     let (ns, s) = st;
     b \<leftarrow> pbufs s p;
     (r, s) \<leftarrow> pbuf_alloc PBUF_LINK (pb_tot_len b) PBUF_RAM s;
     case r of
       None \<Rightarrow> Some (ERR_MEM, lo_discard ns, s)
     | Some r \<Rightarrow> do {
         clen \<leftarrow> pbuf_clen (Some r) s;
         n \<leftarrow> netif_at ns a;
         if loop_cnt_current n + clen < loop_cnt_current n \<or> loop_cnt_current n + clen > LWIP_LOOPBACK_MAX_PBUFS then do {
           (_, s) \<leftarrow> pbuf_free (Some r) s;
           Some (ERR_MEM, lo_discard ns, s)
         } else do {
           let n = n\<lparr>loop_cnt_current := to_u16 (loop_cnt_current n + clen)\<rparr>;
           let ns = put_netif a n ns;
           (err, s) \<leftarrow> pbuf_copy (Some r) (Some p) s;
           if err \<noteq> ERR_OK then do {
             (_, s) \<leftarrow> pbuf_free (Some r) s;
             Some (err, lo_discard ns, s)
           } else do {
             last' \<leftarrow> last_loop s r;
             (n, s) \<leftarrow> (case loop_first n of
                 Some f \<Rightarrow> do {
                   l \<leftarrow> loop_last n;
                   s \<leftarrow> upd_pbuf l (\<lambda>b. b\<lparr>pb_next := Some r\<rparr>) s;
                   Some (n\<lparr>loop_last := Some last'\<rparr>, s)
                 }
               | None \<Rightarrow> Some (n\<lparr>loop_first := Some r, loop_last := Some last'\<rparr>, s));
             let ns = put_netif a n ns;
             Some (ERR_OK, ns\<lparr>lo_xmit := lo_xmit ns + 1\<rparr>, s)
           }
         }
       }
   }"

definition netif_loop_output_ipv4 :: "nat \<Rightarrow> nat \<Rightarrow> u32 \<Rightarrow> netifs \<times> net \<Rightarrow> (err_t \<times> netifs \<times> net) option" where
  "netif_loop_output_ipv4 a p addr st = netif_loop_output a p st"

text \<open>The end of the first packet on the queue, and the number of its pbufs, counted in 8 bits.\<close>

partial_function (option) poll_end :: "net \<Rightarrow> nat \<Rightarrow> nat \<Rightarrow> (nat \<times> nat) option" where
  "poll_end s in_end clen = Option.bind (pbufs s in_end) (\<lambda>b.
     if pb_len b \<noteq> pb_tot_len b then Option.bind (pb_next b) (\<lambda>n. poll_end s n ((clen + 1) mod 256))
     else Some (in_end, clen))"

definition poll_take :: "nat \<Rightarrow> netifs \<times> net \<Rightarrow> (ptr \<times> netifs \<times> net) option" where
  "poll_take a st = do {
     let (ns, s) = st;
     n \<leftarrow> netif_at ns a;
     case loop_first n of
       None \<Rightarrow> Some (None, ns, s)
     | Some f \<Rightarrow> do {
         (in_end, clen) \<leftarrow> poll_end s f 1;
         lwip_assert (int (loop_cnt_current n) - int clen < int (loop_cnt_current n));
         let n = n\<lparr>loop_cnt_current := nat ((int (loop_cnt_current n) - int clen) mod 65536)\<rparr>;
         n \<leftarrow> (if loop_last n = Some in_end then Some (n\<lparr>loop_first := None, loop_last := None\<rparr>)
               else do {
                 b \<leftarrow> pbufs s in_end;
                 lwip_assert (pb_next b \<noteq> None);
                 Some (n\<lparr>loop_first := pb_next b\<rparr>)
               });
         s \<leftarrow> upd_pbuf in_end (\<lambda>b. b\<lparr>pb_next := None\<rparr>) s;
         let ns = put_netif a n ns;
         Some (Some f, ns\<lparr>lo_recv := lo_recv ns + 1\<rparr>, s)
       }
   }"

text \<open>\<open>ip_input\<close> is the input function of the IP layer.\<close>

partial_function (option) netif_poll ::
  "(nat \<Rightarrow> nat \<Rightarrow> netifs \<times> net \<times> 'w \<Rightarrow> (err_t \<times> netifs \<times> net \<times> 'w) option) \<Rightarrow> nat \<Rightarrow> netifs \<times> net \<times> 'w \<Rightarrow> (netifs \<times> net \<times> 'w) option" where
  "netif_poll ip_input a st = (case st of (ns, s, w) \<Rightarrow>
     Option.bind (poll_take a (ns, s)) (\<lambda>(p, ns, s).
       case p of
         None \<Rightarrow> Some (ns, s, w)
       | Some p \<Rightarrow> Option.bind (ip_input p a (ns, s, w)) (\<lambda>(err, ns, s, w).
           if err \<noteq> ERR_OK then Option.bind (pbuf_free (Some p) s) (\<lambda>(_, s). netif_poll ip_input a (ns, s, w))
           else netif_poll ip_input a (ns, s, w))))"

partial_function (option) netif_poll_all ::
  "(nat \<Rightarrow> nat \<Rightarrow> netifs \<times> net \<times> 'w \<Rightarrow> (err_t \<times> netifs \<times> net \<times> 'w) option) \<Rightarrow> ptr \<Rightarrow> netifs \<times> net \<times> 'w \<Rightarrow> (netifs \<times> net \<times> 'w) option" where
  "netif_poll_all ip_input p st =
     (case p of
        None \<Rightarrow> Some st
      | Some a \<Rightarrow> Option.bind (netif_poll ip_input a st) (\<lambda>st.
          Option.bind (netif_at (fst st) a) (\<lambda>n. netif_poll_all ip_input (nf_next n) st)))"

section \<open>Addresses\<close>

lemma put_netif_simps [simp]:
  "netif_at (put_netif a n ns) = (netif_at ns)(a \<mapsto> n)" "netif_list (put_netif a n ns) = netif_list ns"
  "netif_default (put_netif a n ns) = netif_default ns" "netif_num (put_netif a n ns) = netif_num ns"
  "put_netif a n' (put_netif a n ns) = put_netif a n' ns"
  by (simp_all add: put_netif_def)

lemma upd_netif_Some: "netif_at ns a = Some n \<Longrightarrow> upd_netif a f ns = Some (put_netif a (f n) ns)"
  by (simp add: upd_netif_def)

text \<open>A property of the rest of the stack that the reactions to a change of an interface preserve.\<close>

definition hooks_keep :: "('w \<Rightarrow> bool) \<Rightarrow> 'w netif_hooks \<Rightarrow> bool" where
  "hooks_keep I h \<longleftrightarrow> (\<forall>w. I w \<longrightarrow> (\<forall>x y. I (tcp_addr_changed h x y w) \<and> I (udp_addr_changed h x y w) \<and> I (raw_addr_changed h x y w))
     \<and> (\<forall>a. I (etharp_gratuitous h a w) \<and> I (etharp_cleanup h a w) \<and> I (dhcp_changed h a w) \<and> I (autoip_changed h a w))
     \<and> (\<forall>a n. I (status_cb h a n w) \<and> I (link_cb h a n w)))"

definition given :: "u32 option \<Rightarrow> u32" where
  "given x = (case x of None \<Rightarrow> 0 | Some y \<Rightarrow> y)"

lemma given_simps [simp]: "given None = 0" "given (Some x) = x"
  by (simp_all add: given_def)

lemma set_ipaddr_ok:
  assumes "netif_at ns a = Some n"
  shows "\<exists>w'. netif_set_ipaddr h a x (ns, w) = Some (put_netif a (n\<lparr>ip_addr := given x\<rparr>) ns, w') \<and> (hooks_keep I h \<longrightarrow> I w \<longrightarrow> I w')"
proof (cases "given x = ip_addr n")
  case True
  then have "n\<lparr>ip_addr := given x\<rparr> = n" by simp
  then have "put_netif a (n\<lparr>ip_addr := given x\<rparr>) ns = ns" using assms by (simp add: put_netif_def fun_upd_idem)
  with True assms show ?thesis by (simp add: netif_set_ipaddr_def given_def)
next
  case False
  with assms show ?thesis
    by (simp add: netif_set_ipaddr_def netif_issue_reports_def NETIF_STATUS_CALLBACK_def given_def [symmetric] hooks_keep_def Let_def)
qed

lemma set_mask_gw:
  assumes "netif_at ns a = Some n"
  shows "netif_set_netmask a m ns = Some (put_netif a (n\<lparr>netmask := given m\<rparr>) ns)"
    "netif_set_gw a g ns = Some (put_netif a (n\<lparr>gw := given g\<rparr>) ns)"
  using assms by (simp_all add: netif_set_netmask_def netif_set_gw_def upd_netif_Some given_def)

lemma set_addr_ok:
  assumes "netif_at ns a = Some n"
  shows "\<exists>w'. netif_set_addr h a x m g (ns, w) = Some (put_netif a (n\<lparr>ip_addr := given x, netmask := given m, gw := given g\<rparr>) ns, w')
    \<and> (hooks_keep I h \<longrightarrow> I w \<longrightarrow> I w')"
proof (cases "x = None \<or> x = Some IPADDR_ANY")
  case True
  let ?ns = "put_netif a (n\<lparr>ip_addr := given x\<rparr>) ns"
  obtain w' where w': "netif_set_ipaddr h a x (ns, w) = Some (?ns, w')" "hooks_keep I h \<longrightarrow> I w \<longrightarrow> I w'"
    using set_ipaddr_ok [OF assms, of h x w I] by blast
  have "netif_set_addr h a x m g (ns, w) = Some (put_netif a (n\<lparr>ip_addr := given x, netmask := given m, gw := given g\<rparr>) ns, w')"
    unfolding netif_set_addr_def if_P [OF True] w'(1) by (simp add: set_mask_gw)
  with w'(2) show ?thesis by blast
next
  case False
  let ?ns = "put_netif a (n\<lparr>netmask := given m, gw := given g\<rparr>) ns"
  have "netif_at ?ns a = Some (n\<lparr>netmask := given m, gw := given g\<rparr>)" by simp
  from set_ipaddr_ok [OF this, of h x w I] obtain w' where
    w': "netif_set_ipaddr h a x (?ns, w) = Some (put_netif a (n\<lparr>netmask := given m, gw := given g, ip_addr := given x\<rparr>) ?ns, w')"
    "hooks_keep I h \<longrightarrow> I w \<longrightarrow> I w'" by blast
  have "netif_set_addr h a x m g (ns, w) = netif_set_ipaddr h a x (?ns, w)"
    unfolding netif_set_addr_def if_not_P [OF False] by (simp add: set_mask_gw assms)
  moreover have "n\<lparr>netmask := given m, gw := given g, ip_addr := given x\<rparr> = n\<lparr>ip_addr := given x, netmask := given m, gw := given g\<rparr>" by simp
  ultimately show ?thesis using w' by (intro exI [of _ w']) simp
qed


section \<open>The list of interfaces\<close>

definition netif_linked :: "netifs \<Rightarrow> nat list \<Rightarrow> bool" where
  "netif_linked ns xs \<longleftrightarrow> linked nf_next (netif_at ns) (netif_list ns) xs"

text \<open>
  What \<open>netif_add\<close> expects of the initialisation function of a driver: it changes the interface it is given, but neither its addresses,
  number, flags and callbacks nor what links it to the rest of the stack. \<open>ready\<close> is what it needs to return.
\<close>

definition kept :: "netif \<Rightarrow> netif \<Rightarrow> bool" where
  "kept n n' \<longleftrightarrow> ip_addr n' = ip_addr n \<and> netmask n' = netmask n \<and> gw n' = gw n \<and> num n' = num n \<and> flags n' = flags n
     \<and> nf_next n' = nf_next n \<and> nf_input n' = nf_input n \<and> status_callback n' = status_callback n \<and> link_callback n' = link_callback n
     \<and> loop_first n' = loop_first n \<and> loop_last n' = loop_last n \<and> loop_cnt_current n' = loop_cnt_current n"

text \<open>An interface as \<open>netif_add\<close> leaves it.\<close>

definition added :: "u32 option \<Rightarrow> u32 option \<Rightarrow> u32 option \<Rightarrow> netif_input_fn \<Rightarrow> u8 \<Rightarrow> netif \<Rightarrow> bool" where
  "added x m g input k n \<longleftrightarrow> ip_addr n = given x \<and> netmask n = given m \<and> gw n = given g \<and> num n = k \<and> flags n = 0 \<and> nf_input n = Some input
     \<and> \<not> status_callback n \<and> \<not> link_callback n \<and> loop_first n = None \<and> loop_last n = None \<and> loop_cnt_current n = 0"

locale netif_driver =
  fixes init :: "nat \<Rightarrow> netifs \<times> 'w \<Rightarrow> (err_t \<times> netifs \<times> 'w) option" and ready :: "'w \<Rightarrow> bool"
  assumes init_ok: "\<lbrakk>netif_at ns a = Some n; ready w\<rbrakk> \<Longrightarrow> \<exists>err n' w'. init a (ns, w) = Some (err, put_netif a n' ns, w') \<and> kept n n'"
begin

lemma netif_add_ok:
  assumes xs: "netif_linked ns xs" and a: "a \<notin> set xs" "a \<in> dom (netif_at ns)" and w: "hooks_keep ready h" "ready w"
  shows "\<exists>err ns1 ns2 w2 ns3 ns' w'. netif_set_addr h a x m g (ns1, w) = Some (ns2, w2) \<and> ready w2 \<and> a \<in> dom (netif_at ns2)
    \<and> init a (ns2, w2) = Some (err, ns3, w')
    \<and> netif_add h a x m g state init input (ns, w) = Some (if err = ERR_OK then Some a else None, ns', w')
    \<and> netif_linked ns' (if err = ERR_OK then a # xs else xs) \<and> (\<exists>n. netif_at ns' a = Some n \<and> added x m g input (netif_num ns) n)
    \<and> netif_num ns' = netif_num ns + 1 \<and> netif_default ns' = netif_default ns \<and> (\<forall>b. b \<noteq> a \<longrightarrow> netif_at ns' b = netif_at ns b)"
proof -
  obtain n0 where n0: "netif_at ns a = Some n0" using a(2) by blast
  let ?f = "\<lambda>n. n\<lparr>ip_addr := 0, netmask := 0, gw := 0, flags := 0, status_callback := False, link_callback := False,
            loop_first := None, loop_last := None, nf_state := state, num := netif_num ns, nf_input := Some input, loop_cnt_current := 0\<rparr>"
  let ?n1 = "?f n0"
  let ?ns1 = "put_netif a ?n1 ns" 
  let ?ns2 = "?ns1\<lparr>netif_num := netif_num ns + 1\<rparr>"
  let ?n2 = "?n1\<lparr>ip_addr := given x, netmask := given m, gw := given g\<rparr>"
  let ?ns3 = "put_netif a ?n2 ?ns2"
  have "netif_at ?ns2 a = Some ?n1" by simp
  from set_addr_ok [OF this, of h x m g w ready] w obtain w2 where
    w2: "netif_set_addr h a x m g (?ns2, w) = Some (?ns3, w2)" "ready w2" by blast
  have "netif_at ?ns3 a = Some ?n2" by simp
  from init_ok [OF this w2(2)] obtain err n3 w3 where i: "init a (?ns3, w2) = Some (err, put_netif a n3 ?ns3, w3)" "kept ?n2 n3" by blast
  let ?ns4 = "put_netif a n3 ?ns3"
  have add: "netif_add h a x m g state init input (ns, w) =
      (if err \<noteq> ERR_OK then Some (None, ?ns4, w3)
       else Some (Some a, (put_netif a (n3\<lparr>nf_next := netif_list ns\<rparr>) ?ns3)\<lparr>netif_list := Some a\<rparr>, w3))"
    using w2(1) i(1) by (simp add: netif_add_def upd_netif_Some [of ns a n0, OF n0] upd_netif_Some)
  have at: "netif_at ?ns4 = (netif_at ns)(a \<mapsto> n3)" "netif_list ?ns4 = netif_list ns" by simp_all
  have "netif_linked ?ns4 xs" using xs a(1) unfolding netif_linked_def at by simp
  moreover have "netif_linked ((put_netif a (n3\<lparr>nf_next := netif_list ns\<rparr>) ?ns3)\<lparr>netif_list := Some a\<rparr>) (a # xs)"
    using xs a(1) unfolding netif_linked_def by (simp add: linked_push del: fun_upd_apply)
  moreover have "added x m g input (netif_num ns) (n3\<lparr>nf_next := netif_list ns\<rparr>)" "added x m g input (netif_num ns) n3"
    using i(2) by (simp_all add: kept_def added_def)
  moreover have "a \<in> dom (netif_at ?ns3)" by simp
  ultimately show ?thesis using w2 i(1) unfolding add
    by (intro exI [of _ err] exI [of _ ?ns2] exI [of _ ?ns3] exI [of _ w2] exI [of _ ?ns4]
          exI [of _ "if err = ERR_OK then (put_netif a (n3\<lparr>nf_next := netif_list ns\<rparr>) ?ns3)\<lparr>netif_list := Some a\<rparr> else ?ns4"] exI [of _ w3])
      (cases "err = ERR_OK"; simp)
qed

end

interpretation loopif: netif_driver netif_loopif_init "\<lambda>_. True"
  by unfold_locales (auto simp: netif_loopif_init_def upd_netif_Some kept_def)

text \<open>The SLIP driver returns when the mailbox and the UART can be opened; \<open>sio_open\<close> aborts otherwise.\<close>

definition slipif_ready :: "('w \<Rightarrow> bool \<times> 'w) \<Rightarrow> ('w \<Rightarrow> bool \<times> 'w) \<Rightarrow> (nat \<rightharpoonup> slipif_priv) \<times> net \<times> 'w \<Rightarrow> bool" where
  "slipif_ready Mailbox_create UART_open = (\<lambda>(privs, s, w). pbuf_inv s \<and> (\<forall>w. fst (Mailbox_create w)) \<and> (\<forall>w. fst (UART_open w)))"

interpretation slipif: netif_driver "slipif_init Mailbox_create UART_open UART_read" "slipif_ready Mailbox_create UART_open"
  for Mailbox_create UART_open UART_read
proof unfold_locales
  fix ns :: netifs and a n and w :: "(nat \<rightharpoonup> slipif_priv) \<times> net \<times> 'a"
  assume n: "netif_at ns a = Some n" and w: "slipif_ready Mailbox_create UART_open w"
  obtain privs s d where w_eq: "w = (privs, s, d)" by (cases w) auto
  with w have inv: "pbuf_inv s" and dev: "fst (Mailbox_create w)" "fst (UART_open w)" for w by (auto simp: slipif_ready_def)
  obtain M where "mem_areas (ram (net_heap s)) M (net_heap s)" by (rule heap_okE [OF inv])
  from mem_malloc_mem_areas [OF this, of 20] obtain p m where p: "net_mem_malloc 20 s = Some (p, s\<lparr>net_heap := m\<rparr>)"
    by (auto simp: net_mem_malloc_def)
  have sd: "\<exists>d'. sio_open Mailbox_create UART_open UART_read d = Some (True, d')"
    using dev by (simp add: sio_open_def split: prod.split) (metis fst_conv)
  show "\<exists>err n' w'. slipif_init Mailbox_create UART_open UART_read a (ns, w) = Some (err, put_netif a n' ns, w') \<and> kept n n'"
  proof (cases p)
    case None
    with p n show ?thesis unfolding w_eq
      by (intro exI [of _ ERR_MEM] exI [of _ n]) (simp add: slipif_init_def kept_def put_netif_def fun_upd_idem)
  next
    case (Some q)
    with p n sd show ?thesis unfolding w_eq by (fastforce simp: slipif_init_def upd_netif_Some kept_def)
  qed
qed

text \<open>It fails exactly when the heap has no room for its private data.\<close>

lemma slipif_init_err:
  assumes ready: "slipif_ready Mailbox_create UART_open (privs, s, d)" and a: "a \<in> dom (netif_at ns)"
    and i: "slipif_init Mailbox_create UART_open UART_read a (ns, privs, s, d) = Some (err, ns', w')"
  shows "err = ERR_OK \<longleftrightarrow> (\<exists>p m. mem_malloc 20 (net_heap s) = Some (Some p, m))"
proof -
  have dev: "fst (Mailbox_create w)" "fst (UART_open w)" for w using ready by (simp_all add: slipif_ready_def)
  have sd: "sd" if "sio_open Mailbox_create UART_open UART_read d = Some (sd, d')" for sd d'
    using dev that by (auto simp: sio_open_def split: prod.splits if_splits bind_splits)
  obtain n where n: "netif_at ns a = Some n" using a by blast
  from i show ?thesis
    by (auto simp: slipif_init_def net_mem_malloc_def upd_netif_Some [OF n] upd_netif_Some split: bind_splits option.splits if_splits dest!: sd)
qed

text \<open>Removal.\<close>

lemma remove_loop_found:
  "\<lbrakk>linked nf_next (netif_at ns) p (us @ t # a # vs); netif_at ns a = Some n; netif_at ns t = Some tn\<rbrakk>
   \<Longrightarrow> remove_loop a p ns = Some (True, put_netif t (tn\<lparr>nf_next := nf_next n\<rparr>) ns)"
proof (induction us arbitrary: p)
  case Nil
  then show ?case by (subst remove_loop.simps) (auto simp: linked_Cons)
next
  case (Cons u us)
  then obtain un where un: "p = Some u" "u \<notin> set (us @ t # a # vs)" "netif_at ns u = Some un" "linked nf_next (netif_at ns) (nf_next un) (us @ t # a # vs)"
    by (auto simp: linked_Cons)
  have "a \<notin> set (us @ [t])" using linked_distinct [OF un(4)] by auto
  then have "nf_next un \<noteq> Some a" using un(4) by (cases us) (auto simp: linked_Cons)
  with Cons.IH [OF un(4) Cons.prems(2,3)] un show ?case by (subst remove_loop.simps) simp
qed

lemma netif_set_down_ok:
  assumes "netif_at ns a = Some n" "flags n AND NETIF_FLAG_UP \<noteq> 0"
  shows "\<exists>w'. netif_set_down h a (ns, w) = Some (put_netif a (n\<lparr>flags := flags n AND NOT NETIF_FLAG_UP\<rparr>) ns, w')"
  using assms by (simp add: netif_set_down_def NETIF_STATUS_CALLBACK_def Let_def)

lemma netif_remove_ok:
  assumes xs: "netif_linked ns xs" and a: "a \<in> set xs"
  shows "\<exists>ns' w'. netif_remove h (Some a) (ns, w) = Some (ns', w') \<and> netif_linked ns' (remove1 a xs)
    \<and> netif_default ns' = (if netif_default ns = Some a then None else netif_default ns) \<and> netif_num ns' = netif_num ns
    \<and> (\<forall>b n. b \<noteq> a \<longrightarrow> netif_at ns b = Some n \<longrightarrow> (\<exists>q. netif_at ns' b = Some (n\<lparr>nf_next := q\<rparr>)))
    \<and> (\<exists>n'. netif_at ns' a = Some n' \<and> flags n' AND NETIF_FLAG_UP = 0)"
proof -
  obtain n where n: "netif_at ns a = Some n" using linked_dom xs a unfolding netif_linked_def by metis
  define f where "f = (if flags n AND NETIF_FLAG_UP \<noteq> 0 then flags n AND NOT NETIF_FLAG_UP else flags n)"
  define w0 where "w0 = (if ip_addr n \<noteq> IPADDR_ANY then
                     raw_addr_changed h (ip_addr n) None (udp_addr_changed h (ip_addr n) None (tcp_addr_changed h (ip_addr n) None w))
                   else w)"
  have f: "f AND NETIF_FLAG_UP = 0" by (simp add: f_def and.assoc)
  let ?n1 = "n\<lparr>flags := f\<rparr>"
  let ?ns1 = "put_netif a ?n1 ns"
  have same: "put_netif a n ns = ns" using n by (simp add: put_netif_def fun_upd_idem)
  then obtain w1 where w1: "(if flags n AND NETIF_FLAG_UP \<noteq> 0 then netif_set_down h a (ns, w0) else Some (ns, w0)) = Some (?ns1, w1)"
    using netif_set_down_ok [OF n, of h w0] by (cases "flags n AND NETIF_FLAG_UP \<noteq> 0") (auto simp: f_def)
  let ?d = "if netif_default ns = Some a then None else netif_default ns"
  let ?ns2 = "?ns1\<lparr>netif_default := ?d\<rparr>"
  have d: "(if netif_default ?ns1 = Some a then netif_set_default None ?ns1 else ?ns1) = ?ns2"
    by (simp add: netif_set_default_def put_netif_def)
  have l2: "linked nf_next (netif_at ?ns2) (netif_list ns) xs"
    using xs n unfolding netif_linked_def by (auto intro: linked_upd_same simp del: fun_upd_apply)
  have rem: "netif_remove h (Some a) (ns, w) =
     (if netif_list ns = Some a then Some (?ns2\<lparr>netif_list := nf_next n\<rparr>, w1)
      else do { (_, ns) \<leftarrow> remove_loop a (netif_list ns) ?ns2; Some (ns, w1) })"
    by (simp only: netif_remove_def option.case Let_def prod.case n bind.simps w0_def [symmetric] w1 d) (simp add: case_prod_unfold)
  show ?thesis
  proof (cases "netif_list ns = Some a")
    case True
    with l2 obtain as where as: "xs = a # as" "a \<notin> set as" "linked nf_next (netif_at ns) (nf_next n) as" by (auto simp: linked_Some)
    then have "netif_linked (?ns2\<lparr>netif_list := nf_next n\<rparr>) (remove1 a xs)" by (simp add: netif_linked_def del: fun_upd_apply)
    moreover have "\<exists>q. m = m\<lparr>nf_next := q\<rparr>" for m :: netif by (rule exI [of _ "nf_next m"]) simp
    ultimately show ?thesis using True f unfolding rem by simp
  next
    case False
    obtain us vs where uv: "xs = us @ a # vs" using split_list [OF a] by blast
    with False l2 have "us \<noteq> []" by (auto simp: linked_Cons)
    then obtain ts t where "us = ts @ [t]" by (metis append_butlast_last_id)
    with uv have uv: "xs = ts @ t # a # vs" by simp
    have ta: "t \<noteq> a" "a \<notin> set ts" using linked_distinct [OF l2] uv by auto
    obtain tn where tn: "netif_at ns t = Some tn" using linked_dom [OF l2, of t] uv ta by auto
    let ?ns3 = "put_netif t (tn\<lparr>nf_next := nf_next n\<rparr>) ?ns2"
    have "remove_loop a (netif_list ns) ?ns2 = Some (True, ?ns3)"
      using remove_loop_found [OF l2 [unfolded uv], of ?n1 tn] tn ta(1) by simp
    moreover have "netif_linked ?ns3 (remove1 a xs)"
      using linked_unlink [OF l2 [unfolded uv], of ?n1 tn "tn\<lparr>nf_next := nf_next n\<rparr>"] tn ta uv
      by (simp add: netif_linked_def remove1_append del: fun_upd_apply) simp
    moreover have "\<exists>q. m = m\<lparr>nf_next := q\<rparr>" for m :: netif by (rule exI [of _ "nf_next m"]) simp
    ultimately show ?thesis using False f tn ta(1) unfolding rem by auto
  qed
qed


section \<open>Properties\<close>

definition example_netif :: netif where
  "example_netif = \<lparr>ip_addr = 0, netmask = 0, gw = 0, flags = 0, mtu = 0, name = (0, 0), num = 0, nf_next = None, nf_input = None, nf_output = None,
     nf_state = no_state, status_callback = False, link_callback = False, loop_first = None, loop_last = None, loop_cnt_current = 0\<rparr>"

definition example_netifs :: netifs where
  "example_netifs = \<lparr>netif_at = [5 \<mapsto> example_netif, 6 \<mapsto> example_netif\<lparr>nf_next := Some 7\<rparr>, 7 \<mapsto> example_netif], netif_list = Some 6, netif_default = Some 7,
     netif_num = 2, lo_xmit = 0, lo_recv = 0, lo_memerr = 0, lo_drop = 0\<rparr>"

definition example_hooks :: "'w netif_hooks" where
  "example_hooks = \<lparr>tcp_addr_changed = (\<lambda>x y w. w), udp_addr_changed = (\<lambda>x y w. w), raw_addr_changed = (\<lambda>x y w. w), etharp_gratuitous = (\<lambda>a w. w),
     etharp_cleanup = (\<lambda>a w. w), dhcp_changed = (\<lambda>a w. w), autoip_changed = (\<lambda>a w. w), status_cb = (\<lambda>a n w. w), link_cb = (\<lambda>a n w. w)\<rparr>"

lemma example_netifs_at: "netif_at example_netifs 5 = Some example_netif"
  by (simp add: example_netifs_def)

lemma example_netifs_linked: "netif_linked example_netifs [6, 7]"
  by (simp add: netif_linked_def example_netifs_def linked_Cons) (simp add: example_netif_def)

text \<open>C33: adding an interface. \<open>netif_add\<close> with the SLIP driver sets the addresses and then calls the driver. The driver fails exactly when the heap cannot provide
  the 20 bytes of its private data (the devices can be opened, otherwise \<open>sio_open\<close> aborts). If it succeeds, \<open>netif_add\<close> returns the interface, which
  stands at the head of the list; if it fails, \<open>netif_add\<close> returns the null pointer and the list is what it was. In both cases the interface has the given addresses
  and the next number and is down, and the others are as before.\<close>

theorem netif_add_contract:
  assumes "netif_linked ns xs" "a \<notin> set xs" "a \<in> dom (netif_at ns)"
    "hooks_keep (slipif_ready Mailbox_create UART_open) h" "slipif_ready Mailbox_create UART_open w"
  shows "\<exists>ns1 ns2 privs s d err ns3 ns' w'. netif_set_addr h a x m g (ns1, w) = Some (ns2, privs, s, d)
    \<and> slipif_init Mailbox_create UART_open UART_read a (ns2, privs, s, d) = Some (err, ns3, w')
    \<and> (err = ERR_OK \<longleftrightarrow> (\<exists>p m. mem_malloc 20 (net_heap s) = Some (Some p, m)))
    \<and> netif_add h a x m g state (slipif_init Mailbox_create UART_open UART_read) input (ns, w)
        = Some (if err = ERR_OK then Some a else None, ns', w')
    \<and> netif_linked ns' (if err = ERR_OK then a # xs else xs)
    \<and> (\<exists>n. netif_at ns' a = Some n \<and> added x m g input (netif_num ns) n)
    \<and> netif_num ns' = netif_num ns + 1 \<and> netif_default ns' = netif_default ns \<and> (\<forall>b. b \<noteq> a \<longrightarrow> netif_at ns' b = netif_at ns b)"
proof -
  obtain err ns1 ns2 w2 ns3 ns' w' where r: "netif_set_addr h a x m g (ns1, w) = Some (ns2, w2)" "slipif_ready Mailbox_create UART_open w2"
    "a \<in> dom (netif_at ns2)" "slipif_init Mailbox_create UART_open UART_read a (ns2, w2) = Some (err, ns3, w')"
    and add: "netif_add h a x m g state (slipif_init Mailbox_create UART_open UART_read) input (ns, w) = Some (if err = ERR_OK then Some a else None, ns', w')"
      "netif_linked ns' (if err = ERR_OK then a # xs else xs)" "\<exists>n. netif_at ns' a = Some n \<and> added x m g input (netif_num ns) n"
      "netif_num ns' = netif_num ns + 1" "netif_default ns' = netif_default ns" "\<forall>b. b \<noteq> a \<longrightarrow> netif_at ns' b = netif_at ns b"
    using slipif.netif_add_ok [OF assms, of x m g UART_read state input] by (elim exE conjE) (rule that; (assumption | blast))
  obtain privs s d where w2: "w2 = (privs, s, d)" by (cases w2) auto
  with slipif_init_err [of Mailbox_create UART_open privs s d a ns2] r(2-4)
  have "err = ERR_OK \<longleftrightarrow> (\<exists>p m. mem_malloc 20 (net_heap s) = Some (Some p, m))" by blast
  with r(1,4) add show ?thesis unfolding w2
    by (intro exI [of _ ns1] exI [of _ ns2] exI [of _ privs] exI [of _ s] exI [of _ d] exI [of _ err] exI [of _ ns3] exI [of _ ns'] exI [of _ w'] conjI)
qed

lemma example_set_addr: "netif_set_addr example_hooks a x m g (ns, w) = Some (ns', w') \<Longrightarrow> w' = w"
  by (auto simp: netif_set_addr_def netif_set_ipaddr_def netif_issue_reports_def NETIF_STATUS_CALLBACK_def example_hooks_def Let_def
      split: if_splits bind_splits prod.splits)

theorem netif_add_contract_witness:
  "\<exists>ns' n w'. netif_add example_hooks 5 (Some 0x0200A8C0) (Some 0x00FFFFFF) None (port_number 0) (slipif_init (Pair True) (Pair True) id) ip_input_fn
      (example_netifs, Map.empty, example_net, ()) = Some (Some 5, ns', w') \<and> netif_linked ns' [5, 6, 7] \<and> netif_num ns' = 3
    \<and> netif_at ns' 5 = Some n \<and> ip_addr n = 0x0200A8C0"
proof -
  have ready: "slipif_ready (Pair True) (Pair True) (Map.empty, example_net, ())" using example_net_ok by (simp add: slipif_ready_def net_ok_def)
  have hooks: "hooks_keep (slipif_ready (Pair True) (Pair True)) (example_hooks :: ((nat \<rightharpoonup> slipif_priv) \<times> net \<times> unit) netif_hooks)"
    by (simp add: hooks_keep_def example_hooks_def)
  have "rounded 20 = 20" by (simp add: rounded_def LWIP_MEM_ALIGN_SIZE_def)
  then have heap: "\<exists>p m. mem_malloc 20 (net_heap example_net) = Some (Some p, m)"
    using mem_malloc_eq [OF example_heap_inv(1), of 20] by (auto simp: example_net_def)
  have five: "5 \<notin> set [6, 7 :: nat]" "5 \<in> dom (netif_at example_netifs)" using example_netifs_at by auto
  obtain ns1 ns2 and privs :: "nat \<rightharpoonup> slipif_priv" and s d err ns' w' where
    r: "netif_set_addr example_hooks 5 (Some 0x0200A8C0) (Some 0x00FFFFFF) None (ns1, Map.empty, example_net, ()) = Some (ns2, privs, s, d)"
      "err = ERR_OK \<longleftrightarrow> (\<exists>p m. mem_malloc 20 (net_heap s) = Some (Some p, m))"
      "netif_add example_hooks 5 (Some 0x0200A8C0) (Some 0x00FFFFFF) None (port_number 0) (slipif_init (Pair True) (Pair True) id) ip_input_fn
        (example_netifs, Map.empty, example_net, ()) = Some (if err = ERR_OK then Some 5 else None, ns', w')"
      "netif_linked ns' (if err = ERR_OK then [5, 6, 7] else [6, 7])"
      "\<exists>n. netif_at ns' 5 = Some n \<and> added (Some 0x0200A8C0) (Some 0x00FFFFFF) None ip_input_fn (netif_num example_netifs) n"
      "netif_num ns' = netif_num example_netifs + 1"
    using netif_add_contract [OF example_netifs_linked five hooks ready, of "Some 0x0200A8C0" "Some 0x00FFFFFF" None id "port_number 0" ip_input_fn]
    by (elim exE conjE) (rule that; (assumption | blast))
  have "s = example_net" using example_set_addr [OF r(1)] by simp
  with r(2) heap have "err = ERR_OK" by simp
  moreover obtain n where "netif_at ns' 5 = Some n" "ip_addr n = 0x0200A8C0" using r(5) by (auto simp: added_def)
  moreover have "netif_num example_netifs = 2" by (simp add: example_netifs_def)
  ultimately show ?thesis using r(3,4,6) by (intro exI [of _ ns'] exI [of _ n] exI [of _ w']) simp
qed

text \<open>C34: removing an interface. \<open>netif_remove\<close> returns; the interface is taken out of the list, wherever it stands, is down afterwards and is no longer the default; the
  order and the contents of the others are kept.\<close>

theorem netif_remove_contract:
  assumes "netif_linked ns xs" "a \<in> set xs"
  shows "\<exists>ns' w'. netif_remove h (Some a) (ns, w) = Some (ns', w') \<and> netif_linked ns' (remove1 a xs)
    \<and> netif_default ns' = (if netif_default ns = Some a then None else netif_default ns) \<and> netif_num ns' = netif_num ns
    \<and> (\<forall>b n. b \<noteq> a \<longrightarrow> netif_at ns b = Some n \<longrightarrow> (\<exists>q. netif_at ns' b = Some (n\<lparr>nf_next := q\<rparr>)))
    \<and> (\<exists>n'. netif_at ns' a = Some n' \<and> flags n' AND NETIF_FLAG_UP = 0)"
  by (rule netif_remove_ok [OF assms])

theorem netif_remove_contract_witness:
  "\<exists>ns' w'. netif_remove example_hooks (Some 7) (example_netifs, ()) = Some (ns', w') \<and> netif_linked ns' [6] \<and> netif_default ns' = None"
proof -
  have "netif_default example_netifs = Some 7" by (simp add: example_netifs_def)
  then show ?thesis using netif_remove_contract [OF example_netifs_linked, of 7 example_hooks "()"] by auto
qed

end
