(* ===== verification/Netif_Loop.thy ===== *)
theory Netif_Loop
  imports Netif
begin

text \<open>
  The loopback queue of an interface (\<open>netif_loop_output\<close>, \<open>netif_poll\<close>) refines a queue of packets: what is sent is delivered, in order and
  byte for byte, and the queue never holds more than \<^verbatim>\<open>LWIP_LOOPBACK_MAX_PBUFS\<close> packets.
\<close>

section \<open>The queue\<close>

text \<open>A packet on the queue is one pbuf from the heap. The queue holds the only reference to it.\<close>

definition loop_buf :: "net \<Rightarrow> nat \<Rightarrow> u8 list \<Rightarrow> bool" where
  "loop_buf s q D \<longleftrightarrow> (\<exists>b. pbufs s q = Some b \<and> pb_type b = PBUF_RAM \<and> pb_ref b = 1 \<and> \<not> is_custom b \<and> pb_len b = pb_tot_len b)
     \<and> pbytes (pbufs s) (bytes s) q = D"

definition with_ref :: "ptr \<Rightarrow> (nat \<Rightarrow> nat) \<Rightarrow> nat \<Rightarrow> nat" where
  "with_ref p E = (case p of None \<Rightarrow> E | Some f \<Rightarrow> E(f := E f + 1))"

definition loop_bufs :: "(nat \<Rightarrow> nat) \<Rightarrow> netif \<Rightarrow> nat list \<Rightarrow> u8 list list \<Rightarrow> net \<Rightarrow> bool" where
  "loop_bufs E n qs Ds s \<longleftrightarrow> net_ok (with_ref (loop_first n) E) s \<and> links (pbufs s) (loop_first n) qs \<and> list_all2 (loop_buf s) qs Ds
     \<and> loop_last n = (if qs = [] then None else Some (last qs)) \<and> length qs \<le> loop_cnt_current n \<and> loop_cnt_current n \<le> LWIP_LOOPBACK_MAX_PBUFS"

definition loop_queue :: "(nat \<Rightarrow> nat) \<Rightarrow> netif \<Rightarrow> u8 list list \<Rightarrow> net \<Rightarrow> bool" where
  "loop_queue E n Ds s \<longleftrightarrow> (\<exists>qs. loop_bufs E n qs Ds s)"

lemma with_ref_simps [simp]: "with_ref None E = E" "with_ref (Some f) E = E(f := E f + 1)"
  by (simp_all add: with_ref_def)

lemma with_ref_upd: "p \<noteq> Some r \<Longrightarrow> with_ref p (E(r := k)) = (with_ref p E)(r := k)"
  by (auto simp: with_ref_def fun_eq_iff split: option.split)

lemma with_ref_le: "E x \<le> with_ref p E x"
  by (simp add: with_ref_def split: option.split)

lemma loop_buf_pbuf: "loop_buf s q D \<Longrightarrow> \<exists>b. pbufs s q = Some b \<and> pb_ref b = 1 \<and> \<not> is_custom b \<and> pb_type b = PBUF_RAM"
  by (auto simp: loop_buf_def)

lemma list_all2_loop_buf:
  assumes "list_all2 (loop_buf s) qs Ds" "q \<in> set qs"
  obtains D where "loop_buf s q D"
  using assms by (induction rule: list_all2_induct) auto

text \<open>No one else refers to a pbuf on the queue.\<close>

lemma held_two: "\<lbrakk>finite (dom (pbufs s)); x \<noteq> y\<rbrakk> \<Longrightarrow> holds s x p + holds s y p \<le> held s p"
proof -
  assume fin: "finite (dom (pbufs s))" and xy: "x \<noteq> y"
  have "held s p = (\<Sum>q \<in> dom (pbufs s) \<union> {x, y}. holds s q p)" using fin by (intro held_superset) auto
  moreover have "(\<Sum>q \<in> {x, y}. holds s q p) \<le> (\<Sum>q \<in> dom (pbufs s) \<union> {x, y}. holds s q p)" using fin by (intro sum_mono2) auto
  ultimately show "holds s x p + holds s y p \<le> held s p" using xy by simp
qed

lemma queue_exclusive:
  assumes refs: "refs_ok F s" and ref: "\<And>q. q \<in> set qs \<Longrightarrow> \<exists>b. pbufs s q = Some b \<and> pb_ref b = 1"
  shows "\<lbrakk>links (pbufs s) p qs; \<And>f. p = Some f \<Longrightarrow> 0 < F f \<or> (\<exists>y. y \<notin> set qs \<and> y \<in> Y \<and> 0 < holds s y f); q \<in> set qs; x \<notin> set qs; x \<notin> Y\<rbrakk>
    \<Longrightarrow> holds s x q = 0 \<and> (F q = 0 \<or> p = Some q)"
proof -
  have fin: "finite (dom (pbufs s))" and acc: "ref_of s y = F y + held s y" for y using refs by (simp_all add: refs_ok_def)
  show "\<lbrakk>links (pbufs s) p qs; \<And>f. p = Some f \<Longrightarrow> 0 < F f \<or> (\<exists>y. y \<notin> set qs \<and> y \<in> Y \<and> 0 < holds s y f); q \<in> set qs; x \<notin> set qs; x \<notin> Y\<rbrakk>
    \<Longrightarrow> holds s x q = 0 \<and> (F q = 0 \<or> p = Some q)"
    using ref
  proof (induction qs arbitrary: p Y)
    case (Cons a as)
    then obtain b where b: "p = Some a" "pbufs s a = Some b" "links (pbufs s) (pb_next b) as" "pb_ref b = 1"
      by (fastforce split: option.splits)
    have one: "ref_of s a = 1" using b by (simp add: ref_of_def)
    show ?case
    proof (cases "q = a")
      case True
      from Cons.prems(2) [OF b(1)] have "holds s x a = 0"
      proof (elim disjE exE conjE)
        assume "0 < F a"
        with acc [of a] one holds_le_held [OF fin, of x a] show ?thesis by simp
      next
        fix y assume y: "y \<in> Y" "0 < holds s y a"
        then have "x \<noteq> y" using Cons.prems(5) by blast
        with held_two [OF fin this, of a] y acc [of a] one show ?thesis by simp
      qed
      with True b(1) show ?thesis by simp
    next
      case False
      have dis: "a \<notin> set as" using links_distinct [OF Cons.prems(1)] by simp
      have nx: "0 < holds s a f" if "pb_next b = Some f" for f using that b by (simp add: holds_def)
      have "holds s x q = 0 \<and> (F q = 0 \<or> pb_next b = Some q)"
        by (rule Cons.IH [OF b(3), of "insert a Y"]) (use nx dis False Cons.prems in auto)
      moreover have "F q = 0" if "pb_next b = Some q"
      proof -
        have "ref_of s q = 1" using Cons.prems(6) [of q] Cons.prems(3) by (auto simp: ref_of_def)
        with acc [of q] nx [OF that] holds_le_held [OF fin, of a q] show ?thesis by simp
      qed
      ultimately show ?thesis by blast
    qed
  qed simp
qed

lemma loop_bufs_parts:
  assumes "loop_bufs E n qs Ds s"
  shows "net_ok (with_ref (loop_first n) E) s" "links (pbufs s) (loop_first n) qs" "list_all2 (loop_buf s) qs Ds"
    "loop_last n = (if qs = [] then None else Some (last qs))" "length qs \<le> loop_cnt_current n" "loop_cnt_current n \<le> LWIP_LOOPBACK_MAX_PBUFS"
    "q \<in> set qs \<Longrightarrow> \<exists>b. pbufs s q = Some b \<and> pb_ref b = 1 \<and> \<not> is_custom b \<and> pb_type b = PBUF_RAM" "own_memory (pbufs s) qs"
proof -
  show one: "\<exists>b. pbufs s q = Some b \<and> pb_ref b = 1 \<and> \<not> is_custom b \<and> pb_type b = PBUF_RAM" if "q \<in> set qs" for q
    using assms that list_all2_loop_buf [of s qs Ds q] loop_buf_pbuf [of s q] by (simp add: loop_bufs_def) metis
  then show "own_memory (pbufs s) qs" by (fastforce simp: own_memory_def)
qed (use assms in \<open>simp_all add: loop_bufs_def\<close>)

lemma loop_bufs_exclusive:
  assumes Q: "loop_bufs E n qs Ds s" and q: "q \<in> set qs"
  shows "E q = 0" "x \<notin> set qs \<Longrightarrow> holds s x q = 0"
proof -
  let ?F = "with_ref (loop_first n) E"
  note parts = loop_bufs_parts [OF Q]
  have refs: "refs_ok ?F s" using parts(1) by (simp add: net_ok_def)
  have "0 < ?F f" if "loop_first n = Some f" for f using that by simp
  then have "x \<notin> set qs \<Longrightarrow> holds s x q = 0 \<and> (?F q = 0 \<or> loop_first n = Some q)" for x
    using queue_exclusive [OF refs _ parts(2), of "{}" q x] parts(7) q by fastforce
  moreover have "E q = 0"
  proof -
    obtain y where "y \<notin> set qs" using ex_new_if_finite [OF infinite_UNIV_nat, of "set qs"] by blast
    with calculation [of y] have "?F q = 0 \<or> loop_first n = Some q" by simp
    moreover have "ref_of s q = 1" using parts(7) [OF q] by (auto simp: ref_of_def)
    ultimately show ?thesis using refs with_ref_le [of E q "loop_first n"] by (auto simp: refs_ok_def)
  qed
  ultimately show "E q = 0" "x \<notin> set qs \<Longrightarrow> holds s x q = 0" by simp_all
qed

text \<open>A packet to which someone else refers has no pbuf on the queue.\<close>

lemma loop_bufs_apart:
  assumes Q: "loop_bufs E n qs Ds s" and p: "0 < E p" "chain (pbufs s) (Some p) xs"
  shows "set xs \<inter> set qs = {}"
proof -
  have refs: "refs_ok (with_ref (loop_first n) E) s" using loop_bufs_parts(1) [OF Q] by (simp add: net_ok_def)
  have "\<lbrakk>chain (pbufs s) r xs; \<And>a. r = Some a \<Longrightarrow> a \<notin> set qs \<and> (\<exists>b. pbufs s a = Some b \<and> 0 < pb_ref b)\<rbrakk> \<Longrightarrow> set xs \<inter> set qs = {}" for r
  proof (induction xs arbitrary: r)
    case (Cons a as)
    then obtain b where b: "r = Some a" "pbufs s a = Some b" "chain (pbufs s) (pb_next b) as" "a \<notin> set qs" "0 < pb_ref b"
      by (fastforce simp: chain_Cons)
    have "a' \<notin> set qs \<and> (\<exists>b. pbufs s a' = Some b \<and> 0 < pb_ref b)" if nx: "pb_next b = Some a'" for a'
    proof
      have "0 < holds s a a'" using b nx by (simp add: holds_def)
      then show "a' \<notin> set qs" using loop_bufs_exclusive(2) [OF Q _ b(4), of a'] by (metis less_irrefl)
      show "\<exists>b. pbufs s a' = Some b \<and> 0 < pb_ref b" by (rule refs_ok_next_live [OF refs b(2,5) nx])
    qed
    with Cons.IH [OF b(3)] b(4) show ?case by simp
  qed simp
  from this [OF p(2)] show ?thesis
    using loop_bufs_exclusive(1) [OF Q] p(1) refs_ok_live [OF refs, of p] with_ref_le [of E p "loop_first n"] by fastforce
qed

lemma loop_bufs_cong:
  assumes Q: "loop_bufs E n qs Ds s" and ok: "net_ok (with_ref (loop_first n) E') s'"
    and same: "\<And>q. q \<in> set qs \<Longrightarrow> pbufs s' q = pbufs s q" "\<And>q. q \<in> set qs \<Longrightarrow> pbytes (pbufs s) (bytes s') q = pbytes (pbufs s) (bytes s) q"
  shows "loop_bufs E' n qs Ds s'"
proof -
  note parts = loop_bufs_parts [OF Q]
  have "links (pbufs s') (loop_first n) qs" by (rule links_cong [OF parts(2)]) (simp add: same(1))
  moreover have "pbytes (pbufs s') (bytes s') q = pbytes (pbufs s) (bytes s) q" if "q \<in> set qs" for q
    using same(2) [OF that] same(1) [OF that] by (simp add: pbytes_def)
  then have "list_all2 (loop_buf s') qs Ds"
    using parts(3) same(1) by (auto simp: list_all2_conv_all_nth loop_buf_def)
  ultimately show ?thesis using parts ok by (simp add: loop_bufs_def)
qed

text \<open>Giving back what has just been allocated.\<close>

lemma free_new_chain:
  assumes new: "new_chain E l k ty s p xs s'"
  shows "\<exists>m s''. pbuf_free (Some p) s' = Some (m, s'') \<and> net_ok E s'' \<and> pbufs s'' = pbufs s \<and> bytes s'' = bytes s"
proof -
  note parts = new_chain_parts [OF new]
  have inv: "pbuf_inv s'" and p: "links (pbufs s') (Some p) xs" using parts(1,2) by (simp_all add: net_ok_def chain_def)
  from free_chain_exact [OF inv p parts(4), of 0] obtain m s'' where
    s'': "pbuf_free (Some p) s' = Some (m, s'')" "pbufs s'' = drop_run (pbufs s') xs" "same_rest s' s''" by (auto simp: pbuf_free_def)
  have "\<forall>x \<in> set xs. \<exists>b. pbufs s' x = Some b \<and> pb_ref b = 1" using new by (auto simp: new_chain_def)
  then have "drop_run (pbufs s') xs = (\<lambda>x. if x \<in> set xs then None else pbufs s' x)" by (rule drop_run_all)
  moreover have "pbufs s x = None" if "x \<in> set xs" for x using parts(8) that by blast
  ultimately have "pbufs s'' = pbufs s" using parts(9) s''(2) by (intro ext) auto
  moreover have "net_ok E s''" using pbuf_free_ok [OF parts(1), of p] s''(1) parts(5) by (auto simp: fun_upd_idem)
  ultimately show ?thesis using s''(1,3) parts(7) by (simp add: same_rest_def)
qed

section \<open>Sending\<close>

lemma last_loop_single: "pbufs s a = Some b \<Longrightarrow> pb_next b = None \<Longrightarrow> last_loop s a = Some a"
  by (subst last_loop.simps) simp

text \<open>Copying the packet \<open>p\<close> into the new pbuf \<open>r\<close>.\<close>

lemma loop_copy:
  assumes new: "new_chain F PBUF_LINK (chain_len (pbufs s) xs) PBUF_RAM s r [r] s1"
    and ch: "chain (pbufs s) (Some p) xs" "own_memory (pbufs s) xs" "filled (pbufs s) xs" and len: "chain_len (pbufs s) xs < 65536"
  shows "\<exists>M. pbuf_copy (Some r) (Some p) s1 = Some (ERR_OK, s1\<lparr>bytes := M\<rparr>) \<and> pbytes (pbufs s1) M r = chain_data (pbufs s) (bytes s) xs
    \<and> (\<forall>ys. own_memory (pbufs s1) ys \<longrightarrow> r \<notin> set ys \<longrightarrow> chain_data (pbufs s1) M ys = chain_data (pbufs s1) (bytes s) ys)"
proof -
  note parts = new_chain_parts [OF new]
  let ?P1 = "pbufs s1" and ?n = "chain_len (pbufs s) xs"
  have inv: "pbuf_inv s1" using parts(1) by (simp add: net_ok_def)
  have own: "own_memory ?P1 [r]" using parts(6) by simp
  have r: "r \<notin> set xs" using parts(8) chain_live [OF ch(1)] by auto
  then have same: "?P1 x = pbufs s x" if "x \<in> set xs" for x using that by (intro parts(9)) auto
  have xs: "chain ?P1 (Some p) xs" "own_memory ?P1 xs" "filled ?P1 xs" "chain_len ?P1 xs = ?n" "chain_data ?P1 M xs = chain_data (pbufs s) M xs" for M
    using chain_agree [of xs ?P1 "pbufs s" "Some p"] same ch by metis+
  have "xs \<noteq> []" using ch(1) by auto
  then have "?n \<noteq> 0" using filled_len [OF ch(3)] by simp
  then have fill: "filled ?P1 [r]" using parts(3) by simp
  have ap: "separate ?P1 [r]" "data_apart ?P1 [r] xs" "payloads (\<lambda>_ _. True) ?P1 xs"
    using inv own xs(2) r by (auto intro!: own_data_apart own_payloads)
  from pbuf_copy_eq [OF parts(2) xs(1) fill xs(3) ap] parts(3) len xs(4) obtain M where
    M: "pbuf_copy (Some r) (Some p) s1 = Some (ERR_OK, s1\<lparr>bytes := M\<rparr>)" "within ?P1 [r] (bytes s1) M"
    "chain_data ?P1 M [r] = chain_data ?P1 (bytes s1) xs @ drop ?n (chain_data ?P1 (bytes s1) [r])" by auto
  have "length (chain_data ?P1 (bytes s1) [r]) = ?n" using length_chain_data [OF own_payloads [OF inv own]] parts(3) by simp
  then have "pbytes ?P1 M r = chain_data (pbufs s) (bytes s) xs" using M(3) xs(5) parts(7) by (simp add: chain_data_def)
  moreover have "chain_data ?P1 M ys = chain_data ?P1 (bytes s) ys" if "own_memory ?P1 ys" "r \<notin> set ys" for ys
    using data_apart_within [OF own_data_apart [OF inv own that(1)] own_payloads [OF inv that(1)] M(2)] that(2) parts(7) by simp
  ultimately show ?thesis using M(1) by blast
qed

text \<open>Appending \<open>r\<close> to the queue.\<close>

definition loop_put :: "nat \<Rightarrow> netif \<Rightarrow> net \<Rightarrow> netif \<times> net" where
  "loop_put r n s = (case loop_last n of
     None \<Rightarrow> (n\<lparr>loop_first := Some r, loop_last := Some r\<rparr>, s)
   | Some l \<Rightarrow> (n\<lparr>loop_last := Some r\<rparr>, case pbufs s l of None \<Rightarrow> s | Some b \<Rightarrow> put_pbuf l (b\<lparr>pb_next := Some r\<rparr>) s))"

lemma loop_put_ok:
  assumes Q: "loop_bufs (E(r := 1)) n qs Ds s" and r: "E r = 0" "pbufs s r = Some b" "pb_next b = None" "loop_buf s r D" and c: "loop_cnt_current n < LWIP_LOOPBACK_MAX_PBUFS"
  shows "case loop_put r (n\<lparr>loop_cnt_current := loop_cnt_current n + 1\<rparr>) s of (n', s') \<Rightarrow> loop_bufs E n' (qs @ [r]) (Ds @ [D]) s'"
proof (cases "qs = []")
  case True
  with loop_bufs_parts [OF Q] r c show ?thesis by (auto simp: loop_put_def loop_bufs_def)
next
  case False
  note parts = loop_bufs_parts [OF Q]
  let ?l = "last qs"
  have l: "?l \<in> set qs" and lq: "loop_last n = Some ?l" using False parts(4) by simp_all
  obtain lb where lb: "pbufs s ?l = Some lb" "pb_next lb = None" using links_last [OF parts(2) False] by blast
  have one: "pb_ref lb = 1" using parts(7) [OF l] lb by auto
  obtain f where f: "loop_first n = Some f" "f \<in> set qs" using parts(2) False by (cases qs) auto
  have rq: "r \<notin> set qs" using loop_bufs_exclusive(1) [OF Q, of r] by auto
  have F: "with_ref (loop_first n) (E(r := 1)) = (with_ref (loop_first n) E)(r := 1)" using f rq by (intro with_ref_upd) auto
  let ?b = "lb\<lparr>pb_next := Some r\<rparr>" 
  let ?s = "put_pbuf ?l ?b s"
  have Fr: "with_ref (loop_first n) E r = 0" using f rq r(1) by auto
  from parts(1) have ok: "pbuf_inv s" "refs_ok ((with_ref (loop_first n) E)(r := 1)) s" unfolding F by (simp_all add: net_ok_def)
  have "refs_ok (((with_ref (loop_first n) E)(r := 1))(r := 0)) ?s" using refs_ok_link [OF ok(2) lb, of r ?b] one by simp
  then have "net_ok (with_ref (loop_first n) E) ?s" using pbuf_inv_upd_next' [OF ok(1) lb(1)] Fr by (simp add: net_ok_def fun_upd_idem)
  moreover have "links (pbufs ?s) (loop_first n) (qs @ [r])"
    using links_append [OF parts(2) False, of "Some r" "[r]" lb ?b] lb(1) r(2,3) rq l by (auto simp del: fun_upd_apply)
  moreover have same: "pbytes (pbufs ?s) M x = pbytes (pbufs s) M x" for M x using lb(1) by (auto simp: pbytes_def split: option.split)
  have "loop_buf ?s x D'" if "loop_buf s x D'" for x D'
    using that lb(1) unfolding loop_buf_def same by (cases "x = ?l") auto
  then have "list_all2 (loop_buf ?s) (qs @ [r]) (Ds @ [D])"
    using parts(3) r(4) by (simp add: list_all2_appendI list.rel_mono_strong)
  ultimately show ?thesis using c parts(5) lq lb(1) unfolding loop_put_def by (simp add: loop_bufs_def)
qed

lemma loop_output_refused:
  assumes Q: "loop_bufs E n qs Ds s" and p: "chain (pbufs s) (Some p) xs"
    and s': "net_ok (with_ref (loop_first n) E) s'" "pbufs s' = pbufs s" "bytes s' = bytes s"
  shows "loop_queue E n Ds s' \<and> chain (pbufs s') (Some p) xs \<and> chain_data (pbufs s') (bytes s') xs = chain_data (pbufs s) (bytes s) xs"
  using loop_bufs_cong [OF Q s'(1)] s'(2,3) p by (auto simp: loop_queue_def)

text \<open>The packet is copied to \<open>r\<close>, which joins the queue; the packet itself does not change.\<close>

lemma loop_append:
  assumes qs: "loop_bufs E n qs Ds s" and p: "0 < E p" "chain (pbufs s) (Some p) xs" "own_memory (pbufs s) xs" "filled (pbufs s) xs"
    and len: "chain_len (pbufs s) xs < 65536" and c: "loop_cnt_current n < LWIP_LOOPBACK_MAX_PBUFS"
    and r: "new_chain (with_ref (loop_first n) E) PBUF_LINK (chain_len (pbufs s) xs) PBUF_RAM s r [r] s1"
  shows "\<exists>M n' s'. pbuf_copy (Some r) (Some p) s1 = Some (ERR_OK, s1\<lparr>bytes := M\<rparr>)
    \<and> loop_put r (n\<lparr>loop_cnt_current := loop_cnt_current n + 1\<rparr>) (s1\<lparr>bytes := M\<rparr>) = (n', s')
    \<and> loop_bufs E n' (qs @ [r]) (Ds @ [chain_data (pbufs s) (bytes s) xs]) s' \<and> chain (pbufs s') (Some p) xs
    \<and> chain_data (pbufs s') (bytes s') xs = chain_data (pbufs s) (bytes s) xs"
proof -
  let ?F = "with_ref (loop_first n) E" and ?D = "chain_data (pbufs s) (bytes s) xs"
  note parts = loop_bufs_parts [OF qs] and new = new_chain_parts [OF r]
  obtain rb where rb: "pbufs s1 r = Some rb" "pb_next rb = None" "pb_ref rb = 1" "pb_type rb = PBUF_RAM" "\<not> is_custom rb" "pb_len rb = pb_tot_len rb"
    using r by (auto simp: new_chain_def chain_Cons plen_def)
  from loop_copy [OF r p(2-4) len] obtain M where M: "pbuf_copy (Some r) (Some p) s1 = Some (ERR_OK, s1\<lparr>bytes := M\<rparr>)" "pbytes (pbufs s1) M r = ?D"
    and others: "\<lbrakk>own_memory (pbufs s1) ys; r \<notin> set ys\<rbrakk> \<Longrightarrow> chain_data (pbufs s1) M ys = chain_data (pbufs s1) (bytes s) ys" for ys by blast
  let ?s2 = "s1\<lparr>bytes := M\<rparr>" and ?n = "n\<lparr>loop_cnt_current := loop_cnt_current n + 1\<rparr>"
  have live: "set qs \<subseteq> dom (pbufs s)" "set xs \<subseteq> dom (pbufs s)" "r \<notin> dom (pbufs s)"
    using new(8) links_live [OF parts(2)] chain_live [OF p(2)] by simp_all
  have same: "pbufs s1 x = pbufs s x" if "x \<in> set qs \<union> set xs" for x using new(9) [of x] that live by auto
  have rq: "r \<notin> set qs" "loop_first n \<noteq> Some r" using live parts(2) by (cases qs, auto)+
  then have Er: "E r = 0" and F: "with_ref (loop_first n) (E(r := 1)) = ?F(r := 1)"
    using new(5) with_ref_le [of E r "loop_first n"] by (simp_all add: with_ref_upd)
  have old: "pbytes (pbufs s) M x = pbytes (pbufs s) (bytes s) x" if x: "x \<in> set qs \<union> set xs" for x
  proof -
    have "own_memory (pbufs s1) [x]" using x parts(8) p(3) same [OF x] by (auto simp: own_memory_def)
    moreover have "r \<noteq> x" using x live by auto
    ultimately have "chain_data (pbufs s1) M [x] = chain_data (pbufs s1) (bytes s) [x]" by (intro others) simp_all
    then show ?thesis using same [OF x] by (simp add: chain_data_def pbytes_def)
  qed
  have "net_ok (with_ref (loop_first n) (E(r := 1))) ?s2" unfolding F using new(1) by simp
  then have Q2: "loop_bufs (E(r := 1)) n qs Ds ?s2" using same old by (intro loop_bufs_cong [OF qs]) simp_all
  have rbuf: "loop_buf ?s2 r ?D" "pbufs ?s2 r = Some rb" using rb M(2) by (simp_all add: loop_buf_def)
  obtain n' s' where n': "loop_put r ?n ?s2 = (n', s')" by (cases "loop_put r ?n ?s2")
  with loop_put_ok [OF Q2 Er rbuf(2) rb(2) rbuf(1) c] have Q': "loop_bufs E n' (qs @ [r]) (Ds @ [?D]) s'" by simp
  have s': "bytes s' = M" "x \<notin> set qs \<Longrightarrow> pbufs s' x = pbufs s1 x" for x
    using n' parts(4) by (auto simp: loop_put_def split: option.splits if_splits)
  have ps: "pbufs s' x = pbufs s x" if "x \<in> set xs" for x using loop_bufs_apart [OF qs p(1,2)] that same [of x] s'(2) [of x] by auto
  have ch: "chain (pbufs s') (Some p) xs" "chain_data (pbufs s') M xs = chain_data (pbufs s) M xs"
    using chain_agree [of xs "pbufs s'" "pbufs s" "Some p"] ps p(2) by auto
  have "map (pbytes (pbufs s) M) xs = map (pbytes (pbufs s) (bytes s)) xs" using old by simp
  then have "chain_data (pbufs s') (bytes s') xs = ?D" unfolding s'(1) ch(2) by (simp only: chain_data_def)
  then show ?thesis using M(1) n' Q' ch(1) by blast
qed

lemma loop_output_eq:
  assumes pb: "pbufs s p = Some pb" "pbuf_alloc PBUF_LINK (pb_tot_len pb) PBUF_RAM s = Some (Some r, s1)" and n: "netif_at ns a = Some n"
    and rb: "pbufs s1 r = Some rb" "pb_next rb = None" and c: "loop_cnt_current n < LWIP_LOOPBACK_MAX_PBUFS"
    and copy: "pbuf_copy (Some r) (Some p) s1 = Some (ERR_OK, s1\<lparr>bytes := M\<rparr>)"
    and put: "loop_put r (n\<lparr>loop_cnt_current := loop_cnt_current n + 1\<rparr>) (s1\<lparr>bytes := M\<rparr>) = (n', s')"
    and q: "loop_first n = None \<longleftrightarrow> loop_last n = None" "\<And>l. loop_last n = Some l \<Longrightarrow> \<exists>lb. pbufs s1 l = Some lb"
  shows "netif_loop_output a p (ns, s) = Some (ERR_OK, (put_netif a n' ns)\<lparr>lo_xmit := lo_xmit ns + 1\<rparr>, s')"
proof -
  have clen: "pbuf_clen (Some r) s1 = Some 1" using pbuf_clen_eq [of s1 "Some r" "[r]"] rb by simp
  have ll: "last_loop (s1\<lparr>bytes := M\<rparr>) r = Some r" using last_loop_single [of "s1\<lparr>bytes := M\<rparr>" r rb] rb by simp
  have u16: "to_u16 (Suc (loop_cnt_current n)) = Suc (loop_cnt_current n)" using c by (simp add: to_u16_def)
  have room: "\<not> 9 < loop_cnt_current n" using c by simp
  note step = netif_loop_output_def pb n clen room copy ll u16
  show ?thesis
  proof (cases "loop_last n")
    case None
    then have "loop_first n = None" using q(1) by simp
    moreover have "n' = n\<lparr>loop_cnt_current := loop_cnt_current n + 1, loop_first := Some r, loop_last := Some r\<rparr>" "s' = s1\<lparr>bytes := M\<rparr>"
      using put None by (simp_all add: loop_put_def)
    ultimately show ?thesis by (simp add: step) (simp add: put_netif_def)
  next
    case (Some l)
    moreover obtain f where "loop_first n = Some f" using q(1) Some by auto
    moreover obtain lb where "pbufs s1 l = Some lb" using q(2) [OF Some] by blast
    moreover from calculation have "n' = n\<lparr>loop_cnt_current := loop_cnt_current n + 1, loop_last := Some r\<rparr>"
        "s' = put_pbuf l (lb\<lparr>pb_next := Some r\<rparr>) (s1\<lparr>bytes := M\<rparr>)" using put by (auto simp: loop_put_def)
    ultimately show ?thesis by (simp add: step upd_pbuf_Some) (simp add: put_netif_def)
  qed
qed

lemma loop_output_ok:
  assumes Q: "loop_queue E n Ds s" and n: "netif_at ns a = Some n"
    and p: "0 < E p" "chain (pbufs s) (Some p) xs" "own_memory (pbufs s) xs" "filled (pbufs s) xs" and len: "chain_len (pbufs s) xs \<le> 65000"
  shows "\<exists>err ns' n' s'. netif_loop_output a p (ns, s) = Some (err, ns', s') \<and> netif_at ns' = (netif_at ns)(a \<mapsto> n')
    \<and> chain (pbufs s') (Some p) xs \<and> chain_data (pbufs s') (bytes s') xs = chain_data (pbufs s) (bytes s) xs
    \<and> (err = ERR_MEM \<and> n' = n \<and> loop_queue E n' Ds s'
       \<or> err = ERR_OK \<and> loop_cnt_current n < LWIP_LOOPBACK_MAX_PBUFS \<and> loop_queue E n' (Ds @ [chain_data (pbufs s) (bytes s) xs]) s')"
proof -
  let ?F = "with_ref (loop_first n) E" and ?k = "chain_len (pbufs s) xs"
  from Q obtain qs where qs: "loop_bufs E n qs Ds s" by (auto simp: loop_queue_def)
  note parts = loop_bufs_parts [OF qs]
  obtain pb where pb: "pbufs s p = Some pb" "pb_tot_len pb = ?k" using p(2) chain_tot_len [OF p(2)] by (cases xs) (auto simp: chain_Cons ptot_def)
  have idem: "(netif_at ns)(a \<mapsto> n) = netif_at ns" using n by (simp add: fun_upd_idem)
  have "LWIP_MEM_ALIGN_SIZE ?k \<le> ?k + 3" unfolding LWIP_MEM_ALIGN_SIZE_def by simp
  then have "layer_offset PBUF_LINK + 16 + LWIP_MEM_ALIGN_SIZE ?k \<le> 65532" using len by simp
  from alloc_ram_ok [OF parts(1) this] show ?thesis
  proof (elim disjE exE conjE)
    fix s' assume s': "pbuf_alloc PBUF_LINK ?k PBUF_RAM s = Some (None, s')" "net_ok ?F s'" "pbufs s' = pbufs s" "same_rest s s'"
    then have "netif_loop_output a p (ns, s) = Some (ERR_MEM, lo_discard ns, s')" using pb by (simp add: netif_loop_output_def)
    moreover have "bytes s' = bytes s" using s'(4) by (simp add: same_rest_def)
    ultimately show ?thesis using loop_output_refused [OF qs p(2) s'(2,3)] by (auto simp: lo_discard_def idem)
  next
    fix r s1 assume r: "pbuf_alloc PBUF_LINK ?k PBUF_RAM s = Some (Some r, s1)" "new_chain ?F PBUF_LINK ?k PBUF_RAM s r [r] s1"
    obtain rb where rb: "pbufs s1 r = Some rb" "pb_next rb = None" using r(2) by (auto simp: new_chain_def chain_Cons)
    show ?thesis
    proof (cases "loop_cnt_current n < LWIP_LOOPBACK_MAX_PBUFS")
      case False
      from free_new_chain [OF r(2)] obtain m s2 where
        s2: "pbuf_free (Some r) s1 = Some (m, s2)" "net_ok ?F s2" "pbufs s2 = pbufs s" "bytes s2 = bytes s" by blast
      have "pbuf_clen (Some r) s1 = Some 1" using pbuf_clen_eq [of s1 "Some r" "[r]"] rb by simp
      then have "netif_loop_output a p (ns, s) = Some (ERR_MEM, lo_discard ns, s2)"
        using pb r(1) n False s2(1) by (simp add: netif_loop_output_def)
      then show ?thesis using loop_output_refused [OF qs p(2) s2(2-4)] by (auto simp: lo_discard_def idem)
    next
      case True
      from loop_append [OF qs p _ True r(2)] len obtain M n' s' where
        M: "pbuf_copy (Some r) (Some p) s1 = Some (ERR_OK, s1\<lparr>bytes := M\<rparr>)"
          "loop_put r (n\<lparr>loop_cnt_current := loop_cnt_current n + 1\<rparr>) (s1\<lparr>bytes := M\<rparr>) = (n', s')"
        and s': "loop_bufs E n' (qs @ [r]) (Ds @ [chain_data (pbufs s) (bytes s) xs]) s'" "chain (pbufs s') (Some p) xs"
          "chain_data (pbufs s') (bytes s') xs = chain_data (pbufs s) (bytes s) xs" by auto
      have fl: "loop_first n = None \<longleftrightarrow> loop_last n = None" using parts(2,4) by (cases qs) auto
      have lb: "\<exists>lb. pbufs s1 l = Some lb" if "loop_last n = Some l" for l
      proof -
        have "l \<in> set qs" using that parts(4) by (auto split: if_splits)
        with parts(7) [OF this] new_chain_parts(8,9) [OF r(2)] show ?thesis by force
      qed
      have "netif_loop_output a p (ns, s) = Some (ERR_OK, (put_netif a n' ns)\<lparr>lo_xmit := lo_xmit ns + 1\<rparr>, s')"
        using loop_output_eq [OF pb(1) _ n rb True M fl lb] r(1) pb(2) by simp
      then show ?thesis using s' True by (auto simp: loop_queue_def)
    qed
  qed
qed


section \<open>Delivery\<close>

lemma loop_bufs_Cons:
  assumes Q: "loop_bufs E n (f # qs) (D # Ds) s"
  obtains b where "pbufs s f = Some b" "loop_first n = Some f" "pb_len b = pb_tot_len b" "pb_ref b = 1" "\<not> is_custom b" "pb_type b = PBUF_RAM"
    "links (pbufs s) (pb_next b) qs" "f \<notin> set qs" "E f = 0" "pbytes (pbufs s) (bytes s) f = D" "list_all2 (loop_buf s) qs Ds"
  using loop_bufs_parts(2,3) [OF Q] loop_bufs_exclusive(1) [OF Q, of f] links_distinct [OF loop_bufs_parts(2) [OF Q]]
  by (auto simp: loop_buf_def split: option.splits)

text \<open>A packet as the queue holds it, in one pbuf, when it is delivered.\<close>

definition loop_packet :: "(nat \<Rightarrow> nat) \<Rightarrow> nat \<Rightarrow> u8 list \<Rightarrow> net \<Rightarrow> bool" where
  "loop_packet E f D s \<longleftrightarrow> packet E f D s \<and> chain (pbufs s) (Some f) [f]"

text \<open>The interface after the first packet has been taken off the queue.\<close>

definition loop_rest :: "netif \<Rightarrow> nat list \<Rightarrow> netif" where
  "loop_rest n qs = (if qs = [] then n\<lparr>loop_cnt_current := loop_cnt_current n - 1, loop_first := None, loop_last := None\<rparr>
     else n\<lparr>loop_cnt_current := loop_cnt_current n - 1, loop_first := Some (hd qs)\<rparr>)"

lemma loop_rest_first [simp]: "loop_first (loop_rest n qs) = (if qs = [] then None else Some (hd qs))"
  by (simp add: loop_rest_def)

lemma loop_rest_ok:
  assumes Q: "loop_bufs E n (f # qs) (D # Ds) s" and b: "pbufs s f = Some b" and s': "s' = put_pbuf f (b\<lparr>pb_next := None\<rparr>) s"
  shows "loop_bufs (E(f := 1)) (loop_rest n qs) qs Ds s'" "loop_packet (with_ref (loop_first (loop_rest n qs)) E) f D s'"
proof -
  note parts = loop_bufs_parts [OF Q]
  have c: "loop_first n = Some f" "pb_len b = pb_tot_len b" "pb_ref b = 1" "\<not> is_custom b" "pb_type b = PBUF_RAM"
    "links (pbufs s) (pb_next b) qs" "f \<notin> set qs" "E f = 0" "pbytes (pbufs s) (bytes s) f = D" "list_all2 (loop_buf s) qs Ds"
    using loop_bufs_Cons [OF Q] b by (metis option.inject)+
  let ?b = "b\<lparr>pb_next := None\<rparr>" and ?F = "with_ref (loop_first (loop_rest n qs)) (E(f := 1))"
  from parts(1) have ok: "pbuf_inv s" "refs_ok (E(f := 1)) s" using c(1,8) by (simp_all add: net_ok_def)
  have "refs_ok ?F s'"
  proof (cases qs)
    case Nil
    then have "pb_next b = None" using c(6) by simp
    with Nil refs_ok_put [OF ok(2) b, of ?b] s' show ?thesis by simp
  next
    case (Cons q qs')
    then have "pb_next b = Some q" using c(6) by simp
    with Cons refs_ok_unlink [OF ok(2) b this, of ?b] s' c(3) show ?thesis by simp
  qed
  then have okF: "net_ok ?F s'" using pbuf_inv_upd_next' [OF ok(1) b] s' by (simp add: net_ok_def)
  have same: "pbufs s' q = pbufs s q" if "q \<in> set qs" for q using that c(7) s' by auto
  have "links (pbufs s') (pb_next b) qs" by (rule links_cong [OF c(6)]) (simp add: same)
  moreover have "list_all2 (loop_buf s') qs Ds"
    using c(10) same s' by (auto simp: list_all2_conv_all_nth loop_buf_def pbytes_def)
  moreover have "pb_next b = loop_first (loop_rest n qs)" using c(6) by (cases qs) auto
  ultimately show "loop_bufs (E(f := 1)) (loop_rest n qs) qs Ds s'"
    using okF parts(4-6) by (simp add: loop_bufs_def) (auto simp: loop_rest_def)
  have ne: "loop_first (loop_rest n qs) \<noteq> Some f" using c(7) by (cases qs) auto
  have F: "?F = (with_ref (loop_first (loop_rest n qs)) E)(f := 1)" by (rule with_ref_upd [OF ne])
  have "with_ref (loop_first (loop_rest n qs)) E f = 0" using c(7,8) by (cases qs) auto
  moreover have one: "chain (pbufs s') (Some f) [f]" "own_memory (pbufs s') [f]" "chain_data (pbufs s') (bytes s') [f] = D"
    using s' c by (auto simp: chain_Cons plen_def chain_data_def pbytes_def b split: option.split)
  moreover have "ref_of s' f = 1" using s' c by (auto simp: ref_of_def b)
  ultimately show "loop_packet (with_ref (loop_first (loop_rest n qs)) E) f D s'" using okF unfolding loop_packet_def packet_def F by blast
qed

lemma poll_take_empty: "\<lbrakk>loop_queue E n [] s; netif_at ns a = Some n\<rbrakk> \<Longrightarrow> poll_take a (ns, s) = Some (None, ns, s)"
  by (auto simp: poll_take_def loop_queue_def loop_bufs_def)

lemma poll_take_ok:
  assumes Q: "loop_queue E n (D # Ds) s" and n: "netif_at ns a = Some n"
  shows "\<exists>f ns' n' s'. poll_take a (ns, s) = Some (Some f, ns', s') \<and> netif_at ns' = (netif_at ns)(a \<mapsto> n') \<and> E f = 0
    \<and> loop_queue (E(f := 1)) n' Ds s' \<and> loop_packet (with_ref (loop_first n') E) f D s'"
proof -
  from Q obtain f qs where fq: "loop_bufs E n (f # qs) (D # Ds) s"
    unfolding loop_queue_def by (metis list_all2_Cons2 loop_bufs_parts(3))
  then obtain b where b: "pbufs s f = Some b" "loop_first n = Some f" "pb_len b = pb_tot_len b" "links (pbufs s) (pb_next b) qs" "f \<notin> set qs" "E f = 0"
    by (rule loop_bufs_Cons)
  note parts = loop_bufs_parts [OF fq]
  define s' where "s' = put_pbuf f (b\<lparr>pb_next := None\<rparr>) s"
  have pe: "poll_end s f 1 = Some (f, 1)" using b by (subst poll_end.simps) simp
  have cnt: "nat ((int (loop_cnt_current n) - 1) mod 65536) = loop_cnt_current n - 1" using parts(5,6) by (simp add: nat_diff_distrib)
  have "poll_take a (ns, s) = Some (Some f, (put_netif a (loop_rest n qs) ns)\<lparr>lo_recv := lo_recv ns + 1\<rparr>, s')"
  proof (cases "qs = []")
    case True
    with parts(4) have "loop_last n = Some f" by simp
    with True show ?thesis using n b pe cnt by (simp add: poll_take_def loop_rest_def upd_pbuf_Some s'_def) (simp add: put_netif_def)
  next
    case False
    with parts(4) b(5) have "loop_last n \<noteq> Some f" by auto
    moreover have "pb_next b = Some (hd qs)" using b(4) False by (cases qs) auto
    ultimately show ?thesis using False n b pe cnt by (simp add: poll_take_def loop_rest_def upd_pbuf_Some s'_def) (simp add: put_netif_def)
  qed
  moreover note loop_rest_ok [OF fq b(1) s'_def]
  ultimately show ?thesis using b(6) by (fastforce simp: loop_queue_def)
qed

lemma drop_run_other: "x \<notin> set xs \<Longrightarrow> drop_run P xs x = P x"
  by (induction xs) (auto split: option.split)

lemma loop_free_refused:
  assumes Q: "loop_queue (E(f := 1)) n Ds s" and p: "packet (with_ref (loop_first n) E) f D s"
  shows "\<exists>k s'. pbuf_free (Some f) s = Some (k, s') \<and> loop_queue E n Ds s'"
proof -
  from Q obtain qs where qs: "loop_bufs (E(f := 1)) n qs Ds s" by (auto simp: loop_queue_def)
  let ?F = "with_ref (loop_first n) E"
  from p obtain xs where xs: "net_ok (?F(f := 1)) s" "?F f = 0" "chain (pbufs s) (Some f) xs" "own_memory (pbufs s) xs" by (auto simp: packet_def)
  then have refs: "pbuf_inv s" "refs_ok (?F(f := 1)) s" by (simp_all add: net_ok_def)
  have "plain (pbufs s) xs" unfolding plain_def list_all_iff using chain_referenced [OF refs(2) xs(3)] xs(4) by (fastforce simp: own_memory_def)
  with free_chain_exact [OF refs(1) _ this, of "Some f" 0] xs(3) obtain k s' where
    s': "pbuf_free (Some f) s = Some (k, s')" "pbufs s' = drop_run (pbufs s) xs" "same_rest s s'" by (auto simp: pbuf_free_def chain_def)
  have "net_ok ?F s'" using pbuf_free_ok [OF xs(1), of f] s'(1) xs(2) by (auto simp: fun_upd_idem)
  moreover have "pbufs s' q = pbufs s q" if "q \<in> set qs" for q
    using loop_bufs_apart [OF qs _ xs(3)] that s'(2) drop_run_other [of q xs] by auto
  ultimately have "loop_bufs E n qs Ds s'" using s'(3) by (intro loop_bufs_cong [OF qs]) (simp_all add: same_rest_def)
  with s'(1) show ?thesis by (auto simp: loop_queue_def)
qed

section \<open>Properties\<close>

text \<open>C11: sending to the loopback queue. \<open>netif_loop_output\<close> returns; it appends a copy of the packet to the queue, or refuses it with \<open>ERR_MEM\<close> and
  then changes nothing. The caller's packet is left as it was, and the queue never holds more than 10 packets.\<close>

theorem loop_output_enqueues:
  assumes "loop_queue E n Ds s" "netif_at ns a = Some n" "0 < E p" "chain (pbufs s) (Some p) xs" "own_memory (pbufs s) xs" "filled (pbufs s) xs"
    "chain_len (pbufs s) xs \<le> 65000"
  shows "\<exists>err ns' n' s'. netif_loop_output a p (ns, s) = Some (err, ns', s') \<and> netif_at ns' = (netif_at ns)(a \<mapsto> n')
    \<and> chain (pbufs s') (Some p) xs \<and> chain_data (pbufs s') (bytes s') xs = chain_data (pbufs s) (bytes s) xs
    \<and> (err = ERR_MEM \<and> n' = n \<and> loop_queue E n' Ds s'
       \<or> err = ERR_OK \<and> loop_cnt_current n < LWIP_LOOPBACK_MAX_PBUFS \<and> loop_queue E n' (Ds @ [chain_data (pbufs s) (bytes s) xs]) s')"
  by (rule loop_output_ok [OF assms])

lemma example_loop_queue: "net_ok E s \<Longrightarrow> loop_queue E example_netif [] s"
  by (simp add: loop_queue_def loop_bufs_def example_netif_def)

lemma example_loop_packet:
  obtains p xs s where "pbuf_alloc PBUF_RAW 200 PBUF_POOL example_net = Some (Some p, s)" "loop_queue ((\<lambda>_. 0)(p := 1)) example_netif [] s"
    "chain (pbufs s) (Some p) xs" "own_memory (pbufs s) xs" "filled (pbufs s) xs" "chain_len (pbufs s) xs \<le> 65000"
proof -
  obtain p xs s where p: "pbuf_alloc PBUF_RAW 200 PBUF_POOL example_net = Some (Some p, s)"
    "new_chain (\<lambda>_. 0) PBUF_RAW 200 PBUF_POOL example_net p xs s" "length xs = 2" by (rule example_packet)
  note parts = new_chain_parts [OF p(2)]
  show ?thesis using that [OF p(1) example_loop_queue [OF parts(1)] parts(2)] parts(3,6) example_packet_filled [OF p(2,3)] by simp
qed

theorem loop_output_enqueues_witness:
  "\<exists>p s err ns' n' s' D. pbuf_alloc PBUF_RAW 200 PBUF_POOL example_net = Some (Some p, s) \<and> netif_loop_output 5 p (example_netifs, s) = Some (err, ns', s')
     \<and> loop_queue ((\<lambda>_. 0)(p := 1)) n' (if err = ERR_OK then [D] else []) s'"
proof -
  obtain p xs s where p: "pbuf_alloc PBUF_RAW 200 PBUF_POOL example_net = Some (Some p, s)" "loop_queue ((\<lambda>_. 0)(p := 1)) example_netif [] s"
    "chain (pbufs s) (Some p) xs" "own_memory (pbufs s) xs" "filled (pbufs s) xs" "chain_len (pbufs s) xs \<le> 65000" by (rule example_loop_packet)
  from loop_output_enqueues [OF p(2) example_netifs_at _ p(3-6)] p(1) show ?thesis by fastforce
qed

text \<open>C35: delivery from the loopback queue, whatever the receiver does. While the queue holds packets, \<open>netif_poll\<close> takes the oldest one off the queue and gives it to \<open>ip_input\<close>
  as a packet of a single pbuf with exactly the data that was sent, to which there is no other reference; at the time of the call the queue holds exactly the younger packets, in order. A packet that is
  refused is freed. Then it goes on with the queue that the call has left (the receiver may have appended packets to it). With an empty queue it returns at once and changes nothing.\<close>

theorem netif_poll_fifo:
  assumes "loop_queue E n Ds s" "netif_at ns a = Some n"
  shows "case Ds of
      [] \<Rightarrow> netif_poll ip_input a (ns, s, w) = Some (ns, s, w)
    | D # Ds' \<Rightarrow> \<exists>f ns1 n1 s1. netif_at ns1 = (netif_at ns)(a \<mapsto> n1) \<and> E f = 0 \<and> loop_queue (E(f := 1)) n1 Ds' s1
        \<and> loop_packet (with_ref (loop_first n1) E) f D s1
        \<and> netif_poll ip_input a (ns, s, w) = (case ip_input f a (ns1, s1, w) of
              None \<Rightarrow> None
            | Some (err, ns2, s2, w2) \<Rightarrow>
                if err = ERR_OK then netif_poll ip_input a (ns2, s2, w2)
                else (case pbuf_free (Some f) s2 of None \<Rightarrow> None | Some (_, s3) \<Rightarrow> netif_poll ip_input a (ns2, s3, w2)))"
proof (cases Ds)
  case Nil
  with assms have "poll_take a (ns, s) = Some (None, ns, s)" by (intro poll_take_empty [of E n]) simp_all
  with Nil show ?thesis by (subst netif_poll.simps) simp
next
  case (Cons D Ds')
  from poll_take_ok [OF assms(1) [unfolded Cons] assms(2)] obtain f ns1 n1 s1 where
    t: "poll_take a (ns, s) = Some (Some f, ns1, s1)" "netif_at ns1 = (netif_at ns)(a \<mapsto> n1)" "E f = 0" "loop_queue (E(f := 1)) n1 Ds' s1"
      "loop_packet (with_ref (loop_first n1) E) f D s1" by blast
  have "netif_poll ip_input a (ns, s, w) = (case ip_input f a (ns1, s1, w) of
              None \<Rightarrow> None
            | Some (err, ns2, s2, w2) \<Rightarrow>
                if err = ERR_OK then netif_poll ip_input a (ns2, s2, w2)
                else (case pbuf_free (Some f) s2 of None \<Rightarrow> None | Some (_, s3) \<Rightarrow> netif_poll ip_input a (ns2, s3, w2)))"
    using t(1) by (subst netif_poll.simps) (auto split: option.split bind_split)
  with t(2-5) Cons show ?thesis by (simp del: fun_upd_apply) blast
qed

text \<open>A receiver that records the data of the packets and refuses them, and an interface with one packet in its queue.\<close>

definition example_ip_input :: "nat \<Rightarrow> nat \<Rightarrow> netifs \<times> net \<times> u8 list list \<Rightarrow> (err_t \<times> netifs \<times> net \<times> u8 list list) option" where
  "example_ip_input p a st = (case st of (ns, s, w) \<Rightarrow> Some (ERR_VAL, ns, s, w @ [pbytes (pbufs s) (bytes s) p]))"

lemma loop_packet_bytes: "loop_packet F f D s \<Longrightarrow> pbytes (pbufs s) (bytes s) f = D"
proof -
  assume "loop_packet F f D s"
  then obtain xs where "chain (pbufs s) (Some f) xs" "chain_data (pbufs s) (bytes s) xs = D" "chain (pbufs s) (Some f) [f]"
    by (auto simp: loop_packet_def packet_def)
  moreover from this have "xs = [f]" using links_unique by (auto simp: chain_def)
  ultimately show ?thesis by (simp add: chain_data_def)
qed

lemma example_queued:
  obtains r s D where "pbuf_alloc PBUF_LINK 200 PBUF_RAM example_net = Some (Some r, s)" "length D = 200"
    "loop_queue (\<lambda>_. 0) (example_netif\<lparr>loop_first := Some r, loop_last := Some r, loop_cnt_current := 1\<rparr>) [D] s"
proof -
  have r: "rounded 248 = 248" by (simp add: rounded_def LWIP_MEM_ALIGN_SIZE_def)
  obtain h where h: "mem_malloc 248 example_heap = Some (Some 1012, h)"
    using mem_malloc_eq [OF example_heap_inv(1), of 248] by (auto simp: r example_heap_inv(2) append_eq_Cons_conv Cons_eq_append_conv)
  have "to_u16 (LWIP_MEM_ALIGN_SIZE 48 + LWIP_MEM_ALIGN_SIZE 200) = 248" by (simp add: to_u16_def LWIP_MEM_ALIGN_SIZE_def)
  with h have "\<nexists>s1. pbuf_alloc PBUF_LINK 200 PBUF_RAM example_net = Some (None, s1)"
    by (simp add: pbuf_alloc_def net_mem_malloc_def example_net_def put_pbuf_def upd_pbuf_def LWIP_MEM_ALIGN_def)
  with alloc_ram_ok [OF example_net_ok, of PBUF_LINK 200] obtain r s where
    r: "pbuf_alloc PBUF_LINK 200 PBUF_RAM example_net = Some (Some r, s)" "new_chain (\<lambda>_. 0) PBUF_LINK 200 PBUF_RAM example_net r [r] s"
    by (auto simp: LWIP_MEM_ALIGN_SIZE_def)
  note parts = new_chain_parts [OF r(2)]
  let ?D = "pbytes (pbufs s) (bytes s) r"
  from r(2) obtain b where b: "pbufs s r = Some b" "pb_next b = None" "pb_len b = 200" "pb_tot_len b = 200" "\<not> is_custom b" "pb_type b = PBUF_RAM" "pb_ref b = 1"
    "pb_payload b = Some (r + 64 - 16)" by (auto simp: new_chain_def chain_Cons plen_def)
  then have "length ?D = 200" by (simp add: pbytes_def)
  moreover have "loop_queue (\<lambda>_. 0) (example_netif\<lparr>loop_first := Some r, loop_last := Some r, loop_cnt_current := 1\<rparr>) [?D] s"
    unfolding loop_queue_def using parts(1) b by (intro exI [of _ "[r]"]) (simp add: loop_bufs_def loop_buf_def)
  ultimately show ?thesis using that [OF r(1)] by blast
qed

theorem netif_poll_fifo_witness:
  "\<exists>r s D ns' s'. pbuf_alloc PBUF_LINK 200 PBUF_RAM example_net = Some (Some r, s) \<and> length D = 200
     \<and> netif_poll example_ip_input 5 (put_netif 5 (example_netif\<lparr>loop_first := Some r, loop_last := Some r, loop_cnt_current := 1\<rparr>) example_netifs, s, [])
         = Some (ns', s', [D])"
proof -
  obtain r s D where r: "pbuf_alloc PBUF_LINK 200 PBUF_RAM example_net = Some (Some r, s)" "length D = 200"
    "loop_queue (\<lambda>_. 0) (example_netif\<lparr>loop_first := Some r, loop_last := Some r, loop_cnt_current := 1\<rparr>) [D] s" by (rule example_queued)
  let ?n = "example_netif\<lparr>loop_first := Some r, loop_last := Some r, loop_cnt_current := 1\<rparr>"
  let ?ns = "put_netif 5 ?n example_netifs"
  have "netif_at ?ns 5 = Some ?n" by simp
  from netif_poll_fifo [OF r(3) this, of example_ip_input "[]"] obtain f ns1 n1 s1 where
    t: "netif_at ns1 = (netif_at ?ns)(5 \<mapsto> n1)" "loop_queue ((\<lambda>_. 0)(f := 1)) n1 [] s1" "loop_packet (with_ref (loop_first n1) (\<lambda>_. 0)) f D s1"
      "netif_poll example_ip_input 5 (?ns, s, []) = (case example_ip_input f 5 (ns1, s1, []) of
              None \<Rightarrow> None
            | Some (err, ns2, s2, w2) \<Rightarrow>
                if err = ERR_OK then netif_poll example_ip_input 5 (ns2, s2, w2)
                else (case pbuf_free (Some f) s2 of None \<Rightarrow> None | Some (_, s3) \<Rightarrow> netif_poll example_ip_input 5 (ns2, s3, w2)))" by auto
  have "packet (with_ref (loop_first n1) (\<lambda>_. 0)) f D s1" using t(3) by (simp add: loop_packet_def)
  from loop_free_refused [OF t(2) this] obtain k s2 where s2: "pbuf_free (Some f) s1 = Some (k, s2)" "loop_queue (\<lambda>_. 0) n1 [] s2" by blast
  have "netif_at ns1 5 = Some n1" using t(1) by simp
  from netif_poll_fifo [OF s2(2) this, of example_ip_input "[D]"] have "netif_poll example_ip_input 5 (ns1, s2, [D]) = Some (ns1, s2, [D])" by simp
  then have "netif_poll example_ip_input 5 (?ns, s, []) = Some (ns1, s2, [D])"
    using t(4) s2(1) loop_packet_bytes [OF t(3)] by (simp add: example_ip_input_def)
  with r(1,2) show ?thesis by blast
qed

end
