(* ===== verification/Ip4.thy ===== *)
theory Ip4
  imports Netif_Loop Inet_Chksum
begin

text \<open>
  \<^verbatim>\<open>core/ipv4/ip4.c\<close>: routing, forwarding, input and output of IPv4 datagrams.

  The state of the stack is \<open>'w stack\<close>: the interfaces, the pbufs and allocators, the globals of the IP layer, and \<open>rest\<close>, the state of the
  other components and of the devices. The functions of other components that the IP layer calls are collected in \<open>'w ip_env\<close>. The host
  is little endian: \<open>get16\<close> and \<open>get32\<close> load what the C code reads through \<^verbatim>\<open>struct ip_hdr\<close>. IP options for sending, multicast options, IGMP
  and the hooks are switched off in this port; header checksums are computed inline.
\<close>

section \<open>Definitions\<close>

subsection \<open>The header\<close>

definition get16 :: "(nat \<Rightarrow> u8) \<Rightarrow> nat \<Rightarrow> u16" where
  "get16 M a = load16 (M a) (M (a + 1))"

definition get32 :: "(nat \<Rightarrow> u8) \<Rightarrow> nat \<Rightarrow> u32" where
  "get32 M a = load32 (M a) (M (a + 1)) (M (a + 2)) (M (a + 3))"

definition put16 :: "nat \<Rightarrow> u16 \<Rightarrow> (nat \<Rightarrow> u8) \<Rightarrow> nat \<Rightarrow> u8" where
  "put16 a v M = wr M a (mem16 v)"

definition put32 :: "nat \<Rightarrow> u32 \<Rightarrow> (nat \<Rightarrow> u8) \<Rightarrow> nat \<Rightarrow> u8" where
  "put32 a v M = wr M a (mem32 v)"

abbreviation (input) IP_HLEN :: nat where "IP_HLEN \<equiv> 20"
abbreviation (input) IP_DF :: u32 where "IP_DF \<equiv> 0x4000"
abbreviation (input) IP_MF :: u32 where "IP_MF \<equiv> 0x2000"
abbreviation (input) IP_OFFMASK :: u32 where "IP_OFFMASK \<equiv> 0x1FFF"
abbreviation (input) IP_PROTO_ICMP :: u8 where "IP_PROTO_ICMP \<equiv> 1"
abbreviation (input) IP_PROTO_TCP :: u8 where "IP_PROTO_TCP \<equiv> 6"
abbreviation (input) IP_PROTO_UDP :: u8 where "IP_PROTO_UDP \<equiv> 17"
abbreviation (input) IP_PROTO_UDPLITE :: u8 where "IP_PROTO_UDPLITE \<equiv> 136"

definition IPH_V :: "(nat \<Rightarrow> u8) \<Rightarrow> nat \<Rightarrow> u8" where "IPH_V M h = drop_bit 4 (M h)"
definition IPH_HL :: "(nat \<Rightarrow> u8) \<Rightarrow> nat \<Rightarrow> u8" where "IPH_HL M h = M h AND 0x0F"
definition IPH_LEN :: "(nat \<Rightarrow> u8) \<Rightarrow> nat \<Rightarrow> u16" where "IPH_LEN M h = get16 M (h + 2)"
definition IPH_ID :: "(nat \<Rightarrow> u8) \<Rightarrow> nat \<Rightarrow> u16" where "IPH_ID M h = get16 M (h + 4)"
definition IPH_OFFSET :: "(nat \<Rightarrow> u8) \<Rightarrow> nat \<Rightarrow> u16" where "IPH_OFFSET M h = get16 M (h + 6)"
definition IPH_TTL :: "(nat \<Rightarrow> u8) \<Rightarrow> nat \<Rightarrow> u8" where "IPH_TTL M h = M (h + 8)"
definition IPH_PROTO :: "(nat \<Rightarrow> u8) \<Rightarrow> nat \<Rightarrow> u8" where "IPH_PROTO M h = M (h + 9)"
definition IPH_CHKSUM :: "(nat \<Rightarrow> u8) \<Rightarrow> nat \<Rightarrow> u16" where "IPH_CHKSUM M h = get16 M (h + 10)"
definition iph_src :: "(nat \<Rightarrow> u8) \<Rightarrow> nat \<Rightarrow> u32" where "iph_src M h = get32 M (h + 12)"
definition iph_dest :: "(nat \<Rightarrow> u8) \<Rightarrow> nat \<Rightarrow> u32" where "iph_dest M h = get32 M (h + 16)"

subsection \<open>State\<close>

record stats_proto =
  ps_xmit :: u16
  ps_recv :: u16
  ps_fw :: u16
  ps_drop :: u16
  ps_chkerr :: u16
  ps_lenerr :: u16
  ps_memerr :: u16
  ps_rterr :: u16
  ps_proterr :: u16
  ps_opterr :: u16
  ps_err :: u16
  ps_cachehit :: u16

record ip_globals =
  current_netif :: ptr
  current_input_netif :: ptr
  current_ip4_header :: ptr
  current_ip_header_tot_len :: nat
  current_iphdr_src :: u32
  current_iphdr_dest :: u32

record 'w stack =
  ifs :: netifs
  bufs :: net
  ip_data :: ip_globals
  ip_id :: u16
  ip_stats :: stats_proto
  rest :: 'w

datatype icmp_dur_type = ICMP_DUR_NET | ICMP_DUR_HOST | ICMP_DUR_PROTO | ICMP_DUR_PORT | ICMP_DUR_FRAG | ICMP_DUR_SR

datatype icmp_te_type = ICMP_TE_TTL | ICMP_TE_FRAG

text \<open>\<open>autoip_llipaddr\<close> is the link-local address AutoIP keeps for an interface, if it runs there.\<close>

record 'w ip_env =
  UART_write :: "u8 \<Rightarrow> 'w \<Rightarrow> bool \<times> 'w"
  autoip_llipaddr :: "nat \<Rightarrow> 'w \<Rightarrow> u32 option"
  ip4_frag_fn :: "nat \<Rightarrow> nat \<Rightarrow> u32 \<Rightarrow> 'w stack \<Rightarrow> (err_t \<times> 'w stack) option"
  ip4_reass_fn :: "nat \<Rightarrow> 'w stack \<Rightarrow> (ptr \<times> 'w stack) option"
  icmp_dest_unreach_fn :: "nat \<Rightarrow> icmp_dur_type \<Rightarrow> 'w stack \<Rightarrow> 'w stack option"
  icmp_time_exceeded_fn :: "nat \<Rightarrow> icmp_te_type \<Rightarrow> 'w stack \<Rightarrow> 'w stack option"
  raw_input_fn :: "nat \<Rightarrow> nat \<Rightarrow> 'w stack \<Rightarrow> (bool \<times> 'w stack) option"
  udp_input_fn :: "nat \<Rightarrow> nat \<Rightarrow> 'w stack \<Rightarrow> 'w stack option"
  tcp_input_fn :: "nat \<Rightarrow> nat \<Rightarrow> 'w stack \<Rightarrow> 'w stack option"
  icmp_input_fn :: "nat \<Rightarrow> nat \<Rightarrow> 'w stack \<Rightarrow> 'w stack option"

definition on_stats :: "(stats_proto \<Rightarrow> stats_proto) \<Rightarrow> 'w stack \<Rightarrow> 'w stack" where
  "on_stats f st = st\<lparr>ip_stats := f (ip_stats st)\<rparr>"

definition on_bytes :: "((nat \<Rightarrow> u8) \<Rightarrow> nat \<Rightarrow> u8) \<Rightarrow> 'w stack \<Rightarrow> 'w stack" where
  "on_bytes f st = st\<lparr>bufs := (bufs st)\<lparr>bytes := f (bytes (bufs st))\<rparr>\<rparr>"

definition ip_free :: "nat \<Rightarrow> 'w stack \<Rightarrow> 'w stack option" where
  "ip_free p st = do { (_, s) \<leftarrow> pbuf_free (Some p) (bufs st); Some (st\<lparr>bufs := s\<rparr>) }"

definition netif_is_up :: "'a netif_cfg_scheme \<Rightarrow> bool" where
  "netif_is_up n \<longleftrightarrow> flags n AND NETIF_FLAG_UP \<noteq> 0"

definition netif_is_link_up :: "'a netif_cfg_scheme \<Rightarrow> bool" where
  "netif_is_link_up n \<longleftrightarrow> flags n AND NETIF_FLAG_LINK_UP \<noteq> 0"

text \<open>\<^verbatim>\<open>netif->output(netif, p, addr)\<close>\<close>

definition netif_output :: "'w ip_env \<Rightarrow> nat \<Rightarrow> nat \<Rightarrow> u32 \<Rightarrow> 'w stack \<Rightarrow> (err_t \<times> 'w stack) option" where
  "netif_output env a p addr st = do {
     n \<leftarrow> netif_at (ifs st) a;
     f \<leftarrow> nf_output n;
     case f of
       slipif_output_v4_fn \<Rightarrow> do {
         (err, w) \<leftarrow> slipif_output_v4 (UART_write env) (Some p) addr (bufs st) (rest st);
         Some (err, st\<lparr>rest := w\<rparr>)
       }
     | netif_loop_output_ipv4_fn \<Rightarrow> do {
         (err, ns, s) \<leftarrow> netif_loop_output_ipv4 a p addr (ifs st, bufs st);
         Some (err, st\<lparr>ifs := ns, bufs := s\<rparr>)
       }
   }"

subsection \<open>Routing\<close>

definition route_match :: "u32 \<Rightarrow> netif \<Rightarrow> bool" where
  "route_match dest n \<longleftrightarrow> netif_is_up n \<and> netif_is_link_up n \<and> ip_addr n \<noteq> IPADDR_ANY
     \<and> (ip4_addr_netcmp dest (ip_addr n) (netmask n) \<or> flags n AND NETIF_FLAG_BROADCAST = 0 \<and> dest = gw n)"

partial_function (option) route_loop :: "netifs \<Rightarrow> u32 \<Rightarrow> ptr \<Rightarrow> ptr option" where
  "route_loop ns dest p =
     (case p of
        None \<Rightarrow> Some None
      | Some a \<Rightarrow> Option.bind (netif_at ns a) (\<lambda>n. if route_match dest n then Some (Some a) else route_loop ns dest (nf_next n)))"

definition ip4_route :: "u32 \<Rightarrow> 'w stack \<Rightarrow> (ptr \<times> 'w stack) option" where
  "ip4_route dest st = do {
     r \<leftarrow> route_loop (ifs st) dest (netif_list (ifs st));
     case r of
       Some a \<Rightarrow> Some (Some a, st)
     | None \<Rightarrow> do {
         usable \<leftarrow> (case netif_default (ifs st) of
             None \<Rightarrow> Some False
           | Some d \<Rightarrow> do { n \<leftarrow> netif_at (ifs st) d; Some (netif_is_up n \<and> netif_is_link_up n \<and> ip_addr n \<noteq> IPADDR_ANY) });
         if \<not> usable then Some (None, on_stats (\<lambda>t. t\<lparr>ps_rterr := ps_rterr t + 1\<rparr>) st)
         else Some (netif_default (ifs st), st)
       }
   }"

subsection \<open>Forwarding\<close>

abbreviation (input) PBUF_FLAG_LLBCAST :: u8 where "PBUF_FLAG_LLBCAST \<equiv> 0x08"
abbreviation (input) PBUF_FLAG_LLMCAST :: u8 where "PBUF_FLAG_LLMCAST \<equiv> 0x10"

definition ip4_canforward :: "pbuf \<Rightarrow> u32 \<Rightarrow> bool" where
  "ip4_canforward b dest =
     (let addr = lwip_htonl dest in
      if pb_flags b AND PBUF_FLAG_LLBCAST \<noteq> 0 then False
      else if pb_flags b AND PBUF_FLAG_LLMCAST \<noteq> 0 \<and> addr AND 0xF0000000 \<noteq> 0xE0000000 then False
      else if addr AND 0xF0000000 = 0xF0000000 then False
      else if addr AND 0x80000000 = 0 then
        let net = addr AND 0xFF000000 in \<not> (net = 0 \<or> net = push_bit 24 127)
      else True)"

text \<open>The time to live is decreased by one, and the checksum adapted to this.\<close>

definition dec_ttl :: "nat \<Rightarrow> (nat \<Rightarrow> u8) \<Rightarrow> nat \<Rightarrow> u8" where
  "dec_ttl h M = M(h + 8 := IPH_TTL M h - 1)"

definition fix_chksum :: "nat \<Rightarrow> (nat \<Rightarrow> u8) \<Rightarrow> nat \<Rightarrow> u8" where
  "fix_chksum h M =
     (if ucast (IPH_CHKSUM M h) \<ge> PP_HTONS (0xFFFF - 0x100)
      then put16 (h + 10) (ucast (ucast (IPH_CHKSUM M h) + PP_HTONS 0x100 + 1)) M
      else put16 (h + 10) (ucast (ucast (IPH_CHKSUM M h) + PP_HTONS 0x100)) M)"

definition ip4_forward :: "'w ip_env \<Rightarrow> nat \<Rightarrow> nat \<Rightarrow> nat \<Rightarrow> 'w stack \<Rightarrow> 'w stack option" where
  "ip4_forward env p iphdr inp st = do {
     b \<leftarrow> pbufs (bufs st) p;
     let dest = current_iphdr_dest (ip_data st);
     if \<not> ip4_canforward b dest then Some st
     else if ip4_addr_islinklocal dest then Some st
     else do {
       (r, st) \<leftarrow> ip4_route dest st;
       case r of
         None \<Rightarrow> Some st
       | Some netif \<Rightarrow>
           if netif = inp then Some st
           else do {
             let st = on_bytes (dec_ttl iphdr) st;
             let M = bytes (bufs st);
             if IPH_TTL M iphdr = 0 then
               if IPH_PROTO M iphdr \<noteq> IP_PROTO_ICMP then icmp_time_exceeded_fn env p ICMP_TE_TTL st else Some st
             else do {
               let st = on_bytes (fix_chksum iphdr) st;
               let st = on_stats (\<lambda>t. t\<lparr>ps_fw := ps_fw t + 1\<rparr>) st;
               let st = on_stats (\<lambda>t. t\<lparr>ps_xmit := ps_xmit t + 1\<rparr>) st;
               n \<leftarrow> netif_at (ifs st) netif;
               if mtu n \<noteq> 0 \<and> pb_tot_len b > unat (mtu n) then
                 if ucast (IPH_OFFSET (bytes (bufs st)) iphdr) AND PP_HTONS IP_DF = 0
                 then do { (_, st) \<leftarrow> ip4_frag_fn env p netif dest st; Some st }
                 else icmp_dest_unreach_fn env p ICMP_DUR_FRAG st
               else do { (_, st) \<leftarrow> netif_output env netif p dest st; Some st }
             }
           }
     }
   }"

subsection \<open>Input\<close>

definition autoip_accept_packet :: "'w ip_env \<Rightarrow> nat \<Rightarrow> u32 \<Rightarrow> 'w stack \<Rightarrow> bool" where
  "autoip_accept_packet env a addr st = (case autoip_llipaddr env a (rest st) of None \<Rightarrow> False | Some x \<Rightarrow> addr = x)"

definition netif_accepts :: "'w ip_env \<Rightarrow> 'w stack \<Rightarrow> u32 \<Rightarrow> nat \<Rightarrow> netif \<Rightarrow> bool" where
  "netif_accepts env st dest a n \<longleftrightarrow> netif_is_up n \<and> ip_addr n \<noteq> IPADDR_ANY
     \<and> (dest = ip_addr n \<or> ip4_addr_isbroadcast_u32 dest n \<or> autoip_accept_packet env a dest st)"

text \<open>The search for the interface a packet that is not a multicast is meant for.\<close>

partial_function (option) accept_loop :: "'w ip_env \<Rightarrow> 'w stack \<Rightarrow> u32 \<Rightarrow> nat \<Rightarrow> bool \<Rightarrow> nat \<Rightarrow> ptr option" where
  "accept_loop env st dest inp first netif =
     Option.bind (netif_at (ifs st) netif) (\<lambda>n.
       if netif_accepts env st dest netif n then Some (Some netif)
       else if first \<and> ip4_addr_isloopback dest then Some None
       else
         let nx = (if first then netif_list (ifs st) else nf_next n) in
         Option.bind (if nx = Some inp then Option.bind (netif_at (ifs st) inp) (\<lambda>m. Some (nf_next m)) else Some nx) (\<lambda>nx.
           case nx of None \<Rightarrow> Some None | Some x \<Rightarrow> accept_loop env st dest inp False x))"

definition ip4_accept :: "'w ip_env \<Rightarrow> nat \<Rightarrow> 'w stack \<Rightarrow> ptr option" where
  "ip4_accept env inp st = do {
     let dest = current_iphdr_dest (ip_data st);
     if ip4_addr_ismulticast dest then do {
       n \<leftarrow> netif_at (ifs st) inp;
       if netif_is_up n \<and> ip_addr n \<noteq> IPADDR_ANY then Some (Some inp) else Some None
     } else accept_loop env st dest inp True inp
   }"

text \<open>A packet for this host is passed to the upper layers.\<close>

definition ip4_deliver :: "'w ip_env \<Rightarrow> nat \<Rightarrow> nat \<Rightarrow> nat \<Rightarrow> nat \<Rightarrow> nat \<Rightarrow> 'w stack \<Rightarrow> 'w stack option" where
  "ip4_deliver env p iphdr iphdr_hlen netif inp st = do {
     let st = st\<lparr>ip_data := (ip_data st)\<lparr>current_netif := Some netif, current_input_netif := Some inp, current_ip4_header := Some iphdr,
                current_ip_header_tot_len := unat (IPH_HL (bytes (bufs st)) iphdr) * 4\<rparr>\<rparr>;
     (eaten, st) \<leftarrow> raw_input_fn env p inp st;
     st \<leftarrow> (if eaten then Some st
       else do {
         (_, s) \<leftarrow> pbuf_header (Some p) (- int iphdr_hlen) (bufs st);
         let st = st\<lparr>bufs := s\<rparr>;
         let proto = IPH_PROTO (bytes (bufs st)) iphdr;
         if proto = IP_PROTO_UDP \<or> proto = IP_PROTO_UDPLITE then udp_input_fn env p inp st
         else if proto = IP_PROTO_TCP then tcp_input_fn env p inp st
         else if proto = IP_PROTO_ICMP then icmp_input_fn env p inp st
         else do {
           n \<leftarrow> netif_at (ifs st) netif;
           let dest = current_iphdr_dest (ip_data st);
           st \<leftarrow> (if \<not> ip4_addr_isbroadcast_u32 dest n \<and> \<not> ip4_addr_ismulticast dest then do {
               (_, s) \<leftarrow> pbuf_header_force (Some p) (int iphdr_hlen) (bufs st);
               s \<leftarrow> upd_pbuf p (\<lambda>b. b\<lparr>pb_payload := Some iphdr\<rparr>) s;
               icmp_dest_unreach_fn env p ICMP_DUR_PROTO (st\<lparr>bufs := s\<rparr>)
             } else Some st);
           st \<leftarrow> ip_free p st;
           Some (on_stats (\<lambda>t. t\<lparr>ps_proterr := ps_proterr t + 1, ps_drop := ps_drop t + 1\<rparr>) st)
         }
       });
     Some (st\<lparr>ip_data := \<lparr>current_netif = None, current_input_netif = None, current_ip4_header = None, current_ip_header_tot_len = 0,
                current_iphdr_src = IPADDR_ANY, current_iphdr_dest = IPADDR_ANY\<rparr>\<rparr>)
   }"

definition ip4_input :: "'w ip_env \<Rightarrow> nat \<Rightarrow> nat \<Rightarrow> 'w stack \<Rightarrow> (err_t \<times> 'w stack) option" where
  "ip4_input env p inp st = do {
     let st = on_stats (\<lambda>t. t\<lparr>ps_recv := ps_recv t + 1\<rparr>) st;
     b \<leftarrow> pbufs (bufs st) p;
     iphdr \<leftarrow> pb_payload b;
     let M = bytes (bufs st);
     if IPH_V M iphdr \<noteq> 4 then do {
       st \<leftarrow> ip_free p st;
       Some (ERR_OK, on_stats (\<lambda>t. t\<lparr>ps_err := ps_err t + 1, ps_drop := ps_drop t + 1\<rparr>) st)
     } else do {
       let iphdr_hlen = unat (IPH_HL M iphdr) * 4;
       let iphdr_len = unat (lwip_htons (IPH_LEN M iphdr));
       s \<leftarrow> (if iphdr_len < pb_tot_len b then pbuf_realloc (Some p) iphdr_len (bufs st) else Some (bufs st));
       let st = st\<lparr>bufs := s\<rparr>;
       b \<leftarrow> pbufs (bufs st) p;
       let M = bytes (bufs st);
       if iphdr_hlen > pb_len b \<or> iphdr_len > pb_tot_len b \<or> iphdr_hlen < IP_HLEN then do {
         st \<leftarrow> ip_free p st;
         Some (ERR_OK, on_stats (\<lambda>t. t\<lparr>ps_lenerr := ps_lenerr t + 1, ps_drop := ps_drop t + 1\<rparr>) st)
       } else if inet_chksum (of_nat iphdr) (rd M iphdr iphdr_hlen) \<noteq> 0 then do {
         st \<leftarrow> ip_free p st;
         Some (ERR_OK, on_stats (\<lambda>t. t\<lparr>ps_chkerr := ps_chkerr t + 1, ps_drop := ps_drop t + 1\<rparr>) st)
       } else do {
         let dest = iph_dest M iphdr;
         let src = iph_src M iphdr;
         let st = st\<lparr>ip_data := (ip_data st)\<lparr>current_iphdr_dest := dest, current_iphdr_src := src\<rparr>\<rparr>;
         netif \<leftarrow> ip4_accept env inp st;
         let (netif, check_ip_src) =
           (if netif = None \<and> IPH_PROTO M iphdr = IP_PROTO_UDP \<and> ucast (get16 M (iphdr + iphdr_hlen + 2)) = PP_HTONS 68
            then (Some inp, False) else (netif, True));
         n \<leftarrow> netif_at (ifs st) inp;
         if check_ip_src \<and> src \<noteq> IPADDR_ANY \<and> (ip4_addr_isbroadcast_u32 src n \<or> ip4_addr_ismulticast src) then do {
           st \<leftarrow> ip_free p st;
           Some (ERR_OK, on_stats (\<lambda>t. t\<lparr>ps_drop := ps_drop t + 1\<rparr>) st)
         } else case netif of
           None \<Rightarrow> do {
             st \<leftarrow> (if \<not> ip4_addr_isbroadcast_u32 dest n then ip4_forward env p iphdr inp st
                    else Some (on_stats (\<lambda>t. t\<lparr>ps_drop := ps_drop t + 1\<rparr>) st));
             st \<leftarrow> ip_free p st;
             Some (ERR_OK, st)
           }
         | Some netif \<Rightarrow>
             if ucast (IPH_OFFSET M iphdr) AND PP_HTONS (IP_OFFMASK OR IP_MF) \<noteq> 0 then do {
               (q, st) \<leftarrow> ip4_reass_fn env p st;
               case q of
                 None \<Rightarrow> Some (ERR_OK, st)
               | Some q \<Rightarrow> do {
                   b \<leftarrow> pbufs (bufs st) q;
                   iphdr \<leftarrow> pb_payload b;
                   st \<leftarrow> ip4_deliver env q iphdr iphdr_hlen netif inp st;
                   Some (ERR_OK, st)
                 }
             } else do {
               st \<leftarrow> ip4_deliver env p iphdr iphdr_hlen netif inp st;
               Some (ERR_OK, st)
             }
       }
     }
   }"

subsection \<open>Output\<close>

text \<open>The header that \<open>ip4_output_if_src\<close> writes at \<open>h\<close>; \<open>tot_len\<close> is \<^verbatim>\<open>p->tot_len\<close> and \<open>ident\<close> is \<^verbatim>\<open>ip_id\<close>.\<close>

definition ip4_write_hdr :: "nat \<Rightarrow> u32 \<Rightarrow> u32 \<Rightarrow> u8 \<Rightarrow> u8 \<Rightarrow> u8 \<Rightarrow> nat \<Rightarrow> u16 \<Rightarrow> (nat \<Rightarrow> u8) \<Rightarrow> nat \<Rightarrow> u8" where
  "ip4_write_hdr h src dest ttl tos proto tot_len ident M =
     (let M = M(h + 8 := ttl, h + 9 := proto);
          chk_sum = PP_HTONS (ucast proto OR push_bit 8 (ucast ttl)) :: u32;
          M = put32 (h + 16) dest M;
          chk_sum = chk_sum + (dest AND 0xFFFF);
          chk_sum = chk_sum + drop_bit 16 dest;
          v_hl = push_bit 4 4 OR of_nat (IP_HLEN div 4);
          M = M(h := v_hl, h + 1 := tos);
          chk_sum = chk_sum + PP_HTONS (ucast tos OR push_bit 8 (ucast v_hl));
          len = lwip_htons (of_nat tot_len);
          M = put16 (h + 2) len M;
          chk_sum = chk_sum + ucast len;
          M = put16 (h + 6) 0 M;
          M = put16 (h + 4) (lwip_htons ident) M;
          chk_sum = chk_sum + ucast (lwip_htons ident);
          M = put32 (h + 12) src M;
          chk_sum = chk_sum + (src AND 0xFFFF);
          chk_sum = chk_sum + drop_bit 16 src;
          chk_sum = drop_bit 16 chk_sum + (chk_sum AND 0xFFFF);
          chk_sum = drop_bit 16 chk_sum + chk_sum;
          chk_sum = NOT chk_sum
      in put16 (h + 10) (ucast chk_sum) M)"

text \<open>The rest of \<open>ip4_output_if_src\<close>: the packet, with its header, goes to the loopback queue, is fragmented or given to the driver.\<close>

definition ip4_transmit :: "'w ip_env \<Rightarrow> nat \<Rightarrow> u32 \<Rightarrow> nat \<Rightarrow> 'w stack \<Rightarrow> (err_t \<times> 'w stack) option" where
  "ip4_transmit env p dest netif st = do {
     let st = on_stats (\<lambda>t. t\<lparr>ps_xmit := ps_xmit t + 1\<rparr>) st;
     n \<leftarrow> netif_at (ifs st) netif;
     b \<leftarrow> pbufs (bufs st) p;
     if dest = ip_addr n then do {
       (err, ns, s) \<leftarrow> netif_loop_output netif p (ifs st, bufs st);
       Some (err, st\<lparr>ifs := ns, bufs := s\<rparr>)
     } else if mtu n \<noteq> 0 \<and> pb_tot_len b > unat (mtu n) then ip4_frag_fn env p netif dest st
     else netif_output env netif p dest st
   }"

text \<open>\<open>dest = None\<close> is \<^verbatim>\<open>LWIP_IP_HDRINCL\<close>: the packet has a header already.\<close>

definition ip4_output_if_src ::
  "'w ip_env \<Rightarrow> nat \<Rightarrow> u32 option \<Rightarrow> u32 option \<Rightarrow> u8 \<Rightarrow> u8 \<Rightarrow> u8 \<Rightarrow> nat \<Rightarrow> 'w stack \<Rightarrow> (err_t \<times> 'w stack) option" where
  "ip4_output_if_src env p src dest ttl tos proto netif st = do {
     b \<leftarrow> pbufs (bufs st) p;
     lwip_assert (pb_ref b = 1);
     case dest of
       Some dest \<Rightarrow> do {
         (r, s) \<leftarrow> pbuf_header (Some p) (int IP_HLEN) (bufs st);
         let st = st\<lparr>bufs := s\<rparr>;
         if r \<noteq> 0 then Some (ERR_BUF, on_stats (\<lambda>t. t\<lparr>ps_err := ps_err t + 1\<rparr>) st)
         else do {
           b \<leftarrow> pbufs (bufs st) p;
           iphdr \<leftarrow> pb_payload b;
           lwip_assert (pb_len b \<ge> IP_HLEN);
           let src = (case src of None \<Rightarrow> IPADDR_ANY | Some x \<Rightarrow> x);
           let st = on_bytes (ip4_write_hdr iphdr src dest ttl tos proto (pb_tot_len b) (ip_id st)) st;
           ip4_transmit env p dest netif (st\<lparr>ip_id := ip_id st + 1\<rparr>)
         }
       }
     | None \<Rightarrow> do {
         iphdr \<leftarrow> pb_payload b;
         ip4_transmit env p (iph_dest (bytes (bufs st)) iphdr) netif st
       }
   }"

definition ip4_output_if ::
  "'w ip_env \<Rightarrow> nat \<Rightarrow> u32 option \<Rightarrow> u32 option \<Rightarrow> u8 \<Rightarrow> u8 \<Rightarrow> u8 \<Rightarrow> nat \<Rightarrow> 'w stack \<Rightarrow> (err_t \<times> 'w stack) option" where
  "ip4_output_if env p src dest ttl tos proto netif st = do {
     n \<leftarrow> netif_at (ifs st) netif;
     let src_used = (if dest \<noteq> None \<and> (src = None \<or> src = Some IPADDR_ANY) then Some (ip_addr n) else src);
     ip4_output_if_src env p src_used dest ttl tos proto netif st
   }"

definition ip4_output :: "'w ip_env \<Rightarrow> nat \<Rightarrow> u32 option \<Rightarrow> u32 \<Rightarrow> u8 \<Rightarrow> u8 \<Rightarrow> u8 \<Rightarrow> 'w stack \<Rightarrow> (err_t \<times> 'w stack) option" where
  "ip4_output env p src dest ttl tos proto st = do {
     b \<leftarrow> pbufs (bufs st) p;
     lwip_assert (pb_ref b = 1);
     (netif, st) \<leftarrow> ip4_route dest st;
     case netif of
       None \<Rightarrow> Some (ERR_RTE, on_stats (\<lambda>t. t\<lparr>ps_rterr := ps_rterr t + 1\<rparr>) st)
     | Some netif \<Rightarrow> ip4_output_if env p src (Some dest) ttl tos proto netif st
   }"

end
