(* ===== verification/Ip4_Hdr.thy ===== *)
theory Ip4_Hdr
  imports Ip4
begin

text \<open>
  The IPv4 header in memory: what \<open>ip4_output_if_src\<close> writes is a header with the given fields and a checksum that verifies, and the update of
  the time to live and of the checksum when a packet is forwarded keeps the header valid.
\<close>

section \<open>Words in memory\<close>

lemma load_mem [simp]: "load16 (ucast w) (ucast (drop_bit 8 (w :: u16))) = w"
  "load32 (ucast v) (ucast (drop_bit 8 v)) (ucast (drop_bit 16 v)) (ucast (drop_bit 24 (v :: u32))) = v"
proof -
  show l: "load16 (ucast w) (ucast (drop_bit 8 w)) = w" for w :: u16
    unfolding word_unat_eq_iff unat_load16 using wsum_mem16 [of w] by (simp add: mem16_def)
  have "unat v div 16777216 < 256" using unat_u32_less [of v] by linarith
  then have "unat (load32 (ucast v) (ucast (drop_bit 8 v)) (ucast (drop_bit 16 v)) (ucast (drop_bit 24 v))) = unat v"
    using bytes4_join [of "unat v"] by (simp add: unat_load32 unat_load16 unat_drop_bit_word)
  then show "load32 (ucast v) (ucast (drop_bit 8 v)) (ucast (drop_bit 16 v)) (ucast (drop_bit 24 v)) = v" by (simp add: word_unat_eq_iff)
qed

lemma wsum_load16: "wsum False [a, b] = unat (load16 a b)"
  by (simp add: unat_load16)

lemma unat_be32: "unat (ucast b OR push_bit 8 (ucast a) :: u32) = 256 * unat (a :: u8) + unat (b :: u8)"
proof -
  have "ucast b AND (push_bit 8 (ucast a) :: u32) = 0"
    by (rule bit_word_eqI) (auto simp: bit_simps dest: bit_imp_le_length)
  moreover have "unat a * 256 < 4294967296" using unat_u8_less [of a] by linarith
  ultimately show ?thesis by (simp add: unat_or_disjoint unat_push_bit_word)
qed

lemma unat_swapped: "unat (PP_HTONS (ucast b OR push_bit 8 (ucast a))) = wsum False [a, b :: u8]"
  by (simp add: unat_PP_HTONS unat_be32)


section \<open>The header written for sending\<close>

text \<open>The header of RFC 791 without options, with the checksum \<open>c\<close> as it stands in memory.\<close>

definition ip4_header :: "u16 \<Rightarrow> u32 \<Rightarrow> u32 \<Rightarrow> u8 \<Rightarrow> u8 \<Rightarrow> u8 \<Rightarrow> u16 \<Rightarrow> u16 \<Rightarrow> u8 list" where
  "ip4_header c src dest ttl tos proto len ident =
     [0x45, tos] @ net16 len @ net16 ident @ [0, 0, ttl, proto] @ mem16 c @ mem32 src @ mem32 dest"

definition ip4_datagram_header :: "u32 \<Rightarrow> u32 \<Rightarrow> u8 \<Rightarrow> u8 \<Rightarrow> u8 \<Rightarrow> u16 \<Rightarrow> u16 \<Rightarrow> u8 list" where
  "ip4_datagram_header src dest ttl tos proto len ident =
     ip4_header (inet_checksum_of (ip4_header 0 src dest ttl tos proto len ident)) src dest ttl tos proto len ident"

lemma length_ip4_header [simp]: "length (ip4_header c src dest ttl tos proto len ident) = 20"
  "length (ip4_datagram_header src dest ttl tos proto len ident) = 20"
  by (simp_all add: ip4_header_def ip4_datagram_header_def net16_def mem16_def mem32_def)

lemma mem16_0: "mem16 0 = [0, 0]"
  by (simp add: mem16_def)

lemma ip4_header_verifies: "inet_checksum_of (ip4_datagram_header src dest ttl tos proto len ident) = 0"
  using inet_checksum_verifies [of "[0x45, tos] @ net16 len @ net16 ident @ [0, 0, ttl, proto]" "mem32 src @ mem32 dest"]
  by (simp add: ip4_datagram_header_def ip4_header_def mem16_0) (simp add: net16_def)

text \<open>The inline checksum is the checksum of the header.\<close>

lemma unat_ucast_fold: "unat (ucast (drop_bit 16 (FOLD_U32T u) + FOLD_U32T u) :: u16) = oc (unat u)"
proof -
  let ?f = "FOLD_U32T u"
  have le: "unat ?f \<le> 131070" by (rule FOLD_le2)
  have "unat (drop_bit 16 ?f + ?f) = unat ?f div 65536 + unat ?f"
    using le by (simp add: unat_add_u32 unat_drop_bit_word)
  moreover have "(unat ?f div 65536 + unat ?f) mod 65536 = unat ?f div 65536 + unat ?f mod 65536"
  proof (cases "unat ?f < 65536")
    case False
    with le obtain r where r: "unat ?f = 65536 + r" "r \<le> 65534" using le_Suc_ex [of 65536 "unat ?f"] by auto
    then have "(65536 + r) div 65536 = 1" by (simp add: div_add_self1)
    moreover have "(65536 + (r + 1)) mod 65536 = r + 1" using r(2) by (simp only: mod_add_self1 mod_less)
    ultimately show ?thesis using r by (simp add: ac_simps)
  qed simp
  ultimately show ?thesis using FOLD2_eq [of u] by (simp add: unat_FOLD [of ?f])
qed

lemma ucast_NOT_u16: "ucast (NOT (u :: u32)) = (NOT (ucast u) :: u16)"
  by (rule bit_word_eqI) (auto simp: bit_simps)

lemma inline_chksum:
  assumes "unat (u :: u32) = wsum False octets"
  shows "(ucast (NOT (drop_bit 16 (drop_bit 16 u + (u AND 0xFFFF)) + (drop_bit 16 u + (u AND 0xFFFF)))) :: u16) = inet_checksum_of octets"
  using inet_checksum_of_unat [of "ucast (drop_bit 16 (FOLD_U32T u) + FOLD_U32T u)" octets] unat_ucast_fold [of u] assms
  by (simp add: ucast_NOT_u16 FOLD_U32T_def)

lemma unat_sum8:
  assumes "unat a < 65536" "unat b < 65536" "unat c < 65536" "unat d < 65536" "unat e < 65536" "unat f < 65536" "unat g < 65536" "unat h < 65536"
  shows "unat (a + b + c + d + e + f + g + h :: u32) = unat a + unat b + unat c + unat d + unat e + unat f + unat g + unat h"
  using assms by (simp add: unat_add_u32_small)

lemma inline_sum:
  "unat (PP_HTONS (ucast proto OR push_bit 8 (ucast ttl)) + (dest AND 0xFFFF) + drop_bit 16 dest
      + PP_HTONS (ucast tos OR push_bit 8 (ucast (0x45 :: u8))) + ucast (lwip_htons len) + ucast (lwip_htons ident)
      + (src AND 0xFFFF) + drop_bit 16 src :: u32) = wsum False (ip4_header 0 src dest ttl tos proto len ident)"
    (is "unat (?a + ?b + ?c + ?d + ?e + ?f + ?g + ?h) = _")
proof -
  have hi: "unat (drop_bit 16 v) = unat v div 65536" "unat v div 65536 < 65536" for v :: u32
    using unat_u32_less [of v] by (simp add: unat_drop_bit_word, linarith)
  have pair: "wsum False [x, y] < 65536" for x y :: u8 unfolding wsum_load16 by simp
  have "unat (?a + ?b + ?c + ?d + ?e + ?f + ?g + ?h) = unat ?a + unat ?b + unat ?c + unat ?d + unat ?e + unat ?f + unat ?g + unat ?h"
    by (rule unat_sum8) (simp_all only: unat_swapped pair hi unat_and_FFFF unat_ucast_u16_u32 unat_u16_less mod_less_divisor zero_less_numeral)
  also have "\<dots> = wsum False [ttl, proto] + unat dest mod 65536 + unat dest div 65536 + wsum False [0x45, tos] + unat (lwip_htons len)
      + unat (lwip_htons ident) + unat src mod 65536 + unat src div 65536"
    by (simp only: unat_swapped hi unat_and_FFFF unat_ucast_u16_u32)
  also have "\<dots> = wsum False [0x45, tos] + (unat (lwip_htons len) + (unat (lwip_htons ident) + (wsum False [ttl, proto]
        + ((unat src mod 65536 + unat src div 65536) + (unat dest mod 65536 + unat dest div 65536)))))" by simp
  also have "\<dots> = wsum False (ip4_header 0 src dest ttl tos proto len ident)"
    by (simp only: ip4_header_def wsum_append wsum_net16 [symmetric] wsum_mem32 [symmetric]) (simp add: net16_def mem16_def mem32_def)
  finally show ?thesis .
qed

text \<open>A function on memory that writes \<open>zs\<close> at \<open>h\<close> and nothing else.\<close>

lemma eq_wrI:
  assumes "list_all (\<lambda>k. f (h + k) = zs ! k) [0..<length zs]" "\<And>x. x < h \<or> h + length zs \<le> x \<Longrightarrow> f x = M x"
  shows "f = wr M h zs"
proof
  fix x show "f x = wr M h zs x"
  proof (cases "h \<le> x \<and> x < h + length zs")
    case True
    then have "x - h \<in> set [0..<length zs]" by auto
    with assms(1) have "f (h + (x - h)) = zs ! (x - h)" unfolding list_all_iff by blast
    with True show ?thesis by (simp add: wr_def)
  next
    case False
    with assms(2) [of x] show ?thesis by (auto simp: wr_def)
  qed
qed

lemma mem16_htons: "mem16 (lwip_htons w) = net16 w"
proof -
  have "unat w div 256 < 256" using unat_u16_less [of w] by linarith
  then show ?thesis by (simp add: mem16_def net16_def word_unat_eq_iff unat_drop_bit_word unat_lwip_htons)
qed

lemma ip4_write_hdr_eq:
  "ip4_write_hdr h src dest ttl tos proto tot_len ident M = wr M h (ip4_datagram_header src dest ttl tos proto (of_nat tot_len) ident)"
proof -
  have vhl: "(push_bit 4 4 OR of_nat (20 div 4) :: u8) = 0x45" by simp
  define l where "l = (of_nat tot_len :: u16)"
  define c where "c = inet_checksum_of (ip4_header 0 src dest ttl tos proto l ident)"
  have "ip4_write_hdr h src dest ttl tos proto tot_len ident M =
     wr (wr (wr (wr (wr ((wr (M(h + 8 := ttl, h + 9 := proto)) (h + 16) (mem32 dest))(h := 0x45, h + 1 := tos))
       (h + 2) (net16 l)) (h + 6) [0, 0]) (h + 4) (net16 ident)) (h + 12) (mem32 src)) (h + 10) (mem16 c)"
    unfolding ip4_write_hdr_def Let_def vhl inline_chksum [OF inline_sum] c_def [symmetric] l_def [symmetric]
      put16_def put32_def mem16_htons mem16_0 ..
  also have "\<dots> = wr M h (ip4_header c src dest ttl tos proto l ident)"
  proof (rule eq_wrI)
    let ?f = "wr (wr (wr (wr (wr ((wr (M(h + 8 := ttl, h + 9 := proto)) (h + 16) (mem32 dest))(h := 0x45, h + 1 := tos))
       (h + 2) (net16 l)) (h + 6) [0, 0]) (h + 4) (net16 ident)) (h + 12) (mem32 src)) (h + 10) (mem16 c)"
    show "list_all (\<lambda>k. ?f (h + k) = ip4_header c src dest ttl tos proto l ident ! k) [0..<length (ip4_header c src dest ttl tos proto l ident)]"
      by (simp add: ip4_header_def mem32_def net16_def mem16_def upt_rec wr_def)
    fix x assume "x < h \<or> h + length (ip4_header c src dest ttl tos proto l ident) \<le> x"
    then have x: "x < h \<or> h + 20 \<le> x" by simp
    then have "wr N (h + i) zs x = N x" if "i + length zs \<le> 20" for N i zs using that by (auto simp: wr_def)
    then show "?f x = M x" using x by (auto simp: mem32_def net16_def mem16_def simp del: add_2_eq_Suc')
  qed
  finally show ?thesis by (simp add: ip4_datagram_header_def c_def l_def)
qed

text \<open>The fields of a header in memory.\<close>

definition has_header :: "(nat \<Rightarrow> u8) \<Rightarrow> nat \<Rightarrow> u32 \<Rightarrow> u32 \<Rightarrow> u8 \<Rightarrow> u8 \<Rightarrow> u8 \<Rightarrow> u16 \<Rightarrow> u16 \<Rightarrow> bool" where
  "has_header M h src dest ttl tos proto len ident \<longleftrightarrow> rd M h IP_HLEN = ip4_datagram_header src dest ttl tos proto len ident"

lemma rd_nth: "rd M a n = zs \<Longrightarrow> i < n \<Longrightarrow> M (a + i) = zs ! i"
  by auto

lemma header_fields:
  assumes "has_header M h src dest ttl tos proto len ident"
  shows "IPH_V M h = 4" "IPH_HL M h = 5" "lwip_htons (IPH_LEN M h) = len" "IPH_OFFSET M h = 0" "IPH_TTL M h = ttl" "IPH_PROTO M h = proto"
    "iph_src M h = src" "iph_dest M h = dest" "inet_chksum a (rd M h IP_HLEN) = 0"
proof -
  have hdr: "rd M h 20 = ip4_datagram_header src dest ttl tos proto len ident" using assms by (simp add: has_header_def)
  have at: "M (h + i) = ip4_datagram_header src dest ttl tos proto len ident ! i" if "i < 20" for i by (rule rd_nth [OF hdr that])
  note nth = ip4_datagram_header_def ip4_header_def net16_def mem16_def mem32_def
  have v: "M h = 0x45" using at [of 0] by (simp add: nth)
  show "IPH_V M h = 4" "IPH_HL M h = 5" by (simp_all add: IPH_V_def IPH_HL_def v)
  show "IPH_TTL M h = ttl" "IPH_PROTO M h = proto" using at [of 8] at [of 9] by (simp_all add: IPH_TTL_def IPH_PROTO_def nth)
  have "M (h + 6) = 0" "M (7 + h) = 0" using at [of 6] at [of 7] by (simp_all add: nth add.commute)
  then show "IPH_OFFSET M h = 0" by (simp add: IPH_OFFSET_def get16_def load16_def set_byte0_def set_byte1_def)
  show "iph_src M h = src" "iph_dest M h = dest"
    using at [of 12] at [of 13] at [of 14] at [of 15] at [of 16] at [of 17] at [of 18] at [of 19]
    by (simp_all add: iph_src_def iph_dest_def get32_def nth ac_simps)
  have "load16 (ucast (drop_bit 8 len)) (ucast len) = lwip_htons len"
    using load_mem(1) [of "lwip_htons len"] mem16_htons [of len] unfolding mem16_def net16_def by (metis list.inject)
  then have "IPH_LEN M h = lwip_htons len"
    using at [of 2] at [of 3, unfolded numeral_3_eq_3] by (simp add: IPH_LEN_def get16_def nth ac_simps)
  then show "lwip_htons (IPH_LEN M h) = len" by simp
  show "inet_chksum a (rd M h 20) = 0" unfolding hdr by (simp add: inet_chksum_eq ip4_header_verifies)
qed

section \<open>Forwarding keeps the header valid\<close>

lemma wsum_split4:
  assumes "length us = 8"
  shows "wsum False (us @ [a, b] @ [c, d] @ vs) = wsum False us + unat (load16 a b) + unat (load16 c d) + wsum False vs"
  using assms by (simp add: wsum_append unat_load16)

text \<open>A header whose checksum verifies; \<open>n\<close> is its length.\<close>

definition header_ok :: "(nat \<Rightarrow> u8) \<Rightarrow> nat \<Rightarrow> nat \<Rightarrow> bool" where
  "header_ok M h n \<longleftrightarrow> inet_checksum_of (rd M h n) = 0"

lemma checksum_zero_iff: "inet_checksum_of xs = 0 \<longleftrightarrow> wsum False xs mod 65535 = 0 \<and> wsum False xs \<noteq> 0"
proof -
  let ?w = "wsum False xs"
  have "inet_checksum_of xs = 0 \<longleftrightarrow> unat (inet_checksum_of xs) = 0" by (simp add: unat_eq_0)
  also have "\<dots> \<longleftrightarrow> 65535 - oc ?w = 0" by (simp add: inet_checksum_of_def unat_NOT_u16 unat_htons_inet_sum)
  also have "\<dots> \<longleftrightarrow> oc ?w = 65535" using oc_le [of ?w] by auto
  also have "\<dots> \<longleftrightarrow> oc_eq 65535 ?w" using oc_unique [of 65535 ?w] oc_eq_oc [of ?w] by auto
  also have "\<dots> \<longleftrightarrow> ?w mod 65535 = 0 \<and> ?w \<noteq> 0" by (auto simp: oc_eq_def)
  finally show ?thesis .
qed

lemma header_ok_iff: "header_ok M h n \<longleftrightarrow> wsum False (rd M h n) mod 65535 = 0 \<and> wsum False (rd M h n) \<noteq> 0"
  by (simp add: header_ok_def checksum_zero_iff)

lemma fix_chksum_eq:
  "fix_chksum h M = put16 (h + 10) (if unat (IPH_CHKSUM M h) < 65534 then of_nat (unat (IPH_CHKSUM M h) + 1) else of_nat (unat (IPH_CHKSUM M h) - 65534)) M"
proof -
  define c where "c = IPH_CHKSUM M h"
  have "(PP_HTONS (0xFFFF - 0x100) :: u32) = 0xFFFE" "(PP_HTONS 0x100 :: u32) = 1" by (simp_all add: PP_HTONS_def)
  moreover have "(ucast c :: u32) \<ge> 0xFFFE \<longleftrightarrow> \<not> unat c < 65534" by (simp add: word_le_nat_alt not_less)
  moreover have "(ucast (ucast c + 1 :: u32) :: u16) = of_nat (unat c + 1)"
    by (simp add: word_unat_eq_iff unat_add_u32 unat_u16_of_nat unat_add_u16 mod_mod_cancel)
  moreover have "(ucast (ucast c + 1 + 1 :: u32) :: u16) = of_nat (unat c - 65534)" if "\<not> unat c < 65534"
  proof -
    have "unat c = 65534 \<or> unat c = 65535" using that unat_u16_less [of c] by linarith
    then show ?thesis by (auto simp: word_unat_eq_iff unat_add_u32 unat_u16_of_nat)
  qed
  ultimately show ?thesis unfolding fix_chksum_def c_def [symmetric] by simp
qed

text \<open>Decreasing the time to live and adapting the checksum leaves a valid header valid, if the time to live was not zero.\<close>

lemma rd_header_split:
  assumes "20 \<le> n"
  shows "rd M h n = rd M h 8 @ [M (h + 8), M (h + 9)] @ [M (h + 10), M (h + 11)] @ rd M (h + 12) (n - 12)"
proof -
  have "rd M h n = rd M h 8 @ rd M (h + 8) (n - 8)" using assms by (intro rd_split) simp
  also have "rd M (h + 8) (n - 8) = rd M (h + 8) 4 @ rd M (h + 8 + 4) (n - 8 - 4)" using assms by (intro rd_split) simp
  also have "rd M (h + 8) 4 = [M (h + 8), M (h + 9), M (h + 10), M (h + 11)]" by (simp add: rd_def upt_rec ac_simps)
  finally show ?thesis by (simp add: ac_simps)
qed

lemma forward_header_ok:
  assumes ok: "header_ok M h n" "20 \<le> n" and ttl: "IPH_TTL M h \<noteq> 0" and v: "IPH_V M h \<noteq> 0"
  shows "header_ok (fix_chksum h (dec_ttl h M)) h n" "IPH_TTL (fix_chksum h (dec_ttl h M)) h = IPH_TTL M h - 1"
    "x \<notin> {h + 8, h + 10, h + 11} \<Longrightarrow> fix_chksum h (dec_ttl h M) x = M x"
proof -
  define M1 where "M1 = dec_ttl h M"
  define c where "c = IPH_CHKSUM M h"
  have c1: "IPH_CHKSUM M1 h = c" by (simp add: M1_def c_def dec_ttl_def IPH_CHKSUM_def get16_def)
  define c' where "c' = (if unat c < 65534 then of_nat (unat c + 1) else of_nat (unat c - 65534) :: u16)"
  define M2 where "M2 = fix_chksum h M1"
  have M2: "M2 = wr M1 (h + 10) (mem16 c')" unfolding M2_def fix_chksum_eq c1 c'_def put16_def ..
  have c': "(unat c' = unat c + 1 \<and> unat c < 65534) \<or> (unat c = 65534 \<and> unat c' = 0) \<or> (unat c = 65535 \<and> unat c' = 1)"
  proof (cases "unat c < 65534")
    case False
    have "unat c' = (unat c - 65534) mod 65536" unfolding c'_def by (subst if_not_P [OF False], rule unat_u16_of_nat)
    moreover have "unat c = 65534 \<or> unat c = 65535" using False unat_u16_less [of c] by linarith
    ultimately show ?thesis by auto
  next
    case True
    have "unat c' = (unat c + 1) mod 65536" unfolding c'_def by (subst if_P [OF True], rule unat_u16_of_nat)
    with True show ?thesis by simp
  qed
  have at: "M2 (h + 8) = M (h + 8) - 1" "M2 (h + 9) = M (h + 9)" "load16 (M2 (h + 10)) (M2 (h + 11)) = c'"
    by (simp_all add: M2 M1_def dec_ttl_def IPH_TTL_def wr_def mem16_def)
  have out: "M2 x = M x" if "x \<notin> {h + 8, h + 10, h + 11}" for x using that by (auto simp: M2 M1_def dec_ttl_def wr_def mem16_def)
  then have "rd M2 h 8 = rd M h 8" "rd M2 (h + 12) (n - 12) = rd M (h + 12) (n - 12)" by (auto simp: rd_def)
  note s2 = rd_header_split [OF ok(2), of M2 h, unfolded this] and s = rd_header_split [OF ok(2), of M h]
  let ?A = "wsum False (rd M h 8)" and ?B = "wsum False (rd M (h + 12) (n - 12))"
  have w: "wsum False (rd M h n) = ?A + (unat (M (h + 8)) + 256 * unat (M (h + 9))) + unat c + ?B"
    unfolding s by (subst wsum_split4) (simp_all add: unat_load16 c_def IPH_CHKSUM_def get16_def ac_simps)
  have t: "unat (M (h + 8) - 1) = unat (M (h + 8)) - 1" "0 < unat (M (h + 8))"
    using ttl by (simp_all add: IPH_TTL_def unat_gt_0 unat_minus_one)
  have w2: "wsum False (rd M2 h n) = ?A + (unat (M (h + 8)) - 1 + 256 * unat (M (h + 9))) + unat c' + ?B"
    unfolding s2 by (subst wsum_split4) (simp_all add: at unat_load16 [of "M (h + 8) - 1"] t(1))
  have "wsum False (rd M2 h n) + 65535 = wsum False (rd M h n) \<or> wsum False (rd M2 h n) = wsum False (rd M h n)"
    using c' t(2) unfolding w w2 by linarith
  moreover have "M h \<noteq> 0" using v by (auto simp: IPH_V_def)
  then have "0 < ?A" by (simp add: rd_def upt_rec unat_gt_0)
  then have "0 < wsum False (rd M2 h n)" unfolding w2 by simp
  ultimately show "header_ok (fix_chksum h (dec_ttl h M)) h n" using ok(1) unfolding header_ok_iff M2_def [symmetric] M1_def [symmetric]
    by (metis mod_add_self2 less_irrefl)
  show "IPH_TTL (fix_chksum h (dec_ttl h M)) h = IPH_TTL M h - 1" using at(1) by (simp add: M2_def M1_def IPH_TTL_def)
  show "x \<notin> {h + 8, h + 10, h + 11} \<Longrightarrow> fix_chksum h (dec_ttl h M) x = M x" using out by (simp add: M2_def M1_def)
qed

end
