(* ===== verification/Packet.thy ===== *)
theory Packet
  imports Netif_Loop
begin

text \<open>
  Packets on their way through the layers: putting a header in front of a packet that is sent (\<open>pbuf_header\<close> with a positive argument, then
  writes through the payload pointer) and taking it off a packet that was received. The protocol layers share these lemmas.
\<close>

section \<open>Chains with a changed first pbuf\<close>

text \<open>The first pbuf of a chain gets a new length; the rest of the chain is as before.\<close>

lemma chain_head_resized:
  assumes "chain P (Some p) (p # xs)" "P p = Some b" and b': "pb_next b' = pb_next b" "pb_tot_len b' = pb_len b' + chain_len P xs"
  shows "chain (P(p \<mapsto> b')) (Some p) (p # xs)"
proof -
  have p: "p \<notin> set xs" using chain_distinct [OF assms(1)] by simp
  then have "chain_len (P(p \<mapsto> b')) xs = chain_len P xs" by (rule chain_len_upd_other)
  moreover have "chain P (pb_next b) xs" using assms(1,2) by (simp add: chain_Cons)
  then have "chain (P(p \<mapsto> b')) (pb_next b) xs" by (rule chain_agree(1) [rotated]) (use p in auto)
  ultimately show ?thesis using b' by (simp add: chain_Cons plen_def)
qed

lemma chain_data_upd_other: "p \<notin> set xs \<Longrightarrow> chain_data (P(p := v)) M xs = chain_data P M xs"
  by (rule chain_data_cong) (auto simp: same_data_def)

section \<open>Sending\<close>

text \<open>A packet with the data \<open>D\<close> that is to be sent, with \<open>k\<close> bytes left for headers in front. The caller keeps its references.\<close>

definition tx_packet :: "(nat \<Rightarrow> nat) \<Rightarrow> nat \<Rightarrow> nat \<Rightarrow> u8 list \<Rightarrow> net \<Rightarrow> bool" where
  "tx_packet E p k D s \<longleftrightarrow> net_ok E s \<and> length D + k < 65536 \<and> (\<exists>xs b pl. chain (pbufs s) (Some p) xs \<and> own_memory (pbufs s) xs
     \<and> pbufs s p = Some b \<and> pb_ref b = 1 \<and> pb_payload b = Some pl \<and> p + SIZEOF_STRUCT_PBUF + k \<le> pl \<and> chain_data (pbufs s) (bytes s) xs = D)"

lemma tx_packetI:
  "\<lbrakk>net_ok E s; length D + k < 65536; chain (pbufs s) (Some p) xs; own_memory (pbufs s) xs; pbufs s p = Some b; pb_ref b = 1; pb_payload b = Some pl;
    p + 16 + k \<le> pl; chain_data (pbufs s) (bytes s) xs = D\<rbrakk> \<Longrightarrow> tx_packet E p k D s"
  unfolding tx_packet_def by blast

lemma tx_packetE:
  assumes "tx_packet E p k D s"
  obtains xs b pl where "net_ok E s" "chain (pbufs s) (Some p) (p # xs)" "own_memory (pbufs s) (p # xs)" "pbufs s p = Some b" "pb_ref b = 1"
    "pb_payload b = Some pl" "p + 16 + k \<le> pl" "chain_data (pbufs s) (bytes s) (p # xs) = D" "pb_tot_len b = length D" "pb_len b \<le> pb_tot_len b"
    "pb_type b = PBUF_RAM \<or> pb_type b = PBUF_POOL"
proof -
  from assms obtain ys b pl where a: "net_ok E s" "chain (pbufs s) (Some p) ys" "own_memory (pbufs s) ys" "pbufs s p = Some b" "pb_ref b = 1"
    "pb_payload b = Some pl" "p + 16 + k \<le> pl" "chain_data (pbufs s) (bytes s) ys = D" by (auto simp: tx_packet_def)
  from a(2) obtain xs where xs: "ys = p # xs" by (cases ys) (auto simp: chain_Cons)
  have "pbuf_inv s" using a(1) by (simp add: net_ok_def)
  then have "chain_len (pbufs s) ys = length D" using length_chain_data [OF own_payloads] a(3,8) by metis
  moreover have "pb_tot_len b = chain_len (pbufs s) ys" "pb_len b \<le> pb_tot_len b" using a(2,4) xs by (auto simp: chain_Cons plen_def)
  moreover have "pb_type b = PBUF_RAM \<or> pb_type b = PBUF_POOL" using a(3,4) xs by auto
  ultimately show ?thesis using a unfolding xs by (intro that [of xs b pl]) simp_all
qed

lemma tx_prepend:
  assumes tx: "tx_packet E p k D s" and n: "0 < n" "n \<le> k" "n \<le> 32767"
  shows "\<exists>s1 b pl. pbuf_header (Some p) (int n) s = Some (0, s1) \<and> pbufs s1 p = Some b \<and> pb_ref b = 1 \<and> pb_payload b = Some pl \<and> n \<le> pb_len b
    \<and> pb_tot_len b = length D + n \<and> bytes s1 = bytes s
    \<and> (\<forall>zs. length zs = n \<longrightarrow> tx_packet E p (k - n) (zs @ D) (s1\<lparr>bytes := wr (bytes s1) pl zs\<rparr>))"
proof -
  from tx obtain xs b pl where a: "net_ok E s" "chain (pbufs s) (Some p) (p # xs)" "own_memory (pbufs s) (p # xs)" "pbufs s p = Some b" "pb_ref b = 1"
    "pb_payload b = Some pl" "p + 16 + k \<le> pl" "chain_data (pbufs s) (bytes s) (p # xs) = D" "pb_tot_len b = length D" "pb_len b \<le> pb_tot_len b"
    "pb_type b = PBUF_RAM \<or> pb_type b = PBUF_POOL" by (rule tx_packetE)
  have len: "length D + k < 65536" using tx by (simp add: tx_packet_def)
  let ?b = "b\<lparr>pb_payload := Some (pl - n), pb_len := pb_len b + n, pb_tot_len := pb_tot_len b + n\<rparr>"
  let ?s = "put_pbuf p ?b s"
  have room: "p + 16 + n \<le> pl" using a(7) n(2) by simp
  have "pb_tot_len b + n < 65536" using a(9) len n(2) by simp
  note rev = pbuf_header_reveal [OF a(1,4,6,11) n(1,3) a(10) this]
  have hd: "pbuf_header (Some p) (int n) s = Some (0, ?s)" using rev(1) [OF room] by (simp add: pbuf_header_def)
  have ok: "net_ok E ?s" by (rule rev(2) [OF room])
  have ch: "chain (pbufs ?s) (Some p) (p # xs)"
    using chain_head_resized [OF a(2,4), of ?b] a(2,4) by (simp add: chain_Cons plen_def)
  have own: "own_memory (pbufs ?s) (p # xs)" using a(3,4) by (auto simp: own_memory_def is_custom_def)
  have p: "p \<notin> set xs" using chain_distinct [OF a(2)] by simp
  have "tx_packet E p (k - n) (zs @ D) (?s\<lparr>bytes := wr (bytes ?s) (pl - n) zs\<rparr>)" if zs: "length zs = n" for zs
  proof -
    let ?M = "wr (bytes s) (pl - n) zs"
    have inv: "pbuf_inv ?s" using ok by (simp add: net_ok_def)
    have sep: "separate (pbufs ?s) ([] @ p # xs)" "payloads (\<lambda>_ _. True) (pbufs ?s) ([] @ p # xs)"
      using own_separate [OF inv own chain_distinct [OF ch]] own_payloads [OF inv own] by simp_all
    have other: "chain_data (pbufs ?s) M xs = chain_data (pbufs s) M xs" for M using chain_data_upd_other [OF p] by simp
    have pl: "rd (bytes s) (pl - n) (pb_len b + n) = rd (bytes s) (pl - n) n @ rd (bytes s) pl (pb_len b)"
      using room rd_split [of n "pb_len b + n" "bytes s" "pl - n"] by simp
    have all: "chain_data (pbufs ?s) (bytes s) (p # xs) = rd (bytes s) (pl - n) n @ D"
      using a(4,6,8) pl other by (simp add: pbytes_def)
    have "chain_data (pbufs ?s) ?M (p # xs) = zs @ drop n (chain_data (pbufs ?s) (bytes s) (p # xs))"
      using chain_data_write(1) [OF sep, of ?b "pl - n" 0 zs 0 "bytes s"] zs by simp
    also have "\<dots> = zs @ D" unfolding all by simp
    finally have "chain_data (pbufs ?s) ?M (p # xs) = zs @ D" .
    then show ?thesis using ok ch own a(5,7) room n(2) len zs
      by (intro tx_packetI [of _ _ _ _ _ "p # xs" ?b "pl - n"]) (simp_all del: fun_upd_apply chain_data_simps add: fun_upd_same)
  qed
  with hd a(5,9) show ?thesis by (intro exI [of _ ?s] exI [of _ ?b] exI [of _ "pl - n"]) simp
qed

text \<open>A sent packet on the serial line.\<close>

lemma tx_slip_output:
  assumes "uart_ok UART_write line" "tx_packet E p k D s"
  shows "\<exists>w'. slipif_output_v4 UART_write (Some p) addr s w = Some (ERR_OK, w') \<and> line w' = line w @ slip_frame D"
proof -
  from assms(2) obtain xs where xs: "net_ok E s" "chain (pbufs s) (Some p) xs" "own_memory (pbufs s) xs" "chain_data (pbufs s) (bytes s) xs = D"
    by (auto simp: tx_packet_def)
  then have "payloads (\<lambda>_ _. True) (pbufs s) xs" by (intro own_payloads) (simp_all add: net_ok_def)
  from slipif_output_line [OF assms(1) _ this, of p] xs show ?thesis by (auto simp: slipif_output_v4_def chain_def)
qed

section \<open>Receiving\<close>

lemma packetI:
  "\<lbrakk>net_ok (E(p := 1)) s; E p = 0; ref_of s p = 1; chain (pbufs s) (Some p) xs; own_memory (pbufs s) xs; chain_data (pbufs s) (bytes s) xs = D\<rbrakk> \<Longrightarrow> packet E p D s"
  unfolding packet_def by blast

lemma packetE:
  assumes "packet E p D s"
  obtains xs b pl where "net_ok (E(p := 1)) s" "E p = 0" "chain (pbufs s) (Some p) (p # xs)" "own_memory (pbufs s) (p # xs)" "pbufs s p = Some b"
    "pb_payload b = Some pl" "p + 16 \<le> pl" "chain_data (pbufs s) (bytes s) (p # xs) = D" "pb_tot_len b = length D" "pb_len b \<le> pb_tot_len b"
    "pb_type b = PBUF_RAM \<or> pb_type b = PBUF_POOL" "rd (bytes s) pl (pb_len b) = take (pb_len b) D"
    "pb_ref b = 1"
proof -
  from assms obtain ys where a: "net_ok (E(p := 1)) s" "E p = 0" "chain (pbufs s) (Some p) ys" "own_memory (pbufs s) ys" "chain_data (pbufs s) (bytes s) ys = D"
    by (auto simp: packet_def)
  from a(3) obtain xs where xs: "ys = p # xs" by (cases ys) (auto simp: chain_Cons)
  have inv: "pbuf_inv s" using a(1) by (simp add: net_ok_def)
  then have "chain_len (pbufs s) ys = length D" using length_chain_data [OF own_payloads] a(4,5) by metis
  moreover have "own_memory (pbufs s) [p]" using a(4) xs by simp
  then obtain b pl where b: "pbufs s p = Some b" "pb_payload b = Some pl" "p + 16 \<le> pl" by (rule own_payload [OF inv])
  moreover have "pb_tot_len b = chain_len (pbufs s) ys" "pb_len b \<le> pb_tot_len b" using a(3) b(1) xs by (auto simp: chain_Cons plen_def)
  moreover have "pb_type b = PBUF_RAM \<or> pb_type b = PBUF_POOL" using a(4) b(1) xs by auto
  moreover have "D = rd (bytes s) pl (pb_len b) @ chain_data (pbufs s) (bytes s) xs" using a(5) xs b by (simp add: pbytes_def)
  then have "rd (bytes s) pl (pb_len b) = take (pb_len b) D" by simp
  moreover have "pb_ref b = 1" using assms b(1) by (simp add: packet_def ref_of_def)
  ultimately show ?thesis using a unfolding xs by (intro that [of xs b pl]) simp_all
qed

text \<open>Taking off a header.\<close>

lemma packet_hide:
  assumes pk: "packet E p D s" "length D < 65536" and b: "pbufs s p = Some b" "pb_payload b = Some pl" and n: "0 < n" "n \<le> pb_len b" "n \<le> 32768"
  shows "pbuf_header (Some p) (- int n) s = Some (0, put_pbuf p (b\<lparr>pb_payload := Some (pl + n), pb_len := pb_len b - n, pb_tot_len := pb_tot_len b - n\<rparr>) s)"
    and "packet E p (drop n D) (put_pbuf p (b\<lparr>pb_payload := Some (pl + n), pb_len := pb_len b - n, pb_tot_len := pb_tot_len b - n\<rparr>) s)"
proof -
  from pk(1) obtain xs where a: "net_ok (E(p := 1)) s" "E p = 0" "chain (pbufs s) (Some p) (p # xs)" "own_memory (pbufs s) (p # xs)" "p + 16 \<le> pl"
    "chain_data (pbufs s) (bytes s) (p # xs) = D" "pb_tot_len b = length D" "pb_len b \<le> pb_tot_len b" "pb_ref b = 1"
    using b by (auto elim!: packetE)
  let ?b = "b\<lparr>pb_payload := Some (pl + n), pb_len := pb_len b - n, pb_tot_len := pb_tot_len b - n\<rparr>"
  let ?s = "put_pbuf p ?b s"
  note hide = pbuf_header_hide [OF a(1) b n a(8)]
  show "pbuf_header (Some p) (- int n) s = Some (0, ?s)" using hide(1) a(5,7) pk(2) by (simp add: pbuf_header_def)
  have ok: "net_ok (E(p := 1)) ?s" using hide(2) a(5,7) pk(2) by simp
  have ch: "chain (pbufs ?s) (Some p) (p # xs)"
    using chain_head_resized [OF a(3) b(1), of ?b] a(3) b(1) n(2) by (simp add: chain_Cons plen_def)
  have own: "own_memory (pbufs ?s) (p # xs)" using a(4) b(1) by (auto simp: own_memory_def is_custom_def)
  have p: "p \<notin> set xs" using chain_distinct [OF a(3)] by simp
  have other: "chain_data (pbufs ?s) M xs = chain_data (pbufs s) M xs" for M using chain_data_upd_other [OF p] by simp
  have "chain_data (pbufs ?s) (bytes s) (p # xs) = rd (bytes s) (pl + n) (pb_len b - n) @ chain_data (pbufs s) (bytes s) xs"
    using other by (simp add: pbytes_def)
  moreover have "D = rd (bytes s) pl (pb_len b) @ chain_data (pbufs s) (bytes s) xs" using a(6) b by (simp add: pbytes_def)
  moreover have "drop n (rd (bytes s) pl (pb_len b)) = rd (bytes s) (pl + n) (pb_len b - n)" using rd_split [of n "pb_len b" "bytes s" pl] n by simp
  ultimately have "chain_data (pbufs ?s) (bytes s) (p # xs) = drop n D" using n(2) by simp
  moreover have "ref_of ?s p = 1" using a(9) by (simp add: ref_of_def)
  ultimately show "packet E p (drop n D) ?s" using ok a(2) ch own by (intro packetI [of _ _ _ "p # xs"]) (simp_all del: fun_upd_apply chain_data_simps)
qed

section \<open>New packets\<close>

lemma new_packet:
  assumes new: "new_chain E l n ty s p xs s'" and ty: "ty = PBUF_POOL \<or> ty = PBUF_RAM"
  shows "\<exists>D. length D = n \<and> packet E p D s' \<and> (n + layer_offset l < 65536 \<longrightarrow> tx_packet (E(p := 1)) p (layer_offset l) D s')"
proof -
  note parts = new_chain_parts [OF new]
  have own: "own_memory (pbufs s') xs" by (rule parts(6) [OF ty])
  have "pbuf_inv s'" using parts(1) by (simp add: net_ok_def)
  then have len: "length (chain_data (pbufs s') (bytes s') xs) = n" using length_chain_data [OF own_payloads [OF _ own]] parts(3) by simp
  from parts(2) have "p \<in> set xs" by (cases xs) (auto simp: chain_Cons)
  with new ty obtain b where b: "pbufs s' p = Some b" "pb_ref b = 1" "pb_payload b = Some (p + 16 + layer_offset l)" by (auto simp: new_chain_def)
  have "packet E p (chain_data (pbufs s') (bytes s') xs) s'" using parts(1,2,5) own b by (intro packetI) (auto simp: ref_of_def)
  moreover have "tx_packet (E(p := 1)) p (layer_offset l) (chain_data (pbufs s') (bytes s') xs) s'" if "n + layer_offset l < 65536"
    using parts(1,2) own b that len by (intro tx_packetI [of _ _ _ _ _ xs b]) auto
  ultimately show ?thesis using len by blast
qed

section \<open>Two packets\<close>

text \<open>Copying the data \<open>X\<close> of the packet \<open>p\<close> into a single pbuf of the same length.\<close>

lemma packet_copy:
  assumes r: "packet F r D s" "pbufs s r = Some rb" "pb_next rb = None" and D: "length D = length X" "0 < length X" "length X < 65536"
    and p: "chain (pbufs s) (Some p) xs" "own_memory (pbufs s) xs" "filled (pbufs s) xs" "chain_data (pbufs s) (bytes s) xs = X" "r \<notin> set xs"
  shows "\<exists>M. pbuf_copy (Some r) (Some p) s = Some (ERR_OK, s\<lparr>bytes := M\<rparr>) \<and> packet F r X (s\<lparr>bytes := M\<rparr>) \<and> within (pbufs s) [r] (bytes s) M"
proof -
  obtain ys where a: "net_ok (F(r := 1)) s" "F r = 0" "chain (pbufs s) (Some r) (r # ys)" "own_memory (pbufs s) (r # ys)"
    "chain_data (pbufs s) (bytes s) (r # ys) = D" by (rule packetE [OF r(1)])
  have ref: "ref_of s r = 1" using r(1) by (simp add: packet_def)
  have "ys = []" using a(3) r(2,3) by (cases ys) (auto simp: chain_Cons)
  note a = a [unfolded this]
  have inv: "pbuf_inv s" using a(1) by (simp add: net_ok_def)
  have len: "chain_len (pbufs s) [r] = length X" "chain_len (pbufs s) xs = length X"
    using length_chain_data [OF own_payloads [OF inv a(4)], of "bytes s"] length_chain_data [OF own_payloads [OF inv p(2)], of "bytes s"] a(5) p(4) D by simp_all
  have "filled (pbufs s) [r]" "separate (pbufs s) [r]" "data_apart (pbufs s) [r] xs" "payloads (\<lambda>_ _. True) (pbufs s) xs"
    using len(1) D(2) inv a(4) p(2,5) by (auto intro!: own_data_apart own_payloads simp: filled_len)
  from pbuf_copy_eq [OF a(3) p(1) this(1) p(3) this(2-4)] len D(3) obtain M where
    M: "pbuf_copy (Some r) (Some p) s = Some (ERR_OK, s\<lparr>bytes := M\<rparr>)" "within (pbufs s) [r] (bytes s) M"
      "chain_data (pbufs s) M [r] = X @ drop (length X) D" using a(5) p(4) by auto
  then have "packet F r X (s\<lparr>bytes := M\<rparr>)" using a D(1) ref by (intro packetI [of _ _ _ "[r]"]) (simp_all add: ref_of_def del: chain_data_simps fun_upd_apply)
  with M(1,2) show ?thesis by blast
qed

text \<open>Another packet is given up.\<close>

lemma held_shrunk:
  assumes sh: "shrunk s s'" and ok: "refs_ok E s" "refs_ok E' s'" and h: "held s r = 0"
  shows "held s' r = 0"
proof -
  have fin: "finite (dom (pbufs s))" "finite (dom (pbufs s'))" using ok by (simp_all add: refs_ok_def)
  have z: "holds s q r = 0" if "q \<in> dom (pbufs s)" for q using h that fin(1) by (simp add: held_def)
  have "holds s' q r = 0" if q: "pbufs s' q = Some b'" for q b'
  proof -
    from shrunkD(2) [OF sh q] obtain b where b: "pbufs s q = Some b" "b' = b\<lparr>pb_ref := pb_ref b'\<rparr>" "customs s' q = customs s q" by blast
    then have nx: "pb_next b' = pb_next b" "is_custom b' = is_custom b" by (metis pbuf.simps(1) pbuf.ext_inject pbuf.surjective pbuf.update_convs(7), metis is_custom_def pbuf.ext_inject pbuf.surjective pbuf.update_convs(7))
    show ?thesis
    proof (cases "pb_ref b = 0")
      case True
      with shrunkD(3) [OF sh b(1)] q show ?thesis by (simp add: holds_def)
    next
      case False
      then show ?thesis using z [of q] b(1,3) q nx by (auto simp: holds_def split: if_splits)
    qed
  qed
  then have "\<forall>q \<in> dom (pbufs s'). holds s' q r = 0" by blast
  then show ?thesis by (simp add: held_def)
qed

lemma packet_free_other:
  assumes r: "packet (E(p := 1)) r D s" and p: "E p = 0" "p \<noteq> r"
  shows "\<exists>n s'. pbuf_free (Some p) s = Some (n, s') \<and> packet E r D s' \<and> bytes s' = bytes s \<and> pbufs s' r = pbufs s r"
proof -
  obtain xs b pl where a: "net_ok ((E(p := 1))(r := 1)) s" "(E(p := 1)) r = 0" "chain (pbufs s) (Some r) (r # xs)" "own_memory (pbufs s) (r # xs)"
    "pbufs s r = Some b" "chain_data (pbufs s) (bytes s) (r # xs) = D" "pb_ref b = 1" by (rule packetE [OF r])
  from pbuf_free_ok [OF a(1), of p] p obtain n s' where
    s': "pbuf_free (Some p) s = Some (n, s')" "net_ok (E(r := 1)) s'" "shrunk s s'" by (auto simp: fun_upd_twist fun_upd_idem)
  have kept: "chain (pbufs s') (Some r) (r # xs)" "chain_data (pbufs s') (bytes s') (r # xs) = D"
    using referenced_chain_kept [OF s'(3,2) _ a(3)] a(6) by (simp_all del: chain_data_simps)
  have refs: "refs_ok ((E(p := 1))(r := 1)) s" "refs_ok (E(r := 1)) s'" using a(1) s'(2) by (simp_all add: net_ok_def)
  then have "held s r = 0" using a(5,7) by (auto simp: refs_ok_def ref_of_def dest: spec [of _ r])
  then have "held s' r = 0" by (rule held_shrunk [OF s'(3) refs])
  then have ref: "ref_of s' r = 1" using refs(2) by (auto simp: refs_ok_def dest: spec [of _ r])
  have own: "own_memory (pbufs s') (r # xs)" unfolding own_memory_def
  proof
    fix x assume x: "x \<in> set (r # xs)"
    then obtain b' where b': "pbufs s' x = Some b'" using chain_live [OF kept(1)] by auto
    from shrunkD(2) [OF s'(3) b'] obtain c where c: "pbufs s x = Some c" "b' = c\<lparr>pb_ref := pb_ref b'\<rparr>" by blast
    have "\<not> is_custom c \<and> (pb_type c = PBUF_POOL \<or> pb_type c = PBUF_RAM)" using a(4) x c(1) by (auto simp: own_memory_def)
    moreover have "is_custom b' = is_custom c" "pb_type b' = pb_type c" by (subst c(2), simp add: is_custom_def)+
    ultimately show "\<exists>b. pbufs s' x = Some b \<and> \<not> is_custom b \<and> (pb_type b = PBUF_POOL \<or> pb_type b = PBUF_RAM)" using b' by auto
  qed
  obtain b' where b': "pbufs s' r = Some b'" using ref by (cases "pbufs s' r") (auto simp: ref_of_def)
  from shrunkD(2) [OF s'(3) b'] a(5) have "b' = b\<lparr>pb_ref := pb_ref b'\<rparr>" by auto
  moreover have "pb_ref b' = pb_ref b" using ref b' a(7) by (simp add: ref_of_def)
  ultimately have "b' = b" by (metis pbuf.surjective pbuf.update_convs(7))
  moreover have "bytes s' = bytes s" using shrunkD(1) [OF s'(3)] by (simp add: same_rest_def)
  moreover have "packet E r D s'" using s'(2) kept own ref a(2) p(2) by (intro packetI [of _ _ _ "r # xs"]) (simp_all del: chain_data_simps)
  ultimately show ?thesis using s'(1) b' a(5) by auto
qed

section \<open>Headers of packets that were received\<close>

lemma packet_tx:
  assumes "packet E p D s" "pbufs s p = Some b" "pb_payload b = Some pl" "p + 16 + k \<le> pl" "length D + k < 65536"
  shows "tx_packet (E(p := 1)) p k D s"
  using assms by (auto simp: packet_def ref_of_def intro!: tx_packetI)

lemma tx_packet_packet: "tx_packet (E(p := 1)) p k D s \<Longrightarrow> E p = 0 \<Longrightarrow> packet E p D s"
  by (auto simp: tx_packet_def packet_def ref_of_def)

lemma wr_rd_id: "wr M a (rd M a n) = M"
  by (auto simp: wr_def fun_eq_iff)

text \<open>A header in front of the payload comes back into view.\<close>

lemma packet_reveal:
  assumes pk: "packet E p D s" and b: "pbufs s p = Some b" "pb_payload b = Some pl" and n: "0 < n" "n \<le> 32767" "p + 16 + n \<le> pl" "length D + n < 65536"
  shows "\<exists>s' b'. pbuf_header (Some p) (int n) s = Some (0, s') \<and> packet E p (rd (bytes s) (pl - n) n @ D) s' \<and> pbufs s' p = Some b' \<and> pb_payload b' = Some (pl - n)
    \<and> n \<le> pb_len b' \<and> bytes s' = bytes s"
proof -
  have E: "E p = 0" using pk by (simp add: packet_def)
  have tx: "tx_packet (E(p := 1)) p n D s" by (rule packet_tx [OF pk b n(3,4)])
  from tx_prepend [OF tx n(1) order_refl n(2)] obtain s1 c pl1 where
    s1: "pbuf_header (Some p) (int n) s = Some (0, s1)" "pbufs s1 p = Some c" "pb_payload c = Some pl1" "n \<le> pb_len c" "bytes s1 = bytes s"
    and tx1: "\<forall>zs. length zs = n \<longrightarrow> tx_packet (E(p := 1)) p (n - n) (zs @ D) (s1\<lparr>bytes := wr (bytes s1) pl1 zs\<rparr>)" by auto
  have "pbuf_header (Some p) (int n) s = Some (0, put_pbuf p (b\<lparr>pb_payload := Some (pl - n), pb_len := pb_len b + n, pb_tot_len := pb_tot_len b + n\<rparr>) s)"
  proof -
    from pk b have "net_ok (E(p := 1)) s" "pb_type b = PBUF_RAM \<or> pb_type b = PBUF_POOL" "pb_len b \<le> pb_tot_len b" "pb_tot_len b = length D"
      by (auto elim!: packetE)
    with pbuf_header_reveal(1) [of "E(p := 1)" s p b pl n False] b n show ?thesis by (simp add: pbuf_header_def)
  qed
  with s1(1-3) have pl: "pl1 = pl - n" by auto
  have "tx_packet (E(p := 1)) p 0 (rd (bytes s) pl1 n @ D) s1" using tx1 [rule_format, of "rd (bytes s1) pl1 n"] by (simp add: wr_rd_id s1(5) [symmetric])
  then have "packet E p (rd (bytes s) pl1 n @ D) s1" using E by (rule tx_packet_packet)
  with s1 show ?thesis unfolding pl by auto
qed

lemma example_tx_packet:
  obtains p D s where "pbuf_alloc PBUF_TRANSPORT 50 PBUF_POOL example_net = Some (Some p, s)" "length D = 50"
    "tx_packet ((\<lambda>_. 0)(p := 1)) p (layer_offset PBUF_TRANSPORT) D s" "packet (\<lambda>_. 0) p D s"
proof -
  have "pool_need PBUF_TRANSPORT 50 \<le> 16" "card (pool_pbufs example_net) = 0" "unat (desc_num (pool_desc example_net)) = 16"
    by (simp_all add: pool_need_def pool_pbufs_def example_net_def example_net_pools_def)
  with alloc_pool_ok [OF example_net_ok, of 50 PBUF_TRANSPORT] obtain p xs s where
    p: "pbuf_alloc PBUF_TRANSPORT 50 PBUF_POOL example_net = Some (Some p, s)" "new_chain (\<lambda>_. 0) PBUF_TRANSPORT 50 PBUF_POOL example_net p xs s" by auto
  from new_packet [OF p(2)] p(1) that show ?thesis by auto
qed

end
