(* ===== verification/Ip4_Props.thy ===== *)
theory Ip4_Props
  imports Ip4_Hdr Packet
begin

text \<open>
  Properties of the IP layer: the routing decision, the choice of the interface a packet is for, and what is put on the line for a packet that is sent.
\<close>

section \<open>Routing and acceptance\<close>

definition routes :: "netifs \<Rightarrow> u32 \<Rightarrow> nat \<Rightarrow> bool" where
  "routes ns dest a \<longleftrightarrow> (case netif_at ns a of None \<Rightarrow> False | Some n \<Rightarrow> route_match dest n)"

lemma route_loop_find: "linked nf_next (netif_at ns) p xs \<Longrightarrow> route_loop ns dest p = Some (find (routes ns dest) xs)"
proof (induction xs arbitrary: p)
  case Nil
  then show ?case by (subst route_loop.simps) simp
next
  case (Cons a xs)
  then obtain n where n: "p = Some a" "netif_at ns a = Some n" "linked nf_next (netif_at ns) (nf_next n) xs" by (auto simp: linked_Cons)
  then have "routes ns dest a = route_match dest n" by (simp add: routes_def)
  with Cons.IH [OF n(3)] n show ?case by (subst route_loop.simps) simp
qed

definition usable_default :: "netifs \<Rightarrow> bool" where
  "usable_default ns \<longleftrightarrow> (case netif_default ns of None \<Rightarrow> False | Some d \<Rightarrow>
     (case netif_at ns d of None \<Rightarrow> False | Some n \<Rightarrow> netif_is_up n \<and> netif_is_link_up n \<and> ip_addr n \<noteq> IPADDR_ANY))"

definition default_live :: "netifs \<Rightarrow> bool" where
  "default_live ns \<longleftrightarrow> (case netif_default ns of None \<Rightarrow> True | Some d \<Rightarrow> d \<in> dom (netif_at ns))"

lemma ip4_route_eq:
  assumes "netif_linked (ifs st) xs" "default_live (ifs st)"
  shows "ip4_route dest st = Some (case find (routes (ifs st) dest) xs of
      Some a \<Rightarrow> (Some a, st)
    | None \<Rightarrow> if usable_default (ifs st) then (netif_default (ifs st), st) else (None, on_stats (\<lambda>t. t\<lparr>ps_rterr := ps_rterr t + 1\<rparr>) st))"
proof -
  have "route_loop (ifs st) dest (netif_list (ifs st)) = Some (find (routes (ifs st) dest) xs)"
    using assms(1) by (intro route_loop_find) (simp add: netif_linked_def)
  with assms(2) show ?thesis
    by (auto simp: ip4_route_def usable_default_def default_live_def split: option.split)
qed

text \<open>A route leads to an interface that exists.\<close>

lemma ip4_route_live:
  assumes "netif_linked (ifs st) xs" "default_live (ifs st)"
  shows "\<exists>r k. ip4_route dest st = Some (r, on_stats (\<lambda>t. t\<lparr>ps_rterr := ps_rterr t + k\<rparr>) st) \<and> (\<forall>a. r = Some a \<longrightarrow> a \<in> dom (netif_at (ifs st)))"
proof (cases "find (routes (ifs st) dest) xs")
  case None
  show ?thesis
  proof (cases "usable_default (ifs st)")
    case True
    then have "ip4_route dest st = Some (netif_default (ifs st), on_stats (\<lambda>t. t\<lparr>ps_rterr := ps_rterr t + 0\<rparr>) st)"
      using None ip4_route_eq [OF assms, of dest] by (simp add: on_stats_def)
    moreover have "\<forall>a. netif_default (ifs st) = Some a \<longrightarrow> a \<in> dom (netif_at (ifs st))" using assms(2) by (auto simp: default_live_def)
    ultimately show ?thesis by blast
  next
    case False
    then have "ip4_route dest st = Some (None, on_stats (\<lambda>t. t\<lparr>ps_rterr := ps_rterr t + 1\<rparr>) st)" using None ip4_route_eq [OF assms, of dest] by simp
    then show ?thesis by blast
  qed
next
  case (Some a)
  then have "routes (ifs st) dest a" by (auto simp: find_Some_iff)
  then have "a \<in> dom (netif_at (ifs st))" by (auto simp: routes_def split: option.splits)
  moreover have "ip4_route dest st = Some (Some a, on_stats (\<lambda>t. t\<lparr>ps_rterr := ps_rterr t + 0\<rparr>) st)"
    using Some ip4_route_eq [OF assms, of dest] by (simp add: on_stats_def)
  ultimately show ?thesis by blast
qed

definition accepts :: "'w ip_env \<Rightarrow> 'w stack \<Rightarrow> u32 \<Rightarrow> nat \<Rightarrow> bool" where
  "accepts env st dest a \<longleftrightarrow> (case netif_at (ifs st) a of None \<Rightarrow> False | Some n \<Rightarrow> netif_accepts env st dest a n)"

lemma accept_loop_find:
  assumes "linked nf_next (netif_at (ifs st)) (Some a) (a # xs)" "a \<noteq> inp" "netif_at (ifs st) inp = Some m"
  shows "accept_loop env st dest inp False a = Some (find (accepts env st dest) (a # remove1 inp xs))"
  using assms(1,2)
proof (induction "length xs" arbitrary: a xs rule: less_induct)
  case less
  then obtain n where n: "netif_at (ifs st) a = Some n" "a \<notin> set xs" "linked nf_next (netif_at (ifs st)) (nf_next n) xs" by (auto simp: linked_Cons)
  show ?case
  proof (cases "netif_accepts env st dest a n")
    case True
    with n show ?thesis by (subst accept_loop.simps) (simp add: accepts_def)
  next
    case False
    show ?thesis
    proof (cases xs)
      case Nil
      with n False show ?thesis by (subst accept_loop.simps) (simp add: accepts_def)
    next
      case (Cons b ys)
      then obtain k where k: "nf_next n = Some b" "netif_at (ifs st) b = Some k" "linked nf_next (netif_at (ifs st)) (Some b) (b # ys)"
        "linked nf_next (netif_at (ifs st)) (nf_next k) ys" "b \<notin> set ys" using n(3) by (auto simp: linked_Cons)
      show ?thesis
      proof (cases "b = inp")
        case False
        with less.hyps [of ys b] Cons k(3) n k(1) \<open>\<not> netif_accepts env st dest a n\<close> show ?thesis by (subst accept_loop.simps) (simp add: accepts_def)
      next
        case True
        show ?thesis
        proof (cases ys)
          case Nil
          with True n k \<open>\<not> netif_accepts env st dest a n\<close> Cons show ?thesis by (subst accept_loop.simps) (simp add: accepts_def)
        next
          case (Cons c zs)
          with k(4) have c: "nf_next k = Some c" "linked nf_next (netif_at (ifs st)) (Some c) (c # zs)" by (auto simp: linked_Cons)
          have "c \<noteq> inp" "inp \<notin> set zs" using k(5) True Cons by auto
          with less.hyps [of zs c] c(2) \<open>xs = b # ys\<close> Cons have "accept_loop env st dest inp False c = Some (find (accepts env st dest) (c # zs))"
            by (simp add: remove1_idem)
          with True n k c(1) \<open>\<not> netif_accepts env st dest a n\<close> \<open>xs = b # ys\<close> Cons show ?thesis
            by (subst accept_loop.simps) (simp add: accepts_def)
        qed
      qed
    qed
  qed
qed

lemma ip4_accept_eq:
  assumes xs: "netif_linked (ifs st) xs" and inp: "netif_at (ifs st) inp = Some m" and dest: "dest = current_iphdr_dest (ip_data st)"
  shows "ip4_accept env inp st = Some (if ip4_addr_ismulticast dest then (if netif_is_up m \<and> ip_addr m \<noteq> IPADDR_ANY then Some inp else None)
    else if accepts env st dest inp then Some inp else if ip4_addr_isloopback dest then None else find (accepts env st dest) (remove1 inp xs))"
proof (cases "ip4_addr_ismulticast dest \<or> accepts env st dest inp \<or> ip4_addr_isloopback dest")
  case True
  with inp dest show ?thesis by (auto simp: ip4_accept_def Let_def accept_loop.simps [of _ _ _ _ True] accepts_def)
next
  case False
  note none = False
  have l: "linked nf_next (netif_at (ifs st)) (netif_list (ifs st)) xs" using xs by (simp add: netif_linked_def)
  have start: "ip4_accept env inp st = Option.bind (if netif_list (ifs st) = Some inp then Some (nf_next m) else Some (netif_list (ifs st)))
      (\<lambda>nx. case nx of None \<Rightarrow> Some None | Some x \<Rightarrow> accept_loop env st dest inp False x)"
    using False inp by (simp add: ip4_accept_def Let_def dest [symmetric] accept_loop.simps [of _ _ _ _ True] accepts_def)
  show ?thesis
  proof (cases xs)
    case Nil
    with l start False show ?thesis by simp
  next
    case (Cons a ys)
    with l obtain n where n: "netif_list (ifs st) = Some a" "netif_at (ifs st) a = Some n" "linked nf_next (netif_at (ifs st)) (nf_next n) ys" "a \<notin> set ys"
      by (auto simp: linked_Cons)
    show ?thesis
    proof (cases "a = inp")
      case False
      with accept_loop_find [of st a ys inp m env dest] l Cons n(1) inp start none show ?thesis by simp
    next
      case True
      show ?thesis
      proof (cases ys)
        case Nil
        with True n inp Cons start none show ?thesis by simp
      next
        case (Cons b zs)
        with n(3) have "nf_next n = Some b" "linked nf_next (netif_at (ifs st)) (Some b) (b # zs)" by (auto simp: linked_Cons)
        moreover have "b \<noteq> inp" "inp \<notin> set zs" using n(4) True Cons by auto
        ultimately show ?thesis using True n inp start none \<open>xs = a # ys\<close> Cons accept_loop_find [of st b zs inp m env dest]
          by (simp add: remove1_idem)
      qed
    qed
  qed
qed

section \<open>Output\<close>

lemma stack_upd_simps [simp]:
  "ifs (on_stats f st) = ifs st" "bufs (on_stats f st) = bufs st" "rest (on_stats f st) = rest st" "ip_data (on_stats f st) = ip_data st" "ip_id (on_stats f st) = ip_id st"
  "ifs (on_bytes g st) = ifs st" "rest (on_bytes g st) = rest st" "ip_data (on_bytes g st) = ip_data st" "ip_id (on_bytes g st) = ip_id st"
  "bufs (on_bytes g st) = (bufs st)\<lparr>bytes := g (bytes (bufs st))\<rparr>"
  by (simp_all add: on_stats_def on_bytes_def)

text \<open>A serial interface to which packets for other hosts go, without fragmentation.\<close>

definition slip_link :: "'w stack \<Rightarrow> nat \<Rightarrow> netif \<Rightarrow> u32 \<Rightarrow> nat \<Rightarrow> bool" where
  "slip_link st a n dest len \<longleftrightarrow> netif_at (ifs st) a = Some n \<and> nf_output n = Some slipif_output_v4_fn \<and> dest \<noteq> ip_addr n \<and> (mtu n = 0 \<or> len \<le> unat (mtu n))"

lemma slip_transmit:
  assumes uart: "uart_ok (UART_write env) line" and tx: "tx_packet E p k D (bufs st)" and l: "slip_link st a n dest (length D)"
  shows "\<exists>w'. ip4_transmit env p dest a st = Some (ERR_OK, (on_stats (\<lambda>t. t\<lparr>ps_xmit := ps_xmit t + 1\<rparr>) st)\<lparr>rest := w'\<rparr>)
    \<and> line w' = line (rest st) @ slip_frame D"
proof -
  obtain w' where w': "slipif_output_v4 (UART_write env) (Some p) dest (bufs st) (rest st) = Some (ERR_OK, w')" "line w' = line (rest st) @ slip_frame D"
    using tx_slip_output [OF uart tx] by blast
  from tx obtain xs b pl where b: "pbufs (bufs st) p = Some b" "pb_tot_len b = length D" by (rule tx_packetE)
  have "netif_output env a p dest (on_stats (\<lambda>t. t\<lparr>ps_xmit := ps_xmit t + 1\<rparr>) st) = Some (ERR_OK, (on_stats (\<lambda>t. t\<lparr>ps_xmit := ps_xmit t + 1\<rparr>) st)\<lparr>rest := w'\<rparr>)"
    using l w'(1) by (simp add: netif_output_def slip_link_def)
  then have "ip4_transmit env p dest a st = Some (ERR_OK, (on_stats (\<lambda>t. t\<lparr>ps_xmit := ps_xmit t + 1\<rparr>) st)\<lparr>rest := w'\<rparr>)"
    using l b by (auto simp: ip4_transmit_def slip_link_def)
  with w'(2) show ?thesis by blast
qed

lemma ip4_output_ok:
  assumes uart: "uart_ok (UART_write env) line" and tx: "tx_packet E p k D (bufs st)" "IP_HLEN \<le> k" and l: "slip_link st a n dest (length D + IP_HLEN)"
    and src: "src' = (case src of None \<Rightarrow> ip_addr n | Some x \<Rightarrow> if x = IPADDR_ANY then ip_addr n else x)"
  shows "\<exists>st'. ip4_output_if env p src (Some dest) ttl tos proto a st = Some (ERR_OK, st')
    \<and> line (rest st') = line (rest st) @ slip_frame (ip4_datagram_header src' dest ttl tos proto (of_nat (length D + IP_HLEN)) (ip_id st) @ D)
    \<and> tx_packet E p (k - IP_HLEN) (ip4_datagram_header src' dest ttl tos proto (of_nat (length D + IP_HLEN)) (ip_id st) @ D) (bufs st')
    \<and> ifs st' = ifs st \<and> ip_id st' = ip_id st + 1"
proof -
  let ?h = "ip4_datagram_header src' dest ttl tos proto (of_nat (length D + IP_HLEN)) (ip_id st)"
  from tx_prepend [OF tx(1) _ tx(2)] obtain s1 b pl where
    s1: "pbuf_header (Some p) (int 20) (bufs st) = Some (0, s1)" "pbufs s1 p = Some b" "pb_payload b = Some pl" "20 \<le> pb_len b"
      "pb_tot_len b = length D + 20" "bytes s1 = bytes (bufs st)"
    and tx1: "\<forall>zs. length zs = 20 \<longrightarrow> tx_packet E p (k - 20) (zs @ D) (s1\<lparr>bytes := wr (bytes s1) pl zs\<rparr>)" by auto
  from tx(1) obtain b0 where b0: "pbufs (bufs st) p = Some b0" "pb_ref b0 = 1" by (rule tx_packetE)
  let ?st = "(on_bytes (ip4_write_hdr pl src' dest ttl tos proto (pb_tot_len b) (ip_id st)) (st\<lparr>bufs := s1\<rparr>))\<lparr>ip_id := ip_id st + 1\<rparr>"
  have bufs: "bufs ?st = s1\<lparr>bytes := wr (bytes s1) pl ?h\<rparr>" by (simp add: ip4_write_hdr_eq s1(5))
  have tx2: "tx_packet E p (k - 20) (?h @ D) (bufs ?st)" unfolding bufs using tx1 by simp
  have l2: "slip_link ?st a n dest (length (?h @ D))" using l by (simp add: slip_link_def add.commute)
  from slip_transmit [OF uart tx2 l2] obtain w' where
    w': "ip4_transmit env p dest a ?st = Some (ERR_OK, (on_stats (\<lambda>t. t\<lparr>ps_xmit := ps_xmit t + 1\<rparr>) ?st)\<lparr>rest := w'\<rparr>)"
      "line w' = line (rest st) @ slip_frame (?h @ D)" by auto
  have "ip4_output_if env p src (Some dest) ttl tos proto a st = ip4_transmit env p dest a ?st"
    using l src b0 s1 by (auto simp: ip4_output_if_def ip4_output_if_src_def slip_link_def Let_def split: option.split)
  then show ?thesis using w' tx2 by simp
qed

section \<open>An example\<close>

text \<open>A host with two serial interfaces, 192.168.0.1/24 and the default interface 10.0.0.1/8. Its upper layers drop what they get.\<close>

definition example_serial :: netif where
  "example_serial = example_netif\<lparr>ip_addr := IP4_ADDR 192 168 0 1, netmask := IP4_ADDR 255 255 255 0, flags := 5, nf_output := Some slipif_output_v4_fn, nf_next := Some 7\<rparr>"

definition example_uplink :: netif where
  "example_uplink = example_netif\<lparr>ip_addr := IP4_ADDR 10 0 0 1, netmask := IP4_ADDR 255 0 0 0, flags := 5, nf_output := Some slipif_output_v4_fn\<rparr>"

definition example_host :: netifs where
  "example_host = example_netifs\<lparr>netif_at := [6 \<mapsto> example_serial, 7 \<mapsto> example_uplink]\<rparr>"

definition example_stack :: "'w \<Rightarrow> net \<Rightarrow> 'w stack" where
  "example_stack w s = \<lparr>ifs = example_host, bufs = s,
     ip_data = \<lparr>current_netif = None, current_input_netif = None, current_ip4_header = None, current_ip_header_tot_len = 0, current_iphdr_src = 0, current_iphdr_dest = 0\<rparr>,
     ip_id = 0, ip_stats = \<lparr>ps_xmit = 0, ps_recv = 0, ps_fw = 0, ps_drop = 0, ps_chkerr = 0, ps_lenerr = 0, ps_memerr = 0, ps_rterr = 0, ps_proterr = 0,
       ps_opterr = 0, ps_err = 0, ps_cachehit = 0\<rparr>, rest = w\<rparr>"

definition example_env :: "u8 list ip_env" where
  "example_env = \<lparr>UART_write = example_uart, autoip_llipaddr = (\<lambda>a w. None), ip4_frag_fn = (\<lambda>p a d st. Some (ERR_MEM, st)),
     ip4_reass_fn = (\<lambda>p st. do { st \<leftarrow> ip_free p st; Some (None, st) }), icmp_dest_unreach_fn = (\<lambda>p t st. Some st), icmp_time_exceeded_fn = (\<lambda>p t st. Some st),
     raw_input_fn = (\<lambda>p inp st. Some (False, st)), udp_input_fn = (\<lambda>p inp st. ip_free p st), tcp_input_fn = (\<lambda>p inp st. ip_free p st), icmp_input_fn = (\<lambda>p inp st. ip_free p st)\<rparr>"

lemma example_host_linked: "netif_linked example_host [6, 7]" "default_live example_host"
  by (simp_all add: netif_linked_def example_host_def example_netifs_def linked_Cons default_live_def example_serial_def example_uplink_def example_netif_def)

lemma example_host_at: "netif_at example_host 6 = Some example_serial" "netif_at example_host 7 = Some example_uplink" "netif_default example_host = Some 7"
  by (simp_all add: example_host_def example_netifs_def)

lemma example_stack_simps [simp]:
  "ifs (example_stack w s) = example_host" "bufs (example_stack w s) = s" "rest (example_stack w s) = w" "ip_id (example_stack w s) = 0"
  by (simp_all add: example_stack_def)

lemma example_addrs: "IP4_ADDR 192 168 0 1 = 0x0100A8C0" "IP4_ADDR 192 168 0 2 = 0x0200A8C0" "IP4_ADDR 255 255 255 0 = 0x00FFFFFF"
  "IP4_ADDR 10 0 0 1 = 0x0100000A" "IP4_ADDR 255 0 0 0 = 0xFF" "IP4_ADDR 8 8 8 8 = 0x08080808"
  by (simp_all add: IP4_ADDR_def PP_HTONL_def)

lemma example_routes:
  "routes example_host (IP4_ADDR 192 168 0 2) 6" "\<not> routes example_host (IP4_ADDR 8 8 8 8) 6" "\<not> routes example_host (IP4_ADDR 8 8 8 8) 7" "usable_default example_host"
  by (simp_all add: routes_def example_host_at usable_default_def route_match_def netif_is_up_def netif_is_link_up_def ip4_addr_netcmp_def example_addrs
    example_serial_def example_uplink_def example_netif_def)

section \<open>Claims\<close>

text \<open>C20: routing. \<open>ip4_route\<close> returns the first interface of the list that is up, has its link up and an address other than 0, and either has the destination in its network (destination and address
  agree under the netmask) or is a point-to-point interface (no broadcast flag) whose gateway is the destination; else the default interface, if it is up, has its link up and an address; else no interface,
  which is counted as a routing error.\<close>

theorem ip4_route_first_match:
  assumes "netif_linked (ifs st) xs" "default_live (ifs st)"
  shows "ip4_route dest st = Some
    (case find (\<lambda>a. \<exists>n. netif_at (ifs st) a = Some n \<and> flags n AND NETIF_FLAG_UP \<noteq> 0 \<and> flags n AND NETIF_FLAG_LINK_UP \<noteq> 0 \<and> ip_addr n \<noteq> 0
        \<and> (dest AND netmask n = ip_addr n AND netmask n \<or> flags n AND NETIF_FLAG_BROADCAST = 0 \<and> dest = gw n)) xs of
      Some a \<Rightarrow> (Some a, st)
    | None \<Rightarrow>
        if \<exists>d n. netif_default (ifs st) = Some d \<and> netif_at (ifs st) d = Some n \<and> flags n AND NETIF_FLAG_UP \<noteq> 0 \<and> flags n AND NETIF_FLAG_LINK_UP \<noteq> 0 \<and> ip_addr n \<noteq> 0
        then (netif_default (ifs st), st) else (None, on_stats (\<lambda>t. t\<lparr>ps_rterr := ps_rterr t + 1\<rparr>) st))"
proof -
  have "routes (ifs st) dest = (\<lambda>a. \<exists>n. netif_at (ifs st) a = Some n \<and> flags n AND 1 \<noteq> 0 \<and> flags n AND 4 \<noteq> 0 \<and> ip_addr n \<noteq> 0
        \<and> (dest AND netmask n = ip_addr n AND netmask n \<or> flags n AND 2 = 0 \<and> dest = gw n))"
    by (auto simp: fun_eq_iff routes_def route_match_def netif_is_up_def netif_is_link_up_def ip4_addr_netcmp_def split: option.split)
  moreover have "usable_default (ifs st) \<longleftrightarrow> (\<exists>d n. netif_default (ifs st) = Some d \<and> netif_at (ifs st) d = Some n \<and> flags n AND 1 \<noteq> 0 \<and> flags n AND 4 \<noteq> 0 \<and> ip_addr n \<noteq> 0)"
    by (auto simp: usable_default_def netif_is_up_def netif_is_link_up_def split: option.split)
  ultimately show ?thesis using ip4_route_eq [OF assms, of dest] by presburger
qed

theorem ip4_route_first_match_witness:
  "ip4_route (IP4_ADDR 192 168 0 2) (example_stack () example_net) = Some (Some 6, example_stack () example_net)
   \<and> ip4_route (IP4_ADDR 8 8 8 8) (example_stack () example_net) = Some (Some 7, example_stack () example_net)"
  using ip4_route_first_match [of "example_stack () example_net" "[6, 7]"]
  by (simp add: example_host_linked example_host_at example_addrs example_serial_def example_uplink_def example_netif_def)

text \<open>acceptance. A multicast is accepted on the interface it arrives on. Any other packet is for the interface it arrives on, if its destination is the address of the
  interface, its link-local address or a broadcast there; else, unless it is to the loopback network, for the first other interface of the list of which this holds.
  Otherwise it is not for this host.\<close>

theorem ip4_accept_decision:
  assumes "netif_linked (ifs st) xs" "netif_at (ifs st) inp = Some m" "dest = current_iphdr_dest (ip_data st)"
  shows "ip4_accept env inp st = Some (if ip4_addr_ismulticast dest then (if netif_is_up m \<and> ip_addr m \<noteq> IPADDR_ANY then Some inp else None)
    else if accepts env st dest inp then Some inp else if ip4_addr_isloopback dest then None else find (accepts env st dest) (remove1 inp xs))"
  by (rule ip4_accept_eq [OF assms])

theorem ip4_accept_decision_witness:
  "\<exists>st :: u8 list stack. current_iphdr_dest (ip_data st) = IP4_ADDR 10 0 0 1 \<and> ip4_accept example_env 6 st = Some (Some 7)"
proof -
  let ?x = "example_stack [] example_net :: u8 list stack"
  let ?st = "?x\<lparr>ip_data := (ip_data ?x)\<lparr>current_iphdr_dest := IP4_ADDR 10 0 0 1\<rparr>\<rparr>"
  let ?d = "IP4_ADDR 10 0 0 1"
  have "\<not> ip4_addr_ismulticast ?d" "\<not> ip4_addr_isloopback ?d"
    by (simp_all add: ip4_addr_ismulticast_def ip4_addr_isloopback_def example_addrs PP_HTONL_def)
  moreover have "accepts example_env ?st ?d 7" by (simp add: accepts_def example_host_at netif_accepts_def netif_is_up_def example_uplink_def example_netif_def example_addrs)
  moreover have "\<not> accepts example_env ?st ?d 6"
    by (simp add: accepts_def example_host_at netif_accepts_def netif_is_up_def example_serial_def example_netif_def example_addrs example_env_def
      autoip_accept_packet_def ip4_addr_isbroadcast_u32_def ip4_addr_netcmp_def)
  ultimately show ?thesis
    using ip4_accept_decision [of ?st "[6, 7]" 6 example_serial ?d example_env] by (intro exI [of _ ?st]) (simp add: example_host_linked example_host_at)
qed

text \<open>C19: sending. \<open>ip4_output_if\<close> on a serial interface puts one SLIP frame on the line: a header of 20 bytes with the given fields, the interface's address as the source if none
  is given, the length of the datagram, the next identification and a checksum that verifies, followed by the data. The packet is left to the caller with the header in front.\<close>

theorem ip4_output_sends_datagram:
  assumes "uart_ok (UART_write env) line" "tx_packet E p k D (bufs st)" "IP_HLEN \<le> k" "slip_link st a n dest (length D + IP_HLEN)"
    and "src' = (case src of None \<Rightarrow> ip_addr n | Some x \<Rightarrow> if x = IPADDR_ANY then ip_addr n else x)"
  shows "\<exists>st' h. ip4_output_if env p src (Some dest) ttl tos proto a st = Some (ERR_OK, st') \<and> line (rest st') = line (rest st) @ slip_frame (h @ D)
    \<and> h = ip4_datagram_header src' dest ttl tos proto (of_nat (length D + IP_HLEN)) (ip_id st) \<and> length h = IP_HLEN \<and> inet_checksum_of h = 0
    \<and> tx_packet E p (k - IP_HLEN) (h @ D) (bufs st') \<and> ip_id st' = ip_id st + 1"
  using ip4_output_ok [OF assms] ip4_header_verifies by (fastforce simp: ip4_datagram_header_def)

theorem ip4_output_sends_datagram_witness:
  "\<exists>p D s st' h. pbuf_alloc PBUF_TRANSPORT 50 PBUF_POOL example_net = Some (Some p, s) \<and> length D = 50
     \<and> ip4_output_if example_env p None (Some (IP4_ADDR 192 168 0 2)) 255 0 17 6 (example_stack [] s) = Some (ERR_OK, st')
     \<and> rest st' = slip_frame (h @ D) \<and> length h = IP_HLEN \<and> inet_checksum_of h = 0"
proof -
  obtain p D s where p: "pbuf_alloc PBUF_TRANSPORT 50 PBUF_POOL example_net = Some (Some p, s)" "length D = 50"
    "tx_packet ((\<lambda>_. 0)(p := 1)) p (layer_offset PBUF_TRANSPORT) D s" by (rule example_tx_packet)
  have u: "uart_ok (UART_write example_env) (\<lambda>w. w)" using examples_ok(1) by (simp add: example_env_def)
  have l: "slip_link (example_stack [] s :: u8 list stack) 6 example_serial (IP4_ADDR 192 168 0 2) (length D + IP_HLEN)"
    by (simp add: slip_link_def example_host_at example_addrs) (simp add: example_serial_def example_netif_def example_addrs)
  from ip4_output_sends_datagram [OF u _ _ l refl, of _ p "layer_offset PBUF_TRANSPORT" None 255 0 17] p(3) obtain st' h where
    "ip4_output_if example_env p None (Some (IP4_ADDR 192 168 0 2)) 255 0 17 6 (example_stack [] s) = Some (ERR_OK, st')"
    "rest st' = slip_frame (h @ D)" "length h = IP_HLEN" "inet_checksum_of h = 0" by fastforce
  with p(1,2) show ?thesis by blast
qed

end
