(* ===== verification/Ip4_Check.thy ===== *)
theory Ip4_Check
  imports Ip4_Props
begin

text \<open>
  The checks with which \<open>ip4_input\<close> begins: version, lengths and checksum of the header. A packet that fails one of them is dropped before any other component
  sees it.
\<close>

section \<open>Cutting a packet to the length in its header\<close>

lemma packet_realloc:
  assumes "packet E p D s" "length D < 65536" "n < length D"
  shows "\<exists>s'. pbuf_realloc (Some p) n s = Some s' \<and> packet E p (take n D) s' \<and> bytes s' = bytes s
    \<and> (\<forall>b. pbufs s p = Some b \<longrightarrow> (\<exists>b'. pbufs s' p = Some b' \<and> pb_payload b' = pb_payload b \<and> pb_len b' = min n (pb_len b)))"
proof -
  from assms(1) obtain xs where xs: "net_ok (E(p := 1)) s" "E p = 0" "chain (pbufs s) (Some p) xs" "own_memory (pbufs s) xs" "chain_data (pbufs s) (bytes s) xs = D"
    "ref_of s p = 1" by (auto simp: packet_def)
  then have inv: "pbuf_inv s" "refs_ok (E(p := 1)) s" by (simp_all add: net_ok_def)
  have pl: "payloads (\<lambda>_ _. True) (pbufs s) xs" by (rule own_payloads [OF inv(1) xs(4)])
  have len: "chain_len (pbufs s) xs = length D" using length_chain_data [OF pl] xs(5) by metis
  have plain: "plain (pbufs s) xs" unfolding plain_def list_all_iff using chain_referenced [OF inv(2) xs(3)] xs(4) by (fastforce simp: own_memory_def)
  from realloc_prefix [OF xs(1) _ xs(3) plain pl, of n] assms(2,3) len obtain s' us vs where
    s': "pbuf_realloc (Some p) n s = Some s'" "net_ok (E(p := 1)) s'" "xs = us @ vs" "chain (pbufs s') (Some p) us"
      "chain_data (pbufs s') (bytes s') us = take n (chain_data (pbufs s) (bytes s) xs)" "\<forall>x \<in> set us. same_kind (pbufs s) (pbufs s') x" by auto
  have data: "chain_data (pbufs s') (bytes s') us = take n D" using s'(5) xs(5) by simp
  have "own_memory (pbufs s) us" using xs(4) s'(3) by simp
  then have "own_memory (pbufs s') us" using s'(6) unfolding own_memory_def same_kind_def by (metis option.inject)
  moreover have "p \<in> set us" using s'(4) by (cases us) (auto simp: chain_Cons)
  then have "ref_of s' p = 1" using s'(6) xs(6) by (fastforce simp: same_kind_def ref_of_def)
  ultimately have pk: "packet E p (take n D) s'" using s'(2,4) xs(2) data by (intro packetI [of _ _ _ us]) blast+
  from pbuf_realloc_ok [OF xs(1) _ xs(3) plain, of n] assms(2,3) len obtain ws a zs b where
    w: "xs = ws @ a # zs" "same_rest s s'" "pbufs s a = Some b"
      "\<forall>x. x \<in> set ws \<longrightarrow> pbufs s' x = map_option (\<lambda>b. b\<lparr>pb_tot_len := pb_tot_len b - (chain_len (pbufs s) xs - n)\<rparr>) (pbufs s x)"
      "pbufs s' a = Some (b\<lparr>pb_len := n - chain_len (pbufs s) ws, pb_tot_len := n - chain_len (pbufs s) ws, pb_next := None\<rparr>)"
      "chain_len (pbufs s) ws \<le> n" "n - chain_len (pbufs s) ws \<le> plen (pbufs s) a"
    using s'(1) by auto
  obtain bp where bp: "pbufs s p = Some bp" using xs(3) by (cases xs) (auto simp: chain_Cons)
  have "\<exists>b'. pbufs s' p = Some b' \<and> pb_payload b' = pb_payload bp \<and> pb_len b' = min n (pb_len bp)"
  proof (cases ws)
    case Nil
    then have "p = a" using xs(3) w(1) by (simp add: chain_Cons)
    moreover have "n \<le> plen (pbufs s) a" using w(7) Nil by simp
    ultimately show ?thesis using bp w(3,5) Nil by (simp add: plen_def)
  next
    case (Cons y ys)
    then have "y = p" using xs(3) w(1) by (simp add: chain_Cons)
    then have "pb_len bp \<le> n" using w(6) Cons bp by (simp add: plen_def)
    moreover have "pbufs s' p = map_option (\<lambda>b. b\<lparr>pb_tot_len := pb_tot_len b - (chain_len (pbufs s) xs - n)\<rparr>) (pbufs s p)"
      using w(4) Cons \<open>y = p\<close> by simp
    ultimately show ?thesis using bp by simp
  qed
  with bp s'(1) pk w(2) show ?thesis by (auto simp: same_rest_def)
qed

section \<open>The header of a packet\<close>

text \<open>A packet with the bytes \<open>D\<close>, of which the first pbuf holds \<open>k\<close>, starts with a valid header: version 4, a header of at least 20 bytes that lies in the first pbuf and
  in the datagram, a datagram that has been received completely, and a header checksum that verifies.\<close>

definition header_valid :: "nat \<Rightarrow> u8 list \<Rightarrow> bool" where
  "header_valid k D \<longleftrightarrow>
     (let hlen = 4 * (unat (D ! 0) mod 16); len = 256 * unat (D ! 2) + unat (D ! 3)
      in unat (D ! 0) div 16 = 4 \<and> 20 \<le> hlen \<and> hlen \<le> k \<and> hlen \<le> len \<and> len \<le> length D \<and> inet_checksum_of (take hlen D) = 0)"

lemma header_bytes:
  assumes "M h = d0" "M (h + 2) = d2" "M (h + 3) = d3"
  shows "IPH_V M h = 4 \<longleftrightarrow> unat d0 div 16 = 4" "unat (IPH_HL M h) * 4 = 4 * (unat d0 mod 16)" "unat (lwip_htons (IPH_LEN M h)) = 256 * unat d2 + unat d3"
proof -
  show "IPH_V M h = 4 \<longleftrightarrow> unat d0 div 16 = 4" using assms(1) by (simp add: IPH_V_def word_unat_eq_iff unat_drop_bit_word)
  have "(0x0F :: u8) = mask 4" by (simp add: mask_eq_exp_minus_1)
  then have "d0 AND 0x0F = take_bit 4 d0" by (simp only: take_bit_eq_mask)
  then have "unat (d0 AND 0x0F) = unat d0 mod 16" by (simp add: unat_take_bit_word)
  then show "unat (IPH_HL M h) * 4 = 4 * (unat d0 mod 16)" using assms(1) by (simp add: IPH_HL_def)
  have "unat d2 < 256" "unat d3 < 256" using unsigned_less [of d2] unsigned_less [of d3] by simp_all
  moreover have "h + 2 + 1 = h + 3" "Suc (Suc (Suc h)) = h + 3" by simp_all
  ultimately show "unat (lwip_htons (IPH_LEN M h)) = 256 * unat d2 + unat d3"
    using assms(2,3) unfolding IPH_LEN_def get16_def by (simp only: unat_lwip_htons unat_load16) simp
qed

lemma packet_free_all:
  assumes "packet E p D (bufs st)"
  obtains s' where "ip_free p st = Some (st\<lparr>bufs := s'\<rparr>)" "net_ok E s'"
proof -
  from assms have ok: "net_ok (E(p := 1)) (bufs st)" "E p = 0" by (auto simp: packet_def)
  from pbuf_free_ok [OF ok(1), of p] ok(2) obtain k s' where "pbuf_free (Some p) (bufs st) = Some (k, s')" "net_ok E s'" by (auto simp: fun_upd_idem)
  then show ?thesis by (intro that [of s']) (simp_all add: ip_free_def)
qed

lemma cut_to_length:
  assumes pk: "packet E p D s" "length D < 65536" and b: "pbufs s p = Some b" "pb_payload b = Some ih"
  obtains s' b' where "(if len < pb_tot_len b then pbuf_realloc (Some p) len s else Some s) = Some s'" "packet E p (take len D) s'" "bytes s' = bytes s"
    "pbufs s' p = Some b'" "pb_payload b' = Some ih" "pb_len b' = min len (pb_len b)" "pb_tot_len b' = min len (length D)"
proof (cases "len < length D")
  case True
  have "pb_tot_len b = length D" using pk(1) b by (auto elim!: packetE)
  moreover from packet_realloc [OF pk True] b obtain s' b' where
    s': "pbuf_realloc (Some p) len s = Some s'" "packet E p (take len D) s'" "bytes s' = bytes s" "pbufs s' p = Some b'" "pb_payload b' = Some ih" "pb_len b' = min len (pb_len b)"
    by auto
  moreover have "pb_tot_len b' = min len (length D)" using s'(2,4) by (auto elim!: packetE)
  ultimately show ?thesis using True by (intro that [of s' b']) simp_all
next
  case False
  have "pb_tot_len b = length D" "pb_len b \<le> length D" using pk(1) b by (auto elim!: packetE)
  with False pk(1) b show ?thesis by (intro that [of s b]) simp_all
qed

end
