(* ===== verification/Ip4_Path.thy ===== *)
theory Ip4_Path
  imports Ip4_Check
begin

text \<open>
  The paths of a datagram through the IP layer: what is put on the line for a packet that is forwarded, what the upper layer gets of a packet that is
  received, and that a packet with an invalid header gets no further than \<open>ip4_input\<close>.
\<close>

section \<open>Forwarding\<close>

text \<open>Writing to the first bytes of a packet.\<close>

lemma packet_write:
  assumes pk: "packet E p D s" and b: "pbufs s p = Some b" "pb_payload b = Some pl" and zs: "length zs \<le> pb_len b"
  shows "packet E p (zs @ drop (length zs) D) (s\<lparr>bytes := wr (bytes s) pl zs\<rparr>)"
proof -
  from pk obtain xs where a: "net_ok (E(p := 1)) s" "E p = 0" "chain (pbufs s) (Some p) (p # xs)" "own_memory (pbufs s) (p # xs)"
    "chain_data (pbufs s) (bytes s) (p # xs) = D" "pb_ref b = 1" using b(1) by (auto elim!: packetE)
  have inv: "pbuf_inv s" using a(1) by (simp add: net_ok_def)
  have sep: "separate (pbufs s) ([] @ p # xs)" "payloads (\<lambda>_ _. True) (pbufs s) ([] @ p # xs)"
    using own_separate [OF inv a(4) chain_distinct [OF a(3)]] own_payloads [OF inv a(4)] by simp_all
  have "chain_data (pbufs s) (wr (bytes s) pl zs) (p # xs) = zs @ drop (length zs) (chain_data (pbufs s) (bytes s) (p # xs))"
    using chain_data_write(1) [OF sep b, of 0 zs 0 "bytes s"] zs by simp
  with a show ?thesis by (intro packetI [of _ _ _ "p # xs"]) (simp_all add: ref_of_def b(1) del: chain_data_simps fun_upd_apply)
qed

lemma packet_slip_output:
  assumes "uart_ok uart line" "packet E p D s"
  shows "\<exists>w'. slipif_output_v4 uart (Some p) addr s w = Some (ERR_OK, w') \<and> line w' = line w @ slip_frame D"
proof -
  from assms(2) obtain xs where xs: "net_ok (E(p := 1)) s" "chain (pbufs s) (Some p) xs" "own_memory (pbufs s) xs" "chain_data (pbufs s) (bytes s) xs = D"
    by (auto simp: packet_def)
  then have "payloads (\<lambda>_ _. True) (pbufs s) xs" by (intro own_payloads) (simp_all add: net_ok_def)
  from slipif_output_line [OF assms(1) _ this, of p] xs show ?thesis by (auto simp: slipif_output_v4_def chain_def)
qed

text \<open>The datagram that is forwarded for \<open>D\<close>, with a header of \<open>n\<close> bytes.\<close>

definition forwarded :: "nat \<Rightarrow> u8 list \<Rightarrow> u8 list \<Rightarrow> bool" where
  "forwarded n D D' \<longleftrightarrow> length D' = length D \<and> inet_checksum_of (take n D') = 0 \<and> D' ! 8 = D ! 8 - 1
     \<and> (\<forall>i. i < length D \<longrightarrow> i \<notin> {8, 10, 11} \<longrightarrow> D' ! i = D ! i)"

lemma packet_nth:
  assumes "packet E p D s" "pbufs s p = Some b" "pb_payload b = Some pl" "i < pb_len b"
  shows "bytes s (pl + i) = D ! i" "i < length D"
proof -
  from assms(1) obtain xs where a: "rd (bytes s) pl (pb_len b) = take (pb_len b) D" "pb_tot_len b = length D" "pb_len b \<le> pb_tot_len b"
    using assms(2,3) by (auto elim!: packetE)
  from a(1) assms(4) have "rd (bytes s) pl (pb_len b) ! i = D ! i" by simp
  with assms(4) show "bytes s (pl + i) = D ! i" by simp
  show "i < length D" using assms(4) a by simp
qed

lemma forward_rewrites:
  assumes pk: "packet E p D s" and b: "pbufs s p = Some b" "pb_payload b = Some ih" and n: "20 \<le> n" "n \<le> pb_len b"
    and ok: "inet_checksum_of (take n D) = 0" and ttl: "D ! 8 \<noteq> 0" and v: "drop_bit 4 (D ! 0) \<noteq> 0"
  shows "\<exists>D'. packet E p D' (s\<lparr>bytes := fix_chksum ih (dec_ttl ih (bytes s))\<rparr>) \<and> forwarded n D D'"
proof -
  let ?M = "bytes s" and ?M' = "fix_chksum ih (dec_ttl ih (bytes s))"
  have at: "?M (ih + i) = D ! i" "i < length D" if "i < n" for i using packet_nth [OF pk b, of i] that n by simp_all
  have len: "n \<le> length D" using at(2) [of "n - 1"] n by simp
  have "rd ?M ih n = take n D" by (rule nth_equalityI) (use at(1) len in auto)
  then have "header_ok ?M ih n" "IPH_TTL ?M ih \<noteq> 0" "IPH_V ?M ih \<noteq> 0"
    using ok ttl v at(1) [of 8] at(1) [of 0] n by (simp_all add: header_ok_def IPH_TTL_def IPH_V_def)
  note f = forward_header_ok [OF this(1) n(1) this(2,3)]
  let ?zs = "rd ?M' ih n" and ?D = "rd ?M' ih n @ drop n D"
  have "?M' = wr ?M ih ?zs" by (rule eq_wrI) (use n f(3) in \<open>auto simp: list_all_iff\<close>)
  then have "packet E p ?D (s\<lparr>bytes := ?M'\<rparr>)" using packet_write [OF pk b, of ?zs] n by simp
  moreover have "?D ! i = D ! i" if "i < length D" "i \<notin> {8, 10, 11}" for i
    using that len at(1) f(3) [of "ih + i"] by (simp add: nth_append)
  moreover have "inet_checksum_of (take n ?D) = 0" "?D ! 8 = D ! 8 - 1" using f(1,2) at(1) [of 8] n by (simp_all add: header_ok_def IPH_TTL_def nth_append)
  ultimately have "packet E p ?D (s\<lparr>bytes := ?M'\<rparr>) \<and> forwarded n D ?D" using len by (simp add: forwarded_def)
  then show ?thesis by blast
qed

lemma forward_ok_line:
  assumes uart: "uart_ok (UART_write env) line" and pk: "packet E p D (bufs st)" and b: "pbufs (bufs st) p = Some b" "pb_payload b = Some ih"
    and n: "20 \<le> n" "n \<le> pb_len b" and ok: "inet_checksum_of (take n D) = 0" "drop_bit 4 (D ! 0) \<noteq> 0" and ttl: "1 < unat (D ! 8)"
    and dest: "dest = current_iphdr_dest (ip_data st)" "ip4_canforward b dest" "\<not> ip4_addr_islinklocal dest"
    and route: "ip4_route dest st = Some (Some a, st)" "a \<noteq> inp"
    and netif: "netif_at (ifs st) a = Some m" "nf_output m = Some slipif_output_v4_fn" "mtu m = 0 \<or> length D \<le> unat (mtu m)"
  shows "\<exists>st' D'. ip4_forward env p ih inp st = Some st' \<and> line (rest st') = line (rest st) @ slip_frame D' \<and> packet E p D' (bufs st') \<and> forwarded n D D'"
proof -
  let ?M = "bytes (bufs st)"
  let ?st1 = "on_bytes (dec_ttl ih) st"
  let ?st2 = "on_stats (\<lambda>t. t\<lparr>ps_xmit := ps_xmit t + 1\<rparr>) (on_stats (\<lambda>t. t\<lparr>ps_fw := ps_fw t + 1\<rparr>) (on_bytes (fix_chksum ih) ?st1))"
  have "D ! 8 \<noteq> 0" using ttl by auto
  from forward_rewrites [OF pk b n ok(1) this ok(2)] obtain D' where D': "packet E p D' (bufs ?st2)" "forwarded n D D'" by (auto simp: comp_def)
  from packet_slip_output [OF uart D'(1)] obtain w' where
    w': "slipif_output_v4 (UART_write env) (Some p) dest (bufs ?st2) (rest st) = Some (ERR_OK, w')" "line w' = line (rest st) @ slip_frame D'" by blast
  have "pb_tot_len b = length D" using pk b by (auto elim!: packetE)
  moreover have "IPH_TTL (bytes (bufs ?st1)) ih \<noteq> 0"
  proof -
    have "?M (ih + 8) = D ! 8" using packet_nth(1) [OF pk b, of 8] n by simp
    with ttl show ?thesis by (auto simp: IPH_TTL_def dec_ttl_def word_unat_eq_iff unat_minus_one)
  qed
  moreover have "netif_output env a p dest ?st2 = Some (ERR_OK, ?st2\<lparr>rest := w'\<rparr>)" using w'(1) netif(1,2) by (simp add: netif_output_def)
  ultimately have "ip4_forward env p ih inp st = Some (?st2\<lparr>rest := w'\<rparr>)"
    using b(1) dest route netif unfolding ip4_forward_def by (simp add: Let_def del: stack_upd_simps(10)) auto
  with w'(2) D' show ?thesis by (intro exI [of _ "?st2\<lparr>rest := w'\<rparr>"] exI [of _ D']) simp
qed

section \<open>Delivery\<close>

definition upper_input :: "'w ip_env \<Rightarrow> u8 \<Rightarrow> (nat \<Rightarrow> nat \<Rightarrow> 'w stack \<Rightarrow> 'w stack option) option" where
  "upper_input env proto = (if proto = IP_PROTO_UDP \<or> proto = IP_PROTO_UDPLITE then Some (udp_input_fn env) else if proto = IP_PROTO_TCP then Some (tcp_input_fn env)
     else if proto = IP_PROTO_ICMP then Some (icmp_input_fn env) else None)"

definition no_packet :: ip_globals where
  "no_packet = \<lparr>current_netif = None, current_input_netif = None, current_ip4_header = None, current_ip_header_tot_len = 0,
     current_iphdr_src = IPADDR_ANY, current_iphdr_dest = IPADDR_ANY\<rparr>"

text \<open>A datagram to the address of the interface \<open>m\<close>, with a source that may be used as one.\<close>

definition for_us :: "netif \<Rightarrow> u32 \<Rightarrow> u32 \<Rightarrow> bool" where
  "for_us m src dest \<longleftrightarrow> netif_is_up m \<and> dest = ip_addr m \<and> dest \<noteq> IPADDR_ANY \<and> \<not> ip4_addr_ismulticast dest
     \<and> (src = IPADDR_ANY \<or> \<not> ip4_addr_isbroadcast_u32 src m \<and> \<not> ip4_addr_ismulticast src)"

lemma accept_own:
  assumes "netif_at (ifs st) inp = Some m" "for_us m src (current_iphdr_dest (ip_data st))"
  shows "ip4_accept env inp st = Some (Some inp)"
  using assms by (auto simp: ip4_accept_def Let_def accept_loop.simps [of _ _ _ _ True] netif_accepts_def for_us_def)

lemma ip4_input_gives:
  assumes pk: "packet E p (ip4_datagram_header src dest ttl tos proto (of_nat (length D + IP_HLEN)) ident @ D) (bufs st)" "length D + IP_HLEN < 65536"
    and b: "pbufs (bufs st) p = Some b" "IP_HLEN \<le> pb_len b" and m: "netif_at (ifs st) inp = Some m" "for_us m src dest"
    and raw: "\<And>t. \<lbrakk>bufs t = bufs st; ifs t = ifs st; rest t = rest st; current_netif (ip_data t) = Some inp\<rbrakk> \<Longrightarrow> raw_input_fn env p inp t = Some (False, t)" and f: "upper_input env proto = Some f"
  shows "\<exists>st1 ih. ip4_input env p inp st = map_option (\<lambda>st. (ERR_OK, st\<lparr>ip_data := no_packet\<rparr>)) (f p inp st1) \<and> packet E p D (bufs st1)
    \<and> ip_data st1 = \<lparr>current_netif = Some inp, current_input_netif = Some inp, current_ip4_header = Some ih, current_ip_header_tot_len = IP_HLEN,
        current_iphdr_src = src, current_iphdr_dest = dest\<rparr>
    \<and> IPH_PROTO (bytes (bufs st1)) ih = proto \<and> pbufs (bufs st1) p = Some (b\<lparr>pb_payload := Some (ih + IP_HLEN), pb_len := pb_len b - IP_HLEN, pb_tot_len := pb_tot_len b - IP_HLEN\<rparr>)
    \<and> ifs st1 = ifs st \<and> rest st1 = rest st"
proof -
  let ?h = "ip4_datagram_header src dest ttl tos proto (of_nat (length D + IP_HLEN)) ident"
  have hl: "length ?h = 20" by (simp add: ip4_datagram_header_def)
  obtain ih where ih: "pb_payload b = Some ih" "pb_tot_len b = length D + 20" using pk(1) b(1) hl by (auto elim!: packetE)
  let ?M = "bytes (bufs st)"
  have "?M (ih + i) = ?h ! i" if "i < 20" for i using packet_nth(1) [OF pk(1) b(1) ih(1), of i] that b(2) hl by (simp add: nth_append)
  then have "rd ?M ih 20 = ?h" by (intro nth_equalityI) (simp_all add: hl)
  then have hh: "has_header ?M ih src dest ttl tos proto (of_nat (length D + 20)) ident" by (simp add: has_header_def)
  note F = header_fields [OF hh]
  have len: "unat (of_nat (length D + 20) :: u16) = length D + 20" using pk(2) by (simp only: unat_u16_of_nat mod_less)
  let ?st3 = "(on_stats (\<lambda>t. t\<lparr>ps_recv := ps_recv t + 1\<rparr>) st)\<lparr>ip_data := (ip_data st)\<lparr>current_iphdr_dest := dest, current_iphdr_src := src\<rparr>\<rparr>"
  have same: "(on_stats (\<lambda>t. t\<lparr>ps_recv := ps_recv t + 1\<rparr>) st)\<lparr>bufs := bufs st\<rparr> = on_stats (\<lambda>t. t\<lparr>ps_recv := ps_recv t + 1\<rparr>) st" by (simp add: on_stats_def)
  have acc: "ip4_accept env inp ?st3 = Some (Some inp)" by (rule accept_own) (use m in simp_all)
  have start: "ip4_input env p inp st = do { st \<leftarrow> ip4_deliver env p ih 20 inp inp ?st3; Some (ERR_OK, st) }"
    using b ih F len m acc unfolding ip4_input_def Let_def for_us_def by (auto simp: same)
  let ?b = "b\<lparr>pb_payload := Some (ih + 20), pb_len := pb_len b - 20, pb_tot_len := pb_tot_len b - 20\<rparr>"
  have hide: "pbuf_header (Some p) (- int 20) (bufs st) = Some (0, put_pbuf p ?b (bufs st))" "packet E p D (put_pbuf p ?b (bufs st))"
    using packet_hide [OF pk(1) _ b(1) ih(1), of 20] pk(2) b(2) hl by simp_all
  let ?d = "(ip_data st)\<lparr>current_iphdr_dest := dest, current_iphdr_src := src, current_netif := Some inp, current_input_netif := Some inp,
      current_ip4_header := Some ih, current_ip_header_tot_len := 20\<rparr>"
  let ?st1 = "?st3\<lparr>ip_data := ?d, bufs := put_pbuf p ?b (bufs st)\<rparr>"
  have "raw_input_fn env p inp (?st3\<lparr>ip_data := ?d\<rparr>) = Some (False, ?st3\<lparr>ip_data := ?d\<rparr>)" by (rule raw) simp_all
  then have "ip4_deliver env p ih 20 inp inp ?st3 = do { st \<leftarrow> f p inp ?st1; Some (st\<lparr>ip_data := no_packet\<rparr>) }"
    using hide(1) f F(2,6) unfolding ip4_deliver_def upper_input_def no_packet_def by (auto simp: Let_def split: if_splits)
  then have "ip4_input env p inp st = map_option (\<lambda>st. (ERR_OK, st\<lparr>ip_data := no_packet\<rparr>)) (f p inp ?st1)"
    unfolding start by (cases "f p inp ?st1") simp_all
  with hide(2) F(6) show ?thesis by (intro exI [of _ ?st1] exI [of _ ih]) simp
qed

section \<open>An example\<close>

text \<open>A packet of 70 bytes in one pbuf of the pool, with \<open>h\<close> written to its first bytes.\<close>

lemma example_datagram:
  assumes "length h = k" "k \<le> 70"
  obtains p b ih D s where "packet (\<lambda>_. 0) p (h @ D) s" "length D = 70 - k" "pbufs s p = Some b" "pb_payload b = Some ih" "pb_len b = 70" "pb_flags b = 0" "ih = p + 16" "pb_next b = None"
proof -
  have "pool_need PBUF_RAW 70 = 1" "card (pool_pbufs example_net) = 0" "unat (desc_num (pool_desc example_net)) = 16"
    by (simp_all add: pool_need_def pool_pbufs_def example_net_def example_net_pools_def)
  with alloc_pool_ok [OF example_net_ok, of 70 PBUF_RAW] obtain p xs s where
    p: "new_chain (\<lambda>_. 0) PBUF_RAW 70 PBUF_POOL example_net p xs s" "length xs = 1" by auto
  note parts = new_chain_parts [OF p(1)]
  from p(2) obtain x where x: "xs = [x]" by (auto simp: length_Suc_conv)
  with parts(2) have xs: "xs = [p]" by (simp add: chain_Cons)
  obtain b where b: "pbufs s p = Some b" "pb_payload b = Some (p + 16 + layer_offset PBUF_RAW)" "pb_flags b = 0" using p(1) xs by (auto simp: new_chain_def)
  have len: "pb_len b = 70" using parts(3) xs b by (simp add: plen_def)
  from new_packet [OF p(1)] obtain D where D: "length D = 70" "packet (\<lambda>_. 0) p D s" by blast
  from packet_write [OF D(2) b(1,2), of h] assms len have "packet (\<lambda>_. 0) p (h @ drop k D) (s\<lparr>bytes := wr (bytes s) (p + 16 + layer_offset PBUF_RAW) h\<rparr>)" by simp
  then show ?thesis by (rule that) (use D b len assms xs parts(2) in \<open>auto simp: chain_Cons\<close>)
qed

abbreviation example_header :: "u32 \<Rightarrow> u8 list" where
  "example_header dest \<equiv> ip4_datagram_header (IP4_ADDR 192 168 0 2) dest 64 0 IP_PROTO_UDP (of_nat (50 + IP_HLEN)) 7"

lemma example_header_simps: "length (example_header d) = 20" "example_header d ! 0 = 0x45" "example_header d ! 8 = 64"
  by (simp_all add: ip4_datagram_header_def ip4_header_def net16_def mem16_def mem32_def)

section \<open>Claims\<close>

text \<open>C9: forwarding. A packet with a valid header and a time to live above one, for which another serial interface is the route, is sent there unchanged, except that its time to
  live is one less and its header checksum is adapted to this, so that it still verifies.\<close>

theorem ip4_forward_sends:
  assumes "uart_ok (UART_write env) line" "packet E p D (bufs st)" "pbufs (bufs st) p = Some b" "pb_payload b = Some ih"
    and "20 \<le> n" "n \<le> pb_len b" "inet_checksum_of (take n D) = 0" "drop_bit 4 (D ! 0) \<noteq> 0" "1 < unat (D ! 8)"
    and "dest = current_iphdr_dest (ip_data st)" "ip4_canforward b dest" "\<not> ip4_addr_islinklocal dest"
    and "ip4_route dest st = Some (Some a, st)" "a \<noteq> inp"
    and "netif_at (ifs st) a = Some m" "nf_output m = Some slipif_output_v4_fn" "mtu m = 0 \<or> length D \<le> unat (mtu m)"
  shows "\<exists>st' D'. ip4_forward env p ih inp st = Some st' \<and> line (rest st') = line (rest st) @ slip_frame D' \<and> packet E p D' (bufs st') \<and> forwarded n D D'"
  by (rule forward_ok_line [OF assms])

theorem ip4_forward_sends_witness:
  "\<exists>p ih st st' D D'. packet (\<lambda>_. 0) p D (bufs st) \<and> ip4_forward example_env p ih 6 st = Some st' \<and> rest st' = slip_frame D' \<and> forwarded 20 D D'"
proof -
  let ?d = "IP4_ADDR 8 8 8 8"
  let ?h = "example_header ?d"
  obtain p b ih D s where p: "packet (\<lambda>_. 0) p (?h @ D) s" "length D = 50" "pbufs s p = Some b" "pb_payload b = Some ih" "pb_len b = 70" "pb_flags b = 0"
    by (rule example_datagram [OF example_header_simps(1)]) simp_all
  let ?x = "example_stack [] s :: u8 list stack"
  let ?st = "?x\<lparr>ip_data := (ip_data ?x)\<lparr>current_iphdr_dest := ?d\<rparr>\<rparr>"
  have u: "uart_ok (UART_write example_env) (\<lambda>w. w)" using examples_ok(1) by (simp add: example_env_def)
  have f: "ip4_canforward b ?d" "\<not> ip4_addr_islinklocal ?d"
    using p(6) by (simp_all add: ip4_canforward_def Let_def ip4_addr_islinklocal_def example_addrs lwip_htonl_def PP_HTONL_def)
  have r: "ip4_route ?d ?st = Some (Some 7, ?st)" using ip4_route_eq [of ?st "[6, 7]" ?d] by (simp add: example_host_linked example_routes example_host_at)
  have out: "netif_at (ifs ?st) 7 = Some example_uplink" "nf_output example_uplink = Some slipif_output_v4_fn" "mtu example_uplink = 0 \<or> length (?h @ D) \<le> unat (mtu example_uplink)"
    by (simp_all add: example_host_at) (simp_all add: example_uplink_def example_netif_def)
  have hdr: "inet_checksum_of (take 20 (?h @ D)) = 0" "drop_bit 4 ((?h @ D) ! 0) \<noteq> 0" "1 < unat ((?h @ D) ! 8)"
    using example_header_simps [of ?d] ip4_header_verifies by (simp_all add: nth_append)
  have pk: "packet (\<lambda>_. 0) p (?h @ D) (bufs ?st)" "pbufs (bufs ?st) p = Some b" "20 \<le> pb_len b" "?d = current_iphdr_dest (ip_data ?st)" "(7 :: nat) \<noteq> 6"
    using p by simp_all
  from ip4_forward_sends [OF u pk(1,2) p(4) order_refl pk(3) hdr pk(4) f r pk(5) out] pk(1) show ?thesis by fastforce
qed

text \<open>C18: delivery. A datagram to the address of the interface it arrives on, with a valid source address, is given to the protocol named in its header, with the IP header
  taken off and the addresses and the interface in the globals; afterwards the globals are cleared.\<close>

theorem ip4_input_delivers:
  assumes "packet E p (ip4_datagram_header src dest ttl tos proto (of_nat (length D + IP_HLEN)) ident @ D) (bufs st)" "length D + IP_HLEN < 65536"
    and "pbufs (bufs st) p = Some b" "IP_HLEN \<le> pb_len b" "netif_at (ifs st) inp = Some m" "for_us m src dest"
    and "\<And>t. \<lbrakk>bufs t = bufs st; ifs t = ifs st; rest t = rest st; current_netif (ip_data t) = Some inp\<rbrakk> \<Longrightarrow> raw_input_fn env p inp t = Some (False, t)" "upper_input env proto = Some f"
  shows "\<exists>st1 ih. ip4_input env p inp st = map_option (\<lambda>st. (ERR_OK, st\<lparr>ip_data := no_packet\<rparr>)) (f p inp st1) \<and> packet E p D (bufs st1)
    \<and> ip_data st1 = \<lparr>current_netif = Some inp, current_input_netif = Some inp, current_ip4_header = Some ih, current_ip_header_tot_len = IP_HLEN,
        current_iphdr_src = src, current_iphdr_dest = dest\<rparr>
    \<and> IPH_PROTO (bytes (bufs st1)) ih = proto \<and> pbufs (bufs st1) p = Some (b\<lparr>pb_payload := Some (ih + IP_HLEN), pb_len := pb_len b - IP_HLEN, pb_tot_len := pb_tot_len b - IP_HLEN\<rparr>)
    \<and> ifs st1 = ifs st \<and> rest st1 = rest st"
  by (rule ip4_input_gives [OF assms])

theorem ip4_input_delivers_witness:
  "\<exists>p D st st1. packet (\<lambda>_. 0) p (example_header (IP4_ADDR 192 168 0 1) @ D) (bufs st) \<and> packet (\<lambda>_. 0) p D (bufs st1)
     \<and> ip4_input example_env p 6 st = map_option (\<lambda>st. (ERR_OK, st\<lparr>ip_data := no_packet\<rparr>)) (ip_free p st1)"
proof -
  let ?d = "IP4_ADDR 192 168 0 1"
  let ?h = "example_header ?d"
  obtain p b D s where p: "packet (\<lambda>_. 0) p (?h @ D) s" "length D = 50" "pbufs s p = Some b" "pb_len b = 70"
    by (rule example_datagram [OF example_header_simps(1)]) simp_all
  let ?st = "example_stack [] s :: u8 list stack"
  have env: "raw_input_fn example_env q inp st = Some (False, st)" "upper_input example_env IP_PROTO_UDP = Some (\<lambda>p inp st. ip_free p st)" for q inp st
    by (simp_all add: example_env_def upper_input_def)
  have us: "for_us example_serial (IP4_ADDR 192 168 0 2) ?d"
    by (simp add: for_us_def netif_is_up_def example_serial_def example_netif_def example_addrs ip4_addr_ismulticast_def PP_HTONL_def
      ip4_addr_isbroadcast_u32_def ip4_addr_netcmp_def)
  have pk: "packet (\<lambda>_. 0) p (ip4_datagram_header (IP4_ADDR 192 168 0 2) ?d 64 0 IP_PROTO_UDP (of_nat (length D + IP_HLEN)) 7 @ D) (bufs ?st)"
    "length D + IP_HLEN < 65536" "pbufs (bufs ?st) p = Some b" "IP_HLEN \<le> pb_len b" "netif_at (ifs ?st) 6 = Some example_serial"
    using p by (simp_all add: example_host_at)
  have "packet (\<lambda>_. 0) p (?h @ D) (bufs ?st)" using p(1) by simp
  with ip4_input_delivers [OF pk us env] show ?thesis by blast
qed

text \<open>C5: invalid packets are dropped. A received packet whose header is not valid (wrong version, a header that is too short, longer than the first pbuf or longer than the datagram, a
  datagram that is longer than the packet, or a wrong header checksum) is released and counted as dropped, and \<open>ip4_input\<close> returns \<open>ERR_OK\<close>. The interfaces, the globals and
  the state of all other components are untouched, whatever the upper layers are: none of them is called.\<close>

theorem ip4_input_drops_invalid:
  assumes "packet E p D (bufs st)" "length D < 65536" "pbufs (bufs st) p = Some b" "4 \<le> pb_len b" "\<not> header_valid (pb_len b) D"
  shows "\<exists>st'. ip4_input env p inp st = Some (ERR_OK, st') \<and> net_ok E (bufs st') \<and> ifs st' = ifs st \<and> rest st' = rest st \<and> ip_data st' = ip_data st
    \<and> ip_id st' = ip_id st \<and> ps_drop (ip_stats st') = ps_drop (ip_stats st) + 1"
proof -
  obtain ih where ih: "pb_payload b = Some ih" "rd (bytes (bufs st)) ih (pb_len b) = take (pb_len b) D" "pb_len b \<le> length D" using assms(1,3) by (auto elim!: packetE)
  let ?st1 = "on_stats (\<lambda>t. t\<lparr>ps_recv := ps_recv t + 1\<rparr>) st" and ?M = "bytes (bufs st)"
  define hlen len where "hlen = 4 * (unat (D ! 0) mod 16)" and "len = 256 * unat (D ! 2) + unat (D ! 3)"
  have at: "?M (ih + i) = D ! i" if "i < pb_len b" for i using arg_cong [OF ih(2), of "\<lambda>xs. xs ! i"] that by simp
  have F: "IPH_V ?M ih = 4 \<longleftrightarrow> unat (D ! 0) div 16 = 4" "unat (IPH_HL ?M ih) * 4 = hlen" "unat (lwip_htons (IPH_LEN ?M ih)) = len"
    unfolding hlen_def len_def by (rule header_bytes; use at [of 0] at [of 2] at [of 3] assms(4) in simp)+
  obtain s' b' where c: "(if len < pb_tot_len b then pbuf_realloc (Some p) len (bufs st) else Some (bufs st)) = Some s'" "packet E p (take len D) s'" "bytes s' = ?M"
    "pbufs s' p = Some b'" "pb_payload b' = Some ih" "pb_len b' = min len (pb_len b)" "pb_tot_len b' = min len (length D)"
    by (rule cut_to_length [OF assms(1-3) ih(1)])
  have pk: "packet E p D (bufs ?st1)" "packet E p (take len D) (bufs (?st1\<lparr>bufs := s'\<rparr>))" using assms(1) c(2) by simp_all
  obtain s1 where s1: "ip_free p ?st1 = Some (?st1\<lparr>bufs := s1\<rparr>)" "net_ok E s1" by (rule packet_free_all [OF pk(1)])
  obtain s2 where s2: "ip_free p (?st1\<lparr>bufs := s'\<rparr>) = Some (?st1\<lparr>bufs := s'\<rparr>\<lparr>bufs := s2\<rparr>)" "net_ok E s2" by (rule packet_free_all [OF pk(2)])
  have sum: "inet_chksum (of_nat ih) (rd ?M ih hlen) = inet_checksum_of (take hlen D)" if "hlen \<le> pb_len b"
  proof -
    have "rd ?M ih hlen = take hlen D" by (rule nth_equalityI) (use at that ih(3) in auto)
    moreover have "length (take hlen D) \<le> 0x20000" using assms(2) by simp
    ultimately show ?thesis by (simp add: inet_chksum_eq)
  qed
  consider (v) "unat (D ! 0) div 16 \<noteq> 4" | (bad) "unat (D ! 0) div 16 = 4" "hlen > min len (pb_len b) \<or> len > min len (length D) \<or> hlen < 20"
    | (chk) "unat (D ! 0) div 16 = 4" "\<not> (hlen > min len (pb_len b) \<or> len > min len (length D) \<or> hlen < 20)" "inet_checksum_of (take hlen D) \<noteq> 0"
    using assms(5) unfolding header_valid_def Let_def hlen_def [symmetric] len_def [symmetric] by force
  then show ?thesis
  proof cases
    case v
    then have "ip4_input env p inp st = Some (ERR_OK, on_stats (\<lambda>t. t\<lparr>ps_err := ps_err t + 1, ps_drop := ps_drop t + 1\<rparr>) (?st1\<lparr>bufs := s1\<rparr>))"
      using assms(3) ih(1) F(1) s1(1) by (simp add: ip4_input_def Let_def)
    with s1(2) show ?thesis by (simp add: on_stats_def)
  next
    case bad
    then have "ip4_input env p inp st = Some (ERR_OK, on_stats (\<lambda>t. t\<lparr>ps_lenerr := ps_lenerr t + 1, ps_drop := ps_drop t + 1\<rparr>) (?st1\<lparr>bufs := s'\<rparr>\<lparr>bufs := s2\<rparr>))"
      using assms(3) ih(1) c(1,4,6,7) s2(1) F by (cases "len < pb_tot_len b") (simp_all add: ip4_input_def Let_def)
    with s2(2) show ?thesis by (simp add: on_stats_def)
  next
    case chk
    then have "hlen \<le> pb_len b" by linarith
    then have "inet_chksum (of_nat ih) (rd ?M ih hlen) \<noteq> 0" using sum chk(3) by simp
    with chk(1,2) have "ip4_input env p inp st = Some (ERR_OK, on_stats (\<lambda>t. t\<lparr>ps_chkerr := ps_chkerr t + 1, ps_drop := ps_drop t + 1\<rparr>) (?st1\<lparr>bufs := s'\<rparr>\<lparr>bufs := s2\<rparr>))"
      using assms(3) ih(1) c(1,3,4,6,7) s2(1) F by (cases "len < pb_tot_len b") (simp_all add: ip4_input_def Let_def)
    with s2(2) show ?thesis by (simp add: on_stats_def)
  qed
qed

text \<open>A packet of 70 bytes whose header has the right version and lengths and no checksum.\<close>

theorem ip4_input_drops_invalid_witness:
  "\<exists>p D st st'. packet (\<lambda>_. 0) p ([0x45, 0, 0, 70, 0, 0, 0, 0, 0, 0, 0, 0, 0, 0, 0, 0, 0, 0, 0, 0] @ D) (bufs st) \<and> ip4_input example_env p 6 st = Some (ERR_OK, st')
     \<and> net_ok (\<lambda>_. 0) (bufs st') \<and> ps_drop (ip_stats st') = ps_drop (ip_stats st) + 1"
proof -
  let ?h = "[0x45, 0, 0, 70, 0, 0, 0, 0, 0, 0, 0, 0, 0, 0, 0, 0, 0, 0, 0, 0] :: u8 list"
  have "length ?h = 20" by simp
  then obtain p b ih D s where p: "packet (\<lambda>_. 0) p (?h @ D) s" "length D = 50" "pbufs s p = Some b" "pb_payload b = Some ih" "pb_len b = 70"
    by (rule example_datagram) simp_all
  have "inet_checksum_of ?h \<noteq> 0" by (simp add: checksum_zero_iff)
  then have "\<not> header_valid (pb_len b) (?h @ D)" by (simp add: header_valid_def Let_def)
  with ip4_input_drops_invalid [of "\<lambda>_. 0" p "?h @ D" "example_stack [] s :: u8 list stack" b example_env 6] p
  show ?thesis by - (rule exI [of _ p], rule exI [of _ D], rule exI [of _ "example_stack [] s"], auto)
qed

end
