(* ===== verification/Protos.thy ===== *)
theory Protos
  imports Ip4_Path
begin

text \<open>
  The state of the protocols above IP, as \<^verbatim>\<open>include/lwip/ip.h\<close>, \<^verbatim>\<open>udp.h\<close>, \<^verbatim>\<open>raw.h\<close> and \<^verbatim>\<open>ip4_frag.h\<close> declare it. Protocol control blocks live in a store by address and
  are linked through their \<^verbatim>\<open>next\<close> fields. A callback is stored as a number, as a function pointer is; what the application's functions do is given by
  \<open>'v apps\<close>. The rest of the stack's state, \<open>'v protos\<close>, has the control blocks and \<open>dev\<close>, the state of the devices and applications.
\<close>

section \<open>Control blocks\<close>

record ip_pcb =
  local_ip :: u32
  remote_ip :: u32
  so_options :: u8
  tos :: u8
  ttl :: u8

record udp_pcb = ip_pcb +
  u_next :: ptr
  u_flags :: u8
  u_local_port :: u16
  u_remote_port :: u16
  u_chksum_len_rx :: u16
  u_chksum_len_tx :: u16
  u_recv :: "nat option"
  u_recv_arg :: ptr

record raw_pcb = ip_pcb +
  r_next :: ptr
  r_protocol :: u8
  r_recv :: "nat option"
  r_recv_arg :: ptr

record udp_state =
  udp_at :: "nat \<rightharpoonup> udp_pcb"
  udp_pcbs :: ptr
  udp_port :: u16
  udp_stats :: stats_proto

record raw_state =
  raw_at :: "nat \<rightharpoonup> raw_pcb"
  raw_pcbs :: ptr

text \<open>Datagrams under reassembly, as \<^verbatim>\<open>include/lwip/ip4_frag.h\<close> declares them, with a copy of the IP header.\<close>

record ip_reassdata =
  rs_next :: ptr
  rs_p :: ptr
  rs_iphdr :: "u8 list"
  rs_datagram_len :: u16
  rs_flags :: u8
  rs_timer :: u8

record reass_state =
  reass_at :: "nat \<rightharpoonup> ip_reassdata"
  reassdatagrams :: ptr
  ip_reass_pbufcount :: u16
  frag_stats :: stats_proto

record 'v protos =
  udp_st :: udp_state
  raw_st :: raw_state
  icmp_stats :: stats_proto
  reass_st :: reass_state
  dev :: 'v

type_synonym 'v lwip = "'v protos stack"

record 'v apps =
  udp_recv_fn :: "nat \<Rightarrow> ptr \<Rightarrow> nat \<Rightarrow> nat \<Rightarrow> u32 \<Rightarrow> u16 \<Rightarrow> 'v lwip \<Rightarrow> 'v lwip option"
  raw_recv_fn :: "nat \<Rightarrow> ptr \<Rightarrow> nat \<Rightarrow> nat \<Rightarrow> u32 \<Rightarrow> 'v lwip \<Rightarrow> (bool \<times> 'v lwip) option"

definition get_udp :: "'v lwip \<Rightarrow> udp_state" where
  "get_udp st = udp_st (rest st)"

definition on_udp :: "(udp_state \<Rightarrow> udp_state) \<Rightarrow> 'v lwip \<Rightarrow> 'v lwip" where
  "on_udp f st = st\<lparr>rest := (rest st)\<lparr>udp_st := f (udp_st (rest st))\<rparr>\<rparr>"

definition get_raw :: "'v lwip \<Rightarrow> raw_state" where
  "get_raw st = raw_st (rest st)"

definition on_raw :: "(raw_state \<Rightarrow> raw_state) \<Rightarrow> 'v lwip \<Rightarrow> 'v lwip" where
  "on_raw f st = st\<lparr>rest := (rest st)\<lparr>raw_st := f (raw_st (rest st))\<rparr>\<rparr>"

definition on_icmp :: "(stats_proto \<Rightarrow> stats_proto) \<Rightarrow> 'v lwip \<Rightarrow> 'v lwip" where
  "on_icmp f st = st\<lparr>rest := (rest st)\<lparr>icmp_stats := f (icmp_stats (rest st))\<rparr>\<rparr>"

definition get_reass :: "'v lwip \<Rightarrow> reass_state" where
  "get_reass st = reass_st (rest st)"

definition on_reass :: "(reass_state \<Rightarrow> reass_state) \<Rightarrow> 'v lwip \<Rightarrow> 'v lwip" where
  "on_reass f st = st\<lparr>rest := (rest st)\<lparr>reass_st := f (reass_st (rest st))\<rparr>\<rparr>"

text \<open>A device driver works on its own part of the state.\<close>

definition on_dev :: "(u8 \<Rightarrow> 'v \<Rightarrow> bool \<times> 'v) \<Rightarrow> u8 \<Rightarrow> 'v protos \<Rightarrow> bool \<times> 'v protos" where
  "on_dev write c w = (let (r, d) = write c (dev w) in (r, w\<lparr>dev := d\<rparr>))"

text \<open>The payloads of a chain, for the checksum functions.\<close>

partial_function (option) pbuf_payloads :: "net \<Rightarrow> ptr \<Rightarrow> payload list option" where
  "pbuf_payloads s p =
     (case p of
        None \<Rightarrow> Some []
      | Some a \<Rightarrow> Option.bind (pbufs s a) (\<lambda>b. Option.bind (pb_payload b) (\<lambda>pl.
          Option.bind (pbuf_payloads s (pb_next b)) (\<lambda>ps. Some ((of_nat pl, rd (bytes s) pl (pb_len b)) # ps)))))"

section \<open>Lemmas\<close>

lemma proto_upd_simps [simp]:
  "ifs (on_udp f st) = ifs st" "bufs (on_udp f st) = bufs st" "ip_data (on_udp f st) = ip_data st" "ip_id (on_udp f st) = ip_id st"
  "get_udp (on_udp f st) = f (get_udp st)" "get_raw (on_udp f st) = get_raw st"
  "ifs (on_raw g st) = ifs st" "bufs (on_raw g st) = bufs st" "ip_data (on_raw g st) = ip_data st" "ip_id (on_raw g st) = ip_id st"
  "get_udp (on_raw g st) = get_udp st" "get_raw (on_raw g st) = g (get_raw st)"
  "ifs (on_icmp h st) = ifs st" "bufs (on_icmp h st) = bufs st" "ip_data (on_icmp h st) = ip_data st" "ip_id (on_icmp h st) = ip_id st"
  "dev (rest (on_udp f st)) = dev (rest st)" "dev (rest (on_raw g st)) = dev (rest st)" "dev (rest (on_icmp h st)) = dev (rest st)"
  "get_reass (on_udp f st) = get_reass st" "get_reass (on_raw g st) = get_reass st" "get_reass (on_icmp h st) = get_reass st"
  by (simp_all add: get_udp_def on_udp_def get_raw_def on_raw_def on_icmp_def get_reass_def)

lemma reass_upd_simps [simp]:
  "ifs (on_reass f st) = ifs st" "bufs (on_reass f st) = bufs st" "ip_data (on_reass f st) = ip_data st" "ip_id (on_reass f st) = ip_id st"
  "get_reass (on_reass f st) = f (get_reass st)" "get_udp (on_reass f st) = get_udp st" "get_raw (on_reass f st) = get_raw st"
  "dev (rest (on_reass f st)) = dev (rest st)"
  by (simp_all add: get_reass_def on_reass_def get_udp_def get_raw_def)

lemma uart_on_dev: "uart_ok write line \<Longrightarrow> uart_ok (on_dev write) (\<lambda>w. line (dev w))"
  by (simp add: uart_ok_def on_dev_def split_beta)

lemma on_dev_keeps: "w'\<lparr>dev := undefined\<rparr> = w\<lparr>dev := undefined\<rparr>" if "w' = snd (on_dev write c w)"
  by (simp add: that on_dev_def split_beta)

lemma find_split:
  "find P xs = Some a \<Longrightarrow> \<exists>us vs. xs = us @ a # vs \<and> (\<forall>x \<in> set us. \<not> P x) \<and> P a"
proof (induction xs)
  case (Cons x xs)
  show ?case
  proof (cases "P x")
    case True
    with Cons.prems show ?thesis by (intro exI [of _ "[]"] exI [of _ xs]) simp
  next
    case False
    with Cons obtain us vs where "xs = us @ a # vs" "\<forall>x \<in> set us. \<not> P x" "P a" by auto
    with False show ?thesis by (intro exI [of _ "x # us"] exI [of _ vs]) simp
  qed
qed simp

text \<open>An element is moved from behind its predecessor \<open>q\<close> to the front.\<close>

lemma linked_move_front:
  assumes l: "linked nx m p (us @ q # a # vs)" and m: "m a = Some an" "m q = Some qn" and nx: "nx qn' = nx an" "nx an' = p"
  shows "linked nx (m(q \<mapsto> qn', a \<mapsto> an')) (Some a) (a # us @ q # vs)"
proof -
  have "linked nx (m(q \<mapsto> qn')) p (us @ q # vs)" by (rule linked_unlink [OF l m nx(1)])
  moreover have "a \<notin> set (us @ q # vs)" using linked_distinct [OF l] by auto
  ultimately show ?thesis using nx(2) by (intro linked_push)
qed

lemma pbuf_payloads_data:
  assumes "links (pbufs s) p xs" "payloads Q (pbufs s) xs" "chain_len (pbufs s) xs < 65536"
  shows "\<exists>ps. pbuf_payloads s p = Some ps \<and> payload_data ps = chain_data (pbufs s) (bytes s) xs \<and> chain_ok ps"
  using assms
proof (induction xs arbitrary: p)
  case Nil
  then show ?case by (subst pbuf_payloads.simps) simp
next
  case (Cons a xs)
  then obtain b pl where b: "p = Some a" "pbufs s a = Some b" "pb_payload b = Some pl" "links (pbufs s) (pb_next b) xs" "payloads Q (pbufs s) xs"
    by (auto split: option.splits)
  with Cons.prems(3) have len: "chain_len (pbufs s) xs < 65536" "pb_len b < 65536" by (simp_all add: plen_def)
  from Cons.IH [OF b(4,5) len(1)] b len show ?case by (subst pbuf_payloads.simps) (auto simp: pbytes_def)
qed

lemma tx_payloads:
  assumes "tx_packet E p k D s"
  shows "\<exists>ps. pbuf_payloads s (Some p) = Some ps \<and> payload_data ps = D \<and> chain_ok ps"
proof -
  from assms obtain xs where xs: "net_ok E s" "chain (pbufs s) (Some p) xs" "own_memory (pbufs s) xs" "chain_data (pbufs s) (bytes s) xs = D" "length D < 65536"
    by (auto simp: tx_packet_def)
  then have pl: "payloads (\<lambda>_ _. True) (pbufs s) xs" by (intro own_payloads) (simp_all add: net_ok_def)
  then have "chain_len (pbufs s) xs = length D" using length_chain_data [OF pl] xs(4) by metis
  with pbuf_payloads_data [OF _ pl, of "Some p"] xs show ?thesis by (auto simp: chain_def)
qed

lemma packet_payloads:
  assumes "packet E p D s" "length D < 65536"
  shows "\<exists>ps. pbuf_payloads s (Some p) = Some ps \<and> payload_data ps = D \<and> chain_ok ps"
proof -
  from assms obtain xs where xs: "net_ok (E(p := 1)) s" "chain (pbufs s) (Some p) xs" "own_memory (pbufs s) xs" "chain_data (pbufs s) (bytes s) xs = D"
    by (auto simp: packet_def)
  then have pl: "payloads (\<lambda>_ _. True) (pbufs s) xs" by (intro own_payloads) (simp_all add: net_ok_def)
  then have "chain_len (pbufs s) xs = length D" using length_chain_data [OF pl] xs(4) by metis
  with pbuf_payloads_data [OF _ pl, of "Some p"] xs assms(2) show ?thesis by (auto simp: chain_def)
qed

lemma load_net16: "load16 (ucast (drop_bit 8 w)) (ucast (w :: u16)) = lwip_htons w"
  using load_mem(1) [of "lwip_htons w"] mem16_htons [of w] unfolding mem16_def net16_def by (metis list.inject)

section \<open>An example\<close>

text \<open>Protocols without control blocks. The state of the device is what was sent on the line, and the upper layers drop what they get.\<close>

definition no_stats :: stats_proto where
  "no_stats = \<lparr>ps_xmit = 0, ps_recv = 0, ps_fw = 0, ps_drop = 0, ps_chkerr = 0, ps_lenerr = 0, ps_memerr = 0, ps_rterr = 0, ps_proterr = 0,
     ps_opterr = 0, ps_err = 0, ps_cachehit = 0\<rparr>"

definition example_protos :: "udp_state \<Rightarrow> u8 list protos" where
  "example_protos u = \<lparr>udp_st = u, raw_st = \<lparr>raw_at = Map.empty, raw_pcbs = None\<rparr>, icmp_stats = no_stats,
     reass_st = \<lparr>reass_at = Map.empty, reassdatagrams = None, ip_reass_pbufcount = 0, frag_stats = no_stats\<rparr>, dev = []\<rparr>"

definition proto_env :: "u8 list protos ip_env" where
  "proto_env = \<lparr>UART_write = on_dev example_uart, autoip_llipaddr = (\<lambda>a w. None), ip4_frag_fn = (\<lambda>p a d st. Some (ERR_MEM, st)),
     ip4_reass_fn = (\<lambda>p st. do { st \<leftarrow> ip_free p st; Some (None, st) }), icmp_dest_unreach_fn = (\<lambda>p t st. Some st), icmp_time_exceeded_fn = (\<lambda>p t st. Some st),
     raw_input_fn = (\<lambda>p inp st. Some (False, st)), udp_input_fn = (\<lambda>p inp st. ip_free p st), tcp_input_fn = (\<lambda>p inp st. ip_free p st), icmp_input_fn = (\<lambda>p inp st. ip_free p st)\<rparr>"

definition example_apps :: "u8 list apps" where
  "example_apps = \<lparr>udp_recv_fn = (\<lambda>f arg pcb p addr port st. ip_free p st), raw_recv_fn = (\<lambda>f arg pcb p addr st. Some (False, st))\<rparr>"

end
