(* ===== verification/Udp.thy ===== *)
theory Udp
  imports Protos
begin

text \<open>
  \<^verbatim>\<open>core/udp.c\<close>: the User Datagram Protocol and UDP-Lite, in the configuration of the port: IPv4 only, checksums generated and checked,
  \<^verbatim>\<open>SO_REUSE\<close>, \<^verbatim>\<open>IP_SOF_BROADCAST\<close>, \<^verbatim>\<open>LWIP_CHECKSUM_ON_COPY\<close> and the multicast options off. An address argument that may be \<^verbatim>\<open>NULL\<close> is a
  \<open>u32 option\<close>.
\<close>

section \<open>Definitions\<close>

abbreviation (input) UDP_HLEN :: nat where "UDP_HLEN \<equiv> 8"
abbreviation (input) UDP_TTL :: u8 where "UDP_TTL \<equiv> 255"
abbreviation (input) UDP_FLAGS_NOCHKSUM :: u8 where "UDP_FLAGS_NOCHKSUM \<equiv> 0x01"
abbreviation (input) UDP_FLAGS_UDPLITE :: u8 where "UDP_FLAGS_UDPLITE \<equiv> 0x02"
abbreviation (input) UDP_FLAGS_CONNECTED :: u8 where "UDP_FLAGS_CONNECTED \<equiv> 0x04"
abbreviation (input) UDP_LOCAL_PORT_RANGE_START :: u16 where "UDP_LOCAL_PORT_RANGE_START \<equiv> 0xC000"
abbreviation (input) UDP_LOCAL_PORT_RANGE_END :: u16 where "UDP_LOCAL_PORT_RANGE_END \<equiv> 0xFFFF"

definition put_upcb :: "nat \<Rightarrow> udp_pcb \<Rightarrow> udp_state \<Rightarrow> udp_state" where
  "put_upcb a b u = u\<lparr>udp_at := (udp_at u)(a \<mapsto> b)\<rparr>"

definition upd_upcb :: "nat \<Rightarrow> (udp_pcb \<Rightarrow> udp_pcb) \<Rightarrow> udp_state \<Rightarrow> udp_state option" where
  "upd_upcb a f u = do { b \<leftarrow> udp_at u a; Some (put_upcb a (f b) u) }"

definition udp_stat :: "(stats_proto \<Rightarrow> stats_proto) \<Rightarrow> 'v lwip \<Rightarrow> 'v lwip" where
  "udp_stat f = on_udp (\<lambda>u. u\<lparr>udp_stats := f (udp_stats u)\<rparr>)"

text \<open>The fields of \<^verbatim>\<open>struct udp_hdr\<close>, as they are in memory.\<close>

definition udphdr_src :: "(nat \<Rightarrow> u8) \<Rightarrow> nat \<Rightarrow> u16" where "udphdr_src M h = get16 M h"
definition udphdr_dest :: "(nat \<Rightarrow> u8) \<Rightarrow> nat \<Rightarrow> u16" where "udphdr_dest M h = get16 M (h + 2)"
definition udphdr_len :: "(nat \<Rightarrow> u8) \<Rightarrow> nat \<Rightarrow> u16" where "udphdr_len M h = get16 M (h + 4)"
definition udphdr_chksum :: "(nat \<Rightarrow> u8) \<Rightarrow> nat \<Rightarrow> u16" where "udphdr_chksum M h = get16 M (h + 6)"

subsection \<open>Local ports\<close>

partial_function (option) port_used :: "udp_state \<Rightarrow> u16 \<Rightarrow> ptr \<Rightarrow> bool option" where
  "port_used u port p =
     (case p of
        None \<Rightarrow> Some False
      | Some a \<Rightarrow> Option.bind (udp_at u a) (\<lambda>b. if u_local_port b = port then Some True else port_used u port (u_next b)))"

function new_port_loop :: "nat \<Rightarrow> udp_state \<Rightarrow> (u16 \<times> udp_state) option" where
  "new_port_loop n u = do {
     let port = (if udp_port u = UDP_LOCAL_PORT_RANGE_END then UDP_LOCAL_PORT_RANGE_START else udp_port u + 1);
     let u = u\<lparr>udp_port := port\<rparr>;
     used \<leftarrow> port_used u port (udp_pcbs u);
     if used then
       if n + 1 > unat (UDP_LOCAL_PORT_RANGE_END - UDP_LOCAL_PORT_RANGE_START) then Some (0, u) else new_port_loop (n + 1) u
     else Some (port, u)
   }"
  by pat_completeness auto
termination by (relation "measure (\<lambda>(n, u). 0x4000 - n)") (auto simp: unat_eq_nat_uint)
declare new_port_loop.simps [simp del]

definition udp_new_port :: "udp_state \<Rightarrow> (u16 \<times> udp_state) option" where
  "udp_new_port u = new_port_loop 0 u"

subsection \<open>Binding\<close>

partial_function (option) on_list :: "udp_state \<Rightarrow> nat \<Rightarrow> ptr \<Rightarrow> bool option" where
  "on_list u pcb p =
     (case p of
        None \<Rightarrow> Some False
      | Some a \<Rightarrow> if pcb = a then Some True else Option.bind (udp_at u a) (\<lambda>b. on_list u pcb (u_next b)))"

partial_function (option) bind_clash :: "udp_state \<Rightarrow> nat \<Rightarrow> u32 \<Rightarrow> u16 \<Rightarrow> ptr \<Rightarrow> bool option" where
  "bind_clash u pcb ipaddr port p =
     (case p of
        None \<Rightarrow> Some False
      | Some a \<Rightarrow> Option.bind (udp_at u a) (\<lambda>b.
          if pcb \<noteq> a \<and> u_local_port b = port \<and> local_ip b = ipaddr then Some True else bind_clash u pcb ipaddr port (u_next b)))"

definition udp_bind :: "ptr \<Rightarrow> u32 option \<Rightarrow> u16 \<Rightarrow> udp_state \<Rightarrow> (err_t \<times> udp_state) option" where
  "udp_bind pcb ipaddr port u =
     (let ipaddr = (case ipaddr of None \<Rightarrow> IPADDR_ANY | Some a \<Rightarrow> a) in
      case pcb of
        None \<Rightarrow> Some (ERR_VAL, u)
      | Some pcb \<Rightarrow> do {
          rebind \<leftarrow> on_list u pcb (udp_pcbs u);
          (err, port, u) \<leftarrow> (if port = 0 then do {
              (port, u) \<leftarrow> udp_new_port u;
              Some (if port = 0 then ERR_USE else ERR_OK, port, u)
            } else do {
              clash \<leftarrow> bind_clash u pcb ipaddr port (udp_pcbs u);
              Some (if clash then ERR_USE else ERR_OK, port, u)
            });
          if err \<noteq> ERR_OK then Some (err, u)
          else do {
            u \<leftarrow> upd_upcb pcb (\<lambda>b. b\<lparr>local_ip := ipaddr, u_local_port := port\<rparr>) u;
            if rebind then Some (ERR_OK, u)
            else do {
              u \<leftarrow> upd_upcb pcb (\<lambda>b. b\<lparr>u_next := udp_pcbs u\<rparr>) u;
              Some (ERR_OK, u\<lparr>udp_pcbs := Some pcb\<rparr>)
            }
          }
        })"

definition udp_connect :: "ptr \<Rightarrow> u32 option \<Rightarrow> u16 \<Rightarrow> udp_state \<Rightarrow> (err_t \<times> udp_state) option" where
  "udp_connect pcb ipaddr port u =
     (case (pcb, ipaddr) of
        (Some pcb, Some ipaddr) \<Rightarrow> do {
          b \<leftarrow> udp_at u pcb;
          (err, u) \<leftarrow> (if u_local_port b = 0 then udp_bind (Some pcb) (Some (local_ip b)) (u_local_port b) u else Some (ERR_OK, u));
          if err \<noteq> ERR_OK then Some (err, u)
          else do {
            u \<leftarrow> upd_upcb pcb (\<lambda>b. b\<lparr>remote_ip := ipaddr, u_remote_port := port, u_flags := u_flags b OR UDP_FLAGS_CONNECTED\<rparr>) u;
            found \<leftarrow> on_list u pcb (udp_pcbs u);
            if found then Some (ERR_OK, u)
            else do {
              u \<leftarrow> upd_upcb pcb (\<lambda>b. b\<lparr>u_next := udp_pcbs u\<rparr>) u;
              Some (ERR_OK, u\<lparr>udp_pcbs := Some pcb\<rparr>)
            }
          }
        }
      | _ \<Rightarrow> Some (ERR_VAL, u))"

definition udp_disconnect :: "nat \<Rightarrow> udp_state \<Rightarrow> udp_state option" where
  "udp_disconnect pcb u = upd_upcb pcb (\<lambda>b. b\<lparr>remote_ip := IPADDR_ANY, u_remote_port := 0, u_flags := u_flags b AND NOT UDP_FLAGS_CONNECTED\<rparr>) u"

definition udp_recv :: "nat \<Rightarrow> nat option \<Rightarrow> ptr \<Rightarrow> udp_state \<Rightarrow> udp_state option" where
  "udp_recv pcb recv recv_arg u = upd_upcb pcb (\<lambda>b. b\<lparr>u_recv := recv, u_recv_arg := recv_arg\<rparr>) u"

partial_function (option) unlink_loop :: "udp_state \<Rightarrow> nat \<Rightarrow> ptr \<Rightarrow> udp_state option" where
  "unlink_loop u pcb pcb2 =
     (case pcb2 of
        None \<Rightarrow> Some u
      | Some a \<Rightarrow> Option.bind (udp_at u a) (\<lambda>b.
          if u_next b = Some pcb then Option.bind (udp_at u pcb) (\<lambda>c. Some (put_upcb a (b\<lparr>u_next := u_next c\<rparr>) u))
          else unlink_loop u pcb (u_next b)))"

definition udp_remove :: "nat \<Rightarrow> 'v lwip \<Rightarrow> 'v lwip option" where
  "udp_remove pcb st = do {
     let u = get_udp st;
     u \<leftarrow> (if udp_pcbs u = Some pcb then do { b \<leftarrow> udp_at u pcb; Some (u\<lparr>udp_pcbs := u_next b\<rparr>) } else unlink_loop u pcb (udp_pcbs u));
     m \<leftarrow> memp_free (net_pools (bufs st)) MEMP_UDP_PCB (Some pcb) (net_memp (bufs st));
     Some (on_udp (\<lambda>_. u\<lparr>udp_at := (udp_at u)(pcb := None)\<rparr>) (st\<lparr>bufs := (bufs st)\<lparr>net_memp := m\<rparr>\<rparr>))
   }"

definition new_udp_pcb :: udp_pcb where
  "new_udp_pcb = \<lparr>local_ip = 0, remote_ip = 0, so_options = 0, tos = 0, ttl = UDP_TTL, u_next = None, u_flags = 0, u_local_port = 0, u_remote_port = 0,
     u_chksum_len_rx = 0, u_chksum_len_tx = 0, u_recv = None, u_recv_arg = None\<rparr>"

definition udp_new :: "'v lwip \<Rightarrow> (ptr \<times> 'v lwip) option" where
  "udp_new st = do {
     (pcb, m) \<leftarrow> memp_malloc (net_pools (bufs st)) MEMP_UDP_PCB (net_memp (bufs st));
     let st = st\<lparr>bufs := (bufs st)\<lparr>net_memp := m\<rparr>\<rparr>;
     case pcb of
       None \<Rightarrow> Some (None, st)
     | Some a \<Rightarrow> Some (Some a, on_udp (put_upcb a new_udp_pcb) st)
   }"

definition udp_new_ip_type :: "u8 \<Rightarrow> 'v lwip \<Rightarrow> (ptr \<times> 'v lwip) option" where
  "udp_new_ip_type type st = udp_new st"

partial_function (option) addr_changed_loop :: "u32 \<Rightarrow> u32 \<Rightarrow> ptr \<Rightarrow> udp_state \<Rightarrow> udp_state option" where
  "addr_changed_loop old_addr new_addr p u =
     (case p of
        None \<Rightarrow> Some u
      | Some a \<Rightarrow> Option.bind (udp_at u a) (\<lambda>b.
          if local_ip b = old_addr then addr_changed_loop old_addr new_addr (u_next b) (put_upcb a (b\<lparr>local_ip := new_addr\<rparr>) u)
          else addr_changed_loop old_addr new_addr (u_next b) u))"

text \<open>\<open>new_addr\<close> is \<open>None\<close> for the null pointer that \<open>netif_remove\<close> passes; \<^verbatim>\<open>ip_addr_isany\<close> holds of it.\<close>

definition udp_netif_ip_addr_changed :: "u32 \<Rightarrow> u32 option \<Rightarrow> udp_state \<Rightarrow> udp_state option" where
  "udp_netif_ip_addr_changed old_addr new_addr u =
     (case new_addr of
        None \<Rightarrow> Some u
      | Some new_addr \<Rightarrow>
          if old_addr \<noteq> IPADDR_ANY \<and> new_addr \<noteq> IPADDR_ANY then addr_changed_loop old_addr new_addr (udp_pcbs u) u else Some u)"

subsection \<open>Input\<close>

definition udp_input_local_match :: "ip_globals \<Rightarrow> netif \<Rightarrow> bool \<Rightarrow> udp_pcb \<Rightarrow> bool" where
  "udp_input_local_match g inp broadcast b =
     (if broadcast then local_ip b = IPADDR_ANY \<or> current_iphdr_dest g = IPADDR_BROADCAST \<or> ip4_addr_netcmp (local_ip b) (current_iphdr_dest g) (netmask inp)
      else local_ip b = IPADDR_ANY \<or> local_ip b = current_iphdr_dest g)"

text \<open>The search for the control block a datagram is for. The result has the block that matches fully, its predecessor in the list, and the first unconnected
  block that matches the local address and port.\<close>

partial_function (option) udp_search ::
  "udp_state \<Rightarrow> (udp_pcb \<Rightarrow> bool) \<Rightarrow> (udp_pcb \<Rightarrow> bool) \<Rightarrow> ptr \<Rightarrow> ptr \<Rightarrow> ptr \<Rightarrow> (ptr \<times> ptr \<times> ptr) option" where
  "udp_search u here peer pcb prev uncon_pcb =
     (case pcb of
        None \<Rightarrow> Some (None, prev, uncon_pcb)
      | Some a \<Rightarrow> Option.bind (udp_at u a) (\<lambda>b.
          if here b then
            let uncon_pcb = (if u_flags b AND UDP_FLAGS_CONNECTED = 0 \<and> uncon_pcb = None then Some a else uncon_pcb) in
            if peer b then Some (Some a, prev, uncon_pcb) else udp_search u here peer (u_next b) (Some a) uncon_pcb
          else udp_search u here peer (u_next b) (Some a) uncon_pcb))"

definition udp_find :: "u16 \<Rightarrow> u16 \<Rightarrow> bool \<Rightarrow> netif \<Rightarrow> ip_globals \<Rightarrow> udp_state \<Rightarrow> (ptr \<times> udp_state) option" where
  "udp_find src dest broadcast inp g u = do {
     (pcb, prev, uncon_pcb) \<leftarrow> udp_search u
       (\<lambda>b. u_local_port b = dest \<and> udp_input_local_match g inp broadcast b)
       (\<lambda>b. u_remote_port b = src \<and> (remote_ip b = IPADDR_ANY \<or> remote_ip b = current_iphdr_src g))
       (udp_pcbs u) None None;
     case pcb of
       None \<Rightarrow> Some (uncon_pcb, u)
     | Some a \<Rightarrow>
         (case prev of
            None \<Rightarrow> Some (Some a, u\<lparr>udp_stats := (udp_stats u)\<lparr>ps_cachehit := ps_cachehit (udp_stats u) + 1\<rparr>\<rparr>)
          | Some q \<Rightarrow> do {
              b \<leftarrow> udp_at u a;
              u \<leftarrow> upd_upcb q (\<lambda>c. c\<lparr>u_next := u_next b\<rparr>) u;
              u \<leftarrow> upd_upcb a (\<lambda>c. c\<lparr>u_next := udp_pcbs u\<rparr>) u;
              Some (Some a, u\<lparr>udp_pcbs := Some a\<rparr>)
            })
   }"

text \<open>The checksum of a datagram; \<open>False\<close> is the jump to \<^verbatim>\<open>chkerr\<close>.\<close>

definition udp_chksum_ok :: "nat \<Rightarrow> nat \<Rightarrow> ip_globals \<Rightarrow> net \<Rightarrow> bool option" where
  "udp_chksum_ok p udphdr g s = do {
     b \<leftarrow> pbufs s p;
     ih \<leftarrow> current_ip4_header g;
     let tot_len = of_nat (pb_tot_len b);
     if IPH_PROTO (bytes s) ih = IP_PROTO_UDPLITE then do {
       let chklen = lwip_htons (udphdr_len (bytes s) udphdr);
       if chklen < of_nat UDP_HLEN \<and> chklen \<noteq> 0 then Some False
       else do {
         let chklen = (if chklen < of_nat UDP_HLEN then tot_len else chklen);
         ps \<leftarrow> pbuf_payloads s (Some p);
         c \<leftarrow> ip_chksum_pseudo_partial ps IP_PROTO_UDPLITE tot_len chklen (current_iphdr_src g) (current_iphdr_dest g);
         Some (c = 0)
       }
     } else if udphdr_chksum (bytes s) udphdr \<noteq> 0 then do {
       ps \<leftarrow> pbuf_payloads s (Some p);
       Some (ip_chksum_pseudo ps IP_PROTO_UDP tot_len (current_iphdr_src g) (current_iphdr_dest g) = 0)
     } else Some True
   }"

definition udp_input :: "'v protos ip_env \<Rightarrow> 'v apps \<Rightarrow> nat \<Rightarrow> nat \<Rightarrow> 'v lwip \<Rightarrow> 'v lwip option" where
  "udp_input env app p inp st = do {
     let st = udp_stat (\<lambda>t. t\<lparr>ps_recv := ps_recv t + 1\<rparr>) st;
     b \<leftarrow> pbufs (bufs st) p;
     if pb_len b < UDP_HLEN then ip_free p (udp_stat (\<lambda>t. t\<lparr>ps_lenerr := ps_lenerr t + 1, ps_drop := ps_drop t + 1\<rparr>) st)
     else do {
       udphdr \<leftarrow> pb_payload b;
       let g = ip_data st;
       cur \<leftarrow> current_netif g;
       cn \<leftarrow> netif_at (ifs st) cur;
       n \<leftarrow> netif_at (ifs st) inp;
       let broadcast = ip4_addr_isbroadcast_u32 (current_iphdr_dest g) cn;
       let src = lwip_htons (udphdr_src (bytes (bufs st)) udphdr);
       let dest = lwip_htons (udphdr_dest (bytes (bufs st)) udphdr);
       (pcb, u) \<leftarrow> udp_find src dest broadcast n g (get_udp st);
       let st = on_udp (\<lambda>_. u) st;
       if pcb \<noteq> None \<or> ip_addr n = current_iphdr_dest g then do {
         ok \<leftarrow> udp_chksum_ok p udphdr g (bufs st);
         if \<not> ok then ip_free p (udp_stat (\<lambda>t. t\<lparr>ps_chkerr := ps_chkerr t + 1, ps_drop := ps_drop t + 1\<rparr>) st)
         else do {
           (r, s) \<leftarrow> pbuf_header (Some p) (- int UDP_HLEN) (bufs st);
           lwip_assert (r = 0);
           let st = st\<lparr>bufs := s\<rparr>;
           case pcb of
             Some a \<Rightarrow> do {
               c \<leftarrow> udp_at (get_udp st) a;
               case u_recv c of
                 Some f \<Rightarrow> udp_recv_fn app f (u_recv_arg c) a p (current_iphdr_src g) src st
               | None \<Rightarrow> ip_free p st
             }
           | None \<Rightarrow> do {
               st \<leftarrow> (if \<not> broadcast \<and> \<not> ip4_addr_ismulticast (current_iphdr_dest g) then do {
                   (_, s) \<leftarrow> pbuf_header_force (Some p) (int (current_ip_header_tot_len g + UDP_HLEN)) (bufs st);
                   icmp_dest_unreach_fn env p ICMP_DUR_PORT (st\<lparr>bufs := s\<rparr>)
                 } else Some st);
               ip_free p (udp_stat (\<lambda>t. t\<lparr>ps_proterr := ps_proterr t + 1, ps_drop := ps_drop t + 1\<rparr>) st)
             }
         }
       } else ip_free p st
     }
   }"

subsection \<open>Output\<close>

text \<open>The header that \<open>udp_sendto_if_src\<close> writes at \<open>h\<close>; \<open>ps\<close> gives the payloads of the packet with the checksum field still zero.\<close>

definition udp_write_hdr :: "nat \<Rightarrow> udp_pcb \<Rightarrow> u16 \<Rightarrow> (nat \<Rightarrow> u8) \<Rightarrow> nat \<Rightarrow> u8" where
  "udp_write_hdr h b dst_port M = put16 (h + 6) 0 (put16 (h + 2) (lwip_htons dst_port) (put16 h (lwip_htons (u_local_port b)) M))"

definition udp_fill :: "nat \<Rightarrow> nat \<Rightarrow> nat \<Rightarrow> udp_pcb \<Rightarrow> u32 \<Rightarrow> u32 \<Rightarrow> net \<Rightarrow> (u8 \<times> net) option" where
  "udp_fill q udphdr tot_len b src_ip dst_ip s = do {
     let tot = of_nat tot_len;
     if u_flags b AND UDP_FLAGS_UDPLITE \<noteq> 0 then do {
       let illegal = u_chksum_len_tx b < of_nat UDP_HLEN \<or> u_chksum_len_tx b > tot;
       let chklen_hdr = (if illegal then 0 else u_chksum_len_tx b);
       let chklen = (if illegal then tot else u_chksum_len_tx b);
       let s = s\<lparr>bytes := put16 (udphdr + 4) (lwip_htons chklen_hdr) (bytes s)\<rparr>;
       ps \<leftarrow> pbuf_payloads s (Some q);
       c \<leftarrow> ip_chksum_pseudo_partial ps IP_PROTO_UDPLITE tot chklen src_ip dst_ip;
       Some (IP_PROTO_UDPLITE, s\<lparr>bytes := put16 (udphdr + 6) (if c = 0 then 0xFFFF else c) (bytes s)\<rparr>)
     } else do {
       let s = s\<lparr>bytes := put16 (udphdr + 4) (lwip_htons tot) (bytes s)\<rparr>;
       if u_flags b AND UDP_FLAGS_NOCHKSUM = 0 then do {
         ps \<leftarrow> pbuf_payloads s (Some q);
         let c = ip_chksum_pseudo ps IP_PROTO_UDP tot src_ip dst_ip;
         Some (IP_PROTO_UDP, s\<lparr>bytes := put16 (udphdr + 6) (if c = 0 then 0xFFFF else c) (bytes s)\<rparr>)
       } else Some (IP_PROTO_UDP, s)
     }
   }"

text \<open>Room for the header: in front of the data, or in a pbuf of its own.\<close>

definition udp_add_hdr :: "nat \<Rightarrow> net \<Rightarrow> (ptr \<times> net) option" where
  "udp_add_hdr p s = do {
     (r, s) \<leftarrow> pbuf_header (Some p) (int UDP_HLEN) s;
     if r \<noteq> 0 then do {
       (q, s) \<leftarrow> pbuf_alloc PBUF_IP UDP_HLEN PBUF_RAM s;
       case q of
         None \<Rightarrow> Some (None, s)
       | Some q \<Rightarrow> do {
           b \<leftarrow> pbufs s p;
           s \<leftarrow> (if pb_tot_len b \<noteq> 0 then pbuf_chain (Some q) (Some p) s else Some s);
           Some (Some q, s)
         }
     } else Some (Some p, s)
   }"

definition udp_sendto_if_src ::
  "'v protos ip_env \<Rightarrow> ptr \<Rightarrow> nat \<Rightarrow> u32 option \<Rightarrow> u16 \<Rightarrow> nat \<Rightarrow> u32 \<Rightarrow> 'v lwip \<Rightarrow> (err_t \<times> 'v lwip) option" where
  "udp_sendto_if_src env pcb p dst_ip dst_port netif src_ip st =
     (case (pcb, dst_ip) of
        (Some pcb, Some dst_ip) \<Rightarrow> do {
          b \<leftarrow> udp_at (get_udp st) pcb;
          (err, u) \<leftarrow> (if u_local_port b = 0 then udp_bind (Some pcb) (Some (local_ip b)) (u_local_port b) (get_udp st) else Some (ERR_OK, get_udp st));
          let st = on_udp (\<lambda>_. u) st;
          if err \<noteq> ERR_OK then Some (err, st)
          else do {
            b \<leftarrow> udp_at (get_udp st) pcb;
            (q, s) \<leftarrow> udp_add_hdr p (bufs st);
            let st = st\<lparr>bufs := s\<rparr>;
            case q of
              None \<Rightarrow> Some (ERR_MEM, st)
            | Some q \<Rightarrow> do {
                qb \<leftarrow> pbufs (bufs st) q;
                lwip_assert (pb_len qb \<ge> UDP_HLEN);
                udphdr \<leftarrow> pb_payload qb;
                let st = on_bytes (udp_write_hdr udphdr b dst_port) st;
                (ip_proto, s) \<leftarrow> udp_fill q udphdr (pb_tot_len qb) b src_ip dst_ip (bufs st);
                let st = st\<lparr>bufs := s\<rparr>;
                (err, st) \<leftarrow> ip4_output_if_src env q (Some src_ip) (Some dst_ip) (ttl b) (tos b) ip_proto netif st;
                st \<leftarrow> (if q \<noteq> p then ip_free q st else Some st);
                Some (err, udp_stat (\<lambda>t. t\<lparr>ps_xmit := ps_xmit t + 1\<rparr>) st)
              }
          }
        }
      | _ \<Rightarrow> Some (ERR_VAL, st))"

definition udp_sendto_if :: "'v protos ip_env \<Rightarrow> ptr \<Rightarrow> nat \<Rightarrow> u32 option \<Rightarrow> u16 \<Rightarrow> nat \<Rightarrow> 'v lwip \<Rightarrow> (err_t \<times> 'v lwip) option" where
  "udp_sendto_if env pcb p dst_ip dst_port netif st =
     (case (pcb, dst_ip) of
        (Some a, Some _) \<Rightarrow> do {
          b \<leftarrow> udp_at (get_udp st) a;
          n \<leftarrow> netif_at (ifs st) netif;
          if local_ip b = IPADDR_ANY \<or> ip4_addr_ismulticast (local_ip b) then udp_sendto_if_src env pcb p dst_ip dst_port netif (ip_addr n) st
          else if local_ip b \<noteq> ip_addr n then Some (ERR_RTE, st)
          else udp_sendto_if_src env pcb p dst_ip dst_port netif (local_ip b) st
        }
      | _ \<Rightarrow> Some (ERR_VAL, st))"

definition udp_sendto :: "'v protos ip_env \<Rightarrow> ptr \<Rightarrow> nat \<Rightarrow> u32 option \<Rightarrow> u16 \<Rightarrow> 'v lwip \<Rightarrow> (err_t \<times> 'v lwip) option" where
  "udp_sendto env pcb p dst_ip dst_port st =
     (case (pcb, dst_ip) of
        (Some _, Some dest) \<Rightarrow> do {
          (netif, st) \<leftarrow> ip4_route dest st;
          case netif of
            None \<Rightarrow> Some (ERR_RTE, udp_stat (\<lambda>t. t\<lparr>ps_rterr := ps_rterr t + 1\<rparr>) st)
          | Some netif \<Rightarrow> udp_sendto_if env pcb p dst_ip dst_port netif st
        }
      | _ \<Rightarrow> Some (ERR_VAL, st))"

definition udp_send :: "'v protos ip_env \<Rightarrow> ptr \<Rightarrow> nat \<Rightarrow> 'v lwip \<Rightarrow> (err_t \<times> 'v lwip) option" where
  "udp_send env pcb p st =
     (case pcb of
        None \<Rightarrow> Some (ERR_VAL, st)
      | Some a \<Rightarrow> do { b \<leftarrow> udp_at (get_udp st) a; udp_sendto env pcb p (Some (remote_ip b)) (u_remote_port b) st })"

end
