(* ===== verification/Raw.thy ===== *)
theory Raw
  imports Udp
begin

text \<open>
  \<^verbatim>\<open>core/raw.c\<close>: control blocks for applications that receive and send whole IP packets of a protocol, for IPv4 only. The receive callback says whether it has
  taken over the packet.
\<close>

section \<open>Definitions\<close>

abbreviation (input) RAW_TTL :: u8 where "RAW_TTL \<equiv> 255"

definition put_rpcb :: "nat \<Rightarrow> raw_pcb \<Rightarrow> raw_state \<Rightarrow> raw_state" where
  "put_rpcb a b u = u\<lparr>raw_at := (raw_at u)(a \<mapsto> b)\<rparr>"

definition upd_rpcb :: "nat \<Rightarrow> (raw_pcb \<Rightarrow> raw_pcb) \<Rightarrow> raw_state \<Rightarrow> raw_state option" where
  "upd_rpcb a f u = do { b \<leftarrow> raw_at u a; Some (put_rpcb a (f b) u) }"

subsection \<open>Input\<close>

definition raw_input_match :: "ip_globals \<Rightarrow> bool \<Rightarrow> raw_pcb \<Rightarrow> bool" where
  "raw_input_match g broadcast b =
     (if broadcast then local_ip b = IPADDR_ANY else local_ip b = IPADDR_ANY \<or> local_ip b = current_iphdr_dest g)"

text \<open>The control block that has taken the packet is moved to the front of the list.\<close>

definition raw_to_front :: "ptr \<Rightarrow> nat \<Rightarrow> raw_state \<Rightarrow> raw_state option" where
  "raw_to_front prev pcb u = do {
     b \<leftarrow> raw_at u pcb;
     case prev of
       None \<Rightarrow> Some u
     | Some q \<Rightarrow> do {
         u \<leftarrow> upd_rpcb q (\<lambda>c. c\<lparr>r_next := r_next b\<rparr>) u;
         u \<leftarrow> upd_rpcb pcb (\<lambda>c. c\<lparr>r_next := raw_pcbs u\<rparr>) u;
         Some (u\<lparr>raw_pcbs := Some pcb\<rparr>)
       }
   }"

partial_function (option) raw_loop :: "'v apps \<Rightarrow> nat \<Rightarrow> u8 \<Rightarrow> bool \<Rightarrow> ptr \<Rightarrow> ptr \<Rightarrow> 'v lwip \<Rightarrow> (bool \<times> 'v lwip) option" where
  "raw_loop app p proto broadcast prev pcb st =
     (case pcb of
        None \<Rightarrow> Some (False, st)
      | Some a \<Rightarrow> Option.bind (raw_at (get_raw st) a) (\<lambda>b.
          case (if r_protocol b = proto \<and> raw_input_match (ip_data st) broadcast b then r_recv b else None) of
            None \<Rightarrow> raw_loop app p proto broadcast (Some a) (r_next b) st
          | Some f \<Rightarrow> Option.bind (pbufs (bufs st) p) (\<lambda>pb.
              Option.bind (raw_recv_fn app f (r_recv_arg b) a p (current_iphdr_src (ip_data st)) st) (\<lambda>(eaten, st1).
                if eaten then Option.bind (raw_to_front prev a (get_raw st1)) (\<lambda>u. Some (True, on_raw (\<lambda>_. u) st1))
                else Option.bind (pbufs (bufs st1) p) (\<lambda>pb1. Option.bind (lwip_assert (pb_payload pb1 = pb_payload pb)) (\<lambda>_.
                  Option.bind (raw_at (get_raw st1) a) (\<lambda>b1. raw_loop app p proto broadcast (Some a) (r_next b1) st1)))))))"

definition raw_input :: "'v apps \<Rightarrow> nat \<Rightarrow> nat \<Rightarrow> 'v lwip \<Rightarrow> (bool \<times> 'v lwip) option" where
  "raw_input app p inp st = do {
     cur \<leftarrow> current_netif (ip_data st);
     cn \<leftarrow> netif_at (ifs st) cur;
     let broadcast = ip4_addr_isbroadcast_u32 (current_iphdr_dest (ip_data st)) cn;
     b \<leftarrow> pbufs (bufs st) p;
     iphdr \<leftarrow> pb_payload b;
     raw_loop app p (IPH_PROTO (bytes (bufs st)) iphdr) broadcast None (raw_pcbs (get_raw st)) st
   }"

subsection \<open>Control blocks\<close>

definition raw_bind :: "ptr \<Rightarrow> u32 option \<Rightarrow> raw_state \<Rightarrow> (err_t \<times> raw_state) option" where
  "raw_bind pcb ipaddr u =
     (case (pcb, ipaddr) of
        (Some a, Some x) \<Rightarrow> do { u \<leftarrow> upd_rpcb a (\<lambda>b. b\<lparr>local_ip := x\<rparr>) u; Some (ERR_OK, u) }
      | _ \<Rightarrow> Some (ERR_VAL, u))"

definition raw_connect :: "ptr \<Rightarrow> u32 option \<Rightarrow> raw_state \<Rightarrow> (err_t \<times> raw_state) option" where
  "raw_connect pcb ipaddr u =
     (case (pcb, ipaddr) of
        (Some a, Some x) \<Rightarrow> do { u \<leftarrow> upd_rpcb a (\<lambda>b. b\<lparr>remote_ip := x\<rparr>) u; Some (ERR_OK, u) }
      | _ \<Rightarrow> Some (ERR_VAL, u))"

definition raw_recv :: "nat \<Rightarrow> nat option \<Rightarrow> ptr \<Rightarrow> raw_state \<Rightarrow> raw_state option" where
  "raw_recv pcb recv recv_arg u = upd_rpcb pcb (\<lambda>b. b\<lparr>r_recv := recv, r_recv_arg := recv_arg\<rparr>) u"

partial_function (option) raw_unlink_loop :: "raw_state \<Rightarrow> nat \<Rightarrow> ptr \<Rightarrow> raw_state option" where
  "raw_unlink_loop u pcb pcb2 =
     (case pcb2 of
        None \<Rightarrow> Some u
      | Some a \<Rightarrow> Option.bind (raw_at u a) (\<lambda>b.
          if r_next b = Some pcb then Option.bind (raw_at u pcb) (\<lambda>c. Some (put_rpcb a (b\<lparr>r_next := r_next c\<rparr>) u))
          else raw_unlink_loop u pcb (r_next b)))"

definition raw_remove :: "nat \<Rightarrow> 'v lwip \<Rightarrow> 'v lwip option" where
  "raw_remove pcb st = do {
     let u = get_raw st;
     u \<leftarrow> (if raw_pcbs u = Some pcb then do { b \<leftarrow> raw_at u pcb; Some (u\<lparr>raw_pcbs := r_next b\<rparr>) } else raw_unlink_loop u pcb (raw_pcbs u));
     m \<leftarrow> memp_free (net_pools (bufs st)) MEMP_RAW_PCB (Some pcb) (net_memp (bufs st));
     Some (on_raw (\<lambda>_. u\<lparr>raw_at := (raw_at u)(pcb := None)\<rparr>) (st\<lparr>bufs := (bufs st)\<lparr>net_memp := m\<rparr>\<rparr>))
   }"

definition raw_new :: "u8 \<Rightarrow> 'v lwip \<Rightarrow> (ptr \<times> 'v lwip) option" where
  "raw_new proto st = do {
     (pcb, m) \<leftarrow> memp_malloc (net_pools (bufs st)) MEMP_RAW_PCB (net_memp (bufs st));
     let st = st\<lparr>bufs := (bufs st)\<lparr>net_memp := m\<rparr>\<rparr>;
     case pcb of
       None \<Rightarrow> Some (None, st)
     | Some a \<Rightarrow> Some (Some a, on_raw (\<lambda>u. put_rpcb a \<lparr>local_ip = 0, remote_ip = 0, so_options = 0, tos = 0, ttl = RAW_TTL, r_next = raw_pcbs u,
           r_protocol = proto, r_recv = None, r_recv_arg = None\<rparr> (u\<lparr>raw_pcbs := Some a\<rparr>)) st)
   }"

definition raw_new_ip_type :: "u8 \<Rightarrow> u8 \<Rightarrow> 'v lwip \<Rightarrow> (ptr \<times> 'v lwip) option" where
  "raw_new_ip_type type proto st = raw_new proto st"

partial_function (option) raw_addr_changed_loop :: "u32 \<Rightarrow> u32 \<Rightarrow> ptr \<Rightarrow> raw_state \<Rightarrow> raw_state option" where
  "raw_addr_changed_loop old_addr new_addr p u =
     (case p of
        None \<Rightarrow> Some u
      | Some a \<Rightarrow> Option.bind (raw_at u a) (\<lambda>b.
          if local_ip b = old_addr then raw_addr_changed_loop old_addr new_addr (r_next b) (put_rpcb a (b\<lparr>local_ip := new_addr\<rparr>) u)
          else raw_addr_changed_loop old_addr new_addr (r_next b) u))"

definition raw_netif_ip_addr_changed :: "u32 \<Rightarrow> u32 option \<Rightarrow> raw_state \<Rightarrow> raw_state option" where
  "raw_netif_ip_addr_changed old_addr new_addr u =
     (case new_addr of
        None \<Rightarrow> Some u
      | Some new_addr \<Rightarrow>
          if old_addr \<noteq> IPADDR_ANY \<and> new_addr \<noteq> IPADDR_ANY then raw_addr_changed_loop old_addr new_addr (raw_pcbs u) u else Some u)"

subsection \<open>Output\<close>

text \<open>The packet that is sent: the given one if it has room for the IP header, else one with an empty pbuf for the header in front.\<close>

definition raw_add_hdr :: "nat \<Rightarrow> net \<Rightarrow> (ptr \<times> net) option" where
  "raw_add_hdr p s = do {
     (r, s) \<leftarrow> pbuf_header (Some p) (int IP_HLEN) s;
     if r \<noteq> 0 then do {
       (q, s) \<leftarrow> pbuf_alloc PBUF_IP 0 PBUF_RAM s;
       case q of
         None \<Rightarrow> Some (None, s)
       | Some q \<Rightarrow> do {
           b \<leftarrow> pbufs s p;
           s \<leftarrow> (if pb_tot_len b \<noteq> 0 then pbuf_chain (Some q) (Some p) s else Some s);
           Some (Some q, s)
         }
     } else do {
       (r, s) \<leftarrow> pbuf_header (Some p) (- int IP_HLEN) s;
       lwip_assert (r = 0);
       Some (Some p, s)
     }
   }"

definition raw_sendto :: "'v protos ip_env \<Rightarrow> ptr \<Rightarrow> nat \<Rightarrow> u32 option \<Rightarrow> 'v lwip \<Rightarrow> (err_t \<times> 'v lwip) option" where
  "raw_sendto env pcb p ipaddr st =
     (case (pcb, ipaddr) of
        (Some pcb, Some ipaddr) \<Rightarrow> do {
          (q, s) \<leftarrow> raw_add_hdr p (bufs st);
          let st = st\<lparr>bufs := s\<rparr>;
          case q of
            None \<Rightarrow> Some (ERR_MEM, st)
          | Some q \<Rightarrow> do {
              b \<leftarrow> raw_at (get_raw st) pcb;
              (netif, st) \<leftarrow> ip4_route ipaddr st;
              case netif of
                None \<Rightarrow> do {
                  st \<leftarrow> (if q \<noteq> p then ip_free q st else Some st);
                  Some (ERR_RTE, st)
                }
              | Some netif \<Rightarrow> do {
                  n \<leftarrow> netif_at (ifs st) netif;
                  let src_ip = (if local_ip b = IPADDR_ANY then ip_addr n else local_ip b);
                  (err, st) \<leftarrow> ip4_output_if env q (Some src_ip) (Some ipaddr) (ttl b) (tos b) (r_protocol b) netif st;
                  st \<leftarrow> (if q \<noteq> p then ip_free q st else Some st);
                  Some (err, st)
                }
            }
        }
      | _ \<Rightarrow> Some (ERR_VAL, st))"

definition raw_send :: "'v protos ip_env \<Rightarrow> ptr \<Rightarrow> nat \<Rightarrow> 'v lwip \<Rightarrow> (err_t \<times> 'v lwip) option" where
  "raw_send env pcb p st =
     (case pcb of
        None \<Rightarrow> Some (ERR_VAL, st)
      | Some a \<Rightarrow> do { b \<leftarrow> raw_at (get_raw st) a; raw_sendto env pcb p (Some (remote_ip b)) st })"

end
