(* ===== verification/Udp_Bind.thy ===== *)
theory Udp_Bind
  imports Udp
begin

text \<open>
  The list of UDP control blocks: binding to ports, the choice of a free port, and the search for the block a datagram is for.
\<close>

section \<open>The list of control blocks\<close>

definition udp_linked :: "udp_state \<Rightarrow> nat list \<Rightarrow> bool" where
  "udp_linked u xs \<longleftrightarrow> linked u_next (udp_at u) (udp_pcbs u) xs"

definition pcb_has :: "udp_state \<Rightarrow> (udp_pcb \<Rightarrow> bool) \<Rightarrow> nat \<Rightarrow> bool" where
  "pcb_has u P a \<longleftrightarrow> (case udp_at u a of None \<Rightarrow> False | Some b \<Rightarrow> P b)"

lemma port_used_eq: "linked u_next (udp_at u) p xs \<Longrightarrow> port_used u port p = Some (\<exists>x \<in> set xs. pcb_has u (\<lambda>b. u_local_port b = port) x)"
proof (induction xs arbitrary: p)
  case Nil
  then show ?case by (subst port_used.simps) simp
next
  case (Cons a xs)
  then obtain b where b: "p = Some a" "udp_at u a = Some b" "linked u_next (udp_at u) (u_next b) xs" by (auto simp: linked_Cons)
  with Cons.IH [OF b(3)] show ?case by (subst port_used.simps) (simp add: pcb_has_def)
qed

lemma on_list_eq: "linked u_next (udp_at u) p xs \<Longrightarrow> on_list u a p = Some (a \<in> set xs)"
proof (induction xs arbitrary: p)
  case Nil
  then show ?case by (subst on_list.simps) simp
next
  case (Cons x xs)
  then obtain b where b: "p = Some x" "udp_at u x = Some b" "linked u_next (udp_at u) (u_next b) xs" by (auto simp: linked_Cons)
  with Cons.IH [OF b(3)] show ?case by (subst on_list.simps) simp
qed

lemma bind_clash_eq:
  "linked u_next (udp_at u) p xs \<Longrightarrow> bind_clash u a ip port p = Some (\<exists>x \<in> set xs. x \<noteq> a \<and> pcb_has u (\<lambda>b. u_local_port b = port \<and> local_ip b = ip) x)"
proof (induction xs arbitrary: p)
  case Nil
  then show ?case by (subst bind_clash.simps) simp
next
  case (Cons x xs)
  then obtain b where b: "p = Some x" "udp_at u x = Some b" "linked u_next (udp_at u) (u_next b) xs" by (auto simp: linked_Cons)
  with Cons.IH [OF b(3)] show ?case by (subst bind_clash.simps) (auto simp: pcb_has_def)
qed

section \<open>Free ports\<close>

text \<open>The \<open>k\<close>-th port that is tried.\<close>

definition cand :: "u16 \<Rightarrow> nat \<Rightarrow> u16" where
  "cand p k = of_nat (0xC000 + (unat p - 0xC000 + 1 + k) mod 0x4000)"

abbreviation (input) dynamic :: "u16 \<Rightarrow> bool" where
  "dynamic p \<equiv> UDP_LOCAL_PORT_RANGE_START \<le> p"

lemma unat_cand: "unat (cand p k) = 0xC000 + (unat p - 0xC000 + 1 + k) mod 0x4000"
  unfolding cand_def by (subst unat_u16_of_nat) simp

lemma cand_dynamic: "dynamic (cand p k)"
  by (simp add: word_le_nat_alt unat_cand)

lemma cand_next:
  assumes "dynamic p"
  shows "(if p = UDP_LOCAL_PORT_RANGE_END then UDP_LOCAL_PORT_RANGE_START else p + 1) = cand p 0"
proof (cases "p = 0xFFFF")
  case True
  then show ?thesis by (simp add: cand_def)
next
  case False
  have p: "0xC000 \<le> unat p" using assms by (simp add: word_le_nat_alt)
  have "unat p \<noteq> 0xFFFF" using False by (auto simp: word_unat_eq_iff)
  then have "unat p < 0xFFFF" using unat_u16_less [of p] by linarith
  then have "unat (p + 1) = unat p + 1" "unat (cand p 0) = unat p + 1" using p by (simp_all add: unat_add_u16 unat_cand)
  with False show ?thesis by (simp add: word_unat_eq_iff)
qed

lemma cand_cand: "cand (cand p n) k = cand p (n + 1 + k)"
proof -
  let ?a = "unat p - 0xC000 + 1 + n"
  have "(?a mod 0x4000 + (1 + k)) mod 0x4000 = (?a + (1 + k)) mod 0x4000" by (rule mod_add_left_eq)
  then show ?thesis by (simp add: word_unat_eq_iff unat_cand ac_simps)
qed

lemma cand_all:
  assumes "dynamic q"
  shows "\<exists>k < 0x4000. cand p k = q"
proof -
  let ?a = "unat p - 0xC000 + 1" and ?q = "unat q - 0xC000"
  let ?k = "(?q + 0x4000 - ?a) mod 0x4000"
  have q1: "0xC000 \<le> unat q" using assms by (simp add: word_le_nat_alt)
  moreover have "?q < 0x4000" using q1 unat_u16_less [of q] by linarith
  ultimately have q: "0xC000 \<le> unat q" "?q < 0x4000" .
  have a: "?a \<le> 0x4000" using unat_u16_less [of p] by linarith
  have "(?a + ?k) mod 0x4000 = (?a + (?q + 0x4000 - ?a)) mod 0x4000" by (rule mod_add_right_eq)
  also have "?a + (?q + 0x4000 - ?a) = ?q + 0x4000" using a by simp
  finally have "(?a + ?k) mod 0x4000 = ?q" using q(2) by simp
  with q(1) have "unat (cand p ?k) = unat q" by (simp add: unat_cand)
  then show ?thesis by (intro exI [of _ ?k]) (simp add: word_unat_eq_iff)
qed

lemma new_port_loop_ok:
  assumes "udp_linked u xs" "dynamic (udp_port u)" "n \<le> 0x3FFF"
  shows "\<exists>k. n + k \<le> 0x3FFF \<and> (\<forall>j < k. \<exists>x \<in> set xs. pcb_has u (\<lambda>b. u_local_port b = cand (udp_port u) j) x)
    \<and> (if \<exists>x \<in> set xs. pcb_has u (\<lambda>b. u_local_port b = cand (udp_port u) k) x
       then n + k = 0x3FFF \<and> new_port_loop n u = Some (0, u\<lparr>udp_port := cand (udp_port u) k\<rparr>)
       else new_port_loop n u = Some (cand (udp_port u) k, u\<lparr>udp_port := cand (udp_port u) k\<rparr>))"
  using assms
proof (induction "0x4000 - n" arbitrary: n u rule: less_induct)
  case less
  let ?p = "udp_port u" and ?u = "u\<lparr>udp_port := cand (udp_port u) 0\<rparr>"
  define U where "U p = (\<exists>x \<in> set xs. pcb_has u (\<lambda>b. u_local_port b = p) x)" for p
  have same: "pcb_has (u\<lparr>udp_port := q\<rparr>) = pcb_has u" for q by (simp add: pcb_has_def fun_eq_iff)
  have linked: "udp_linked ?u xs" using less.prems(1) by (simp add: udp_linked_def)
  then have used: "port_used ?u (cand ?p 0) (udp_pcbs u) = Some (U (cand ?p 0))" by (simp add: udp_linked_def port_used_eq U_def same)
  have step: "new_port_loop n u = (if U (cand ?p 0) then if n + 1 > 0x3FFF then Some (0, ?u) else new_port_loop (n + 1) ?u else Some (cand ?p 0, ?u))"
    by (subst new_port_loop.simps) (simp add: cand_next [OF less.prems(2)] used Let_def)
  show ?case
  proof (cases "U (cand ?p 0) \<and> n < 0x3FFF")
    case False
    then show ?thesis using step less.prems(3) by (intro exI [of _ 0]) (auto simp: U_def)
  next
    case True
    have "0x4000 - (n + 1) < 0x4000 - n" "dynamic (udp_port ?u)" "n + 1 \<le> 0x3FFF" using True cand_dynamic by (linarith, simp, simp)
    note IH = less.hyps [OF this(1) linked this(2,3)]
    from IH obtain k where
      k: "n + 1 + k \<le> 0x3FFF" "\<forall>j < k. U (cand (cand ?p 0) j)"
        "if U (cand (cand ?p 0) k) then n + 1 + k = 0x3FFF \<and> new_port_loop (n + 1) ?u = Some (0, u\<lparr>udp_port := cand (cand ?p 0) k\<rparr>)
         else new_port_loop (n + 1) ?u = Some (cand (cand ?p 0) k, u\<lparr>udp_port := cand (cand ?p 0) k\<rparr>)"
      unfolding U_def same by (auto cong: if_cong)
    have "\<forall>j < Suc k. U (cand ?p j)" using True k(2) by (auto simp: cand_cand less_Suc_eq_0_disj)
    with k(1,3) True step show ?thesis
      by (intro exI [of _ "Suc k"], cases "U (cand ?p (Suc k))") (simp_all add: cand_cand flip: U_def)
  qed
qed

lemma udp_new_port_ok:
  assumes "udp_linked u xs" "dynamic (udp_port u)"
  shows "\<exists>port q. udp_new_port u = Some (port, u\<lparr>udp_port := q\<rparr>) \<and> dynamic q
    \<and> (if \<exists>q. dynamic q \<and> (\<forall>x \<in> set xs. \<not> pcb_has u (\<lambda>b. u_local_port b = q) x)
       then dynamic port \<and> (\<forall>x \<in> set xs. \<not> pcb_has u (\<lambda>b. u_local_port b = port) x) else port = 0)"
proof -
  define U where "U p = (\<exists>x \<in> set xs. pcb_has u (\<lambda>b. u_local_port b = p) x)" for p
  from new_port_loop_ok [OF assms, of 0] obtain k where k: "k \<le> 0x3FFF" "\<forall>j < k. U (cand (udp_port u) j)"
    "if U (cand (udp_port u) k) then k = 0x3FFF \<and> new_port_loop 0 u = Some (0, u\<lparr>udp_port := cand (udp_port u) k\<rparr>)
     else new_port_loop 0 u = Some (cand (udp_port u) k, u\<lparr>udp_port := cand (udp_port u) k\<rparr>)" unfolding U_def by (auto cong: if_cong)
  show ?thesis
  proof (cases "U (cand (udp_port u) k)")
    case True
    with k have all: "U (cand (udp_port u) j)" if "j < 0x4000" for j using that by (cases "j = k") auto
    then have "U q" if "dynamic q" for q using cand_all [OF that, of "udp_port u"] by auto
    with True k(3) cand_dynamic show ?thesis by (intro exI [of _ 0] exI [of _ "cand (udp_port u) k"]) (auto simp: udp_new_port_def U_def)
  next
    case False
    then have "\<exists>q. dynamic q \<and> (\<forall>x \<in> set xs. \<not> pcb_has u (\<lambda>b. u_local_port b = q) x)" unfolding U_def using cand_dynamic by blast
    with False k(3) cand_dynamic show ?thesis by (intro exI [of _ "cand (udp_port u) k"]) (auto simp: udp_new_port_def U_def)
  qed
qed

section \<open>Binding\<close>

text \<open>No two control blocks on the list are bound to the same address and port.\<close>

definition bound_to :: "udp_state \<Rightarrow> nat \<Rightarrow> (u32 \<times> u16) option" where
  "bound_to u a = map_option (\<lambda>b. (local_ip b, u_local_port b)) (udp_at u a)"

definition udp_ok :: "udp_state \<Rightarrow> nat list \<Rightarrow> bool" where
  "udp_ok u xs \<longleftrightarrow> udp_linked u xs \<and> inj_on (bound_to u) (set xs) \<and> dynamic (udp_port u)"

lemma udp_bind_ok:
  assumes ok: "udp_ok u xs" and a: "udp_at u a = Some b"
  shows "\<exists>err u'. udp_bind (Some a) ip port u = Some (err, u') \<and>
    (if err = ERR_OK then
       \<exists>port'. udp_ok u' (if a \<in> set xs then xs else a # xs) \<and> bound_to u' a = Some (case ip of None \<Rightarrow> IPADDR_ANY | Some x \<Rightarrow> x, port')
         \<and> (if port = 0 then dynamic port' \<and> (\<forall>x \<in> set xs. \<not> pcb_has u (\<lambda>b. u_local_port b = port') x) else port' = port)
         \<and> (\<forall>x. x \<noteq> a \<longrightarrow> udp_at u' x = udp_at u x)
     else err = ERR_USE \<and> udp_ok u' xs \<and> udp_at u' = udp_at u \<and>
       (if port = 0 then \<forall>q. dynamic q \<longrightarrow> (\<exists>x \<in> set xs. pcb_has u (\<lambda>b. u_local_port b = q) x)
        else \<exists>x \<in> set xs. x \<noteq> a \<and> bound_to u x = Some (case ip of None \<Rightarrow> IPADDR_ANY | Some x \<Rightarrow> x, port)))"
proof -
  let ?ip = "case ip of None \<Rightarrow> IPADDR_ANY | Some x \<Rightarrow> x"
  have l: "linked u_next (udp_at u) (udp_pcbs u) xs" and inj: "inj_on (bound_to u) (set xs)" and dyn: "dynamic (udp_port u)"
    using ok by (simp_all add: udp_ok_def udp_linked_def)
  have has: "pcb_has u (\<lambda>b. u_local_port b = q \<and> local_ip b = x) y \<longleftrightarrow> bound_to u y = Some (x, q)" for q x y
    by (auto simp: pcb_has_def bound_to_def split: option.split)
  define free where "free p' \<longleftrightarrow> (\<forall>x \<in> set xs. x \<noteq> a \<longrightarrow> bound_to u x \<noteq> Some (?ip, p'))" for p'
  text \<open>Once the port is chosen.\<close>
  have finish: "\<exists>v. (do { w \<leftarrow> upd_upcb a (\<lambda>b. b\<lparr>local_ip := ?ip, u_local_port := p'\<rparr>) (u\<lparr>udp_port := q\<rparr>);
         if a \<in> set xs then Some (ERR_OK, w)
         else do { w \<leftarrow> upd_upcb a (\<lambda>b. b\<lparr>u_next := udp_pcbs w\<rparr>) w; Some (ERR_OK, w\<lparr>udp_pcbs := Some a\<rparr>) } }) = Some (ERR_OK, v)
      \<and> udp_ok v (if a \<in> set xs then xs else a # xs) \<and> bound_to v a = Some (?ip, p') \<and> (\<forall>x. x \<noteq> a \<longrightarrow> udp_at v x = udp_at u x)"
    if fr: "free p'" and q: "dynamic q" for p' q
  proof (cases "a \<in> set xs")
    case True
    let ?v = "put_upcb a (b\<lparr>local_ip := ?ip, u_local_port := p'\<rparr>) (u\<lparr>udp_port := q\<rparr>)"
    have "udp_linked ?v xs" using l a by (simp add: udp_linked_def put_upcb_def) (erule linked_upd_same, auto)
    moreover have bt: "bound_to ?v x = (if x = a then Some (?ip, p') else bound_to u x)" for x by (simp add: bound_to_def put_upcb_def)
    have "inj_on (bound_to ?v) (set xs)" using inj fr unfolding inj_on_def free_def bt by metis
    ultimately show ?thesis using True a q by (intro exI [of _ ?v]) (auto simp: upd_upcb_def udp_ok_def bound_to_def put_upcb_def)
  next
    case False
    let ?v = "put_upcb a (b\<lparr>local_ip := ?ip, u_local_port := p', u_next := udp_pcbs u\<rparr>) (u\<lparr>udp_port := q, udp_pcbs := Some a\<rparr>)"
    have "udp_linked ?v (a # xs)" using l False by (simp add: udp_linked_def put_upcb_def linked_push)
    moreover have bt: "bound_to ?v x = (if x = a then Some (?ip, p') else bound_to u x)" for x by (simp add: bound_to_def put_upcb_def)
    have "inj_on (bound_to ?v) (set (a # xs))" using inj fr unfolding inj_on_def free_def bt by (metis set_ConsD)
    ultimately show ?thesis using False a q by (intro exI [of _ ?v]) (auto simp: upd_upcb_def udp_ok_def bound_to_def put_upcb_def)
  qed
  show ?thesis
  proof (cases "port = 0")
    case True
    from udp_new_port_ok [OF _ dyn, of xs] ok obtain p' q where p': "udp_new_port u = Some (p', u\<lparr>udp_port := q\<rparr>)" "dynamic q"
      "if \<exists>q. dynamic q \<and> (\<forall>x \<in> set xs. \<not> pcb_has u (\<lambda>b. u_local_port b = q) x)
       then dynamic p' \<and> (\<forall>x \<in> set xs. \<not> pcb_has u (\<lambda>b. u_local_port b = p') x) else p' = 0" by (auto simp: udp_ok_def)
    show ?thesis
    proof (cases "\<exists>q. dynamic q \<and> (\<forall>x \<in> set xs. \<not> pcb_has u (\<lambda>b. u_local_port b = q) x)")
      case E: True
      with p'(3) have p: "dynamic p'" "\<forall>x \<in> set xs. \<not> pcb_has u (\<lambda>b. u_local_port b = p') x" by simp_all
      then have "p' \<noteq> 0" "free p'" by (auto simp: free_def bound_to_def pcb_has_def)
      with finish [OF _ p'(2), of p'] p'(1) True on_list_eq [OF l, of a] p show ?thesis by (auto simp: udp_bind_def Let_def)
    next
      case E: False
      with p'(3) have "p' = 0" by simp
      moreover have "udp_ok (u\<lparr>udp_port := q\<rparr>) xs" using ok p'(2) by (simp add: udp_ok_def udp_linked_def bound_to_def inj_on_def)
      ultimately show ?thesis using p'(1) True on_list_eq [OF l, of a] E by (auto simp: udp_bind_def Let_def)
    qed
  next
    case False
    have clash: "bind_clash u a ?ip port (udp_pcbs u) = Some (\<not> free port)" using bind_clash_eq [OF l, of a ?ip port] has by (auto simp: free_def)
    have same: "u\<lparr>udp_port := udp_port u\<rparr> = u" by simp
    show ?thesis
    proof (cases "free port")
      case True
      with finish [OF True dyn] clash False on_list_eq [OF l, of a] show ?thesis unfolding same by (auto simp: udp_bind_def Let_def)
    next
      case nf: False
      with clash False on_list_eq [OF l, of a] ok show ?thesis by (auto simp: udp_bind_def Let_def free_def)
    qed
  qed
qed

section \<open>The search\<close>

lemma udp_search_none:
  "\<lbrakk>linked u_next (udp_at u) p xs; \<And>x. x \<in> set xs \<Longrightarrow> \<not> pcb_has u (\<lambda>b. here b \<and> peer b) x\<rbrakk> \<Longrightarrow>
   \<exists>prev'. udp_search u here peer p prev unc =
     Some (None, prev', if unc = None then find (pcb_has u (\<lambda>b. here b \<and> u_flags b AND UDP_FLAGS_CONNECTED = 0)) xs else unc)"
proof (induction xs arbitrary: p prev unc)
  case Nil
  then show ?case by (subst udp_search.simps) simp
next
  case (Cons a xs)
  then obtain b where b: "p = Some a" "udp_at u a = Some b" "linked u_next (udp_at u) (u_next b) xs" by (auto simp: linked_Cons)
  have "\<not> (here b \<and> peer b)" using Cons.prems(2) [of a] b(2) by (simp add: pcb_has_def)
  moreover note Cons.IH [OF b(3), of "Some a" unc] Cons.IH [OF b(3), of "Some a" "Some a"] Cons.prems(2)
  ultimately show ?case using b by (subst udp_search.simps) (auto simp: pcb_has_def)
qed

lemma udp_search_hit:
  "\<lbrakk>linked u_next (udp_at u) p (us @ a # vs); \<And>x. x \<in> set us \<Longrightarrow> \<not> pcb_has u (\<lambda>b. here b \<and> peer b) x; pcb_has u (\<lambda>b. here b \<and> peer b) a\<rbrakk> \<Longrightarrow>
   \<exists>unc'. udp_search u here peer p prev unc = Some (Some a, if us = [] then prev else Some (last us), unc')"
proof (induction us arbitrary: p prev unc)
  case Nil
  then obtain b where "p = Some a" "udp_at u a = Some b" by (auto simp: linked_Cons)
  with Nil show ?case by (subst udp_search.simps) (simp add: pcb_has_def)
next
  case (Cons x us)
  then obtain b where b: "p = Some x" "udp_at u x = Some b" "linked u_next (udp_at u) (u_next b) (us @ a # vs)" by (auto simp: linked_Cons)
  have "\<not> (here b \<and> peer b)" using Cons.prems(2) [of x] b(2) by (simp add: pcb_has_def)
  moreover note Cons.IH [OF b(3) _ Cons.prems(3), of "Some x" unc] Cons.IH [OF b(3) _ Cons.prems(3), of "Some x" "Some x"] Cons.prems(2)
  ultimately show ?case using b by (subst udp_search.simps) (auto simp: Let_def)
qed

text \<open>The contents of a control block, but for its place in the list.\<close>

definition same_pcbs :: "udp_state \<Rightarrow> udp_state \<Rightarrow> bool" where
  "same_pcbs u u' \<longleftrightarrow> udp_port u' = udp_port u \<and> (\<forall>x. map_option (\<lambda>b. b\<lparr>u_next := None\<rparr>) (udp_at u' x) = map_option (\<lambda>b. b\<lparr>u_next := None\<rparr>) (udp_at u x))"

definition full_match :: "u16 \<Rightarrow> u16 \<Rightarrow> bool \<Rightarrow> netif \<Rightarrow> ip_globals \<Rightarrow> udp_pcb \<Rightarrow> bool" where
  "full_match src dest broadcast inp g b \<longleftrightarrow> (u_local_port b = dest \<and> udp_input_local_match g inp broadcast b)
     \<and> u_remote_port b = src \<and> (remote_ip b = IPADDR_ANY \<or> remote_ip b = current_iphdr_src g)"

definition unconnected_match :: "u16 \<Rightarrow> bool \<Rightarrow> netif \<Rightarrow> ip_globals \<Rightarrow> udp_pcb \<Rightarrow> bool" where
  "unconnected_match dest broadcast inp g b \<longleftrightarrow> (u_local_port b = dest \<and> udp_input_local_match g inp broadcast b) \<and> u_flags b AND UDP_FLAGS_CONNECTED = 0"

lemma udp_find_ok:
  assumes l: "udp_linked u xs"
  shows "\<exists>u'. udp_find src dest broadcast inp g u = Some (case find (pcb_has u (full_match src dest broadcast inp g)) xs of
        Some a \<Rightarrow> Some a | None \<Rightarrow> find (pcb_has u (unconnected_match dest broadcast inp g)) xs, u')
    \<and> udp_linked u' (case find (pcb_has u (full_match src dest broadcast inp g)) xs of Some a \<Rightarrow> a # remove1 a xs | None \<Rightarrow> xs) \<and> same_pcbs u u'"
proof -
  let ?h = "\<lambda>b. u_local_port b = dest \<and> udp_input_local_match g inp broadcast b"
  let ?p = "\<lambda>b. u_remote_port b = src \<and> (remote_ip b = IPADDR_ANY \<or> remote_ip b = current_iphdr_src g)"
  have lk: "linked u_next (udp_at u) (udp_pcbs u) xs" using l by (simp add: udp_linked_def)
  have full: "pcb_has u (full_match src dest broadcast inp g) = pcb_has u (\<lambda>b. ?h b \<and> ?p b)" by (simp add: full_match_def [abs_def] conj_assoc)
  show ?thesis
  proof (cases "find (pcb_has u (full_match src dest broadcast inp g)) xs")
    case None
    then have "\<not> pcb_has u (\<lambda>b. ?h b \<and> ?p b) x" if "x \<in> set xs" for x using that unfolding full by (auto simp: find_None_iff)
    from udp_search_none [OF lk this, of None None] None l show ?thesis
      by (auto simp: udp_find_def unconnected_match_def [abs_def] same_pcbs_def conj_assoc)
  next
    case (Some a)
    from find_split [OF Some] obtain us vs where xs: "xs = us @ a # vs" "\<And>x. x \<in> set us \<Longrightarrow> \<not> pcb_has u (\<lambda>b. ?h b \<and> ?p b) x"
      "pcb_has u (\<lambda>b. ?h b \<and> ?p b) a" unfolding full by blast
    from udp_search_hit [OF lk [unfolded xs(1)] xs(2,3)] obtain unc where
      s: "udp_search u ?h ?p (udp_pcbs u) None None = Some (Some a, if us = [] then None else Some (last us), unc)" by blast
    show ?thesis
    proof (cases us rule: rev_cases)
      case Nil
      with s Some l xs(1) show ?thesis by (auto simp: udp_find_def same_pcbs_def udp_linked_def)
    next
      case (snoc us' q)
      with lk xs(1) have lk': "linked u_next (udp_at u) (udp_pcbs u) (us' @ q # a # vs)" by simp
      then obtain b c where b: "udp_at u a = Some b" "udp_at u q = Some c" using linked_dom [OF lk', of a] linked_dom [OF lk', of q] by auto
      have qa: "q \<noteq> a" "a \<notin> set us'" using linked_distinct [OF lk'] by auto
      let ?u = "u\<lparr>udp_at := (udp_at u)(q \<mapsto> c\<lparr>u_next := u_next b\<rparr>, a \<mapsto> b\<lparr>u_next := udp_pcbs u\<rparr>), udp_pcbs := Some a\<rparr>"
      have "udp_linked ?u (a # us' @ q # vs)" using linked_move_front [OF lk' b] by (simp add: udp_linked_def)
      moreover have "remove1 a xs = us' @ q # vs" using xs(1) snoc qa by (simp add: remove1_append)
      moreover have "same_pcbs u ?u" using b by (simp add: same_pcbs_def)
      moreover have "udp_find src dest broadcast inp g u = Some (Some a, ?u)"
        using s snoc b qa by (simp add: udp_find_def upd_upcb_def put_upcb_def)
      ultimately show ?thesis using Some by auto
    qed
  qed
qed

section \<open>An example\<close>

text \<open>Two control blocks on port 7, one of them connected to 10.0.0.2:4000, and a third one that is not yet bound.\<close>

definition example_upcbs :: udp_state where
  "example_upcbs = \<lparr>udp_at = [10 \<mapsto> new_udp_pcb\<lparr>local_ip := 0x0100000A, u_local_port := 7, u_next := Some 20\<rparr>,
     20 \<mapsto> new_udp_pcb\<lparr>u_local_port := 7, remote_ip := 0x0200000A, u_remote_port := 4000, u_flags := UDP_FLAGS_CONNECTED\<rparr>, 30 \<mapsto> new_udp_pcb],
     udp_pcbs = Some 10, udp_port = UDP_LOCAL_PORT_RANGE_START, udp_stats = no_stats\<rparr>"

lemma example_upcbs_ok: "udp_ok example_upcbs [10, 20]"
  by (simp add: udp_ok_def udp_linked_def example_upcbs_def linked_Cons bound_to_def new_udp_pcb_def)

section \<open>Claims\<close>

text \<open>C12: binding. \<open>udp_bind\<close> of a control block returns, on success with the block on the list and bound to the address and to the port asked for, or, for port 0, to a port of
  the dynamic range that no block uses; it fails with \<open>ERR_USE\<close> and without a change to any block exactly when another block has this address and port, or all dynamic ports are taken.
  It keeps the invariant that the blocks on the list have different pairs of address and port.\<close>

theorem udp_bind_contract:
  assumes "udp_ok u xs" "udp_at u a = Some b"
  shows "\<exists>err u'. udp_bind (Some a) ip port u = Some (err, u') \<and>
    (if err = ERR_OK then
       \<exists>port'. udp_ok u' (if a \<in> set xs then xs else a # xs) \<and> bound_to u' a = Some (case ip of None \<Rightarrow> IPADDR_ANY | Some x \<Rightarrow> x, port')
         \<and> (if port = 0 then dynamic port' \<and> (\<forall>x \<in> set xs. \<not> pcb_has u (\<lambda>b. u_local_port b = port') x) else port' = port)
         \<and> (\<forall>x. x \<noteq> a \<longrightarrow> udp_at u' x = udp_at u x)
     else err = ERR_USE \<and> udp_ok u' xs \<and> udp_at u' = udp_at u \<and>
       (if port = 0 then \<forall>q. dynamic q \<longrightarrow> (\<exists>x \<in> set xs. pcb_has u (\<lambda>b. u_local_port b = q) x)
        else \<exists>x \<in> set xs. x \<noteq> a \<and> bound_to u x = Some (case ip of None \<Rightarrow> IPADDR_ANY | Some x \<Rightarrow> x, port)))"
  by (rule udp_bind_ok [OF assms])

theorem udp_bind_contract_witness:
  "(\<exists>u'. udp_bind (Some 30) None 7 example_upcbs = Some (ERR_USE, u') \<and> udp_ok u' [10, 20])
   \<and> (\<exists>u'. udp_bind (Some 30) (Some 0x0300000A) 7 example_upcbs = Some (ERR_OK, u') \<and> udp_ok u' [30, 10, 20])"
proof -
  have at: "udp_at example_upcbs 30 = Some new_udp_pcb" "bound_to example_upcbs 10 = Some (0x0100000A, 7)" "bound_to example_upcbs 20 = Some (IPADDR_ANY, 7)"
    by (simp_all add: example_upcbs_def bound_to_def new_udp_pcb_def)
  note w = udp_bind_contract [OF example_upcbs_ok at(1)]
  have l: "linked u_next (udp_at example_upcbs) (udp_pcbs example_upcbs) [10, 20]" using example_upcbs_ok by (simp add: udp_ok_def udp_linked_def)
  have "bind_clash example_upcbs 30 IPADDR_ANY 7 (udp_pcbs example_upcbs) = Some True"
    "on_list example_upcbs 30 (udp_pcbs example_upcbs) = Some False"
    unfolding bind_clash_eq [OF l] on_list_eq [OF l] by (simp_all add: pcb_has_def example_upcbs_def new_udp_pcb_def)
  then have "udp_bind (Some 30) None 7 example_upcbs = Some (ERR_USE, example_upcbs)" by (simp add: udp_bind_def)
  with w [of None 7] have "\<exists>u'. udp_bind (Some 30) None 7 example_upcbs = Some (ERR_USE, u') \<and> udp_ok u' [10, 20]" by auto
  moreover from w [of "Some 0x0300000A" 7] at(2,3) have "\<exists>u'. udp_bind (Some 30) (Some 0x0300000A) 7 example_upcbs = Some (ERR_OK, u') \<and> udp_ok u' [30, 10, 20]"
    by (auto split: if_splits)
  ultimately show ?thesis by blast
qed

text \<open>C36: demultiplexing. The control block that gets a datagram is the first on the list that matches its addresses and both ports; if there is none, the first unconnected one that
  matches the local address and port. A block that matched fully is moved to the front of the list; apart from this no block is changed.\<close>

theorem udp_demultiplexing:
  assumes "udp_linked u xs"
  shows "\<exists>u'. udp_find src dest broadcast inp g u = Some (case find (pcb_has u (full_match src dest broadcast inp g)) xs of
        Some a \<Rightarrow> Some a | None \<Rightarrow> find (pcb_has u (unconnected_match dest broadcast inp g)) xs, u')
    \<and> udp_linked u' (case find (pcb_has u (full_match src dest broadcast inp g)) xs of Some a \<Rightarrow> a # remove1 a xs | None \<Rightarrow> xs) \<and> same_pcbs u u'"
  by (rule udp_find_ok [OF assms])

theorem udp_demultiplexing_witness:
  "\<exists>u'. udp_find 4000 7 False example_serial (no_packet\<lparr>current_iphdr_src := 0x0200000A, current_iphdr_dest := 0x0100000A\<rparr>) example_upcbs = Some (Some 20, u')
     \<and> udp_linked u' [20, 10]"
proof -
  let ?g = "no_packet\<lparr>current_iphdr_src := 0x0200000A, current_iphdr_dest := 0x0100000A\<rparr>"
  have "udp_linked example_upcbs [10, 20]" using example_upcbs_ok by (simp add: udp_ok_def)
  note w = udp_demultiplexing [OF this, of 4000 7 False example_serial ?g]
  have "find (pcb_has example_upcbs (full_match 4000 7 False example_serial ?g)) [10, 20] = Some 20"
    by (simp add: pcb_has_def full_match_def example_upcbs_def new_udp_pcb_def udp_input_local_match_def no_packet_def)
  with w show ?thesis by auto
qed

end
