(* ===== verification/Udp_Path.thy ===== *)
theory Udp_Path
  imports Udp_Bind
begin

text \<open>
  The way of a UDP datagram: the header and checksum that are put in front of the data by the sender, the frame on the line, and the data that reaches the
  application of the receiver.
\<close>

section \<open>The datagram\<close>

definition udp_header :: "u16 \<Rightarrow> u16 \<Rightarrow> u16 \<Rightarrow> u16 \<Rightarrow> u8 list" where
  "udp_header sport dport len c = net16 sport @ net16 dport @ net16 len @ mem16 c"

text \<open>The checksum is computed over the pseudo header, the header and the data; a result of zero is sent as all ones.\<close>

definition udp_checksum :: "u32 \<Rightarrow> u32 \<Rightarrow> u16 \<Rightarrow> u16 \<Rightarrow> u8 list \<Rightarrow> u16" where
  "udp_checksum src dst sport dport D =
     (let len = of_nat (length D + UDP_HLEN);
          c = inet_checksum_of (pseudo_header IP_PROTO_UDP len src dst @ udp_header sport dport len 0 @ D)
      in if c = 0 then 0xFFFF else c)"

definition udp_datagram :: "u32 \<Rightarrow> u32 \<Rightarrow> u16 \<Rightarrow> u16 \<Rightarrow> u8 list \<Rightarrow> u8 list" where
  "udp_datagram src dst sport dport D = udp_header sport dport (of_nat (length D + UDP_HLEN)) (udp_checksum src dst sport dport D) @ D"

lemma length_udp_header [simp]: "length (udp_header sport dport len c) = 8"
  by (simp add: udp_header_def net16_def mem16_def)

lemma length_udp_datagram [simp]: "length (udp_datagram src dst sport dport D) = length D + 8"
  by (simp add: udp_datagram_def)

text \<open>A zero checksum may be replaced by all ones.\<close>

lemma checksum_ones:
  assumes "even (length pre)" "inet_checksum_of (pre @ [0, 0] @ post) = 0"
  shows "inet_checksum_of (pre @ mem16 0xFFFF @ post) = 0"
proof -
  have "length (mem16 0xFFFF) = 2" by (simp add: mem16_def)
  then have "wsum False (pre @ mem16 0xFFFF @ post) = wsum False (pre @ [0, 0] @ post) + 65535"
    using assms(1) by (simp add: wsum_append wsum_mem16)
  with assms(2) show ?thesis unfolding checksum_zero_iff by simp
qed

lemma udp_checksum_nonzero: "udp_checksum src dst sport dport D \<noteq> 0"
  by (simp add: udp_checksum_def Let_def)

lemma udp_datagram_verifies:
  "inet_checksum_of (pseudo_header IP_PROTO_UDP (of_nat (length D + UDP_HLEN)) src dst @ udp_datagram src dst sport dport D) = 0"
proof -
  let ?len = "of_nat (length D + 8) :: u16"
  let ?pre = "pseudo_header 17 ?len src dst @ net16 sport @ net16 dport @ net16 ?len"
  have ev: "even (length ?pre)" by (simp add: pseudo_header_def mem32_def net16_def)
  have eq: "pseudo_header 17 ?len src dst @ udp_header sport dport ?len c @ D = ?pre @ mem16 c @ D" for c by (simp add: udp_header_def)
  show ?thesis
  proof (cases "inet_checksum_of (?pre @ [0, 0] @ D) = 0")
    case True
    then have "udp_checksum src dst sport dport D = 0xFFFF" by (simp only: udp_checksum_def Let_def eq mem16_0 simp_thms if_True)
    with checksum_ones [OF ev True] show ?thesis by (simp only: udp_datagram_def eq)
  next
    case False
    then have "udp_checksum src dst sport dport D = inet_checksum_of (?pre @ [0, 0] @ D)" by (simp only: udp_checksum_def Let_def eq mem16_0 simp_thms if_False)
    with inet_checksum_verifies [OF ev, of D] show ?thesis by (simp only: udp_datagram_def eq)
  qed
qed

section \<open>Sending\<close>

lemma udp_write_hdr_eq:
  "put16 (h + 4) (lwip_htons len) (udp_write_hdr h b dport M) = wr M h (udp_header (u_local_port b) dport len 0)"
  "put16 (h + 6) c (wr M h (udp_header sport dport len 0)) = wr M h (udp_header sport dport len c)"
proof -
  show "put16 (h + 4) (lwip_htons len) (udp_write_hdr h b dport M) = wr M h (udp_header (u_local_port b) dport len 0)"
    by (rule eq_wrI) (auto simp: udp_write_hdr_def put16_def mem16_htons mem16_0 udp_header_def net16_def upt_rec wr_def)
  show "put16 (h + 6) c (wr M h (udp_header sport dport len 0)) = wr M h (udp_header sport dport len c)"
    by (rule eq_wrI) (auto simp: put16_def udp_header_def net16_def mem16_def upt_rec wr_def)
qed

text \<open>A control block that sends UDP with checksums.\<close>

definition plain_udp :: "udp_pcb \<Rightarrow> bool" where
  "plain_udp b \<longleftrightarrow> u_local_port b \<noteq> 0 \<and> u_flags b AND UDP_FLAGS_UDPLITE = 0 \<and> u_flags b AND UDP_FLAGS_NOCHKSUM = 0"

lemma udp_fill_ok:
  assumes tx: "\<forall>zs. length zs = 8 \<longrightarrow> tx_packet E p k (zs @ D) (s\<lparr>bytes := wr (bytes s) pl zs\<rparr>)" and b: "plain_udp b"
  shows "\<exists>s'. udp_fill p pl (length D + UDP_HLEN) b src dst (s\<lparr>bytes := udp_write_hdr pl b dport (bytes s)\<rparr>) = Some (IP_PROTO_UDP, s')
    \<and> tx_packet E p k (udp_datagram src dst (u_local_port b) dport D) s'"
proof -
  let ?len = "of_nat (length D + 8) :: u16"
  let ?h = "\<lambda>c. udp_header (u_local_port b) dport ?len c"
  let ?s1 = "s\<lparr>bytes := wr (bytes s) pl (?h 0)\<rparr>"
  have "tx_packet E p k (?h 0 @ D) ?s1" using tx by simp
  from tx_payloads [OF this] obtain ps where ps: "pbuf_payloads ?s1 (Some p) = Some ps" "payload_data ps = ?h 0 @ D" "chain_ok ps" by blast
  let ?c = "udp_checksum src dst (u_local_port b) dport D"
  have c: "ip_chksum_pseudo ps 17 ?len src dst = inet_checksum_of (pseudo_header 17 ?len src dst @ ?h 0 @ D)"
    using inet_chksum_pseudo_eq [OF ps(3), of 17 ?len src dst] ps(2) by (simp add: ip_chksum_pseudo_def)
  have "udp_fill p pl (length D + 8) b src dst (s\<lparr>bytes := udp_write_hdr pl b dport (bytes s)\<rparr>) =
      Some (17, s\<lparr>bytes := wr (bytes s) pl (?h ?c)\<rparr>)"
    using b ps(1) by (simp add: udp_fill_def plain_udp_def udp_write_hdr_eq Let_def c [unfolded of_nat_add of_nat_numeral] udp_checksum_def cong: if_cong)
  moreover have "tx_packet E p k (?h ?c @ D) (s\<lparr>bytes := wr (bytes s) pl (?h ?c)\<rparr>)" using tx by simp
  ultimately show ?thesis by (simp add: udp_datagram_def)
qed

lemma ip4_output_if_src_eq:
  assumes "netif_at (ifs st) a = Some n" "src \<noteq> IPADDR_ANY"
  shows "ip4_output_if_src env p (Some src) (Some dst) t o' proto a st = ip4_output_if env p (Some src) (Some dst) t o' proto a st"
  using assms by (simp add: ip4_output_if_def)

lemma udp_send_ok:
  assumes env: "UART_write env = on_dev write" "uart_ok write line" and tx: "tx_packet E p k D (bufs st)" "IP_HLEN + UDP_HLEN \<le> k"
    and b: "udp_at (get_udp st) a = Some b" "plain_udp b" and src: "src \<noteq> IPADDR_ANY" and l: "slip_link st netif n dst (length D + UDP_HLEN + IP_HLEN)"
  shows "\<exists>st'. udp_sendto_if_src env (Some a) p (Some dst) dport netif src st = Some (ERR_OK, st')
    \<and> line (dev (rest st')) = line (dev (rest st)) @ slip_frame (ip4_datagram_header src dst (ttl b) (tos b) IP_PROTO_UDP (of_nat (length D + UDP_HLEN + IP_HLEN)) (ip_id st)
        @ udp_datagram src dst (u_local_port b) dport D)"
proof -
  from tx_prepend [OF tx(1), of 8] tx(2) obtain s1 qb pl where
    s1: "pbuf_header (Some p) (int 8) (bufs st) = Some (0, s1)" "pbufs s1 p = Some qb" "pb_payload qb = Some pl" "8 \<le> pb_len qb" "pb_tot_len qb = length D + 8"
    and tx1: "\<forall>zs. length zs = 8 \<longrightarrow> tx_packet E p (k - 8) (zs @ D) (s1\<lparr>bytes := wr (bytes s1) pl zs\<rparr>)" by auto
  from udp_fill_ok [OF tx1 b(2)] obtain s2 where
    s2: "udp_fill p pl (length D + 8) b src dst (s1\<lparr>bytes := udp_write_hdr pl b dport (bytes s1)\<rparr>) = Some (17, s2)"
      "tx_packet E p (k - 8) (udp_datagram src dst (u_local_port b) dport D) s2" by blast
  let ?u = "on_udp (\<lambda>_. get_udp st) st"
  let ?st = "(on_bytes (udp_write_hdr pl b dport) (?u\<lparr>bufs := s1\<rparr>))\<lparr>bufs := s2\<rparr>"
  have same: "?u = st" by (simp add: on_udp_def get_udp_def)
  have l': "slip_link ?st netif n dst (length (udp_datagram src dst (u_local_port b) dport D) + 20)" using l by (simp add: slip_link_def)
  have n: "netif_at (ifs ?st) netif = Some n" using l by (simp add: slip_link_def)
  have "20 \<le> k - 8" "tx_packet E p (k - 8) (udp_datagram src dst (u_local_port b) dport D) (bufs ?st)" using tx(2) s2(2) by simp_all
  from ip4_output_ok [OF uart_on_dev [OF env(2), folded env(1)] this(2,1) l', of src "Some src" "ttl b" "tos b" 17] src obtain st' where
    st': "ip4_output_if env p (Some src) (Some dst) (ttl b) (tos b) 17 netif ?st = Some (ERR_OK, st')"
      "line (dev (rest st')) = line (dev (rest st)) @ slip_frame (ip4_datagram_header src dst (ttl b) (tos b) 17 (of_nat (length D + 8 + 20)) (ip_id st)
        @ udp_datagram src dst (u_local_port b) dport D)" by (auto simp: same)
  have "udp_add_hdr p (bufs st) = Some (Some p, s1)" using s1(1) by (simp add: udp_add_hdr_def)
  moreover have "u_local_port b \<noteq> 0" using b(2) by (simp add: plain_udp_def)
  moreover have "ip4_output_if_src env p (Some src) (Some dst) (ttl b) (tos b) 17 netif ?st = Some (ERR_OK, st')"
    using ip4_output_if_src_eq [OF n src, of env p dst "ttl b" "tos b" 17] st'(1) by simp
  ultimately have "udp_sendto_if_src env (Some a) p (Some dst) dport netif src st = Some (ERR_OK, udp_stat (\<lambda>t. t\<lparr>ps_xmit := ps_xmit t + 1\<rparr>) st')"
    using b(1) s1(2-5) s2(1) by (simp add: udp_sendto_if_src_def same)
  with st'(2) show ?thesis by (simp add: udp_stat_def)
qed

text \<open>Sending from the address of the interface that is the route.\<close>

definition sends_from :: "udp_pcb \<Rightarrow> netif \<Rightarrow> bool" where
  "sends_from b n \<longleftrightarrow> plain_udp b \<and> (local_ip b = IPADDR_ANY \<or> local_ip b = ip_addr n) \<and> ip_addr n \<noteq> IPADDR_ANY \<and> \<not> ip4_addr_ismulticast (ip_addr n)"

lemma udp_sendto_ok:
  assumes env: "UART_write env = on_dev write" "uart_ok write line" and tx: "tx_packet E p k D (bufs st)" "IP_HLEN + UDP_HLEN \<le> k"
    and b: "udp_at (get_udp st) a = Some b" "sends_from b n" and route: "ip4_route dst st = Some (Some netif, st)"
    and l: "slip_link st netif n dst (length D + UDP_HLEN + IP_HLEN)"
  shows "\<exists>st'. udp_sendto env (Some a) p (Some dst) dport st = Some (ERR_OK, st')
    \<and> line (dev (rest st')) = line (dev (rest st)) @ slip_frame (ip4_datagram_header (ip_addr n) dst (ttl b) (tos b) IP_PROTO_UDP (of_nat (length D + UDP_HLEN + IP_HLEN)) (ip_id st)
        @ udp_datagram (ip_addr n) dst (u_local_port b) dport D)"
proof -
  have s: "plain_udp b" "ip_addr n \<noteq> 0" using b(2) by (simp_all add: sends_from_def)
  have "udp_sendto env (Some a) p (Some dst) dport st = udp_sendto_if_src env (Some a) p (Some dst) dport netif (ip_addr n) st"
    using b route l by (auto simp: udp_sendto_def udp_sendto_if_def sends_from_def slip_link_def)
  with udp_send_ok [OF env tx b(1) s l] show ?thesis by simp
qed

section \<open>Receiving\<close>

text \<open>The header of a datagram that was received.\<close>

lemma udp_header_fields:
  assumes pk: "packet E p (udp_datagram src dst sport dport D) s" and b: "pbufs s p = Some b" "pb_payload b = Some pl" "UDP_HLEN \<le> pb_len b"
  shows "lwip_htons (udphdr_src (bytes s) pl) = sport" "lwip_htons (udphdr_dest (bytes s) pl) = dport" "udphdr_chksum (bytes s) pl \<noteq> 0"
proof -
  have at: "bytes s (pl + i) = udp_header sport dport (of_nat (length D + 8)) (udp_checksum src dst sport dport D) ! i" if "i < 8" for i
    using packet_nth(1) [OF pk b(1,2), of i] that b(3) by (simp add: udp_datagram_def nth_append)
  note nth = udp_header_def net16_def mem16_def
  show "lwip_htons (udphdr_src (bytes s) pl) = sport" "lwip_htons (udphdr_dest (bytes s) pl) = dport"
    using at [of 0] at [of 1] at [of 2] at [of 3, unfolded numeral_3_eq_3] by (simp_all add: udphdr_src_def udphdr_dest_def get16_def nth load_net16 ac_simps)
  have "udphdr_chksum (bytes s) pl = udp_checksum src dst sport dport D"
    using at [of 6] at [of 7] by (simp add: udphdr_chksum_def get16_def nth ac_simps)
  then show "udphdr_chksum (bytes s) pl \<noteq> 0" by (simp add: udp_checksum_nonzero)
qed

lemma udp_chksum_accepts:
  assumes pk: "packet E p (udp_datagram src dst sport dport D) s" "length D + UDP_HLEN < 65536"
    and b: "pbufs s p = Some b" "pb_payload b = Some pl" "UDP_HLEN \<le> pb_len b"
    and g: "current_ip4_header g = Some ih" "IPH_PROTO (bytes s) ih = IP_PROTO_UDP" "current_iphdr_src g = src" "current_iphdr_dest g = dst"
  shows "udp_chksum_ok p pl g s = Some True"
proof -
  from packet_payloads [OF pk(1)] pk(2) obtain ps where ps: "pbuf_payloads s (Some p) = Some ps" "payload_data ps = udp_datagram src dst sport dport D" "chain_ok ps"
    by auto
  have "pb_tot_len b = length D + 8" using pk(1) b(1) by (auto elim!: packetE)
  moreover have "ip_chksum_pseudo ps 17 (of_nat (length D + 8)) src dst = 0"
    using inet_chksum_pseudo_eq [OF ps(3), of 17 "of_nat (length D + 8)" src dst] ps(2) udp_datagram_verifies by (simp add: ip_chksum_pseudo_def)
  ultimately show ?thesis using b g ps(1) udp_header_fields(3) [OF pk(1) b] by (simp add: udp_chksum_ok_def)
qed

text \<open>The control block a datagram is for.\<close>

definition udp_target :: "udp_state \<Rightarrow> nat list \<Rightarrow> u16 \<Rightarrow> u16 \<Rightarrow> bool \<Rightarrow> netif \<Rightarrow> ip_globals \<Rightarrow> ptr" where
  "udp_target u xs sport dport broadcast m g = (case find (pcb_has u (full_match sport dport broadcast m g)) xs of
     Some a \<Rightarrow> Some a | None \<Rightarrow> find (pcb_has u (unconnected_match dport broadcast m g)) xs)"

lemma same_pcbsD:
  assumes "same_pcbs u u'" "udp_at u a = Some b"
  shows "\<exists>nx. udp_at u' a = Some (b\<lparr>u_next := nx\<rparr>)"
proof -
  have "map_option (\<lambda>b. b\<lparr>u_next := None\<rparr>) (udp_at u' a) = Some (b\<lparr>u_next := None\<rparr>)" using assms by (simp add: same_pcbs_def)
  then obtain c where "udp_at u' a = Some c" "c\<lparr>u_next := None\<rparr> = b\<lparr>u_next := None\<rparr>" by auto
  then show ?thesis by (cases c, cases b) auto
qed

lemma udp_input_gives:
  assumes pk: "packet E p (udp_datagram src dst sport dport D) (bufs st)" "length D + UDP_HLEN < 65536" and b: "pbufs (bufs st) p = Some b" "UDP_HLEN \<le> pb_len b"
    and g: "current_netif (ip_data st) = Some inp" "current_ip4_header (ip_data st) = Some ih" "current_iphdr_src (ip_data st) = src"
      "current_iphdr_dest (ip_data st) = dst" "IPH_PROTO (bytes (bufs st)) ih = IP_PROTO_UDP"
    and m: "netif_at (ifs st) inp = Some m" and l: "udp_linked (get_udp st) xs"
    and a: "udp_target (get_udp st) xs sport dport (ip4_addr_isbroadcast_u32 dst m) m (ip_data st) = Some a" "udp_at (get_udp st) a = Some c" "u_recv c = Some f"
  shows "\<exists>st'. udp_input env app p inp st = udp_recv_fn app f (u_recv_arg c) a p src sport st' \<and> packet E p D (bufs st')
    \<and> ifs st' = ifs st \<and> ip_data st' = ip_data st \<and> same_pcbs (get_udp st) (get_udp st') \<and> dev (rest st') = dev (rest st)"
proof -
  obtain pl where pl: "pb_payload b = Some pl" using pk(1) b(1) by (auto elim!: packetE)
  note F = udp_header_fields [OF pk(1) b(1) pl b(2)]
  let ?st1 = "udp_stat (\<lambda>t. t\<lparr>ps_recv := ps_recv t + 1\<rparr>) st"
  let ?u = "get_udp ?st1"
  have u: "udp_at ?u = udp_at (get_udp st)" "udp_linked ?u xs" "pcb_has ?u = pcb_has (get_udp st)"
    using l by (simp_all add: udp_stat_def udp_linked_def pcb_has_def fun_eq_iff)
  from udp_find_ok [OF u(2), of sport dport "ip4_addr_isbroadcast_u32 dst m" m "ip_data st", unfolded u(3), folded udp_target_def] obtain u' where
    u': "udp_find sport dport (ip4_addr_isbroadcast_u32 dst m) m (ip_data st) ?u = Some (Some a, u')" "same_pcbs ?u u'" using a(1) by auto
  have same: "same_pcbs (get_udp st) u'" using u'(2) by (simp add: same_pcbs_def udp_stat_def)
  from same_pcbsD [OF same a(2)] obtain nx where c: "udp_at u' a = Some (c\<lparr>u_next := nx\<rparr>)" by blast
  let ?st2 = "on_udp (\<lambda>_. u') ?st1"
  have ok: "udp_chksum_ok p pl (ip_data st) (bufs st) = Some True" by (rule udp_chksum_accepts [OF pk b(1) pl b(2) g(2,5,3,4)])
  let ?b = "b\<lparr>pb_payload := Some (pl + 8), pb_len := pb_len b - 8, pb_tot_len := pb_tot_len b - 8\<rparr>"
  have hide: "pbuf_header (Some p) (- int 8) (bufs st) = Some (0, put_pbuf p ?b (bufs st))" "packet E p D (put_pbuf p ?b (bufs st))"
    using packet_hide [OF pk(1) _ b(1) pl, of 8] pk(2) b(2) by (simp_all add: udp_datagram_def)
  have fields: "bufs ?st1 = bufs st" "ip_data ?st1 = ip_data st" "ifs ?st1 = ifs st" "bufs ?st2 = bufs st" "get_udp ?st2 = u'" "ifs ?st2 = ifs st" "ip_data ?st2 = ip_data st"
    "dev (rest ?st2) = dev (rest st)" by (simp_all add: udp_stat_def)
  have "udp_input env app p inp st = udp_recv_fn app f (u_recv_arg c) a p src sport (?st2\<lparr>bufs := put_pbuf p ?b (bufs st)\<rparr>)"
    unfolding udp_input_def Let_def using b pl F(1,2) g m u'(1) ok hide(1) c a(3) fields by (simp add: get_udp_def)
  with hide(2) same fields show ?thesis by (intro exI [of _ "?st2\<lparr>bufs := put_pbuf p ?b (bufs st)\<rparr>"]) (simp add: get_udp_def)
qed

section \<open>A datagram that stops the stack\<close>

text \<open>The assertion in \<open>inet_cksum_pseudo_partial_base\<close> fails if too many bytes remain to be summed after the first pbuf.\<close>

lemma partial_chksum_aborts:
  assumes "0x7FFF + length q \<le> unat c"
  shows "ip_chksum_pseudo_partial ((addr, q) # ps) proto len c src dst = None"
proof -
  have q: "length q < 65536" "unat c < 65536" using assms unat_u16_less [of c] by linarith+
  then have l: "unat (of_nat (length q) :: u16) = length q" by (simp add: unat_u16_of_nat)
  then have "unat (c - of_nat (length q)) = unat c - length q" using assms by (simp add: unat_sub_if')
  then have "\<not> c - of_nat (length q) < 0x7FFF" using assms by (simp add: word_less_nat_alt)
  moreover have "c \<noteq> 0" "\<not> unat c < length q" using assms by auto
  ultimately show ?thesis
    by (simp add: ip_chksum_pseudo_partial_def inet_chksum_pseudo_partial_def inet_cksum_pseudo_partial_base_def Let_def)
qed

lemma udplite_aborts:
  assumes b: "pbufs (bufs st) p = Some b" "pb_payload b = Some h" "UDP_HLEN \<le> pb_len b"
    and g: "current_netif (ip_data st) = Some inp" "current_ip4_header (ip_data st) = Some ih" "IPH_PROTO (bytes (bufs st)) ih = IP_PROTO_UDPLITE"
    and c: "0x7FFF + pb_len b \<le> unat (lwip_htons (udphdr_len (bytes (bufs st)) h))"
    and m: "netif_at (ifs st) inp = Some m" "current_iphdr_dest (ip_data st) = ip_addr m" and l: "udp_linked (get_udp st) xs"
  shows "udp_input env app p inp st = None"
proof -
  let ?st1 = "udp_stat (\<lambda>t. t\<lparr>ps_recv := ps_recv t + 1\<rparr>) st" and ?c = "lwip_htons (udphdr_len (bytes (bufs st)) h)"
  have "udp_linked (get_udp ?st1) xs" using l by (simp add: udp_stat_def udp_linked_def)
  note find = udp_find_ok [OF this, of "lwip_htons (udphdr_src (bytes (bufs st)) h)" "lwip_htons (udphdr_dest (bytes (bufs st)) h)"
    "ip4_addr_isbroadcast_u32 (ip_addr m) m" m "ip_data st"]
  then obtain r u' where u': "udp_find (lwip_htons (udphdr_src (bytes (bufs st)) h)) (lwip_htons (udphdr_dest (bytes (bufs st)) h))
    (ip4_addr_isbroadcast_u32 (ip_addr m) m) m (ip_data st) (get_udp ?st1) = Some (r, u')" by blast
  have "\<not> ?c < 8" using c b(3) by (simp add: word_less_nat_alt)
  moreover have "Option.bind (pbuf_payloads (bufs st) (Some p)) (\<lambda>ps. ip_chksum_pseudo_partial ps 136 len ?c src dst) = None" for len src dst
    using b c partial_chksum_aborts [of "rd (bytes (bufs st)) h (pb_len b)" ?c] by (subst pbuf_payloads.simps) (cases "pbuf_payloads (bufs st) (pb_next b)", simp_all)
  then have "(do { ps \<leftarrow> pbuf_payloads (bufs st) (Some p); c \<leftarrow> ip_chksum_pseudo_partial ps 136 len ?c src dst; Some (c = 0) }) = None" for len src dst
    by (cases "pbuf_payloads (bufs st) (Some p)") auto
  ultimately have "udp_chksum_ok p h (ip_data st) (bufs st) = None" using b(1) g(2,3) by (simp add: udp_chksum_ok_def Let_def)
  moreover have "bufs (on_udp (\<lambda>_. u') ?st1) = bufs st" "ip_data ?st1 = ip_data st" "bufs ?st1 = bufs st" "ifs ?st1 = ifs st" by (simp_all add: udp_stat_def)
  ultimately show ?thesis unfolding udp_input_def Let_def using b g(1) m u' by simp
qed

section \<open>Claims\<close>

text \<open>C37: a remote abort. A UDP-Lite datagram to the address of the interface stops the stack in a failed assertion if the coverage in its header exceeds the length of the first pbuf by
  \<open>0x7FFF\<close> or more, whatever its checksum and whether or not an application listens on the port.\<close>

theorem udplite_coverage_aborts:
  assumes "pbufs (bufs st) p = Some b" "pb_payload b = Some h" "UDP_HLEN \<le> pb_len b"
    and "current_netif (ip_data st) = Some inp" "current_ip4_header (ip_data st) = Some ih" "IPH_PROTO (bytes (bufs st)) ih = IP_PROTO_UDPLITE"
    and "0x7FFF + pb_len b \<le> unat (lwip_htons (udphdr_len (bytes (bufs st)) h))"
    and "netif_at (ifs st) inp = Some m" "current_iphdr_dest (ip_data st) = ip_addr m" "udp_linked (get_udp st) xs"
  shows "udp_input env app p inp st = None"
  by (rule udplite_aborts [OF assms])

text \<open>A datagram of 8 bytes with coverage \<open>0xFFFF\<close>.\<close>

abbreviation example_udplite :: "u8 list" where
  "example_udplite \<equiv> [0, 7, 0, 9, 0xFF, 0xFF, 0, 0]"

theorem udplite_coverage_aborts_witness:
  "\<exists>p st. packet (\<lambda>_. 0) p (example_udplite @ replicate 42 0) (bufs st) \<and> udp_input proto_env example_apps p 6 st = None"
proof -
  let ?H = "ip4_datagram_header (IP4_ADDR 192 168 0 2) (IP4_ADDR 192 168 0 1) 64 0 IP_PROTO_UDPLITE 70 7" and ?X = "example_udplite @ replicate 42 0"
  have HX: "length (?H @ ?X) = 70" by simp
  obtain p b ih D s where p: "packet (\<lambda>_. 0) p ((?H @ ?X) @ D) s" "length D = 70 - 70" "pbufs s p = Some b" "pb_payload b = Some ih" "pb_len b = 70" "ih = p + 16" "pb_next b = None"
    by (rule example_datagram [OF HX]) simp_all
  have at: "bytes s (ih + i) = (?H @ ?X) ! i" if "i < 70" for i using packet_nth(1) [OF p(1,3,4), of i] that p(2,5) by simp
  have "rd (bytes s) ih 20 = ?H" by (rule nth_equalityI) (use at in \<open>auto simp: nth_append\<close>)
  then have proto: "IPH_PROTO (bytes s) ih = 136" by (intro header_fields(6)) (simp add: has_header_def)
  have "bytes s (ih + 24) = 0xFF" "bytes s (ih + 25) = 0xFF" using at [of 24] at [of 25] by (simp_all add: nth_append)
  then have "udphdr_len (bytes s) (ih + 20) = load16 0xFF 0xFF" by (simp add: udphdr_len_def get16_def add.commute)
  then have c: "unat (lwip_htons (udphdr_len (bytes s) (ih + 20))) = 65535" by (simp add: unat_lwip_htons unat_load16)
  let ?b = "b\<lparr>pb_payload := Some (ih + 20), pb_len := pb_len b - 20, pb_tot_len := pb_tot_len b - 20\<rparr>"
  have pk: "packet (\<lambda>_. 0) p ?X (put_pbuf p ?b s)" using packet_hide(2) [OF p(1) _ p(3,4), of 20] p(2,5) by simp
  let ?x = "example_stack (example_protos example_upcbs) (put_pbuf p ?b s) :: u8 list lwip"
  let ?st = "?x\<lparr>ip_data := (ip_data ?x)\<lparr>current_netif := Some 6, current_ip4_header := Some ih, current_iphdr_dest := IP4_ADDR 192 168 0 1\<rparr>\<rparr>"
  have u: "udp_linked (get_udp ?st) [10, 20]" using example_upcbs_ok by (simp add: udp_ok_def get_udp_def example_protos_def)
  have st: "pbufs (bufs ?st) p = Some ?b" "pb_payload ?b = Some (ih + 20)" "8 \<le> pb_len ?b" "current_netif (ip_data ?st) = Some 6" "current_ip4_header (ip_data ?st) = Some ih"
    "IPH_PROTO (bytes (bufs ?st)) ih = 136" "0x7FFF + pb_len ?b \<le> unat (lwip_htons (udphdr_len (bytes (bufs ?st)) (ih + 20)))"
    "netif_at (ifs ?st) 6 = Some example_serial" "current_iphdr_dest (ip_data ?st) = ip_addr example_serial"
    using p(5) proto c by (simp_all add: example_host_at example_serial_def)
  have "packet (\<lambda>_. 0) p ?X (bufs ?st)" using pk by simp
  with udplite_coverage_aborts [OF st u] show ?thesis by blast
qed

end
