(* ===== verification/Icmp.thy ===== *)
theory Icmp
  imports Udp
begin

text \<open>
  \<^verbatim>\<open>core/ipv4/icmp.c\<close>: echo requests are answered, and errors reported, in the configuration of the port: no answers to broadcast and multicast pings, room for
  the link header is checked, no MIB counters.
\<close>

section \<open>Definitions\<close>

abbreviation (input) ICMP_TTL :: u8 where "ICMP_TTL \<equiv> 255"
abbreviation (input) ICMP_ER :: u8 where "ICMP_ER \<equiv> 0"
abbreviation (input) ICMP_DUR :: u8 where "ICMP_DUR \<equiv> 3"
abbreviation (input) ICMP_ECHO :: u8 where "ICMP_ECHO \<equiv> 8"
abbreviation (input) ICMP_TE :: u8 where "ICMP_TE \<equiv> 11"
abbreviation (input) SIZEOF_ICMP_ECHO_HDR :: nat where "SIZEOF_ICMP_ECHO_HDR \<equiv> 8"
abbreviation (input) ICMP_DEST_UNREACH_DATASIZE :: nat where "ICMP_DEST_UNREACH_DATASIZE \<equiv> 8"

definition icmp_chksum :: "(nat \<Rightarrow> u8) \<Rightarrow> nat \<Rightarrow> u16" where
  "icmp_chksum M h = get16 M (h + 2)"

text \<open>The ends of \<open>icmp_input\<close>: \<^verbatim>\<open>lenerr\<close>, \<^verbatim>\<open>icmperr\<close> and a wrong checksum.\<close>

definition icmp_lenerr :: "nat \<Rightarrow> 'v lwip \<Rightarrow> 'v lwip option" where
  "icmp_lenerr p st = do { st \<leftarrow> ip_free p st; Some (on_icmp (\<lambda>t. t\<lparr>ps_lenerr := ps_lenerr t + 1\<rparr>) st) }"

definition icmp_err :: "nat \<Rightarrow> 'v lwip \<Rightarrow> 'v lwip option" where
  "icmp_err p st = do { st \<leftarrow> ip_free p st; Some (on_icmp (\<lambda>t. t\<lparr>ps_err := ps_err t + 1\<rparr>) st) }"

definition icmp_chkerr :: "nat \<Rightarrow> 'v lwip \<Rightarrow> 'v lwip option" where
  "icmp_chkerr p st = do { st \<leftarrow> ip_free p st; Some (on_icmp (\<lambda>t. t\<lparr>ps_chkerr := ps_chkerr t + 1\<rparr>) st) }"

text \<open>A packet with room for the link header: \<open>p\<close> itself, or a copy for which \<open>p\<close> is given up. \<open>None\<close> is the jump to \<^verbatim>\<open>icmperr\<close>, where \<open>p\<close> is still held.\<close>

definition icmp_make_room :: "nat \<Rightarrow> nat \<Rightarrow> nat \<Rightarrow> net \<Rightarrow> (ptr \<times> net) option" where
  "icmp_make_room p iphdr_in hlen s = do {
     let room = int (hlen + PBUF_LINK_HLEN + PBUF_LINK_ENCAPSULATION_HLEN);
     (r, s) \<leftarrow> pbuf_header (Some p) room s;
     if r \<noteq> 0 then do {
       b \<leftarrow> pbufs s p;
       (r, s) \<leftarrow> pbuf_alloc PBUF_LINK (to_u16 (pb_tot_len b + hlen)) PBUF_RAM s;
       case r of
         None \<Rightarrow> Some (None, s)
       | Some r \<Rightarrow> do {
           rb \<leftarrow> pbufs s r;
           if pb_len rb < hlen + SIZEOF_ICMP_ECHO_HDR then do { (_, s) \<leftarrow> pbuf_free (Some r) s; Some (None, s) }
           else do {
             payload \<leftarrow> pb_payload rb;
             let s = s\<lparr>bytes := wr (bytes s) payload (rd (bytes s) iphdr_in hlen)\<rparr>;
             (e, s) \<leftarrow> pbuf_header (Some r) (- int hlen) s;
             lwip_assert (e = 0);
             (e, s) \<leftarrow> pbuf_copy (Some r) (Some p) s;
             if e \<noteq> ERR_OK then do { (_, s) \<leftarrow> pbuf_free (Some r) s; Some (None, s) }
             else do {
               (_, s) \<leftarrow> pbuf_free (Some p) s;
               Some (Some r, s)
             }
           }
         }
     } else do {
       (e, s) \<leftarrow> pbuf_header (Some p) (- room) s;
       lwip_assert (e = 0);
       Some (Some p, s)
     }
   }"

text \<open>The request becomes the reply: \<open>iphdr\<close> is its IP header, \<open>iecho\<close> its ICMP header.\<close>

definition echo_chksum :: "nat \<Rightarrow> (nat \<Rightarrow> u8) \<Rightarrow> nat \<Rightarrow> u8" where
  "echo_chksum iecho M =
     (if ucast (icmp_chksum M iecho) > PP_HTONS (0xFFFF - push_bit 8 (ucast ICMP_ECHO))
      then put16 (iecho + 2) (ucast (ucast (icmp_chksum M iecho) + (PP_HTONS (push_bit 8 (ucast ICMP_ECHO)) + 1))) M
      else put16 (iecho + 2) (ucast (ucast (icmp_chksum M iecho) + PP_HTONS (push_bit 8 (ucast ICMP_ECHO)))) M)"

definition echo_reply :: "nat \<Rightarrow> nat \<Rightarrow> nat \<Rightarrow> u32 \<Rightarrow> u32 \<Rightarrow> (nat \<Rightarrow> u8) \<Rightarrow> nat \<Rightarrow> u8" where
  "echo_reply iphdr iecho hlen src dest M =
     (let M = put32 (iphdr + 12) src M;
          M = put32 (iphdr + 16) dest M;
          M = M(iecho := ICMP_ER);
          M = echo_chksum iecho M;
          M = M(iphdr + 8 := ICMP_TTL);
          M = put16 (iphdr + 10) 0 M
      in put16 (iphdr + 10) (inet_chksum (of_nat iphdr) (rd M iphdr hlen)) M)"

definition icmp_echo :: "'v protos ip_env \<Rightarrow> nat \<Rightarrow> nat \<Rightarrow> nat \<Rightarrow> nat \<Rightarrow> 'v lwip \<Rightarrow> 'v lwip option" where
  "icmp_echo env p inp iphdr_in hlen st = do {
     b \<leftarrow> pbufs (bufs st) p;
     cur \<leftarrow> current_netif (ip_data st);
     cn \<leftarrow> netif_at (ifs st) cur;
     let src = current_iphdr_dest (ip_data st);
     if ip4_addr_ismulticast src then icmp_err p st
     else if ip4_addr_isbroadcast_u32 src cn then icmp_err p st
     else if pb_tot_len b < SIZEOF_ICMP_ECHO_HDR then icmp_lenerr p st
     else do {
       ps \<leftarrow> pbuf_payloads (bufs st) (Some p);
       if inet_chksum_pbuf ps \<noteq> 0 then icmp_chkerr p st
       else do {
         (q, s) \<leftarrow> icmp_make_room p iphdr_in hlen (bufs st);
         let st = st\<lparr>bufs := s\<rparr>;
         case q of
           None \<Rightarrow> icmp_err p st
         | Some p \<Rightarrow> do {
             b \<leftarrow> pbufs (bufs st) p;
             iecho \<leftarrow> pb_payload b;
             (e, s) \<leftarrow> pbuf_header (Some p) (int hlen) (bufs st);
             let st = st\<lparr>bufs := s\<rparr>;
             st \<leftarrow> (if e \<noteq> 0 then Some st
               else do {
                 b \<leftarrow> pbufs (bufs st) p;
                 iphdr \<leftarrow> pb_payload b;
                 let st = on_bytes (echo_reply iphdr iecho hlen src (current_iphdr_src (ip_data st))) st;
                 let st = on_icmp (\<lambda>t. t\<lparr>ps_xmit := ps_xmit t + 1\<rparr>) st;
                 (_, st) \<leftarrow> ip4_output_if env p (Some src) None ICMP_TTL 0 IP_PROTO_ICMP inp st;
                 Some st
               });
             ip_free p st
           }
       }
     }
   }"

definition icmp_input :: "'v protos ip_env \<Rightarrow> nat \<Rightarrow> nat \<Rightarrow> 'v lwip \<Rightarrow> 'v lwip option" where
  "icmp_input env p inp st = do {
     let st = on_icmp (\<lambda>t. t\<lparr>ps_recv := ps_recv t + 1\<rparr>) st;
     iphdr_in \<leftarrow> current_ip4_header (ip_data st);
     let hlen = unat (IPH_HL (bytes (bufs st)) iphdr_in) * 4;
     b \<leftarrow> pbufs (bufs st) p;
     if hlen < IP_HLEN then icmp_lenerr p st
     else if pb_len b < 4 then icmp_lenerr p st
     else do {
       payload \<leftarrow> pb_payload b;
       let type = bytes (bufs st) payload;
       if type = ICMP_ER then ip_free p st
       else if type = ICMP_ECHO then icmp_echo env p inp iphdr_in hlen st
       else ip_free p (on_icmp (\<lambda>t. t\<lparr>ps_proterr := ps_proterr t + 1, ps_drop := ps_drop t + 1\<rparr>) st)
     }
   }"

subsection \<open>Error messages\<close>

definition icmp_send_response :: "'v protos ip_env \<Rightarrow> nat \<Rightarrow> u8 \<Rightarrow> u8 \<Rightarrow> 'v lwip \<Rightarrow> 'v lwip option" where
  "icmp_send_response env p type code st = do {
     let size = SIZEOF_ICMP_ECHO_HDR + IP_HLEN + ICMP_DEST_UNREACH_DATASIZE;
     (q, s) \<leftarrow> pbuf_alloc PBUF_IP size PBUF_RAM (bufs st);
     let st = st\<lparr>bufs := s\<rparr>;
     case q of
       None \<Rightarrow> Some st
     | Some q \<Rightarrow> do {
         qb \<leftarrow> pbufs (bufs st) q;
         lwip_assert (pb_len qb \<ge> size);
         pb \<leftarrow> pbufs (bufs st) p;
         iphdr \<leftarrow> pb_payload pb;
         icmphdr \<leftarrow> pb_payload qb;
         let st = on_bytes (\<lambda>M. put16 (icmphdr + 6) 0 (put16 (icmphdr + 4) 0 (M(icmphdr := type, icmphdr + 1 := code)))) st;
         let st = on_bytes (\<lambda>M. wr M (icmphdr + SIZEOF_ICMP_ECHO_HDR) (rd M iphdr (IP_HLEN + ICMP_DEST_UNREACH_DATASIZE))) st;
         let iphdr_src = iph_src (bytes (bufs st)) iphdr;
         (netif, st) \<leftarrow> ip4_route iphdr_src st;
         st \<leftarrow> (case netif of
             None \<Rightarrow> Some st
           | Some netif \<Rightarrow> do {
               let st = on_bytes (put16 (icmphdr + 2) 0) st;
               let st = on_bytes (\<lambda>M. put16 (icmphdr + 2) (inet_chksum (of_nat icmphdr) (rd M icmphdr (pb_len qb))) M) st;
               let st = on_icmp (\<lambda>t. t\<lparr>ps_xmit := ps_xmit t + 1\<rparr>) st;
               (_, st) \<leftarrow> ip4_output_if env q None (Some iphdr_src) ICMP_TTL 0 IP_PROTO_ICMP netif st;
               Some st
             });
         ip_free q st
       }
   }"

fun icmp_dur_code :: "icmp_dur_type \<Rightarrow> u8" where
  "icmp_dur_code ICMP_DUR_NET = 0"
| "icmp_dur_code ICMP_DUR_HOST = 1"
| "icmp_dur_code ICMP_DUR_PROTO = 2"
| "icmp_dur_code ICMP_DUR_PORT = 3"
| "icmp_dur_code ICMP_DUR_FRAG = 4"
| "icmp_dur_code ICMP_DUR_SR = 5"

fun icmp_te_code :: "icmp_te_type \<Rightarrow> u8" where
  "icmp_te_code ICMP_TE_TTL = 0"
| "icmp_te_code ICMP_TE_FRAG = 1"

definition icmp_dest_unreach :: "'v protos ip_env \<Rightarrow> nat \<Rightarrow> icmp_dur_type \<Rightarrow> 'v lwip \<Rightarrow> 'v lwip option" where
  "icmp_dest_unreach env p t st = icmp_send_response env p ICMP_DUR (icmp_dur_code t) st"

definition icmp_time_exceeded :: "'v protos ip_env \<Rightarrow> nat \<Rightarrow> icmp_te_type \<Rightarrow> 'v lwip \<Rightarrow> 'v lwip option" where
  "icmp_time_exceeded env p t st = icmp_send_response env p ICMP_TE (icmp_te_code t) st"

end
