(* ===== verification/Icmp_Props.thy ===== *)
theory Icmp_Props
  imports Icmp
begin

text \<open>
  An echo request is answered with an echo reply that carries the same data, in place if the request has room for the link header in front of its IP header, else from a
  copy of it; both checksums of the reply are valid.
\<close>

section \<open>The checksum of the reply\<close>

definition echo_sum :: "u16 \<Rightarrow> u16" where
  "echo_sum c = (if c > 0xFFF7 then c + 9 else c + 8)"

lemma unat_echo_sum: "unat (echo_sum c) = (if unat c > 0xFFF7 then unat c + 9 - 65536 else unat c + 8)"
proof (cases "c > 0xFFF7")
  case True
  then have "unat c > 0xFFF7" by (simp add: word_less_nat_alt)
  then obtain r where r: "unat c + 9 = r + 65536" using le_Suc_ex [of 65527 "unat c"] by auto
  then have "r < 65536" using unat_u16_less [of c] by linarith
  then have "(unat c + 9) mod 65536 = unat c + 9 - 65536" unfolding r by (simp only: mod_add_self2 mod_less add_diff_cancel_right')
  with True \<open>unat c > 0xFFF7\<close> show ?thesis by (simp add: echo_sum_def unat_add_u16)
next
  case False
  then have "unat c \<le> 0xFFF7" by (simp add: word_less_nat_alt not_less)
  with False show ?thesis by (simp add: echo_sum_def unat_add_u16)
qed

lemma wsum_echo: "wsum False ([t, code] @ mem16 c @ body) = unat t + 256 * unat code + unat c + wsum False body"
proof -
  have "length (mem16 c) = 2" by (simp add: mem16_def)
  then show ?thesis by (simp add: wsum_append [of False "[t, code]"] wsum_append [of False "mem16 c"] wsum_mem16 wsum_load16 unat_load16)
qed

lemma echo_sum_verifies:
  assumes "inet_checksum_of ([ICMP_ECHO, code] @ mem16 c @ body) = 0"
  shows "inet_checksum_of ([ICMP_ER, code] @ mem16 (echo_sum c) @ body) = 0"
proof -
  let ?w = "8 + 256 * unat code + unat c + wsum False body" and ?v = "256 * unat code + unat (echo_sum c) + wsum False body"
  have w: "?w mod 65535 = 0" "?w \<noteq> 0" using assms by (simp_all add: checksum_zero_iff wsum_echo [of _ _ c body, simplified] add.assoc)
  have "?v mod 65535 = 0 \<and> ?v \<noteq> 0"
  proof (cases "unat c > 0xFFF7")
    case True
    then have "?v + 65535 = ?w" "?v \<noteq> 0" by (simp_all add: unat_echo_sum)
    with w(1) show ?thesis by (metis mod_add_self2)
  next
    case False
    then have "?v = ?w" by (simp add: unat_echo_sum)
    with w show ?thesis by (simp only: simp_thms)
  qed
  then show ?thesis by (simp add: checksum_zero_iff wsum_echo [of _ _ "echo_sum c" body, simplified] add.assoc)
qed

lemma echo_chksum_eq: "echo_chksum h M = put16 (h + 2) (echo_sum (icmp_chksum M h)) M"
proof -
  have k: "PP_HTONS 63487 = 0xFFF7" "PP_HTONS 2048 = 8" by (simp_all add: PP_HTONS_def)
  have gt: "(ucast c :: u32) > 0xFFF7 \<longleftrightarrow> c > 0xFFF7" for c :: u16 by (simp add: word_less_nat_alt)
  have u: "(ucast (ucast c + 9 :: u32) :: u16) = c + 9" "(ucast (ucast c + 8 :: u32) :: u16) = c + 8" for c :: u16
  proof -
    have "unat (ucast c + 9 :: u32) = unat c + 9" "unat (ucast c + 8 :: u32) = unat c + 8"
      using unat_add_u32_small [of "ucast c" 9] unat_add_u32_small [of "ucast c" 8] less_trans [OF unat_u16_less [of c], of 4294967287]
      by (simp_all add: unat_ucast_u16_u32)
    then show "(ucast (ucast c + 9 :: u32) :: u16) = c + 9" "(ucast (ucast c + 8 :: u32) :: u16) = c + 8" by (simp_all add: word_unat_eq_iff unat_add_u16)
  qed
  show ?thesis by (simp add: echo_chksum_def k gt u echo_sum_def)
qed

section \<open>The header of the reply\<close>

lemma echo_reply_eq:
  assumes H: "rd M h IP_HLEN = ip4_datagram_header src dest tt ts proto len ident" and X: "M (h + 21) = code" "icmp_chksum M (h + 20) = c"
  shows "echo_reply h (h + 20) IP_HLEN dest src M = wr M h (ip4_datagram_header dest src ICMP_TTL ts proto len ident @ [ICMP_ER, code] @ mem16 (echo_sum c))"
proof -
  have at: "list_all (\<lambda>i. M (h + i) = (ip4_datagram_header src dest tt ts proto len ident @ [M (h + 20), code]) ! i) [0..<22]"
    unfolding list_all_iff
  proof
    fix i :: nat assume "i \<in> set [0..<22]"
    then consider "i < 20" | "i = 20" | "i = 21" by fastforce
    then show "M (h + i) = (ip4_datagram_header src dest tt ts proto len ident @ [M (h + 20), code]) ! i"
      using rd_nth [OF H, of i] X(1) by cases (simp_all add: nth_append)
  qed
  let ?k = "inet_checksum_of (ip4_header 0 dest src 255 ts proto len ident)"
  define M1 where "M1 = (put16 (h + (20 + 2)) (echo_sum c) ((put32 (h + 16) src (put32 (h + 12) dest M))(h + 20 := 0)))(h + 8 := 255)"
  have M1': "M1 = (put16 (h + 22) (echo_sum c) ((put32 (h + 16) src (put32 (h + 12) dest M))(h + 20 := 0)))(h + 8 := 255)" by (simp add: M1_def)
  define M2 where "M2 = put16 (h + 10) 0 M1"
  have c: "icmp_chksum ((put32 (h + 16) src (put32 (h + 12) dest M))(h + 20 := 0)) (h + 20) = c"
    using X(2) by (simp add: icmp_chksum_def get16_def put32_def wr_def mem32_def)
  note nth = ip4_datagram_header_def ip4_header_def net16_def mem16_def mem32_def
  have "rd M2 h 20 = ip4_header 0 dest src 255 ts proto len ident"
  proof (rule nth_equalityI)
    fix i assume "i < length (rd M2 h 20)"
    then have i: "i \<in> set [0..<20]" by simp
    have "list_all (\<lambda>i. M2 (h + i) = ip4_header 0 dest src 255 ts proto len ident ! i) [0..<20]"
      using at by (simp add: M2_def M1' put16_def put32_def wr_def nth upt_rec)
    with i show "rd M2 h 20 ! i = ip4_header 0 dest src 255 ts proto len ident ! i" unfolding list_all_iff by simp
  qed simp
  then have chk: "inet_chksum (of_nat h) (rd M2 h 20) = ?k" by (simp add: inet_chksum_eq)
  have "echo_reply h (h + 20) 20 dest src M = put16 (h + 10) ?k M2"
    unfolding echo_reply_def Let_def echo_chksum_eq c add.assoc M1_def [symmetric] M2_def [symmetric] chk ..
  also have "\<dots> = wr M h (ip4_datagram_header dest src 255 ts proto len ident @ [0, code] @ mem16 (echo_sum c))"
    using at
    by (intro eq_wrI) (auto simp: M2_def M1' put16_def put32_def wr_def nth upt_rec)
  finally show ?thesis .
qed

section \<open>Room for the link header\<close>

lemma make_room_copies:
  assumes pk: "packet E p X s" "0 < length X" "length X \<le> 60000" and b: "pbufs s p = Some b" "pb_payload b = Some pl" and room: "pl < p + 68"
    and xs: "chain (pbufs s) (Some p) xs" "filled (pbufs s) xs"
    and r: "pbuf_alloc PBUF_LINK (length X + IP_HLEN) PBUF_RAM s = Some (Some r, s1)" and X8: "SIZEOF_ICMP_ECHO_HDR \<le> length X"
  shows "\<exists>s' rb. icmp_make_room p ih IP_HLEN s = Some (Some r, s') \<and> packet E r X s' \<and> pbufs s' r = Some rb \<and> pb_payload rb = Some (r + 68) \<and> pb_len rb = length X
    \<and> rd (bytes s') (r + 48) IP_HLEN = rd (bytes s) ih IP_HLEN"
proof -
  obtain zs where a: "net_ok (E(p := 1)) s" "E p = 0" "chain (pbufs s) (Some p) (p # zs)" "own_memory (pbufs s) (p # zs)" "chain_data (pbufs s) (bytes s) (p # zs) = X"
    and tot: "pb_tot_len b = length X" "pb_len b \<le> pb_tot_len b" "pb_type b = PBUF_RAM \<or> pb_type b = PBUF_POOL" using pk(1) b by (auto elim!: packetE)
  have xs': "xs = p # zs" using xs(1) a(3) links_unique by (auto simp: chain_def)
  have hdr: "pbuf_header (Some p) (int (20 + 32 + 0)) s = Some (1, s)"
    using pbuf_header_reveal(3) [OF a(1) b tot(3), of 52 False] room tot pk(3) by (simp add: pbuf_header_def)
  have "layer_offset PBUF_LINK + 16 + LWIP_MEM_ALIGN_SIZE (length X + 20) \<le> 65532" using pk(3) by (simp add: LWIP_MEM_ALIGN_SIZE_def)
  from alloc_ram_ok [OF a(1) this] r have new: "new_chain (E(p := 1)) PBUF_LINK (length X + 20) PBUF_RAM s r [r] s1" by auto
  note parts = new_chain_parts [OF new]
  obtain rb where rb: "pbufs s1 r = Some rb" "pb_next rb = None" "pb_payload rb = Some (r + 48)" "pb_len rb = length X + 20" "pb_tot_len rb = length X + 20"
    using new by (auto simp: new_chain_def chain_Cons plen_def)
  from new_packet [OF new] obtain D where D: "length D = length X + 20" "packet (E(p := 1)) r D s1" by auto
  let ?H = "rd (bytes s) ih 20"
  let ?s2 = "s1\<lparr>bytes := wr (bytes s1) (r + 48) ?H\<rparr>"
  have pk2: "packet (E(p := 1)) r (?H @ drop 20 D) ?s2" using packet_write [OF D(2) rb(1,3), of ?H] rb(4) by simp
  let ?rb = "rb\<lparr>pb_payload := Some (r + 48 + 20), pb_len := pb_len rb - 20, pb_tot_len := pb_tot_len rb - 20\<rparr>"
  let ?s3 = "put_pbuf r ?rb ?s2"
  have hide: "pbuf_header (Some r) (- int 20) ?s2 = Some (0, ?s3)" "packet (E(p := 1)) r (drop 20 D) ?s3"
    using packet_hide [OF pk2 _ _ rb(3), of 20] rb D(1) pk(3) by simp_all
  have rx: "r \<notin> set xs" using parts(8) chain_live [OF xs(1)] by auto
  have same: "pbufs ?s3 x = pbufs s x" if "x \<in> set xs" for x using that rx parts(9) [of x] by auto
  have inv1: "pbuf_inv s1" using parts(1) by (simp add: net_ok_def)
  have p3: "chain (pbufs ?s3) (Some p) xs" "own_memory (pbufs ?s3) xs" "filled (pbufs ?s3) xs" "\<And>M. chain_data (pbufs ?s3) M xs = chain_data (pbufs s) M xs"
    using chain_agree [of xs "pbufs ?s3" "pbufs s" "Some p"] same xs a(4) xs' by metis+
  have same1: "pbufs s1 x = pbufs s x" if "x \<in> set xs" for x using that rx parts(9) [of x] by auto
  have p1: "own_memory (pbufs s1) xs" "\<And>M. chain_data (pbufs s1) M xs = chain_data (pbufs s) M xs"
    using chain_agree [of xs "pbufs s1" "pbufs s" "Some p"] same1 xs a(4) xs' by metis+
  with own_data_apart [OF inv1 parts(6), of xs] own_payloads [OF inv1 p1(1)] rx have "data_apart (pbufs s1) [r] xs" "payloads (\<lambda>_ _. True) (pbufs s1) xs" by simp_all
  moreover have "within (pbufs s1) [r] (bytes s1) (bytes ?s2)" using within_wr [of "pbufs s1" r rb "r + 48" 0 ?H "bytes s1"] rb by simp
  ultimately have "chain_data (pbufs s1) (bytes ?s2) xs = chain_data (pbufs s1) (bytes s1) xs" by (rule data_apart_within)
  then have data: "chain_data (pbufs ?s3) (bytes ?s3) xs = X" using a(5) xs' parts(7) p3(4) p1(2) by (simp del: chain_data_simps)
  have "pbufs ?s3 r = Some ?rb" "pb_next ?rb = None" "length (drop 20 D) = length X" "length X < 65536" using rb D(1) pk(3) by simp_all
  from packet_copy [OF hide(2) this(1,2,3) pk(2) this(4) p3(1-3) data rx] obtain M where
    M: "pbuf_copy (Some r) (Some p) ?s3 = Some (ERR_OK, ?s3\<lparr>bytes := M\<rparr>)" "packet (E(p := 1)) r X (?s3\<lparr>bytes := M\<rparr>)" "within (pbufs ?s3) [r] (bytes ?s3) M" by blast
  have pr: "p \<noteq> r" using rx xs' by auto
  from packet_free_other [OF M(2) a(2) pr] obtain n s4 where
    s4: "pbuf_free (Some p) (?s3\<lparr>bytes := M\<rparr>) = Some (n, s4)" "packet E r X s4" "bytes s4 = M" "pbufs s4 r = Some ?rb" by auto
  have "rd M (r + 48) 20 = rd (bytes ?s3) (r + 48) 20"
    using M(3) [unfolded within_def, rule_format, of "r + 48" 20] rb by (simp add: apart_def)
  then have H: "rd M (r + 48) 20 = ?H" by (auto intro: nth_equalityI simp: wr_def)
  have u16: "to_u16 (length X + 20) = length X + 20" using pk(3) by (simp add: to_u16_def)
  have "icmp_make_room p ih 20 s = Some (Some r, s4)"
    unfolding icmp_make_room_def Let_def hdr using b tot(1) r rb hide(1) M(1) s4(1) X8 parts(7) by (simp add: u16 del: fun_upd_apply)
  with s4 H rb(4) show ?thesis by auto
qed

text \<open>A request with room for the IP and link headers in front of it, as the SLIP driver and the loopback queue deliver them, is used as it is.\<close>

lemma make_room_in_place:
  assumes pk: "packet E p X s" "length X \<le> 60000" and b: "pbufs s p = Some b" "pb_payload b = Some pl" and room: "p + 68 \<le> pl"
  shows "icmp_make_room p ih IP_HLEN s = Some (Some p, s)"
proof -
  from pk(1) b have a: "net_ok (E(p := 1)) s" "pb_type b = PBUF_RAM \<or> pb_type b = PBUF_POOL" "pb_len b \<le> pb_tot_len b" "pb_tot_len b = length X"
    by (auto elim!: packetE)
  let ?b = "b\<lparr>pb_payload := Some (pl - 52), pb_len := pb_len b + 52, pb_tot_len := pb_tot_len b + 52\<rparr>"
  have up: "pbuf_header (Some p) (int 52) s = Some (0, put_pbuf p ?b s)"
    using pbuf_header_reveal(1) [OF a(1) b a(2), of 52 False] room a pk(2) by (simp add: pbuf_header_def)
  from packet_reveal [OF pk(1) b, of 52] room pk(2) up have pk1: "packet E p (rd (bytes s) (pl - 52) 52 @ X) (put_pbuf p ?b s)" by auto
  have same: "put_pbuf p (?b\<lparr>pb_payload := Some (pl - 52 + 52), pb_len := pb_len ?b - 52, pb_tot_len := pb_tot_len ?b - 52\<rparr>) (put_pbuf p ?b s) = s"
    using b room by (simp add: put_pbuf_def fun_upd_idem)
  have down: "pbuf_header (Some p) (- int 52) (put_pbuf p ?b s) = Some (0, s)"
    using packet_hide(1) [OF pk1, of ?b "pl - 52" 52] pk(2) same by simp
  show ?thesis unfolding icmp_make_room_def Let_def using up down by simp
qed

section \<open>The answer\<close>

text \<open>The message that is sent for the request \<open>X\<close>.\<close>

definition echo_answer :: "u8 list \<Rightarrow> u8 list" where
  "echo_answer X = [ICMP_ER, X ! 1] @ mem16 (echo_sum (load16 (X ! 2) (X ! 3))) @ drop 4 X"

lemma load16_mem16: "mem16 (load16 a b) = [a, b]"
  by (simp add: mem16_def word_unat_eq_iff unat_drop_bit_word unat_load16)

lemma echo_answer_verifies:
  assumes "inet_checksum_of X = 0" "X ! 0 = ICMP_ECHO" "4 \<le> length X"
  shows "inet_checksum_of (echo_answer X) = 0"
proof -
  have "X = [8, X ! 1] @ mem16 (load16 (X ! 2) (X ! 3)) @ drop 4 X" unfolding load16_mem16
  proof (rule nth_equalityI)
    fix i assume "i < length X"
    consider "i = 0" | "i = 1" | "i = 2" | "i = 3" | "4 \<le> i" by linarith
    then show "X ! i = ([8, X ! 1] @ [X ! 2, X ! 3] @ drop 4 X) ! i" using assms(2,3) by cases (simp_all add: nth_append numeral_3_eq_3)
  qed (use assms(3) in simp)
  with assms(1) show ?thesis unfolding echo_answer_def by (metis echo_sum_verifies)
qed

text \<open>From the packet with room to the frame on the line.\<close>

lemma echo_sends:
  assumes env: "UART_write env = on_dev write" "uart_ok write line" and pk: "packet E q X (bufs st)" "4 \<le> length X" "length X \<le> 60000"
    and b: "pbufs (bufs st) q = Some b" "pb_payload b = Some pl" "q + 16 + IP_HLEN \<le> pl" "4 \<le> pb_len b"
    and H: "rd (bytes (bufs st)) (pl - IP_HLEN) IP_HLEN = ip4_datagram_header src dest tt ts proto len ident" and src: "current_iphdr_src (ip_data st) = src"
    and l: "slip_link st inp n src (length X + IP_HLEN)"
  shows "\<exists>s1 b1 st'. pbuf_header (Some q) (int IP_HLEN) (bufs st) = Some (0, s1) \<and> pbufs s1 q = Some b1 \<and> pb_payload b1 = Some (pl - IP_HLEN)
    \<and> ip4_output_if env q (Some dest) None ICMP_TTL 0 IP_PROTO_ICMP inp
        (on_icmp f (on_bytes (echo_reply (pl - IP_HLEN) pl IP_HLEN dest src) (st\<lparr>bufs := s1\<rparr>))) = Some (ERR_OK, st')
    \<and> line (dev (rest st')) = line (dev (rest st)) @ slip_frame (ip4_datagram_header dest src ICMP_TTL ts proto len ident @ echo_answer X)
    \<and> packet E q (ip4_datagram_header dest src ICMP_TTL ts proto len ident @ echo_answer X) (bufs st')"
proof -
  let ?h = "pl - 20" and ?M = "bytes (bufs st)"
  have pl: "pl = ?h + 20" using b(3) by simp
  from packet_reveal [OF pk(1) b(1,2), of 20] b(3) pk(3) obtain s1 b1 where
    s1: "pbuf_header (Some q) (int 20) (bufs st) = Some (0, s1)" "packet E q (rd ?M ?h 20 @ X) s1" "pbufs s1 q = Some b1" "pb_payload b1 = Some ?h" "bytes s1 = ?M"
    by auto
  have b1: "pb_len b1 = pb_len b + 20"
  proof -
    from pk(1) b have "net_ok (E(q := 1)) (bufs st)" "pb_type b = PBUF_RAM \<or> pb_type b = PBUF_POOL" "pb_len b \<le> pb_tot_len b" "pb_tot_len b = length X"
      by (auto elim!: packetE)
    with pbuf_header_reveal(1) [of "E(q := 1)" "bufs st" q b pl 20 False] b pk(3) s1(1,3) show ?thesis by (auto simp: pbuf_header_def)
  qed
  let ?c = "load16 (X ! 2) (X ! 3)"
  have at: "?M (pl + i) = X ! i" if "i < 4" for i using packet_nth(1) [OF pk(1) b(1,2), of i] that b(4) by simp
  have "?M (?h + 21) = X ! 1" "icmp_chksum ?M (?h + 20) = ?c"
    using at [of 1] at [of 2] at [of 3, unfolded numeral_3_eq_3] pl by (simp_all add: icmp_chksum_def get16_def numeral_3_eq_3 ac_simps)
  from echo_reply_eq [OF H this] have
    reply: "echo_reply ?h pl 20 dest src ?M = wr ?M ?h (ip4_datagram_header dest src 255 ts proto len ident @ [0, X ! 1] @ mem16 (echo_sum ?c))" (is "_ = wr _ _ ?zs")
    using pl by simp
  have zs: "length ?zs = 24" by (simp add: mem16_def)
  let ?D = "ip4_datagram_header dest src 255 ts proto len ident @ echo_answer X"
  let ?st = "on_icmp f (on_bytes (echo_reply ?h pl 20 dest src) (st\<lparr>bufs := s1\<rparr>))"
  have D: "?zs @ drop 24 (rd ?M ?h 20 @ X) = ?D" by (simp add: echo_answer_def)
  have pk2: "packet E q ?D (bufs ?st)" using packet_write [OF s1(2,3,4), of ?zs] zs b1 b(4) unfolding D by (simp add: s1(5) reply echo_answer_def)
  have len: "length ?D = length X + 20" using pk(2) by (simp add: echo_answer_def mem16_def)
  have "tx_packet (E(q := 1)) q 0 ?D (bufs ?st)" using s1(3,4) b(3) len pk(3) by (intro packet_tx [OF pk2, of b1 ?h]) auto
  moreover have "slip_link ?st inp n src (length ?D)" using l unfolding len by (simp add: slip_link_def)
  ultimately obtain w' where w': "ip4_transmit env q src inp ?st = Some (ERR_OK, (on_stats (\<lambda>t. t\<lparr>ps_xmit := ps_xmit t + 1\<rparr>) ?st)\<lparr>rest := w'\<rparr>)"
    "line (dev w') = line (dev (rest ?st)) @ slip_frame ?D" using slip_transmit [OF uart_on_dev [OF env(2), folded env(1)]] by blast
  let ?st' = "(on_stats (\<lambda>t. t\<lparr>ps_xmit := ps_xmit t + 1\<rparr>) ?st)\<lparr>rest := w'\<rparr>"
  have "rd (bytes (bufs ?st)) ?h 20 = ip4_datagram_header dest src 255 ts proto len ident"
    by (rule nth_equalityI) (auto simp: s1(5) reply wr_def nth_append)
  then have "iph_dest (bytes (bufs ?st)) ?h = src" by (intro header_fields(8)) (simp add: has_header_def)
  moreover have "pbufs (bufs ?st) q = Some b1" "pb_ref b1 = 1" using s1(3) pk2 by (auto simp: packet_def ref_of_def)
  ultimately have "ip4_output_if env q (Some dest) None 255 0 1 inp ?st = Some (ERR_OK, ?st')"
    using l w'(1) s1(4) by (simp add: ip4_output_if_def ip4_output_if_src_def slip_link_def)
  moreover have "line (dev (rest ?st')) = line (dev (rest st)) @ slip_frame ?D" "packet E q ?D (bufs ?st')" using w'(2) pk2 by simp_all
  ultimately show ?thesis using s1(1,3,4) by (intro exI [of _ s1] exI [of _ b1] exI [of _ ?st']) simp
qed

text \<open>The answer, once there is room: in \<open>r\<close>, with the IP header in front of the message.\<close>

lemma icmp_echo_answered:
  assumes env: "UART_write env = on_dev write" "uart_ok write line" and pk: "packet E p X (bufs st)" "8 \<le> length X" "length X \<le> 60000"
    and X: "X ! 0 = ICMP_ECHO" "inet_checksum_of X = 0" and b: "pbufs (bufs st) p = Some b" "pb_payload b = Some pl" "4 \<le> pb_len b"
    and g: "current_netif (ip_data st) = Some inp" "current_ip4_header (ip_data st) = Some ih" "current_iphdr_src (ip_data st) = src" "current_iphdr_dest (ip_data st) = dest"
    and H: "rd (bytes (bufs st)) ih IP_HLEN = ip4_datagram_header src dest tt ts proto len ident"
    and n: "slip_link st inp n src (length X + IP_HLEN)" "\<not> ip4_addr_ismulticast dest" "\<not> ip4_addr_isbroadcast_u32 dest n"
    and s2: "icmp_make_room p ih IP_HLEN (bufs st) = Some (Some r, s2)" "packet E r X s2" "pbufs s2 r = Some rb" "pb_payload rb = Some (r + k + IP_HLEN)" "16 \<le> k" "4 \<le> pb_len rb"
      "rd (bytes s2) (r + k) IP_HLEN = ip4_datagram_header src dest tt ts proto len ident"
  shows "\<exists>st'. icmp_input env p inp st = Some st' \<and> net_ok E (bufs st')
    \<and> line (dev (rest st')) = line (dev (rest st)) @ slip_frame (ip4_datagram_header dest src ICMP_TTL ts proto len ident @ echo_answer X)"
proof -
  let ?st1 = "on_icmp (\<lambda>t. t\<lparr>ps_recv := ps_recv t + 1\<rparr>) st"
  have hl: "IPH_HL (bytes (bufs st)) ih = 5" using H by (intro header_fields(2)) (simp add: has_header_def)
  have ty: "bytes (bufs st) pl = 8" using packet_nth(1) [OF pk(1) b(1,2), of 0] b(3) X(1) by simp
  have tot: "pb_tot_len b = length X" using pk(1) b(1) by (auto elim!: packetE)
  from packet_payloads [OF pk(1)] pk(3) obtain ps where ps: "pbuf_payloads (bufs st) (Some p) = Some ps" "inet_chksum_pbuf ps = 0"
    using X(2) inet_chksum_pbuf_eq by auto
  let ?st2 = "?st1\<lparr>bufs := s2\<rparr>"
  have at: "r + k + 20 - 20 = r + k" by simp
  have pre: "packet E r X (bufs ?st2)" "4 \<le> length X" "pbufs (bufs ?st2) r = Some rb" "r + 16 + 20 \<le> r + k + 20" "4 \<le> pb_len rb"
    "rd (bytes (bufs ?st2)) (r + k + 20 - 20) 20 = ip4_datagram_header src dest tt ts proto len ident" "current_iphdr_src (ip_data ?st2) = src"
    "slip_link ?st2 inp n src (length X + 20)" using s2 pk(2) g(3) n(1) unfolding at by (simp_all add: slip_link_def add.commute)
  from echo_sends [OF env pre(1,2) pk(3) pre(3) s2(4) pre(4-8), of "\<lambda>t. t\<lparr>ps_xmit := ps_xmit t + 1\<rparr>", unfolded at] obtain s3 b3 st3 where
    s3: "pbuf_header (Some r) (int 20) s2 = Some (0, s3)" "pbufs s3 r = Some b3" "pb_payload b3 = Some (r + k)"
      "ip4_output_if env r (Some dest) None 255 0 1 inp
        (on_icmp (\<lambda>t. t\<lparr>ps_xmit := ps_xmit t + 1\<rparr>) (on_bytes (echo_reply (r + k) (r + k + 20) 20 dest src) (?st2\<lparr>bufs := s3\<rparr>))) = Some (ERR_OK, st3)"
      "line (dev (rest st3)) = line (dev (rest st)) @ slip_frame (ip4_datagram_header dest src 255 ts proto len ident @ echo_answer X)"
      "packet E r (ip4_datagram_header dest src 255 ts proto len ident @ echo_answer X) (bufs st3)" by auto
  from s3(6) have ok: "net_ok (E(r := 1)) (bufs st3)" "E r = 0" by (auto simp: packet_def)
  from pbuf_free_ok [OF ok(1), of r] ok(2) obtain j s4 where s4: "pbuf_free (Some r) (bufs st3) = Some (j, s4)" "net_ok E s4" by (auto simp: fun_upd_idem)
  have "icmp_input env p inp st = icmp_echo env p inp ih 20 ?st1" using g(2) hl b ty by (simp add: icmp_input_def)
  also have "\<dots> = Some (st3\<lparr>bufs := s4\<rparr>)"
    using b(1) g n tot pk(2) ps s2(1,3,4) s3(1-4) s4(1) by (simp add: icmp_echo_def slip_link_def ip_free_def)
  finally show ?thesis using s3(5) s4(2) by simp
qed

text \<open>When the heap has no room for the copy, the request is dropped.\<close>

lemma icmp_echo_dropped:
  assumes pk: "packet E p X (bufs st)" "8 \<le> length X" "length X \<le> 60000"
    and X: "X ! 0 = ICMP_ECHO" "inet_checksum_of X = 0" and b: "pbufs (bufs st) p = Some b" "pb_payload b = Some pl" "4 \<le> pb_len b" "pl < p + 68"
    and g: "current_netif (ip_data st) = Some inp" "current_ip4_header (ip_data st) = Some ih" "current_iphdr_dest (ip_data st) = dest"
    and H: "rd (bytes (bufs st)) ih IP_HLEN = ip4_datagram_header src dest tt ts proto len ident"
    and n: "netif_at (ifs st) inp = Some n" "\<not> ip4_addr_ismulticast dest" "\<not> ip4_addr_isbroadcast_u32 dest n"
    and mem: "\<nexists>r s1. pbuf_alloc PBUF_LINK (length X + IP_HLEN) PBUF_RAM (bufs st) = Some (Some r, s1)"
  shows "\<exists>st'. icmp_input env p inp st = Some st' \<and> net_ok E (bufs st') \<and> dev (rest st') = dev (rest st)"
proof -
  let ?st1 = "on_icmp (\<lambda>t. t\<lparr>ps_recv := ps_recv t + 1\<rparr>) st"
  have hl: "IPH_HL (bytes (bufs st)) ih = 5" using H by (intro header_fields(2)) (simp add: has_header_def)
  have ty: "bytes (bufs st) pl = 8" using packet_nth(1) [OF pk(1) b(1,2), of 0] b(3) X(1) by simp
  from packet_payloads [OF pk(1)] pk(3) obtain ps where ps: "pbuf_payloads (bufs st) (Some p) = Some ps" "inet_chksum_pbuf ps = 0"
    using X(2) inet_chksum_pbuf_eq by auto
  from pk(1) b have a: "net_ok (E(p := 1)) (bufs st)" "E p = 0" "pb_tot_len b = length X" "pb_len b \<le> pb_tot_len b" "pb_type b = PBUF_RAM \<or> pb_type b = PBUF_POOL"
    by (auto elim!: packetE)
  have hdr: "pbuf_header (Some p) (int (20 + 32 + 0)) (bufs st) = Some (1, bufs st)"
    using pbuf_header_reveal(3) [OF a(1) b(1,2) a(5), of 52 False] b(4) a pk(3) by (simp add: pbuf_header_def)
  have "layer_offset PBUF_LINK + 16 + LWIP_MEM_ALIGN_SIZE (length X + 20) \<le> 65532" using pk(3) by (simp add: LWIP_MEM_ALIGN_SIZE_def)
  from alloc_ram_ok [OF a(1) this] mem obtain s1 where s1: "pbuf_alloc PBUF_LINK (length X + 20) PBUF_RAM (bufs st) = Some (None, s1)" "net_ok (E(p := 1)) s1" by blast
  have u16: "to_u16 (length X + 20) = length X + 20" using pk(3) by (simp add: to_u16_def)
  have room: "icmp_make_room p ih 20 (bufs st) = Some (None, s1)" unfolding icmp_make_room_def Let_def hdr using b(1) a(3) s1(1) by (simp add: u16)
  from pbuf_free_ok [OF s1(2), of p] a(2) obtain k s2 where s2: "pbuf_free (Some p) s1 = Some (k, s2)" "net_ok E s2" by (auto simp: fun_upd_idem)
  have "icmp_input env p inp st = icmp_echo env p inp ih 20 ?st1" using g(2) hl b ty by (simp add: icmp_input_def)
  also have "\<dots> = Some (on_icmp (\<lambda>t. t\<lparr>ps_err := ps_err t + 1\<rparr>) (?st1\<lparr>bufs := s2\<rparr>))"
    using b(1) g n a(3) pk(2) ps room s2(1) by (simp add: icmp_echo_def icmp_err_def ip_free_def)
  finally show ?thesis using s2(2) by simp
qed

section \<open>Claims\<close>

text \<open>C6: ping. An echo request with a valid checksum that arrives on a serial interface is answered by exactly one frame on the line: an IP header
  with source and destination exchanged and a fresh time to live and checksum, and the message turned into an echo reply with a checksum that verifies and the data unchanged.
  A request whose pbuf has room for the link header in front of the IP header, as every packet of the SLIP driver and of the loopback queue has (they are allocated with \<open>PBUF_LINK\<close>, so that the message is at
  \<open>p + 68\<close>), is answered in place, without any allocation. Otherwise the answer is a copy from the heap, and if the heap has no room for it, nothing is sent. In all cases the request is released.\<close>

theorem icmp_echo_reply:
  assumes "UART_write env = on_dev write" "uart_ok write line" "packet E p X (bufs st)" "8 \<le> length X" "length X \<le> 60000" "X ! 0 = ICMP_ECHO" "inet_checksum_of X = 0"
    and "pbufs (bufs st) p = Some b" "pb_payload b = Some (ih + IP_HLEN)" "4 \<le> pb_len b" "chain (pbufs (bufs st)) (Some p) xs" "filled (pbufs (bufs st)) xs"
    and "current_netif (ip_data st) = Some inp" "current_ip4_header (ip_data st) = Some ih" "current_iphdr_src (ip_data st) = src" "current_iphdr_dest (ip_data st) = dest"
    and "rd (bytes (bufs st)) ih IP_HLEN = ip4_datagram_header src dest tt ts proto len ident"
    and "slip_link st inp n src (length X + IP_HLEN)" "\<not> ip4_addr_ismulticast dest" "\<not> ip4_addr_isbroadcast_u32 dest n"
  shows "\<exists>st'. icmp_input env p inp st = Some st' \<and> net_ok E (bufs st') \<and> line (dev (rest st')) = line (dev (rest st)) @
      (if p + SIZEOF_STRUCT_PBUF + layer_offset PBUF_LINK \<le> ih \<or> (\<exists>r s1. pbuf_alloc PBUF_LINK (length X + IP_HLEN) PBUF_RAM (bufs st) = Some (Some r, s1))
       then slip_frame (ip4_datagram_header dest src ICMP_TTL ts proto len ident @ echo_answer X) else [])
    \<and> inet_checksum_of (echo_answer X) = 0"
proof -
  have v: "inet_checksum_of (echo_answer X) = 0" using assms(4,6,7) by (intro echo_answer_verifies) simp_all
  note answered = icmp_echo_answered [OF assms(1-10,13-20)]
  consider (room) "p + 48 \<le> ih" | (copy) r s1 where "ih < p + 48" "pbuf_alloc PBUF_LINK (length X + 20) PBUF_RAM (bufs st) = Some (Some r, s1)"
    | (drop) "ih < p + 48" "\<nexists>r s1. pbuf_alloc PBUF_LINK (length X + 20) PBUF_RAM (bufs st) = Some (Some r, s1)" by fastforce
  then show ?thesis
  proof cases
    case room
    then obtain k where k: "ih = p + k" "48 \<le> k" by (metis le_iff_add add.assoc le_add1)
    have "icmp_make_room p ih 20 (bufs st) = Some (Some p, bufs st)" by (rule make_room_in_place [OF assms(3,5,8,9)]) (use room in simp)
    from answered [OF this assms(3,8), of k] k assms(9,10,17) room v show ?thesis by auto
  next
    case copy
    have "0 < length X" using assms(4) by linarith
    from make_room_copies [OF assms(3) this assms(5,8,9) _ assms(11,12) copy(2) assms(4), of ih] copy(1) obtain s2 rb where
      s2: "icmp_make_room p ih 20 (bufs st) = Some (Some r, s2)" "packet E r X s2" "pbufs s2 r = Some rb" "pb_payload rb = Some (r + 68)" "pb_len rb = length X"
        "rd (bytes s2) (r + 48) 20 = ip4_datagram_header src dest tt ts proto len ident" using assms(17) by auto
    from answered [OF s2(1-3), of 48] s2(4-6) assms(4) copy v show ?thesis by auto
  next
    case drop
    have "netif_at (ifs st) inp = Some n" using assms(18) by (simp add: slip_link_def)
    from icmp_echo_dropped [OF assms(3-10) _ assms(13,14,16,17) this assms(19,20) drop(2), of env] drop v show ?thesis by auto
  qed
qed

text \<open>A request of 50 bytes from 192.168.0.2 to 192.168.0.1.\<close>

abbreviation example_request :: "u8 list" where
  "example_request \<equiv> [ICMP_ECHO, 0, 0xF7, 0xFF] @ replicate 46 0"

abbreviation example_ip_header :: "u8 list" where
  "example_ip_header \<equiv> ip4_datagram_header (IP4_ADDR 192 168 0 2) (IP4_ADDR 192 168 0 1) 64 0 IP_PROTO_ICMP 70 7"

lemma wsum_zeros: "wsum hi (replicate n 0) = 0"
  by (induction n arbitrary: hi) simp_all

text \<open>A datagram of 70 bytes as the SLIP driver allocates it: in a pbuf of the pool, with the layer \<open>PBUF_LINK\<close>.\<close>

lemma example_link_packet:
  assumes "length D = 70"
  obtains p b s where "packet (\<lambda>_. 0) p D s" "pbufs s p = Some b" "pb_payload b = Some (p + 48)" "pb_len b = 70" "pb_next b = None"
proof -
  have "pool_need PBUF_LINK 70 = 1" "card (pool_pbufs example_net) = 0" "unat (desc_num (pool_desc example_net)) = 16"
    by (simp_all add: pool_need_def pool_pbufs_def example_net_def example_net_pools_def)
  with alloc_pool_ok [OF example_net_ok, of 70 PBUF_LINK] obtain p xs s where
    p: "new_chain (\<lambda>_. 0) PBUF_LINK 70 PBUF_POOL example_net p xs s" "length xs = 1" by auto
  note parts = new_chain_parts [OF p(1)]
  from p(2) obtain x where x: "xs = [x]" by (auto simp: length_Suc_conv)
  with parts(2) have xs: "xs = [p]" by (simp add: chain_Cons)
  obtain b where b: "pbufs s p = Some b" "pb_payload b = Some (p + 48)" using p(1) xs by (auto simp: new_chain_def)
  have len: "pb_len b = 70" using parts(3) xs b by (simp add: plen_def)
  from new_packet [OF p(1)] obtain D0 where D0: "length D0 = 70" "packet (\<lambda>_. 0) p D0 s" by blast
  from packet_write [OF D0(2) b, of D] assms len D0(1) have "packet (\<lambda>_. 0) p D (s\<lparr>bytes := wr (bytes s) (p + 48) D\<rparr>)" by simp
  then show ?thesis by (rule that) (use b len xs parts(2) in \<open>auto simp: chain_Cons\<close>)
qed

theorem icmp_echo_reply_witness:
  "\<exists>p st st'. packet (\<lambda>_. 0) p example_request (bufs st) \<and> icmp_input proto_env p 6 st = Some st' \<and> net_ok (\<lambda>_. 0) (bufs st')
     \<and> dev (rest st) = [] \<and> dev (rest st') = slip_frame (ip4_datagram_header (IP4_ADDR 192 168 0 1) (IP4_ADDR 192 168 0 2) ICMP_TTL 0 IP_PROTO_ICMP 70 7 @ echo_answer example_request)"
proof -
  let ?H = example_ip_header and ?X = example_request and ?src = "IP4_ADDR 192 168 0 2" and ?dest = "IP4_ADDR 192 168 0 1"
  have HX: "length (?H @ ?X) = 70" by simp
  obtain p b s where p: "packet (\<lambda>_. 0) p (?H @ ?X) s" "pbufs s p = Some b" "pb_payload b = Some (p + 48)" "pb_len b = 70" "pb_next b = None"
    by (rule example_link_packet [OF HX])
  have H: "rd (bytes s) (p + 48) 20 = ?H"
    by (rule nth_equalityI) (use packet_nth(1) [OF p(1-3)] p(4) in \<open>auto simp: nth_append\<close>)
  let ?b = "b\<lparr>pb_payload := Some (p + 48 + 20), pb_len := pb_len b - 20, pb_tot_len := pb_tot_len b - 20\<rparr>"
  let ?s = "put_pbuf p ?b s"
  have pk: "packet (\<lambda>_. 0) p ?X ?s" using packet_hide(2) [OF p(1) _ p(2,3), of 20] p(4) by simp
  let ?x = "example_stack (example_protos undefined) ?s :: u8 list lwip"
  let ?st = "?x\<lparr>ip_data := (ip_data ?x)\<lparr>current_netif := Some 6, current_ip4_header := Some (p + 48), current_iphdr_src := ?src, current_iphdr_dest := ?dest\<rparr>\<rparr>"
  have env: "UART_write proto_env = on_dev example_uart" by (simp add: proto_env_def)
  have X: "8 \<le> length ?X" "length ?X \<le> 60000" "?X ! 0 = 8" by simp_all
  have sum: "inet_checksum_of ?X = 0" using wsum_echo [of 8 0 "0xFFF7" "replicate 46 0"] by (simp add: checksum_zero_iff mem16_def wsum_zeros)
  have ch: "chain (pbufs (bufs ?st)) (Some p) [p]" "filled (pbufs (bufs ?st)) [p]"
    using pk p(2,4,5) by (auto simp: chain_Cons plen_def elim!: packetE)
  have st: "packet (\<lambda>_. 0) p ?X (bufs ?st)" "pbufs (bufs ?st) p = Some ?b" "pb_payload ?b = Some (p + 48 + 20)" "4 \<le> pb_len ?b"
    "current_netif (ip_data ?st) = Some 6" "current_ip4_header (ip_data ?st) = Some (p + 48)" "current_iphdr_src (ip_data ?st) = ?src" "current_iphdr_dest (ip_data ?st) = ?dest"
    "rd (bytes (bufs ?st)) (p + 48) 20 = ?H" using pk p H by simp_all
  have l: "slip_link ?st 6 example_serial ?src (length ?X + 20)" "\<not> ip4_addr_ismulticast ?dest" "\<not> ip4_addr_isbroadcast_u32 ?dest example_serial"
    by (simp_all add: slip_link_def example_host_at) (simp_all add: example_serial_def example_netif_def example_addrs ip4_addr_ismulticast_def PP_HTONL_def
      ip4_addr_isbroadcast_u32_def ip4_addr_netcmp_def)
  have d: "dev (rest ?st) = []" by (simp add: example_protos_def)
  from icmp_echo_reply [OF env examples_ok(1) st(1) X sum st(2-4) ch st(5-9) l] obtain st' where
    "icmp_input proto_env p 6 ?st = Some st'" "net_ok (\<lambda>_. 0) (bufs st')"
    "dev (rest st') = slip_frame (ip4_datagram_header ?dest ?src 255 0 1 70 7 @ echo_answer ?X)" unfolding d by auto
  with st(1) d show ?thesis by blast
qed

end
