(* ===== verification/Ip4_Reass.thy ===== *)
theory Ip4_Reass
  imports Protos
begin

text \<open>
  The first part of \<^verbatim>\<open>core/ipv4/ip4_frag.c\<close>: reassembly of datagrams that arrive in fragments. A datagram under reassembly is an
  \<^verbatim>\<open>ip_reassdata\<close> on the list \<open>reassdatagrams\<close>. Its fragments are linked through a \<^verbatim>\<open>struct ip_reass_helper\<close>, which replaces the IP header of each
  fragment in the memory of its pbuf; as on the target, a pointer is stored there in four bytes and \<^verbatim>\<open>NULL\<close> is zero. Overlapping fragments are checked for, and the oldest
  datagram is given up for a new one, which are the defaults of the configuration.
\<close>

section \<open>Definitions\<close>

abbreviation (input) IP_REASS_MAX_PBUFS :: nat where "IP_REASS_MAX_PBUFS \<equiv> 10"
abbreviation (input) IP_REASS_MAXAGE :: u8 where "IP_REASS_MAXAGE \<equiv> 3"
abbreviation (input) IP_REASS_FLAG_LASTFRAG :: u8 where "IP_REASS_FLAG_LASTFRAG \<equiv> 1"

subsection \<open>The helper structure in the memory of a fragment\<close>

definition ptr_word :: "ptr \<Rightarrow> u32" where
  "ptr_word p = (case p of None \<Rightarrow> 0 | Some a \<Rightarrow> of_nat a)"

definition word_ptr :: "u32 \<Rightarrow> ptr" where
  "word_ptr w = (if w = 0 then None else Some (unat w))"

definition rh_next_pbuf :: "(nat \<Rightarrow> u8) \<Rightarrow> nat \<Rightarrow> ptr" where "rh_next_pbuf M h = word_ptr (get32 M h)"
definition rh_start :: "(nat \<Rightarrow> u8) \<Rightarrow> nat \<Rightarrow> u16" where "rh_start M h = get16 M (h + 4)"
definition rh_end :: "(nat \<Rightarrow> u8) \<Rightarrow> nat \<Rightarrow> u16" where "rh_end M h = get16 M (h + 6)"

definition payload_of :: "net \<Rightarrow> nat \<Rightarrow> nat option" where
  "payload_of s p = do { b \<leftarrow> pbufs s p; pb_payload b }"

text \<open>The saved header \<open>A\<close> of a datagram and a header in memory.\<close>

definition IP_ADDRESSES_AND_ID_MATCH :: "u8 list \<Rightarrow> (nat \<Rightarrow> u8) \<Rightarrow> nat \<Rightarrow> bool" where
  "IP_ADDRESSES_AND_ID_MATCH A M h \<longleftrightarrow> iph_src (nth A) 0 = iph_src M h \<and> iph_dest (nth A) 0 = iph_dest M h \<and> IPH_ID (nth A) 0 = IPH_ID M h"

subsection \<open>Giving up a datagram\<close>

definition upd_reass :: "nat \<Rightarrow> (ip_reassdata \<Rightarrow> ip_reassdata) \<Rightarrow> 'v lwip \<Rightarrow> 'v lwip option" where
  "upd_reass a f st = do { d \<leftarrow> reass_at (get_reass st) a; Some (on_reass (\<lambda>u. u\<lparr>reass_at := (reass_at u)(a \<mapsto> f d)\<rparr>) st) }"

definition on_frag_stats :: "(stats_proto \<Rightarrow> stats_proto) \<Rightarrow> 'v lwip \<Rightarrow> 'v lwip" where
  "on_frag_stats f st = on_reass (\<lambda>u. u\<lparr>frag_stats := f (frag_stats u)\<rparr>) st"

definition ip_reass_dequeue_datagram :: "nat \<Rightarrow> ptr \<Rightarrow> 'v lwip \<Rightarrow> 'v lwip option" where
  "ip_reass_dequeue_datagram ipr prev st = do {
     d \<leftarrow> reass_at (get_reass st) ipr;
     st \<leftarrow> (if reassdatagrams (get_reass st) = Some ipr then Some (on_reass (\<lambda>u. u\<lparr>reassdatagrams := rs_next d\<rparr>) st)
       else do { q \<leftarrow> prev; upd_reass q (\<lambda>e. e\<lparr>rs_next := rs_next d\<rparr>) st });
     m \<leftarrow> memp_free (net_pools (bufs st)) MEMP_REASSDATA (Some ipr) (net_memp (bufs st));
     Some (on_reass (\<lambda>u. u\<lparr>reass_at := (reass_at u)(ipr := None)\<rparr>) (st\<lparr>bufs := (bufs st)\<lparr>net_memp := m\<rparr>\<rparr>))
   }"

text \<open>The loop over the fragments; \<open>n_freed\<close> is \<^verbatim>\<open>pbufs_freed\<close>.\<close>

partial_function (option) reass_free_loop :: "ptr \<Rightarrow> nat \<Rightarrow> 'v lwip \<Rightarrow> (nat \<times> 'v lwip) option" where
  "reass_free_loop p n_freed st =
     (case p of
        None \<Rightarrow> Some (n_freed, st)
      | Some a \<Rightarrow> Option.bind (payload_of (bufs st) a) (\<lambda>iprh. Option.bind (pbuf_clen (Some a) (bufs st)) (\<lambda>clen.
          Option.bind (lwip_assert (n_freed + clen \<le> 0xFFFF)) (\<lambda>_. Option.bind (ip_free a st) (\<lambda>st'.
            reass_free_loop (rh_next_pbuf (bytes (bufs st)) iprh) (n_freed + clen) st')))))"

definition ip_reass_free_complete_datagram :: "'v protos ip_env \<Rightarrow> nat \<Rightarrow> ptr \<Rightarrow> 'v lwip \<Rightarrow> (nat \<times> 'v lwip) option" where
  "ip_reass_free_complete_datagram env ipr prev st = do {
     lwip_assert (prev \<noteq> Some ipr);
     (case prev of None \<Rightarrow> Some () | Some q \<Rightarrow> do { e \<leftarrow> reass_at (get_reass st) q; lwip_assert (rs_next e = Some ipr) });
     d \<leftarrow> reass_at (get_reass st) ipr;
     p \<leftarrow> rs_p d;
     iprh \<leftarrow> payload_of (bufs st) p;
     (n_freed, st) \<leftarrow> (if rh_start (bytes (bufs st)) iprh = 0 then do {
         st \<leftarrow> upd_reass ipr (\<lambda>d. d\<lparr>rs_p := rh_next_pbuf (bytes (bufs st)) iprh\<rparr>) st;
         let st = on_bytes (\<lambda>M. wr M iprh (rs_iphdr d)) st;
         st \<leftarrow> icmp_time_exceeded_fn env p ICMP_TE_FRAG st;
         clen \<leftarrow> pbuf_clen (Some p) (bufs st);
         lwip_assert (clen \<le> 0xFFFF);
         st \<leftarrow> ip_free p st;
         Some (clen, st)
       } else Some (0, st));
     d \<leftarrow> reass_at (get_reass st) ipr;
     (n_freed, st) \<leftarrow> reass_free_loop (rs_p d) n_freed st;
     st \<leftarrow> ip_reass_dequeue_datagram ipr prev st;
     lwip_assert (unat (ip_reass_pbufcount (get_reass st)) \<ge> n_freed);
     Some (n_freed, on_reass (\<lambda>u. u\<lparr>ip_reass_pbufcount := ip_reass_pbufcount u - of_nat n_freed\<rparr>) st)
   }"

partial_function (option) reass_tmr_loop :: "'v protos ip_env \<Rightarrow> ptr \<Rightarrow> ptr \<Rightarrow> 'v lwip \<Rightarrow> 'v lwip option" where
  "reass_tmr_loop env r prev st =
     (case r of
        None \<Rightarrow> Some st
      | Some a \<Rightarrow> Option.bind (reass_at (get_reass st) a) (\<lambda>d.
          if rs_timer d > 0 then Option.bind (upd_reass a (\<lambda>d. d\<lparr>rs_timer := rs_timer d - 1\<rparr>) st) (\<lambda>st'. reass_tmr_loop env (rs_next d) (Some a) st')
          else Option.bind (ip_reass_free_complete_datagram env a prev st) (\<lambda>(_, st'). reass_tmr_loop env (rs_next d) prev st')))"

definition ip_reass_tmr :: "'v protos ip_env \<Rightarrow> 'v lwip \<Rightarrow> 'v lwip option" where
  "ip_reass_tmr env st = reass_tmr_loop env (reassdatagrams (get_reass st)) None st"

text \<open>
  The search for the oldest datagram other than that of the fragment: the result is \<^verbatim>\<open>oldest\<close> with its timer, \<^verbatim>\<open>oldest_prev\<close> and
  \<^verbatim>\<open>other_datagrams\<close>.
\<close>

partial_function (option) oldest_scan ::
  "reass_state \<Rightarrow> (nat \<Rightarrow> u8) \<Rightarrow> nat \<Rightarrow> ptr \<Rightarrow> ptr \<Rightarrow> (nat \<times> u8) option \<Rightarrow> ptr \<Rightarrow> nat \<Rightarrow> ((nat \<times> u8) option \<times> ptr \<times> nat) option" where
  "oldest_scan u M fraghdr r prev oldest oldest_prev others =
     (case r of
        None \<Rightarrow> Some (oldest, oldest_prev, others)
      | Some a \<Rightarrow> Option.bind (reass_at u a) (\<lambda>d.
          let prev' = (if rs_next d \<noteq> None then Some a else prev) in
          if \<not> IP_ADDRESSES_AND_ID_MATCH (rs_iphdr d) M fraghdr then
            if (case oldest of None \<Rightarrow> True | Some (_, t) \<Rightarrow> rs_timer d \<le> t)
            then oldest_scan u M fraghdr (rs_next d) prev' (Some (a, rs_timer d)) prev (others + 1)
            else oldest_scan u M fraghdr (rs_next d) prev' oldest oldest_prev (others + 1)
          else oldest_scan u M fraghdr (rs_next d) prev' oldest oldest_prev others))"

partial_function (option) remove_oldest_loop :: "'v protos ip_env \<Rightarrow> nat \<Rightarrow> nat \<Rightarrow> nat \<Rightarrow> 'v lwip \<Rightarrow> (nat \<times> 'v lwip) option" where
  "remove_oldest_loop env fraghdr pbufs_needed n_freed st =
     Option.bind (oldest_scan (get_reass st) (bytes (bufs st)) fraghdr (reassdatagrams (get_reass st)) None None None 0) (\<lambda>(oldest, oldest_prev, others).
       Option.bind (case oldest of None \<Rightarrow> Some (0, st) | Some (a, _) \<Rightarrow> ip_reass_free_complete_datagram env a oldest_prev st) (\<lambda>(n, st').
         if n_freed + n < pbufs_needed \<and> others > 1 then remove_oldest_loop env fraghdr pbufs_needed (n_freed + n) st' else Some (n_freed + n, st')))"

definition ip_reass_remove_oldest_datagram :: "'v protos ip_env \<Rightarrow> nat \<Rightarrow> nat \<Rightarrow> 'v lwip \<Rightarrow> (nat \<times> 'v lwip) option" where
  "ip_reass_remove_oldest_datagram env fraghdr pbufs_needed st = remove_oldest_loop env fraghdr pbufs_needed 0 st"

subsection \<open>A new datagram\<close>

definition reass_malloc :: "'v lwip \<Rightarrow> (ptr \<times> 'v lwip) option" where
  "reass_malloc st = do {
     (r, m) \<leftarrow> memp_malloc (net_pools (bufs st)) MEMP_REASSDATA (net_memp (bufs st));
     Some (r, st\<lparr>bufs := (bufs st)\<lparr>net_memp := m\<rparr>\<rparr>)
   }"

definition ip_reass_enqueue_new_datagram :: "'v protos ip_env \<Rightarrow> nat \<Rightarrow> nat \<Rightarrow> 'v lwip \<Rightarrow> (ptr \<times> 'v lwip) option" where
  "ip_reass_enqueue_new_datagram env fraghdr clen st = do {
     (ipr, st) \<leftarrow> reass_malloc st;
     (ipr, st) \<leftarrow> (case ipr of
         Some a \<Rightarrow> Some (Some a, st)
       | None \<Rightarrow> do {
           (n_freed, st) \<leftarrow> ip_reass_remove_oldest_datagram env fraghdr clen st;
           if n_freed \<ge> clen then reass_malloc st else Some (None, st)
         });
     case ipr of
       None \<Rightarrow> Some (None, on_frag_stats (\<lambda>t. t\<lparr>ps_memerr := ps_memerr t + 1\<rparr>) st)
     | Some a \<Rightarrow> Some (Some a, on_reass (\<lambda>u. u\<lparr>reass_at := (reass_at u)(a \<mapsto> \<lparr>rs_next = reassdatagrams u, rs_p = None,
           rs_iphdr = rd (bytes (bufs st)) fraghdr IP_HLEN, rs_datagram_len = 0, rs_flags = 0, rs_timer = IP_REASS_MAXAGE\<rparr>),
         reassdatagrams := Some a\<rparr>) st)
   }"

subsection \<open>A new fragment\<close>

text \<open>The place of a fragment in the queue: before \<open>q\<close> and behind the helper structure \<open>prev\<close>, or at the end, or nowhere.\<close>

datatype frag_place = Frag_before nat "nat option" bool | Frag_end "nat option" bool | Frag_overlap

partial_function (option) frag_search :: "net \<Rightarrow> nat \<Rightarrow> ptr \<Rightarrow> nat option \<Rightarrow> bool \<Rightarrow> frag_place option" where
  "frag_search s iprh q iprh_prev valid =
     (case q of
        None \<Rightarrow> Some (Frag_end iprh_prev valid)
      | Some a \<Rightarrow> Option.bind (payload_of s a) (\<lambda>iprh_tmp.
          let M = bytes s in
          if rh_start M iprh < rh_start M iprh_tmp then Some (Frag_before a iprh_prev valid)
          else if rh_start M iprh = rh_start M iprh_tmp then Some Frag_overlap
          else if rh_start M iprh < rh_end M iprh_tmp then Some Frag_overlap
          else frag_search s iprh (rh_next_pbuf M iprh_tmp) (Some iprh_tmp)
            (case iprh_prev of None \<Rightarrow> valid | Some h \<Rightarrow> if rh_end M h \<noteq> rh_start M iprh_tmp then False else valid)))"

text \<open>The rest of the queue has no holes; the second result is the last helper structure.\<close>

partial_function (option) holes_check :: "net \<Rightarrow> nat \<Rightarrow> ptr \<Rightarrow> (bool \<times> nat) option" where
  "holes_check s iprh_prev q =
     (case q of
        None \<Rightarrow> Some (True, iprh_prev)
      | Some a \<Rightarrow> Option.bind (payload_of s a) (\<lambda>iprh.
          if rh_end (bytes s) iprh_prev \<noteq> rh_start (bytes s) iprh then Some (False, iprh) else holes_check s iprh (rh_next_pbuf (bytes s) iprh)))"

text \<open>The validation part, with \<^verbatim>\<open>valid\<close> as found so far.\<close>

definition reass_validate :: "ip_reassdata \<Rightarrow> nat \<Rightarrow> bool \<Rightarrow> net \<Rightarrow> bool option" where
  "reass_validate d iprh valid s =
     (if rs_flags d AND IP_REASS_FLAG_LASTFRAG = 0 then Some False
      else if \<not> valid then Some False
      else case rs_p d of
        None \<Rightarrow> Some False
      | Some p \<Rightarrow> do {
          first \<leftarrow> payload_of s p;
          if rh_start (bytes s) first \<noteq> 0 then Some False
          else do {
            (valid, iprh) \<leftarrow> holes_check s iprh (rh_next_pbuf (bytes s) iprh);
            if \<not> valid then Some False
            else do {
              lwip_assert (first \<noteq> iprh);
              lwip_assert (rh_next_pbuf (bytes s) iprh = None);
              lwip_assert (rh_end (bytes s) iprh = rs_datagram_len d);
              Some True
            }
          }
        })"

definition frag_discard :: "nat \<Rightarrow> 'v lwip \<Rightarrow> (bool \<times> 'v lwip) option" where
  "frag_discard new_p st = do {
     clen \<leftarrow> pbuf_clen (Some new_p) (bufs st);
     let st = on_reass (\<lambda>u. u\<lparr>ip_reass_pbufcount := ip_reass_pbufcount u - of_nat clen\<rparr>) st;
     st \<leftarrow> ip_free new_p st;
     Some (False, st)
   }"

definition frag_validate :: "nat \<Rightarrow> nat \<Rightarrow> bool \<Rightarrow> 'v lwip \<Rightarrow> (bool \<times> 'v lwip) option" where
  "frag_validate ipr iprh valid st = do { d \<leftarrow> reass_at (get_reass st) ipr; r \<leftarrow> reass_validate d iprh valid (bufs st); Some (r, st) }"

definition ip_reass_chain_frag_into_datagram_and_validate :: "nat \<Rightarrow> nat \<Rightarrow> 'v lwip \<Rightarrow> (bool \<times> 'v lwip) option" where
  "ip_reass_chain_frag_into_datagram_and_validate ipr new_p st = do {
     fraghdr \<leftarrow> payload_of (bufs st) new_p;
     let M = bytes (bufs st);
     let len = lwip_htons (IPH_LEN M fraghdr) - ucast (IPH_HL M fraghdr) * 4;
     let offset = (lwip_htons (IPH_OFFSET M fraghdr) AND ucast IP_OFFMASK) * 8;
     let st = on_bytes (\<lambda>M. put16 (fraghdr + 6) (offset + len) (put16 (fraghdr + 4) offset (put32 fraghdr (ptr_word None) M))) st;
     d \<leftarrow> reass_at (get_reass st) ipr;
     place \<leftarrow> frag_search (bufs st) fraghdr (rs_p d) None True;
     case place of
       Frag_overlap \<Rightarrow> frag_discard new_p st
     | Frag_before q prev valid \<Rightarrow> do {
         let st = on_bytes (put32 fraghdr (ptr_word (Some q))) st;
         let M = bytes (bufs st);
         case prev of
           Some h \<Rightarrow> do {
             tmp \<leftarrow> payload_of (bufs st) q;
             if rh_start M fraghdr < rh_end M h \<or> rh_end M fraghdr > rh_start M tmp then frag_discard new_p st
             else frag_validate ipr fraghdr valid (on_bytes (put32 h (ptr_word (Some new_p))) st)
           }
         | None \<Rightarrow> do { st \<leftarrow> upd_reass ipr (\<lambda>d. d\<lparr>rs_p := Some new_p\<rparr>) st; frag_validate ipr fraghdr valid st }
       }
     | Frag_end prev valid \<Rightarrow> (case prev of
           Some h \<Rightarrow> do {
             let M = bytes (bufs st);
             lwip_assert (rh_end M h \<le> rh_start M fraghdr);
             let st = on_bytes (put32 h (ptr_word (Some new_p))) st;
             frag_validate ipr fraghdr (if rh_end M h \<noteq> rh_start M fraghdr then False else valid) st
           }
         | None \<Rightarrow> do {
             lwip_assert (rs_p d = None);
             st \<leftarrow> upd_reass ipr (\<lambda>d. d\<lparr>rs_p := Some new_p\<rparr>) st;
             frag_validate ipr fraghdr valid st
           })
   }"

subsection \<open>Input of a fragment\<close>

partial_function (option) reass_find :: "reass_state \<Rightarrow> (nat \<Rightarrow> u8) \<Rightarrow> ptr \<Rightarrow> nat \<Rightarrow> ptr option" where
  "reass_find u M ipr fraghdr =
     (case ipr of
        None \<Rightarrow> Some None
      | Some a \<Rightarrow> Option.bind (reass_at u a) (\<lambda>d.
          if IP_ADDRESSES_AND_ID_MATCH (rs_iphdr d) M fraghdr then Some (Some a) else reass_find u M (rs_next d) fraghdr))"

partial_function (option) reass_prev :: "reass_state \<Rightarrow> nat \<Rightarrow> ptr \<Rightarrow> ptr option" where
  "reass_prev u ipr p =
     (case p of
        None \<Rightarrow> Some None
      | Some a \<Rightarrow> Option.bind (reass_at u a) (\<lambda>d. if rs_next d = Some ipr then Some (Some a) else reass_prev u ipr (rs_next d)))"

text \<open>The fragments behind the first are chained to it without their headers.\<close>

partial_function (option) reass_cat_loop :: "nat \<Rightarrow> ptr \<Rightarrow> net \<Rightarrow> net option" where
  "reass_cat_loop p r s =
     (case r of
        None \<Rightarrow> Some s
      | Some a \<Rightarrow> Option.bind (payload_of s a) (\<lambda>iprh. Option.bind (pbuf_header (Some a) (- int IP_HLEN) s) (\<lambda>(_, s).
          Option.bind (pbuf_cat (Some p) (Some a) s) (\<lambda>s. reass_cat_loop p (rh_next_pbuf (bytes s) iprh) s))))"

definition reass_write_hdr :: "nat \<Rightarrow> u8 list \<Rightarrow> u16 \<Rightarrow> (nat \<Rightarrow> u8) \<Rightarrow> nat \<Rightarrow> u8" where
  "reass_write_hdr h iphdr datagram_len M =
     (let M = wr M h iphdr;
          M = put16 (h + 2) (lwip_htons datagram_len) M;
          M = put16 (h + 6) 0 M;
          M = put16 (h + 10) 0 M
      in put16 (h + 10) (inet_chksum (of_nat h) (rd M h IP_HLEN)) M)"

definition reass_complete :: "nat \<Rightarrow> 'v lwip \<Rightarrow> (ptr \<times> 'v lwip) option" where
  "reass_complete ipr st = do {
     st \<leftarrow> upd_reass ipr (\<lambda>d. d\<lparr>rs_datagram_len := rs_datagram_len d + of_nat IP_HLEN\<rparr>) st;
     d \<leftarrow> reass_at (get_reass st) ipr;
     p \<leftarrow> rs_p d;
     fraghdr \<leftarrow> payload_of (bufs st) p;
     let r = rh_next_pbuf (bytes (bufs st)) fraghdr;
     let st = on_bytes (reass_write_hdr fraghdr (rs_iphdr d) (rs_datagram_len d)) st;
     s \<leftarrow> reass_cat_loop p r (bufs st);
     let st = st\<lparr>bufs := s\<rparr>;
     prev \<leftarrow> (if reassdatagrams (get_reass st) = Some ipr then Some None else reass_prev (get_reass st) ipr (reassdatagrams (get_reass st)));
     st \<leftarrow> ip_reass_dequeue_datagram ipr prev st;
     clen \<leftarrow> pbuf_clen (Some p) (bufs st);
     Some (Some p, on_reass (\<lambda>u. u\<lparr>ip_reass_pbufcount := ip_reass_pbufcount u - of_nat clen\<rparr>) st)
   }"

text \<open>The end \<^verbatim>\<open>nullreturn\<close>.\<close>

definition reass_nullreturn :: "nat \<Rightarrow> 'v lwip \<Rightarrow> (ptr \<times> 'v lwip) option" where
  "reass_nullreturn p st = do { st \<leftarrow> ip_free p (on_frag_stats (\<lambda>t. t\<lparr>ps_drop := ps_drop t + 1\<rparr>) st); Some (None, st) }"

text \<open>The fragment is added to its datagram, which may be complete by that.\<close>

definition reass_add :: "nat \<Rightarrow> nat \<Rightarrow> nat \<Rightarrow> u16 \<Rightarrow> u16 \<Rightarrow> nat \<Rightarrow> 'v lwip \<Rightarrow> (ptr \<times> 'v lwip) option" where
  "reass_add ipr p fraghdr offset len clen st = do {
     let M = bytes (bufs st);
     let st = on_reass (\<lambda>u. u\<lparr>ip_reass_pbufcount := ip_reass_pbufcount u + of_nat clen\<rparr>) st;
     st \<leftarrow> (if ucast (IPH_OFFSET M fraghdr) AND PP_HTONS IP_MF = 0
       then upd_reass ipr (\<lambda>d. d\<lparr>rs_flags := rs_flags d OR IP_REASS_FLAG_LASTFRAG, rs_datagram_len := offset + len\<rparr>) st else Some st);
     (complete, st) \<leftarrow> ip_reass_chain_frag_into_datagram_and_validate ipr p st;
     if complete then reass_complete ipr st else Some (None, st)
   }"

definition ip4_reass :: "'v protos ip_env \<Rightarrow> nat \<Rightarrow> 'v lwip \<Rightarrow> (ptr \<times> 'v lwip) option" where
  "ip4_reass env p st = do {
     let st = on_frag_stats (\<lambda>t. t\<lparr>ps_recv := ps_recv t + 1\<rparr>) st;
     fraghdr \<leftarrow> payload_of (bufs st) p;
     let M = bytes (bufs st);
     if unat (IPH_HL M fraghdr) * 4 \<noteq> IP_HLEN then reass_nullreturn p (on_frag_stats (\<lambda>t. t\<lparr>ps_err := ps_err t + 1\<rparr>) st)
     else do {
       let offset = (lwip_htons (IPH_OFFSET M fraghdr) AND ucast IP_OFFMASK) * 8;
       let len = lwip_htons (IPH_LEN M fraghdr) - ucast (IPH_HL M fraghdr) * 4;
       clen \<leftarrow> pbuf_clen (Some p) (bufs st);
       (room, st) \<leftarrow> (if unat (ip_reass_pbufcount (get_reass st)) + clen > IP_REASS_MAX_PBUFS then do {
           (n_freed, st) \<leftarrow> ip_reass_remove_oldest_datagram env fraghdr clen st;
           Some (\<not> (n_freed = 0 \<or> unat (ip_reass_pbufcount (get_reass st)) + clen > IP_REASS_MAX_PBUFS), st)
         } else Some (True, st));
       if \<not> room then reass_nullreturn p (on_frag_stats (\<lambda>t. t\<lparr>ps_memerr := ps_memerr t + 1\<rparr>) st)
       else do {
         ipr \<leftarrow> reass_find (get_reass st) (bytes (bufs st)) (reassdatagrams (get_reass st)) fraghdr;
         case ipr of
           None \<Rightarrow> do {
             (ipr, st) \<leftarrow> ip_reass_enqueue_new_datagram env fraghdr clen st;
             case ipr of None \<Rightarrow> reass_nullreturn p st | Some a \<Rightarrow> reass_add a p fraghdr offset len clen st
           }
         | Some a \<Rightarrow> do {
             let st = on_frag_stats (\<lambda>t. t\<lparr>ps_cachehit := ps_cachehit t + 1\<rparr>) st;
             d \<leftarrow> reass_at (get_reass st) a;
             let M = bytes (bufs st);
             st \<leftarrow> (if lwip_htons (IPH_OFFSET M fraghdr) AND ucast IP_OFFMASK = 0 \<and> lwip_htons (IPH_OFFSET (nth (rs_iphdr d)) 0) AND ucast IP_OFFMASK \<noteq> 0
               then upd_reass a (\<lambda>d. d\<lparr>rs_iphdr := rd M fraghdr IP_HLEN\<rparr>) st else Some st);
             reass_add a p fraghdr offset len clen st
           }
       }
     }
   }"

end
