(* ===== verification/Ip4_Frag.thy ===== *)
theory Ip4_Frag
  imports Ip4_Reass
begin

text \<open>
  The second part of \<^verbatim>\<open>core/ipv4/ip4_frag.c\<close>: a datagram that is larger than the MTU of an interface is sent in fragments. Each fragment is a chain of a header from the heap and of
  custom pbufs that refer to the data of the original (\<^verbatim>\<open>LWIP_NETIF_TX_SINGLE_PBUF\<close> is 0). Freeing a custom pbuf releases its reference to the original, which is modelled with the other
  pbufs in the theory Pbuf.
\<close>

section \<open>Definitions\<close>

definition ip_frag_alloc_pbuf_custom_ref :: "net \<Rightarrow> (ptr \<times> net) option" where
  "ip_frag_alloc_pbuf_custom_ref s = net_memp_malloc MEMP_FRAG_PBUF s"

text \<open>The number of 8-byte blocks in a fragment: the difference and the quotient are computed as \<^verbatim>\<open>int\<close>, where division rounds towards zero, and converted to 16 bits.\<close>

definition frag_nfb :: "u16 \<Rightarrow> u16" where
  "frag_nfb m = (let d = uint m - int IP_HLEN in of_int (if d \<ge> 0 then d div 8 else - ((- d) div 8)))"

definition frag_size :: "u16 \<Rightarrow> u16 \<Rightarrow> u16" where
  "frag_size left nfb = of_nat (min (unat left) (unat nfb * 8))"

definition frag_last :: "u16 \<Rightarrow> u16 \<Rightarrow> bool" where
  "frag_last left m \<longleftrightarrow> uint left \<le> uint m - int IP_HLEN"

text \<open>
  The inner loop, which mirrors \<open>left_to_copy\<close> bytes of the original from offset \<open>poff\<close> of the pbuf \<open>p\<close> on. The result is the last pbuf, the offset and the length in it, or \<^verbatim>\<open>None\<close>
  inside when memory ran out.
\<close>

partial_function (option) frag_fill ::
  "nat \<Rightarrow> u16 \<Rightarrow> u16 \<Rightarrow> u16 \<Rightarrow> ptr \<Rightarrow> net \<Rightarrow> ((ptr \<times> u16 \<times> u16) option \<times> net) option" where
  "frag_fill rambuf left_to_copy poff newpbuflen p s =
     (if left_to_copy = 0 then Some (Some (p, poff, newpbuflen), s)
      else Option.bind p (\<lambda>a. Option.bind (pbufs s a) (\<lambda>b.
        let plen = of_nat (pb_len b) - poff; newpbuflen = min left_to_copy plen in
        if newpbuflen = 0 then frag_fill rambuf left_to_copy 0 newpbuflen (pb_next b) s
        else Option.bind (ip_frag_alloc_pbuf_custom_ref s) (\<lambda>(pcr, s).
          case pcr of
            None \<Rightarrow> Option.bind (pbuf_free (Some rambuf) s) (\<lambda>(_, s). Some (None, s))
          | Some c \<Rightarrow> Option.bind (pb_payload b) (\<lambda>pl.
              let (newpbuf, s) = pbuf_alloced_custom PBUF_RAW (unat newpbuflen) PBUF_REF c (Some (pl + unat poff)) (unat newpbuflen) s in
              case newpbuf of
                None \<Rightarrow> Option.bind (ip_frag_free_pbuf_custom_ref c s) (\<lambda>s. Option.bind (pbuf_free (Some rambuf) s) (\<lambda>(_, s). Some (None, s)))
              | Some q \<Rightarrow> Option.bind (pbuf_ref (Some a) s) (\<lambda>s.
                  let s = s\<lparr>customs := (customs s)(c \<mapsto> \<lparr>custom_free_function = Some ipfrag_free_pbuf_custom_fn, original = Some a\<rparr>)\<rparr> in
                  Option.bind (pbuf_cat (Some rambuf) (Some q) s) (\<lambda>s.
                    let left_to_copy = left_to_copy - newpbuflen in
                    if left_to_copy \<noteq> 0 then Option.bind (pbufs s a) (\<lambda>b. frag_fill rambuf left_to_copy 0 newpbuflen (pb_next b) s)
                    else Some (Some (p, poff, newpbuflen), s))))))))"

text \<open>The header of a fragment is completed.\<close>

definition frag_write_hdr :: "nat \<Rightarrow> u16 \<Rightarrow> bool \<Rightarrow> u16 \<Rightarrow> (nat \<Rightarrow> u8) \<Rightarrow> nat \<Rightarrow> u8" where
  "frag_write_hdr iphdr ofo last' fragsize M =
     (let tmp = ucast IP_OFFMASK AND ofo;
          tmp = (if \<not> last' then tmp OR ucast IP_MF else tmp);
          M = put16 (iphdr + 6) (lwip_htons tmp) M;
          M = put16 (iphdr + 2) (lwip_htons (fragsize + of_nat IP_HLEN)) M;
          M = put16 (iphdr + 10) 0 M
      in put16 (iphdr + 10) (inet_chksum (of_nat iphdr) (rd M iphdr IP_HLEN)) M)"

text \<open>The loop over the fragments; \<open>h\<close> is \<^verbatim>\<open>original_iphdr\<close>.\<close>

partial_function (option) frag_loop ::
  "'v protos ip_env \<Rightarrow> nat \<Rightarrow> u32 \<Rightarrow> nat \<Rightarrow> u16 \<Rightarrow> u16 \<Rightarrow> u16 \<Rightarrow> u16 \<Rightarrow> ptr \<Rightarrow> 'v lwip \<Rightarrow> (err_t \<times> 'v lwip) option" where
  "frag_loop env netif dest h nfb left ofo poff p st =
     (if left = 0 then Some (ERR_OK, st)
      else let fragsize = frag_size left nfb in
        Option.bind (pbuf_alloc PBUF_LINK IP_HLEN PBUF_RAM (bufs st)) (\<lambda>(rambuf, s).
          case rambuf of
            None \<Rightarrow> Some (ERR_MEM, st\<lparr>bufs := s\<rparr>)
          | Some r \<Rightarrow> Option.bind p (\<lambda>a. Option.bind (pbufs s a) (\<lambda>b. Option.bind (lwip_assert (pb_len b \<ge> IP_HLEN)) (\<lambda>_.
              Option.bind (payload_of s r) (\<lambda>iphdr.
                let s = s\<lparr>bytes := wr (bytes s) iphdr (rd (bytes s) h IP_HLEN)\<rparr> in
                Option.bind (frag_fill r fragsize poff 0 p s) (\<lambda>(res, s).
                  case res of
                    None \<Rightarrow> Some (ERR_MEM, st\<lparr>bufs := s\<rparr>)
                  | Some (p, poff, newpbuflen) \<Rightarrow>
                      Option.bind (netif_at (ifs st) netif) (\<lambda>n.
                        let st = on_bytes (frag_write_hdr iphdr ofo (frag_last left (mtu n)) fragsize) (st\<lparr>bufs := s\<rparr>) in
                        Option.bind (netif_output env netif r dest st) (\<lambda>(_, st).
                          Option.bind (ip_free r (on_frag_stats (\<lambda>t. t\<lparr>ps_xmit := ps_xmit t + 1\<rparr>) st)) (\<lambda>st.
                            frag_loop env netif dest h nfb (left - fragsize) (ofo + nfb) (poff + newpbuflen) p st))))))))))"

definition ip4_frag :: "'v protos ip_env \<Rightarrow> nat \<Rightarrow> nat \<Rightarrow> u32 \<Rightarrow> 'v lwip \<Rightarrow> (err_t \<times> 'v lwip) option" where
  "ip4_frag env p netif dest st = do {
     n \<leftarrow> netif_at (ifs st) netif;
     b \<leftarrow> pbufs (bufs st) p;
     h \<leftarrow> pb_payload b;
     let M = bytes (bufs st);
     if unat (IPH_HL M h) * 4 \<noteq> IP_HLEN then Some (ERR_VAL, st)
     else do {
       let tmp = lwip_htons (IPH_OFFSET M h);
       let ofo = tmp AND ucast IP_OFFMASK;
       if tmp AND ucast IP_MF \<noteq> 0 then Some (ERR_VAL, st)
       else frag_loop env netif dest h (frag_nfb (mtu n)) (of_nat (pb_tot_len b) - of_nat IP_HLEN) ofo (of_nat IP_HLEN) (Some p) st
     }
   }"

section \<open>Sizes of fragments\<close>

text \<open>A fragment is never larger than the MTU allows, and carries a multiple of 8 bytes unless it is the rest.\<close>

lemma frag_nfb_eq: "20 \<le> unat m \<Longrightarrow> unat (frag_nfb m) = (unat m - 20) div 8"
proof -
  assume m: "20 \<le> unat m"
  then have u: "uint m - int IP_HLEN = int (unat m - 20)" unfolding uint_nat by linarith
  have "unat m < 2 ^ 16" using unsigned_less [of m] by simp
  then have "(unat m - 20) div 8 < 2 ^ 16" by linarith
  moreover have "frag_nfb m = of_int (int (unat m - 20) div 8)" unfolding frag_nfb_def Let_def u by simp
  then have "frag_nfb m = of_nat ((unat m - 20) div 8)" by (metis of_int_of_nat_eq of_nat_numeral zdiv_int)
  ultimately show ?thesis by (simp add: unat_of_nat)
qed

lemma frag_size_eq: "unat (frag_size left nfb) = min (unat left) (unat nfb * 8)"
proof -
  have "min (unat left) (unat nfb * 8) < 2 ^ 16" using unsigned_less [of left] by (simp add: min_less_iff_disj)
  then show ?thesis by (simp add: frag_size_def unat_of_nat)
qed

lemma frag_last_eq: "20 \<le> unat m \<Longrightarrow> frag_last left m \<longleftrightarrow> unat left \<le> unat m - 20"
  unfolding frag_last_def uint_nat by linarith

lemma frag_fits: "20 \<le> unat m \<Longrightarrow> 20 + unat (frag_size left (frag_nfb m)) \<le> unat m"
  by (simp add: frag_size_eq frag_nfb_eq)

text \<open>When the room for data is a multiple of 8, as on the serial interface, the flag for more fragments is left out exactly in the fragment with the rest.\<close>

lemma frag_last_exact:
  assumes "20 \<le> unat m" "8 dvd unat m - 20"
  shows "frag_last left m \<longleftrightarrow> frag_size left (frag_nfb m) = left"
proof -
  have "(unat m - 20) div 8 * 8 = unat m - 20" using assms(2) by simp
  then have "unat (frag_size left (frag_nfb m)) = min (unat left) (unat m - 20)" using assms(1) by (simp add: frag_size_eq frag_nfb_eq)
  then show ?thesis using frag_last_eq [OF assms(1), of left] by (auto simp: word_unat_eq_iff)
qed

text \<open>Otherwise a fragment that is not the last one can be marked as such: with an MTU of 576 and 553 bytes left, 552 are sent as the last fragment and one more fragment follows.\<close>

lemma frag_last_too_early: "frag_last 553 576 \<and> frag_size 553 (frag_nfb 576) = 552"
  by (simp add: frag_last_eq word_unat_eq_iff frag_size_eq frag_nfb_eq)

text \<open>Datagrams with options and datagrams that are fragments already are refused.\<close>

lemma ip4_frag_refuses:
  assumes "netif_at (ifs st) netif = Some n" "pbufs (bufs st) p = Some b" "pb_payload b = Some h"
    and "IPH_HL (bytes (bufs st)) h \<noteq> 5 \<or> lwip_htons (IPH_OFFSET (bytes (bufs st)) h) AND 0x2000 \<noteq> 0"
  shows "ip4_frag env p netif dest st = Some (ERR_VAL, st)"
proof -
  have "unat (IPH_HL (bytes (bufs st)) h) * 4 = 20 \<longleftrightarrow> IPH_HL (bytes (bufs st)) h = 5" by (auto simp: word_unat_eq_iff)
  with assms show ?thesis by (auto simp: ip4_frag_def Let_def)
qed

end
