(* ===== verification/Reass_Queue.thy ===== *)
theory Reass_Queue
  imports Ip4_Reass Ip4_Props
begin

text \<open>
  The queue of fragments of one datagram. A fragment is given by its pbufs, its offset and its data; the queue in memory is linked through the helper structures in the place
  of the IP headers. The lemmas are those on reading and writing the helper structures, on the search for the place of a new fragment and on the search for holes.
\<close>

section \<open>Fragments in memory\<close>

record frag =
  fr_pbufs :: "nat list"
  fr_start :: nat
  fr_data :: "u8 list"

definition fr_p :: "frag \<Rightarrow> nat" where
  "fr_p f = hd (fr_pbufs f)"

definition fr_end :: "frag \<Rightarrow> nat" where
  "fr_end f = fr_start f + length (fr_data f)"

text \<open>The pbufs of a fragment: the first has the header or the helper structure, and its address fits in a pointer.\<close>

definition frag_mem :: "net \<Rightarrow> frag \<Rightarrow> bool" where
  "frag_mem s f \<longleftrightarrow> fr_pbufs f \<noteq> [] \<and> chain (pbufs s) (Some (fr_p f)) (fr_pbufs f) \<and> own_memory (pbufs s) (fr_pbufs f) \<and> ref_of s (fr_p f) = 1
     \<and> IP_HLEN \<le> plen (pbufs s) (fr_p f) \<and> drop IP_HLEN (chain_data (pbufs s) (bytes s) (fr_pbufs f)) = fr_data f \<and> 0 < fr_p f \<and> fr_p f < 2 ^ 32"

definition frag_refs :: "(nat \<Rightarrow> nat) \<Rightarrow> frag list \<Rightarrow> nat \<Rightarrow> nat" where
  "frag_refs E fs x = (if x \<in> fr_p ` set fs then 1 else E x)"

definition frags_ok :: "(nat \<Rightarrow> nat) \<Rightarrow> frag list \<Rightarrow> net \<Rightarrow> bool" where
  "frags_ok E fs s \<longleftrightarrow> net_ok (frag_refs E fs) s \<and> distinct (concat (map fr_pbufs fs)) \<and> (\<forall>f \<in> set fs. frag_mem s f \<and> E (fr_p f) = 0)"

lemma frags_okD: "frags_ok E fs s \<Longrightarrow> f \<in> set fs \<Longrightarrow> frag_mem s f" "frags_ok E fs s \<Longrightarrow> pbuf_inv s" "frags_ok E fs s \<Longrightarrow> distinct (concat (map fr_pbufs fs))"
  by (simp_all add: frags_ok_def net_ok_def)

lemma frags_ok_perm: "frags_ok E fs s \<Longrightarrow> mset gs = mset fs \<Longrightarrow> frags_ok E gs s"
proof -
  assume a: "frags_ok E fs s" "mset gs = mset fs"
  have "mset (concat (map fr_pbufs gs)) = mset (concat (map fr_pbufs fs))" using a(2) by (simp add: mset_concat mset_map flip: sum_mset_sum_list)
  then have "distinct (concat (map fr_pbufs gs)) = distinct (concat (map fr_pbufs fs))" by (metis mset_eq_imp_distinct_iff)
  moreover have "set gs = set fs" using a(2) by (metis mset_eq_setD)
  ultimately show ?thesis using a(1) by (simp add: frags_ok_def frag_refs_def [abs_def])
qed

lemma frag_own: "frag_mem s f \<Longrightarrow> own_memory (pbufs s) [fr_p f]"
  by (cases "fr_pbufs f") (auto simp: frag_mem_def fr_p_def)

lemma frag_payload:
  assumes "pbuf_inv s" "frag_mem s f"
  obtains b h where "pbufs s (fr_p f) = Some b" "pb_payload b = Some h" "payload_of s (fr_p f) = Some h" "20 \<le> pb_len b"
proof -
  have "own_memory (pbufs s) [fr_p f]" by (rule frag_own [OF assms(2)])
  then obtain b h where "pbufs s (fr_p f) = Some b" "pb_payload b = Some h" by (rule own_payload [OF assms(1)])
  then show ?thesis using that assms(2) by (auto simp: payload_of_def frag_mem_def plen_def)
qed

lemma frag_chain: "frag_mem s f \<Longrightarrow> \<exists>ys. fr_pbufs f = fr_p f # ys"
  by (cases "fr_pbufs f") (auto simp: frag_mem_def fr_p_def)

text \<open>A write to the header of a fragment.\<close>

lemma frag_mem_own_write:
  assumes inv: "pbuf_inv s" and f: "frag_mem s f" and h: "payload_of s (fr_p f) = Some h" and k: "k + length zs \<le> 20"
  shows "frag_mem (s\<lparr>bytes := wr (bytes s) (h + k) zs\<rparr>) f"
proof -
  obtain ys where ys: "fr_pbufs f = fr_p f # ys" using frag_chain [OF f] by blast
  obtain b where b: "pbufs s (fr_p f) = Some b" "pb_payload b = Some h" "20 \<le> pb_len b" using frag_payload [OF inv f] h by (metis option.inject)
  have own: "own_memory (pbufs s) [fr_p f]" "own_memory (pbufs s) ys" "fr_p f \<notin> set ys" "chain (pbufs s) (Some (fr_p f)) (fr_p f # ys)"
    using f ys chain_distinct [of "pbufs s" "Some (fr_p f)" "fr_pbufs f"] by (auto simp: frag_mem_def)
  have "payloads (apart h (pb_len b)) (pbufs s) ys" by (rule own_payloads_apart [OF inv own(1) b(1,2) own(2,3)])
  then have "payloads (apart (h + k) (length zs)) (pbufs s) ys"
    by (rule payloads_mono) (use k b(3) in \<open>auto simp: apart_def\<close>)
  then have rest: "chain_data (pbufs s) (wr (bytes s) (h + k) zs) ys = chain_data (pbufs s) (bytes s) ys" by (rule chain_data_wr)
  have "drop 20 (rd (wr (bytes s) (h + k) zs) h (pb_len b)) = drop 20 (rd (bytes s) h (pb_len b))"
    unfolding drop_rd using k by (auto simp: rd_def wr_def)
  then have "drop 20 (chain_data (pbufs s) (wr (bytes s) (h + k) zs) (fr_pbufs f)) = drop 20 (chain_data (pbufs s) (bytes s) (fr_pbufs f))"
    using ys b rest by (simp add: pbytes_eq)
  then show ?thesis using f by (simp add: frag_mem_def ref_of_def)
qed

lemma frag_mem_other_write:
  assumes inv: "pbuf_inv s" and f: "frag_mem s f" and g: "frag_mem s g" "fr_p g \<notin> set (fr_pbufs f)" and h: "payload_of s (fr_p g) = Some h" and k: "k + length zs \<le> 20"
  shows "frag_mem (s\<lparr>bytes := wr (bytes s) (h + k) zs\<rparr>) f"
proof -
  obtain b where b: "pbufs s (fr_p g) = Some b" "pb_payload b = Some h" "20 \<le> pb_len b" using frag_payload [OF inv g(1)] h by (metis option.inject)
  have "own_memory (pbufs s) [fr_p g]" by (rule frag_own [OF g(1)])
  then have "payloads (apart h (pb_len b)) (pbufs s) (fr_pbufs f)" using f g(2) by (intro own_payloads_apart [OF inv _ b(1,2)]) (simp_all add: frag_mem_def)
  then have "payloads (apart (h + k) (length zs)) (pbufs s) (fr_pbufs f)" by (rule payloads_mono) (use k b(3) in \<open>auto simp: apart_def\<close>)
  then have "chain_data (pbufs s) (wr (bytes s) (h + k) zs) (fr_pbufs f) = chain_data (pbufs s) (bytes s) (fr_pbufs f)" by (rule chain_data_wr)
  then show ?thesis using f by (simp add: frag_mem_def ref_of_def)
qed

lemma distinct_frags:
  assumes "distinct (concat (map fr_pbufs fs))" "\<And>f. f \<in> set fs \<Longrightarrow> fr_pbufs f \<noteq> []" "f \<in> set fs" "g \<in> set fs" "f \<noteq> g"
  shows "fr_p g \<notin> set (fr_pbufs f)"
  using assms
proof (induction fs)
  case (Cons e fs)
  have hd: "fr_p x \<in> set (fr_pbufs x)" if "x \<in> set (e # fs)" for x using Cons.prems(2) [OF that] by (simp add: fr_p_def)
  from Cons hd show ?case by (auto dest!: hd)
qed simp

lemma distinct_fr_p: "\<lbrakk>distinct (concat (map fr_pbufs fs)); \<And>f. f \<in> set fs \<Longrightarrow> fr_pbufs f \<noteq> []\<rbrakk> \<Longrightarrow> distinct (map fr_p fs)"
proof (induction fs)
  case (Cons f fs)
  have hd: "fr_p x \<in> set (fr_pbufs x)" if "x \<in> set (f # fs)" for x using Cons.prems(2) [OF that] by (simp add: fr_p_def)
  have "fr_p f \<notin> fr_p ` set fs"
  proof
    assume "fr_p f \<in> fr_p ` set fs"
    then obtain g where "g \<in> set fs" "fr_p g = fr_p f" by auto
    then have "fr_p f \<in> (\<Union>x \<in> set fs. set (fr_pbufs x))" using hd [of g] by auto
    with hd [of f] Cons.prems(1) show False by auto
  qed
  with Cons show ?case by simp
qed simp

lemma frags_write:
  assumes ok: "frags_ok E fs s" and g: "g \<in> set fs" "payload_of s (fr_p g) = Some h" and k: "k + length zs \<le> 20"
  shows "frags_ok E fs (s\<lparr>bytes := wr (bytes s) (h + k) zs\<rparr>)"
proof -
  have inv: "pbuf_inv s" and d: "distinct (concat (map fr_pbufs fs))" and ne: "\<And>f. f \<in> set fs \<Longrightarrow> fr_pbufs f \<noteq> []"
    using frags_okD [OF ok] by (auto simp: frag_mem_def)
  have "frag_mem (s\<lparr>bytes := wr (bytes s) (h + k) zs\<rparr>) f" if f: "f \<in> set fs" for f
  proof (cases "f = g")
    case True
    with frag_mem_own_write [OF inv _ g(2) k] frags_okD(1) [OF ok f] show ?thesis by simp
  next
    case False
    with frag_mem_other_write [OF inv _ _ _ g(2) k] frags_okD(1) [OF ok] f g(1) distinct_frags [OF d ne] show ?thesis by simp
  qed
  then show ?thesis using ok by (simp add: frags_ok_def)
qed

section \<open>The helper structures\<close>

lemma word_ptr_word: "0 < a \<Longrightarrow> a < 2 ^ 32 \<Longrightarrow> word_ptr (ptr_word (Some a)) = Some a" "word_ptr (ptr_word None) = None"
proof -
  assume a: "0 < a" "a < 2 ^ 32"
  then have "unat (of_nat a :: u32) = a" by (simp add: unat_of_nat)
  with a show "word_ptr (ptr_word (Some a)) = Some a" by (auto simp: word_ptr_def ptr_word_def unat_eq_0)
qed (simp add: word_ptr_def ptr_word_def)

text \<open>The fields depend on eight bytes of memory.\<close>

lemma rh_cong:
  assumes "rd M' h' 8 = rd M h 8"
  shows "rh_next_pbuf M' h' = rh_next_pbuf M h" "rh_start M' h' = rh_start M h" "rh_end M' h' = rh_end M h"
proof -
  have at: "M' (h' + i) = M (h + i)" if "i < 8" for i using rd_nth [OF assms that] that by simp
  have s: "Suc (h' + 4) = h' + 5" "Suc (h + 4) = h + 5" "Suc (h' + 6) = h' + 7" "Suc (h + 6) = h + 7" by simp_all
  show "rh_next_pbuf M' h' = rh_next_pbuf M h" using at [of 0] at [of 1] at [of 2] at [of 3] by (simp add: rh_next_pbuf_def get32_def)
  show "rh_start M' h' = rh_start M h" "rh_end M' h' = rh_end M h"
    using at [of 4] at [of 5] at [of 6] at [of 7] by (simp_all add: rh_start_def rh_end_def get16_def s)
qed

lemma rh_put:
  "rh_next_pbuf (put32 h w M) h = word_ptr w" "rh_start (put32 h w M) h = rh_start M h" "rh_end (put32 h w M) h = rh_end M h"
  "rh_start (put16 (h + 6) v (put16 (h + 4) u M)) h = u" "rh_end (put16 (h + 6) v M) h = v"
  "rh_next_pbuf (put16 (h + 6) v (put16 (h + 4) u M)) h = rh_next_pbuf M h"
  by (simp_all add: rh_next_pbuf_def rh_start_def rh_end_def get32_def get16_def put32_def put16_def wr_def mem32_def mem16_def)

definition frag_hdr :: "net \<Rightarrow> frag \<Rightarrow> nat \<Rightarrow> bool" where
  "frag_hdr s f h \<longleftrightarrow> payload_of s (fr_p f) = Some h \<and> unat (rh_start (bytes s) h) = fr_start f \<and> unat (rh_end (bytes s) h) = fr_end f"

fun frag_queue :: "net \<Rightarrow> ptr \<Rightarrow> frag list \<Rightarrow> bool" where
  "frag_queue s q [] \<longleftrightarrow> q = None"
| "frag_queue s q (f # fs) \<longleftrightarrow> q = Some (fr_p f) \<and> (\<exists>h. frag_hdr s f h \<and> frag_queue s (rh_next_pbuf (bytes s) h) fs)"

lemma frag_hdr_unique: "frag_hdr s f h \<Longrightarrow> frag_hdr s f h' \<Longrightarrow> h' = h"
  by (simp add: frag_hdr_def)

text \<open>A write to the header of one fragment leaves that of the others alone.\<close>

lemma other_helper:
  assumes ok: "frags_ok E fs s" and f: "f \<in> set fs" "payload_of s (fr_p f) = Some h" and g: "g \<in> set fs" "payload_of s (fr_p g) = Some h'" "f \<noteq> g" and k: "k + length zs \<le> 20"
  shows "rd (wr (bytes s) (h' + k) zs) h 8 = rd (bytes s) h 8"
proof -
  have inv: "pbuf_inv s" by (rule frags_okD(2) [OF ok])
  obtain b where b: "pbufs s (fr_p f) = Some b" "pb_payload b = Some h" "20 \<le> pb_len b" using frag_payload [OF inv frags_okD(1) [OF ok f(1)]] f(2) by (metis option.inject)
  obtain c where c: "pbufs s (fr_p g) = Some c" "pb_payload c = Some h'" "20 \<le> pb_len c" using frag_payload [OF inv frags_okD(1) [OF ok g(1)]] g(2) by (metis option.inject)
  have ne: "\<And>f. f \<in> set fs \<Longrightarrow> fr_pbufs f \<noteq> []" using frags_okD(1) [OF ok] by (auto simp: frag_mem_def)
  have "fr_p g \<notin> set (fr_pbufs f)" by (rule distinct_frags [OF frags_okD(3) [OF ok] ne f(1) g(1,3)])
  then have "fr_p f \<noteq> fr_p g" using ne [OF f(1)] hd_in_set [of "fr_pbufs f"] unfolding fr_p_def by metis
  moreover have "own_memory (pbufs s) [fr_p f, fr_p g]" using frag_own [OF frags_okD(1) [OF ok f(1)]] frag_own [OF frags_okD(1) [OF ok g(1)]] by simp
  ultimately have "apart h (pb_len b) h' (pb_len c)" using own_apart [OF inv _ _ b(1,2) c(1,2)] by blast
  then have "apart (h' + k) (length zs) h 8" using b(3) c(3) k by (auto simp: apart_def)
  then show ?thesis by (rule rd_wr_apart)
qed

lemma payload_of_bytes [simp]: "payload_of (s\<lparr>bytes := M\<rparr>) p = payload_of s p"
  by (simp add: payload_of_def)

lemma queue_other_write:
  assumes ok: "frags_ok E gs s" and g: "g \<in> set gs" "payload_of s (fr_p g) = Some h" and k: "k + length zs \<le> 20"
  shows "frag_queue s q fs \<Longrightarrow> set fs \<subseteq> set gs - {g} \<Longrightarrow> frag_queue (s\<lparr>bytes := wr (bytes s) (h + k) zs\<rparr>) q fs"
proof (induction fs arbitrary: q)
  case (Cons f fs)
  then obtain hf where hf: "q = Some (fr_p f)" "frag_hdr s f hf" "frag_queue s (rh_next_pbuf (bytes s) hf) fs" by auto
  have "rd (wr (bytes s) (h + k) zs) hf 8 = rd (bytes s) hf 8" using Cons.prems(2) hf(2) by (intro other_helper [OF ok _ _ g _ k]) (auto simp: frag_hdr_def)
  note same = rh_cong [OF this]
  have "frag_hdr (s\<lparr>bytes := wr (bytes s) (h + k) zs\<rparr>) f hf" using hf(2) same by (simp add: frag_hdr_def)
  with Cons.IH [OF hf(3)] Cons.prems(2) hf(1) same(1) show ?case by auto
qed simp

lemma frag_hdr_other_write:
  assumes ok: "frags_ok E gs s" and g: "g \<in> set gs" "payload_of s (fr_p g) = Some h" and k: "k + length zs \<le> 20" and f: "f \<in> set gs" "f \<noteq> g" "frag_hdr s f hf"
  shows "frag_hdr (s\<lparr>bytes := wr (bytes s) (h + k) zs\<rparr>) f hf" "rh_next_pbuf (wr (bytes s) (h + k) zs) hf = rh_next_pbuf (bytes s) hf"
proof -
  have "rd (wr (bytes s) (h + k) zs) hf 8 = rd (bytes s) hf 8" using f by (intro other_helper [OF ok _ _ g _ k]) (auto simp: frag_hdr_def)
  from rh_cong [OF this] f(3) show "frag_hdr (s\<lparr>bytes := wr (bytes s) (h + k) zs\<rparr>) f hf" "rh_next_pbuf (wr (bytes s) (h + k) zs) hf = rh_next_pbuf (bytes s) hf"
    by (simp_all add: frag_hdr_def)
qed

text \<open>The new fragment \<open>f\<close>, whose helper structure points to the rest \<open>vs\<close>, is linked behind \<open>g\<close>.\<close>

lemma queue_insert:
  assumes ok: "frags_ok E gs s" and g: "g \<in> set gs" "frag_hdr s g hg" and f: "f \<in> set gs" "f \<noteq> g" "frag_hdr s f hf" "frag_queue s (rh_next_pbuf (bytes s) hf) vs"
    and vs: "set vs \<subseteq> set gs - {g}"
  shows "frag_queue s q (us @ g # ws) \<Longrightarrow> set us \<subseteq> set gs - {g} \<Longrightarrow>
    frag_queue (s\<lparr>bytes := put32 hg (ptr_word (Some (fr_p f))) (bytes s)\<rparr>) q (us @ g # f # vs)"
proof (induction us arbitrary: q)
  let ?M = "put32 hg (ptr_word (Some (fr_p f))) (bytes s)"
  have M: "?M = wr (bytes s) (hg + 0) (mem32 (ptr_word (Some (fr_p f))))" by (simp add: put32_def)
  have len: "0 + length (mem32 (ptr_word (Some (fr_p f)))) \<le> 20" by (simp add: mem32_def)
  have pg: "payload_of s (fr_p g) = Some hg" using g(2) by (simp add: frag_hdr_def)
  {
    case Nil
    have addr: "0 < fr_p f" "fr_p f < 2 ^ 32" using frags_okD(1) [OF ok f(1)] by (simp_all add: frag_mem_def)
    have "frag_hdr (s\<lparr>bytes := ?M\<rparr>) g hg" "rh_next_pbuf ?M hg = Some (fr_p f)" using g(2) word_ptr_word(1) [OF addr] by (simp_all add: frag_hdr_def rh_put)
    moreover have "frag_hdr (s\<lparr>bytes := ?M\<rparr>) f hf" "rh_next_pbuf ?M hf = rh_next_pbuf (bytes s) hf"
      unfolding M by (rule frag_hdr_other_write [OF ok g(1) pg len f(1,2,3)])+
    moreover have "frag_queue (s\<lparr>bytes := ?M\<rparr>) (rh_next_pbuf (bytes s) hf) vs" unfolding M by (rule queue_other_write [OF ok g(1) pg len f(4) vs])
    ultimately have "frag_queue (s\<lparr>bytes := ?M\<rparr>) (Some (fr_p g)) (g # f # vs)" unfolding frag_queue.simps by (intro conjI refl exI [of _ hg] exI [of _ hf]) simp_all
    with Nil show ?case by simp
  next
    case (Cons u us)
    then obtain hu where hu: "q = Some (fr_p u)" "frag_hdr s u hu" "frag_queue s (rh_next_pbuf (bytes s) hu) (us @ g # ws)" by auto
    have "frag_hdr (s\<lparr>bytes := ?M\<rparr>) u hu" "rh_next_pbuf ?M hu = rh_next_pbuf (bytes s) hu"
      using Cons.prems(2) hu(2) frag_hdr_other_write [OF ok g(1) pg len, of u hu] unfolding M by auto
    with Cons.IH [OF hu(3)] Cons.prems(2) hu(1) show ?case by auto
  }
qed

section \<open>The searches\<close>

text \<open>No holes between neighbours, and no overlaps.\<close>

fun contiguous :: "frag list \<Rightarrow> bool" where
  "contiguous (f # g # fs) \<longleftrightarrow> fr_end f = fr_start g \<and> contiguous (g # fs)"
| "contiguous _ \<longleftrightarrow> True"

definition in_order :: "frag list \<Rightarrow> bool" where
  "in_order fs \<longleftrightarrow> sorted_wrt (\<lambda>f g. fr_end f \<le> fr_start g) fs \<and> (\<forall>f \<in> set fs. fr_data f \<noteq> [])"

lemma in_order_append: "in_order (us @ vs) \<longleftrightarrow> in_order us \<and> in_order vs \<and> (\<forall>f \<in> set us. \<forall>g \<in> set vs. fr_end f \<le> fr_start g)"
  by (auto simp: in_order_def sorted_wrt_append)

definition last_hdr :: "net \<Rightarrow> nat option \<Rightarrow> frag list \<Rightarrow> nat option" where
  "last_hdr s prev us = (if us = [] then prev else payload_of s (fr_p (last us)))"

text \<open>
  The new fragment \<open>f\<close> at \<open>hf\<close> belongs between \<open>us\<close> and \<open>vs\<close>. The flag is cleared when there is a hole in \<open>us\<close>, but not when there is one
  between \<open>us\<close> and \<open>f\<close>.
\<close>

lemma frag_search_eq:
  assumes f: "frag_hdr s f hf" "fr_data f \<noteq> []"
  shows "\<lbrakk>frag_queue s q (us @ vs); \<forall>u \<in> set us. fr_end u \<le> fr_start f \<and> fr_data u \<noteq> []; \<forall>v \<in> set vs. fr_end f \<le> fr_start v;
      case prev of None \<Rightarrow> pf = [] | Some h \<Rightarrow> \<exists>g. pf = [g] \<and> frag_hdr s g h\<rbrakk> \<Longrightarrow>
    frag_search s hf q prev valid = Some (case vs of
        [] \<Rightarrow> Frag_end (last_hdr s prev us) (valid \<and> contiguous (pf @ us))
      | v # _ \<Rightarrow> Frag_before (fr_p v) (last_hdr s prev us) (valid \<and> contiguous (pf @ us)))"
proof (induction us arbitrary: q prev pf valid)
  case Nil
  have pf: "contiguous pf" using Nil(4) by (cases prev) auto
  show ?case
  proof (cases vs)
    case Nil
    with Nil.prems pf show ?thesis by (subst frag_search.simps) (simp add: last_hdr_def)
  next
    case (Cons v ws)
    then obtain hv where hv: "q = Some (fr_p v)" "frag_hdr s v hv" using Nil.prems(1) by auto
    have "fr_start f < fr_start v" using Nil.prems(3) Cons f(2) by (auto simp: fr_end_def simp flip: length_greater_0_conv)
    then have "rh_start (bytes s) hf < rh_start (bytes s) hv" using f(1) hv(2) by (simp add: frag_hdr_def word_less_nat_alt)
    with hv Cons pf show ?thesis by (subst frag_search.simps) (simp add: frag_hdr_def last_hdr_def Let_def)
  qed
next
  case (Cons u us)
  then obtain hu where hu: "q = Some (fr_p u)" "frag_hdr s u hu" "frag_queue s (rh_next_pbuf (bytes s) hu) (us @ vs)" by auto
  have u: "fr_end u \<le> fr_start f" "fr_start u < fr_end u" using Cons.prems(2) by (auto simp: fr_end_def)
  have nums: "\<not> rh_start (bytes s) hf < rh_start (bytes s) hu" "rh_start (bytes s) hf \<noteq> rh_start (bytes s) hu" "\<not> rh_start (bytes s) hf < rh_end (bytes s) hu"
    using f(1) hu(2) u by (auto simp: frag_hdr_def word_less_nat_alt)
  let ?v = "case prev of None \<Rightarrow> valid | Some h \<Rightarrow> if rh_end (bytes s) h \<noteq> rh_start (bytes s) hu then False else valid"
  have v: "(?v \<and> contiguous ([u] @ us)) = (valid \<and> contiguous (pf @ u # us))"
    using Cons.prems(4) hu(2) by (auto simp: frag_hdr_def word_unat_eq_iff split: option.splits)
  have "frag_search s hf q prev valid = frag_search s hf (rh_next_pbuf (bytes s) hu) (Some hu) ?v"
    using hu(1,2) nums by (subst frag_search.simps) (simp add: frag_hdr_def Let_def)
  also have "\<dots> = Some (case vs of [] \<Rightarrow> Frag_end (last_hdr s (Some hu) us) (?v \<and> contiguous ([u] @ us))
      | v # _ \<Rightarrow> Frag_before (fr_p v) (last_hdr s (Some hu) us) (?v \<and> contiguous ([u] @ us)))"
    by (rule Cons.IH [OF hu(3)]) (use Cons.prems(2,3) hu(2) in auto)
  also have "last_hdr s (Some hu) us = last_hdr s prev (u # us)" using hu(2) by (simp add: last_hdr_def frag_hdr_def)
  finally show ?case unfolding v .
qed

lemma holes_check_eq:
  "\<lbrakk>frag_hdr s f h; frag_queue s q fs\<rbrakk> \<Longrightarrow> \<exists>h'. holes_check s h q = Some (contiguous (f # fs), h') \<and> (contiguous (f # fs) \<longrightarrow> frag_hdr s (last (f # fs)) h')"
proof (induction fs arbitrary: f h q)
  case Nil
  then show ?case by (subst holes_check.simps) simp
next
  case (Cons g fs)
  then obtain hg where hg: "q = Some (fr_p g)" "frag_hdr s g hg" "frag_queue s (rh_next_pbuf (bytes s) hg) fs" by auto
  have "rh_end (bytes s) h = rh_start (bytes s) hg \<longleftrightarrow> fr_end f = fr_start g" using Cons.prems(1) hg(2) by (simp add: frag_hdr_def word_unat_eq_iff)
  with Cons.IH [OF hg(2,3)] hg show ?case by (subst holes_check.simps) (auto simp: frag_hdr_def)
qed

lemma last_queue_next: "frag_queue s q (us @ [f]) \<Longrightarrow> frag_hdr s f h \<Longrightarrow> rh_next_pbuf (bytes s) h = None"
proof (induction us arbitrary: q)
  case Nil
  then show ?case by (auto dest: frag_hdr_unique)
qed auto

lemma queue_split: "frag_queue s q (us @ f # vs) \<Longrightarrow> frag_hdr s f h \<Longrightarrow> frag_queue s (rh_next_pbuf (bytes s) h) vs"
proof (induction us arbitrary: q)
  case Nil
  then show ?case by (auto dest: frag_hdr_unique)
qed auto

text \<open>The datagram is taken for complete when the fragments before the new one have no hole, nor have the new one and those behind it.\<close>

lemma reass_validate_eq:
  assumes q: "frag_queue s (rs_p d) (us @ f # vs)" "frag_hdr s f h" and two: "us @ vs \<noteq> [] \<or> fr_start f \<noteq> 0 \<or> rs_flags d AND 1 = 0" "distinct (map fr_p (us @ f # vs))" "pbuf_inv s" "\<forall>g \<in> set (us @ f # vs). frag_mem s g"
    and len: "valid \<and> contiguous (f # vs) \<and> rs_flags d AND 1 \<noteq> 0 \<and> fr_start (hd (us @ [f])) = 0 \<longrightarrow> unat (rs_datagram_len d) = fr_end (last (f # vs))"
  shows "reass_validate d h valid s = Some (rs_flags d AND 1 \<noteq> 0 \<and> valid \<and> fr_start (hd (us @ [f])) = 0 \<and> contiguous (f # vs))"
proof -
  obtain e es where e: "us @ f # vs = e # es" "e = hd (us @ [f])" by (cases us) auto
  then obtain h1 where h1: "rs_p d = Some (fr_p e)" "frag_hdr s e h1" using q(1) by auto
  have start: "rh_start (bytes s) h1 = 0 \<longleftrightarrow> fr_start e = 0" using h1(2) unat_eq_0 [of "rh_start (bytes s) h1"] by (simp add: frag_hdr_def)
  obtain h' where h': "holes_check s h (rh_next_pbuf (bytes s) h) = Some (contiguous (f # vs), h')" "contiguous (f # vs) \<longrightarrow> frag_hdr s (last (f # vs)) h'"
    using holes_check_eq [OF q(2) queue_split [OF q]] by blast
  have last: "frag_hdr s (last (f # vs)) h' \<Longrightarrow> rh_next_pbuf (bytes s) h' = None"
    using last_queue_next [of s "rs_p d" "us @ butlast (f # vs)" "last (f # vs)" h'] q(1) by (simp del: last.simps butlast.simps)
  have ne: "h1 \<noteq> h'" if l: "frag_hdr s (last (f # vs)) h'" and us: "us @ vs \<noteq> []"
  proof
    assume eq: "h1 = h'"
    have mem: "e \<in> set (us @ f # vs)" "last (f # vs) \<in> set (us @ f # vs)" by (simp only: e(1) list.set_intros, metis Un_iff last_in_set list.distinct(1) set_append)
    have "last (f # vs) = last (e # es)" using e(1) by (metis last_appendR list.distinct(1))
    moreover have "es \<noteq> []" using us e(1) by (cases us) auto
    ultimately have "fr_p (last (f # vs)) \<noteq> fr_p e" using two(2) unfolding e(1) by (metis distinct.simps(2) image_eqI last.simps last_in_set list.map(2) list.set_map)
    then have pe: "fr_p e \<noteq> fr_p (last (f # vs))" by simp
    have m: "frag_mem s e" "frag_mem s (last (f # vs))" using two(4) mem by blast+
    obtain b where b: "pbufs s (fr_p e) = Some b" "pb_payload b = Some h1" "20 \<le> pb_len b"
      using frag_payload [OF two(3) m(1)] h1(2) by (metis frag_hdr_def option.inject)
    obtain c where c: "pbufs s (fr_p (last (f # vs))) = Some c" "pb_payload c = Some h1" "20 \<le> pb_len c"
      using frag_payload [OF two(3) m(2)] l eq by (metis frag_hdr_def option.inject)
    have "own_memory (pbufs s) [fr_p e, fr_p (last (f # vs))]" using frag_own [OF m(1)] frag_own [OF m(2)] by simp
    from own_apart [OF two(3) this pe b(1,2) c(1,2)] b(3) c(3) show False by (simp add: apart_def)
  qed
  show ?thesis
    using h1(1,2) start h' last ne len e(2) two(1) by (auto simp: reass_validate_def frag_hdr_def word_unat_eq_iff lwip_assert_def split: if_splits)
qed

text \<open>An assertion fails when the end of the last fragment is not that of the datagram.\<close>

lemma reass_validate_aborts:
  assumes q: "frag_queue s (rs_p d) (us @ f # vs)" "frag_hdr s f h" and c: "contiguous (f # vs)" "rs_flags d AND 1 \<noteq> 0" "fr_start (hd (us @ [f])) = 0"
    and len: "unat (rs_datagram_len d) \<noteq> fr_end (last (f # vs))"
  shows "reass_validate d h True s = None"
proof -
  obtain e es where e: "us @ f # vs = e # es" "e = hd (us @ [f])" by (cases us) auto
  then obtain h1 where h1: "rs_p d = Some (fr_p e)" "frag_hdr s e h1" using q(1) by auto
  then have "rh_start (bytes s) h1 = 0" using c(3) e(2) unat_eq_0 [of "rh_start (bytes s) h1"] by (simp add: frag_hdr_def)
  moreover obtain h' where h': "holes_check s h (rh_next_pbuf (bytes s) h) = Some (True, h')" "frag_hdr s (last (f # vs)) h'"
    using holes_check_eq [OF q(2) queue_split [OF q]] c(1) by auto
  moreover have "rh_end (bytes s) h' \<noteq> rs_datagram_len d" using h'(2) len by (auto simp: frag_hdr_def)
  ultimately show ?thesis using h1 c(2) by (simp add: reass_validate_def frag_hdr_def lwip_assert_def)
qed

section \<open>A new fragment is linked\<close>

lemma length_mem: "length (mem16 v) = 2" "length (mem32 w) = 4"
  by (simp_all add: mem16_def mem32_def)

text \<open>The helper structure of a new fragment.\<close>

lemma new_helper:
  assumes ok: "frags_ok E (f # fs) s" and q: "frag_queue s p fs" and h: "payload_of s (fr_p f) = Some h" and n: "fr_end f < 65536"
  defines "M \<equiv> put16 (h + 6) (of_nat (fr_end f)) (put16 (h + 4) (of_nat (fr_start f)) (put32 h (ptr_word None) (bytes s)))"
  shows "frags_ok E (f # fs) (s\<lparr>bytes := M\<rparr>)" "frag_queue (s\<lparr>bytes := M\<rparr>) p fs" "frag_hdr (s\<lparr>bytes := M\<rparr>) f h" "rh_next_pbuf M h = None"
proof -
  have M: "M = wr (bytes s) (h + 0) (mem32 (ptr_word None) @ mem16 (of_nat (fr_start f)) @ mem16 (of_nat (fr_end f)))"
    unfolding M_def put16_def put32_def
    using wr_append [of "bytes s" h "mem32 (ptr_word None)" "mem16 (of_nat (fr_start f))"] length_mem
      wr_append [of "bytes s" h "mem32 (ptr_word None) @ mem16 (of_nat (fr_start f))" "mem16 (of_nat (fr_end f))"] by simp
  have len: "0 + length (mem32 (ptr_word None) @ mem16 (of_nat (fr_start f)) @ mem16 (of_nat (fr_end f))) \<le> 20" by (simp add: mem32_def mem16_def)
  show "frags_ok E (f # fs) (s\<lparr>bytes := M\<rparr>)" unfolding M by (rule frags_write [OF ok _ h len]) simp
  have "f \<notin> set fs" using ok frags_okD(1) [OF ok, of f] by (cases "fr_pbufs f") (auto simp: frags_ok_def frag_mem_def)
  then show "frag_queue (s\<lparr>bytes := M\<rparr>) p fs" unfolding M by (intro queue_other_write [OF ok _ h len q]) auto
  have "fr_start f < 65536" using n by (simp add: fr_end_def)
  then show "frag_hdr (s\<lparr>bytes := M\<rparr>) f h" using h n by (simp add: frag_hdr_def M_def rh_put unat_of_nat)
  show "rh_next_pbuf M h = None" by (simp add: M_def rh_put word_ptr_word)
qed

text \<open>The pointer of a fragment that is not in the queue is set.\<close>

lemma set_next_pbuf:
  assumes ok: "frags_ok E (f # fs) s" and q: "frag_queue s p fs" and h: "frag_hdr s f h"
  shows "frags_ok E (f # fs) (s\<lparr>bytes := put32 h w (bytes s)\<rparr>)" "frag_queue (s\<lparr>bytes := put32 h w (bytes s)\<rparr>) p fs"
    "frag_hdr (s\<lparr>bytes := put32 h w (bytes s)\<rparr>) f h" "rh_next_pbuf (put32 h w (bytes s)) h = word_ptr w"
proof -
  have M: "put32 h w (bytes s) = wr (bytes s) (h + 0) (mem32 w)" by (simp add: put32_def)
  have len: "0 + length (mem32 w) \<le> 20" by (simp add: mem32_def)
  have pl: "payload_of s (fr_p f) = Some h" using h by (simp add: frag_hdr_def)
  show "frags_ok E (f # fs) (s\<lparr>bytes := put32 h w (bytes s)\<rparr>)" unfolding M by (rule frags_write [OF ok _ pl len]) simp
  have "f \<notin> set fs" using ok frags_okD(1) [OF ok, of f] by (cases "fr_pbufs f") (auto simp: frags_ok_def frag_mem_def)
  then show "frag_queue (s\<lparr>bytes := put32 h w (bytes s)\<rparr>) p fs" unfolding M by (intro queue_other_write [OF ok _ pl len q]) auto
  show "frag_hdr (s\<lparr>bytes := put32 h w (bytes s)\<rparr>) f h" "rh_next_pbuf (put32 h w (bytes s)) h = word_ptr w" using h by (simp_all add: frag_hdr_def rh_put)
qed

lemma queue_suffix: "frag_queue s q (us @ vs) \<Longrightarrow> us \<noteq> [] \<Longrightarrow> \<exists>h. frag_hdr s (last us) h \<and> frag_queue s (rh_next_pbuf (bytes s) h) vs"
proof (induction us arbitrary: q)
  case (Cons u us)
  then obtain h where h: "frag_hdr s u h" "frag_queue s (rh_next_pbuf (bytes s) h) (us @ vs)" by auto
  with Cons.IH [OF h(2)] show ?case by (cases "us = []") auto
qed simp

end
