(* ===== verification/Reass_Props.thy ===== *)
theory Reass_Props
  imports Reass_Queue
begin

text \<open>
  The steps of reassembly: a new fragment is linked into the queue of its datagram, the code's test for completeness, the chaining of the fragments of a complete datagram behind
  the header of the first one, and the removal of the datagram from the list. The last lemmas take \<open>ip4_reass\<close> apart into these steps.
\<close>

section \<open>Adding a fragment\<close>

lemma get_reass_bufs [simp]: "get_reass (st\<lparr>bufs := s\<rparr>) = get_reass st"
  by (simp add: get_reass_def)

text \<open>What the IP header of a fragment says.\<close>

definition frag_header :: "(nat \<Rightarrow> u8) \<Rightarrow> nat \<Rightarrow> frag \<Rightarrow> bool" where
  "frag_header M h f \<longleftrightarrow> IPH_HL M h = 5 \<and> lwip_htons (IPH_LEN M h) = of_nat (IP_HLEN + length (fr_data f))
     \<and> (lwip_htons (IPH_OFFSET M h) AND ucast IP_OFFMASK) * 8 = of_nat (fr_start f) \<and> fr_end f < 65536"

text \<open>The code's test for completeness. It does not see a hole between \<open>us\<close> and a new fragment in front of others.\<close>

definition seems_complete :: "ip_reassdata \<Rightarrow> frag list \<Rightarrow> frag \<Rightarrow> frag list \<Rightarrow> bool" where
  "seems_complete d us f vs \<longleftrightarrow> rs_flags d AND IP_REASS_FLAG_LASTFRAG \<noteq> 0 \<and> contiguous us \<and> (vs = [] \<longrightarrow> contiguous (us @ [f]))
     \<and> fr_start (hd (us @ [f])) = 0 \<and> contiguous (f # vs)"

lemma contiguous_snoc: "us \<noteq> [] \<Longrightarrow> contiguous (us @ [f]) \<longleftrightarrow> contiguous us \<and> fr_end (last us) = fr_start f"
proof (induction us)
  case (Cons u us)
  then show ?case by (cases us) auto
qed simp

lemma on_reass_upd: "reass_at (get_reass st) a = Some d \<Longrightarrow> upd_reass a g st = Some (on_reass (\<lambda>u. u\<lparr>reass_at := (reass_at u)(a \<mapsto> g d)\<rparr>) st)"
  by (simp add: upd_reass_def)

lemma on_reass_same: "reass_at (get_reass st) a = Some d \<Longrightarrow> on_reass (\<lambda>u. u\<lparr>reass_at := (reass_at u)(a \<mapsto> d)\<rparr>) st = st"
  by (simp add: on_reass_def get_reass_def fun_upd_idem)

lemma on_reass_twice [simp]: "on_reass f (on_reass g st) = on_reass (\<lambda>u. f (g u)) st"
  by (simp add: on_reass_def)

lemma on_reass_cong: "f (get_reass st) = g (get_reass st) \<Longrightarrow> on_reass f st = on_reass g st"
  by (simp add: on_reass_def get_reass_def)

lemma on_bytes_eq: "on_bytes f st = st\<lparr>bufs := (bufs st)\<lparr>bytes := f (bytes (bufs st))\<rparr>\<rparr>"
  by (simp add: on_bytes_def)

text \<open>The new fragment is linked to those behind it, and to the one before it, whose helper structure is at \<open>hg\<close>.\<close>

definition link_before :: "frag list \<Rightarrow> nat \<Rightarrow> (nat \<Rightarrow> u8) \<Rightarrow> nat \<Rightarrow> u8" where
  "link_before vs h M = (case vs of [] \<Rightarrow> M | v # _ \<Rightarrow> put32 h (ptr_word (Some (fr_p v))) M)"

definition link_behind :: "frag list \<Rightarrow> frag \<Rightarrow> nat \<Rightarrow> (nat \<Rightarrow> u8) \<Rightarrow> nat \<Rightarrow> u8" where
  "link_behind us f hg M = (if us = [] then M else put32 hg (ptr_word (Some (fr_p f))) M)"

lemma linked_before:
  assumes ok: "frags_ok E (f # us @ vs) s" and q: "frag_queue s p (us @ vs)" and h: "frag_hdr s f h" "rh_next_pbuf (bytes s) h = None"
  defines "s' \<equiv> s\<lparr>bytes := link_before vs h (bytes s)\<rparr>"
  shows "frags_ok E (f # us @ vs) s'" "frag_queue s' p (us @ vs)" "frag_hdr s' f h" "frag_queue s' (rh_next_pbuf (bytes s') h) vs"
proof -
  have "0 < fr_p v \<and> fr_p v < 2 ^ 32" if "v \<in> set vs" for v using frags_okD(1) [OF ok, of v] that by (simp add: frag_mem_def)
  then have s': "frags_ok E (f # us @ vs) s' \<and> frag_queue s' p (us @ vs) \<and> frag_hdr s' f h \<and> rh_next_pbuf (bytes s') h = (case vs of [] \<Rightarrow> None | v # _ \<Rightarrow> Some (fr_p v))"
    using assms(1-4) set_next_pbuf [OF ok q h(1)] word_ptr_word(1) by (cases vs) (simp_all add: s'_def link_before_def)
  then show "frags_ok E (f # us @ vs) s'" "frag_queue s' p (us @ vs)" "frag_hdr s' f h" by blast+
  show "frag_queue s' (rh_next_pbuf (bytes s') h) vs"
  proof (cases "us = []")
    case True
    with s' show ?thesis by (cases vs) auto
  next
    case False
    with queue_suffix [of s' p us vs] s' show ?thesis by (cases vs) auto
  qed
qed

lemma linked_behind:
  assumes ok: "frags_ok E (f # us @ vs) s" and q: "frag_queue s p (us @ vs)" and h: "frag_hdr s f h" "frag_queue s (rh_next_pbuf (bytes s) h) vs"
    and hg: "us \<noteq> [] \<Longrightarrow> frag_hdr s (last us) hg"
  defines "s' \<equiv> s\<lparr>bytes := link_behind us f hg (bytes s)\<rparr>"
  shows "frags_ok E (f # us @ vs) s' \<and> frag_queue s' (Some (fr_p (hd (us @ [f])))) (us @ f # vs) \<and> frag_hdr s' f h"
proof (cases "us = []")
  case True
  with ok h show ?thesis by (auto simp: s'_def link_behind_def)
next
  case False
  then obtain ws g where ug: "us = ws @ [g]" by (cases us rule: rev_cases) auto
  have "fr_pbufs f \<noteq> []" "fr_pbufs g \<noteq> []" "distinct (concat (map fr_pbufs (f # ws @ g # vs)))"
    using ok frags_okD(1) [OF ok, of g] frags_okD(1) [OF ok, of f] ug by (auto simp: frags_ok_def frag_mem_def)
  then have dist: "g \<notin> set ws" "g \<notin> set vs" "f \<noteq> g" "f \<notin> set (us @ vs)" unfolding ug by (cases "fr_pbufs g"; cases "fr_pbufs f"; auto)+
  have M: "bytes s' = put32 hg (ptr_word (Some (fr_p f))) (bytes s)" using False by (simp add: s'_def link_behind_def)
  have hg': "frag_hdr s g hg" "payload_of s (fr_p g) = Some hg" using hg ug by (simp_all add: frag_hdr_def)
  have len: "0 + length (mem32 (ptr_word (Some (fr_p f)))) \<le> 20" by (simp add: length_mem)
  have g: "g \<in> set (f # us @ vs)" "f \<in> set (f # us @ vs)" using ug by simp_all
  have s': "s' = s\<lparr>bytes := wr (bytes s) (hg + 0) (mem32 (ptr_word (Some (fr_p f))))\<rparr>" using False by (simp add: s'_def link_behind_def put32_def)
  have "frags_ok E (f # us @ vs) s'" unfolding s' by (rule frags_write [OF ok g(1) hg'(2) len])
  moreover have "frag_queue s' p (ws @ g # f # vs)"
    using queue_insert [OF ok g(1) hg'(1) g(2) dist(3) h, of p ws vs] q dist ug False by (auto simp: s'_def link_behind_def)
  moreover have "p = Some (fr_p (hd us))" using q False by (cases us) auto
  moreover have "frag_hdr s' f h" unfolding s' by (rule frag_hdr_other_write(1) [OF ok g(1) hg'(2) len g(2) dist(3) h(1)])
  ultimately show ?thesis using ug by (cases ws) auto
qed

lemma chain_frag_links:
  assumes ok: "frags_ok E (f # us @ vs) (bufs st)" and d: "reass_at (get_reass st) ipr = Some d" and q: "frag_queue (bufs st) (rs_p d) (us @ vs)"
    and o: "in_order (us @ f # vs)" and h: "payload_of (bufs st) (fr_p f) = Some h" "frag_header (bytes (bufs st)) h f"
  obtains M where "let st' = on_reass (\<lambda>u. u\<lparr>reass_at := (reass_at u)(ipr \<mapsto> d\<lparr>rs_p := Some (fr_p (hd (us @ [f])))\<rparr>)\<rparr>) (st\<lparr>bufs := (bufs st)\<lparr>bytes := M\<rparr>\<rparr>)
    in ip_reass_chain_frag_into_datagram_and_validate ipr (fr_p f) st = frag_validate ipr h (contiguous us \<and> (vs = [] \<longrightarrow> contiguous (us @ [f]))) st'"
    "frags_ok E (f # us @ vs) ((bufs st)\<lparr>bytes := M\<rparr>)" "frag_queue ((bufs st)\<lparr>bytes := M\<rparr>) (Some (fr_p (hd (us @ [f])))) (us @ f # vs)"
    "frag_hdr ((bufs st)\<lparr>bytes := M\<rparr>) f h"
proof -
  let ?s = "bufs st"
  have n: "fr_end f < 65536" using h(2) by (simp add: frag_header_def)
  define M1 where "M1 = put16 (h + 6) (of_nat (fr_end f)) (put16 (h + 4) (of_nat (fr_start f)) (put32 h (ptr_word None) (bytes ?s)))"
  define M2 where "M2 = link_before vs h M1"
  let ?s1 = "?s\<lparr>bytes := M1\<rparr>" and ?s2 = "?s\<lparr>bytes := M2\<rparr>"
  note new = new_helper [OF ok q h(1) n(1), folded M1_def]
  have s2: "frags_ok E (f # us @ vs) ?s2" "frag_queue ?s2 (rs_p d) (us @ vs)" "frag_hdr ?s2 f h" "frag_queue ?s2 (rh_next_pbuf M2 h) vs"
    using linked_before [OF new(1-3)] new(4) by (simp_all add: M2_def)
  obtain hg where hg: "us \<noteq> [] \<Longrightarrow> frag_hdr ?s2 (last us) hg" using queue_suffix [OF s2(2)] by blast
  define M3 where "M3 = link_behind us f hg M2"
  let ?s3 = "?s\<lparr>bytes := M3\<rparr>" and ?d = "d\<lparr>rs_p := Some (fr_p (hd (us @ [f])))\<rparr>"
  have s3: "frags_ok E (f # us @ vs) ?s3 \<and> frag_queue ?s3 (Some (fr_p (hd (us @ [f])))) (us @ f # vs) \<and> frag_hdr ?s3 f h"
    using linked_behind [OF s2(1-3) _ hg] s2(4) by (simp add: M3_def)
  have us: "\<forall>u \<in> set us. fr_end u \<le> fr_start f \<and> fr_data u \<noteq> []" "\<forall>v \<in> set vs. fr_end f \<le> fr_start v" "fr_data f \<noteq> []"
    using o by (auto simp: in_order_def sorted_wrt_append)
  have search: "frag_search ?s1 h (rs_p d) None True = Some (case vs of [] \<Rightarrow> Frag_end (last_hdr ?s1 None us) (contiguous us)
      | v # _ \<Rightarrow> Frag_before (fr_p v) (last_hdr ?s1 None us) (contiguous us))"
    using frag_search_eq [OF new(3) us(3) new(2) us(1,2), where prev = None and pf = "[]" and valid = True] by (simp split: list.split)
  have "lwip_htons (IPH_LEN (bytes ?s) h) - ucast (IPH_HL (bytes ?s) h) * 4 = of_nat (length (fr_data f))" using h(2) by (simp add: frag_header_def)
  then have wr1: "put16 (h + 6) ((lwip_htons (IPH_OFFSET (bytes ?s) h) AND ucast IP_OFFMASK) * 8 + (lwip_htons (IPH_LEN (bytes ?s) h) - ucast (IPH_HL (bytes ?s) h) * 4))
      (put16 (h + 4) ((lwip_htons (IPH_OFFSET (bytes ?s) h) AND ucast IP_OFFMASK) * 8) (put32 h (ptr_word None) (bytes ?s))) = M1"
    using h(2) by (simp add: M1_def frag_header_def fr_end_def)
  note start = ip_reass_chain_frag_into_datagram_and_validate_def [of ipr "fr_p f" st, unfolded h(1) Option.bind.simps(2) Let_def on_bytes_eq wr1]
  let ?st = "on_reass (\<lambda>u. u\<lparr>reass_at := (reass_at u)(ipr \<mapsto> ?d)\<rparr>) (st\<lparr>bufs := ?s3\<rparr>)"
  let ?valid = "contiguous us \<and> (vs = [] \<longrightarrow> contiguous (us @ [f]))"
  have d1: "reass_at (get_reass (st\<lparr>bufs := t\<rparr>)) ipr = Some d" for t using d by simp
  have "ip_reass_chain_frag_into_datagram_and_validate ipr (fr_p f) st = frag_validate ipr h ?valid ?st"
  proof (cases "us = []")
    case True
    have "vs = [] \<Longrightarrow> rs_p d = None" using q True by simp
    with True start search d1 show ?thesis by (cases vs) (simp_all add: last_hdr_def on_reass_upd M3_def M2_def link_before_def link_behind_def)
  next
    case False
    have hdr: "unat (rh_start M2 h) = fr_start f" "unat (rh_end M2 h) = fr_end f" "unat (rh_end M2 hg) = fr_end (last us)" "last_hdr ?s1 None us = Some hg"
      using s2(3) hg [OF False] False by (simp_all add: frag_hdr_def last_hdr_def)
    have M3: "M3 = put32 hg (ptr_word (Some (fr_p f))) M2" using False by (simp add: M3_def link_behind_def)
    have "rs_p d = Some (fr_p (hd (us @ [f])))" using q False by (cases us) auto
    then have eq: "?d = d" by simp
    have same: "?st = st\<lparr>bufs := ?s3\<rparr>" unfolding eq by (rule on_reass_same [OF d1])
    have le: "rh_end M2 hg \<le> rh_start M2 h" using us(1) False hdr by (simp add: word_le_nat_alt)
    show ?thesis
    proof (cases vs)
      case Nil
      then have M: "M1 = M2" by (simp add: M2_def link_before_def)
      have "(if rh_end M2 hg \<noteq> rh_start M2 h then False else contiguous us) = ?valid" using Nil hdr contiguous_snoc [OF False, of f] by (auto simp: word_unat_eq_iff)
      then show ?thesis using start search d1 Nil hdr(4) same False le unfolding M M3 by simp
    next
      case (Cons v ws)
      obtain hv where hv: "frag_hdr ?s2 v hv" using s2(4) Cons by auto
      have M2: "put32 h (ptr_word (Some (fr_p v))) M1 = M2" using Cons by (simp add: M2_def link_before_def)
      have "\<not> rh_start M2 hv < rh_end M2 h" "payload_of ?s (fr_p v) = Some hv" using us(2) Cons hdr hv by (simp_all add: word_less_nat_alt frag_hdr_def)
      then show ?thesis using start search d1 Cons hdr(4) same False le unfolding M3 by (simp add: M2 not_less [symmetric])
    qed
  qed
  then show ?thesis using s3 by (intro that [of M3]) (simp_all add: Let_def)
qed

lemma frags_distinct: "frags_ok E (f # us @ vs) s \<Longrightarrow> distinct (map fr_p (us @ f # vs))"
proof -
  assume ok: "frags_ok E (f # us @ vs) s"
  then have "distinct (map fr_p (f # us @ vs))" using frags_okD(1) [OF ok] by (intro distinct_fr_p) (auto simp: frags_ok_def frag_mem_def)
  then show ?thesis by auto
qed

lemma chain_frag_inserts:
  assumes ok: "frags_ok E (f # us @ vs) (bufs st)" and d: "reass_at (get_reass st) ipr = Some d" and q: "frag_queue (bufs st) (rs_p d) (us @ vs)"
    and o: "in_order (us @ f # vs)" and h: "payload_of (bufs st) (fr_p f) = Some h" "frag_header (bytes (bufs st)) h f"
    and first: "us @ vs \<noteq> [] \<or> fr_start f \<noteq> 0 \<or> rs_flags d AND 1 = 0"
    and len: "seems_complete d us f vs \<Longrightarrow> unat (rs_datagram_len d) = fr_end (last (f # vs))"
  shows "\<exists>M. let st' = on_reass (\<lambda>u. u\<lparr>reass_at := (reass_at u)(ipr \<mapsto> d\<lparr>rs_p := Some (fr_p (hd (us @ [f])))\<rparr>)\<rparr>) (st\<lparr>bufs := (bufs st)\<lparr>bytes := M\<rparr>\<rparr>)
    in ip_reass_chain_frag_into_datagram_and_validate ipr (fr_p f) st = Some (seems_complete d us f vs, st')
      \<and> frags_ok E (f # us @ vs) (bufs st') \<and> frag_queue (bufs st') (Some (fr_p (hd (us @ [f])))) (us @ f # vs)"
proof -
  obtain M where M: "let st' = on_reass (\<lambda>u. u\<lparr>reass_at := (reass_at u)(ipr \<mapsto> d\<lparr>rs_p := Some (fr_p (hd (us @ [f])))\<rparr>)\<rparr>) (st\<lparr>bufs := (bufs st)\<lparr>bytes := M\<rparr>\<rparr>)
    in ip_reass_chain_frag_into_datagram_and_validate ipr (fr_p f) st = frag_validate ipr h (contiguous us \<and> (vs = [] \<longrightarrow> contiguous (us @ [f]))) st'"
    "frags_ok E (f # us @ vs) ((bufs st)\<lparr>bytes := M\<rparr>)" "frag_queue ((bufs st)\<lparr>bytes := M\<rparr>) (Some (fr_p (hd (us @ [f])))) (us @ f # vs)"
    "frag_hdr ((bufs st)\<lparr>bytes := M\<rparr>) f h" by (rule chain_frag_links [OF ok d q o h])
  let ?d = "d\<lparr>rs_p := Some (fr_p (hd (us @ [f])))\<rparr>" and ?valid = "contiguous us \<and> (vs = [] \<longrightarrow> contiguous (us @ [f]))"
  have "reass_validate ?d h ?valid ((bufs st)\<lparr>bytes := M\<rparr>) = Some (rs_flags ?d AND 1 \<noteq> 0 \<and> ?valid \<and> fr_start (hd (us @ [f])) = 0 \<and> contiguous (f # vs))"
    using M(2-4) first len frags_okD [OF M(2)] frags_distinct [OF ok] by (intro reass_validate_eq) (auto simp: seems_complete_def)
  then have "reass_validate ?d h ?valid ((bufs st)\<lparr>bytes := M\<rparr>) = Some (seems_complete d us f vs)" by (simp add: seems_complete_def conj_ac)
  with M show ?thesis by (intro exI [of _ M]) (simp add: Let_def frag_validate_def)
qed

lemma chain_frag_aborts:
  assumes ok: "frags_ok E (f # us @ vs) (bufs st)" and d: "reass_at (get_reass st) ipr = Some d" and q: "frag_queue (bufs st) (rs_p d) (us @ vs)"
    and o: "in_order (us @ f # vs)" and h: "payload_of (bufs st) (fr_p f) = Some h" "frag_header (bytes (bufs st)) h f"
    and len: "seems_complete d us f vs" "unat (rs_datagram_len d) \<noteq> fr_end (last (f # vs))"
  shows "ip_reass_chain_frag_into_datagram_and_validate ipr (fr_p f) st = None"
proof -
  obtain M where M: "let st' = on_reass (\<lambda>u. u\<lparr>reass_at := (reass_at u)(ipr \<mapsto> d\<lparr>rs_p := Some (fr_p (hd (us @ [f])))\<rparr>)\<rparr>) (st\<lparr>bufs := (bufs st)\<lparr>bytes := M\<rparr>\<rparr>)
    in ip_reass_chain_frag_into_datagram_and_validate ipr (fr_p f) st = frag_validate ipr h (contiguous us \<and> (vs = [] \<longrightarrow> contiguous (us @ [f]))) st'"
    "frags_ok E (f # us @ vs) ((bufs st)\<lparr>bytes := M\<rparr>)" "frag_queue ((bufs st)\<lparr>bytes := M\<rparr>) (Some (fr_p (hd (us @ [f])))) (us @ f # vs)"
    "frag_hdr ((bufs st)\<lparr>bytes := M\<rparr>) f h" by (rule chain_frag_links [OF ok d q o h])
  let ?d = "d\<lparr>rs_p := Some (fr_p (hd (us @ [f])))\<rparr>"
  have "reass_validate ?d h True ((bufs st)\<lparr>bytes := M\<rparr>) = None" using M(3,4) len by (intro reass_validate_aborts) (auto simp: seems_complete_def)
  with M(1) len(1) show ?thesis by (simp add: Let_def frag_validate_def seems_complete_def)
qed

section \<open>Chaining the fragments\<close>

lemma cat_loop_memp: "cat_loop t p s = Some r \<Longrightarrow> net_memp (snd r) = net_memp s"
proof (induction rule: cat_loop.raw_induct [rotated, consumes 1])
  case (1 loop t p s y)
  then show ?case by (cases y) (fastforce simp: bind_eq_Some_conv Let_def split: option.splits)
qed

lemma pbuf_cat_memp: "pbuf_cat h t s = Some s' \<Longrightarrow> net_memp s' = net_memp s"
  by (auto simp: pbuf_cat_def upd_pbuf_def bind_eq_Some_conv dest!: cat_loop_memp split: option.splits)

lemma packet_cat:
  assumes p: "net_ok (E(p := 1, t := 1)) s" "E p = 0" "E t = 0" "p \<noteq> t" "ref_of s p = 1"
    and xs: "chain (pbufs s) (Some p) xs" "own_memory (pbufs s) xs" "chain_data (pbufs s) (bytes s) xs = D"
    and ys: "chain (pbufs s) (Some t) ys" "own_memory (pbufs s) ys" "chain_data (pbufs s) (bytes s) ys = X"
    and disj: "set xs \<inter> set ys = {}" and len: "length D + length X < 65536"
  shows "\<exists>s'. pbuf_cat (Some p) (Some t) s = Some s' \<and> net_ok (E(p := 1)) s' \<and> ref_of s' p = 1 \<and> chain (pbufs s') (Some p) (xs @ ys) \<and> own_memory (pbufs s') (xs @ ys)
    \<and> chain_data (pbufs s') (bytes s') (xs @ ys) = D @ X \<and> (\<forall>x. x \<notin> set xs \<longrightarrow> pbufs s' x = pbufs s x) \<and> same_rest s s' \<and> net_memp s' = net_memp s"
proof -
  have inv: "pbuf_inv s" using p(1) by (simp add: net_ok_def)
  have l: "chain_len (pbufs s) xs = length D" "chain_len (pbufs s) ys = length X"
    using length_chain_data [OF own_payloads [OF inv xs(2)], of "bytes s"] length_chain_data [OF own_payloads [OF inv ys(2)], of "bytes s"] xs(3) ys(3) by simp_all
  from pbuf_cat_ok [OF p(1) _ _ xs(1) ys(1) disj] p(4) l len obtain s' where
    s': "pbuf_cat (Some p) (Some t) s = Some s'" "net_ok ((E(p := 1, t := 1))(t := 0)) s'" "chain (pbufs s') (Some p) (xs @ ys)" "\<forall>x. x \<notin> set xs \<longrightarrow> pbufs s' x = pbufs s x"
      "\<forall>x. same_data (pbufs s) (pbufs s') x" "\<forall>x b. pbufs s x = Some b \<longrightarrow> (\<exists>b'. pbufs s' x = Some b' \<and> pb_ref b' = pb_ref b)" "same_rest s s'" by auto
  have E: "(E(p := 1, t := 1))(t := 0) = E(p := 1)" using p(3,4) by (auto simp: fun_eq_iff)
  obtain tb where tb: "pbufs s t = Some tb" using ys(1) by (cases ys) (auto simp: chain_Cons)
  have t: "t \<notin> set xs" using disj ys(1) by (cases ys) (auto simp: chain_Cons)
  have pos: "0 < (E(p := 1, t := 1)) p" "0 < (E(p := 1, t := 1)) t" using p(4) by simp_all
  obtain s'' b where "pbuf_cat (Some p) (Some t) s = Some s''" "pbufs s (last xs) = Some b"
    "\<And>x. pbufs s'' x = (if x \<in> set xs then map_option (\<lambda>b. b\<lparr>pb_tot_len := to_u16 (pb_tot_len b + pb_tot_len tb),
        pb_next := if x = last xs then Some t else pb_next b\<rparr>) (pbufs s x) else pbufs s x)"
    by (rule pbuf_cat_effect [OF p(1) pos xs(1) tb t]) blast
  then have eff: "\<And>x. pbufs s' x = (if x \<in> set xs then map_option (\<lambda>b. b\<lparr>pb_tot_len := to_u16 (pb_tot_len b + pb_tot_len tb),
        pb_next := if x = last xs then Some t else pb_next b\<rparr>) (pbufs s x) else pbufs s x)" using s'(1) by simp
  have "\<exists>c. pbufs s' x = Some c \<and> \<not> is_custom c \<and> (pb_type c = PBUF_POOL \<or> pb_type c = PBUF_RAM)" if "x \<in> set (xs @ ys)" for x
  proof -
    from that xs(2) ys(2) obtain c where "pbufs s x = Some c" "\<not> is_custom c" "pb_type c = PBUF_POOL \<or> pb_type c = PBUF_RAM" by (auto simp: own_memory_def)
    then show ?thesis using eff [of x] by (cases "x \<in> set xs"; cases "x = last xs") (auto simp: is_custom_def)
  qed
  then have "own_memory (pbufs s') (xs @ ys)" unfolding own_memory_def by blast
  moreover have "chain_data (pbufs s') (bytes s) (xs @ ys) = D @ X" using chain_data_cong [of "xs @ ys" "pbufs s" "pbufs s'" "bytes s"] s'(5) xs(3) ys(3) by simp
  moreover obtain a where "pbufs s p = Some a" using p(5) by (cases "pbufs s p") (auto simp: ref_of_def)
  then have "ref_of s' p = 1" using p(5) s'(6) by (fastforce simp: ref_of_def)
  ultimately show ?thesis using s'(1,2,3,4,7) pbuf_cat_memp [OF s'(1)] unfolding E by (auto simp: same_rest_def)
qed

text \<open>The packet \<open>p\<close> has the fragments so far; those in \<open>fs\<close> follow.\<close>

lemma frag_mem_agree:
  assumes "frag_mem s f" "\<And>x. x \<in> set (fr_pbufs f) \<Longrightarrow> pbufs s' x = pbufs s x" "bytes s' = bytes s"
  shows "frag_mem s' f"
proof -
  have "fr_p f \<in> set (fr_pbufs f)" using assms(1) by (auto simp: frag_mem_def fr_p_def)
  with assms(2) have "pbufs s' (fr_p f) = pbufs s (fr_p f)" by blast
  moreover note chain_agree [of "fr_pbufs f" "pbufs s'" "pbufs s" "Some (fr_p f)"] assms
  ultimately show ?thesis by (simp add: frag_mem_def ref_of_def plen_def)
qed

lemma queue_agree:
  "\<lbrakk>frag_queue s q fs; \<And>f. f \<in> set fs \<Longrightarrow> pbufs s' (fr_p f) = pbufs s (fr_p f); bytes s' = bytes s\<rbrakk> \<Longrightarrow> frag_queue s' q fs"
proof (induction fs arbitrary: q)
  case (Cons f fs)
  then obtain h where h: "q = Some (fr_p f)" "frag_hdr s f h" "frag_queue s (rh_next_pbuf (bytes s) h) fs" by auto
  moreover have "frag_hdr s' f h" using h(2) Cons.prems(2) [of f] Cons.prems(3) by (simp add: frag_hdr_def payload_of_def)
  ultimately show ?case using Cons.IH [OF h(3)] Cons.prems by auto
qed simp

lemma reass_cat_ok:
  "\<lbrakk>net_ok ((frag_refs E fs)(p := 1)) s; E p = 0; ref_of s p = 1; chain (pbufs s) (Some p) xs; own_memory (pbufs s) xs; chain_data (pbufs s) (bytes s) xs = D;
    distinct (xs @ concat (map fr_pbufs fs)); \<forall>f \<in> set fs. frag_mem s f \<and> E (fr_p f) = 0; frag_queue s r fs; length D + length (concat (map fr_data fs)) < 65536;
    \<forall>f \<in> set fs. IP_HLEN + length (fr_data f) < 65536\<rbrakk> \<Longrightarrow>
   \<exists>s'. reass_cat_loop p r s = Some s' \<and> packet E p (D @ concat (map fr_data fs)) s' \<and> chain (pbufs s') (Some p) (xs @ concat (map fr_pbufs fs))
     \<and> same_rest s s' \<and> net_memp s' = net_memp s"
proof (induction fs arbitrary: s xs D r)
  case Nil
  have "frag_refs E [] = E" by (simp add: frag_refs_def fun_eq_iff)
  with Nil have "packet E p D s" "r = None" by (auto intro: packetI simp del: fun_upd_apply)
  with Nil show ?case by (subst reass_cat_loop.simps) simp
next
  case (Cons f fs)
  let ?t = "fr_p f"
  obtain h where h: "r = Some ?t" "frag_hdr s f h" "frag_queue s (rh_next_pbuf (bytes s) h) fs" using Cons.prems(9) by auto
  have f: "frag_mem s f" "E ?t = 0" using Cons.prems(8) by simp_all
  have inv: "pbuf_inv s" using Cons.prems(1) by (simp add: net_ok_def)
  obtain ys where ys: "fr_pbufs f = ?t # ys" using frag_chain [OF f(1)] by blast
  obtain b where b: "pbufs s ?t = Some b" "pb_payload b = Some h" "20 \<le> pb_len b"
    using frag_payload [OF inv f(1)] h(2) by (metis frag_hdr_def option.inject)
  have ne: "fr_pbufs g \<noteq> []" "fr_p g \<in> set (fr_pbufs g)" if "g \<in> set (f # fs)" for g using Cons.prems(8) that by (auto simp: frag_mem_def fr_p_def)
  have "distinct (map fr_p (f # fs))" using Cons.prems(7) ne(1) by (intro distinct_fr_p) auto
  moreover have "p \<in> set xs" using Cons.prems(4) by (cases xs) (auto simp: chain_Cons)
  ultimately have pt: "p \<noteq> ?t" "?t \<notin> fr_p ` set fs" using Cons.prems(7) ne(2) [of f] by auto
  let ?X = "chain_data (pbufs s) (bytes s) (fr_pbufs f)"
  have X: "drop 20 ?X = fr_data f" using f(1) by (simp add: frag_mem_def)
  have "20 + length (fr_data f) < 65536" "length (fr_data f) = length ?X - 20" using Cons.prems(11) X length_drop [of 20 ?X] by (simp_all del: length_drop)
  then have X2: "length ?X < 65536" by linarith
  have E: "(frag_refs E (f # fs))(p := 1) = ((frag_refs E fs)(p := 1))(?t := 1)" using pt by (auto simp: frag_refs_def fun_eq_iff)
  have pk: "packet ((frag_refs E fs)(p := 1)) ?t ?X s"
    using Cons.prems(1) f pt unfolding E by (intro packetI) (auto simp: frag_mem_def frag_refs_def simp del: fun_upd_apply simp add: fun_upd_def)
  let ?b = "b\<lparr>pb_payload := Some (h + 20), pb_len := pb_len b - 20, pb_tot_len := pb_tot_len b - 20\<rparr>"
  let ?s = "put_pbuf ?t ?b s"
  have hide: "pbuf_header (Some ?t) (- int 20) s = Some (0, ?s)" "packet ((frag_refs E fs)(p := 1)) ?t (fr_data f) ?s"
    using packet_hide [OF pk X2 b(1,2), of 20] b(3) X by simp_all
  have out: "?t \<notin> set xs" "?t \<notin> set ys" "set xs \<inter> set (fr_pbufs f) = {}" "?t \<notin> \<Union> ((\<lambda>g. set (fr_pbufs g)) ` set fs)" using Cons.prems(7) ys by auto
  obtain zs where zs: "net_ok (((frag_refs E fs)(p := 1))(?t := 1)) ?s" "chain (pbufs ?s) (Some ?t) (?t # zs)" "own_memory (pbufs ?s) (?t # zs)"
    "chain_data (pbufs ?s) (bytes ?s) (?t # zs) = fr_data f" by (rule packetE [OF hide(2)])
  have "links (pbufs ?s) (Some ?t) (?t # ys)" using f(1) ys b(1) links_cong [of "pbufs s" "Some ?t" "?t # ys" "pbufs ?s"] by (auto simp: frag_mem_def chain_def)
  then have zs_eq: "?t # zs = fr_pbufs f" using zs(2) ys by (metis chain_def links_unique)
  have xs: "chain (pbufs ?s) (Some p) xs" "own_memory (pbufs ?s) xs" "chain_data (pbufs ?s) (bytes ?s) xs = D"
  proof -
    have eq: "pbufs ?s x = pbufs s x" if "x \<in> set xs" for x using that out(1) by auto
    note same = chain_agree [of xs "pbufs ?s" "pbufs s", OF _ Cons.prems(4)]
    show "chain (pbufs ?s) (Some p) xs" by (rule same(1)) (rule eq)
    show "own_memory (pbufs ?s) xs" by (rule same(2) [OF _ Cons.prems(5)]) (rule eq)
    have "chain_data (pbufs ?s) (bytes s) xs = chain_data (pbufs s) (bytes s) xs" by (rule same(5)) (rule eq)
    then show "chain_data (pbufs ?s) (bytes ?s) xs = D" using Cons.prems(6) by simp
  qed
  have "p \<notin> fr_p ` set fs" using \<open>p \<in> set xs\<close> Cons.prems(7) ne(2) by fastforce
  then have ref: "ref_of ?s p = 1" "frag_refs E fs p = 0" "frag_refs E fs ?t = 0" using Cons.prems(2,3) pt f(2) by (simp_all add: ref_of_def frag_refs_def)
  from packet_cat [OF zs(1) ref(2,3) pt(1) ref(1) xs zs(2-4)] out(3) Cons.prems(10) zs_eq obtain s1 where
    s1: "pbuf_cat (Some p) (Some ?t) ?s = Some s1" "net_ok ((frag_refs E fs)(p := 1)) s1" "ref_of s1 p = 1" "chain (pbufs s1) (Some p) (xs @ fr_pbufs f)"
      "own_memory (pbufs s1) (xs @ fr_pbufs f)" "chain_data (pbufs s1) (bytes s1) (xs @ fr_pbufs f) = D @ fr_data f" "\<forall>x. x \<notin> set xs \<longrightarrow> pbufs s1 x = pbufs ?s x"
      "same_rest ?s s1" "net_memp s1 = net_memp ?s" by auto
  have bytes: "bytes s1 = bytes s" using s1(8) by (simp add: same_rest_def)
  have rest: "pbufs s1 x = pbufs s x" if x: "x \<in> set (fr_pbufs g)" "g \<in> set fs" for x g
  proof -
    have "x \<notin> set xs" "x \<noteq> ?t" using x out(4) Cons.prems(7) by auto
    then show ?thesis using s1(7) by simp
  qed
  have mem: "\<forall>g \<in> set fs. frag_mem s1 g \<and> E (fr_p g) = 0" using Cons.prems(8) frag_mem_agree [OF _ rest bytes] by auto
  have q: "frag_queue s1 (rh_next_pbuf (bytes s1) h) fs" using queue_agree [OF h(3) _ bytes] rest ne(2) bytes by auto
  have "payload_of s ?t = Some h" using h(2) by (simp add: frag_hdr_def)
  then have step: "reass_cat_loop p r s = reass_cat_loop p (rh_next_pbuf (bytes s1) h) s1" using h(1) hide(1) s1(1) by (subst reass_cat_loop.simps) simp
  have "\<exists>s'. reass_cat_loop p (rh_next_pbuf (bytes s1) h) s1 = Some s' \<and> packet E p ((D @ fr_data f) @ concat (map fr_data fs)) s'
      \<and> chain (pbufs s') (Some p) ((xs @ fr_pbufs f) @ concat (map fr_pbufs fs)) \<and> same_rest s1 s' \<and> net_memp s' = net_memp s1"
    by (rule Cons.IH [OF s1(2) Cons.prems(2) s1(3-6) _ mem q]) (use Cons.prems(7,10,11) in auto)
  with s1(8,9) show ?case unfolding step by (auto simp: same_rest_def)
qed

section \<open>The list of datagrams\<close>

text \<open>The pools that have nothing to do with pbufs.\<close>

lemma memp_upd_holds [simp]: "holds (s\<lparr>net_memp := m\<rparr>) q p = holds s q p"
  by (simp add: holds_def split: option.splits)

lemma memp_upd_views [simp]:
  "pool_pbufs (s\<lparr>net_memp := m\<rparr>) = pool_pbufs s" "ref_pbufs (s\<lparr>net_memp := m\<rparr>) = ref_pbufs s" "ram_pbufs (s\<lparr>net_memp := m\<rparr>) = ram_pbufs s"
  "held (s\<lparr>net_memp := m\<rparr>) p = held s p" "ref_of (s\<lparr>net_memp := m\<rparr>) p = ref_of s p"
  by (simp_all add: pool_pbufs_def ref_pbufs_def ram_pbufs_def held_def ref_of_def)

lemma memp_upd_ok [simp]: "heap_ok (s\<lparr>net_memp := m\<rparr>) = heap_ok s" "refs_ok E (s\<lparr>net_memp := m\<rparr>) = refs_ok E s"
  by (simp_all add: heap_ok_def refs_ok_def)

lemma net_ok_other_pool:
  assumes "net_ok E s" "\<And>t B. t \<in> {6, 9, 10} \<Longrightarrow> memp_inv (net_pools s ! t) B (net_memp s) \<Longrightarrow> memp_inv (net_pools s ! t) B m"
  shows "net_ok E (s\<lparr>net_memp := m\<rparr>)"
  using assms by (simp add: net_ok_def pbuf_inv_def)

lemma packet_other_pool: "packet E p D s \<Longrightarrow> net_ok (E(p := 1)) (s\<lparr>net_memp := m\<rparr>) \<Longrightarrow> packet E p D (s\<lparr>net_memp := m\<rparr>)"
  by (auto simp: packet_def)

lemma reass_pool_free:
  assumes ok: "net_ok E s" and A: "memp_inv (net_pools s ! MEMP_REASSDATA) A (net_memp s)" "a \<in> A"
  obtains m where "memp_free (net_pools s) MEMP_REASSDATA (Some a) (net_memp s) = Some m" "memp_inv (net_pools s ! MEMP_REASSDATA) (A - {a}) m" "net_ok E (s\<lparr>net_memp := m\<rparr>)"
proof -
  have lay: "length (net_pools s) = 11" "pools_layout (net_pools s)" using ok by (simp_all add: net_ok_def pbuf_inv_def layout_ok_def)
  from memp.release_out [OF A] obtain m where m: "do_memp_free_pool (net_pools s ! 5) a (net_memp s) = Some m" "memp_inv (net_pools s ! 5) (A - {a}) m" by blast
  have "a \<in> set (pool_elems (net_pools s ! 5))" using A by (auto elim!: memp_invE)
  then have "memp_inv (net_pools s ! t) B m" if "t \<in> {6, 9, 10}" "memp_inv (net_pools s ! t) B (net_memp s)" for t B
    using that lay by (intro free_pool_other [OF m(1)] pools_layout_nth) auto
  with ok have "net_ok E (s\<lparr>net_memp := m\<rparr>)" by (intro net_ok_other_pool) blast+
  with that m lay(1) show ?thesis by (simp add: memp_free_def)
qed

definition reass_list :: "'v lwip \<Rightarrow> nat list \<Rightarrow> bool" where
  "reass_list st xs \<longleftrightarrow> linked rs_next (reass_at (get_reass st)) (reassdatagrams (get_reass st)) xs
     \<and> memp_inv (net_pools (bufs st) ! MEMP_REASSDATA) (set xs) (net_memp (bufs st))"

lemma reass_prev_eq: "\<lbrakk>linked rs_next (reass_at u) p (us @ a # vs); us \<noteq> []\<rbrakk> \<Longrightarrow> reass_prev u a p = Some (Some (last us))"
proof (induction us arbitrary: p)
  case (Cons x us)
  then obtain d where d: "p = Some x" "reass_at u x = Some d" "linked rs_next (reass_at u) (rs_next d) (us @ a # vs)" "x \<notin> set us" "x \<noteq> a" by (auto simp: linked_Cons)
  show ?case
  proof (cases us)
    case Nil
    with d show ?thesis by (subst reass_prev.simps) (auto simp: linked_Cons)
  next
    case (Cons y ys)
    with d have "rs_next d \<noteq> Some a" using linked_distinct [OF d(3)] by (auto simp: linked_Cons)
    with d Cons.IH [OF d(3)] Cons show ?thesis by (subst reass_prev.simps) auto
  qed
qed simp

lemma dequeue_ok:
  assumes l: "reass_list st (us @ a # vs)" and ok: "net_ok E (bufs st)"
  shows "\<exists>st' m. ip_reass_dequeue_datagram a (if us = [] then None else Some (last us)) st = Some st' \<and> reass_list st' (us @ vs)
    \<and> bufs st' = (bufs st)\<lparr>net_memp := m\<rparr> \<and> net_ok E (bufs st') \<and> ifs st' = ifs st \<and> ip_data st' = ip_data st \<and> dev (rest st') = dev (rest st)
    \<and> ip_reass_pbufcount (get_reass st') = ip_reass_pbufcount (get_reass st)"
proof -
  have lk: "linked rs_next (reass_at (get_reass st)) (reassdatagrams (get_reass st)) (us @ a # vs)"
    and A: "memp_inv (net_pools (bufs st) ! 5) (set (us @ a # vs)) (net_memp (bufs st))" using l by (simp_all add: reass_list_def)
  obtain m where m: "memp_free (net_pools (bufs st)) 5 (Some a) (net_memp (bufs st)) = Some m" "memp_inv (net_pools (bufs st) ! 5) (set (us @ a # vs) - {a}) m"
    "net_ok E ((bufs st)\<lparr>net_memp := m\<rparr>)" by (rule reass_pool_free [OF ok A]) auto
  have dist: "a \<notin> set us" "a \<notin> set vs" using linked_distinct [OF lk] by auto
  then have sets: "set (us @ a # vs) - {a} = set (us @ vs)" by auto
  obtain d where d: "reass_at (get_reass st) a = Some d" using linked_dom [OF lk, of a] by auto
  show ?thesis
  proof (cases "us = []")
    case True
    then have "reassdatagrams (get_reass st) = Some a" "linked rs_next (reass_at (get_reass st)) (rs_next d) vs" using lk d by (auto simp: linked_Cons)
    then show ?thesis using True d m sets dist by (auto simp: ip_reass_dequeue_datagram_def reass_list_def)
  next
    case False
    then obtain ws t where ws: "us = ws @ [t]" by (cases us rule: rev_cases) auto
    obtain e where e: "reass_at (get_reass st) t = Some e" using linked_dom [OF lk, of t] ws by auto
    have "reassdatagrams (get_reass st) \<noteq> Some a" using lk dist(1) ws by (cases ws) (auto simp: linked_Cons)
    moreover have "linked rs_next ((reass_at (get_reass st))(t \<mapsto> e\<lparr>rs_next := rs_next d\<rparr>)) (reassdatagrams (get_reass st)) (ws @ t # vs)"
      using linked_unlink [of rs_next _ _ ws t a vs d e "e\<lparr>rs_next := rs_next d\<rparr>"] lk d e ws by simp
    ultimately show ?thesis using False d e m sets dist ws by (auto simp: ip_reass_dequeue_datagram_def reass_list_def on_reass_upd)
  qed
qed

section \<open>Headers\<close>

text \<open>The header of a fragment, with the checksum \<open>c\<close> and the field \<open>off\<close> of the flags and the offset.\<close>

definition ip4_frag_header :: "u16 \<Rightarrow> u32 \<Rightarrow> u32 \<Rightarrow> u8 \<Rightarrow> u8 \<Rightarrow> u8 \<Rightarrow> u16 \<Rightarrow> u16 \<Rightarrow> u16 \<Rightarrow> u8 list" where
  "ip4_frag_header c src dest tt ts proto len ident off =
     [0x45, ts] @ net16 len @ net16 ident @ net16 off @ [tt, proto] @ mem16 c @ mem32 src @ mem32 dest"

lemma length_frag_header [simp]: "length (ip4_frag_header c src dest tt ts proto len ident off) = 20"
  by (simp add: ip4_frag_header_def net16_def mem16_def mem32_def)

lemma frag_header_fields:
  assumes "rd M h IP_HLEN = ip4_frag_header c src dest tt ts proto len ident off"
  shows "IPH_HL M h = 5" "lwip_htons (IPH_LEN M h) = len" "lwip_htons (IPH_OFFSET M h) = off" "lwip_htons (IPH_ID M h) = ident" "iph_src M h = src" "iph_dest M h = dest"
proof -
  have at: "M (h + i) = ip4_frag_header c src dest tt ts proto len ident off ! i" if "i < 20" for i by (rule rd_nth [OF assms that])
  note nth = ip4_frag_header_def net16_def mem16_def mem32_def
  have v: "M h = 0x45" using at [of 0] by (simp add: nth)
  show "IPH_HL M h = 5" by (simp add: IPH_HL_def v)
  have hb: "M (h + 2) = ucast (drop_bit 8 len)" "M (h + 3) = ucast len" "M (h + 4) = ucast (drop_bit 8 ident)" "M (h + 5) = ucast ident"
    "M (h + 6) = ucast (drop_bit 8 off)" "M (h + 7) = ucast off" using at [of 2] at [of 3] at [of 4] at [of 5] at [of 6] at [of 7] by (simp_all add: nth)
  have "get16 M (h + 2) = load16 (M (h + 2)) (M (h + 3))" "get16 M (h + 4) = load16 (M (h + 4)) (M (h + 5))" "get16 M (h + 6) = load16 (M (h + 6)) (M (h + 7))"
    by (simp_all add: get16_def numeral_3_eq_3 ac_simps)
  note get = this [unfolded hb load_net16]
  show "lwip_htons (IPH_LEN M h) = len" "lwip_htons (IPH_OFFSET M h) = off" "lwip_htons (IPH_ID M h) = ident"
    unfolding IPH_LEN_def IPH_OFFSET_def IPH_ID_def get lwip_htons_invol by (rule refl)+
  show "iph_src M h = src" "iph_dest M h = dest"
    using at [of 12] at [of 13] at [of 14] at [of 15] at [of 16] at [of 17] at [of 18] at [of 19]
    by (simp_all add: iph_src_def iph_dest_def get32_def nth ac_simps)
qed

lemma reass_write_hdr_eq:
  assumes H: "H = ip4_frag_header c src dest tt ts proto len ident off"
  shows "reass_write_hdr h H n M = wr M h (ip4_datagram_header src dest tt ts proto n ident)"
proof -
  let ?k = "inet_checksum_of (ip4_header 0 src dest tt ts proto n ident)"
  define M1 where "M1 = put16 (h + 10) 0 (put16 (h + 6) 0 (put16 (h + 2) (lwip_htons n) (wr M h H)))"
  note nth = ip4_datagram_header_def ip4_header_def ip4_frag_header_def net16_def mem16_def mem32_def
  have n: "mem16 (lwip_htons n) = net16 n" by (rule mem16_htons)
  have "rd M1 h 20 = ip4_header 0 src dest tt ts proto n ident"
  proof (rule nth_equalityI)
    fix i assume "i < length (rd M1 h 20)"
    then have i: "i \<in> set [0..<20]" by simp
    have "list_all (\<lambda>i. M1 (h + i) = ip4_header 0 src dest tt ts proto n ident ! i) [0..<20]"
      unfolding M1_def H put16_def n by (simp add: wr_def nth upt_rec)
    with i show "rd M1 h 20 ! i = ip4_header 0 src dest tt ts proto n ident ! i" unfolding list_all_iff by simp
  qed simp
  then have "inet_chksum (of_nat h) (rd M1 h 20) = ?k" by (simp add: inet_chksum_eq)
  then have "reass_write_hdr h H n M = put16 (h + 10) ?k M1" unfolding reass_write_hdr_def Let_def M1_def [symmetric] by simp
  also have "\<dots> = wr M h (ip4_datagram_header src dest tt ts proto n ident)"
    unfolding M1_def H put16_def n by (rule eq_wrI) (auto simp: wr_def nth upt_rec)
  finally show ?thesis .
qed

section \<open>The complete datagram\<close>

lemma frag_with_header:
  assumes ok: "frags_ok E (f # fs) s" and q: "frag_queue s r fs" and h: "payload_of s (fr_p f) = Some h" and H: "length H = 20"
  defines "s' \<equiv> s\<lparr>bytes := wr (bytes s) h H\<rparr>"
  shows "frags_ok E (f # fs) s'" "frag_queue s' r fs" "chain_data (pbufs s') (bytes s') (fr_pbufs f) = H @ fr_data f"
proof -
  have f_out: "f \<notin> set fs" using ok frags_okD(1) [OF ok, of f] by (cases "fr_pbufs f") (auto simp: frags_ok_def frag_mem_def)
  have s': "s' = s\<lparr>bytes := wr (bytes s) (h + 0) H\<rparr>" by (simp add: s'_def)
  show ok': "frags_ok E (f # fs) s'" unfolding s' using H by (intro frags_write [OF ok _ h]) simp_all
  show "frag_queue s' r fs" unfolding s' using H f_out by (intro queue_other_write [OF ok _ h _ q]) auto
  have f: "frag_mem s' f" using frags_okD(1) [OF ok'] by simp
  obtain ys where ys: "fr_pbufs f = fr_p f # ys" using frag_chain [OF f] by blast
  obtain b where b: "pbufs s' (fr_p f) = Some b" "pb_payload b = Some h" "20 \<le> pb_len b"
    using frag_payload [OF frags_okD(2) [OF ok'] f] h by (metis option.inject payload_of_bytes s'_def)
  have "take 20 (chain_data (pbufs s') (bytes s') (fr_pbufs f)) = rd (bytes s') h 20" using ys b by (simp add: pbytes_eq min_absorb1)
  also have "\<dots> = H" using H rd_wr [of "bytes s" h H] by (simp add: s'_def)
  finally show "chain_data (pbufs s') (bytes s') (fr_pbufs f) = H @ fr_data f" using f append_take_drop_id [of 20] by (metis frag_mem_def)
qed

lemma reass_complete_ok:
  assumes l: "reass_list st (xs @ ipr # ys)" and d: "reass_at (get_reass st) ipr = Some d" and q: "frag_queue (bufs st) (rs_p d) (f # fs)" and ok: "frags_ok E (f # fs) (bufs st)"
    and len: "20 + length (concat (map fr_data (f # fs))) < 65536" "length (concat (map fr_pbufs (f # fs))) < 65536"
    and H: "rs_iphdr d = ip4_frag_header c src dest tt ts proto l0 ident off"
  shows "\<exists>st'. reass_complete ipr st = Some (Some (fr_p f), st')
    \<and> packet E (fr_p f) (ip4_datagram_header src dest tt ts proto (rs_datagram_len d + 20) ident @ concat (map fr_data (f # fs))) (bufs st') \<and> reass_list st' (xs @ ys)
    \<and> ip_reass_pbufcount (get_reass st') = ip_reass_pbufcount (get_reass st) - of_nat (length (concat (map fr_pbufs (f # fs))))
    \<and> ifs st' = ifs st \<and> ip_data st' = ip_data st \<and> dev (rest st') = dev (rest st)"
proof -
  let ?d = "d\<lparr>rs_datagram_len := rs_datagram_len d + 20\<rparr>" and ?p = "fr_p f"
  let ?st1 = "on_reass (\<lambda>u. u\<lparr>reass_at := (reass_at u)(ipr \<mapsto> ?d)\<rparr>) st"
  let ?hd = "ip4_datagram_header src dest tt ts proto (rs_datagram_len d + 20) ident"
  obtain h where h: "rs_p d = Some ?p" "payload_of (bufs st) ?p = Some h" "frag_queue (bufs st) (rh_next_pbuf (bytes (bufs st)) h) fs"
    using q by (auto simp: frag_hdr_def)
  let ?s2 = "(bufs st)\<lparr>bytes := wr (bytes (bufs st)) h ?hd\<rparr>" and ?r = "rh_next_pbuf (bytes (bufs st)) h"
  have s2: "frags_ok E (f # fs) ?s2" "frag_queue ?s2 ?r fs" "chain_data (pbufs ?s2) (bytes ?s2) (fr_pbufs f) = ?hd @ fr_data f"
    by (rule frag_with_header [OF ok h(3,2)], simp)+
  have f: "frag_mem ?s2 f" "E ?p = 0" using s2(1) by (simp_all add: frags_ok_def)
  have E: "frag_refs E (f # fs) = (frag_refs E fs)(?p := 1)" by (auto simp: frag_refs_def fun_eq_iff)
  have "\<exists>s'. reass_cat_loop ?p ?r ?s2 = Some s' \<and> packet E ?p ((?hd @ fr_data f) @ concat (map fr_data fs)) s'
      \<and> chain (pbufs s') (Some ?p) (fr_pbufs f @ concat (map fr_pbufs fs)) \<and> same_rest ?s2 s' \<and> net_memp s' = net_memp ?s2"
  proof (rule reass_cat_ok [of E fs ?p ?s2 "fr_pbufs f" "?hd @ fr_data f" ?r])
    show "\<forall>g \<in> set fs. 20 + length (fr_data g) < 65536"
    proof
      fix g assume "g \<in> set fs"
      then have "length (fr_data g) \<le> length (concat (map fr_data fs))" by (induction fs) auto
      with len(1) show "20 + length (fr_data g) < 65536" by simp
    qed
    show "net_ok ((frag_refs E fs)(?p := 1)) ?s2" using s2(1) unfolding frags_ok_def E by blast
  qed (use s2 f len(1) in \<open>auto simp: frags_ok_def frag_mem_def\<close>)
  then obtain s3 where s3: "reass_cat_loop ?p ?r ?s2 = Some s3" "packet E ?p (?hd @ concat (map fr_data (f # fs))) s3"
    "chain (pbufs s3) (Some ?p) (concat (map fr_pbufs (f # fs)))" "same_rest ?s2 s3" "net_memp s3 = net_memp (bufs st)" by auto
  let ?st3 = "?st1\<lparr>bufs := s3\<rparr>"
  have "net_pools s3 = net_pools (bufs st)" using s3(4) by (simp add: same_rest_def)
  then have l3: "reass_list ?st3 (xs @ ipr # ys)" using l d s3(5) by (simp add: reass_list_def linked_upd_same)
  have prev: "(if reassdatagrams (get_reass ?st3) = Some ipr then Some None else reass_prev (get_reass ?st3) ipr (reassdatagrams (get_reass ?st3)))
      = Some (if xs = [] then None else Some (last xs))"
  proof -
    have lk: "linked rs_next (reass_at (get_reass ?st3)) (reassdatagrams (get_reass ?st3)) (xs @ ipr # ys)" using l3 by (simp add: reass_list_def)
    then have "reassdatagrams (get_reass ?st3) = Some ipr \<longleftrightarrow> xs = []" using linked_distinct [OF lk] by (cases xs) (auto simp: linked_Cons)
    with reass_prev_eq [OF lk] show ?thesis by simp
  qed
  have "net_ok (E(?p := 1)) (bufs ?st3)" using s3(2) by (simp add: packet_def)
  from dequeue_ok [OF l3 this] obtain st4 m where
    st4: "ip_reass_dequeue_datagram ipr (if xs = [] then None else Some (last xs)) ?st3 = Some st4" "reass_list st4 (xs @ ys)" "bufs st4 = s3\<lparr>net_memp := m\<rparr>"
      "net_ok (E(?p := 1)) (bufs st4)" "ifs st4 = ifs st" "ip_data st4 = ip_data st" "dev (rest st4) = dev (rest st)"
      "ip_reass_pbufcount (get_reass st4) = ip_reass_pbufcount (get_reass st)" by auto
  have clen: "pbuf_clen (Some ?p) (bufs st4) = Some (length (concat (map fr_pbufs (f # fs))))"
    using s3(3) st4(3) len(2) by (intro pbuf_clen_eq) (simp_all add: chain_def)
  have "packet E ?p (?hd @ concat (map fr_data (f # fs))) (bufs st4)" using packet_other_pool [OF s3(2)] st4(3,4) by simp
  moreover have "reass_complete ipr st = Some (Some ?p, on_reass (\<lambda>u. u\<lparr>ip_reass_pbufcount := ip_reass_pbufcount u - of_nat (length (concat (map fr_pbufs (f # fs))))\<rparr>) st4)"
    using d h(1,2) s3(1) prev st4(1) clen
    by (simp add: reass_complete_def on_reass_upd on_bytes_eq reass_write_hdr_eq [OF H] del: concat.simps list.map)
  ultimately show ?thesis using st4(2,5-8) by (auto simp: reass_list_def)
qed

section \<open>A fragment arrives\<close>

definition frag_off :: "frag \<Rightarrow> bool \<Rightarrow> u16" where
  "frag_off f mf = of_nat (fr_start f div 8) OR (if mf then 0x2000 else 0)"

lemma flag_bits: "(0x2000 :: u16) = 2 ^ 13" "(0x20 :: u32) = 2 ^ 5" "(0x1FFF :: u16) = mask 13"
  by (simp_all add: mask_eq_exp_minus_1)

lemma frag_off_fields:
  assumes "fr_start f < 65536" "8 dvd fr_start f"
  shows "(frag_off f mf AND ucast IP_OFFMASK) * 8 = of_nat (fr_start f)" "frag_off f mf AND 0x2000 = 0 \<longleftrightarrow> \<not> mf"
proof -
  define w :: u16 where "w = of_nat (fr_start f div 8)"
  have n: "fr_start f div 8 < 2 ^ 13" "fr_start f div 8 * 8 = fr_start f" using assms by (auto simp: dvd_div_mult_self)
  then have "unat w < 2 ^ 13" by (simp add: w_def unat_of_nat)
  then have "take_bit 13 w = w" by (simp add: word_unat_eq_iff unat_take_bit_word)
  then have b: "bit w k \<Longrightarrow> k < 13" for k by (metis bit_take_bit_iff)
  have bf: "bit (frag_off f mf) k \<longleftrightarrow> bit w k \<or> mf \<and> k = 13" for k
    unfolding frag_off_def flag_bits(1) w_def [symmetric] by (cases mf) (simp_all only: if_True if_False or.right_neutral bit_or_iff bit_exp_iff, auto simp: bit_imp_le_length)
  show "frag_off f mf AND 0x2000 = 0 \<longleftrightarrow> \<not> mf" unfolding flag_bits(1) and_exp_eq_0_iff_not_bit bf using b [of 13] by auto
  have "frag_off f mf AND mask 13 = w" by (rule bit_word_eqI) (use b in \<open>auto simp: bit_simps bf\<close>)
  then have "(frag_off f mf AND ucast IP_OFFMASK) * 8 = w * 8" by (simp add: flag_bits(3))
  also have "\<dots> = of_nat (fr_start f div 8 * 8)" by (simp add: w_def)
  finally show "(frag_off f mf AND ucast IP_OFFMASK) * 8 = of_nat (fr_start f)" unfolding n(2) .
qed

lemma more_flag: "(ucast w :: u32) AND PP_HTONS IP_MF = 0 \<longleftrightarrow> lwip_htons w AND 0x2000 = 0"
proof -
  have "PP_HTONS IP_MF = 0x20" by (simp add: PP_HTONS_def)
  then have "(ucast w :: u32) AND PP_HTONS IP_MF = 0 \<longleftrightarrow> \<not> bit w 5" unfolding flag_bits(2) by (simp only: and_exp_eq_0_iff_not_bit) (simp add: bit_simps)
  also have "bit w 5 \<longleftrightarrow> bit (lwip_htons w) 13"
  proof -
    have "(0x00FF :: u32) = mask 8" "(0xFF00 :: u32) = push_bit 8 (mask 8)" by (simp_all add: mask_eq_exp_minus_1 push_bit_eq_mult)
    then show ?thesis by (simp add: lwip_htons_def PP_HTONS_def) (simp add: bit_simps)
  qed
  also have "\<not> bit (lwip_htons w) 13 \<longleftrightarrow> lwip_htons w AND 0x2000 = 0" unfolding flag_bits(1) by (simp only: and_exp_eq_0_iff_not_bit)
  finally show ?thesis .
qed

text \<open>A fragment with its header, and the entry of its datagram on the list.\<close>

definition fragment_at :: "net \<Rightarrow> frag \<Rightarrow> u32 \<Rightarrow> u32 \<Rightarrow> u8 \<Rightarrow> u8 \<Rightarrow> u8 \<Rightarrow> u16 \<Rightarrow> bool \<Rightarrow> bool" where
  "fragment_at s f src dest tt ts proto ident mf \<longleftrightarrow> 8 dvd fr_start f \<and> fr_end f < 65536 \<and> (\<exists>h c. payload_of s (fr_p f) = Some h
     \<and> rd (bytes s) h IP_HLEN = ip4_frag_header c src dest tt ts proto (of_nat (IP_HLEN + length (fr_data f))) ident (frag_off f mf))"

definition header_of :: "u8 list \<Rightarrow> u32 \<Rightarrow> u32 \<Rightarrow> u16 \<Rightarrow> bool" where
  "header_of A src dest ident \<longleftrightarrow> iph_src (nth A) 0 = src \<and> iph_dest (nth A) 0 = dest \<and> lwip_htons (IPH_ID (nth A) 0) = ident"

definition reass_entry :: "'v lwip \<Rightarrow> nat list \<Rightarrow> nat \<Rightarrow> nat list \<Rightarrow> ip_reassdata \<Rightarrow> u32 \<Rightarrow> u32 \<Rightarrow> u8 \<Rightarrow> u8 \<Rightarrow> u8 \<Rightarrow> u16 \<Rightarrow> bool" where
  "reass_entry st xs a ys d src dest tt ts proto ident \<longleftrightarrow> reass_list st (xs @ a # ys) \<and> reass_at (get_reass st) a = Some d
     \<and> (\<exists>c l off. rs_iphdr d = ip4_frag_header c src dest tt ts proto l ident off)
     \<and> (\<forall>x \<in> set xs. \<exists>e. reass_at (get_reass st) x = Some e \<and> \<not> header_of (rs_iphdr e) src dest ident)"

lemma rd_list: "length A = n \<Longrightarrow> rd (nth A) 0 n = A"
  by (auto simp: rd_def map_nth)

lemma header_match:
  assumes "rd M h IP_HLEN = ip4_frag_header c src dest tt ts proto l ident off"
  shows "IP_ADDRESSES_AND_ID_MATCH A M h \<longleftrightarrow> header_of A src dest ident"
proof -
  have "IPH_ID (nth A) 0 = IPH_ID M h \<longleftrightarrow> lwip_htons (IPH_ID (nth A) 0) = ident" using frag_header_fields(4) [OF assms] lwip_htons_invol by metis
  then show ?thesis using frag_header_fields(5,6) [OF assms] by (auto simp: IP_ADDRESSES_AND_ID_MATCH_def header_of_def)
qed

lemma header_of_frag: "header_of (ip4_frag_header c src dest tt ts proto l ident off) src dest ident"
  using frag_header_fields [of "nth (ip4_frag_header c src dest tt ts proto l ident off)" 0] rd_list [of "ip4_frag_header c src dest tt ts proto l ident off" 20]
  by (auto simp: header_of_def)

lemma reass_find_eq:
  "\<lbrakk>linked rs_next (reass_at u) p (xs @ a # ys); \<forall>x \<in> set xs. \<exists>e. reass_at u x = Some e \<and> \<not> IP_ADDRESSES_AND_ID_MATCH (rs_iphdr e) M h;
    reass_at u a = Some d; IP_ADDRESSES_AND_ID_MATCH (rs_iphdr d) M h\<rbrakk> \<Longrightarrow> reass_find u M p h = Some (Some a)"
proof (induction xs arbitrary: p)
  case Nil
  then show ?case by (subst reass_find.simps) (auto simp: linked_Cons)
next
  case (Cons x xs)
  then obtain e where e: "p = Some x" "reass_at u x = Some e" "linked rs_next (reass_at u) (rs_next e) (xs @ a # ys)" by (auto simp: linked_Cons)
  with Cons.IH [OF e(3)] Cons.prems(2-4) show ?case by (subst reass_find.simps) auto
qed

lemma reass_entry_upd:
  assumes "reass_entry st xs a ys d src dest tt ts proto ident" "rs_next d' = rs_next d" "\<exists>c l off. rs_iphdr d' = ip4_frag_header c src dest tt ts proto l ident off"
    and "reass_at (get_reass st') = (reass_at (get_reass st))(a \<mapsto> d')" "reassdatagrams (get_reass st') = reassdatagrams (get_reass st)" "bufs st' = bufs st"
  shows "reass_entry st' xs a ys d' src dest tt ts proto ident"
proof -
  have l: "linked rs_next (reass_at (get_reass st)) (reassdatagrams (get_reass st)) (xs @ a # ys)" "reass_at (get_reass st) a = Some d"
    using assms(1) by (simp_all add: reass_entry_def reass_list_def)
  have "a \<notin> set xs" using linked_distinct [OF l(1)] by simp
  then show ?thesis using assms linked_upd_same [OF l assms(2)] by (simp add: reass_entry_def reass_list_def)
qed

text \<open>The second half of the function, for a new datagram and for one that is on the list already.\<close>

lemma reass_add_step:
  assumes f: "fragment_at (bufs st) f src dest tt ts proto ident mf" and e: "reass_entry st xs a ys d src dest tt ts proto ident"
    and h: "payload_of (bufs st) (fr_p f) = Some h"
  defines "M \<equiv> bytes (bufs st)"
  shows "frag_header M h f" and "\<exists>st1 d1. reass_add a (fr_p f) h ((lwip_htons (IPH_OFFSET M h) AND ucast IP_OFFMASK) * 8) (lwip_htons (IPH_LEN M h) - ucast (IPH_HL M h) * 4) n st
        = Option.bind (ip_reass_chain_frag_into_datagram_and_validate a (fr_p f) st1) (\<lambda>(complete, st'). if complete then reass_complete a st' else Some (None, st'))
    \<and> bufs st1 = bufs st \<and> reass_entry st1 xs a ys d1 src dest tt ts proto ident \<and> rs_p d1 = rs_p d
    \<and> rs_flags d1 = (if mf then rs_flags d else rs_flags d OR 1) \<and> rs_datagram_len d1 = (if mf then rs_datagram_len d else of_nat (fr_end f))
    \<and> ip_reass_pbufcount (get_reass st1) = ip_reass_pbufcount (get_reass st) + of_nat n
    \<and> ifs st1 = ifs st \<and> ip_data st1 = ip_data st \<and> dev (rest st1) = dev (rest st)"
proof -
  obtain c where hd: "rd M h 20 = ip4_frag_header c src dest tt ts proto (of_nat (20 + length (fr_data f))) ident (frag_off f mf)" using f h by (auto simp: fragment_at_def M_def)
  have "fr_start f < 65536" "8 dvd fr_start f" using f by (simp_all add: fragment_at_def fr_end_def)
  note off = frag_off_fields [OF this, of mf]
  note fields = frag_header_fields [OF hd]
  show "frag_header M h f" using fields off(1) f by (simp add: frag_header_def fragment_at_def)
  define d1 where "d1 = (if mf then d else d\<lparr>rs_flags := rs_flags d OR 1, rs_datagram_len := of_nat (fr_end f)\<rparr>)"
  have d1: "rs_next d1 = rs_next d" "rs_p d1 = rs_p d" "rs_flags d1 = (if mf then rs_flags d else rs_flags d OR 1)"
    "rs_datagram_len d1 = (if mf then rs_datagram_len d else of_nat (fr_end f))" "\<exists>c l off. rs_iphdr d1 = ip4_frag_header c src dest tt ts proto l ident off"
    using e by (auto simp: d1_def reass_entry_def)
  have da: "reass_at (get_reass st) a = Some d" using e by (simp add: reass_entry_def)
  let ?o = "(lwip_htons (IPH_OFFSET M h) AND ucast IP_OFFMASK) * 8" and ?l = "lwip_htons (IPH_LEN M h) - ucast (IPH_HL M h) * 4"
  let ?st1 = "on_reass (\<lambda>u. u\<lparr>reass_at := (reass_at u)(a \<mapsto> d1), ip_reass_pbufcount := ip_reass_pbufcount u + of_nat n\<rparr>) st"
  let ?Y = "on_reass (\<lambda>u. u\<lparr>ip_reass_pbufcount := ip_reass_pbufcount u + of_nat n\<rparr>) st"
  have sum: "?o + ?l = of_nat (fr_end f)" using fields off(1) by (simp add: fr_end_def)
  have flag: "(if (ucast (IPH_OFFSET M h) :: u32) AND PP_HTONS IP_MF = 0
      then upd_reass a (\<lambda>d. d\<lparr>rs_flags := rs_flags d OR 1, rs_datagram_len := ?o + ?l\<rparr>) ?Y else Some ?Y) = Some ?st1"
    unfolding sum unfolding more_flag fields(3) off(2) using da by (cases mf) (auto simp: upd_reass_def d1_def fun_upd_idem intro!: on_reass_cong)
  have "reass_add a (fr_p f) h ?o ?l n st = Option.bind (ip_reass_chain_frag_into_datagram_and_validate a (fr_p f) ?st1)
        (\<lambda>(complete, st'). if complete then reass_complete a st' else Some (None, st'))"
    unfolding reass_add_def Let_def M_def [symmetric] by (simp only: flag Option.bind.simps(2))
  with d1 show "\<exists>st1 d1. reass_add a (fr_p f) h ?o ?l n st
        = Option.bind (ip_reass_chain_frag_into_datagram_and_validate a (fr_p f) st1) (\<lambda>(complete, st'). if complete then reass_complete a st' else Some (None, st'))
    \<and> bufs st1 = bufs st \<and> reass_entry st1 xs a ys d1 src dest tt ts proto ident \<and> rs_p d1 = rs_p d
    \<and> rs_flags d1 = (if mf then rs_flags d else rs_flags d OR 1) \<and> rs_datagram_len d1 = (if mf then rs_datagram_len d else of_nat (fr_end f))
    \<and> ip_reass_pbufcount (get_reass st1) = ip_reass_pbufcount (get_reass st) + of_nat n
    \<and> ifs st1 = ifs st \<and> ip_data st1 = ip_data st \<and> dev (rest st1) = dev (rest st)"
    using reass_entry_upd [OF e d1(1,5), of ?st1] by (intro exI [of _ ?st1] exI [of _ d1]) simp
qed

lemma ip4_reass_step:
  assumes ok: "frags_ok E (f # fs) (bufs st)" and f: "fragment_at (bufs st) f src dest tt ts proto ident mf"
    and e: "reass_entry st xs a ys d src dest tt ts proto ident" and n: "unat (ip_reass_pbufcount (get_reass st)) + length (fr_pbufs f) \<le> IP_REASS_MAX_PBUFS"
  shows "\<exists>st1 d1 h. ip4_reass env (fr_p f) st = Option.bind (ip_reass_chain_frag_into_datagram_and_validate a (fr_p f) st1)
        (\<lambda>(complete, st'). if complete then reass_complete a st' else Some (None, st'))
    \<and> bufs st1 = bufs st \<and> reass_entry st1 xs a ys d1 src dest tt ts proto ident \<and> rs_p d1 = rs_p d
    \<and> rs_flags d1 = (if mf then rs_flags d else rs_flags d OR 1) \<and> rs_datagram_len d1 = (if mf then rs_datagram_len d else of_nat (fr_end f))
    \<and> ip_reass_pbufcount (get_reass st1) = ip_reass_pbufcount (get_reass st) + of_nat (length (fr_pbufs f))
    \<and> ifs st1 = ifs st \<and> ip_data st1 = ip_data st \<and> dev (rest st1) = dev (rest st) \<and> payload_of (bufs st) (fr_p f) = Some h \<and> frag_header (bytes (bufs st)) h f"
proof -
  let ?M = "bytes (bufs st)" and ?u = "get_reass st" and ?n = "length (fr_pbufs f)"
  obtain h c where h: "payload_of (bufs st) (fr_p f) = Some h"
    "rd ?M h 20 = ip4_frag_header c src dest tt ts proto (of_nat (20 + length (fr_data f))) ident (frag_off f mf)" using f by (auto simp: fragment_at_def)
  note fields = frag_header_fields [OF h(2)]
  have fm: "frag_mem (bufs st) f" by (rule frags_okD(1) [OF ok]) simp
  have clen: "pbuf_clen (Some (fr_p f)) (bufs st) = Some ?n" using fm n by (intro pbuf_clen_eq) (simp_all add: frag_mem_def chain_def)
  have find: "reass_find (?u\<lparr>frag_stats := t\<rparr>) ?M (reassdatagrams ?u) h = Some (Some a)" for t
    using e unfolding reass_entry_def reass_list_def
    by (intro reass_find_eq [of _ _ xs a ys _ _ d]) (auto simp: header_match [OF h(2)] header_of_frag)
  let ?c = "lwip_htons (IPH_OFFSET ?M h) AND ucast IP_OFFMASK = 0 \<and> lwip_htons (IPH_OFFSET (nth (rs_iphdr d)) 0) AND ucast IP_OFFMASK \<noteq> 0"
  define d0 where "d0 = (if ?c then d\<lparr>rs_iphdr := rd ?M h 20\<rparr> else d)"
  have d0: "rs_next d0 = rs_next d" "rs_p d0 = rs_p d" "rs_flags d0 = rs_flags d" "rs_datagram_len d0 = rs_datagram_len d"
    "\<exists>c l off. rs_iphdr d0 = ip4_frag_header c src dest tt ts proto l ident off" using e h(2) by (auto simp: d0_def reass_entry_def)
  have da: "reass_at ?u a = Some d" using e by (simp add: reass_entry_def)
  define T where "T t = t\<lparr>ps_recv := ps_recv t + 1, ps_cachehit := ps_cachehit t + 1\<rparr>" for t :: stats_proto
  let ?o = "(lwip_htons (IPH_OFFSET ?M h) AND ucast IP_OFFMASK) * 8" and ?l = "lwip_htons (IPH_LEN ?M h) - ucast (IPH_HL ?M h) * 4"
  let ?st0 = "on_reass (\<lambda>u. u\<lparr>reass_at := (reass_at u)(a \<mapsto> d0), frag_stats := T (frag_stats u)\<rparr>) st"
  have upd: "upd_reass a (\<lambda>d. d\<lparr>rs_iphdr := rd ?M h 20\<rparr>) (on_reass (\<lambda>u. u\<lparr>frag_stats := T (frag_stats u)\<rparr>) st) = Some ?st0" if ?c
    using that da by (auto simp: upd_reass_def d0_def intro!: on_reass_cong)
  have same: "on_reass (\<lambda>u. u\<lparr>frag_stats := T (frag_stats u)\<rparr>) st = ?st0" if "\<not> ?c"
    using that da by (intro on_reass_cong) (auto simp: d0_def fun_upd_idem)
  have start: "ip4_reass env (fr_p f) st = Option.bind (if ?c then upd_reass a (\<lambda>d. d\<lparr>rs_iphdr := rd ?M h 20\<rparr>) (on_reass (\<lambda>u. u\<lparr>frag_stats := T (frag_stats u)\<rparr>) st)
      else Some (on_reass (\<lambda>u. u\<lparr>frag_stats := T (frag_stats u)\<rparr>) st)) (reass_add a (fr_p f) h ?o ?l ?n)"
    using h(1) clen n find da fields(1) by (simp add: ip4_reass_def on_frag_stats_def T_def Let_def)
  have eq: "ip4_reass env (fr_p f) st = reass_add a (fr_p f) h ?o ?l ?n ?st0"
  proof (cases ?c)
    case True
    show ?thesis unfolding start if_P [OF True] upd [OF True] by simp
  next
    case False
    show ?thesis unfolding start if_not_P [OF False] same [OF False] by simp
  qed
  have e0: "reass_entry ?st0 xs a ys d0 src dest tt ts proto ident" by (rule reass_entry_upd [OF e d0(1,5)]) simp_all
  have f0: "fragment_at (bufs ?st0) f src dest tt ts proto ident mf" "payload_of (bufs ?st0) (fr_p f) = Some h" using f h(1) by simp_all
  have M: "bytes (bufs ?st0) = ?M" by simp
  note fh = reass_add_step(1) [OF f0(1) e0 f0(2), unfolded M]
  from reass_add_step(2) [OF f0(1) e0 f0(2), of ?n, unfolded M] obtain st1 d1 where
    "reass_add a (fr_p f) h ?o ?l ?n ?st0
        = Option.bind (ip_reass_chain_frag_into_datagram_and_validate a (fr_p f) st1) (\<lambda>(complete, st'). if complete then reass_complete a st' else Some (None, st'))"
    "bufs st1 = bufs ?st0" "reass_entry st1 xs a ys d1 src dest tt ts proto ident" "rs_p d1 = rs_p d0" "rs_flags d1 = (if mf then rs_flags d0 else rs_flags d0 OR 1)"
    "rs_datagram_len d1 = (if mf then rs_datagram_len d0 else of_nat (fr_end f))" "ip_reass_pbufcount (get_reass st1) = ip_reass_pbufcount (get_reass ?st0) + of_nat ?n"
    "ifs st1 = ifs ?st0" "ip_data st1 = ip_data ?st0" "dev (rest st1) = dev (rest ?st0)" by blast
  then show ?thesis unfolding eq using d0(2-4) h(1) fh by (intro exI [of _ st1] exI [of _ d1] exI [of _ h]) simp
qed

end
