(* ===== verification/Reass_Path.thy ===== *)
theory Reass_Path
  imports Reass_Props Ip4_Path
begin

text \<open>
  What \<open>ip4_reass\<close> does with a fragment: the first one of a datagram starts an entry on the list, one that neither overlaps nor completes it is put in its place in the queue, and one that
  completes it makes the function return the datagram. Two flaws show up: a hole in front of a new fragment can be overlooked, so that a datagram with a piece missing is returned, and
  fragments that contradict the last one stop the stack in a failed assertion.
\<close>

section \<open>The outcome of a fragment\<close>

lemma last_flag: "(x OR 1) AND (1 :: u8) \<noteq> 0"
proof -
  have "bit ((x OR 1) AND 1) 0" by (simp add: bit_simps)
  then show ?thesis by (metis bit_0_eq bot_apply bot_bool_def)
qed

text \<open>The state of the reassembly when the fragment \<open>f\<close> arrives: \<open>us\<close> and \<open>vs\<close> are the fragments of its datagram in front of it and behind it.\<close>

definition reassembling :: "(nat \<Rightarrow> nat) \<Rightarrow> 'v lwip \<Rightarrow> nat list \<Rightarrow> nat \<Rightarrow> nat list \<Rightarrow> ip_reassdata \<Rightarrow> frag list \<Rightarrow> frag \<Rightarrow> frag list \<Rightarrow> bool" where
  "reassembling E st xs a ys d us f vs \<longleftrightarrow> frags_ok E (f # us @ vs) (bufs st) \<and> frag_queue (bufs st) (rs_p d) (us @ vs) \<and> in_order (us @ f # vs) \<and> us @ vs \<noteq> []
     \<and> length (concat (map fr_pbufs (us @ vs))) \<le> unat (ip_reass_pbufcount (get_reass st))
     \<and> unat (ip_reass_pbufcount (get_reass st)) + length (fr_pbufs f) \<le> IP_REASS_MAX_PBUFS
     \<and> IP_HLEN + length (concat (map fr_data (us @ f # vs))) < 65536"

text \<open>The end of the datagram is known, from a fragment without the flag for more fragments.\<close>

definition end_known :: "ip_reassdata \<Rightarrow> bool \<Rightarrow> frag list \<Rightarrow> nat \<Rightarrow> bool" where
  "end_known d mf vs n \<longleftrightarrow> (if mf then rs_flags d AND IP_REASS_FLAG_LASTFRAG \<noteq> 0 \<and> unat (rs_datagram_len d) = n else vs = [])"

lemma ip4_reass_returns:
  assumes r: "reassembling E st xs a ys d us f vs" and f: "fragment_at (bufs st) f src dest tt ts proto ident mf"
    and e: "reass_entry st xs a ys d src dest tt ts proto ident" and known: "end_known d mf vs (fr_end (last (f # vs)))"
    and c: "contiguous us" "vs = [] \<Longrightarrow> contiguous (us @ [f])" "fr_start (hd (us @ [f])) = 0" "contiguous (f # vs)"
  shows "\<exists>st'. ip4_reass env (fr_p f) st = Some (Some (fr_p (hd (us @ [f]))), st')
    \<and> packet E (fr_p (hd (us @ [f]))) (ip4_datagram_header src dest tt ts proto (of_nat (IP_HLEN + fr_end (last (f # vs)))) ident @ concat (map fr_data (us @ f # vs))) (bufs st')
    \<and> reass_list st' (xs @ ys) \<and> ifs st' = ifs st \<and> ip_data st' = ip_data st \<and> dev (rest st') = dev (rest st)"
proof -
  from r have ok: "frags_ok E (f # us @ vs) (bufs st)" "frag_queue (bufs st) (rs_p d) (us @ vs)" "in_order (us @ f # vs)" "us @ vs \<noteq> []"
    and n: "length (concat (map fr_pbufs (us @ vs))) + length (fr_pbufs f) \<le> 10" "unat (ip_reass_pbufcount (get_reass st)) + length (fr_pbufs f) \<le> 10"
      "20 + length (concat (map fr_data (us @ f # vs))) < 65536" by (auto simp: reassembling_def)
  from ip4_reass_step [OF ok(1) f e n(2), of env] obtain st1 d1 h where
    st1: "ip4_reass env (fr_p f) st = Option.bind (ip_reass_chain_frag_into_datagram_and_validate a (fr_p f) st1)
        (\<lambda>(complete, st'). if complete then reass_complete a st' else Some (None, st'))" "bufs st1 = bufs st" "reass_entry st1 xs a ys d1 src dest tt ts proto ident"
      "rs_p d1 = rs_p d" "rs_flags d1 = (if mf then rs_flags d else rs_flags d OR 1)" "rs_datagram_len d1 = (if mf then rs_datagram_len d else of_nat (fr_end f))"
      "ifs st1 = ifs st" "ip_data st1 = ip_data st" "dev (rest st1) = dev (rest st)" "payload_of (bufs st) (fr_p f) = Some h" "frag_header (bytes (bufs st)) h f" by blast
  have d1: "reass_at (get_reass st1) a = Some d1" "reass_list st1 (xs @ a # ys)" using st1(3) by (simp_all add: reass_entry_def)
  have "fr_end f < 65536" using f by (simp add: fragment_at_def)
  then have len: "unat (rs_datagram_len d1) = fr_end (last (f # vs))" using st1(6) known by (simp add: end_known_def unat_of_nat split: if_splits)
  have sc: "seems_complete d1 us f vs" using c st1(5) known last_flag by (auto simp: seems_complete_def end_known_def split: if_splits)
  define p where "p = fr_p (hd (us @ [f]))"
  from chain_frag_inserts [of E f us vs st1 a d1 h] ok st1(2,4,10,11) d1(1) len sc obtain M where
    M: "ip_reass_chain_frag_into_datagram_and_validate a (fr_p f) st1
        = Some (True, on_reass (\<lambda>u. u\<lparr>reass_at := (reass_at u)(a \<mapsto> d1\<lparr>rs_p := Some p\<rparr>)\<rparr>) (st1\<lparr>bufs := (bufs st)\<lparr>bytes := M\<rparr>\<rparr>))"
      "frags_ok E (f # us @ vs) ((bufs st)\<lparr>bytes := M\<rparr>)" "frag_queue ((bufs st)\<lparr>bytes := M\<rparr>) (Some p) (us @ f # vs)" by (auto simp: Let_def p_def)
  let ?st2 = "on_reass (\<lambda>u. u\<lparr>reass_at := (reass_at u)(a \<mapsto> d1\<lparr>rs_p := Some p\<rparr>)\<rparr>) (st1\<lparr>bufs := (bufs st)\<lparr>bytes := M\<rparr>\<rparr>)"
  have l2: "reass_list ?st2 (xs @ a # ys)" using d1 st1(2) by (simp add: reass_list_def linked_upd_same)
  obtain g gs where g: "us @ f # vs = g # gs" "g = hd (us @ [f])" by (cases us) auto
  have ok2: "frags_ok E (g # gs) (bufs ?st2)" using frags_ok_perm [OF M(2), of "g # gs"] unfolding g(1) [symmetric] by simp
  obtain c0 l0 off where H: "rs_iphdr d1 = ip4_frag_header c0 src dest tt ts proto l0 ident off" using st1(3) by (auto simp: reass_entry_def)
  have small: "20 + length (concat (map fr_data (g # gs))) < 65536" "length (concat (map fr_pbufs (g # gs))) < 65536" using n(1,3) unfolding g(1) [symmetric] by simp_all
  have q2: "frag_queue (bufs ?st2) (rs_p (d1\<lparr>rs_p := Some p\<rparr>)) (g # gs)" using M(3) g(1) by simp
  have "rs_datagram_len d1 + 20 = of_nat (20 + fr_end (last (f # vs)))" unfolding len [symmetric] by simp
  with reass_complete_ok [of ?st2 xs a ys "d1\<lparr>rs_p := Some p\<rparr>" g gs E, OF l2 _ q2 ok2 small, of c0 src dest tt ts proto l0 ident off] H
  show ?thesis using st1(1,7-9) M(1) g(2) unfolding g(1) p_def by (auto simp del: last.simps)
qed

text \<open>All of a datagram is there, its fragments being \<open>fs\<close>: its last fragment has been received, the first one starts at 0, and there are no gaps.\<close>

definition all_received :: "ip_reassdata \<Rightarrow> bool \<Rightarrow> frag list \<Rightarrow> bool" where
  "all_received d mf fs \<longleftrightarrow> (\<not> mf \<or> rs_flags d AND IP_REASS_FLAG_LASTFRAG \<noteq> 0) \<and> fr_start (hd fs) = 0 \<and> contiguous fs"

text \<open>The gap that the code does not look at: directly in front of the new fragment \<open>f\<close>, when it is put between fragments \<open>us\<close> and \<open>vs\<close>.\<close>

definition unseen_gap :: "frag list \<Rightarrow> frag \<Rightarrow> frag list \<Rightarrow> bool" where
  "unseen_gap us f vs \<longleftrightarrow> us \<noteq> [] \<and> vs \<noteq> [] \<and> fr_end (last us) \<noteq> fr_start f"

lemma contiguous_insert:
  "contiguous (us @ f # vs) \<longleftrightarrow> contiguous us \<and> contiguous (f # vs) \<and> (us \<noteq> [] \<longrightarrow> fr_end (last us) = fr_start f)"
proof (induction us)
  case (Cons u us)
  then show ?case by (cases us) auto
qed simp

lemma not_seems_complete:
  assumes "\<not> all_received d mf (us @ f # vs)"
    and "unseen_gap us f vs \<longrightarrow> mf \<and> rs_flags d AND IP_REASS_FLAG_LASTFRAG = 0 \<or> fr_start (hd us) \<noteq> 0 \<or> \<not> contiguous us \<or> \<not> contiguous (f # vs)"
    and "rs_flags d1 = (if mf then rs_flags d else rs_flags d OR IP_REASS_FLAG_LASTFRAG)"
  shows "\<not> seems_complete d1 us f vs"
  using assms by (cases "us = []") (auto simp: seems_complete_def all_received_def unseen_gap_def contiguous_insert contiguous_snoc split: if_splits)

text \<open>A fragment with which the test of the code does not find its datagram complete is put in its place in the queue.\<close>

lemma fragment_waits:
  assumes ok: "frags_ok E (f # us @ vs) (bufs st)" "frag_queue (bufs st) (rs_p d) (us @ vs)" "in_order (us @ f # vs)"
    and e: "reass_entry st xs a ys d src dest tt ts proto ident" and h: "payload_of (bufs st) (fr_p f) = Some h" "frag_header (bytes (bufs st)) h f"
    and inc: "\<not> seems_complete d us f vs" and first: "us @ vs \<noteq> [] \<or> fr_start f \<noteq> 0 \<or> rs_flags d AND 1 = 0"
  shows "\<exists>st' d'. Option.bind (ip_reass_chain_frag_into_datagram_and_validate a (fr_p f) st)
        (\<lambda>(complete, st'). if complete then reass_complete a st' else Some (None, st')) = Some (None, st')
    \<and> reass_entry st' xs a ys d' src dest tt ts proto ident \<and> frags_ok E (f # us @ vs) (bufs st') \<and> frag_queue (bufs st') (rs_p d') (us @ f # vs)
    \<and> rs_flags d' = rs_flags d \<and> rs_datagram_len d' = rs_datagram_len d \<and> ip_reass_pbufcount (get_reass st') = ip_reass_pbufcount (get_reass st)
    \<and> ifs st' = ifs st \<and> ip_data st' = ip_data st \<and> dev (rest st') = dev (rest st)"
proof -
  have d: "reass_at (get_reass st) a = Some d" using e by (simp add: reass_entry_def)
  define d' where "d' = d\<lparr>rs_p := Some (fr_p (hd (us @ [f])))\<rparr>"
  from chain_frag_inserts [OF ok(1) d ok(2,3) h first] inc obtain M where
    M: "ip_reass_chain_frag_into_datagram_and_validate a (fr_p f) st
        = Some (False, on_reass (\<lambda>u. u\<lparr>reass_at := (reass_at u)(a \<mapsto> d')\<rparr>) (st\<lparr>bufs := (bufs st)\<lparr>bytes := M\<rparr>\<rparr>))"
      "frags_ok E (f # us @ vs) ((bufs st)\<lparr>bytes := M\<rparr>)" "frag_queue ((bufs st)\<lparr>bytes := M\<rparr>) (rs_p d') (us @ f # vs)" by (auto simp: Let_def d'_def)
  let ?st = "on_reass (\<lambda>u. u\<lparr>reass_at := (reass_at u)(a \<mapsto> d')\<rparr>) (st\<lparr>bufs := (bufs st)\<lparr>bytes := M\<rparr>\<rparr>)"
  have "a \<notin> set xs" using linked_distinct [of rs_next] e unfolding reass_entry_def reass_list_def by fastforce
  then have "reass_entry ?st xs a ys d' src dest tt ts proto ident" using e d by (simp add: reass_entry_def reass_list_def linked_upd_same d'_def)
  with M show ?thesis by (intro exI [of _ ?st] exI [of _ d']) (simp add: d'_def)
qed

text \<open>The first fragment of a datagram to arrive.\<close>

lemma reass_find_none:
  "\<lbrakk>linked rs_next (reass_at u) p xs; \<forall>x \<in> set xs. \<exists>e. reass_at u x = Some e \<and> \<not> IP_ADDRESSES_AND_ID_MATCH (rs_iphdr e) M h\<rbrakk> \<Longrightarrow> reass_find u M p h = Some None"
proof (induction xs arbitrary: p)
  case Nil
  then show ?case by (subst reass_find.simps) simp
next
  case (Cons x xs)
  then obtain e where e: "p = Some x" "reass_at u x = Some e" "linked rs_next (reass_at u) (rs_next e) xs" by (auto simp: linked_Cons)
  with Cons.IH [OF e(3)] Cons.prems(2) show ?case by (subst reass_find.simps) auto
qed

lemma reass_pool_malloc:
  assumes ok: "net_ok E s" and A: "memp_inv (net_pools s ! MEMP_REASSDATA) A (net_memp s)" "card A < unat (desc_num (net_pools s ! MEMP_REASSDATA))"
  obtains a m where "memp_malloc (net_pools s) MEMP_REASSDATA (net_memp s) = Some (Some a, m)" "a \<notin> A" "memp_inv (net_pools s ! MEMP_REASSDATA) (insert a A) m"
    "net_ok E (s\<lparr>net_memp := m\<rparr>)"
proof -
  have lay: "length (net_pools s) = 11" "pools_layout (net_pools s)" using ok by (simp_all add: net_ok_def pbuf_inv_def layout_ok_def)
  from A(1) obtain a m where m: "do_memp_malloc_pool (net_pools s ! 5) (net_memp s) = Some (Some a, m)" "a \<notin> A" "memp_inv (net_pools s ! 5) (insert a A) m"
    by (cases rule: memp.alloc_cases) (use A(2) in auto)
  have "memp_inv (net_pools s ! t) B m" if "t \<in> {6, 9, 10}" "memp_inv (net_pools s ! t) B (net_memp s)" for t B
    using that lay by (intro malloc_pool_other [OF m(1)] pools_layout_nth) auto
  with ok have "net_ok E (s\<lparr>net_memp := m\<rparr>)" by (intro net_ok_other_pool) blast+
  with that m lay(1) show ?thesis by (simp add: memp_malloc_def)
qed

lemma other_pool_frags:
  assumes "frags_ok E fs s" "net_ok (frag_refs E fs) (s\<lparr>net_memp := m\<rparr>)"
  shows "frags_ok E fs (s\<lparr>net_memp := m\<rparr>)"
proof -
  have "frag_mem (s\<lparr>net_memp := m\<rparr>) f" if "f \<in> set fs" for f
    by (rule frag_mem_agree [OF frags_okD(1) [OF assms(1) that]]) simp_all
  then show ?thesis using assms by (simp add: frags_ok_def)
qed

text \<open>No datagram on the list is that of the fragment, and there is room for one more.\<close>

definition unknown_datagram :: "'v lwip \<Rightarrow> nat list \<Rightarrow> u32 \<Rightarrow> u32 \<Rightarrow> u16 \<Rightarrow> bool" where
  "unknown_datagram st xs src dest ident \<longleftrightarrow> reass_list st xs \<and> length xs < unat (desc_num (net_pools (bufs st) ! MEMP_REASSDATA))
     \<and> (\<forall>x \<in> set xs. \<exists>e. reass_at (get_reass st) x = Some e \<and> \<not> header_of (rs_iphdr e) src dest ident)"

lemma new_datagram_entry:
  assumes ok: "frags_ok E fs (bufs st)" and u: "unknown_datagram st xs src dest ident"
    and hd: "rd (bytes (bufs st)) h 20 = ip4_frag_header c src dest tt ts proto l ident off"
  shows "\<exists>a st' d. ip_reass_enqueue_new_datagram env h n st = Some (Some a, st') \<and> reass_entry st' [] a xs d src dest tt ts proto ident
    \<and> rs_p d = None \<and> rs_flags d = 0 \<and> frags_ok E fs (bufs st') \<and> (\<exists>m. bufs st' = (bufs st)\<lparr>net_memp := m\<rparr>)
    \<and> ip_reass_pbufcount (get_reass st') = ip_reass_pbufcount (get_reass st) \<and> ifs st' = ifs st \<and> ip_data st' = ip_data st \<and> dev (rest st') = dev (rest st)"
proof -
  let ?s = "bufs st"
  from u have l: "linked rs_next (reass_at (get_reass st)) (reassdatagrams (get_reass st)) xs" "memp_inv (net_pools ?s ! 5) (set xs) (net_memp ?s)"
    by (simp_all add: unknown_datagram_def reass_list_def)
  have room: "card (set xs) < unat (desc_num (net_pools ?s ! 5))" using u card_length [of xs] by (simp add: unknown_datagram_def)
  have net: "net_ok (frag_refs E fs) ?s" using ok by (simp add: frags_ok_def)
  obtain a m where m: "memp_malloc (net_pools ?s) 5 (net_memp ?s) = Some (Some a, m)" "a \<notin> set xs" "memp_inv (net_pools ?s ! 5) (insert a (set xs)) m"
    "net_ok (frag_refs E fs) (?s\<lparr>net_memp := m\<rparr>)" by (rule reass_pool_malloc [OF net l(2) room])
  define d where "d = \<lparr>rs_next = reassdatagrams (get_reass st), rs_p = None, rs_iphdr = rd (bytes ?s) h 20, rs_datagram_len = 0, rs_flags = 0, rs_timer = 3\<rparr>"
  define st' where "st' = on_reass (\<lambda>u. u\<lparr>reass_at := (reass_at u)(a \<mapsto> d), reassdatagrams := Some a\<rparr>) (st\<lparr>bufs := ?s\<lparr>net_memp := m\<rparr>\<rparr>)"
  have "ip_reass_enqueue_new_datagram env h n st = Some (Some a, st')"
    using m(1) by (auto simp: ip_reass_enqueue_new_datagram_def reass_malloc_def st'_def d_def intro!: on_reass_cong)
  moreover have "linked rs_next ((reass_at (get_reass st))(a \<mapsto> d)) (Some a) (a # xs)" by (rule linked_push [OF l(1) m(2)]) (simp add: d_def)
  then have "reass_entry st' [] a xs d src dest tt ts proto ident" using m(3) hd by (auto simp: reass_entry_def reass_list_def st'_def d_def)
  moreover have "frags_ok E fs (bufs st')" using other_pool_frags [OF ok m(4)] by (simp add: st'_def)
  ultimately show ?thesis by (intro exI [of _ a] exI [of _ st'] exI [of _ d]) (auto simp: st'_def d_def)
qed

lemma ip4_reass_new_step:
  assumes "frags_ok E [f] (bufs st)" and "fragment_at (bufs st) f src dest tt ts proto ident mf" and "unknown_datagram st xs src dest ident"
    and "unat (ip_reass_pbufcount (get_reass st)) + length (fr_pbufs f) \<le> IP_REASS_MAX_PBUFS"
  shows "\<exists>a st1 d1 h. ip4_reass env (fr_p f) st = Option.bind (ip_reass_chain_frag_into_datagram_and_validate a (fr_p f) st1)
        (\<lambda>(complete, st'). if complete then reass_complete a st' else Some (None, st'))
    \<and> frags_ok E [f] (bufs st1) \<and> reass_entry st1 [] a xs d1 src dest tt ts proto ident \<and> rs_p d1 = None
    \<and> rs_flags d1 = (if mf then 0 else 1) \<and> (\<not> mf \<longrightarrow> rs_datagram_len d1 = of_nat (fr_end f))
    \<and> ip_reass_pbufcount (get_reass st1) = ip_reass_pbufcount (get_reass st) + of_nat (length (fr_pbufs f))
    \<and> ifs st1 = ifs st \<and> ip_data st1 = ip_data st \<and> dev (rest st1) = dev (rest st) \<and> payload_of (bufs st1) (fr_p f) = Some h \<and> frag_header (bytes (bufs st1)) h f"
proof -
  let ?n = "length (fr_pbufs f)"
  obtain h c where h: "payload_of (bufs st) (fr_p f) = Some h"
    "rd (bytes (bufs st)) h 20 = ip4_frag_header c src dest tt ts proto (of_nat (20 + length (fr_data f))) ident (frag_off f mf)" using assms(2) by (auto simp: fragment_at_def)
  note fields = frag_header_fields [OF h(2)]
  have fm: "frag_mem (bufs st) f" by (rule frags_okD(1) [OF assms(1)]) simp
  have clen: "pbuf_clen (Some (fr_p f)) (bufs st) = Some ?n" using fm assms(4) by (intro pbuf_clen_eq) (simp_all add: frag_mem_def chain_def)
  let ?st0 = "on_frag_stats (\<lambda>t. t\<lparr>ps_recv := ps_recv t + 1\<rparr>) st"
  have u0: "unknown_datagram ?st0 xs src dest ident" "frags_ok E [f] (bufs ?st0)" "bufs ?st0 = bufs st" "dev (rest ?st0) = dev (rest st)"
    using assms(1,3) by (simp_all add: unknown_datagram_def reass_list_def on_frag_stats_def)
  have find: "reass_find (get_reass ?st0) (bytes (bufs st)) (reassdatagrams (get_reass ?st0)) h = Some None"
    using u0(1) unfolding unknown_datagram_def reass_list_def by (intro reass_find_none [of _ _ xs]) (auto simp: header_match [OF h(2)])
  have "rd (bytes (bufs ?st0)) h 20 = ip4_frag_header c src dest tt ts proto (of_nat (20 + length (fr_data f))) ident (frag_off f mf)" using h(2) u0(3) by simp
  from new_datagram_entry [OF u0(2,1) this, of env ?n] obtain a st1 d m where
    st1: "ip_reass_enqueue_new_datagram env h ?n ?st0 = Some (Some a, st1)" "reass_entry st1 [] a xs d src dest tt ts proto ident" "rs_p d = None" "rs_flags d = 0"
      "frags_ok E [f] (bufs st1)" "bufs st1 = (bufs ?st0)\<lparr>net_memp := m\<rparr>" "ip_reass_pbufcount (get_reass st1) = ip_reass_pbufcount (get_reass ?st0)"
      "ifs st1 = ifs ?st0" "ip_data st1 = ip_data ?st0" "dev (rest st1) = dev (rest ?st0)" by blast
  let ?M = "bytes (bufs st1)"
  have M: "?M = bytes (bufs st)" and h1: "payload_of (bufs st1) (fr_p f) = Some h" using st1(6) u0(3) h(1) by (simp_all add: payload_of_def)
  then have f1: "fragment_at (bufs st1) f src dest tt ts proto ident mf" using assms(2) h by (auto simp: fragment_at_def)
  have start: "ip4_reass env (fr_p f) st = reass_add a (fr_p f) h ((lwip_htons (IPH_OFFSET ?M h) AND ucast IP_OFFMASK) * 8) (lwip_htons (IPH_LEN ?M h) - ucast (IPH_HL ?M h) * 4) ?n st1"
    using h(1) clen find fields(1) st1(1) u0(3) assms(4) unfolding M by (simp add: ip4_reass_def on_frag_stats_def Let_def)
  from reass_add_step(2) [OF f1 st1(2) h1, of ?n] obtain st2 d2 where
    st2: "reass_add a (fr_p f) h ((lwip_htons (IPH_OFFSET ?M h) AND ucast IP_OFFMASK) * 8) (lwip_htons (IPH_LEN ?M h) - ucast (IPH_HL ?M h) * 4) ?n st1
        = Option.bind (ip_reass_chain_frag_into_datagram_and_validate a (fr_p f) st2) (\<lambda>(complete, st'). if complete then reass_complete a st' else Some (None, st'))"
      "bufs st2 = bufs st1" "reass_entry st2 [] a xs d2 src dest tt ts proto ident" "rs_p d2 = rs_p d" "rs_flags d2 = (if mf then rs_flags d else rs_flags d OR 1)"
      "rs_datagram_len d2 = (if mf then rs_datagram_len d else of_nat (fr_end f))" "ip_reass_pbufcount (get_reass st2) = ip_reass_pbufcount (get_reass st1) + of_nat ?n"
      "ifs st2 = ifs st1" "ip_data st2 = ip_data st1" "dev (rest st2) = dev (rest st1)" by blast
  then show ?thesis unfolding start using st1(3-5,7-10) h1 reass_add_step(1) [OF f1 st1(2) h1]
    by (intro exI [of _ a] exI [of _ st2] exI [of _ d2] exI [of _ h]) (simp add: on_frag_stats_def)
qed

section \<open>An example\<close>

text \<open>Fragments of 8 bytes, each in one pbuf of the pool of the example.\<close>

definition small_frags :: "frag list \<Rightarrow> net \<Rightarrow> bool" where
  "small_frags fs s \<longleftrightarrow> frags_ok (\<lambda>_. 0) fs s \<and> net_pools s = example_net_pools \<and> card (pool_pbufs s) \<le> length fs
     \<and> (\<forall>f \<in> set fs. length (fr_data f) = 8 \<and> length (fr_pbufs f) = 1)"

lemma example_pool_range: "a \<in> pool_pbufs s \<Longrightarrow> pbuf_inv s \<Longrightarrow> net_pools s = example_net_pools \<Longrightarrow> 0 < a \<and> a < 2 ^ 32"
proof -
  assume a: "a \<in> pool_pbufs s" "pbuf_inv s" "net_pools s = example_net_pools"
  then have "a \<in> set (pool_elems (pool_desc s))" by (auto simp: pbuf_inv_def elim!: memp_invE)
  then show ?thesis unfolding a(3) by (auto simp: pool_elems_def example_net_pools_def LWIP_MEM_ALIGN_def)
qed

lemma another_small_frag:
  assumes s: "small_frags fs s" "frag_queue s r fs" and n: "length fs < 16"
  obtains f h s' where "small_frags (f # fs) s'" "frag_queue s' r fs" "fr_start f = k" "payload_of s' (fr_p f) = Some h"
proof -
  let ?E = "frag_refs (\<lambda>_. 0) fs"
  have ok: "net_ok ?E s" "net_pools s = example_net_pools" "card (pool_pbufs s) \<le> length fs" using s(1) by (simp_all add: small_frags_def frags_ok_def)
  have "pool_need PBUF_RAW 28 = 1" "unat (desc_num (pool_desc s)) = 16" unfolding ok(2) by (simp_all add: pool_need_def example_net_pools_def)
  with alloc_pool_ok [OF ok(1), of 28 PBUF_RAW] ok(3) n obtain p xs s' where
    p: "new_chain ?E PBUF_RAW 28 PBUF_POOL s p xs s'" "length xs = 1" by auto
  note parts = new_chain_parts [OF p(1)]
  have xs: "xs = [p]" using p(2) parts(2) by (auto simp: length_Suc_conv chain_Cons)
  obtain b where b: "pbufs s' p = Some b" "pb_payload b = Some (p + 16 + layer_offset PBUF_RAW)" "pb_ref b = 1" "\<not> is_custom b" "pb_type b = PBUF_POOL"
    using p(1) xs by (auto simp: new_chain_def)
  have pools: "net_pools s' = example_net_pools" using parts(12) ok(2) by (simp add: same_rest_def)
  have inv: "pbuf_inv s'" using parts(1) by (simp add: net_ok_def)
  have in_pool: "p \<in> pool_pbufs s'" using b by (auto simp: pool_pbufs_def)
  note range = example_pool_range [OF in_pool inv pools]
  let ?X = "chain_data (pbufs s') (bytes s') [p]"
  define f where "f = \<lparr>fr_pbufs = [p], fr_start = k, fr_data = drop 20 ?X\<rparr>"
  have f: "fr_p f = p" "fr_pbufs f = [p]" "fr_start f = k" "fr_data f = drop 20 ?X" by (simp_all add: f_def fr_p_def)
  have own: "own_memory (pbufs s') [p]" using parts(6) xs by simp
  have len: "length ?X = 28" using length_chain_data [OF own_payloads [OF inv own], of "bytes s'"] parts(3) xs by simp
  have "plen (pbufs s') p = 28" using parts(3) xs by simp
  then have mem: "frag_mem s' f" using parts(2) own range b unfolding f frag_mem_def xs by (simp add: ref_of_def del: chain_data_simps)
  have live: "x \<noteq> p" if "g \<in> set fs" "x \<in> set (fr_pbufs g)" for g x
  proof -
    have "frag_mem s g" using s(1) that(1) by (simp add: small_frags_def frags_ok_def)
    then have "x \<in> dom (pbufs s)" using chain_live that(2) by (fastforce simp: frag_mem_def)
    then show ?thesis using parts(8) xs by auto
  qed
  have same: "pbufs s' x = pbufs s x" if "g \<in> set fs" "x \<in> set (fr_pbufs g)" for g x using live [OF that] parts(9) [of x] xs by simp
  have mems: "frag_mem s' g" if "g \<in> set fs" for g
  proof (rule frag_mem_agree)
    show "frag_mem s g" using s(1) that by (simp add: small_frags_def frags_ok_def)
    show "pbufs s' x = pbufs s x" if "x \<in> set (fr_pbufs g)" for x by (rule same [OF \<open>g \<in> set fs\<close> that])
  qed (rule parts(7))
  have "fr_p g \<in> set (fr_pbufs g)" if "g \<in> set fs" for g using mems [OF that] by (auto simp: frag_mem_def fr_p_def)
  then have q: "frag_queue s' r fs" using same parts(7) by (intro queue_agree [OF s(2)]) blast+
  have E: "frag_refs (\<lambda>_. 0) (f # fs) = ?E(p := 1)" by (auto simp: frag_refs_def f fun_eq_iff)
  have "distinct (concat (map fr_pbufs (f # fs)))" using s(1) live by (auto simp: small_frags_def frags_ok_def f)
  then have "frags_ok (\<lambda>_. 0) (f # fs) s'" using parts(1) mem mems unfolding frags_ok_def E by auto
  moreover have "pool_pbufs s' \<subseteq> insert p (pool_pbufs s)" using parts(9) xs by (fastforce simp: pool_pbufs_def)
  then have "card (pool_pbufs s') \<le> length (f # fs)"
    using card_mono [of "insert p (pool_pbufs s)" "pool_pbufs s'"] ok card_insert_le_m1 [of "Suc (length fs)" "pool_pbufs s" p]
    by (auto simp: net_ok_def pbuf_inv_def elim!: memp_invE)
  ultimately have "small_frags (f # fs) s'" using s(1) pools len by (simp add: small_frags_def f(2,4) del: chain_data_simps)
  then show ?thesis using that [of f s'] q f(1,3) b by (simp add: payload_of_def)
qed

lemma small_frags_bytes: "small_frags fs s \<Longrightarrow> frags_ok (\<lambda>_. 0) fs (s\<lparr>bytes := M\<rparr>) \<Longrightarrow> small_frags fs (s\<lparr>bytes := M\<rparr>)"
  by (simp add: small_frags_def pool_pbufs_def)

lemma small_queue:
  "\<lbrakk>length ks < 16; \<forall>k \<in> set ks. k + 8 < 65536\<rbrakk> \<Longrightarrow> \<exists>fs r s. small_frags fs s \<and> frag_queue s r fs \<and> map fr_start fs = ks"
proof (induction ks)
  case Nil
  have "frags_ok (\<lambda>_. 0) [] example_net" using example_net_ok by (simp add: frags_ok_def frag_refs_def [abs_def])
  then have "small_frags [] example_net" by (simp add: small_frags_def pool_pbufs_def example_net_def)
  then show ?case by (intro exI [of _ "[]"] exI [of _ None] exI [of _ example_net]) simp
next
  case (Cons k ks)
  then obtain fs r s where s: "small_frags fs s" "frag_queue s r fs" "map fr_start fs = ks" by auto
  have "length fs < 16" using Cons.prems(1) s(3) by (metis Suc_lessD length_Cons length_map)
  from another_small_frag [OF s(1,2) this, of k] obtain f h s1 where
    f: "small_frags (f # fs) s1" "frag_queue s1 r fs" "fr_start f = k" "payload_of s1 (fr_p f) = Some h" by blast
  have ok: "frags_ok (\<lambda>_. 0) (f # fs) s1" "fr_end f < 65536" using f(1,3) Cons.prems(2) by (simp_all add: small_frags_def fr_end_def)
  obtain M1 where new: "frags_ok (\<lambda>_. 0) (f # [] @ fs) (s1\<lparr>bytes := M1\<rparr>)" "frag_queue (s1\<lparr>bytes := M1\<rparr>) r ([] @ fs)" "frag_hdr (s1\<lparr>bytes := M1\<rparr>) f h"
    "rh_next_pbuf (bytes (s1\<lparr>bytes := M1\<rparr>)) h = None" using new_helper [OF ok(1) f(2,4) ok(2)] by (auto simp del: frag_queue.simps)
  define M where "M = link_before fs h M1"
  have M: "frags_ok (\<lambda>_. 0) (f # fs) (s1\<lparr>bytes := M\<rparr>)" "frag_hdr (s1\<lparr>bytes := M\<rparr>) f h" "frag_queue (s1\<lparr>bytes := M\<rparr>) (rh_next_pbuf M h) fs"
    using linked_before [OF new] by (simp_all add: M_def)
  then have "frag_queue (s1\<lparr>bytes := M\<rparr>) (Some (fr_p f)) (f # fs)" by auto
  with small_frags_bytes [OF f(1) M(1)] f(3) s(3) show ?case by (metis list.map(2))
qed

text \<open>One entry of the pool of datagrams under reassembly is in use.\<close>

lemma with_reassdata:
  assumes s: "small_frags gs s" "frag_queue s r fs"
  obtains a m where "small_frags gs (s\<lparr>net_memp := m\<rparr>)" "frag_queue (s\<lparr>net_memp := m\<rparr>) r fs" "memp_inv (net_pools s ! MEMP_REASSDATA) {a} m"
proof -
  let ?d = "example_net_pools ! 5" and ?m1 = "net_memp s"
  have pools: "net_pools s = example_net_pools" and ok: "net_ok (frag_refs (\<lambda>_. 0) gs) s" using s(1) by (simp_all add: small_frags_def frags_ok_def)
  have lay: "pools_layout example_net_pools" "length example_net_pools = 11" using example_net_layout by (simp_all add: layout_ok_def)
  have "memp_inv ?d {} (memp_init example_net_pools example_memp)"
    by (rule memp_init_inv [OF lay(1)]) (use lay(2) in \<open>simp_all add: example_memp_def\<close>)
  then obtain a m0 where m0: "memp_inv ?d {a} m0"
  proof (cases rule: memp.alloc_cases)
    case (full s')
    then show ?thesis by (simp add: example_net_pools_def)
  qed (use that in auto)
  define m where "m = \<lparr>memp_next = (\<lambda>x. if x \<in> set (pool_elems ?d) then memp_next m0 x else memp_next ?m1 x),
    memp_tab = (memp_tab ?m1)(5 := memp_tab m0 5), memp_stats = (memp_stats ?m1)(5 := memp_stats m0 5)\<rparr>"
  have id: "desc_id ?d = 5" by (simp add: example_net_pools_def)
  have m: "memp_inv ?d {a} m" by (rule memp_inv_frame [OF m0]) (simp_all add: m_def id)
  have "memp_inv (net_pools s ! t) B m" if t: "t \<in> {6, 9, 10}" and inv: "memp_inv (net_pools s ! t) B ?m1" for t B
  proof (rule memp_inv_frame [OF inv])
    have "pools_apart (example_net_pools ! t) ?d" using t lay by (intro pools_layout_nth) auto
    then have ap: "desc_id (net_pools s ! t) \<noteq> 5" "set (pool_elems (net_pools s ! t)) \<inter> set (pool_elems ?d) = {}" by (simp_all add: pools pools_apart_def id)
    then show "memp_tab m (desc_id (net_pools s ! t)) = memp_tab ?m1 (desc_id (net_pools s ! t))"
      "memp_stats m (desc_id (net_pools s ! t)) = memp_stats ?m1 (desc_id (net_pools s ! t))" by (simp_all add: m_def)
    show "memp_next m x = memp_next ?m1 x" if "x \<in> set (pool_elems (net_pools s ! t)) - B" for x using that ap(2) by (auto simp: m_def)
  qed
  then have "net_ok (frag_refs (\<lambda>_. 0) gs) (s\<lparr>net_memp := m\<rparr>)" by (intro net_ok_other_pool [OF ok]) blast
  moreover have "frag_mem (s\<lparr>net_memp := m\<rparr>) f" if "f \<in> set gs" for f
  proof (rule frag_mem_agree)
    show "frag_mem s f" using s(1) that by (simp add: small_frags_def frags_ok_def)
  qed simp_all
  ultimately have "small_frags gs (s\<lparr>net_memp := m\<rparr>)" using s(1) by (simp add: small_frags_def frags_ok_def)
  moreover have "frag_queue (s\<lparr>net_memp := m\<rparr>) r fs" by (rule queue_agree [OF s(2)]) simp_all
  ultimately show ?thesis using that m pools by metis
qed

abbreviation example_src :: u32 where "example_src \<equiv> IP4_ADDR 192 168 0 2"
abbreviation example_dest :: u32 where "example_dest \<equiv> IP4_ADDR 192 168 0 1"

text \<open>The fragments at the offsets \<open>ks\<close> are there, and one at offset \<open>k\<close> arrives.\<close>

lemma example_reass:
  assumes ks: "length ks < 10" "\<forall>j \<in> set (k # ks). j + 8 < 65536" "8 dvd k"
  obtains st :: "u8 list lwip" and fs f a d where "frags_ok (\<lambda>_. 0) (f # fs) (bufs st)" "frag_queue (bufs st) (rs_p d) fs" "map fr_start (f # fs) = k # ks"
    "\<forall>g \<in> set (f # fs). length (fr_data g) = 8 \<and> length (fr_pbufs g) = 1" "fragment_at (bufs st) f example_src example_dest 64 0 17 7 mf"
    "reass_entry st [] a [] d example_src example_dest 64 0 17 i" "ip_reass_pbufcount (get_reass st) = of_nat (length ks)" "rs_flags d = fl" "rs_datagram_len d = n"
    "net_pools (bufs st) = example_net_pools"
proof -
  from small_queue [of ks] ks obtain fs r s0 where s0: "small_frags fs s0" "frag_queue s0 r fs" "map fr_start fs = ks" by auto
  then have len: "length fs = length ks" by (metis length_map)
  with ks(1) have "length fs < 16" by simp
  from another_small_frag [OF s0(1,2) this, of k] obtain f h s1 where
    f: "small_frags (f # fs) s1" "frag_queue s1 r fs" "fr_start f = k" "payload_of s1 (fr_p f) = Some h" by blast
  from with_reassdata [OF f(1,2)] obtain a m where
    s2: "small_frags (f # fs) (s1\<lparr>net_memp := m\<rparr>)" "frag_queue (s1\<lparr>net_memp := m\<rparr>) r fs" "memp_inv (net_pools s1 ! 5) {a} m" by blast
  let ?s2 = "s1\<lparr>net_memp := m\<rparr>"
  define H where "H = ip4_frag_header 0 example_src example_dest 64 0 17 28 7 (frag_off f mf)"
  define s3 where "s3 = ?s2\<lparr>bytes := wr (bytes ?s2) (h + 0) H\<rparr>"
  have h: "payload_of ?s2 (fr_p f) = Some h" using f(4) by (simp add: payload_of_def)
  have lH: "0 + length H \<le> 20" "length H = 20" by (simp_all add: H_def)
  have ok2: "frags_ok (\<lambda>_. 0) (f # fs) ?s2" and small: "\<forall>g \<in> set (f # fs). length (fr_data g) = 8 \<and> length (fr_pbufs g) = 1" using s2(1) by (simp_all add: small_frags_def)
  have ok3: "frags_ok (\<lambda>_. 0) (f # fs) s3" unfolding s3_def by (rule frags_write [OF ok2 _ h lH(1)]) simp
  have "f \<notin> set fs" using ok2 frags_okD(1) [OF ok2, of f] by (cases "fr_pbufs f") (auto simp: frags_ok_def frag_mem_def)
  then have q3: "frag_queue s3 r fs" unfolding s3_def by (intro queue_other_write [OF ok2 _ h lH(1) s2(2)]) auto
  have "rd (bytes s3) h 20 = H" unfolding s3_def lH(2) [symmetric] by (simp add: rd_wr)
  moreover have "payload_of s3 (fr_p f) = Some h" using h by (simp add: s3_def payload_of_def)
  ultimately have at: "fragment_at s3 f example_src example_dest 64 0 17 7 mf" using f(3) ks small by (auto simp: fragment_at_def fr_end_def H_def)
  define d where "d = \<lparr>rs_next = None, rs_p = r, rs_iphdr = ip4_frag_header 0 example_src example_dest 64 0 17 28 i (frag_off f mf), rs_datagram_len = n, rs_flags = fl, rs_timer = 3\<rparr>"
  define st :: "u8 list lwip" where "st = on_reass (\<lambda>u. u\<lparr>reass_at := [a \<mapsto> d], reassdatagrams := Some a, ip_reass_pbufcount := of_nat (length ks)\<rparr>)
    (example_stack (example_protos undefined) s3)"
  have pools: "net_pools s3 = example_net_pools" using s2(1) by (simp add: s3_def small_frags_def)
  have "memp_inv (net_pools s3 ! 5) {a} (net_memp s3)" using s2(3) by (simp add: s3_def)
  then have "reass_entry st [] a [] d example_src example_dest 64 0 17 i" by (auto simp: reass_entry_def reass_list_def st_def linked_Cons d_def H_def)
  then show ?thesis using ok3 q3 at small s0(3) f(3) by (intro that [of f fs st d a]) (simp_all add: st_def d_def pools)
qed

section \<open>Properties\<close>

lemma contiguous_length: "contiguous (f # fs) \<Longrightarrow> fr_end (last (f # fs)) = fr_start f + length (concat (map fr_data (f # fs)))"
proof (induction fs arbitrary: f)
  case (Cons g fs)
  then show ?case by (simp add: fr_end_def)
qed (simp add: fr_end_def)

lemma contiguous_append: "contiguous (us @ vs) \<Longrightarrow> contiguous us" "contiguous (us @ vs) \<Longrightarrow> contiguous vs"
proof (induction us)
  case (Cons u us)
  { case 1 with Cons.IH show ?case by (cases us) auto }
  { case 2 with Cons.IH show ?case by (cases us; cases vs) auto }
qed simp_all

lemma ordered_length: "in_order (f # fs) \<Longrightarrow> fr_start f + length (concat (map fr_data (f # fs))) \<le> fr_end (last (f # fs))"
proof (induction fs arbitrary: f)
  case (Cons g fs)
  then have "fr_end f \<le> fr_start g" "in_order (g # fs)" by (auto simp: in_order_def)
  with Cons.IH [of g] show ?case by (simp add: fr_end_def)
qed (simp add: fr_end_def)

text \<open>C38: The first fragment of a datagram to arrive gets an entry at the head of the list of datagrams: ip4_reass keeps the packet, returns nothing, counts its pbufs and
  remembers whether the end of the datagram is known; the datagrams already on the list stay.\<close>

theorem ip4_reass_starts:
  assumes "frags_ok E [f] (bufs st)" and "fragment_at (bufs st) f src dest tt ts proto ident mf" and "unknown_datagram st xs src dest ident"
    and "unat (ip_reass_pbufcount (get_reass st)) + length (fr_pbufs f) \<le> IP_REASS_MAX_PBUFS" and "mf \<or> fr_start f \<noteq> 0" and "fr_data f \<noteq> []"
  shows "\<exists>a st' d'. ip4_reass env (fr_p f) st = Some (None, st') \<and> reass_entry st' [] a xs d' src dest tt ts proto ident
    \<and> frags_ok E [f] (bufs st') \<and> frag_queue (bufs st') (rs_p d') [f]
    \<and> rs_flags d' = (if mf then 0 else IP_REASS_FLAG_LASTFRAG) \<and> (\<not> mf \<longrightarrow> unat (rs_datagram_len d') = fr_end f)
    \<and> ip_reass_pbufcount (get_reass st') = ip_reass_pbufcount (get_reass st) + of_nat (length (fr_pbufs f))
    \<and> ifs st' = ifs st \<and> ip_data st' = ip_data st \<and> dev (rest st') = dev (rest st)"
proof -
  from ip4_reass_new_step [OF assms(1-4), of env] obtain a st2 d2 h where
    st2: "ip4_reass env (fr_p f) st
        = Option.bind (ip_reass_chain_frag_into_datagram_and_validate a (fr_p f) st2) (\<lambda>(complete, st'). if complete then reass_complete a st' else Some (None, st'))"
      "frags_ok E [f] (bufs st2)" "reass_entry st2 [] a xs d2 src dest tt ts proto ident" "rs_p d2 = None" "rs_flags d2 = (if mf then 0 else 1)"
      "\<not> mf \<longrightarrow> rs_datagram_len d2 = of_nat (fr_end f)" "ip_reass_pbufcount (get_reass st2) = ip_reass_pbufcount (get_reass st) + of_nat (length (fr_pbufs f))"
      "ifs st2 = ifs st" "ip_data st2 = ip_data st" "dev (rest st2) = dev (rest st)" "payload_of (bufs st2) (fr_p f) = Some h" "frag_header (bytes (bufs st2)) h f" by blast
  have pre: "frags_ok E (f # [] @ []) (bufs st2)" "frag_queue (bufs st2) (rs_p d2) ([] @ [])" "in_order ([] @ [f])" "payload_of (bufs st2) (fr_p f) = Some h"
    "frag_header (bytes (bufs st2)) h f" "\<not> seems_complete d2 [] f []" "[] @ [] \<noteq> [] \<or> fr_start f \<noteq> 0 \<or> rs_flags d2 AND 1 = 0"
    using st2 assms(5,6) by (auto simp: in_order_def seems_complete_def)
  have "fr_end f < 65536" using assms(2) by (simp add: fragment_at_def)
  then have len: "\<not> mf \<longrightarrow> unat (rs_datagram_len d2) = fr_end f" using st2(6) by (simp add: unat_of_nat)
  from fragment_waits [OF pre(1-3) st2(3) pre(4-7)] obtain st3 d3 where
    "Option.bind (ip_reass_chain_frag_into_datagram_and_validate a (fr_p f) st2)
        (\<lambda>(complete, st'). if complete then reass_complete a st' else Some (None, st')) = Some (None, st3)"
    "reass_entry st3 [] a xs d3 src dest tt ts proto ident" "frags_ok E (f # [] @ []) (bufs st3)" "frag_queue (bufs st3) (rs_p d3) ([] @ [f])"
    "rs_flags d3 = rs_flags d2" "rs_datagram_len d3 = rs_datagram_len d2" "ip_reass_pbufcount (get_reass st3) = ip_reass_pbufcount (get_reass st2)"
    "ifs st3 = ifs st2" "ip_data st3 = ip_data st2" "dev (rest st3) = dev (rest st2)" by blast
  then show ?thesis unfolding st2(1) using st2(5,7-10) len by (intro exI [of _ a] exI [of _ st3] exI [of _ d3]) simp
qed

theorem ip4_reass_starts_witness:
  "\<exists>(st :: u8 list lwip) st' f a (d' :: ip_reassdata). fr_start f = 8 \<and> ip4_reass proto_env (fr_p f) st = Some (None, st') \<and> frag_queue (bufs st') (rs_p d') [f]
     \<and> reass_list st' [the (reassdatagrams (get_reass st')), a] \<and> reass_list st [a]"
proof -
  obtain st :: "u8 list lwip" and fs f a d where
    s: "frags_ok (\<lambda>_. 0) (f # fs) (bufs st)" "frag_queue (bufs st) (rs_p d) fs" "map fr_start (f # fs) = [8]"
      "\<forall>g \<in> set (f # fs). length (fr_data g) = 8 \<and> length (fr_pbufs g) = 1" "fragment_at (bufs st) f example_src example_dest 64 0 17 7 True"
      "reass_entry st [] a [] d example_src example_dest 64 0 17 8" "ip_reass_pbufcount (get_reass st) = of_nat (length ([] :: nat list))"
      "rs_flags d = 0" "rs_datagram_len d = 0" "net_pools (bufs st) = example_net_pools"
    by (rule example_reass [where ks = "[]" and k = 8 and mf = True and fl = 0 and n = 0 and i = 8]) (simp, simp, simp, rule that)
  have f: "fs = []" "fr_start f = 8" "length (fr_data f) = 8" "length (fr_pbufs f) = 1" using s(3,4) by auto
  have "\<not> header_of (rs_iphdr d) example_src example_dest 7" using s(6) header_of_frag by (auto simp: reass_entry_def header_of_def) 
  moreover have l: "reass_list st [a]" "reass_at (get_reass st) a = Some d" using s(6) by (simp_all add: reass_entry_def)
  moreover have "unat (desc_num (net_pools (bufs st) ! 5)) = 10" unfolding s(10) by (simp add: example_net_pools_def)
  ultimately have u: "unknown_datagram st [a] example_src example_dest 7" by (simp add: unknown_datagram_def)
  have "frags_ok (\<lambda>_. 0) [f] (bufs st)" "fr_data f \<noteq> []" using s(1) f by auto
  from ip4_reass_starts [OF this(1) s(5) u, where env = proto_env] s(7) f this(2) obtain b st' d' where
    "ip4_reass proto_env (fr_p f) st = Some (None, st')" "reass_entry st' [] b [a] d' example_src example_dest 64 0 17 7" "frag_queue (bufs st') (rs_p d') [f]" by auto
  moreover from this(2) have "reass_list st' [b, a]" "reassdatagrams (get_reass st') = Some b" by (auto simp: reass_entry_def reass_list_def linked_Cons)
  ultimately show ?thesis using f(2) l(1) by (metis option.sel)
qed

text \<open>C13: A fragment that neither overlaps nor repeats a fragment already in the queue of its datagram, and with which the datagram is not yet complete, is put in its place in the queue, between the
  fragments in front of it and those behind it: ip4_reass returns nothing, no fragment is lost or copied, and the end of the datagram is remembered when the fragment is the last one. The
  one exception is made explicit: if there is a gap directly in front of a fragment that is put between others, something else has to be missing too, because the code does not look at this gap.\<close>

theorem ip4_reass_queues:
  assumes "reassembling E st xs a ys d us f vs" and "fragment_at (bufs st) f src dest tt ts proto ident mf"
    and "reass_entry st xs a ys d src dest tt ts proto ident" and "\<not> all_received d mf (us @ f # vs)"
    and "unseen_gap us f vs \<longrightarrow> mf \<and> rs_flags d AND IP_REASS_FLAG_LASTFRAG = 0 \<or> fr_start (hd us) \<noteq> 0 \<or> \<not> contiguous us \<or> \<not> contiguous (f # vs)"
  shows "\<exists>st' d'. ip4_reass env (fr_p f) st = Some (None, st') \<and> reass_entry st' xs a ys d' src dest tt ts proto ident
    \<and> frags_ok E (f # us @ vs) (bufs st') \<and> frag_queue (bufs st') (rs_p d') (us @ f # vs)
    \<and> rs_flags d' = (if mf then rs_flags d else rs_flags d OR IP_REASS_FLAG_LASTFRAG)
    \<and> rs_datagram_len d' = (if mf then rs_datagram_len d else of_nat (fr_end f))
    \<and> ip_reass_pbufcount (get_reass st') = ip_reass_pbufcount (get_reass st) + of_nat (length (fr_pbufs f))
    \<and> ifs st' = ifs st \<and> ip_data st' = ip_data st \<and> dev (rest st') = dev (rest st)"
proof -
  from assms(1) have ok: "frags_ok E (f # us @ vs) (bufs st)" "frag_queue (bufs st) (rs_p d) (us @ vs)" "in_order (us @ f # vs)" "us @ vs \<noteq> []"
    and n: "unat (ip_reass_pbufcount (get_reass st)) + length (fr_pbufs f) \<le> 10" by (simp_all add: reassembling_def)
  from ip4_reass_step [OF ok(1) assms(2,3) n, of env] obtain st1 d1 h where
    st1: "ip4_reass env (fr_p f) st = Option.bind (ip_reass_chain_frag_into_datagram_and_validate a (fr_p f) st1)
        (\<lambda>(complete, st'). if complete then reass_complete a st' else Some (None, st'))" "bufs st1 = bufs st" "reass_entry st1 xs a ys d1 src dest tt ts proto ident"
      "rs_p d1 = rs_p d" "rs_flags d1 = (if mf then rs_flags d else rs_flags d OR 1)" "rs_datagram_len d1 = (if mf then rs_datagram_len d else of_nat (fr_end f))"
      "ip_reass_pbufcount (get_reass st1) = ip_reass_pbufcount (get_reass st) + of_nat (length (fr_pbufs f))"
      "ifs st1 = ifs st" "ip_data st1 = ip_data st" "dev (rest st1) = dev (rest st)" "payload_of (bufs st) (fr_p f) = Some h" "frag_header (bytes (bufs st)) h f" by blast
  have sc: "\<not> seems_complete d1 us f vs" by (rule not_seems_complete [OF assms(4,5) st1(5)])
  from fragment_waits [of E f us vs st1 d1, OF _ _ ok(3) st1(3) _ _ sc, of h] ok st1 show ?thesis by auto
qed

theorem ip4_reass_queues_witness:
  "\<exists>(st :: u8 list lwip) st' (d' :: ip_reassdata) g f e. map fr_start [g, f, e] = [0, 16, 32] \<and> ip4_reass proto_env (fr_p f) st = Some (None, st') \<and> frag_queue (bufs st') (rs_p d') [g, f, e]"
proof -
  obtain st :: "u8 list lwip" and fs f a d where
    s: "frags_ok (\<lambda>_. 0) (f # fs) (bufs st)" "frag_queue (bufs st) (rs_p d) fs" "map fr_start (f # fs) = [16, 0, 32]"
      "\<forall>g \<in> set (f # fs). length (fr_data g) = 8 \<and> length (fr_pbufs g) = 1" "fragment_at (bufs st) f example_src example_dest 64 0 17 7 True"
      "reass_entry st [] a [] d example_src example_dest 64 0 17 7" "ip_reass_pbufcount (get_reass st) = of_nat (length [0 :: nat, 32])"
      "rs_flags d = 1" "rs_datagram_len d = 40" "net_pools (bufs st) = example_net_pools"
    by (rule example_reass [where ks = "[0, 32]" and k = 16 and mf = True and fl = 1 and n = 40 and i = 7]) (simp, simp, simp, rule that)
  from s(3) obtain g e where g: "fs = [g, e]" "fr_start f = 16" "fr_start g = 0" "fr_start e = 32" by auto
  have n: "length (fr_data f) = 8" "length (fr_data g) = 8" "length (fr_data e) = 8" "length (fr_pbufs f) = 1" "length (fr_pbufs g) = 1" "length (fr_pbufs e) = 1"
    using s(4) g(1) by simp_all
  then have "fr_data f \<noteq> []" "fr_data g \<noteq> []" "fr_data e \<noteq> []" by auto
  moreover have "frags_ok (\<lambda>_. 0) (f # [g] @ [e]) (bufs st)" "frag_queue (bufs st) (rs_p d) ([g] @ [e])" using s(1,2) g(1) by simp_all
  ultimately have r: "reassembling (\<lambda>_. 0) st [] a [] d [g] f [e]"
    using s(7) n g by (simp add: reassembling_def in_order_def fr_end_def)
  have c: "\<not> contiguous [f, e]" using g n by (simp add: fr_end_def)
  then have "\<not> all_received d True ([g] @ f # [e])" by (simp add: all_received_def)
  from ip4_reass_queues [OF r s(5,6) this, where env = proto_env] c obtain st' and d' :: ip_reassdata where
    "ip4_reass proto_env (fr_p f) st = Some (None, st')" "frag_queue (bufs st') (rs_p d') ([g] @ [f, e])" by blast
  moreover have "map fr_start [g, f, e] = [0, 16, 32]" using g by simp
  ultimately show ?thesis unfolding append_Cons append_Nil by (intro exI conjI)
qed

text \<open>C2: When a fragment fills the last gap of a datagram whose end is known, ip4_reass returns the datagram: the header of its first fragment with the length of the whole,
  no fragment offset and a correct checksum, followed by the data of all fragments in order. The entry of the datagram leaves the list and its memory goes back to the pool.\<close>

theorem ip4_reass_completes:
  assumes "reassembling E st xs a ys d us f vs" and "fragment_at (bufs st) f src dest tt ts proto ident mf"
    and "reass_entry st xs a ys d src dest tt ts proto ident" and "end_known d mf vs (fr_end (last (f # vs)))"
    and "contiguous (us @ f # vs)" and "fr_start (hd (us @ [f])) = 0"
  shows "\<exists>st'. ip4_reass env (fr_p f) st = Some (Some (fr_p (hd (us @ [f]))), st')
    \<and> packet E (fr_p (hd (us @ [f])))
        (ip4_datagram_header src dest tt ts proto (of_nat (IP_HLEN + length (concat (map fr_data (us @ f # vs))))) ident @ concat (map fr_data (us @ f # vs))) (bufs st')
    \<and> reass_list st' (xs @ ys) \<and> ifs st' = ifs st \<and> ip_data st' = ip_data st \<and> dev (rest st') = dev (rest st)"
proof -
  have c: "contiguous us" "vs = [] \<Longrightarrow> contiguous (us @ [f])" "contiguous (f # vs)" using assms(5) contiguous_append [of us "f # vs"] by auto
  obtain g gs where g: "us @ f # vs = g # gs" "g = hd (us @ [f])" by (cases us) auto
  then have "fr_end (last (us @ f # vs)) = length (concat (map fr_data (us @ f # vs)))" using contiguous_length [of g gs] assms(5,6) by simp
  then have len: "fr_end (last (f # vs)) = length (concat (map fr_data (us @ f # vs)))" by simp
  show ?thesis using ip4_reass_returns [OF assms(1-4) c(1,2) assms(6) c(3), where env = env] unfolding len .
qed

theorem ip4_reass_completes_witness:
  "\<exists>p q st st' X. length X = 16 \<and> ip4_reass proto_env p st = Some (Some q, st')
     \<and> packet (\<lambda>_. 0) q (ip4_datagram_header example_src example_dest 64 0 17 36 7 @ X) (bufs st') \<and> reass_list st' []"
proof -
  obtain st :: "u8 list lwip" and fs f a d where
    s: "frags_ok (\<lambda>_. 0) (f # fs) (bufs st)" "frag_queue (bufs st) (rs_p d) fs" "map fr_start (f # fs) = [8, 0]"
      "\<forall>g \<in> set (f # fs). length (fr_data g) = 8 \<and> length (fr_pbufs g) = 1" "fragment_at (bufs st) f example_src example_dest 64 0 17 7 False"
      "reass_entry st [] a [] d example_src example_dest 64 0 17 7" "ip_reass_pbufcount (get_reass st) = of_nat (length [0 :: nat])"
      "rs_flags d = 0" "rs_datagram_len d = 0" "net_pools (bufs st) = example_net_pools"
    by (rule example_reass [where ks = "[0]" and k = 8 and mf = False and fl = 0 and n = 0 and i = 7]) (simp, simp, simp, rule that)
  from s(3) obtain g where g: "fs = [g]" "fr_start f = 8" "fr_start g = 0" by auto
  have n: "length (fr_data f) = 8" "length (fr_data g) = 8" "length (fr_pbufs f) = 1" "length (fr_pbufs g) = 1" using s(4) g(1) by simp_all
  then have "fr_data f \<noteq> []" "fr_data g \<noteq> []" by auto
  then have r: "reassembling (\<lambda>_. 0) st [] a [] d [g] f []"
    using s(1,2,7) n g by (simp add: reassembling_def in_order_def fr_end_def)
  have "end_known d False [] (fr_end (last [f]))" "contiguous ([g] @ [f])" "fr_start (hd ([g] @ [f])) = 0" using n g by (simp_all add: end_known_def fr_end_def)
  from ip4_reass_completes [OF r s(5,6) this, where env = proto_env] obtain st' where
    "ip4_reass proto_env (fr_p f) st = Some (Some (fr_p g), st')" "packet (\<lambda>_. 0) (fr_p g) (ip4_datagram_header example_src example_dest 64 0 17 36 7 @ fr_data g @ fr_data f) (bufs st')"
    "reass_list st' []" using n by auto
  moreover have "length (fr_data g @ fr_data f) = 16" using n by simp
  ultimately show ?thesis by blast
qed

text \<open>C39: A hole in front of a new fragment that is put between others is overlooked: once the last fragment is there, ip4_reass returns a datagram with bytes missing, whose
  header announces the full length.\<close>

theorem ip4_reass_overlooks_hole:
  assumes "reassembling E st xs a ys d us f vs" and "fragment_at (bufs st) f src dest tt ts proto ident mf"
    and "reass_entry st xs a ys d src dest tt ts proto ident" and "end_known d mf vs (fr_end (last vs))"
    and "us \<noteq> []" "vs \<noteq> []" and "contiguous us" "fr_start (hd us) = 0" and "fr_end (last us) < fr_start f" and "contiguous (f # vs)"
  shows "\<exists>st' X. ip4_reass env (fr_p f) st = Some (Some (fr_p (hd us)), st')
    \<and> packet E (fr_p (hd us)) (ip4_datagram_header src dest tt ts proto (of_nat (IP_HLEN + fr_end (last vs))) ident @ X) (bufs st')
    \<and> X = concat (map fr_data (us @ f # vs)) \<and> length X + (fr_start f - fr_end (last us)) = fr_end (last vs)"
proof -
  from \<open>us \<noteq> []\<close> obtain u ws where u: "us = u # ws" by (cases us) auto
  have last: "fr_end (last (f # vs)) = fr_end (last vs)" "hd (us @ [f]) = hd us" using assms(5,6) by simp_all
  have "fr_end (last us) = length (concat (map fr_data us))" using contiguous_length [of u ws] assms(7,8) u by simp
  moreover have "fr_end (last vs) = fr_start f + length (concat (map fr_data (f # vs)))" using contiguous_length [OF assms(10)] last by simp
  ultimately have len: "length (concat (map fr_data (us @ f # vs))) + (fr_start f - fr_end (last us)) = fr_end (last vs)" using assms(9) by simp
  have "end_known d mf vs (fr_end (last (f # vs)))" using assms(4,6) by simp
  moreover have "fr_start (hd (us @ [f])) = 0" using assms(8) last(2) by simp
  moreover have "vs = [] \<Longrightarrow> contiguous (us @ [f])" using assms(6) by simp
  ultimately show ?thesis using ip4_reass_returns [OF assms(1-3) _ assms(7), where env = env] assms(10) len unfolding last by blast
qed

theorem ip4_reass_overlooks_hole_witness:
  "\<exists>p q st st' X. length X = 24 \<and> ip4_reass proto_env p st = Some (Some q, st')
     \<and> packet (\<lambda>_. 0) q (ip4_datagram_header example_src example_dest 64 0 17 52 7 @ X) (bufs st')"
proof -
  obtain st :: "u8 list lwip" and fs f a d where
    s: "frags_ok (\<lambda>_. 0) (f # fs) (bufs st)" "frag_queue (bufs st) (rs_p d) fs" "map fr_start (f # fs) = [16, 0, 24]"
      "\<forall>g \<in> set (f # fs). length (fr_data g) = 8 \<and> length (fr_pbufs g) = 1" "fragment_at (bufs st) f example_src example_dest 64 0 17 7 True"
      "reass_entry st [] a [] d example_src example_dest 64 0 17 7" "ip_reass_pbufcount (get_reass st) = of_nat (length [0 :: nat, 24])"
      "rs_flags d = 1" "rs_datagram_len d = 32" "net_pools (bufs st) = example_net_pools"
    by (rule example_reass [where ks = "[0, 24]" and k = 16 and mf = True and fl = 1 and n = 32 and i = 7]) (simp, simp, simp, rule that)
  from s(3) obtain g e where g: "fs = [g, e]" "fr_start f = 16" "fr_start g = 0" "fr_start e = 24" by auto
  have n: "length (fr_data f) = 8" "length (fr_data g) = 8" "length (fr_data e) = 8" "length (fr_pbufs f) = 1" "length (fr_pbufs g) = 1" "length (fr_pbufs e) = 1"
    using s(4) g(1) by simp_all
  then have "fr_data f \<noteq> []" "fr_data g \<noteq> []" "fr_data e \<noteq> []" by auto
  moreover have "frags_ok (\<lambda>_. 0) (f # [g] @ [e]) (bufs st)" "frag_queue (bufs st) (rs_p d) ([g] @ [e])" using s(1,2) g(1) by simp_all
  ultimately have r: "reassembling (\<lambda>_. 0) st [] a [] d [g] f [e]"
    using s(7) n g by (simp add: reassembling_def in_order_def fr_end_def)
  have "end_known d True [e] (fr_end (last [e]))" using s(8,9) g n by (simp add: end_known_def fr_end_def)
  from ip4_reass_overlooks_hole [OF r s(5,6) this, where env = proto_env] n g obtain st' X where
    "ip4_reass proto_env (fr_p f) st = Some (Some (fr_p g), st')" "packet (\<lambda>_. 0) (fr_p g) (ip4_datagram_header example_src example_dest 64 0 17 52 7 @ X) (bufs st')"
    "length X = 24" by (auto simp: fr_end_def)
  then show ?thesis by blast
qed

text \<open>C40: Fragments that contradict the last one stop the stack: when the fragments received are without holes but do not end where the fragment without the flag for more
  fragments said they would, an assertion fails.\<close>

theorem ip4_reass_aborts:
  assumes "reassembling E st xs a ys d us f vs" and "fragment_at (bufs st) f src dest tt ts proto ident mf"
    and "reass_entry st xs a ys d src dest tt ts proto ident" and "contiguous (us @ f # vs)" "fr_start (hd (us @ [f])) = 0"
    and "if mf then rs_flags d AND IP_REASS_FLAG_LASTFRAG \<noteq> 0 \<and> unat (rs_datagram_len d) \<noteq> fr_end (last (f # vs)) else vs \<noteq> []"
  shows "ip4_reass env (fr_p f) st = None"
proof -
  from assms(1) have ok: "frags_ok E (f # us @ vs) (bufs st)" "frag_queue (bufs st) (rs_p d) (us @ vs)" "in_order (us @ f # vs)"
    and n: "unat (ip_reass_pbufcount (get_reass st)) + length (fr_pbufs f) \<le> 10" by (simp_all add: reassembling_def)
  from ip4_reass_step [OF ok(1) assms(2,3) n, of env] obtain st1 d1 h where
    st1: "ip4_reass env (fr_p f) st = Option.bind (ip_reass_chain_frag_into_datagram_and_validate a (fr_p f) st1)
        (\<lambda>(complete, st'). if complete then reass_complete a st' else Some (None, st'))" "bufs st1 = bufs st" "reass_entry st1 xs a ys d1 src dest tt ts proto ident"
      "rs_p d1 = rs_p d" "rs_flags d1 = (if mf then rs_flags d else rs_flags d OR 1)" "rs_datagram_len d1 = (if mf then rs_datagram_len d else of_nat (fr_end f))"
      "payload_of (bufs st) (fr_p f) = Some h" "frag_header (bytes (bufs st)) h f" by blast
  have c: "contiguous us" "vs = [] \<Longrightarrow> contiguous (us @ [f])" "contiguous (f # vs)" using assms(4) contiguous_append [of us "f # vs"] by auto
  have sc: "seems_complete d1 us f vs" using c assms(5,6) st1(5) last_flag by (auto simp: seems_complete_def split: if_splits)
  have "fr_end f < fr_end (last (f # vs))" if vs: "vs \<noteq> []"
  proof -
    obtain v ws where v: "vs = v # ws" using vs by (cases vs) auto
    have o: "in_order (v # ws)" "fr_end f \<le> fr_start v" "fr_data v \<noteq> []" using ok(3) v by (auto simp: in_order_def sorted_wrt_append)
    from o(3) have "0 < length (concat (map fr_data (v # ws)))" by simp
    then have "fr_end f < fr_end (last (v # ws))" using ordered_length [OF o(1)] o(2) by linarith
    then show ?thesis using v by simp
  qed
  moreover have "unat (of_nat (fr_end f) :: u16) = fr_end f" using assms(2) by (simp add: fragment_at_def unat_of_nat)
  ultimately have "unat (rs_datagram_len d1) \<noteq> fr_end (last (f # vs))" using assms(6) st1(6) by (auto split: if_splits)
  then have "ip_reass_chain_frag_into_datagram_and_validate a (fr_p f) st1 = None"
    using chain_frag_aborts [of E f us vs st1 a d1 h] ok st1 sc by (simp add: reass_entry_def)
  then show ?thesis using st1(1) by simp
qed

theorem ip4_reass_aborts_witness:
  "\<exists>(st :: u8 list lwip) f. fragment_at (bufs st) f example_src example_dest 64 0 17 7 False \<and> fr_start f = 0 \<and> length (fr_data f) = 8 \<and> ip4_reass proto_env (fr_p f) st = None"
proof -
  obtain st :: "u8 list lwip" and fs f a d where
    s: "frags_ok (\<lambda>_. 0) (f # fs) (bufs st)" "frag_queue (bufs st) (rs_p d) fs" "map fr_start (f # fs) = [0, 8]"
      "\<forall>g \<in> set (f # fs). length (fr_data g) = 8 \<and> length (fr_pbufs g) = 1" "fragment_at (bufs st) f example_src example_dest 64 0 17 7 False"
      "reass_entry st [] a [] d example_src example_dest 64 0 17 7" "ip_reass_pbufcount (get_reass st) = of_nat (length [8 :: nat])"
      "rs_flags d = 0" "rs_datagram_len d = 0" "net_pools (bufs st) = example_net_pools"
    by (rule example_reass [where ks = "[8]" and k = 0 and mf = False and fl = 0 and n = 0 and i = 7]) (simp, simp, simp, rule that)
  from s(3) obtain g where g: "fs = [g]" "fr_start f = 0" "fr_start g = 8" by auto
  have n: "length (fr_data f) = 8" "length (fr_data g) = 8" "length (fr_pbufs f) = 1" "length (fr_pbufs g) = 1" using s(4) g(1) by simp_all
  then have "fr_data f \<noteq> []" "fr_data g \<noteq> []" by auto
  then have "reassembling (\<lambda>_. 0) st [] a [] d [] f [g]" using s(1,2,7) n g by (simp add: reassembling_def in_order_def fr_end_def)
  from ip4_reass_aborts [OF this s(5,6), where env = proto_env] s(5) n g show ?thesis by (auto simp: fr_end_def)
qed

end
