(* ===== verification/Spec2Isabelle.thy ===== *)
theory Spec2Isabelle
  imports Inet_Chksum Ip4_Addr Timeouts Ip4_Path Raw Udp_Path Icmp_Props Ip4_Frag Reass_Path
begin

text \<open>
  A verification library for the port of the lwIP 2.0.1 TCP/IP stack to a microcontroller with a serial line (SLIP).

  \<^bold>\<open>The program.\<close> The stack runs without an operating system of its own (\<^verbatim>\<open>NO_SYS\<close>): a main loop polls the serial interface and the timers, and everything else
  happens in calls from there. Bytes from the serial port driver (\<^verbatim>\<open>port/sio.c\<close>) are put together to packets by the SLIP interface (\<^verbatim>\<open>netif/slipif.c\<close>), which
  hands them through the interface (\<^verbatim>\<open>core/netif.c\<close>) to IP (\<^verbatim>\<open>core/ipv4/ip4.c\<close>). IP forwards them, or reassembles them (\<^verbatim>\<open>core/ipv4/ip4_frag.c\<close>) and gives
  them to raw control blocks (\<^verbatim>\<open>core/raw.c\<close>), UDP (\<^verbatim>\<open>core/udp.c\<close>), TCP or ICMP (\<^verbatim>\<open>core/ipv4/icmp.c\<close>), and from there to callbacks of applications. Sending
  goes the other way. All packets live in chains of packet buffers (\<^verbatim>\<open>core/pbuf.c\<close>), whose memory comes from pools (\<^verbatim>\<open>core/memp.c\<close>) and a heap
  (\<^verbatim>\<open>core/mem.c\<close>). The configuration is that of \<^verbatim>\<open>port/lwipopts.h\<close>: IPv4 only, forwarding, reassembly and the loopback interface on, checksums in software.

  \<^bold>\<open>Conventions.\<close> Integers have the width of the source (\<open>u8\<close>, \<open>u16\<close>, \<open>u32\<close>) where wrap-around can matter. Structures in memory are records in a store from
  addresses to records; a null pointer is \<open>None\<close>. Packet data and headers are bytes in a memory from addresses to bytes. A failed assertion, the use of a null pointer and
  of a pointer to a structure that is not there are the result \<open>None\<close> of an operation, so that every statement that an operation returns is a statement that it does not abort. The
  memory of bytes is total: reading behind the payload of a pbuf gives the byte that lies there. Loops
  over linked structures are \<^verbatim>\<open>partial_function (option)\<close>: not to return is \<open>None\<close> too, and no bound on the number of steps is built into them. That they return is
  part of the lemmas, from the hypothesis that the structure is a proper list.

  \<^bold>\<open>The theories.\<close> In the order of their dependence:
  \<^item> \<open>Lwip_Prelude\<close>, \<open>Lwip_Def\<close>: integer types, error codes, assertions, and \<^verbatim>\<open>core/def.c\<close> (byte order, replacements of string functions).
  \<^item> \<open>Inet_Chksum\<close>: \<^verbatim>\<open>core/inet_chksum.c\<close>. The three algorithms satisfy one interface, the locale \<open>chksum_alg\<close>, whose lemmas give the
    checksums over chains and pseudo headers; they agree with the sum of RFC 1071.
  \<^item> \<open>Ip4_Addr\<close>: \<^verbatim>\<open>core/ipv4/ip4_addr.c\<close>: addresses and their text form.
  \<^item> \<open>Memp\<close>, \<open>Mem\<close>: the pools and the heap, with the contracts \<open>element_pool\<close>, \<open>area_heap\<close> and \<open>bounded_heap\<close>, and invariants on the free lists and blocks.
  \<^item> \<open>Timeouts\<close>: \<^verbatim>\<open>core/timeouts.c\<close>: one-shot and cyclic timers; the handlers of other components are parameters.
  \<^item> \<open>Pbuf\<close>, \<open>Pbuf_Alloc\<close>, \<open>Pbuf_Chain\<close>, \<open>Pbuf_Data\<close>, \<open>Pbuf_Copy\<close>, \<open>Pbuf_Props\<close>: \<^verbatim>\<open>core/pbuf.c\<close>. \<open>net_ok E s\<close> is the invariant of the store of
    pbufs: the memory of each belongs to it alone, and its count of references is that of the pointers to it in the store plus the references \<open>E\<close> that others hold.
  \<^item> \<open>Slipif\<close>: \<^verbatim>\<open>netif/slipif.c\<close> and \<^verbatim>\<open>port/sio.c\<close>. The receiver refines an abstract SLIP decoder, and receives what the sender sends.
  \<^item> \<open>Linked_List\<close>, \<open>Netif\<close>, \<open>Netif_Loop\<close>: \<^verbatim>\<open>core/netif.c\<close>: the list of interfaces, with the locale \<open>netif_driver\<close> for what \<open>netif_add\<close> relies on, and
    the loopback queue, which refines a first-in first-out queue of packets, whatever the receiver of the packets does.
  \<^item> \<open>Ip4\<close>, \<open>Ip4_Hdr\<close>, \<open>Packet\<close>, \<open>Ip4_Props\<close>, \<open>Ip4_Check\<close>, \<open>Ip4_Path\<close>: \<^verbatim>\<open>core/ipv4/ip4.c\<close>: routing, output, forwarding, the packets that are dropped for their header, and delivery. \<open>packet E p D s\<close> says
    that the packet \<open>p\<close> has the data \<open>D\<close> and only one reference, and \<open>tx_packet\<close> that it has room for headers as well.
  \<^item> \<open>Protos\<close>: the state of the protocols above IP, and of reassembly.
  \<^item> \<open>Udp\<close>, \<open>Udp_Bind\<close>, \<open>Udp_Path\<close>: \<^verbatim>\<open>core/udp.c\<close>: control blocks and ports, sending and receiving, UDP-Lite.
  \<^item> \<open>Raw\<close>: \<^verbatim>\<open>core/raw.c\<close>. \<open>Icmp\<close>, \<open>Icmp_Props\<close>: \<^verbatim>\<open>core/ipv4/icmp.c\<close>: error messages, and echo replies, in
    place for packets with room for the link header (all that come from the serial line or the loopback queue) and from a copy otherwise.
  \<^item> \<open>Ip4_Reass\<close>, \<open>Reass_Queue\<close>, \<open>Reass_Props\<close>, \<open>Reass_Path\<close>: the first half of \<^verbatim>\<open>core/ipv4/ip4_frag.c\<close>. A fragment is described by its pbufs, offset and data;
    \<open>frag_queue\<close> says that a list of fragments is the one linked in memory through the structures in the place of their headers. The lemmas show what becomes of a fragment that is the first of
    its datagram, that leaves it incomplete without overlapping the others, and that completes it, and two flaws of the test for completeness.
  \<^item> \<open>Ip4_Frag\<close>: the second half of \<^verbatim>\<open>core/ipv4/ip4_frag.c\<close>: sending a datagram in fragments of custom pbufs. The lemmas are on the sizes of fragments and the flag for more
    fragments, which is right when the room for data is a multiple of 8 bytes, and on the datagrams that are refused.
  \<^item> This theory puts the parts together (\<open>lwip_env\<close>): what an application sends over UDP on one host is what an application on another host receives.

  \<^bold>\<open>What is assumed.\<close> The drivers of the kernel are parameters: the UART writes the bytes it is given in order (\<open>uart_ok\<close>), and a mailbox is a queue that loses bytes when it is full
  (\<open>mailbox_ok\<close>). Callbacks of applications are parameters (\<open>apps\<close>). The IP layer is proved for all functions around it (\<open>ip_env\<close>), without any
  contract on them: the theorems say which of them is called with which packet, and what becomes of a packet that none of them gets. TCP is such a function. That input never aborts is not true of
  the whole stack: fragments that contradict each other and UDP-Lite datagrams with a checksum coverage beyond their end make it stop in a failed assertion, which is proved here too.

  \<^bold>\<open>Bounds.\<close> Lengths and counts are those of the configuration: 16 pbufs of 128 bytes in the pool, a heap of 512 bytes, 10 packets on the loopback queue, 10 pbufs and 10 datagrams under
  reassembly, 1500 bytes in a SLIP frame. The statements on packets ask that lengths fit in 16 bits, as the code does.

  \<^bold>\<open>Not modelled.\<close> TCP (\<^verbatim>\<open>core/tcp.c\<close>, \<^verbatim>\<open>tcp_in.c\<close>, \<^verbatim>\<open>tcp_out.c\<close>): a parameter of IP and the timers. ARP, Ethernet, DHCP and AutoIP: not used on a point-to-point line. IPv6, PPP, 6LoWPAN, SNMP, DNS, IGMP, the sequential and the socket
  API: switched off or for operating systems the port does not have. Start-up, the main loop and the applications: glue and clients of the components above. Debug output and the
  counters of the MIB are compiled out.
\<close>

section \<open>The stack put together\<close>

text \<open>The functions the IP layer calls, with the protocols that are modelled here in their places. TCP remains a parameter.\<close>

definition lwip_env :: "'v protos ip_env \<Rightarrow> 'v apps \<Rightarrow> 'v protos ip_env" where
  "lwip_env env app = env\<lparr>raw_input_fn := raw_input app, icmp_input_fn := icmp_input env, icmp_dest_unreach_fn := icmp_dest_unreach env,
     icmp_time_exceeded_fn := icmp_time_exceeded env, ip4_reass_fn := ip4_reass (env\<lparr>icmp_time_exceeded_fn := icmp_time_exceeded env\<rparr>),
     ip4_frag_fn := ip4_frag env,
     udp_input_fn := udp_input (env\<lparr>icmp_dest_unreach_fn := icmp_dest_unreach env\<rparr>) app\<rparr>"

lemma lwip_env_simps [simp]:
  "raw_input_fn (lwip_env env app) = raw_input app" "icmp_input_fn (lwip_env env app) = icmp_input env"
  "udp_input_fn (lwip_env env app) = udp_input (env\<lparr>icmp_dest_unreach_fn := icmp_dest_unreach env\<rparr>) app"
  by (simp_all add: lwip_env_def)

lemma raw_input_none:
  assumes "current_netif (ip_data st) = Some a" "netif_at (ifs st) a = Some n" "pbufs (bufs st) p = Some b" "pb_payload b = Some pl" "raw_pcbs (get_raw st) = None"
  shows "raw_input app p inp st = Some (False, st)"
  using assms by (simp add: raw_input_def raw_loop.simps)

lemma udp_target_cong:
  assumes "current_iphdr_src g = current_iphdr_src g'" "current_iphdr_dest g = current_iphdr_dest g'"
  shows "udp_target u xs sport dport broadcast m g = udp_target u xs sport dport broadcast m g'"
proof -
  have "udp_input_local_match g m broadcast = udp_input_local_match g' m broadcast" using assms by (simp add: udp_input_local_match_def fun_eq_iff)
  then have "full_match sport dport broadcast m g = full_match sport dport broadcast m g'" "unconnected_match dport broadcast m g = unconnected_match dport broadcast m g'"
    using assms by (simp_all add: full_match_def unconnected_match_def fun_eq_iff)
  then show ?thesis by (simp only: udp_target_def)
qed

text \<open>A datagram that arrives reaches the application.\<close>

lemma udp_received:
  assumes pk: "packet E p (ip4_datagram_header src dest tt ts IP_PROTO_UDP (of_nat (length D + UDP_HLEN + IP_HLEN)) ident @ udp_datagram src dest sport dport D) (bufs st)"
      "length D + UDP_HLEN + IP_HLEN < 65536"
    and b: "pbufs (bufs st) p = Some b" "IP_HLEN + UDP_HLEN \<le> pb_len b" and m: "netif_at (ifs st) inp = Some m" "for_us m src dest"
    and raw: "raw_pcbs (get_raw st) = None" and l: "udp_linked (get_udp st) xs"
    and a: "udp_target (get_udp st) xs sport dport (ip4_addr_isbroadcast_u32 dest m) m (no_packet\<lparr>current_iphdr_src := src, current_iphdr_dest := dest\<rparr>) = Some a"
      "udp_at (get_udp st) a = Some c" "u_recv c = Some f"
  shows "\<exists>st'. ip4_input (lwip_env env app) p inp st
      = map_option (\<lambda>st. (ERR_OK, st\<lparr>ip_data := no_packet\<rparr>)) (udp_recv_fn app f (u_recv_arg c) a p src sport st')
    \<and> packet E p D (bufs st') \<and> ifs st' = ifs st \<and> dev (rest st') = dev (rest st)"
proof -
  let ?env = "lwip_env env app" and ?X = "udp_datagram src dest sport dport D"
  obtain pl where pl: "pb_payload b = Some pl" using pk(1) b(1) by (auto elim!: packetE)
  have X: "packet E p (ip4_datagram_header src dest tt ts 17 (of_nat (length ?X + 20)) ident @ ?X) (bufs st)" "length ?X + 20 < 65536" "20 \<le> pb_len b"
    using pk b(2) by simp_all
  have up: "upper_input ?env 17 = Some (udp_input_fn ?env)" by (simp add: upper_input_def)
  have raw': "raw_input_fn ?env p inp t = Some (False, t)" if "bufs t = bufs st" "ifs t = ifs st" "rest t = rest st" "current_netif (ip_data t) = Some inp" for t
    using raw_input_none [of t inp m p b pl app inp] that m(1) b(1) pl raw by (simp add: get_raw_def)
  from ip4_input_gives [OF X(1,2) b(1) X(3) m raw' up] obtain st1 ih where
    st1: "ip4_input ?env p inp st = map_option (\<lambda>st. (ERR_OK, st\<lparr>ip_data := no_packet\<rparr>)) (udp_input_fn ?env p inp st1)" "packet E p ?X (bufs st1)"
      "ip_data st1 = \<lparr>current_netif = Some inp, current_input_netif = Some inp, current_ip4_header = Some ih, current_ip_header_tot_len = 20,
        current_iphdr_src = src, current_iphdr_dest = dest\<rparr>" "IPH_PROTO (bytes (bufs st1)) ih = 17"
      "pbufs (bufs st1) p = Some (b\<lparr>pb_payload := Some (ih + 20), pb_len := pb_len b - 20, pb_tot_len := pb_tot_len b - 20\<rparr>)" "ifs st1 = ifs st" "rest st1 = rest st"
    by blast
  have u: "get_udp st1 = get_udp st" using st1(7) by (simp add: get_udp_def)
  have t: "udp_target (get_udp st1) xs sport dport (ip4_addr_isbroadcast_u32 dest m) m (ip_data st1) = Some a"
    unfolding u using a(1) udp_target_cong [of "ip_data st1" "no_packet\<lparr>current_iphdr_src := src, current_iphdr_dest := dest\<rparr>"] st1(3) by simp
  have pre: "length D + 8 < 65536" "8 \<le> pb_len (b\<lparr>pb_payload := Some (ih + 20), pb_len := pb_len b - 20, pb_tot_len := pb_tot_len b - 20\<rparr>)"
    "current_netif (ip_data st1) = Some inp" "current_ip4_header (ip_data st1) = Some ih" "current_iphdr_src (ip_data st1) = src"
    "current_iphdr_dest (ip_data st1) = dest" "netif_at (ifs st1) inp = Some m" "udp_linked (get_udp st1) xs" "udp_at (get_udp st1) a = Some c"
    using pk(2) b(2) st1(3,6) m(1) l a(2) u by simp_all
  from udp_input_gives [OF st1(2) pre(1) st1(5) pre(2-6) st1(4) pre(7,8) t pre(9) a(3), of "env\<lparr>icmp_dest_unreach_fn := icmp_dest_unreach env\<rparr>" app] st1(1,6,7)
  show ?thesis by fastforce
qed

section \<open>An example\<close>

text \<open>A host 192.168.0.2 with an application on port 9, which drops what it gets.\<close>

definition example_listener :: udp_state where
  "example_listener = \<lparr>udp_at = [40 \<mapsto> new_udp_pcb\<lparr>u_local_port := 9, u_recv := Some 1\<rparr>], udp_pcbs = Some 40, udp_port = UDP_LOCAL_PORT_RANGE_START, udp_stats = no_stats\<rparr>"

definition example_peer_netif :: netif where
  "example_peer_netif = example_serial\<lparr>ip_addr := IP4_ADDR 192 168 0 2, nf_next := None\<rparr>"

definition example_peer :: "u8 list lwip" where
  "example_peer = (example_stack (example_protos example_listener) example_net)\<lparr>ifs := example_host\<lparr>netif_at := [6 \<mapsto> example_peer_netif]\<rparr>\<rparr>"

section \<open>Claims\<close>

text \<open>C1: UDP from end to end. What an application gives to \<open>udp_sendto\<close> on one host is put on the serial line as one frame; the bytes of this frame make an idle receiver deliver
  one packet, and \<open>ip4_input\<close> of the receiving host gives exactly the data sent, with the address and port of the sender, to the receive callback of the control block the datagram is for.\<close>

theorem udp_end_to_end:
  assumes "UART_write env = on_dev write" "uart_ok write line" "tx_packet E p k D (bufs st)" "IP_HLEN + UDP_HLEN \<le> k"
    and "udp_at (get_udp st) a = Some b" "sends_from b n" "ip4_route dst st = Some (Some netif, st)"
    and "slip_link st netif n dst (length D + UDP_HLEN + IP_HLEN)" "length D + UDP_HLEN + IP_HLEN \<le> SLIP_MAX_SIZE"
    and "net_ok F (bufs rt)" "slip_idle r" "card (pool_pbufs (bufs rt)) + (length D + UDP_HLEN + IP_HLEN + 95) div 96 \<le> unat (desc_num (pool_desc (bufs rt)))"
    and "netif_at (ifs rt) inp = Some m" "for_us m (ip_addr n) dst" "raw_pcbs (get_raw rt) = None" "udp_linked (get_udp rt) xs"
    and "udp_target (get_udp rt) xs (u_local_port b) dport (ip4_addr_isbroadcast_u32 dst m) m (no_packet\<lparr>current_iphdr_src := ip_addr n, current_iphdr_dest := dst\<rparr>) = Some a'"
    and "udp_at (get_udp rt) a' = Some c" "u_recv c = Some f"
  shows "\<exists>st' frame q r' s' rt'. udp_sendto env (Some a) p (Some dst) dport st = Some (ERR_OK, st') \<and> line (dev (rest st')) = line (dev (rest st)) @ frame
    \<and> rx_run frame r (bufs rt) = Some ([q], r', s') \<and> slip_idle r'
    \<and> ip4_input (lwip_env env' app) q inp (rt\<lparr>bufs := s'\<rparr>)
        = map_option (\<lambda>st. (ERR_OK, st\<lparr>ip_data := no_packet\<rparr>)) (udp_recv_fn app f (u_recv_arg c) a' q (ip_addr n) (u_local_port b) rt')
    \<and> packet F q D (bufs rt')"
proof -
  let ?X = "ip4_datagram_header (ip_addr n) dst (ttl b) (tos b) 17 (of_nat (length D + 8 + 20)) (ip_id st) @ udp_datagram (ip_addr n) dst (u_local_port b) dport D"
  from udp_sendto_ok [OF assms(1-8)] obtain st' where
    st': "udp_sendto env (Some a) p (Some dst) dport st = Some (ERR_OK, st')" "line (dev (rest st')) = line (dev (rest st)) @ slip_frame ?X" by blast
  have X: "?X \<noteq> []" "length ?X \<le> 1500 + 1" "card (pool_pbufs (bufs rt)) + (length ?X + 95) div 96 \<le> unat (desc_num (pool_desc (bufs rt)))"
    using assms(9,12) by (auto simp: ac_simps simp flip: length_greater_0_conv)
  from rx_frame [OF assms(10,11) X] obtain q r' s' hb where
    q: "rx_run (slip_frame ?X) r (bufs rt) = Some ([q], r', s')" "packet F q ?X s'" "slip_idle r'" "pbufs s' q = Some hb" "pb_len hb = min 96 (length ?X)" by blast
  let ?rt = "rt\<lparr>bufs := s'\<rparr>"
  have pre: "packet F q ?X (bufs ?rt)" "length D + 8 + 20 < 65536" "pbufs (bufs ?rt) q = Some hb" "20 + 8 \<le> pb_len hb" "netif_at (ifs ?rt) inp = Some m"
    "raw_pcbs (get_raw ?rt) = None" "get_udp ?rt = get_udp rt" using q assms(9,13,15) by (simp_all add: get_raw_def get_udp_def)
  from udp_received [OF pre(1-5) assms(14) pre(6), unfolded pre(7), OF assms(16-19), of env' app] st' q(1,3) show ?thesis by blast
qed

theorem udp_end_to_end_witness:
  "\<exists>p D s st' frame q r' s' rt'. pbuf_alloc PBUF_TRANSPORT 50 PBUF_POOL example_net = Some (Some p, s) \<and> length D = 50
     \<and> udp_sendto proto_env (Some 20) p (Some (IP4_ADDR 192 168 0 2)) 9 (example_stack (example_protos example_upcbs) s) = Some (ERR_OK, st')
     \<and> dev (rest st') = frame \<and> rx_run frame idle_priv example_net = Some ([q], r', s')
     \<and> ip4_input (lwip_env proto_env example_apps) q 6 (example_peer\<lparr>bufs := s'\<rparr>) = map_option (\<lambda>st. (ERR_OK, st\<lparr>ip_data := no_packet\<rparr>)) (ip_free q rt')
     \<and> packet (\<lambda>_. 0) q D (bufs rt')"
proof -
  let ?d = "IP4_ADDR 192 168 0 2"
  obtain p D s where p: "pbuf_alloc PBUF_TRANSPORT 50 PBUF_POOL example_net = Some (Some p, s)" "length D = 50"
    "tx_packet ((\<lambda>_. 0)(p := 1)) p (layer_offset PBUF_TRANSPORT) D s" by (rule example_tx_packet)
  let ?st = "example_stack (example_protos example_upcbs) s :: u8 list lwip"
  have env: "UART_write proto_env = on_dev example_uart" by (simp add: proto_env_def)
  have tx: "tx_packet ((\<lambda>_. 0)(p := 1)) p (layer_offset PBUF_TRANSPORT) D (bufs ?st)" "20 + 8 \<le> layer_offset PBUF_TRANSPORT" using p(3) by simp_all
  let ?b = "new_udp_pcb\<lparr>u_local_port := 7, remote_ip := 0x0200000A, u_remote_port := 4000, u_flags := UDP_FLAGS_CONNECTED\<rparr>"
  have b: "udp_at (get_udp ?st) 20 = Some ?b" "sends_from ?b example_serial"
    by (simp_all add: get_udp_def example_stack_def example_protos_def example_upcbs_def sends_from_def plain_udp_def new_udp_pcb_def example_serial_def
        example_addrs ip4_addr_ismulticast_def PP_HTONL_def)
  have r: "ip4_route ?d ?st = Some (Some 6, ?st)" using ip4_route_eq [of ?st "[6, 7]" ?d] by (simp add: example_host_linked example_routes example_host_at)
  have l: "slip_link ?st 6 example_serial ?d (length D + 8 + 20)" "length D + 8 + 20 \<le> 1500"
    using p(2) by (simp_all add: slip_link_def example_host_at) (simp add: example_serial_def example_netif_def example_addrs)
  have rx: "net_ok (\<lambda>_. 0) (bufs example_peer)" "card (pool_pbufs (bufs example_peer)) + (length D + 8 + 20 + 95) div 96 \<le> unat (desc_num (pool_desc (bufs example_peer)))"
    using example_net_ok p(2) by (simp_all add: example_peer_def pool_pbufs_def example_net_def example_net_pools_def)
  have m: "netif_at (ifs example_peer) 6 = Some example_peer_netif" "for_us example_peer_netif (ip_addr example_serial) ?d"
    by (simp_all add: example_peer_def example_host_def) (simp add: example_peer_netif_def for_us_def netif_is_up_def example_serial_def example_netif_def example_addrs
      ip4_addr_ismulticast_def PP_HTONL_def ip4_addr_isbroadcast_u32_def ip4_addr_netcmp_def)
  have u: "raw_pcbs (get_raw example_peer) = None" "udp_linked (get_udp example_peer) [40]"
    "udp_target (get_udp example_peer) [40] (u_local_port ?b) 9 (ip4_addr_isbroadcast_u32 ?d example_peer_netif) example_peer_netif
      (no_packet\<lparr>current_iphdr_src := ip_addr example_serial, current_iphdr_dest := ?d\<rparr>) = Some 40"
    "udp_at (get_udp example_peer) 40 = Some (new_udp_pcb\<lparr>u_local_port := 9, u_recv := Some 1\<rparr>)" "u_recv (new_udp_pcb\<lparr>u_local_port := 9, u_recv := Some 1\<rparr>) = Some 1"
    by (simp_all add: example_peer_def get_raw_def get_udp_def example_protos_def example_stack_def udp_linked_def example_listener_def linked_Cons new_udp_pcb_def udp_target_def
        pcb_has_def full_match_def unconnected_match_def udp_input_local_match_def)
  have recv: "udp_recv_fn example_apps f x y q' z w = ip_free q'" for f x y q' z w by (simp add: example_apps_def)
  have peer: "bufs example_peer = example_net" "dev (rest ?st) = []" by (simp_all add: example_peer_def example_protos_def)
  from udp_end_to_end [OF env examples_ok(1) tx b r l rx(1) examples_ok(3) rx(2) m u, of proto_env example_apps, unfolded recv peer append_Nil] p(1,2)
  show ?thesis by blast
qed

end
